(* ===== verification/Prelude.thy ===== *)
theory Prelude
  imports Main "HOL-Library.Word" "HOL-Library.Monad_Syntax"
begin

text \<open>
  Shared vocabulary of the development: the machine integers of the C sources, byte-level
  loads and stores with their bounds checks, and the list lemmas that the component theories
  use.  A C operation whose behaviour is undefined (an access outside an object, a write
  through a null pointer) or that aborts is the value \<^const>\<open>None\<close> of an \<open>option\<close>, so
  every theorem that says an operation returns \<^const>\<open>Some\<close> also says that it does not fault.
  The target is the little-endian ARM core of the Raspberry Pi, so \<open>cpu_to_be32\<close> and its
  relatives swap bytes.
\<close>

unbundle bit_operations_syntax

named_theorems mem_simps \<open>bounded reads and writes of byte memory\<close>
named_theorems byte_simps \<open>conversions between words and bytes\<close>

type_synonym u8 = "8 word"
type_synonym u16 = "16 word"
type_synonym u32 = "32 word"
type_synonym u64 = "64 word"
type_synonym bytes = "u8 list"

section \<open>Bytes and words\<close>

text \<open>A 32-bit load on the little-endian target, and the four bytes a 32-bit store writes.\<close>

definition le32 :: "bytes \<Rightarrow> u32" where
  "le32 bs = ucast (bs ! 0) OR push_bit 8 (ucast (bs ! 1))
     OR push_bit 16 (ucast (bs ! 2)) OR push_bit 24 (ucast (bs ! 3))"

definition bytes_le32 :: "u32 \<Rightarrow> bytes" where
  "bytes_le32 w = [ucast w, ucast (drop_bit 8 w), ucast (drop_bit 16 w), ucast (drop_bit 24 w)]"

definition le16 :: "bytes \<Rightarrow> u16" where
  "le16 bs = ucast (bs ! 0) OR push_bit 8 (ucast (bs ! 1))"

definition bytes_le16 :: "u16 \<Rightarrow> bytes" where
  "bytes_le16 w = [ucast w, ucast (drop_bit 8 w)]"

definition bytes_le64 :: "u64 \<Rightarrow> bytes" where
  "bytes_le64 w = map (\<lambda>i. ucast (drop_bit (i * 8) w)) [0..<8]"

lemma length_bytes_le32 [simp]: "length (bytes_le32 w) = 4"
  by (simp add: bytes_le32_def)

lemma length_bytes_le16 [simp]: "length (bytes_le16 w) = 2"
  by (simp add: bytes_le16_def)

lemma length_bytes_le64 [simp]: "length (bytes_le64 w) = 8"
  by (simp add: bytes_le64_def)

lemma le32_bytes_le32 [simp, byte_simps]: "le32 (bytes_le32 w @ bs) = w"
proof (rule bit_word_eqI)
  fix n :: nat
  assume "n < LENGTH(32)"
  then consider "n < 8" | "8 \<le> n" "n < 16" | "16 \<le> n" "n < 24" | "24 \<le> n" "n < 32"
    by fastforce
  then show "bit (le32 (bytes_le32 w @ bs)) n = bit w n"
    by cases (auto simp: le32_def bytes_le32_def bit_simps)
qed

lemma le32_bytes_le32_Nil [simp, byte_simps]: "le32 (bytes_le32 w) = w"
  using le32_bytes_le32 [of w "[]"] by simp

lemma not_bit_u8: "8 \<le> n \<Longrightarrow> \<not> bit (b :: u8) n"
  by (auto dest: bit_imp_le_length)

lemma list_of_four: "length xs = 4 \<Longrightarrow> [xs ! 0, xs ! 1, xs ! 2, xs ! 3] = xs"
  by (auto simp: length_Suc_conv numeral_eq_Suc)

lemma bytes_le32_le32:
  assumes "length bs = 4"
  shows "bytes_le32 (le32 bs) = bs"
proof -
  have "bytes_le32 (le32 bs) = [bs ! 0, bs ! 1, bs ! 2, bs ! 3]"
    by (auto simp: le32_def bytes_le32_def bit_simps not_bit_u8 intro!: bit_word_eqI)
  with list_of_four [OF assms] show ?thesis by simp
qed

lemma le16_bytes_le16 [simp, byte_simps]: "le16 (bytes_le16 w @ bs) = w"
  by (rule bit_word_eqI) (auto simp: le16_def bytes_le16_def bit_simps)

lemma le16_bytes_le16_Nil [simp, byte_simps]: "le16 (bytes_le16 w) = w"
  using le16_bytes_le16 [of w "[]"] by simp

text \<open>The byte-order macros of \<open>libubox/utils.h\<close>: on the little-endian target \<open>cpu_to_beN\<close>
  and \<open>beN_to_cpu\<close> swap the bytes of their argument.\<close>

definition bswap32 :: "u32 \<Rightarrow> u32" where
  "bswap32 w = le32 (rev (bytes_le32 w))"

definition u_bswap16 :: "u16 \<Rightarrow> u16" where
  "u_bswap16 val = (drop_bit 8 val AND 0xff) OR push_bit 8 (val AND 0xff)"

definition cpu_to_be32 :: "u32 \<Rightarrow> u32" where
  "cpu_to_be32 x = bswap32 x"

definition be32_to_cpu :: "u32 \<Rightarrow> u32" where
  "be32_to_cpu x = bswap32 x"

definition cpu_to_be16 :: "u16 \<Rightarrow> u16" where
  "cpu_to_be16 x = u_bswap16 x"

definition be16_to_cpu :: "u16 \<Rightarrow> u16" where
  "be16_to_cpu x = u_bswap16 x"

definition bytes_be32 :: "u32 \<Rightarrow> bytes" where
  "bytes_be32 w = rev (bytes_le32 w)"

definition bytes_be16 :: "u16 \<Rightarrow> bytes" where
  "bytes_be16 w = rev (bytes_le16 w)"

definition bytes_be64 :: "u64 \<Rightarrow> bytes" where
  "bytes_be64 w = rev (bytes_le64 w)"

lemma length_bytes_be32 [simp]: "length (bytes_be32 w) = 4"
  by (simp add: bytes_be32_def)

lemma length_bytes_be16 [simp]: "length (bytes_be16 w) = 2"
  by (simp add: bytes_be16_def)

lemma length_bytes_be64 [simp]: "length (bytes_be64 w) = 8"
  by (simp add: bytes_be64_def)

lemma bytes_le32_cpu_to_be32 [byte_simps]: "bytes_le32 (cpu_to_be32 w) = bytes_be32 w"
  by (simp add: cpu_to_be32_def bswap32_def bytes_be32_def bytes_le32_le32)

lemma be32_to_cpu_le32 [byte_simps]: "be32_to_cpu (le32 (bytes_be32 w)) = w"
  by (simp add: be32_to_cpu_def bswap32_def bytes_be32_def bytes_le32_le32)

lemma bswap32_bswap32 [simp]: "bswap32 (bswap32 w) = w"
  by (simp add: bswap32_def bytes_le32_le32)

lemma bit_bswap32:
  "bit (bswap32 w) n \<longleftrightarrow> n < 32 \<and>
     bit w (if n < 8 then n + 24 else if n < 16 then n + 8 else if n < 24 then n - 8 else n - 24)"
proof (cases "n < 32")
  case True
  then consider "n < 8" | "8 \<le> n" "n < 16" | "16 \<le> n" "n < 24" | "24 \<le> n" "n < 32"
    by fastforce
  then show ?thesis
    by cases (auto simp: bswap32_def le32_def bytes_le32_def bit_simps not_bit_u8 add.commute)
qed (auto dest: bit_imp_le_length)

lemma bswap32_and: "bswap32 (v AND w) = bswap32 v AND bswap32 w"
  by (rule bit_word_eqI) (auto simp: bit_bswap32 bit_simps)

lemma bswap32_or: "bswap32 (v OR w) = bswap32 v OR bswap32 w"
  by (rule bit_word_eqI) (auto simp: bit_bswap32 bit_simps)

lemma bswap32_not: "bswap32 (NOT w) = NOT (bswap32 w)"
  by (rule bit_word_eqI) (auto simp: bit_bswap32 bit_simps)

lemma u16_mask: "(0xff :: u16) = mask 8"
  by (simp add: mask_eq_exp_minus_1)

lemma bit_u_bswap16: "bit (u_bswap16 w) n \<longleftrightarrow> n < 16 \<and> bit w (if n < 8 then n + 8 else n - 8)"
  by (auto simp: u_bswap16_def u16_mask bit_simps add.commute)

lemma u_bswap16_u_bswap16 [simp]: "u_bswap16 (u_bswap16 w) = w"
  by (rule bit_word_eqI) (auto simp: bit_u_bswap16)

lemma bytes_le16_cpu_to_be16 [byte_simps]: "bytes_le16 (cpu_to_be16 w) = bytes_be16 w"
  by (auto simp: cpu_to_be16_def bytes_be16_def bytes_le16_def bit_simps bit_u_bswap16 add.commute
      intro!: bit_word_eqI)

lemma be16_to_cpu_le16 [byte_simps]: "be16_to_cpu (le16 (bytes_be16 w)) = w"
proof -
  have "le16 (bytes_be16 w) = cpu_to_be16 w"
    by (simp flip: bytes_le16_cpu_to_be16)
  then show ?thesis by (simp add: be16_to_cpu_def cpu_to_be16_def)
qed

section \<open>Padding to a multiple of four\<close>

definition pad4 :: "nat \<Rightarrow> nat" where
  "pad4 n = (n + 3) div 4 * 4"

lemma pad4_bounds: "n \<le> pad4 n" "pad4 n < n + 4" "4 dvd pad4 n"
  unfolding pad4_def by (arith, arith, simp)

lemma pad4_dvd [simp]: "4 dvd n \<Longrightarrow> pad4 n = n"
  by (auto simp: pad4_def elim!: dvdE)

lemma dvd_pad4 [simp]: "4 dvd pad4 n"
  by (simp add: pad4_def)

lemma u32_and_minus_4: "(w :: u32) AND - 4 = of_nat (unat w div 4 * 4)"
proof -
  have "(- 4 :: u32) = NOT (mask 2)" by (simp add: mask_eq_exp_minus_1)
  moreover have "w AND NOT (mask 2) = push_bit 2 (drop_bit 2 w)"
  proof (rule bit_word_eqI)
    fix n :: nat
    assume "n < LENGTH(32)"
    then show "bit (w AND NOT (mask 2)) n = bit (push_bit 2 (drop_bit 2 w)) n"
      by (cases "2 \<le> n") (auto simp: bit_simps dest!: le_Suc_ex)
  qed
  moreover have "push_bit 2 (drop_bit 2 w) = of_nat (unat w div 4) * 4"
    by (simp add: push_bit_eq_mult drop_bit_eq_div word_arith_nat_div)
  ultimately show ?thesis by simp
qed

lemma unat_of_nat_u32: "n < 2 ^ 32 \<Longrightarrow> unat (of_nat n :: u32) = n"
  by (simp add: unat_of_nat take_bit_nat_eq_self)

lemma u32_pad4: "n < 2 ^ 31 \<Longrightarrow> (of_nat n + 3 :: u32) AND - 4 = of_nat (pad4 n)"
  using unat_of_nat_u32 [of "n + 3"] by (simp add: u32_and_minus_4 pad4_def)

section \<open>Byte memory\<close>

definition mem_read :: "'a list \<Rightarrow> nat \<Rightarrow> nat \<Rightarrow> 'a list option" where
  "mem_read m off n = (if off + n \<le> length m then Some (take n (drop off m)) else None)"

definition mem_write :: "'a list \<Rightarrow> nat \<Rightarrow> 'a list \<Rightarrow> 'a list option" where
  "mem_write m off bs =
     (if off + length bs \<le> length m
      then Some (take off m @ bs @ drop (off + length bs) m) else None)"

lemma mem_write_length: "mem_write m off bs = Some m' \<Longrightarrow> length m' = length m"
  by (auto simp: mem_write_def split: if_splits)

lemma mem_write_Some:
  "off + length bs \<le> length m \<Longrightarrow>
     mem_write m off bs = Some (take off m @ bs @ drop (off + length bs) m)"
  by (simp add: mem_write_def)

lemma mem_read_Some:
  "off + n \<le> length m \<Longrightarrow> mem_read m off n = Some (take n (drop off m))"
  by (simp add: mem_read_def)

lemma mem_read_mid [mem_simps]:
  "length xs = n \<Longrightarrow> mem_read (pre @ xs @ post) (length pre) n = Some xs"
  by (simp add: mem_read_def)

lemma mem_write_mid [mem_simps]:
  "length ys = length xs \<Longrightarrow> mem_write (pre @ xs @ post) (length pre) ys = Some (pre @ ys @ post)"
  by (simp add: mem_write_def)

lemma le32_bytes_be32 [byte_simps]: "le32 (bytes_be32 w) = bswap32 w"
  by (simp add: bswap32_def bytes_be32_def)

lemma sint_of_nat_u32: "n < 2 ^ 31 \<Longrightarrow> sint (of_nat n :: u32) = int n"
  by (simp add: sint_uint signed_take_bit_int_eq_self uint_nat unat_of_nat_u32)

end
