(* ===== verification/Md5.thy ===== *)
theory Md5
  imports Prelude
begin

text \<open>
  The message digest of \<open>libubox/md5.c\<close>: the context with its 128-byte working buffer, the
  block function with its constant tables, the streaming interface \<open>md5_begin\<close>,
  \<open>md5_hash\<close>, \<open>md5_end\<close> and the file driver \<open>md5sum\<close>.  The theory ends with the
  algorithm as RFC 1321 states it and the proof that the streaming code computes it.
\<close>

section \<open>The context\<close>

record md5_ctx =
  ctx_A :: u32
  ctx_B :: u32
  ctx_C :: u32
  ctx_D :: u32
  total :: u64
  buflen :: u32
  buffer :: bytes

definition md5_begin :: "md5_ctx \<Rightarrow> md5_ctx" where
  "md5_begin ctx = ctx\<lparr>ctx_A := 0x67452301, ctx_B := 0xefcdab89, ctx_C := 0x98badcfe,
     ctx_D := 0x10325476, total := 0, buflen := 0\<rparr>"

section \<open>The block function\<close>

definition FF :: "u32 \<Rightarrow> u32 \<Rightarrow> u32 \<Rightarrow> u32" where
  "FF b c d = d XOR (b AND (c XOR d))"

definition FG :: "u32 \<Rightarrow> u32 \<Rightarrow> u32 \<Rightarrow> u32" where
  "FG b c d = FF d b c"

definition FH :: "u32 \<Rightarrow> u32 \<Rightarrow> u32 \<Rightarrow> u32" where
  "FH b c d = b XOR c XOR d"

definition FI :: "u32 \<Rightarrow> u32 \<Rightarrow> u32 \<Rightarrow> u32" where
  "FI b c d = c XOR (b OR NOT d)"

definition C_array :: "u32 list" where
  "C_array =
    [0xd76aa478, 0xe8c7b756, 0x242070db, 0xc1bdceee, 0xf57c0faf, 0x4787c62a, 0xa8304613, 0xfd469501,
     0x698098d8, 0x8b44f7af, 0xffff5bb1, 0x895cd7be, 0x6b901122, 0xfd987193, 0xa679438e, 0x49b40821,
     0xf61e2562, 0xc040b340, 0x265e5a51, 0xe9b6c7aa, 0xd62f105d, 0x2441453, 0xd8a1e681, 0xe7d3fbc8,
     0x21e1cde6, 0xc33707d6, 0xf4d50d87, 0x455a14ed, 0xa9e3e905, 0xfcefa3f8, 0x676f02d9, 0x8d2a4c8a,
     0xfffa3942, 0x8771f681, 0x6d9d6122, 0xfde5380c, 0xa4beea44, 0x4bdecfa9, 0xf6bb4b60, 0xbebfbc70,
     0x289b7ec6, 0xeaa127fa, 0xd4ef3085, 0x4881d05, 0xd9d4d039, 0xe6db99e5, 0x1fa27cf8, 0xc4ac5665,
     0xf4292244, 0x432aff97, 0xab9423a7, 0xfc93a039, 0x655b59c3, 0x8f0ccc92, 0xffeff47d, 0x85845dd1,
     0x6fa87e4f, 0xfe2ce6e0, 0xa3014314, 0x4e0811a1, 0xf7537e82, 0xbd3af235, 0x2ad7d2bb, 0xeb86d391]"

definition P_array :: "nat list" where
  "P_array =
    [0, 1, 2, 3, 4, 5, 6, 7, 8, 9, 10, 11, 12, 13, 14, 15,
     1, 6, 11, 0, 5, 10, 15, 4, 9, 14, 3, 8, 13, 2, 7, 12,
     5, 8, 11, 14, 1, 4, 7, 10, 13, 0, 3, 6, 9, 12, 15, 2,
     0, 7, 14, 5, 12, 3, 10, 1, 8, 15, 6, 13, 4, 11, 2, 9]"

definition S_array :: "nat list" where
  "S_array = [7, 12, 17, 22, 5, 9, 14, 20, 4, 11, 16, 23, 6, 10, 15, 21]"

definition CYCLIC :: "u32 \<Rightarrow> nat \<Rightarrow> u32" where
  "CYCLIC w s = push_bit s w OR drop_bit (32 - s) w"

type_synonym regs = "u32 \<times> u32 \<times> u32 \<times> u32"

text \<open>One iteration of the loop of round \<open>r\<close>, whose mixing function is \<open>F\<close>: the pointers
  \<open>pp\<close> and \<open>pc\<close> have advanced to entry \<open>16 * r + i\<close> and \<open>ps\<close> to entry \<open>4 * r\<close>.\<close>

definition md5_step :: "(u32 \<Rightarrow> u32 \<Rightarrow> u32 \<Rightarrow> u32) \<Rightarrow> nat \<Rightarrow> u32 list \<Rightarrow> nat \<Rightarrow> regs \<Rightarrow> regs" where
  "md5_step F r cwp i = (\<lambda>(A, B, C, D).
     let temp = A + F B C D + cwp ! (P_array ! (16 * r + i)) + C_array ! (16 * r + i);
         temp = CYCLIC temp (S_array ! (4 * r + (i AND 3)));
         temp = temp + B
     in (D, temp, B, C))"

definition md5_round :: "(u32 \<Rightarrow> u32 \<Rightarrow> u32 \<Rightarrow> u32) \<Rightarrow> nat \<Rightarrow> u32 list \<Rightarrow> regs \<Rightarrow> regs" where
  "md5_round F r cwp = fold (md5_step F r cwp) [0..<16]"

text \<open>\<open>correct_words\<close>: on the little-endian target \<open>SWAP_LE32\<close> is the identity.\<close>

definition correct_words :: "bytes \<Rightarrow> u32 list" where
  "correct_words buf = map (\<lambda>i. le32 (drop (4 * i) buf)) [0..<16]"

definition md5_hash_block :: "bytes \<Rightarrow> md5_ctx \<Rightarrow> md5_ctx" where
  "md5_hash_block buf ctx =
     (let cwp = correct_words buf;
          s = (ctx_A ctx, ctx_B ctx, ctx_C ctx, ctx_D ctx);
          s = md5_round FF 0 cwp s;
          s = md5_round FG 1 cwp s;
          s = md5_round FH 2 cwp s;
          (A, B, C, D) = md5_round FI 3 cwp s
      in ctx\<lparr>ctx_A := ctx_A ctx + A, ctx_B := ctx_B ctx + B,
             ctx_C := ctx_C ctx + C, ctx_D := ctx_D ctx + D\<rparr>)"

section \<open>The streaming interface\<close>

text \<open>The loop of \<open>md5_hash\<close>.  \<open>data\<close> is the unread rest of the caller's buffer, so its
  length is \<open>len\<close>.  The loop does not end when \<open>buflen\<close> is 64 on entry, hence an option.\<close>

partial_function (option) md5_hash_loop :: "bytes \<Rightarrow> md5_ctx \<Rightarrow> md5_ctx option" where
  "md5_hash_loop data ctx =
     (if data = [] then Some ctx
      else
        let i = unat (64 - buflen ctx);
            i = (if i > length data then length data else i)
        in Option.bind (mem_write (buffer ctx) (unat (buflen ctx)) (take i data)) (\<lambda>b.
             let ctx = ctx\<lparr>buffer := b, buflen := buflen ctx + of_nat i\<rparr>;
                 ctx = (if buflen ctx = 64 then (md5_hash_block (take 64 (buffer ctx)) ctx)\<lparr>buflen := 0\<rparr>
                        else ctx)
             in md5_hash_loop (drop i data) ctx))"

definition md5_hash :: "bytes \<Rightarrow> md5_ctx \<Rightarrow> md5_ctx option" where
  "md5_hash data ctx = md5_hash_loop data (ctx\<lparr>total := total ctx + of_nat (length data)\<rparr>)"

definition md5_end :: "md5_ctx \<Rightarrow> (bytes \<times> md5_ctx) option" where
  "md5_end ctx =
     do {
       b \<leftarrow> mem_write (buffer ctx) (unat (buflen ctx)) [0x80];
       let n = buflen ctx + 1;
       b \<leftarrow> mem_write b (unat n) (replicate (unat (128 - n)) 0);
       let tot = push_bit 3 (total ctx);
       let buf = (if n > 56 then 64 else 0 :: nat);
       b \<leftarrow> mem_write b (buf + 56) (bytes_le64 tot);
       let ctx = ctx\<lparr>buffer := b, buflen := n, total := tot\<rparr>;
       let ctx = (if buf \<noteq> 0 then md5_hash_block (take 64 b) ctx else ctx);
       let ctx = md5_hash_block (take 64 (drop buf b)) ctx;
       Some (bytes_le32 (ctx_A ctx) @ bytes_le32 (ctx_B ctx)
             @ bytes_le32 (ctx_C ctx) @ bytes_le32 (ctx_D ctx), ctx)
     }"

text \<open>\<open>md5sum\<close> reads a file in pieces of at most 256 bytes.  What \<open>open\<close> and \<open>read\<close> do is
  the environment's choice: \<open>opened\<close> says whether \<open>open\<close> succeeds, and the list holds
  what the successive calls of \<open>read\<close> deliver.  \<^const>\<open>None\<close> stands for a list that ends
  before the file does: the loop is then still waiting for \<open>read\<close>.\<close>

datatype read_result = Read_Data bytes | Read_EINTR | Read_Error

fun md5sum_loop :: "read_result list \<Rightarrow> md5_ctx \<Rightarrow> (int \<times> md5_ctx) option" where
  "md5sum_loop [] ctx = None"
| "md5sum_loop (Read_EINTR # rs) ctx = md5sum_loop rs ctx"
| "md5sum_loop (Read_Error # rs) ctx = Some (- 1, ctx)"
| "md5sum_loop (Read_Data buf # rs) ctx =
     (if buf = [] then Some (0, ctx)
      else Option.bind (md5_hash buf ctx) (md5sum_loop rs))"

definition md5sum :: "bool \<Rightarrow> read_result list \<Rightarrow> md5_ctx \<Rightarrow> (int \<times> bytes) option" where
  "md5sum opened rs ctx0 =
     (let md5 = replicate 16 0
      in if \<not> opened then Some (- 1, md5)
         else
           do {
             (ret, ctx) \<leftarrow> md5sum_loop rs (md5_begin ctx0);
             if ret < 0 then Some (ret, md5)
             else do {
               (res, _) \<leftarrow> md5_end ctx;
               Some (0, res)
             }
           })"

section \<open>RFC 1321\<close>

text \<open>The algorithm as the RFC states it: the auxiliary functions with their conditional
  form, 64 operations that update one of the four registers in place (the register that an
  operation writes moves down by one place each time), the message word selected by its
  index formula and the rotation of a 32-bit word.\<close>

definition rfc_F :: "u32 \<Rightarrow> u32 \<Rightarrow> u32 \<Rightarrow> u32" where
  "rfc_F x y z = (x AND y) OR (NOT x AND z)"

definition rfc_G :: "u32 \<Rightarrow> u32 \<Rightarrow> u32 \<Rightarrow> u32" where
  "rfc_G x y z = (x AND z) OR (y AND NOT z)"

definition rfc_H :: "u32 \<Rightarrow> u32 \<Rightarrow> u32 \<Rightarrow> u32" where
  "rfc_H x y z = x XOR y XOR z"

definition rfc_I :: "u32 \<Rightarrow> u32 \<Rightarrow> u32 \<Rightarrow> u32" where
  "rfc_I x y z = y XOR (x OR NOT z)"

definition rfc_aux :: "nat \<Rightarrow> u32 \<Rightarrow> u32 \<Rightarrow> u32 \<Rightarrow> u32" where
  "rfc_aux r = (if r = 0 then rfc_F else if r = 1 then rfc_G else if r = 2 then rfc_H else rfc_I)"

definition rfc_k :: "nat \<Rightarrow> nat \<Rightarrow> nat" where
  "rfc_k r i = (if r = 0 then i else if r = 1 then 5 * i + 1
     else if r = 2 then 3 * i + 5 else 7 * i) mod 16"

definition rfc_op :: "u32 list \<Rightarrow> nat \<Rightarrow> u32 list \<Rightarrow> u32 list" where
  "rfc_op X j v =
     (let r = j div 16; i = j mod 16; t = 3 * j mod 4;
          a = v ! t; b = v ! ((t + 1) mod 4); c = v ! ((t + 2) mod 4); d = v ! ((t + 3) mod 4)
      in v[t := b + word_rotl (S_array ! (4 * r + i mod 4))
                      (a + rfc_aux r b c d + X ! rfc_k r i + C_array ! j)])"

definition rfc_block :: "u32 list \<Rightarrow> bytes \<Rightarrow> u32 list" where
  "rfc_block v blk = map2 (+) v (fold (rfc_op (correct_words blk)) [0..<64] v)"

fun blocks64 :: "'a list \<Rightarrow> 'a list list" where
  "blocks64 xs = (if xs = [] then [] else take 64 xs # blocks64 (drop 64 xs))"

declare blocks64.simps [simp del]

definition rfc_init :: "u32 list" where
  "rfc_init = [0x67452301, 0xefcdab89, 0x98badcfe, 0x10325476]"

definition rfc_pad :: "bytes \<Rightarrow> bytes" where
  "rfc_pad m = m @ [0x80] @ replicate ((119 - length m mod 64) mod 64) 0
     @ bytes_le64 (of_nat (8 * length m))"

definition rfc_md5 :: "bytes \<Rightarrow> bytes" where
  "rfc_md5 m = concat (map bytes_le32 (foldl rfc_block rfc_init (blocks64 (rfc_pad m))))"

section \<open>The block function computes the RFC's operations\<close>

lemma FF_rfc: "FF = rfc_F"
  by (intro ext bit_word_eqI) (auto simp: FF_def rfc_F_def bit_simps)

lemma FG_rfc: "FG = rfc_G"
  by (intro ext bit_word_eqI) (auto simp: FG_def FF_def rfc_G_def bit_simps)

lemma FH_rfc: "FH = rfc_H"
  by (intro ext) (simp add: FH_def rfc_H_def)

lemma FI_rfc: "FI = rfc_I"
  by (intro ext) (simp add: FI_def rfc_I_def)

lemma CYCLIC_rotl:
  assumes "0 < s" "s < 32"
  shows "CYCLIC w s = word_rotl s w"
proof (rule bit_word_eqI)
  fix n :: nat
  assume n: "n < LENGTH(32)"
  show "bit (CYCLIC w s) n = bit (word_rotl s w) n"
  proof (cases "n < s")
    case True
    with n assms have "(n + (32 - s)) mod 32 = 32 - s + n" by simp
    with True n assms show ?thesis
      by (auto simp: CYCLIC_def bit_simps bit_word_rotl_iff)
  next
    case False
    with n assms have "(n + (32 - s)) mod 32 = n - s"
      by (simp add: mod_if)
    with False n assms show ?thesis
      by (auto simp: CYCLIC_def bit_simps bit_word_rotl_iff dest: bit_imp_le_length)
  qed
qed

lemma P_array_rfc: "\<forall>r < 4. \<forall>i < 16. P_array ! (16 * r + i) = rfc_k r i"
  by code_simp

lemma S_array_bounds: "\<forall>j < 16. 0 < S_array ! j \<and> S_array ! j < 32"
  by code_simp

lemma and_3_mod: "(i :: nat) AND 3 = i mod 4"
  using take_bit_eq_mask [of 2 i] by (simp add: take_bit_eq_mod mask_eq_exp_minus_1)

lemma md5_step_rfc:
  assumes "r < 4" "i < 16"
  shows "md5_step (rfc_aux r) r X i (A, B, C, D) =
    (D, B + word_rotl (S_array ! (4 * r + i mod 4))
          (A + rfc_aux r B C D + X ! rfc_k r i + C_array ! (16 * r + i)), B, C)"
proof -
  have "4 * r + i mod 4 < 16" using assms(1) by arith
  then have "0 < S_array ! (4 * r + i mod 4)" "S_array ! (4 * r + i mod 4) < 32"
    using S_array_bounds by auto
  with P_array_rfc assms show ?thesis
    by (simp add: md5_step_def Let_def and_3_mod CYCLIC_rotl add.commute)
qed

text \<open>The four C variables hold the registers in the order in which operation \<open>j\<close> reads
  them.\<close>

definition reg_view :: "nat \<Rightarrow> u32 list \<Rightarrow> regs" where
  "reg_view j v = (let t = 3 * j mod 4
     in (v ! t, v ! ((t + 1) mod 4), v ! ((t + 2) mod 4), v ! ((t + 3) mod 4)))"

lemma nth_four:
  "[a, b, c, d] ! 0 = a" "[a, b, c, d] ! 1 = b" "[a, b, c, d] ! 2 = c" "[a, b, c, d] ! 3 = d"
  by (simp_all add: numeral_eq_Suc)

lemma update_four:
  "[a, b, c, d][0 := x] = [x, b, c, d]" "[a, b, c, d][1 := x] = [a, x, c, d]"
  "[a, b, c, d][2 := x] = [a, b, x, d]" "[a, b, c, d][3 := x] = [a, b, c, x]"
  by (simp_all add: numeral_eq_Suc)

lemma mod_four: "(0 + 1) mod 4 = (1 :: nat)" "(0 + 2) mod 4 = (2 :: nat)" "(0 + 3) mod 4 = (3 :: nat)"
  "(1 + 1) mod 4 = (2 :: nat)" "(1 + 2) mod 4 = (3 :: nat)" "(1 + 3) mod 4 = (0 :: nat)"
  "(2 + 1) mod 4 = (3 :: nat)" "(2 + 2) mod 4 = (0 :: nat)" "(2 + 3) mod 4 = (1 :: nat)"
  "(3 + 1) mod 4 = (0 :: nat)" "(3 + 2) mod 4 = (1 :: nat)" "(3 + 3) mod 4 = (2 :: nat)"
  by simp_all

lemma reg_view_step:
  assumes "length v = 4" "r < 4" "i < 16"
  shows "md5_step (rfc_aux r) r X i (reg_view (16 * r + i) v) =
     reg_view (Suc (16 * r + i)) (rfc_op X (16 * r + i) v)"
proof -
  define t where "t = 3 * (16 * r + i) mod 4"
  have t: "3 * Suc (16 * r + i) mod 4 = (t + 3) mod 4" unfolding t_def by presburger
  have ri: "(16 * r + i) div 16 = r" "(16 * r + i) mod 16 = i" using assms by auto
  obtain a b c d where v: "v = [a, b, c, d]"
    using list_of_four [OF assms(1)] by metis
  have "t < 4" by (simp add: t_def)
  then consider "t = 0" | "t = 1" | "t = 2" | "t = 3" by linarith
  then show ?thesis
    unfolding reg_view_def rfc_op_def Let_def t ri t_def [symmetric]
    using assms(2,3) by cases (simp_all only: mod_four v nth_four update_four md5_step_rfc)
qed

lemma length_rfc_op [simp]: "length (rfc_op X j v) = length v"
  by (simp add: rfc_op_def Let_def)

lemma length_fold_rfc_op [simp]: "length (fold (rfc_op X) js v) = length v"
  by (induction js arbitrary: v) auto

lemma reg_view_steps:
  assumes "length v = 4" "r < 4" "n \<le> 16"
  shows "fold (md5_step (rfc_aux r) r X) [0..<n] (reg_view (16 * r) v) =
     reg_view (16 * r + n) (fold (rfc_op X) [16 * r..<16 * r + n] v)"
  using assms(3)
proof (induction n)
  case (Suc n)
  then show ?case using assms by (simp add: reg_view_step)
qed simp

lemma md5_round_rfc:
  assumes "length v = 4" "r < 4"
  shows "md5_round (rfc_aux r) r X (reg_view (16 * r) v) =
     reg_view (16 * r + 16) (fold (rfc_op X) [16 * r..<16 * r + 16] v)"
  unfolding md5_round_def using assms by (rule reg_view_steps) simp

definition regs_of :: "md5_ctx \<Rightarrow> u32 list" where
  "regs_of ctx = [ctx_A ctx, ctx_B ctx, ctx_C ctx, ctx_D ctx]"

lemma aux_rfc: "FF = rfc_aux 0" "FG = rfc_aux 1" "FH = rfc_aux 2" "FI = rfc_aux 3"
  by (simp_all add: rfc_aux_def FF_rfc FG_rfc FH_rfc FI_rfc)

lemma upt_64: "[0..<64] = [0..<16] @ [16..<32] @ [32..<48] @ [48..<64::nat]"
  by code_simp

lemma md5_rounds_rfc:
  assumes "length v = 4"
  shows "md5_round FI 3 X (md5_round FH 2 X (md5_round FG 1 X (md5_round FF 0 X (reg_view 0 v)))) =
     reg_view 64 (fold (rfc_op X) [0..<64] v)"
proof -
  define v1 where "v1 = fold (rfc_op X) [0..<16] v"
  define v2 where "v2 = fold (rfc_op X) [16..<32] v1"
  define v3 where "v3 = fold (rfc_op X) [32..<48] v2"
  have len: "length v1 = 4" "length v2 = 4" "length v3 = 4"
    using assms by (simp_all only: v1_def v2_def v3_def length_fold_rfc_op)
  have "md5_round FF 0 X (reg_view 0 v) = reg_view 16 v1"
    using md5_round_rfc [OF assms, of 0 X] by (simp add: aux_rfc v1_def del: upt_rec_numeral)
  moreover have "md5_round FG 1 X (reg_view 16 v1) = reg_view 32 v2"
    using md5_round_rfc [OF len(1), of 1 X] by (simp add: aux_rfc v2_def del: upt_rec_numeral)
  moreover have "md5_round FH 2 X (reg_view 32 v2) = reg_view 48 v3"
    using md5_round_rfc [OF len(2), of 2 X] by (simp add: aux_rfc v3_def del: upt_rec_numeral)
  moreover have "md5_round FI 3 X (reg_view 48 v3) = reg_view 64 (fold (rfc_op X) [48..<64] v3)"
    using md5_round_rfc [OF len(3), of 3 X] by (simp add: aux_rfc del: upt_rec_numeral)
  moreover have "fold (rfc_op X) [48..<64] v3 = fold (rfc_op X) [0..<64] v"
    unfolding upt_64 fold_append comp_apply v1_def v2_def v3_def ..
  ultimately show ?thesis by simp
qed

lemma regs_of_hash_block: "regs_of (md5_hash_block buf ctx) = rfc_block (regs_of ctx) buf"
proof -
  define w where "w = fold (rfc_op (correct_words buf)) [0..<64] (regs_of ctx)"
  have "length w = 4" unfolding w_def length_fold_rfc_op by (simp add: regs_of_def)
  then have w: "[w ! 0, w ! 1, w ! 2, w ! 3] = w" by (rule list_of_four)
  have "md5_round FI 3 (correct_words buf) (md5_round FH 2 (correct_words buf)
      (md5_round FG 1 (correct_words buf) (md5_round FF 0 (correct_words buf)
        (reg_view 0 (regs_of ctx))))) = reg_view 64 w"
    unfolding w_def by (rule md5_rounds_rfc) (simp add: regs_of_def)
  moreover have "reg_view 0 (regs_of ctx) = (ctx_A ctx, ctx_B ctx, ctx_C ctx, ctx_D ctx)"
    unfolding reg_view_def regs_of_def Let_def by (simp only: mult_0_right mod_0 mod_four nth_four)
  moreover have "reg_view 64 w = (w ! 0, w ! 1, w ! 2, w ! 3)"
  proof -
    have "3 * 64 mod 4 = (0 :: nat)" by simp
    then show ?thesis unfolding reg_view_def Let_def by (simp only: mod_four)
  qed
  ultimately have "regs_of (md5_hash_block buf ctx) =
      map2 (+) (regs_of ctx) [w ! 0, w ! 1, w ! 2, w ! 3]"
    by (simp add: md5_hash_block_def regs_of_def Let_def)
  then show ?thesis unfolding w by (simp only: rfc_block_def w_def)
qed

lemma md5_hash_block_frame [simp]:
  "total (md5_hash_block b ctx) = total ctx" "buflen (md5_hash_block b ctx) = buflen ctx"
  "buffer (md5_hash_block b ctx) = buffer ctx"
  by (simp_all add: md5_hash_block_def Let_def split: prod.splits)

section \<open>Streaming\<close>

lemma blocks64_Nil [simp]: "blocks64 [] = []"
  by (simp add: blocks64.simps)

lemma blocks64_append:
  "64 dvd length xs \<Longrightarrow> blocks64 (xs @ ys) = blocks64 xs @ blocks64 ys"
proof (induction xs rule: blocks64.induct)
  case (1 xs)
  show ?case
  proof (cases "xs = []")
    case False
    with "1.prems" have "64 \<le> length xs" by (auto simp: dvd_imp_le)
    with False "1" show ?thesis
      by (simp add: blocks64.simps [of "xs @ ys"] blocks64.simps [of xs])
  qed simp
qed

lemma blocks64_one: "length b = 64 \<Longrightarrow> blocks64 b = [b]"
  by (subst blocks64.simps) auto

text \<open>The context represents the message \<open>m\<close>: the full blocks of \<open>m\<close> are in the registers
  and its rest is at the start of the buffer.\<close>

definition md5_abs :: "bytes \<Rightarrow> md5_ctx \<Rightarrow> bool" where
  "md5_abs m ctx \<longleftrightarrow> length (buffer ctx) = 128 \<and>
     (\<exists>full rest. m = full @ rest \<and> 64 dvd length full \<and> length rest < 64 \<and>
        buflen ctx = of_nat (length rest) \<and> take (length rest) (buffer ctx) = rest \<and>
        regs_of ctx = foldl rfc_block rfc_init (blocks64 full))"

lemma md5_absI:
  assumes "m = full @ rest" "64 dvd length full" "length rest < 64" "length (buffer ctx) = 128"
    "buflen ctx = of_nat (length rest)" "take (length rest) (buffer ctx) = rest"
    "regs_of ctx = foldl rfc_block rfc_init (blocks64 full)"
  shows "md5_abs m ctx"
  using assms by (auto simp: md5_abs_def)

lemma u32_diff: "m \<le> n \<Longrightarrow> n < 2 ^ 32 \<Longrightarrow> unat (of_nat n - of_nat m :: u32) = n - m"
  by (metis of_nat_diff unat_of_nat_u32 diff_le_self le_less_trans)

lemma md5_abs_begin: "length (buffer ctx) = 128 \<Longrightarrow> md5_abs [] (md5_begin ctx)"
  by (auto simp: md5_abs_def md5_begin_def regs_of_def rfc_init_def)

lemma regs_of_frame [simp]:
  "regs_of (ctx\<lparr>buffer := b\<rparr>) = regs_of ctx" "regs_of (ctx\<lparr>buflen := n\<rparr>) = regs_of ctx"
  "regs_of (ctx\<lparr>total := t\<rparr>) = regs_of ctx"
  by (simp_all add: regs_of_def)

text \<open>One copy into the buffer.\<close>

lemma md5_abs_copy:
  assumes abs: "md5_abs m ctx" and "data \<noteq> []"
  defines "i \<equiv> min (unat (64 - buflen ctx)) (length data)"
  obtains b ctx' where "0 < i" "mem_write (buffer ctx) (unat (buflen ctx)) (take i data) = Some b"
    "ctx' = (let ctx = ctx\<lparr>buffer := b, buflen := buflen ctx + of_nat i\<rparr> in
       if buflen ctx = 64 then (md5_hash_block (take 64 (buffer ctx)) ctx)\<lparr>buflen := 0\<rparr> else ctx)"
    "md5_abs (m @ take i data) ctx'" "total ctx' = total ctx"
proof -
  from abs obtain full rest where m: "m = full @ rest" and full: "64 dvd length full"
    and rest: "length rest < 64" "buflen ctx = of_nat (length rest)"
      "take (length rest) (buffer ctx) = rest"
    and regs: "regs_of ctx = foldl rfc_block rfc_init (blocks64 full)"
    and len: "length (buffer ctx) = 128"
    by (auto simp: md5_abs_def)
  have 64: "unat (64 - buflen ctx) = 64 - length rest"
    using u32_diff [of "length rest" 64] rest by simp
  have i: "0 < i" "i \<le> length data" "length rest + i \<le> 64"
    using assms(2) rest 64 by (auto simp: i_def)
  define b where "b = rest @ take i data @ drop (length rest + i) (buffer ctx)"
  have w: "mem_write (buffer ctx) (unat (buflen ctx)) (take i data) = Some b"
    using len i rest by (simp add: b_def mem_write_def unat_of_nat_u32)
  have b: "length b = 128" "take (length rest + i) b = rest @ take i data"
    using len i rest by (auto simp: b_def)
  define c where "c = ctx\<lparr>buffer := b, buflen := buflen ctx + of_nat i\<rparr>"
  have bl: "buflen c = of_nat (length rest + i)" by (simp add: c_def rest)
  show thesis
  proof (cases "length rest + i = 64")
    case True
    then have "buflen c = 64" using bl by simp
    moreover have "md5_abs (m @ take i data) ((md5_hash_block (take 64 b) c)\<lparr>buflen := 0\<rparr>)"
      using True b full regs i
      by (intro md5_absI [of _ "full @ rest @ take i data" "[]"])
        (simp_all add: m c_def regs_of_hash_block blocks64_append blocks64_one)
    ultimately show ?thesis
      by (intro that [OF i(1) w refl]) (simp_all add: c_def)
  next
    case False
    then have lt: "length rest + i < 64" using i by simp
    then have "buflen c \<noteq> 64" using bl unat_of_nat_u32 [of "length rest + i"] by fastforce
    moreover have "md5_abs (m @ take i data) c"
      using lt b full regs i bl
      by (intro md5_absI [of _ full "rest @ take i data"]) (simp_all add: m c_def)
    ultimately show ?thesis
      by (intro that [OF i(1) w refl]) (simp_all add: c_def)
  qed
qed

lemma md5_hash_loop_abs:
  "md5_abs m ctx \<Longrightarrow>
     \<exists>ctx'. md5_hash_loop data ctx = Some ctx' \<and> md5_abs (m @ data) ctx' \<and> total ctx' = total ctx"
proof (induction data arbitrary: m ctx rule: length_induct)
  case (1 data)
  show ?case
  proof (cases "data = []")
    case True
    with "1.prems" show ?thesis by (simp add: md5_hash_loop.simps)
  next
    case False
    define i where "i = min (unat (64 - buflen ctx)) (length data)"
    from md5_abs_copy [OF "1.prems" False] obtain b ctx1 where s: "0 < i"
      "mem_write (buffer ctx) (unat (buflen ctx)) (take i data) = Some b"
      "ctx1 = (let ctx = ctx\<lparr>buffer := b, buflen := buflen ctx + of_nat i\<rparr> in
       if buflen ctx = 64 then (md5_hash_block (take 64 (buffer ctx)) ctx)\<lparr>buflen := 0\<rparr> else ctx)"
      "md5_abs (m @ take i data) ctx1" "total ctx1 = total ctx"
      unfolding i_def by blast
    have "length (drop i data) < length data" using s(1) False by simp
    with "1.IH" s(4) obtain ctx' where "md5_hash_loop (drop i data) ctx1 = Some ctx'"
      "md5_abs ((m @ take i data) @ drop i data) ctx'" "total ctx' = total ctx1"
      by blast
    moreover have "(if unat (64 - buflen ctx) > length data then length data
        else unat (64 - buflen ctx)) = i" by (auto simp: i_def)
    then have "md5_hash_loop data ctx = md5_hash_loop (drop i data) ctx1"
      using False s(2) by (subst md5_hash_loop.simps) (simp add: Let_def s(3))
    ultimately show ?thesis using s(5) by auto
  qed
qed

lemma md5_hash_abs:
  assumes "md5_abs m ctx" "total ctx = of_nat (length m)"
  obtains ctx' where "md5_hash data ctx = Some ctx'" "md5_abs (m @ data) ctx'"
    "total ctx' = of_nat (length (m @ data))"
proof -
  have "md5_abs m (ctx\<lparr>total := total ctx + of_nat (length data)\<rparr>)"
    using assms by (auto simp: md5_abs_def)
  from md5_hash_loop_abs [OF this, of data] assms that show thesis
    by (auto simp: md5_hash_def)
qed

lemma md5_end_abs:
  assumes abs: "md5_abs m ctx" and tot: "total ctx = of_nat (length m)"
  obtains ctx' where "md5_end ctx = Some (rfc_md5 m, ctx')"
proof -
  from abs obtain full rest where m: "m = full @ rest" and full: "64 dvd length full"
    and rest: "length rest < 64" "buflen ctx = of_nat (length rest)"
      "take (length rest) (buffer ctx) = rest"
    and regs: "regs_of ctx = foldl rfc_block rfc_init (blocks64 full)"
    and len: "length (buffer ctx) = 128"
    by (auto simp: md5_abs_def)
  define n where "n = length rest + 1"
  define L where "L = bytes_le64 (of_nat (8 * length m))"
  have n: "0 < n" "n \<le> 64" "buflen ctx + 1 = of_nat n" "unat (of_nat n :: u32) = n"
    "unat (128 - of_nat n :: u32) = 128 - n"
    using rest u32_diff [of n 128] unat_of_nat_u32 [of n] by (auto simp: n_def)
  have big: "(56 :: u32) < of_nat n \<longleftrightarrow> 56 < n" by (simp add: word_less_nat_alt n)
  have shift: "push_bit 3 (total ctx) = of_nat (8 * length m)"
    by (simp add: tot push_bit_eq_mult)
  have mod: "length m mod 64 = n - 1" using full rest by (auto simp: m n_def)
  have regs4: "bytes_le32 (ctx_A c) @ bytes_le32 (ctx_B c) @ bytes_le32 (ctx_C c)
      @ bytes_le32 (ctx_D c) = concat (map bytes_le32 (regs_of c))" for c
    by (simp add: regs_of_def)
  have w1: "mem_write (buffer ctx) (unat (buflen ctx)) [0x80] =
      Some (rest @ [0x80] @ drop n (buffer ctx))"
    using rest len by (simp add: mem_write_def unat_of_nat_u32 n_def)
  have w2: "mem_write (rest @ [0x80] @ drop n (buffer ctx)) n (replicate (128 - n) 0) =
      Some (rest @ [0x80] @ replicate (128 - n) 0)"
    using len n by (simp add: mem_write_def n_def)
  show thesis
  proof (cases "56 < n")
    case True
    define b where "b = rest @ [0x80] @ replicate (120 - n) 0 @ L"
    have b: "length b = 128" using True n by (simp add: b_def L_def n_def)
    have w3: "mem_write (rest @ [0x80] @ replicate (128 - n) 0) (64 + 56) L = Some b"
      using True n by (simp add: mem_write_def b_def n_def L_def take_Cons')
    have "(119 - length m mod 64) mod 64 = 120 - n" using True n mod by simp
    then have "blocks64 (rfc_pad m) = blocks64 full @ blocks64 b"
      using full by (simp add: rfc_pad_def m b_def L_def blocks64_append)
    also have "blocks64 b = [take 64 b, take 64 (drop 64 b)]"
      using b blocks64_append [of "take 64 b" "drop 64 b"] by (simp add: blocks64_one)
    finally have "rfc_md5 m = concat (map bytes_le32 (rfc_block (rfc_block (regs_of ctx) (take 64 b))
        (take 64 (drop 64 b))))"
      by (simp add: rfc_md5_def regs)
    with True w1 w2 w3 show ?thesis
      by (intro that) (simp add: md5_end_def n shift big L_def Let_def regs4 regs_of_hash_block)
  next
    case False
    define b where "b = rest @ [0x80] @ replicate (56 - n) 0 @ L @ replicate 64 0"
    have w3: "mem_write (rest @ [0x80] @ replicate (128 - n) 0) 56 L = Some b"
      using False n by (simp add: mem_write_def b_def n_def L_def take_Cons' drop_Cons')
    have b: "take 64 b = rest @ [0x80] @ replicate (56 - n) 0 @ L"
      using False n by (simp add: b_def L_def n_def take_Cons')
    have "(119 - length m mod 64) mod 64 = 56 - n" using False n mod by (simp add: mod_if)
    then have "blocks64 (rfc_pad m) = blocks64 full @ blocks64 (take 64 b)"
      using full by (simp add: rfc_pad_def m b L_def blocks64_append)
    also have "\<dots> = blocks64 full @ [take 64 b]"
      using False n by (subst blocks64_one) (simp_all add: b_def L_def n_def)
    finally have "rfc_md5 m = concat (map bytes_le32 (rfc_block (regs_of ctx) (take 64 b)))"
      by (simp add: rfc_md5_def regs)
    with False w1 w2 w3 show ?thesis
      by (intro that) (simp add: md5_end_def n shift big L_def Let_def regs4 regs_of_hash_block)
  qed
qed

section \<open>Properties\<close>

text \<open>Feeding a message in pieces.\<close>

fun md5_hash_all :: "bytes list \<Rightarrow> md5_ctx \<Rightarrow> md5_ctx option" where
  "md5_hash_all [] ctx = Some ctx"
| "md5_hash_all (c # cs) ctx = Option.bind (md5_hash c ctx) (md5_hash_all cs)"

lemma md5_hash_all_abs:
  assumes "md5_abs m ctx" "total ctx = of_nat (length m)"
  shows "\<exists>ctx'. md5_hash_all cs ctx = Some ctx' \<and> md5_abs (m @ concat cs) ctx' \<and>
     total ctx' = of_nat (length (m @ concat cs))"
  using assms
proof (induction cs arbitrary: m ctx)
  case (Cons c cs)
  from md5_hash_abs [OF Cons.prems] obtain ctx1 where "md5_hash c ctx = Some ctx1"
    "md5_abs (m @ c) ctx1" "total ctx1 = of_nat (length (m @ c))" .
  with Cons.IH [of "m @ c" ctx1] show ?case by simp
qed simp

text \<open>C1. The streaming interface computes MD5 as RFC 1321 defines it: from a context with
  its 128-byte buffer, \<open>md5_begin\<close>, one \<open>md5_hash\<close> for each piece of a message, whatever the
  pieces, and \<open>md5_end\<close> return without leaving the buffer and deliver the digest of the
  whole message.\<close>

theorem md5_stream_correct:
  assumes "length (buffer ctx) = 128"
  shows "\<exists>ctx1 ctx2. md5_hash_all chunks (md5_begin ctx) = Some ctx1 \<and>
     md5_end ctx1 = Some (rfc_md5 (concat chunks), ctx2)"
proof -
  have "total (md5_begin ctx) = of_nat (length ([] :: bytes))" by (simp add: md5_begin_def)
  with md5_hash_all_abs [OF md5_abs_begin [OF assms]] obtain ctx1 where
    "md5_hash_all chunks (md5_begin ctx) = Some ctx1" "md5_abs (concat chunks) ctx1"
    "total ctx1 = of_nat (length (concat chunks))"
    by fastforce
  with md5_end_abs [of "concat chunks" ctx1] show ?thesis by blast
qed

definition md5_ctx0 :: md5_ctx where
  "md5_ctx0 = \<lparr>ctx_A = 0, ctx_B = 0, ctx_C = 0, ctx_D = 0, total = 0, buflen = 7,
     buffer = replicate 128 0xff\<rparr>"

theorem md5_stream_correct_witness:
  "\<exists>ctx1 ctx2. md5_hash_all [[0x61], [], [0x62, 0x63]] (md5_begin md5_ctx0) = Some ctx1 \<and>
     md5_end ctx1 = Some (rfc_md5 [0x61, 0x62, 0x63], ctx2)"
  using md5_stream_correct [of md5_ctx0 "[[0x61], [], [0x62, 0x63]]"] by (simp add: md5_ctx0_def)

lemma rfc_md5_empty:
  "rfc_md5 [] = [0xd4, 0x1d, 0x8c, 0xd9, 0x8f, 0x00, 0xb2, 0x04,
                 0xe9, 0x80, 0x09, 0x98, 0xec, 0xf8, 0x42, 0x7e]"
  by code_simp

text \<open>What a sequence of successful \<open>read\<close> calls delivers.\<close>

fun read_bytes :: "read_result list \<Rightarrow> bytes" where
  "read_bytes (Read_Data bs # rs) = bs @ read_bytes rs"
| "read_bytes (r # rs) = read_bytes rs"
| "read_bytes [] = []"

definition reads_ok :: "read_result list \<Rightarrow> bool" where
  "reads_ok rs \<longleftrightarrow> list_all (\<lambda>r. r \<noteq> Read_Error \<and> r \<noteq> Read_Data []) rs"

lemma md5sum_loop_abs:
  assumes "md5_abs m ctx" "total ctx = of_nat (length m)" "reads_ok rs"
  shows "\<exists>ctx'. md5_abs (m @ read_bytes rs) ctx' \<and> total ctx' = of_nat (length (m @ read_bytes rs)) \<and>
     md5sum_loop (rs @ tail) ctx = md5sum_loop tail ctx'"
  using assms
proof (induction rs arbitrary: m ctx rule: read_bytes.induct)
  case (1 bs rs)
  from md5_hash_abs [OF "1.prems"(1,2)] obtain ctx1 where "md5_hash bs ctx = Some ctx1"
    "md5_abs (m @ bs) ctx1" "total ctx1 = of_nat (length (m @ bs))" .
  with "1.IH" [of "m @ bs" ctx1] "1.prems" show ?case by (auto simp: reads_ok_def)
qed (auto simp: reads_ok_def)

text \<open>C2. \<open>md5sum\<close> on a file whose reads deliver data in any pieces, possibly interrupted by
  signals, up to the end of the file: it returns 0 and the digest of the file's bytes.  When
  instead a read fails it returns -1 and the result buffer holds zeros.\<close>

theorem md5sum_correct:
  assumes "length (buffer ctx) = 128" "reads_ok rs"
  shows "md5sum True (rs @ Read_Data [] # tail) ctx = Some (0, rfc_md5 (read_bytes rs)) \<and>
     md5sum True (rs @ Read_Error # tail) ctx = Some (- 1, replicate 16 0)"
proof -
  have tot: "total (md5_begin ctx) = of_nat (length ([] :: bytes))" by (simp add: md5_begin_def)
  note loop = md5sum_loop_abs [OF md5_abs_begin [OF assms(1)] tot assms(2)]
  obtain ctx1 where 1: "md5_abs (read_bytes rs) ctx1" "total ctx1 = of_nat (length (read_bytes rs))"
    "md5sum_loop (rs @ Read_Data [] # tail) (md5_begin ctx) = Some (0, ctx1)"
    using loop [of "Read_Data [] # tail"] by auto
  from md5_end_abs [OF 1(1,2)] obtain ctx2 where "md5_end ctx1 = Some (rfc_md5 (read_bytes rs), ctx2)" .
  moreover obtain ctx3 where
    "md5sum_loop (rs @ Read_Error # tail) (md5_begin ctx) = Some (- 1, ctx3)"
    using loop [of "Read_Error # tail"] by auto
  ultimately show ?thesis using 1(3) by (simp add: md5sum_def)
qed

theorem md5sum_correct_witness:
  "md5sum True [Read_Data [0x61], Read_EINTR, Read_Data [0x62, 0x63], Read_Data []] md5_ctx0 =
     Some (0, rfc_md5 [0x61, 0x62, 0x63]) \<and>
   md5sum True [Read_Data [0x61], Read_EINTR, Read_Data [0x62, 0x63], Read_Error] md5_ctx0 =
     Some (- 1, replicate 16 0)"
  using md5sum_correct [of md5_ctx0 "[Read_Data [0x61], Read_EINTR, Read_Data [0x62, 0x63]]" "[]"]
  by (simp add: md5_ctx0_def reads_ok_def)

end
