(* ===== verification/Blob.thy ===== *)
theory Blob
  imports Prelude
begin

text \<open>
  Tagged binary attributes, \<open>libubox/blob.h\<close> and \<open>blob.c\<close>.  An attribute is a 32-bit
  big-endian word (extended flag, 7-bit id, 24-bit length including the word) and its payload,
  padded to a multiple of four bytes.  A pointer to an attribute is an offset into byte memory.
  A \<open>blob_buf\<close> is the memory that \<open>realloc\<close> returned (\<^const>\<open>None\<close> for a null pointer), its
  size and the offset of the container that is being filled.  Whether \<open>realloc\<close> can provide a
  block of a given size is the parameter \<open>ok\<close> of every operation that may grow the buffer.
  The only \<open>grow\<close> callback in the sources is \<open>blob_buffer_grow\<close>, so the callback pointer is
  a flag that says whether it is set.
\<close>

section \<open>Attributes\<close>

definition BLOB_COOKIE :: int where
  "BLOB_COOKIE = 0x01234567"

definition BLOB_ATTR_ID_MASK :: u32 where
  "BLOB_ATTR_ID_MASK = 0x7f000000"

definition BLOB_ATTR_LEN_MASK :: u32 where
  "BLOB_ATTR_LEN_MASK = 0x00ffffff"

definition BLOB_ATTR_EXTENDED :: u32 where
  "BLOB_ATTR_EXTENDED = 0x80000000"

datatype blob_attr_type = BLOB_ATTR_UNSPEC | BLOB_ATTR_NESTED | BLOB_ATTR_BINARY
  | BLOB_ATTR_STRING | BLOB_ATTR_INT8 | BLOB_ATTR_INT16 | BLOB_ATTR_INT32 | BLOB_ATTR_INT64

text \<open>\<open>attr->id_len\<close>: the word as it is in memory.\<close>

definition id_len :: "bytes \<Rightarrow> nat \<Rightarrow> u32 option" where
  "id_len m attr = map_option le32 (mem_read m attr 4)"

definition set_id_len :: "bytes \<Rightarrow> nat \<Rightarrow> u32 \<Rightarrow> bytes option" where
  "set_id_len m attr w = mem_write m attr (bytes_le32 w)"

definition blob_data :: "nat \<Rightarrow> nat" where
  "blob_data attr = attr + 4"

definition blob_id :: "bytes \<Rightarrow> nat \<Rightarrow> u32 option" where
  "blob_id m attr = do {
     w \<leftarrow> id_len m attr;
     Some (drop_bit 24 (be32_to_cpu w AND BLOB_ATTR_ID_MASK))
   }"

definition blob_is_extended :: "bytes \<Rightarrow> nat \<Rightarrow> bool option" where
  "blob_is_extended m attr = do {
     w \<leftarrow> id_len m attr;
     Some (w AND cpu_to_be32 BLOB_ATTR_EXTENDED \<noteq> 0)
   }"

definition blob_len :: "bytes \<Rightarrow> nat \<Rightarrow> u32 option" where
  "blob_len m attr = do {
     w \<leftarrow> id_len m attr;
     Some ((be32_to_cpu w AND BLOB_ATTR_LEN_MASK) - 4)
   }"

definition blob_raw_len :: "bytes \<Rightarrow> nat \<Rightarrow> u32 option" where
  "blob_raw_len m attr = do {
     len \<leftarrow> blob_len m attr;
     Some (len + 4)
   }"

definition blob_pad_len :: "bytes \<Rightarrow> nat \<Rightarrow> u32 option" where
  "blob_pad_len m attr = do {
     len \<leftarrow> blob_raw_len m attr;
     Some ((len + 4 - 1) AND NOT (4 - 1))
   }"

definition blob_next :: "bytes \<Rightarrow> nat \<Rightarrow> nat option" where
  "blob_next m attr = do {
     len \<leftarrow> blob_pad_len m attr;
     Some (attr + unat len)
   }"

definition blob_get_u8 :: "bytes \<Rightarrow> nat \<Rightarrow> u8 option" where
  "blob_get_u8 m attr = map_option hd (mem_read m (blob_data attr) 1)"

definition blob_get_u16 :: "bytes \<Rightarrow> nat \<Rightarrow> u16 option" where
  "blob_get_u16 m attr = do {
     tmp \<leftarrow> mem_read m (blob_data attr) 2;
     Some (be16_to_cpu (le16 tmp))
   }"

definition blob_get_u32 :: "bytes \<Rightarrow> nat \<Rightarrow> u32 option" where
  "blob_get_u32 m attr = do {
     tmp \<leftarrow> mem_read m (blob_data attr) 4;
     Some (be32_to_cpu (le32 tmp))
   }"

definition blob_get_u64 :: "bytes \<Rightarrow> nat \<Rightarrow> u64 option" where
  "blob_get_u64 m attr = do {
     p0 \<leftarrow> mem_read m (blob_data attr) 4;
     let tmp = push_bit 32 (ucast (be32_to_cpu (le32 p0)));
     p1 \<leftarrow> mem_read m (blob_data attr + 4) 4;
     Some (tmp OR ucast (be32_to_cpu (le32 p1)))
   }"

definition blob_init :: "bytes \<Rightarrow> nat \<Rightarrow> u32 \<Rightarrow> nat \<Rightarrow> bytes option" where
  "blob_init m attr aid len =
     (let w = of_nat len AND BLOB_ATTR_LEN_MASK;
          w = w OR (push_bit 24 aid AND BLOB_ATTR_ID_MASK)
      in set_id_len m attr (cpu_to_be32 w))"

definition blob_fill_pad :: "bytes \<Rightarrow> nat \<Rightarrow> bytes option" where
  "blob_fill_pad m attr = do {
     len \<leftarrow> blob_pad_len m attr;
     raw \<leftarrow> blob_raw_len m attr;
     let delta = len - raw;
     if 0 <s delta then mem_write m (attr + unat len - unat delta) (replicate (unat delta) 0)
     else Some m
   }"

definition blob_set_raw_len :: "bytes \<Rightarrow> nat \<Rightarrow> u32 \<Rightarrow> bytes option" where
  "blob_set_raw_len m attr len = do {
     let len = len AND BLOB_ATTR_LEN_MASK;
     w \<leftarrow> id_len m attr;
     let w = w AND NOT (cpu_to_be32 BLOB_ATTR_LEN_MASK);
     set_id_len m attr (w OR cpu_to_be32 len)
   }"

section \<open>The buffer\<close>

record blob_buf =
  blob_head :: nat
  blob_grow :: bool
  blob_buflen :: nat
  blob_mem :: "bytes option"

definition blob_buffer_grow :: "(nat \<Rightarrow> bool) \<Rightarrow> blob_buf \<Rightarrow> nat \<Rightarrow> blob_buf \<times> bool" where
  "blob_buffer_grow ok b minlen =
     (let delta = (minlen div 256 + 1) * 256;
          n = blob_buflen b + delta;
          old = (case blob_mem b of None \<Rightarrow> [] | Some m \<Rightarrow> m)
      in if ok n then (b\<lparr>blob_buflen := n, blob_mem := Some (old @ replicate delta 0)\<rparr>, True)
         else (b\<lparr>blob_buflen := n, blob_mem := None\<rparr>, False))"

definition offset_to_attr :: "int \<Rightarrow> nat" where
  "offset_to_attr off = nat (off - BLOB_COOKIE)"

definition attr_to_offset :: "nat \<Rightarrow> int" where
  "attr_to_offset attr = int attr + BLOB_COOKIE"

definition blob_buf_grow :: "(nat \<Rightarrow> bool) \<Rightarrow> blob_buf \<Rightarrow> nat \<Rightarrow> blob_buf" where
  "blob_buf_grow ok b required =
     (let offset_head = attr_to_offset (blob_head b)
      in if \<not> blob_grow b then b
         else let (b', res) = blob_buffer_grow ok b required
              in if \<not> res then b' else b'\<lparr>blob_head := offset_to_attr offset_head\<rparr>)"

text \<open>\<open>blob_add\<close> writes through its pointer whether or not the buffer could be grown; without a buffer the
  write faults, which is \<^const>\<open>None\<close>.\<close>

definition blob_add :: "(nat \<Rightarrow> bool) \<Rightarrow> blob_buf \<Rightarrow> nat \<Rightarrow> u32 \<Rightarrow> nat \<Rightarrow> (nat \<times> blob_buf) option" where
  "blob_add ok b pos aid payload =
     (let offset = attr_to_offset pos;
          required = (offset - BLOB_COOKIE + 4 + int payload) - int (blob_buflen b);
          (attr, b) = (if 0 < required
                       then (offset_to_attr offset, blob_buf_grow ok b (nat required))
                       else (pos, b))
      in do {
        m \<leftarrow> blob_mem b;
        m \<leftarrow> blob_init m attr aid (payload + 4);
        m \<leftarrow> blob_fill_pad m attr;
        Some (attr, b\<lparr>blob_mem := Some m\<rparr>)
      })"

text \<open>The pointer to the attribute at an offset is null when there is no buffer and the offset is 0.\<close>

definition attr_null :: "blob_buf \<Rightarrow> nat \<Rightarrow> bool" where
  "attr_null b attr \<longleftrightarrow> blob_mem b = None \<and> attr = 0"

abbreviation ENOMEM :: int where "ENOMEM \<equiv> 12"

definition blob_buf_init :: "(nat \<Rightarrow> bool) \<Rightarrow> blob_buf \<Rightarrow> u32 \<Rightarrow> (int \<times> blob_buf) option" where
  "blob_buf_init ok b aid =
     (let b = (if \<not> blob_grow b then b\<lparr>blob_grow := True\<rparr> else b);
          b = b\<lparr>blob_head := 0\<rparr>
      in do {
        (attr, b) \<leftarrow> blob_add ok b 0 aid 0;
        if attr_null b attr then Some (- ENOMEM, b) else Some (0, b)
      })"

definition blob_buf_free :: "blob_buf \<Rightarrow> blob_buf" where
  "blob_buf_free b = b\<lparr>blob_mem := None, blob_buflen := 0\<rparr>"

definition blob_new :: "(nat \<Rightarrow> bool) \<Rightarrow> blob_buf \<Rightarrow> u32 \<Rightarrow> nat \<Rightarrow> (nat \<times> blob_buf) option" where
  "blob_new ok b aid payload = do {
     m \<leftarrow> blob_mem b;
     pos \<leftarrow> blob_next m (blob_head b);
     (attr, b) \<leftarrow> blob_add ok b pos aid payload;
     if attr_null b attr then Some (attr, b)
     else do {
       m \<leftarrow> blob_mem b;
       hl \<leftarrow> blob_pad_len m (blob_head b);
       al \<leftarrow> blob_pad_len m attr;
       m \<leftarrow> blob_set_raw_len m (blob_head b) (hl + al);
       Some (attr, b\<lparr>blob_mem := Some m\<rparr>)
     }
   }"

text \<open>\<open>blob_put_raw\<close> and \<open>blob_put\<close>: the outer option is a fault, the inner one a null
  result; \<open>ptr\<close> is \<^const>\<open>None\<close> for a null pointer.\<close>

definition blob_put_raw ::
  "(nat \<Rightarrow> bool) \<Rightarrow> blob_buf \<Rightarrow> bytes option \<Rightarrow> nat \<Rightarrow> (nat option \<times> blob_buf) option" where
  "blob_put_raw ok b ptr len =
     (if len < 4 \<or> ptr = None then Some (None, b)
      else do {
        m \<leftarrow> blob_mem b;
        pos \<leftarrow> blob_next m (blob_head b);
        (attr, b) \<leftarrow> blob_add ok b pos 0 (len - 4);
        m \<leftarrow> blob_mem b;
        hl \<leftarrow> blob_pad_len m (blob_head b);
        m \<leftarrow> blob_set_raw_len m (blob_head b) (hl + of_nat len);
        src \<leftarrow> ptr;
        src \<leftarrow> mem_read src 0 len;
        m \<leftarrow> mem_write m attr src;
        Some (Some attr, b\<lparr>blob_mem := Some m\<rparr>)
      })"

definition blob_put ::
  "(nat \<Rightarrow> bool) \<Rightarrow> blob_buf \<Rightarrow> u32 \<Rightarrow> bytes option \<Rightarrow> nat \<Rightarrow> (nat \<times> blob_buf) option" where
  "blob_put ok b aid ptr len = do {
     (attr, b) \<leftarrow> blob_new ok b aid len;
     if attr_null b attr then Some (attr, b) else (case ptr of
        None \<Rightarrow> Some (attr, b)
      | Some src \<Rightarrow> do {
          m \<leftarrow> blob_mem b;
          src \<leftarrow> mem_read src 0 len;
          m \<leftarrow> mem_write m (blob_data attr) src;
          Some (attr, b\<lparr>blob_mem := Some m\<rparr>)
        })
   }"

definition blob_nest_start :: "(nat \<Rightarrow> bool) \<Rightarrow> blob_buf \<Rightarrow> u32 \<Rightarrow> (int \<times> blob_buf) option" where
  "blob_nest_start ok b aid = do {
     let offset = attr_to_offset (blob_head b);
     (attr, b) \<leftarrow> blob_new ok b aid 0;
     Some (offset, b\<lparr>blob_head := attr\<rparr>)
   }"

definition blob_nest_end :: "blob_buf \<Rightarrow> int \<Rightarrow> blob_buf option" where
  "blob_nest_end b cookie = do {
     let attr = offset_to_attr cookie;
     m \<leftarrow> blob_mem b;
     al \<leftarrow> blob_pad_len m attr;
     hl \<leftarrow> blob_len m (blob_head b);
     m \<leftarrow> blob_set_raw_len m attr (al + hl);
     Some (b\<lparr>blob_mem := Some m, blob_head := attr\<rparr>)
   }"

definition blob_put_u8 :: "(nat \<Rightarrow> bool) \<Rightarrow> blob_buf \<Rightarrow> u32 \<Rightarrow> u8 \<Rightarrow> (nat \<times> blob_buf) option" where
  "blob_put_u8 ok b aid val = blob_put ok b aid (Some [val]) 1"

definition blob_put_u16 :: "(nat \<Rightarrow> bool) \<Rightarrow> blob_buf \<Rightarrow> u32 \<Rightarrow> u16 \<Rightarrow> (nat \<times> blob_buf) option" where
  "blob_put_u16 ok b aid val = blob_put ok b aid (Some (bytes_le16 (cpu_to_be16 val))) 2"

definition blob_put_u32 :: "(nat \<Rightarrow> bool) \<Rightarrow> blob_buf \<Rightarrow> u32 \<Rightarrow> u32 \<Rightarrow> (nat \<times> blob_buf) option" where
  "blob_put_u32 ok b aid val = blob_put ok b aid (Some (bytes_le32 (cpu_to_be32 val))) 4"

text \<open>\<open>cpu_to_be64\<close> swaps eight bytes, so the store writes them most significant first.\<close>

definition blob_put_u64 :: "(nat \<Rightarrow> bool) \<Rightarrow> blob_buf \<Rightarrow> u32 \<Rightarrow> u64 \<Rightarrow> (nat \<times> blob_buf) option" where
  "blob_put_u64 ok b aid val = blob_put ok b aid (Some (bytes_be64 val)) 8"

text \<open>\<open>str\<close> holds the characters before the terminating null byte.\<close>

definition blob_put_string :: "(nat \<Rightarrow> bool) \<Rightarrow> blob_buf \<Rightarrow> u32 \<Rightarrow> bytes \<Rightarrow> (nat \<times> blob_buf) option" where
  "blob_put_string ok b aid str = blob_put ok b aid (Some (str @ [0])) (length str + 1)"

section \<open>Reading\<close>

text \<open>The loop of \<open>__blob_for_each_attr\<close> and \<open>blob_for_each_attr\<close>: \<open>body\<close> runs at each
  attribute and either leaves the loop with \<^const>\<open>Inl\<close> or goes on with \<^const>\<open>Inr\<close>.\<close>

function blob_for_each :: "bytes \<Rightarrow> (nat \<Rightarrow> 's \<Rightarrow> ('r + 's) option) \<Rightarrow> nat \<Rightarrow> nat \<Rightarrow> 's \<Rightarrow> ('r + 's) option" where
  "blob_for_each m body pos rem s =
     (if rem = 0 then Some (Inr s)
      else case blob_pad_len m pos of None \<Rightarrow> None
      | Some len \<Rightarrow>
          if unat len \<le> rem \<and> 4 \<le> unat len
          then (case body pos s of None \<Rightarrow> None
                | Some (Inl r) \<Rightarrow> Some (Inl r)
                | Some (Inr s') \<Rightarrow> blob_for_each m body (pos + unat len) (rem - unat len) s')
          else Some (Inr s))"
  by pat_completeness auto
termination
  by (relation "measure (\<lambda>(m, body, pos, rem, s). rem)") auto

declare blob_for_each.simps [simp del]

fun blob_type_minlen :: "blob_attr_type \<Rightarrow> nat" where
  "blob_type_minlen BLOB_ATTR_STRING = 1"
| "blob_type_minlen BLOB_ATTR_INT8 = 1"
| "blob_type_minlen BLOB_ATTR_INT16 = 2"
| "blob_type_minlen BLOB_ATTR_INT32 = 4"
| "blob_type_minlen BLOB_ATTR_INT64 = 8"
| "blob_type_minlen _ = 0"

text \<open>A type number of the C code: \<^const>\<open>None\<close> for \<open>BLOB_ATTR_LAST\<close> and above.\<close>

definition blob_check_type :: "bytes \<Rightarrow> nat \<Rightarrow> int \<Rightarrow> blob_attr_type option \<Rightarrow> bool option" where
  "blob_check_type m ptr len bt =
     (case bt of None \<Rightarrow> Some False
      | Some ty \<Rightarrow>
          if ty \<in> {BLOB_ATTR_INT8, BLOB_ATTR_INT16, BLOB_ATTR_INT32, BLOB_ATTR_INT64}
             \<and> len \<noteq> int (blob_type_minlen ty) then Some False
          else if ty \<notin> {BLOB_ATTR_INT8, BLOB_ATTR_INT16, BLOB_ATTR_INT32, BLOB_ATTR_INT64}
             \<and> len < int (blob_type_minlen ty) then Some False
          else if ty = BLOB_ATTR_STRING
          then do {
            c \<leftarrow> mem_read m (nat (int ptr + len - 1)) 1;
            Some (hd c = 0)
          }
          else Some True)"

text \<open>\<open>validate\<close> is the caller's function; \<open>blob_parse\<close> passes it the container.\<close>

record blob_attr_info =
  info_type :: "blob_attr_type option"
  info_minlen :: nat
  info_maxlen :: nat
  info_validate :: "(nat \<Rightarrow> bool) option"

definition blob_parse_attr ::
  "bytes \<Rightarrow> nat \<Rightarrow> blob_attr_info list option \<Rightarrow> nat \<Rightarrow> nat \<Rightarrow> nat option list \<times> int \<Rightarrow>
     (unit + nat option list \<times> int) option" where
  "blob_parse_attr m attr info maxid pos s = do {
     let (data, found) = s;
     aid \<leftarrow> blob_id m pos;
     let aid = unat aid;
     len \<leftarrow> blob_len m pos;
     if maxid \<le> aid then Some (Inr s)
     else do {
       good \<leftarrow> (case info of None \<Rightarrow> Some True
         | Some infos \<Rightarrow>
             if length infos \<le> aid then None
             else let inf = infos ! aid in do {
               tyok \<leftarrow> (if info_type inf \<noteq> None
                        then blob_check_type m (blob_data pos) (sint len) (info_type inf)
                        else Some True);
               Some (tyok
                 \<and> \<not> (info_minlen inf \<noteq> 0 \<and> unat len < info_minlen inf)
                 \<and> \<not> (info_maxlen inf \<noteq> 0 \<and> info_maxlen inf < unat len)
                 \<and> (case info_validate inf of None \<Rightarrow> True | Some v \<Rightarrow> v attr))
             });
       if \<not> good then Some (Inr s)
       else Some (Inr (data[aid := Some pos], if data ! aid = None then found + 1 else found))
     }
   }"

definition blob_parse ::
  "bytes \<Rightarrow> nat option \<Rightarrow> blob_attr_info list option \<Rightarrow> nat \<Rightarrow> (int \<times> nat option list) option" where
  "blob_parse m attr info maxid =
     (case attr of
        None \<Rightarrow> Some (0, replicate maxid None)
      | Some a \<Rightarrow> do {
          rem \<leftarrow> blob_len m a;
          r \<leftarrow> blob_for_each m (blob_parse_attr m a info maxid) (blob_data a)
                 (if 0 <s rem then unat rem else 0) (replicate maxid None, 0);
          (case r of Inl _ \<Rightarrow> None | Inr (data, found) \<Rightarrow> Some (found, data))
        })"

definition blob_attr_equal :: "bytes \<Rightarrow> nat option \<Rightarrow> nat option \<Rightarrow> bool option" where
  "blob_attr_equal m a1 a2 =
     (case (a1, a2) of
        (None, None) \<Rightarrow> Some True
      | (Some p, Some q) \<Rightarrow> do {
          l1 \<leftarrow> blob_pad_len m p;
          l2 \<leftarrow> blob_pad_len m q;
          if l1 \<noteq> l2 then Some False
          else do {
            x \<leftarrow> mem_read m p (unat l1);
            y \<leftarrow> mem_read m q (unat l1);
            Some (x = y)
          }
        }
      | _ \<Rightarrow> Some False)"

text \<open>\<open>blob_memdup\<close> returns the new block, or \<^const>\<open>None\<close> inside when \<open>malloc\<close> fails.\<close>

definition blob_memdup :: "(nat \<Rightarrow> bool) \<Rightarrow> bytes \<Rightarrow> nat \<Rightarrow> bytes option option" where
  "blob_memdup ok m attr = do {
     size \<leftarrow> blob_pad_len m attr;
     if \<not> ok (unat size) then Some None
     else do {
       bs \<leftarrow> mem_read m attr (unat size);
       Some (Some bs)
     }
   }"

section \<open>Header words\<close>

text \<open>The header word of an attribute: extended flag, id, and length with the header.\<close>

definition blob_hdr :: "bool \<times> u32 \<Rightarrow> nat \<Rightarrow> u32" where
  "blob_hdr c n = (if fst c then BLOB_ATTR_EXTENDED else 0)
     OR (push_bit 24 (snd c) AND BLOB_ATTR_ID_MASK) OR (of_nat n AND BLOB_ATTR_LEN_MASK)"

lemma bit_LEN_MASK: "bit BLOB_ATTR_LEN_MASK n \<longleftrightarrow> n < 24"
proof -
  have eq: "BLOB_ATTR_LEN_MASK = mask 24"
    by (simp add: BLOB_ATTR_LEN_MASK_def mask_eq_exp_minus_1)
  show ?thesis unfolding eq bit_mask_iff by auto
qed

lemma bit_ID_MASK: "bit BLOB_ATTR_ID_MASK n \<longleftrightarrow> 24 \<le> n \<and> n < 31"
proof -
  have eq: "BLOB_ATTR_ID_MASK = push_bit 24 (mask 7)"
    by (simp add: BLOB_ATTR_ID_MASK_def mask_eq_exp_minus_1)
  show ?thesis unfolding eq bit_push_bit_iff bit_mask_iff by auto
qed

lemma bit_EXTENDED: "bit BLOB_ATTR_EXTENDED n \<longleftrightarrow> n = 31"
proof -
  have eq: "BLOB_ATTR_EXTENDED = 2 ^ 31"
    by (simp add: BLOB_ATTR_EXTENDED_def)
  show ?thesis unfolding eq bit_exp_iff by auto
qed

lemmas blob_bits = bit_LEN_MASK bit_ID_MASK bit_EXTENDED blob_hdr_def bit_simps

lemma blob_hdr_len:
  assumes "n < 2 ^ 24"
  shows "blob_hdr c n AND BLOB_ATTR_LEN_MASK = of_nat n"
proof -
  have "take_bit 24 n = n" using assms by (simp add: take_bit_nat_eq_self)
  then have "bit n k \<Longrightarrow> k < 24" for k by (metis bit_take_bit_iff)
  then show ?thesis by (intro bit_word_eqI) (auto simp: blob_bits)
qed

lemma blob_hdr_id: "drop_bit 24 (blob_hdr c n AND BLOB_ATTR_ID_MASK) = take_bit 7 (snd c)"
  by (rule bit_word_eqI) (auto simp: blob_bits)

lemma blob_hdr_ext: "blob_hdr c n AND BLOB_ATTR_EXTENDED = 0 \<longleftrightarrow> \<not> fst c"
proof -
  have "blob_hdr c n AND BLOB_ATTR_EXTENDED = (if fst c then BLOB_ATTR_EXTENDED else 0)"
    by (rule bit_word_eqI) (auto simp: blob_bits)
  then show ?thesis by (simp add: BLOB_ATTR_EXTENDED_def)
qed

lemma blob_hdr_set_len:
  "(blob_hdr c n AND NOT BLOB_ATTR_LEN_MASK) OR (k AND BLOB_ATTR_LEN_MASK) = blob_hdr c (unat k)"
  by (rule bit_word_eqI) (auto simp: blob_bits)

lemma blob_hdr_set_ext: "blob_hdr (e, i) n OR BLOB_ATTR_EXTENDED = blob_hdr (True, i) n"
  by (rule bit_word_eqI) (auto simp: blob_bits)

section \<open>Attributes in memory\<close>

text \<open>The accessors on memory that holds the header word \<open>blob_hdr c n\<close> at the offset after
  \<open>pre\<close>.\<close>

abbreviation (input) attr_mem :: "bytes \<Rightarrow> bool \<times> u32 \<Rightarrow> nat \<Rightarrow> bytes \<Rightarrow> bytes" where
  "attr_mem pre c n post \<equiv> pre @ bytes_be32 (blob_hdr c n) @ post"

lemma id_len_attr: "id_len (attr_mem pre c n post) (length pre) = Some (cpu_to_be32 (blob_hdr c n))"
  by (simp add: id_len_def mem_simps byte_simps cpu_to_be32_def)

lemma set_id_len_attr:
  "set_id_len (attr_mem pre c n post) (length pre) (cpu_to_be32 w) =
     Some (pre @ bytes_be32 w @ post)"
  by (simp add: set_id_len_def mem_simps byte_simps)

lemma be32_cpu [simp]: "be32_to_cpu (cpu_to_be32 w) = w"
  by (simp add: be32_to_cpu_def cpu_to_be32_def)

lemma blob_id_attr: "blob_id (attr_mem pre c n post) (length pre) = Some (take_bit 7 (snd c))"
  by (simp add: blob_id_def id_len_attr blob_hdr_id del: drop_bit_and)

lemma blob_is_extended_attr: "blob_is_extended (attr_mem pre c n post) (length pre) = Some (fst c)"
proof -
  have "cpu_to_be32 (blob_hdr c n) AND cpu_to_be32 BLOB_ATTR_EXTENDED =
      bswap32 (blob_hdr c n AND BLOB_ATTR_EXTENDED)"
    by (simp add: cpu_to_be32_def bswap32_and)
  moreover have "bswap32 0 = 0" by (rule bit_word_eqI) (simp add: bit_bswap32)
  then have "bswap32 w = 0 \<longleftrightarrow> w = 0" for w by (metis bswap32_bswap32)
  ultimately show ?thesis
    by (simp add: blob_is_extended_def id_len_attr blob_hdr_ext)
qed

lemma blob_len_attr:
  assumes "4 \<le> n" "n < 2 ^ 24"
  shows "blob_len (attr_mem pre c n post) (length pre) = Some (of_nat (n - 4))"
  using assms by (simp add: blob_len_def id_len_attr blob_hdr_len of_nat_diff)

lemma blob_raw_len_attr:
  assumes "4 \<le> n" "n < 2 ^ 24"
  shows "blob_raw_len (attr_mem pre c n post) (length pre) = Some (of_nat n)"
  using assms by (simp add: blob_raw_len_def blob_len_attr of_nat_diff)

lemma blob_pad_len_attr:
  assumes "4 \<le> n" "n < 2 ^ 24"
  shows "blob_pad_len (attr_mem pre c n post) (length pre) = Some (of_nat (pad4 n))"
  using assms u32_pad4 [of n] by (simp add: blob_pad_len_def blob_raw_len_attr add.commute)

lemma pad4_u32: "n < 2 ^ 24 \<Longrightarrow> unat (of_nat (pad4 n) :: u32) = pad4 n"
  using pad4_bounds(2) [of n] by (simp add: unat_of_nat_u32)

lemma blob_next_attr:
  assumes "4 \<le> n" "n < 2 ^ 24"
  shows "blob_next (attr_mem pre c n post) (length pre) = Some (length pre + pad4 n)"
  using assms by (simp add: blob_next_def blob_pad_len_attr pad4_u32)

lemma blob_set_raw_len_attr:
  "blob_set_raw_len (attr_mem pre c n post) (length pre) k = Some (attr_mem pre c (unat k) post)"
proof -
  have "(cpu_to_be32 (blob_hdr c n) AND NOT (cpu_to_be32 BLOB_ATTR_LEN_MASK))
      OR cpu_to_be32 (k AND BLOB_ATTR_LEN_MASK) = cpu_to_be32 (blob_hdr c (unat k))"
    by (simp add: cpu_to_be32_def blob_hdr_set_len flip: bswap32_and bswap32_or bswap32_not)
  then show ?thesis
    by (simp add: blob_set_raw_len_def id_len_attr set_id_len_attr)
qed

lemma blob_set_raw_len_to:
  "k = of_nat q \<Longrightarrow> q < 2 ^ 24 \<Longrightarrow>
     blob_set_raw_len (attr_mem pre c n post) (length pre) k = Some (attr_mem pre c q post)"
  by (simp add: blob_set_raw_len_attr unat_of_nat_u32)

lemmas blob_attr_simps = blob_id_attr blob_is_extended_attr blob_len_attr blob_raw_len_attr
  blob_pad_len_attr blob_next_attr blob_set_raw_len_attr

section \<open>Filling a buffer\<close>

text \<open>The encoding of one attribute, padded.\<close>

definition blob_enc :: "bool \<times> u32 \<Rightarrow> bytes \<Rightarrow> bytes" where
  "blob_enc c data = bytes_be32 (blob_hdr c (4 + length data)) @ data
     @ replicate (pad4 (length data) - length data) 0"

lemma length_blob_enc [simp]: "length (blob_enc c data) = 4 + pad4 (length data)"
  using pad4_bounds(1) [of "length data"] by (simp add: blob_enc_def)

lemma pad4_add_4 [simp]: "pad4 (4 + n) = 4 + pad4 n" "pad4 (n + 4) = pad4 n + 4"
  unfolding pad4_def by arith+

text \<open>A buffer that can grow and whose current container, with header \<open>c\<close> and contents
  \<open>body\<close>, starts after \<open>pre\<close>.\<close>

definition buf_at :: "blob_buf \<Rightarrow> bytes \<Rightarrow> bool \<times> u32 \<Rightarrow> bytes \<Rightarrow> bool" where
  "buf_at b pre c body \<longleftrightarrow> blob_grow b \<and> blob_head b = length pre \<and> 4 dvd length pre \<and>
     4 dvd length body \<and> 4 dvd blob_buflen b \<and>
     (\<exists>post. blob_mem b = Some (attr_mem pre c (4 + length body) (body @ post)) \<and>
        blob_buflen b = length pre + 4 + length body + length post)"

lemma buf_atI:
  assumes "blob_grow b" "blob_head b = length pre" "4 dvd length pre" "4 dvd length body"
    "4 dvd blob_buflen b" "blob_mem b = Some (attr_mem pre c (4 + length body) (body @ post))"
    "blob_buflen b = length pre + 4 + length body + length post"
  shows "buf_at b pre c body"
  using assms by (auto simp: buf_at_def)

lemma split_at:
  assumes "p + k \<le> length m"
  obtains d post where "m = take p m @ d @ post" "length d = k"
proof -
  have "m = take p m @ take k (drop p m) @ drop k (drop p m)"
    by (simp only: append_take_drop_id)
  with assms that [of "take k (drop p m)" "drop k (drop p m)"] show thesis by simp
qed

text \<open>Growing leaves the old bytes in place and makes room for the request.\<close>

lemma blob_buf_grow_mem:
  assumes "blob_grow b" "blob_mem b = Some m \<or> (blob_mem b = None \<and> m = [])"
    "blob_buflen b = length m" "4 dvd length m" "\<And>n. ok n"
  obtains k where "0 < k" "r \<le> k" "4 dvd k"
    "blob_buf_grow ok b r = b\<lparr>blob_mem := Some (m @ replicate k 0), blob_buflen := length m + k\<rparr>"
proof
  let ?k = "(r div 256 + 1) * 256"
  show "0 < ?k" "4 dvd ?k" by simp_all
  have "r = r div 256 * 256 + r mod 256" by simp
  also have "\<dots> \<le> r div 256 * 256 + 256" by (rule add_left_mono) simp
  finally show "r \<le> ?k" by simp
  show "blob_buf_grow ok b r =
      b\<lparr>blob_mem := Some (m @ replicate ?k 0), blob_buflen := length m + ?k\<rparr>"
    using assms
    by (auto simp: blob_buf_grow_def blob_buffer_grow_def Let_def attr_to_offset_def
        offset_to_attr_def)
qed

lemma signed_small: "d < 4 \<Longrightarrow> (0 :: u32) <s of_nat d \<longleftrightarrow> 0 < d"
  by (auto simp: less_Suc_eq numeral_eq_Suc word_sless_alt)

lemma blob_fill_pad_attr:
  assumes "n + 4 < 2 ^ 24" "length dat = n" "length z = pad4 n - n"
  shows "blob_fill_pad (attr_mem pre c (n + 4) (dat @ z @ post)) (length pre) =
     Some (attr_mem pre c (n + 4) (dat @ replicate (pad4 n - n) 0 @ post))"
proof -
  define d where "d = pad4 n - n"
  have d: "d < 4" "pad4 n = n + d" using pad4_bounds [of n] by (auto simp: d_def)
  have "(of_nat (pad4 (n + 4)) - of_nat (n + 4) :: u32) = of_nat d"
    by (simp add: d(2))
  moreover have "length pre + unat (of_nat (pad4 (n + 4)) :: u32) - unat (of_nat d :: u32) =
      length (pre @ bytes_be32 (blob_hdr c (n + 4)) @ dat)"
    using assms d pad4_u32 [of "n + 4"] by (simp add: unat_of_nat_u32)
  moreover have "mem_write ((pre @ bytes_be32 (blob_hdr c (n + 4)) @ dat) @ z @ post)
      (length (pre @ bytes_be32 (blob_hdr c (n + 4)) @ dat)) (replicate d 0) =
      Some ((pre @ bytes_be32 (blob_hdr c (n + 4)) @ dat) @ replicate d 0 @ post)"
    using assms by (intro mem_write_mid) (simp add: d_def)
  moreover have "z = []" if "\<not> 0 < d" using that assms by (simp add: d_def)
  ultimately show ?thesis
    using assms d signed_small [OF d(1)]
    by (auto simp: blob_fill_pad_def blob_attr_simps Let_def unat_of_nat_u32 simp flip: d_def)
qed

lemma blob_add_spec:
  assumes b: "blob_grow b" "blob_mem b = Some m \<or> (blob_mem b = None \<and> m = [])"
    "blob_buflen b = length m" "4 dvd length m" "\<And>n. ok n"
    and p: "p \<le> length m" "4 dvd p" and n: "n + 4 < 2 ^ 24"
    and room: "blob_mem b = None \<longrightarrow> p = 0"
  obtains dat post b' where "length dat = n" "blob_add ok b p aid n = Some (p, b')"
    "blob_mem b' = Some (attr_mem (take p m) (False, aid) (n + 4)
       (dat @ replicate (pad4 n - n) 0 @ post))"
    "blob_grow b'" "blob_head b' = blob_head b" "4 dvd blob_buflen b'"
    "blob_buflen b' = p + 4 + pad4 n + length post"
proof -
  define req where "req = int p + 4 + int n - int (length m)"
  define b1 where "b1 = (if 0 < req then blob_buf_grow ok b (nat req) else b)"
  obtain m1 where m1: "blob_mem b1 = Some m1" "take p m1 = take p m" "blob_buflen b1 = length m1"
    "blob_grow b1" "blob_head b1 = blob_head b" "4 dvd length m1" "p + 4 + n \<le> length m1"
  proof (cases "0 < req")
    case True
    obtain k where k: "nat req \<le> k" "4 dvd k" "blob_buf_grow ok b (nat req) =
        b\<lparr>blob_mem := Some (m @ replicate k 0), blob_buflen := length m + k\<rparr>"
      by (rule blob_buf_grow_mem [OF b, of "nat req"])
    have b1: "b1 = b\<lparr>blob_mem := Some (m @ replicate k 0), blob_buflen := length m + k\<rparr>"
      using True k(3) by (simp add: b1_def)
    have "p + 4 + n \<le> length m + k" using k(1) by (simp add: req_def)
    with b p k(2) show ?thesis
      by (intro that [of "m @ replicate k 0"]) (simp_all add: b1)
  next
    case False
    then have "p + 4 + n \<le> length m" by (simp add: req_def)
    moreover from this room b(2) have "blob_mem b = Some m" by auto
    ultimately show ?thesis using False b by (intro that [of m]) (simp_all add: b1_def)
  qed
  have "4 dvd p + 4 + pad4 n" using p by simp
  have "p + 4 + pad4 n \<le> length m1"
  proof (rule ccontr)
    assume "\<not> ?thesis"
    then have "length m1 < p + 4 + pad4 n" by simp
    with m1(6) \<open>4 dvd p + 4 + pad4 n\<close> have "length m1 + 4 \<le> p + 4 + pad4 n"
      by (metis add.commute dvd_diff_nat dvd_imp_le le_add_diff_inverse less_imp_le_nat
          nat_add_left_cancel_le zero_less_diff)
    with m1(7) pad4_bounds(2) [of n] show False by simp
  qed
  with split_at [of p "4 + pad4 n" m1] obtain d post where
    d: "m1 = take p m1 @ d @ post" "length d = 4 + pad4 n" by (metis add.assoc)
  define h dat z where "h = take 4 d" and "dat = take n (drop 4 d)" and "z = drop (4 + n) d"
  have "d = h @ dat @ z" by (simp add: h_def dat_def z_def add.commute flip: drop_drop)
  with d m1(2) have m1eq: "m1 = take p m @ h @ dat @ z @ post" by simp
  have len: "length h = 4" "length dat = n" "length z = pad4 n - n" "length (take p m) = p"
    using d(2) pad4_bounds(1) [of n] p by (simp_all add: h_def dat_def z_def)
  let ?m2 = "attr_mem (take p m) (False, aid) (n + 4) (dat @ z @ post)"
  have "blob_init m1 p aid (n + 4) = Some ?m2"
    using mem_write_mid [of "bytes_be32 (blob_hdr (False, aid) (n + 4))" h "take p m" "dat @ z @ post"]
      len by (simp add: blob_init_def set_id_len_def byte_simps m1eq blob_hdr_def or.commute)
  moreover have "blob_fill_pad ?m2 p = Some (attr_mem (take p m) (False, aid) (n + 4)
      (dat @ replicate (pad4 n - n) 0 @ post))"
    using blob_fill_pad_attr [OF n len(2,3), of "take p m"] len(4) by simp
  moreover have "length m1 = p + 4 + pad4 n + length post"
    using d(2) m1(2) p(1) by (subst d(1)) (simp add: min_absorb2)
  moreover have "(if 0 < attr_to_offset p - BLOB_COOKIE + 4 + int n - int (blob_buflen b)
      then (offset_to_attr (attr_to_offset p), blob_buf_grow ok b
        (nat (attr_to_offset p - BLOB_COOKIE + 4 + int n - int (blob_buflen b))))
      else (p, b)) = (p, b1)"
    by (simp add: attr_to_offset_def offset_to_attr_def b(3) b1_def req_def)
  ultimately have "blob_add ok b p aid n = Some (p, b1\<lparr>blob_mem := Some (attr_mem (take p m)
      (False, aid) (n + 4) (dat @ replicate (pad4 n - n) 0 @ post))\<rparr>)"
    using m1(1) unfolding blob_add_def Let_def by simp
  with m1 len(2) \<open>length m1 = p + 4 + pad4 n + length post\<close> show ?thesis
    by (intro that [of dat "b1\<lparr>blob_mem := Some (attr_mem (take p m) (False, aid) (n + 4)
          (dat @ replicate (pad4 n - n) 0 @ post))\<rparr>" post]) simp_all
qed

lemma blob_new_spec:
  assumes at: "buf_at b pre c body" and ok: "\<And>n. ok n"
    and fits: "length body + 8 + pad4 n < 2 ^ 24"
  obtains dat b' where "length dat = n"
    "blob_new ok b aid n = Some (length pre + 4 + length body, b')"
    "buf_at b' pre c (body @ bytes_be32 (blob_hdr (False, aid) (4 + n)) @ dat
       @ replicate (pad4 n - n) 0)"
proof -
  from at obtain post where b: "blob_grow b" "blob_head b = length pre" "4 dvd length pre"
    "4 dvd length body" "4 dvd blob_buflen b"
    "blob_mem b = Some (attr_mem pre c (4 + length body) (body @ post))"
    "blob_buflen b = length pre + 4 + length body + length post"
    by (auto simp: buf_at_def)
  define m where "m = attr_mem pre c (4 + length body) (body @ post)"
  define p where "p = length pre + 4 + length body"
  have m: "blob_mem b = Some m \<or> (blob_mem b = None \<and> m = [])" "blob_buflen b = length m"
    "4 dvd length m" "p \<le> length m" "4 dvd p"
    using b by (simp_all add: m_def p_def add.assoc)
  have n: "n + 4 < 2 ^ 24" and len: "4 + length body < 2 ^ 24" using fits pad4_bounds(1) [of n]
    by linarith+
  have room: "blob_mem b = None \<longrightarrow> p = 0" using b(6) by simp
  obtain dat post' b1 where dat: "length dat = n" "blob_add ok b p aid n = Some (p, b1)"
    "blob_mem b1 = Some (attr_mem (take p m) (False, aid) (n + 4)
       (dat @ replicate (pad4 n - n) 0 @ post'))"
    "blob_grow b1" "blob_head b1 = blob_head b" "4 dvd blob_buflen b1"
    "blob_buflen b1 = p + 4 + pad4 n + length post'"
    by (rule blob_add_spec [OF b(1) m(1,2,3) ok m(4,5) n room])
  define item where "item = bytes_be32 (blob_hdr (False, aid) (4 + n)) @ dat @ replicate (pad4 n - n) 0"
  have take_p: "take p m = pre @ bytes_be32 (blob_hdr c (4 + length body)) @ body"
    by (simp add: p_def m_def)
  have item: "length item = 4 + pad4 n" "4 dvd length item"
    using dat(1) pad4_bounds(1) [of n] by (simp_all add: item_def)
  have mem1: "blob_mem b1 = Some (attr_mem pre c (4 + length body) (body @ item @ post'))"
    using dat(3) by (simp add: take_p item_def add.commute)
  have next_p: "blob_next m (length pre) = Some p"
    using b(4) len by (simp add: m_def blob_attr_simps p_def)
  have pad_h: "blob_pad_len (attr_mem pre c (4 + length body) (body @ item @ post')) (length pre) =
      Some (of_nat (4 + length body))"
    using b(4) len by (simp add: blob_attr_simps)
  have "blob_pad_len (attr_mem (pre @ bytes_be32 (blob_hdr c (4 + length body)) @ body) (False, aid)
      (4 + n) (dat @ replicate (pad4 n - n) 0 @ post'))
      (length (pre @ bytes_be32 (blob_hdr c (4 + length body)) @ body)) = Some (of_nat (pad4 (4 + n)))"
    using n by (intro blob_pad_len_attr) simp_all
  then have pad_a: "blob_pad_len (attr_mem pre c (4 + length body) (body @ item @ post')) p =
      Some (of_nat (4 + pad4 n))"
    by (simp add: item_def p_def add.assoc)
  define m2 where "m2 = attr_mem pre c (4 + length (body @ item)) ((body @ item) @ post')"
  have "unat (of_nat (4 + length body) + of_nat (4 + pad4 n) :: u32) = 4 + length (body @ item)"
    using fits unat_of_nat_u32 [of "4 + length body + (4 + pad4 n)"]
    by (simp add: item add.commute add.left_commute)
  then have "blob_set_raw_len (attr_mem pre c (4 + length body) (body @ item @ post')) (length pre)
      (of_nat (4 + length body) + of_nat (4 + pad4 n)) = Some m2"
    by (simp only: blob_set_raw_len_attr m2_def append_assoc)
  then have "blob_new ok b aid n = Some (p, b1\<lparr>blob_mem := Some m2\<rparr>)"
    using b(2,6) dat(2,5) mem1 next_p pad_h pad_a by (simp add: blob_new_def m_def attr_null_def)
  moreover have "buf_at (b1\<lparr>blob_mem := Some m2\<rparr>) pre c (body @ item)"
    using b dat item by (intro buf_atI [where post = post']) (simp_all add: m2_def p_def)
  ultimately show thesis using that [OF dat(1)] by (simp add: p_def item_def)
qed

lemma blob_put_spec:
  assumes at: "buf_at b pre c body" and ok: "\<And>n. ok n"
    and fits: "length body + 8 + pad4 (length data) < 2 ^ 24"
  obtains b' where "blob_put ok b aid (Some data) (length data) = Some (length pre + 4 + length body, b')"
    "buf_at b' pre c (body @ blob_enc (False, aid) data)"
proof -
  obtain dat b1 where new: "length dat = length data"
    "blob_new ok b aid (length data) = Some (length pre + 4 + length body, b1)"
    "buf_at b1 pre c (body @ bytes_be32 (blob_hdr (False, aid) (4 + length data)) @ dat
       @ replicate (pad4 (length data) - length data) 0)"
    by (rule blob_new_spec [OF at ok fits, where aid = aid])
  define h where "h = bytes_be32 (blob_hdr (False, aid) (4 + length data))"
  define z where "z = replicate (pad4 (length data) - length data) (0 :: u8)"
  define body' where "body' = body @ blob_enc (False, aid) data"
  have body': "length body' = length (body @ h @ dat @ z)" "body' = body @ h @ data @ z"
    using new(1) by (simp_all add: body'_def blob_enc_def h_def z_def)
  from new(3) obtain post where b1: "blob_grow b1" "blob_head b1 = length pre" "4 dvd length pre"
    "4 dvd length (body @ h @ dat @ z)" "4 dvd blob_buflen b1"
    "blob_mem b1 = Some (attr_mem pre c (4 + length body') ((body @ h @ dat @ z) @ post))"
    "blob_buflen b1 = length pre + 4 + length (body @ h @ dat @ z) + length post"
    unfolding buf_at_def body'(1) h_def z_def by blast
  define l where "l = pre @ bytes_be32 (blob_hdr c (4 + length body')) @ body @ h"
  have "mem_write (l @ dat @ z @ post) (length l) data = Some (l @ data @ z @ post)"
    using new(1) by (intro mem_write_mid) simp
  moreover have "length l = blob_data (length pre + 4 + length body)"
    by (simp add: l_def h_def blob_data_def)
  ultimately have "blob_put ok b aid (Some data) (length data) =
      Some (length pre + 4 + length body,
        b1\<lparr>blob_mem := Some (attr_mem pre c (4 + length body') (body' @ post))\<rparr>)"
    using new(2) b1(6) by (simp add: blob_put_def l_def body'(2) mem_read_def attr_null_def)
  moreover have "buf_at (b1\<lparr>blob_mem := Some (attr_mem pre c (4 + length body') (body' @ post))\<rparr>)
      pre c body'"
    using b1 body'(1) by (intro buf_atI [where post = post]) simp_all
  ultimately show thesis using that by (simp add: body'_def)
qed

lemma blob_nest_start_spec:
  assumes at: "buf_at b pre c body" and ok: "\<And>n. ok n" and fits: "length body + 8 < 2 ^ 24"
  obtains b' where "blob_nest_start ok b aid = Some (attr_to_offset (length pre), b')"
    "buf_at b' (pre @ bytes_be32 (blob_hdr c (8 + length body)) @ body) (False, aid) []"
proof -
  have "length body + 8 + pad4 0 < 2 ^ 24" using fits by simp
  from blob_new_spec [where ok = ok and n = 0 and aid = aid, OF at ok this]
  obtain dat b1 where "length dat = 0" "blob_new ok b aid 0 = Some (length pre + 4 + length body, b1)"
    "buf_at b1 pre c (body @ bytes_be32 (blob_hdr (False, aid) (4 + 0)) @ dat
       @ replicate (pad4 0 - 0) 0)" .
  then have new: "blob_new ok b aid 0 = Some (length pre + 4 + length body, b1)"
      "buf_at b1 pre c (body @ bytes_be32 (blob_hdr (False, aid) 4))"
    by simp_all
  then show thesis using at
    by (intro that [of "b1\<lparr>blob_head := length pre + 4 + length body\<rparr>"])
      (auto simp: blob_nest_start_def buf_at_def add.assoc)
qed

lemma blob_nest_end_spec:
  assumes at: "buf_at b (pre @ bytes_be32 (blob_hdr c (8 + length body)) @ body) c' body'"
    and "4 dvd length pre" "4 dvd length body"
    and fits: "length body + 8 + length body' < 2 ^ 24"
  obtains b' where "blob_nest_end b (attr_to_offset (length pre)) = Some b'"
    "buf_at b' pre c (body @ blob_enc c' body')"
proof -
  define pre' where "pre' = pre @ bytes_be32 (blob_hdr c (8 + length body)) @ body"
  from at obtain post where b: "blob_grow b" "blob_head b = length pre'" "4 dvd length body'"
    "4 dvd blob_buflen b" "blob_mem b = Some (attr_mem pre' c' (4 + length body') (body' @ post))"
    "blob_buflen b = length pre' + 4 + length body' + length post"
    by (auto simp: buf_at_def pre'_def)
  define rest where "rest = body @ bytes_be32 (blob_hdr c' (4 + length body')) @ body' @ post"
  have mem: "attr_mem pre' c' (4 + length body') (body' @ post) = attr_mem pre c (8 + length body) rest"
    by (simp add: pre'_def rest_def)
  have len: "blob_len (attr_mem pre c (8 + length body) rest) (length pre') = Some (of_nat (length body'))"
    using fits blob_len_attr [of "4 + length body'" pre' c' "body' @ post"] mem by simp
  have pad: "blob_pad_len (attr_mem pre c (8 + length body) rest) (length pre) =
      Some (of_nat (8 + length body))"
    using fits assms(3) by (subst blob_pad_len_attr) simp_all
  define body2 where "body2 = body @ blob_enc c' body'"
  have "unat (of_nat (8 + length body) + of_nat (length body') :: u32) = 4 + length body2"
    using fits b(3) unat_of_nat_u32 [of "8 + length body + length body'"]
    by (simp add: body2_def add.commute add.left_commute)
  then have "blob_set_raw_len (attr_mem pre c (8 + length body) rest) (length pre)
      (of_nat (8 + length body) + of_nat (length body')) = Some (attr_mem pre c (4 + length body2) rest)"
    by (simp only: blob_set_raw_len_attr)
  moreover have "rest = body2 @ post" using b(3) by (simp add: rest_def body2_def blob_enc_def)
  ultimately have "blob_nest_end b (attr_to_offset (length pre)) = Some (b\<lparr>blob_mem :=
      Some (attr_mem pre c (4 + length body2) (body2 @ post)), blob_head := length pre\<rparr>)"
    using b(2,5) len pad mem
    by (simp add: blob_nest_end_def offset_to_attr_def attr_to_offset_def)
  moreover have "buf_at (b\<lparr>blob_mem := Some (attr_mem pre c (4 + length body2) (body2 @ post)),
      blob_head := length pre\<rparr>) pre c body2"
    using b assms(2,3)
    by (intro buf_atI [where post = post]) (simp_all add: body2_def pre'_def)
  ultimately show thesis using that by (simp add: body2_def)
qed

lemma blob_buf_init_spec:
  assumes "blob_mem b = None \<and> blob_buflen b = 0 \<or>
      (\<exists>m. blob_mem b = Some m \<and> blob_buflen b = length m \<and> 4 dvd length m)" and ok: "\<And>n. ok n"
  obtains b' where "blob_buf_init ok b aid = Some (0, b')" "buf_at b' [] (False, aid) []"
proof -
  define b0 where "b0 = b\<lparr>blob_grow := True, blob_head := 0\<rparr>"
  obtain m where m: "blob_mem b0 = Some m \<or> (blob_mem b0 = None \<and> m = [])" "blob_buflen b0 = length m"
    "4 dvd length m" using assms(1) by (auto simp: b0_def)
  have g: "blob_grow b0" by (simp add: b0_def)
  obtain dat post b1 where dat: "length dat = 0" "blob_add ok b0 0 aid 0 = Some (0, b1)"
    "blob_mem b1 = Some (attr_mem (take 0 m) (False, aid) (0 + 4)
       (dat @ replicate (pad4 0 - 0) 0 @ post))"
    "blob_grow b1" "blob_head b1 = blob_head b0" "4 dvd blob_buflen b1"
    "blob_buflen b1 = 0 + 4 + pad4 0 + length post"
    by (rule blob_add_spec [where ok = ok and p = 0 and n = 0 and aid = aid, OF g m ok]) simp_all
  show thesis
  proof (rule that [of b1])
    show "blob_buf_init ok b aid = Some (0, b1)"
      using dat(2,3) by (cases b) (auto simp: blob_buf_init_def b0_def Let_def attr_null_def)
    show "buf_at b1 [] (False, aid) []"
      using dat by (intro buf_atI [where post = post]) (simp_all add: b0_def)
  qed
qed

section \<open>Attribute trees\<close>

text \<open>What a caller builds with \<open>blob_put\<close> and matching \<open>blob_nest_start\<close> and
  \<open>blob_nest_end\<close>, and the bytes it stands for.\<close>

datatype blob_tree = Attr u32 bytes | Nest u32 "blob_tree list"

fun enc_tree :: "blob_tree \<Rightarrow> bytes" where
  "enc_tree (Attr aid data) = blob_enc (False, aid) data"
| "enc_tree (Nest aid ts) = blob_enc (False, aid) (concat (map enc_tree ts))"

fun put_tree :: "(nat \<Rightarrow> bool) \<Rightarrow> blob_tree \<Rightarrow> blob_buf \<Rightarrow> blob_buf option"
  and put_trees :: "(nat \<Rightarrow> bool) \<Rightarrow> blob_tree list \<Rightarrow> blob_buf \<Rightarrow> blob_buf option" where
  "put_tree ok (Attr aid data) b = do {
     (_, b) \<leftarrow> blob_put ok b aid (Some data) (length data);
     Some b
   }"
| "put_tree ok (Nest aid ts) b = do {
     (cookie, b) \<leftarrow> blob_nest_start ok b aid;
     b \<leftarrow> put_trees ok ts b;
     blob_nest_end b cookie
   }"
| "put_trees ok [] b = Some b"
| "put_trees ok (t # ts) b = do {
     b \<leftarrow> put_tree ok t b;
     put_trees ok ts b
   }"

lemma enc_tree_dvd: "4 dvd length (enc_tree t)"
  by (cases t) simp_all

lemma enc_trees_dvd: "4 dvd length (concat (map enc_tree ts))"
  by (induction ts) (simp_all add: enc_tree_dvd)

lemma put_tree_spec:
  "\<forall>n. ok n \<Longrightarrow> buf_at b pre c body \<Longrightarrow> length body + 4 + length (enc_tree t) < 2 ^ 24 \<Longrightarrow>
      \<exists>b'. put_tree ok t b = Some b' \<and> buf_at b' pre c (body @ enc_tree t)"
  and put_trees_spec: "\<forall>n. ok n \<Longrightarrow> buf_at b pre c body \<Longrightarrow>
      length body + 4 + length (concat (map enc_tree ts)) < 2 ^ 24 \<Longrightarrow>
      \<exists>b'. put_trees ok ts b = Some b' \<and> buf_at b' pre c (body @ concat (map enc_tree ts))"
proof (induction ok t b and ok ts b arbitrary: pre c body and pre c body
    rule: put_tree_put_trees.induct)
  case (1 ok aid data b)
  have fits: "length body + 8 + pad4 (length data) < 2 ^ 24" using "1.prems"(3) by simp
  have ok: "ok n" for n using "1.prems"(1) by blast
  obtain b' where "blob_put ok b aid (Some data) (length data) =
      Some (length pre + 4 + length body, b')"
    "buf_at b' pre c (body @ blob_enc (False, aid) data)"
    by (rule blob_put_spec [where ok = ok and aid = aid, OF "1.prems"(2) ok fits])
  then show ?case by simp
next
  case (2 ok aid ts b)
  let ?d = "concat (map enc_tree ts)"
  have ok: "ok n" for n using "2.prems"(1) by blast
  have d: "pad4 (length ?d) = length ?d" using enc_trees_dvd by simp
  have fits: "length body + 8 < 2 ^ 24" "length body + 8 + length ?d < 2 ^ 24"
    using "2.prems"(3) by (simp_all add: d)
  obtain b1 where b1: "blob_nest_start ok b aid = Some (attr_to_offset (length pre), b1)"
    "buf_at b1 (pre @ bytes_be32 (blob_hdr c (8 + length body)) @ body) (False, aid) []"
    by (rule blob_nest_start_spec [where ok = ok and aid = aid, OF "2.prems"(2) ok fits(1)])
  have "length [] + 4 + length ?d < 2 ^ 24" using fits by simp
  from "2.IH" [OF b1(1) refl "2.prems"(1) b1(2) this] obtain b2 where
    b2: "put_trees ok ts b1 = Some b2"
    "buf_at b2 (pre @ bytes_be32 (blob_hdr c (8 + length body)) @ body) (False, aid) ?d"
    by auto
  have dvd: "4 dvd length pre" "4 dvd length body" using "2.prems"(2) by (auto simp: buf_at_def)
  obtain b3 where "blob_nest_end b2 (attr_to_offset (length pre)) = Some b3"
    "buf_at b3 pre c (body @ blob_enc (False, aid) ?d)"
    by (rule blob_nest_end_spec [OF b2(2) dvd fits(2)])
  with b1 b2 show ?case by simp
next
  case (3 ok b)
  then show ?case by simp
next
  case (4 ok t ts b)
  let ?d = "concat (map enc_tree ts)"
  have fits: "length body + 4 + length (enc_tree t) < 2 ^ 24"
    "length (body @ enc_tree t) + 4 + length ?d < 2 ^ 24" using "4.prems"(3) by simp_all
  from "4.IH"(1) [OF "4.prems"(1,2) fits(1)] obtain b1 where
    b1: "put_tree ok t b = Some b1" "buf_at b1 pre c (body @ enc_tree t)" by blast
  from "4.IH"(2) [OF b1(1) "4.prems"(1) b1(2) fits(2)] b1(1) show ?case by simp
qed

text \<open>A buffer as a program declares it, or as an earlier use left it.\<close>

definition blob_buf_ok :: "blob_buf \<Rightarrow> bool" where
  "blob_buf_ok b \<longleftrightarrow> (case blob_mem b of None \<Rightarrow> blob_buflen b = 0
     | Some m \<Rightarrow> blob_buflen b = length m \<and> 4 dvd length m)"

definition blob_build :: "(nat \<Rightarrow> bool) \<Rightarrow> blob_buf \<Rightarrow> u32 \<Rightarrow> blob_tree list \<Rightarrow> blob_buf option" where
  "blob_build ok b aid ts = do {
     (_, b) \<leftarrow> blob_buf_init ok b aid;
     put_trees ok ts b
   }"

text \<open>C3: initialising a buffer and filling it through \<open>blob_put\<close>, \<open>blob_nest_start\<close> and
  \<open>blob_nest_end\<close> never writes outside the allocation, and the bytes at the start of the buffer
  are the encoding of the attribute tree: every length field, at every nesting level, counts its
  contents, and the padding is zero.  The total size has to fit the 24-bit length field.\<close>

theorem blob_build_correct:
  assumes "\<forall>n. ok n" "blob_buf_ok b" "4 + length (concat (map enc_tree ts)) < 2 ^ 24"
  shows "\<exists>b' post. blob_build ok b aid ts = Some b' \<and> blob_head b' = 0 \<and>
    blob_mem b' = Some (enc_tree (Nest aid ts) @ post)"
proof -
  have ok: "ok n" for n using assms(1) by blast
  have "blob_mem b = None \<and> blob_buflen b = 0 \<or>
      (\<exists>m. blob_mem b = Some m \<and> blob_buflen b = length m \<and> 4 dvd length m)"
    using assms(2) by (auto simp: blob_buf_ok_def split: option.splits)
  then obtain b1 where b1: "blob_buf_init ok b aid = Some (0, b1)" "buf_at b1 [] (False, aid) []"
    by (rule blob_buf_init_spec [where ok = ok and aid = aid, OF _ ok])
  from put_trees_spec [OF assms(1) b1(2)] assms(3) obtain b2 where
    b2: "put_trees ok ts b1 = Some b2" "buf_at b2 [] (False, aid) (concat (map enc_tree ts))"
    by fastforce
  from b2(2) enc_trees_dvd [of ts] show ?thesis
    by (auto simp: blob_build_def b1(1) b2(1) buf_at_def blob_enc_def)
qed

theorem blob_build_correct_witness:
  "\<exists>b' post. blob_build (\<lambda>_. True) \<lparr>blob_head = 0, blob_grow = False, blob_buflen = 0, blob_mem = None\<rparr> 1
      [Attr 2 [7], Nest 3 [Attr 4 []]] = Some b' \<and> blob_head b' = 0 \<and>
    blob_mem b' = Some (enc_tree (Nest 1 [Attr 2 [7], Nest 3 [Attr 4 []]]) @ post)"
  by (rule blob_build_correct) (simp_all add: blob_buf_ok_def pad4_def)

section \<open>Parsing\<close>

type_synonym blob_item = "(bool \<times> u32) \<times> bytes"

abbreviation enc_items :: "blob_item list \<Rightarrow> bytes" where
  "enc_items items \<equiv> concat (map (\<lambda>(c, data). blob_enc c data) items)"

lemma sless_of_nat_u32: "n < 2 ^ 31 \<Longrightarrow> (0 :: u32) <s of_nat n \<longleftrightarrow> 0 < n"
  by (simp add: word_sless_alt sint_of_nat_u32)

text \<open>The loop over the encoding of a sequence of attributes runs its body at each of them.\<close>

fun each_item :: "(nat \<Rightarrow> 's \<Rightarrow> ('r + 's) option) \<Rightarrow> nat \<Rightarrow> blob_item list \<Rightarrow> 's \<Rightarrow> ('r + 's) option" where
  "each_item body pos [] s = Some (Inr s)"
| "each_item body pos ((c, data) # items) s =
     (case body pos s of None \<Rightarrow> None
      | Some (Inl r) \<Rightarrow> Some (Inl r)
      | Some (Inr s') \<Rightarrow> each_item body (pos + 4 + pad4 (length data)) items s')"

lemma blob_enc_attr: "pre @ blob_enc c data @ post =
    attr_mem pre c (4 + length data) (data @ replicate (pad4 (length data) - length data) 0 @ post)"
  by (simp add: blob_enc_def)

lemma blob_for_each_items:
  assumes "m = pre @ enc_items items @ post" "4 + length (enc_items items) < 2 ^ 24"
  shows "blob_for_each m body (length pre) (length (enc_items items)) s = each_item body (length pre) items s"
  using assms
proof (induction items arbitrary: pre s)
  case Nil
  then show ?case by (simp add: blob_for_each.simps)
next
  case (Cons item items)
  obtain c data where item: "item = (c, data)" by (cases item)
  have small: "4 + length data < 2 ^ 24" "4 + pad4 (length data) < 2 ^ 24"
    using Cons.prems(2) pad4_bounds(1) [of "length data"] by (simp_all add: item)
  have m: "m = (pre @ blob_enc c data) @ enc_items items @ post"
    using Cons.prems(1) by (simp add: item)
  have IH: "blob_for_each m body (length (pre @ blob_enc c data)) (length (enc_items items)) s' =
      each_item body (length (pre @ blob_enc c data)) items s'" for s'
    using Cons.prems(2) by (intro Cons.IH [OF m]) (simp add: item)
  have "blob_pad_len m (length pre) = Some (of_nat (4 + pad4 (length data)))"
    using small unfolding m append_assoc blob_enc_attr by (subst blob_pad_len_attr) simp_all
  moreover have "unat (of_nat (4 + pad4 (length data)) :: u32) = 4 + pad4 (length data)"
    using small by (intro unat_of_nat_u32) simp
  ultimately show ?case
    using IH by (subst blob_for_each.simps)
      (simp add: item add.assoc split: option.splits sum.splits)
qed

text \<open>What an entry of the policy table accepts, on the payload itself.\<close>

definition type_ok :: "blob_attr_type \<Rightarrow> bytes \<Rightarrow> bool" where
  "type_ok ty data \<longleftrightarrow>
     (if ty \<in> {BLOB_ATTR_INT8, BLOB_ATTR_INT16, BLOB_ATTR_INT32, BLOB_ATTR_INT64}
      then length data = blob_type_minlen ty else blob_type_minlen ty \<le> length data)
     \<and> (ty = BLOB_ATTR_STRING \<longrightarrow> last data = 0)"

definition info_ok :: "blob_attr_info \<Rightarrow> nat \<Rightarrow> bytes \<Rightarrow> bool" where
  "info_ok pol attr data \<longleftrightarrow>
     (case info_type pol of None \<Rightarrow> True | Some ty \<Rightarrow> type_ok ty data)
     \<and> (info_minlen pol = 0 \<or> info_minlen pol \<le> length data)
     \<and> (info_maxlen pol = 0 \<or> length data \<le> info_maxlen pol)
     \<and> (case info_validate pol of None \<Rightarrow> True | Some v \<Rightarrow> v attr)"

fun parse_hits :: "nat \<Rightarrow> blob_attr_info list option \<Rightarrow> nat \<Rightarrow> nat \<Rightarrow> blob_item list \<Rightarrow> (nat \<times> nat) list" where
  "parse_hits attr info maxid pos [] = []"
| "parse_hits attr info maxid pos ((c, data) # items) =
     (let aid = unat (take_bit 7 (snd c)); rest = parse_hits attr info maxid (pos + 4 + pad4 (length data)) items
      in if aid < maxid \<and> (case info of None \<Rightarrow> True | Some infos \<Rightarrow> info_ok (infos ! aid) attr data)
         then (aid, pos) # rest else rest)"

lemma last_byte_read:
  assumes "data \<noteq> []"
  shows "mem_read (pre @ data @ post) (length pre + length data - 1) 1 = Some [last data]"
proof -
  have "pre @ data @ post = (pre @ butlast data) @ [last data] @ post" using assms by simp
  moreover have "length pre + length data - 1 = length (pre @ butlast data)"
    using assms by (cases data) simp_all
  ultimately show ?thesis by (simp only: mem_read_mid list.size One_nat_def)
qed

lemma blob_check_type_payload:
  assumes "length data < 2 ^ 24"
  shows "blob_check_type (pre @ h @ data @ post) (length pre + length h) (int (length data)) (Some ty) =
    Some (type_ok ty data)"
proof -
  have "mem_read (pre @ h @ data @ post) (nat (int (length pre + length h) + int (length data) - 1)) 1 =
      Some [last data]" if "data \<noteq> []"
  proof -
    have "nat (int (length pre + length h) + int (length data) - 1) =
        length (pre @ h) + length data - 1" using that by (cases data) simp_all
    with last_byte_read [OF that, of "pre @ h" post] show ?thesis by simp
  qed
  moreover have "data \<noteq> []" if "1 \<le> length data" using that by auto
  ultimately show ?thesis
    by (cases ty) (auto simp: blob_check_type_def type_ok_def Suc_le_eq)
qed

lemma blob_parse_attr_item:
  assumes m: "m = pre @ blob_enc c data @ post" and small: "4 + length data < 2 ^ 24"
    and infos: "\<forall>infos. info = Some infos \<longrightarrow> maxid \<le> length infos"
  shows "blob_parse_attr m attr info maxid (length pre) (res, found) = Some (Inr
     (if unat (take_bit 7 (snd c)) < maxid \<and>
         (case info of None \<Rightarrow> True | Some infos \<Rightarrow> info_ok (infos ! unat (take_bit 7 (snd c))) attr data)
      then (res[unat (take_bit 7 (snd c)) := Some (length pre)],
            if res ! unat (take_bit 7 (snd c)) = None then found + 1 else found)
      else (res, found)))"
proof -
  let ?h = "bytes_be32 (blob_hdr c (4 + length data))"
  let ?z = "replicate (pad4 (length data) - length data) 0 @ post"
  have m': "m = attr_mem pre c (4 + length data) (data @ ?z)" using m by (simp add: blob_enc_def)
  have "blob_id m (length pre) = Some (take_bit 7 (snd c))" by (simp add: m' blob_attr_simps)
  moreover have "blob_len m (length pre) = Some (of_nat (length data))"
    using small by (simp add: m' blob_attr_simps)
  moreover have "blob_check_type m (blob_data (length pre)) (int (length data)) (Some ty) =
      Some (type_ok ty data)" for ty
    using blob_check_type_payload [of data pre ?h ?z ty] small by (simp add: m' blob_data_def)
  moreover have "sint (of_nat (length data) :: u32) = int (length data)"
    "unat (of_nat (length data) :: u32) = length data"
    using small by (simp_all add: sint_of_nat_u32 unat_of_nat_u32)
  ultimately show ?thesis using infos
    by (auto simp: blob_parse_attr_def info_ok_def not_le not_less Let_def split: option.splits)
qed

abbreviation put_hits :: "(nat \<times> nat) list \<Rightarrow> nat option list \<Rightarrow> nat option list" where
  "put_hits \<equiv> fold (\<lambda>(i, p) res. res[i := Some p])"

lemma length_put_hits [simp]: "length (put_hits hits res) = length res"
  by (induction hits arbitrary: res) auto

lemma nth_put_hits:
  "i < length res \<Longrightarrow> put_hits hits res ! i =
     (case map_of (rev hits) i of None \<Rightarrow> res ! i | Some p \<Rightarrow> Some p)"
  by (induction hits rule: rev_induct) (auto simp: nth_list_update)

definition num_set :: "nat option list \<Rightarrow> int" where
  "num_set res = int (length (filter (\<lambda>x. x \<noteq> None) res))"

lemma num_set_simps: "num_set (replicate n None) = 0"
  "num_set (xs @ y # ys) = num_set xs + (if y = None then 0 else 1) + num_set ys"
  by (auto simp: num_set_def)

lemma num_set_update:
  assumes "i < length res"
  shows "num_set (res[i := Some p]) = (if res ! i = None then num_set res + 1 else num_set res)"
proof -
  have "res = take i res @ res ! i # drop (Suc i) res"
    using assms by (simp add: id_take_nth_drop)
  then have "num_set res = num_set (take i res) + (if res ! i = None then 0 else 1)
      + num_set (drop (Suc i) res)" by (metis num_set_simps(2))
  then show ?thesis
    using assms by (simp add: upd_conv_take_nth_drop num_set_simps(2))
qed

lemma each_item_parse:
  assumes "m = pre @ enc_items items @ post" "4 + length (enc_items items) < 2 ^ 24"
    and infos: "\<forall>infos. info = Some infos \<longrightarrow> maxid \<le> length infos"
    and "length res = maxid" "found = num_set res"
  shows "\<exists>res'. res' = put_hits (parse_hits attr info maxid (length pre) items) res \<and>
    each_item (blob_parse_attr m attr info maxid) (length pre) items (res, found) =
      Some (Inr (res', num_set res'))"
  using assms(1,2,4,5)
proof (induction items arbitrary: pre res found)
  case Nil
  then show ?case by simp
next
  case (Cons item items)
  obtain c data where item: "item = (c, data)" by (cases item)
  have small: "4 + length data < 2 ^ 24"
    using Cons.prems(2) pad4_bounds(1) [of "length data"] by (simp add: item)
  have m: "m = (pre @ blob_enc c data) @ enc_items items @ post"
    "m = pre @ blob_enc c data @ enc_items items @ post"
    using Cons.prems(1) by (simp_all add: item)
  have fits: "4 + length (enc_items items) < 2 ^ 24" using Cons.prems(2) by (simp add: item)
  define r1 where "r1 = (if unat (take_bit 7 (snd c)) < maxid \<and>
         (case info of None \<Rightarrow> True | Some infos \<Rightarrow> info_ok (infos ! unat (take_bit 7 (snd c))) attr data)
      then res[unat (take_bit 7 (snd c)) := Some (length pre)] else res)"
  have step: "blob_parse_attr m attr info maxid (length pre) (res, found) =
      Some (Inr (r1, num_set r1))"
    using Cons.prems(3,4) by (simp add: blob_parse_attr_item [OF m(2) small infos] r1_def num_set_update)
  have r1: "length r1 = maxid" using Cons.prems(3) by (simp add: r1_def)
  show ?case using Cons.IH [OF m(1) fits r1 refl] step
    by (simp add: item r1_def Let_def add.assoc)
qed

text \<open>C4: \<open>blob_parse\<close> of a container that holds a sequence of attributes reads nothing outside
  memory and sets entry \<open>i\<close> of its result to the last attribute with id \<open>i\<close> that the policy
  table accepts, to null when there is none, and returns the number of entries it set.\<close>

theorem blob_parse_correct:
  assumes "m = pre @ blob_enc c (enc_items items) @ post" "8 + length (enc_items items) < 2 ^ 24"
    and "\<forall>infos. info = Some infos \<longrightarrow> maxid \<le> length infos"
  shows "\<exists>res. blob_parse m (Some (length pre)) info maxid =
      Some (num_set res, res) \<and> length res = maxid \<and>
      (\<forall>i < maxid. res ! i =
         map_of (rev (parse_hits (length pre) info maxid (length pre + 4) items)) i)"
proof -
  let ?e = "enc_items items"
  let ?h = "bytes_be32 (blob_hdr c (4 + length ?e))"
  let ?z = "replicate (pad4 (length ?e) - length ?e) 0 @ post"
  have m: "m = attr_mem pre c (4 + length ?e) (?e @ ?z)" "m = (pre @ ?h) @ ?e @ ?z"
    using assms(1) by (simp_all add: blob_enc_def)
  have fits: "4 + length ?e < 2 ^ 24" using assms(2) by simp
  define hits where "hits = parse_hits (length pre) info maxid (length (pre @ ?h)) items"
  define res where "res = put_hits hits (replicate maxid None)"
  have "each_item (blob_parse_attr m (length pre) info maxid) (length (pre @ ?h)) items
      (replicate maxid None, 0) = Some (Inr (res, num_set res))"
    using each_item_parse [OF m(2) fits assms(3), of "replicate maxid None" 0 "length pre"]
    by (simp add: res_def hits_def num_set_simps)
  then have
    "blob_for_each m (blob_parse_attr m (length pre) info maxid) (blob_data (length pre)) (length ?e)
      (replicate maxid None, 0) = Some (Inr (res, num_set res))"
    using blob_for_each_items [OF m(2) fits, of "blob_parse_attr m (length pre) info maxid"]
    by (simp add: blob_data_def)
  moreover have "blob_len m (length pre) = Some (of_nat (length ?e))"
    using fits by (simp add: m(1) blob_len_attr)
  moreover have "(if (0 :: u32) <s of_nat (length ?e) then unat (of_nat (length ?e) :: u32) else 0) = length ?e"
    using fits by (simp add: sless_of_nat_u32 unat_of_nat_u32)
  ultimately have "blob_parse m (Some (length pre)) info maxid =
      Some (num_set res, res)"
    by (simp add: blob_parse_def)
  moreover have "res ! i = map_of (rev hits) i" if "i < maxid" for i
    using that by (simp add: res_def nth_put_hits split: option.splits)
  ultimately show ?thesis by (auto simp: hits_def res_def)
qed

theorem blob_parse_correct_witness:
  "\<exists>res. blob_parse (blob_enc (False, 0) (enc_items [((False, 1), [5]), ((False, 1), [6])])) (Some 0) None 2 =
      Some (num_set res, res) \<and> length res = 2 \<and>
      (\<forall>i < 2. res ! i = map_of (rev (parse_hits 0 None 2 (0 + 4) [((False, 1), [5]), ((False, 1), [6])])) i)"
  using blob_parse_correct [where pre = "[]" and post = "[]" and c = "(False, 0)" and maxid = 2
      and info = None and items = "[((False, 1), [5]), ((False, 1), [6])]", OF refl]
  by (simp add: pad4_def)

section \<open>Scalar attributes\<close>

text \<open>The contract of a pair of accessors \<open>blob_put_T\<close> and \<open>blob_get_T\<close>: a fixed-width encoding
  that the put operation passes to \<open>blob_put\<close> and the get operation reads at the payload.\<close>

locale blob_scalar =
  fixes enc :: "'v \<Rightarrow> bytes" and width :: nat
    and put :: "(nat \<Rightarrow> bool) \<Rightarrow> blob_buf \<Rightarrow> u32 \<Rightarrow> 'v \<Rightarrow> (nat \<times> blob_buf) option"
    and get :: "bytes \<Rightarrow> nat \<Rightarrow> 'v option"
  assumes length_enc: "length (enc v) = width"
    and put_enc: "put ok b aid v = blob_put ok b aid (Some (enc v)) width"
    and get_enc: "length pre = blob_data attr \<Longrightarrow> get (pre @ enc v @ post) attr = Some v"
begin

lemma put_get:
  assumes at: "buf_at b pre c body" and ok: "\<forall>n. ok n" and fits: "length body + 8 + pad4 width < 2 ^ 24"
  shows "\<exists>attr b' m. put ok b aid v = Some (attr, b') \<and> blob_mem b' = Some m \<and>
    buf_at b' pre c (body @ blob_enc (False, aid) (enc v)) \<and> blob_id m attr = Some (take_bit 7 aid) \<and>
    blob_len m attr = Some (of_nat width) \<and> get m attr = Some v"
proof -
  have ok': "ok n" for n using ok by blast
  have fits': "length body + 8 + pad4 (length (enc v)) < 2 ^ 24" using fits by (simp add: length_enc)
  obtain b' where b': "blob_put ok b aid (Some (enc v)) (length (enc v)) =
      Some (length pre + 4 + length body, b')" "buf_at b' pre c (body @ blob_enc (False, aid) (enc v))"
    by (rule blob_put_spec [where ok = ok and aid = aid, OF at ok' fits'])
  define body' where "body' = body @ blob_enc (False, aid) (enc v)"
  define l where "l = pre @ bytes_be32 (blob_hdr c (4 + length body')) @ body"
  from b'(2) obtain post where m: "blob_mem b' = Some (l @ blob_enc (False, aid) (enc v) @ post)"
    by (auto simp: buf_at_def l_def body'_def)
  let ?m = "attr_mem l (False, aid) (4 + width)
    (enc v @ replicate (pad4 (length (enc v)) - length (enc v)) 0 @ post)"
  let ?h = "bytes_be32 (blob_hdr (False, aid) (4 + width))"
  have small: "4 + width < 2 ^ 24" using fits pad4_bounds(1) [of width] by linarith
  have m': "blob_mem b' = Some ?m" using m by (simp add: blob_enc_attr length_enc)
  have len: "length l = length pre + 4 + length body" by (simp add: l_def)
  have "get ((l @ ?h) @ enc v @ replicate (pad4 (length (enc v)) - length (enc v)) 0 @ post) (length l)
      = Some v" by (rule get_enc) (simp add: blob_data_def)
  then have "get ?m (length l) = Some v" by simp
  moreover have "put ok b aid v = Some (length l, b')" using b'(1) by (simp add: put_enc length_enc len)
  ultimately show ?thesis using m' b'(2) small
    by (intro exI conjI) (assumption | simp add: blob_attr_simps)+
qed

end

lemma be16_to_cpu_to_be16: "be16_to_cpu (cpu_to_be16 v) = v"
proof -
  have eq: "(0xff :: u16) = mask 8" by (simp add: mask_eq_exp_minus_1)
  show ?thesis
    unfolding be16_to_cpu_def cpu_to_be16_def u_bswap16_def eq
    by (rule bit_word_eqI) (auto simp: bit_simps, metis le_add_diff_inverse linorder_not_less)
qed

lemma bytes_be64_halves:
  "bytes_be64 v = bytes_be32 (ucast (drop_bit 32 v)) @ bytes_be32 (ucast v)"
proof -
  have "[0..<8] = [0, 1, 2, 3, 4, 5, 6, 7 :: nat]" by (simp add: upt_rec)
  then show ?thesis
    by (auto simp: bytes_be64_def bytes_le64_def bytes_be32_def bytes_le32_def bit_simps
        intro!: bit_word_eqI)
qed

lemma u64_halves: "push_bit 32 (ucast (ucast (drop_bit 32 v) :: u32)) OR ucast (ucast v :: u32) = (v :: u64)"
  by (rule bit_word_eqI) (auto simp: bit_simps)

interpretation u8s: blob_scalar "\<lambda>v. [v]" 1 blob_put_u8 blob_get_u8
  by unfold_locales (auto simp: blob_put_u8_def blob_get_u8_def mem_read_def)

interpretation u16s: blob_scalar "\<lambda>v. bytes_le16 (cpu_to_be16 v)" 2 blob_put_u16 blob_get_u16
  by unfold_locales (auto simp: blob_put_u16_def blob_get_u16_def mem_read_def be16_to_cpu_to_be16)

interpretation u32s: blob_scalar "\<lambda>v. bytes_le32 (cpu_to_be32 v)" 4 blob_put_u32 blob_get_u32
  by unfold_locales (auto simp: blob_put_u32_def blob_get_u32_def mem_read_def)

interpretation u64s: blob_scalar bytes_be64 8 blob_put_u64 blob_get_u64
proof
  fix pre post :: bytes and attr and v :: u64
  assume len: "length pre = blob_data attr"
  let ?hi = "bytes_be32 (ucast (drop_bit 32 v))" and ?lo = "bytes_be32 (ucast v)"
  have "mem_read (pre @ ?hi @ ?lo @ post) (blob_data attr) 4 = Some ?hi"
    unfolding len [symmetric] by (rule mem_read_mid) simp
  moreover have "mem_read ((pre @ ?hi) @ ?lo @ post) (length (pre @ ?hi)) 4 = Some ?lo"
    by (rule mem_read_mid) simp
  ultimately show "blob_get_u64 (pre @ bytes_be64 v @ post) attr = Some v"
    by (simp add: bytes_be64_halves blob_get_u64_def len be32_to_cpu_le32 u64_halves)
qed (simp_all add: blob_put_u64_def)

text \<open>C5: each typed put operation on a growable buffer appends one attribute with the given id,
  and the matching get operation reads the value back, at every width.\<close>

theorem blob_put_get_scalars:
  assumes "buf_at b pre c body" "\<forall>n. ok n" "length body + 16 < 2 ^ 24"
  shows "(\<exists>attr b' m. blob_put_u8 ok b aid va = Some (attr, b') \<and> blob_mem b' = Some m \<and>
      blob_id m attr = Some (take_bit 7 aid) \<and> blob_get_u8 m attr = Some va) \<and>
    (\<exists>attr b' m. blob_put_u16 ok b aid vb = Some (attr, b') \<and> blob_mem b' = Some m \<and>
      blob_id m attr = Some (take_bit 7 aid) \<and> blob_get_u16 m attr = Some vb) \<and>
    (\<exists>attr b' m. blob_put_u32 ok b aid vc = Some (attr, b') \<and> blob_mem b' = Some m \<and>
      blob_id m attr = Some (take_bit 7 aid) \<and> blob_get_u32 m attr = Some vc) \<and>
    (\<exists>attr b' m. blob_put_u64 ok b aid vd = Some (attr, b') \<and> blob_mem b' = Some m \<and>
      blob_id m attr = Some (take_bit 7 aid) \<and> blob_get_u64 m attr = Some vd)"
proof -
  have fits: "length body + 8 + pad4 1 < 2 ^ 24" "length body + 8 + pad4 2 < 2 ^ 24"
    "length body + 8 + pad4 4 < 2 ^ 24" "length body + 8 + pad4 8 < 2 ^ 24"
    using assms(3) by (simp_all add: pad4_def)
  show ?thesis
    using u8s.put_get [OF assms(1,2) fits(1), of aid va] u16s.put_get [OF assms(1,2) fits(2), of aid vb]
      u32s.put_get [OF assms(1,2) fits(3), of aid vc] u64s.put_get [OF assms(1,2) fits(4), of aid vd]
    by blast
qed

text \<open>The buffer of the witness: one allocated block with an empty container of id 1.\<close>

definition small_buf :: blob_buf where
  "small_buf = \<lparr>blob_head = 0, blob_grow = True, blob_buflen = 8,
     blob_mem = Some (bytes_be32 (blob_hdr (False, 1) 4) @ [0, 0, 0, 0])\<rparr>"

lemma small_buf_at: "buf_at small_buf [] (False, 1) []"
  by (rule buf_atI [where post = "[0, 0, 0, 0]"]) (simp_all add: small_buf_def)

theorem blob_put_get_scalars_witness:
  "\<exists>attr b' m. blob_put_u64 (\<lambda>_. True) small_buf 5 0x0102030405060708 = Some (attr, b') \<and>
     blob_mem b' = Some m \<and> blob_id m attr = Some (take_bit 7 5) \<and>
     blob_get_u64 m attr = Some 0x0102030405060708"
  using blob_put_get_scalars [where vd = "0x0102030405060708" and aid = 5, OF small_buf_at, of "\<lambda>_. True"]
  by simp

section \<open>Allocation failure\<close>

lemma blob_init_start:
  assumes "4 \<le> length m"
  shows "do { m \<leftarrow> blob_init m 0 aid 4; blob_fill_pad m 0 } = Some (bytes_be32 (blob_hdr (False, aid) 4) @ drop 4 m)"
proof -
  have "mem_write (take 4 m @ drop 4 m) 0 (bytes_be32 (blob_hdr (False, aid) 4)) = Some (bytes_be32 (blob_hdr (False, aid) 4) @ drop 4 m)"
    using mem_write_mid [of "bytes_be32 (blob_hdr (False, aid) 4)" "take 4 m" "[]" "drop 4 m"] assms by simp
  then have "blob_init m 0 aid 4 = Some (bytes_be32 (blob_hdr (False, aid) 4) @ drop 4 m)"
    by (simp add: blob_init_def set_id_len_def byte_simps blob_hdr_def or.commute)
  moreover have "blob_fill_pad (bytes_be32 (blob_hdr (False, aid) 4) @ drop 4 m) 0 = Some (bytes_be32 (blob_hdr (False, aid) 4) @ drop 4 m)"
    using blob_fill_pad_attr [of 0 "[]" "[]" "[]" "(False, aid)" "drop 4 m"] by simp
  ultimately show ?thesis by simp
qed

text \<open>C6: initialising a buffer whose length is that of its memory.  The function never returns \<open>-ENOMEM\<close>: it returns 0 with the
  header at the start of the memory, or it faults, and it does so exactly when the memory that it needs is refused or has
  been refused before.\<close>

theorem blob_buf_init_no_memory:
  assumes "\<forall>m. blob_mem b = Some m \<longrightarrow> length m = blob_buflen b"
  shows "if (if blob_buflen b < 4 then \<not> ok (blob_buflen b + 256) else blob_mem b = None) then blob_buf_init ok b aid = None
    else \<exists>b' rest. blob_buf_init ok b aid = Some (0, b') \<and> blob_head b' = 0 \<and> blob_mem b' = Some (bytes_be32 (blob_hdr (False, aid) 4) @ rest)"
proof -
  define b0 where "b0 = b\<lparr>blob_grow := True, blob_head := 0\<rparr>"
  define b1 where "b1 = (if blob_buflen b < 4 then blob_buf_grow ok b0 (nat (4 - int (blob_buflen b))) else b0)"
  have b0: "(if \<not> blob_grow b then b\<lparr>blob_grow := True\<rparr> else b)\<lparr>blob_head := 0\<rparr> = b0" by (cases b) (simp add: b0_def)
  have "(if 0 < attr_to_offset 0 - BLOB_COOKIE + 4 + int 0 - int (blob_buflen b0)
      then (offset_to_attr (attr_to_offset 0), blob_buf_grow ok b0 (nat (attr_to_offset 0 - BLOB_COOKIE + 4 + int 0 - int (blob_buflen b0)))) else (0, b0)) = (0, b1)"
    by (simp add: b1_def b0_def attr_to_offset_def offset_to_attr_def)
  then have add: "blob_add ok b0 0 aid 0 = do { m \<leftarrow> blob_mem b1; m \<leftarrow> blob_init m 0 aid (0 + 4); m \<leftarrow> blob_fill_pad m 0; Some (0, b1\<lparr>blob_mem := Some m\<rparr>) }"
    unfolding blob_add_def Let_def by (simp only: prod.case)
  have init: "blob_buf_init ok b aid = do { m \<leftarrow> blob_mem b1; m \<leftarrow> do { m \<leftarrow> blob_init m 0 aid 4; blob_fill_pad m 0 }; Some (0, b1\<lparr>blob_mem := Some m\<rparr>) }"
    unfolding blob_buf_init_def Let_def b0 add by (cases "blob_mem b1") (simp_all add: attr_null_def split: Option.bind_split)
  have head: "blob_head b1 = 0"
    by (simp add: b1_def b0_def blob_buf_grow_def blob_buffer_grow_def Let_def attr_to_offset_def offset_to_attr_def)
  have "nat (4 - int (blob_buflen b)) div 256 = 0" by simp
  then have mem: "blob_mem b1 = (if blob_buflen b < 4 then if ok (blob_buflen b + 256)
      then Some ((case blob_mem b of None \<Rightarrow> [] | Some m \<Rightarrow> m) @ replicate 256 0) else None else blob_mem b)"
    by (simp add: b1_def b0_def blob_buf_grow_def blob_buffer_grow_def Let_def)
  show ?thesis
  proof (cases "blob_mem b1")
    case None
    then show ?thesis using init mem by (auto split: if_splits)
  next
    case (Some m)
    then have "4 \<le> length m" using mem assms by (auto split: if_splits)
    note start = blob_init_start [OF this, of aid]
    have "blob_buf_init ok b aid = Some (0, b1\<lparr>blob_mem := Some (bytes_be32 (blob_hdr (False, aid) 4) @ drop 4 m)\<rparr>)"
      unfolding init Some Option.bind.simps(2) start ..
    then show ?thesis using Some head mem by (auto split: if_splits)
  qed
qed

theorem blob_buf_init_no_memory_witness:
  "blob_buf_init (\<lambda>_. False) \<lparr>blob_head = 0, blob_grow = False, blob_buflen = 0, blob_mem = None\<rparr> 1 = None \<and>
   (\<exists>b' rest. blob_buf_init (\<lambda>_. False) \<lparr>blob_head = 8, blob_grow = True, blob_buflen = 256, blob_mem = Some (replicate 256 7)\<rparr> 1 = Some (0, b') \<and>
     blob_head b' = 0 \<and> blob_mem b' = Some (bytes_be32 (blob_hdr (False, 1) 4) @ rest))"
  using blob_buf_init_no_memory [of "\<lparr>blob_head = 0, blob_grow = False, blob_buflen = 0, blob_mem = None\<rparr>" "\<lambda>_. False" 1]
    blob_buf_init_no_memory [of "\<lparr>blob_head = 8, blob_grow = True, blob_buflen = 256, blob_mem = Some (replicate 256 7)\<rparr>" "\<lambda>_. False" 1]
  by simp

end
