(* ===== verification/Blobmsg.thy ===== *)
theory Blobmsg
  imports Blob
begin

text \<open>
  Named and typed messages on top of attributes, \<open>libubox/blobmsg.h\<close> and \<open>blobmsg.c\<close>: an
  attribute with the extended flag whose payload starts with a big-endian name length, the name,
  a null byte and padding, followed by the value.  A C string argument is the list of its
  characters before the null byte, and \<^const>\<open>None\<close> for a null pointer.
\<close>

section \<open>Reading a message\<close>

definition BLOBMSG_TYPE_UNSPEC :: u32 where "BLOBMSG_TYPE_UNSPEC = 0"
definition BLOBMSG_TYPE_ARRAY :: u32 where "BLOBMSG_TYPE_ARRAY = 1"
definition BLOBMSG_TYPE_TABLE :: u32 where "BLOBMSG_TYPE_TABLE = 2"
definition BLOBMSG_TYPE_STRING :: u32 where "BLOBMSG_TYPE_STRING = 3"
definition BLOBMSG_TYPE_INT64 :: u32 where "BLOBMSG_TYPE_INT64 = 4"
definition BLOBMSG_TYPE_INT32 :: u32 where "BLOBMSG_TYPE_INT32 = 5"
definition BLOBMSG_TYPE_INT16 :: u32 where "BLOBMSG_TYPE_INT16 = 6"
definition BLOBMSG_TYPE_INT8 :: u32 where "BLOBMSG_TYPE_INT8 = 7"
definition BLOBMSG_TYPE_LAST :: u32 where "BLOBMSG_TYPE_LAST = 7"

lemmas blobmsg_types = BLOBMSG_TYPE_UNSPEC_def BLOBMSG_TYPE_ARRAY_def BLOBMSG_TYPE_TABLE_def
  BLOBMSG_TYPE_STRING_def BLOBMSG_TYPE_INT64_def BLOBMSG_TYPE_INT32_def BLOBMSG_TYPE_INT16_def
  BLOBMSG_TYPE_INT8_def BLOBMSG_TYPE_LAST_def

text \<open>The table \<open>blob_type\<close>; entries the initialiser leaves out are zero, \<open>BLOB_ATTR_UNSPEC\<close>.\<close>

definition blob_type :: "blob_attr_type list" where
  "blob_type = [BLOB_ATTR_BINARY, BLOB_ATTR_UNSPEC, BLOB_ATTR_UNSPEC, BLOB_ATTR_STRING,
     BLOB_ATTR_INT64, BLOB_ATTR_INT32, BLOB_ATTR_INT16, BLOB_ATTR_INT8]"

definition blobmsg_hdrlen :: "nat \<Rightarrow> nat" where
  "blobmsg_hdrlen namelen = pad4 (2 + namelen + 1)"

definition blobmsg_namelen :: "bytes \<Rightarrow> nat \<Rightarrow> u16 option" where
  "blobmsg_namelen m hdr = map_option (\<lambda>bs. be16_to_cpu (le16 bs)) (mem_read m hdr 2)"

definition blobmsg_name :: "nat \<Rightarrow> nat" where
  "blobmsg_name attr = blob_data attr + 2"

definition blobmsg_type :: "bytes \<Rightarrow> nat \<Rightarrow> u32 option" where
  "blobmsg_type m attr = blob_id m attr"

definition blobmsg_data :: "bytes \<Rightarrow> nat \<Rightarrow> nat option" where
  "blobmsg_data m attr = do {
     e \<leftarrow> blob_is_extended m attr;
     if e then do {
       n \<leftarrow> blobmsg_namelen m (blob_data attr);
       Some (blob_data attr + blobmsg_hdrlen (unat n))
     } else Some (blob_data attr)
   }"

definition blobmsg_data_len :: "bytes \<Rightarrow> nat \<Rightarrow> int option" where
  "blobmsg_data_len m attr = do {
     let start = blob_data attr;
     stop \<leftarrow> blobmsg_data m attr;
     len \<leftarrow> blob_len m attr;
     Some (sint (len - of_nat (stop - start)))
   }"

definition blobmsg_check_attr :: "bytes \<Rightarrow> nat \<Rightarrow> bool \<Rightarrow> bool option" where
  "blobmsg_check_attr m attr nm = do {
     blen \<leftarrow> blob_len m attr;
     if unat blen < 2 then Some False
     else do {
       let hdr = blob_data attr;
       namelen \<leftarrow> blobmsg_namelen m hdr;
       if namelen = 0 \<and> nm then Some False
       else if unat blen - 2 < unat namelen then Some False
       else do {
         c \<leftarrow> mem_read m (hdr + 2 + unat namelen) 1;
         if hd c \<noteq> 0 then Some False
         else do {
           aid \<leftarrow> blob_id m attr;
           len \<leftarrow> blobmsg_data_len m attr;
           data \<leftarrow> blobmsg_data m attr;
           if BLOBMSG_TYPE_LAST < aid then Some False
           else if blob_type ! unat aid = BLOB_ATTR_UNSPEC then Some True
           else blob_check_type m data len (Some (blob_type ! unat aid))
         }
       }
     }
   }"

definition blobmsg_for_each ::
  "bytes \<Rightarrow> (nat \<Rightarrow> 's \<Rightarrow> ('r + 's) option) \<Rightarrow> nat \<Rightarrow> 's \<Rightarrow> ('r + 's) option" where
  "blobmsg_for_each m body attr s = do {
     rem \<leftarrow> blobmsg_data_len m attr;
     pos \<leftarrow> blobmsg_data m attr;
     blob_for_each m body pos (nat rem) s
   }"

definition blobmsg_check_attr_list :: "bytes \<Rightarrow> nat \<Rightarrow> u32 \<Rightarrow> bool option" where
  "blobmsg_check_attr_list m attr ty = do {
     t \<leftarrow> blobmsg_type m attr;
     if t \<noteq> BLOBMSG_TYPE_TABLE \<and> t \<noteq> BLOBMSG_TYPE_ARRAY then Some False
     else do {
       let nm = (t = BLOBMSG_TYPE_TABLE);
       r \<leftarrow> blobmsg_for_each m (\<lambda>cur s. do {
              ct \<leftarrow> blobmsg_type m cur;
              if ct \<noteq> ty then Some (Inl ())
              else do {
                good \<leftarrow> blobmsg_check_attr m cur nm;
                Some (if good then Inr s else Inl ())
              }
            }) attr ();
       Some (case r of Inl _ \<Rightarrow> False | Inr _ \<Rightarrow> True)
     }
   }"

record blobmsg_policy =
  pol_name :: "bytes option"
  pol_type :: u32

text \<open>\<open>strcmp (s, p) = 0\<close> for a string \<open>s\<close> and memory at \<open>p\<close>.\<close>

fun strcmp_eq :: "bytes \<Rightarrow> bytes \<Rightarrow> nat \<Rightarrow> bool option" where
  "strcmp_eq [] m p = map_option (\<lambda>c. hd c = 0) (mem_read m p 1)"
| "strcmp_eq (x # xs) m p = do {
     c \<leftarrow> mem_read m p 1;
     if hd c = x then strcmp_eq xs m (p + 1) else Some False
   }"

text \<open>The inner loop of \<open>blobmsg_parse\<close> at one attribute; \<open>pslen\<close> is the 8-bit name length.\<close>

fun blobmsg_parse_policies ::
  "bytes \<Rightarrow> nat \<Rightarrow> blobmsg_policy list \<Rightarrow> nat \<Rightarrow> nat option list \<Rightarrow> (int + nat option list) option" where
  "blobmsg_parse_policies m attr [] i tb = Some (Inr tb)"
| "blobmsg_parse_policies m attr (pol # pols) i tb =
     (case pol_name pol of
        None \<Rightarrow> blobmsg_parse_policies m attr pols (i + 1) tb
      | Some name \<Rightarrow> do {
          aid \<leftarrow> blob_id m attr;
          if pol_type pol \<noteq> BLOBMSG_TYPE_UNSPEC \<and> aid \<noteq> pol_type pol
          then blobmsg_parse_policies m attr pols (i + 1) tb
          else do {
            namelen \<leftarrow> blobmsg_namelen m (blob_data attr);
            let pslen = (of_nat (length name) :: u8);
            if namelen \<noteq> ucast pslen then blobmsg_parse_policies m attr pols (i + 1) tb
            else do {
              good \<leftarrow> blobmsg_check_attr m attr True;
              if \<not> good then Some (Inl (-1))
              else if tb ! i \<noteq> None then blobmsg_parse_policies m attr pols (i + 1) tb
              else do {
                same \<leftarrow> strcmp_eq name m (blobmsg_name attr);
                blobmsg_parse_policies m attr pols (i + 1)
                  (if same then tb[i := Some attr] else tb)
              }
            }
          }
        })"

definition blobmsg_parse_attr ::
  "bytes \<Rightarrow> blobmsg_policy list \<Rightarrow> nat \<Rightarrow> nat option list \<Rightarrow>
     ((int \<times> nat option list) + nat option list) option" where
  "blobmsg_parse_attr m policy attr tb = do {
     r \<leftarrow> blobmsg_parse_policies m attr policy 0 tb;
     Some (case r of Inl e \<Rightarrow> Inl (e, tb) | Inr tb \<Rightarrow> Inr tb)
   }"

definition blobmsg_parse ::
  "bytes \<Rightarrow> blobmsg_policy list \<Rightarrow> nat \<Rightarrow> int \<Rightarrow> (int \<times> nat option list) option" where
  "blobmsg_parse m policy data len = do {
     let tb = replicate (length policy) None;
     r \<leftarrow> blob_for_each m (blobmsg_parse_attr m policy) data (nat len) tb;
     Some (case r of Inl e \<Rightarrow> e | Inr tb \<Rightarrow> (0, tb))
   }"

definition blobmsg_parse_array_attr ::
  "bytes \<Rightarrow> blobmsg_policy list \<Rightarrow> nat \<Rightarrow> nat \<times> nat option list \<Rightarrow>
     ((int \<times> nat option list) + (nat \<times> nat option list)) option" where
  "blobmsg_parse_array_attr m policy attr s = do {
     let (i, tb) = s;
     if length policy \<le> i then None
     else do {
       aid \<leftarrow> blob_id m attr;
       if pol_type (policy ! i) \<noteq> BLOBMSG_TYPE_UNSPEC \<and> aid \<noteq> pol_type (policy ! i)
       then Some (Inr (i, tb))
       else do {
         good \<leftarrow> blobmsg_check_attr m attr False;
         if \<not> good then Some (Inl (-1, tb))
         else if tb ! i \<noteq> None then Some (Inr (i, tb))
         else let tb = tb[i := Some attr]; i = i + 1
              in Some (if i = length policy then Inl (0, tb) else Inr (i, tb))
       }
     }
   }"

definition blobmsg_parse_array ::
  "bytes \<Rightarrow> blobmsg_policy list \<Rightarrow> nat \<Rightarrow> int \<Rightarrow> (int \<times> nat option list) option" where
  "blobmsg_parse_array m policy data len = do {
     r \<leftarrow> blob_for_each m (blobmsg_parse_array_attr m policy) data (nat len)
            (0, replicate (length policy) None);
     Some (case r of Inl e \<Rightarrow> e | Inr (i, tb) \<Rightarrow> (0, tb))
   }"

definition blobmsg_get_u8 :: "bytes \<Rightarrow> nat \<Rightarrow> u8 option" where
  "blobmsg_get_u8 m attr = do {
     p \<leftarrow> blobmsg_data m attr;
     bs \<leftarrow> mem_read m p 1;
     Some (hd bs)
   }"

definition blobmsg_get_bool :: "bytes \<Rightarrow> nat \<Rightarrow> bool option" where
  "blobmsg_get_bool m attr = map_option (\<lambda>v. v \<noteq> 0) (blobmsg_get_u8 m attr)"

definition blobmsg_get_u16 :: "bytes \<Rightarrow> nat \<Rightarrow> u16 option" where
  "blobmsg_get_u16 m attr = do {
     p \<leftarrow> blobmsg_data m attr;
     bs \<leftarrow> mem_read m p 2;
     Some (be16_to_cpu (le16 bs))
   }"

definition blobmsg_get_u32 :: "bytes \<Rightarrow> nat \<Rightarrow> u32 option" where
  "blobmsg_get_u32 m attr = do {
     p \<leftarrow> blobmsg_data m attr;
     bs \<leftarrow> mem_read m p 4;
     Some (be32_to_cpu (le32 bs))
   }"

definition blobmsg_get_u64 :: "bytes \<Rightarrow> nat \<Rightarrow> u64 option" where
  "blobmsg_get_u64 m attr = do {
     p \<leftarrow> blobmsg_data m attr;
     bs \<leftarrow> mem_read m p 4;
     let tmp = push_bit 32 (ucast (be32_to_cpu (le32 bs)));
     bs \<leftarrow> mem_read m (p + 4) 4;
     Some (tmp OR ucast (be32_to_cpu (le32 bs)))
   }"

section \<open>Building a message\<close>

definition blobmsg_new ::
  "(nat \<Rightarrow> bool) \<Rightarrow> blob_buf \<Rightarrow> u32 \<Rightarrow> bytes option \<Rightarrow> nat \<Rightarrow> (nat \<times> nat \<times> blob_buf) option" where
  "blobmsg_new ok b ty name payload_len = do {
     let name = (case name of None \<Rightarrow> [] | Some s \<Rightarrow> s);
     let namelen = length name;
     let attrlen = blobmsg_hdrlen namelen + payload_len;
     (attr, b) \<leftarrow> blob_new ok b ty attrlen;
     m \<leftarrow> blob_mem b;
     w \<leftarrow> id_len m attr;
     m \<leftarrow> set_id_len m attr (w OR be32_to_cpu BLOB_ATTR_EXTENDED);
     let hdr = blob_data attr;
     m \<leftarrow> mem_write m hdr (bytes_le16 (cpu_to_be16 (of_nat namelen)));
     m \<leftarrow> mem_write m (hdr + 2) (name @ [0]);
     pad_end \<leftarrow> blobmsg_data m attr;
     let pad_start = hdr + 2 + namelen;
     m \<leftarrow> (if pad_start < pad_end then mem_write m pad_start (replicate (pad_end - pad_start) 0)
          else Some m);
     Some (attr, pad_end, b\<lparr>blob_mem := Some m\<rparr>)
   }"

definition blobmsg_open_nested ::
  "(nat \<Rightarrow> bool) \<Rightarrow> blob_buf \<Rightarrow> bytes option \<Rightarrow> bool \<Rightarrow> (int \<times> blob_buf) option" where
  "blobmsg_open_nested ok b name array = do {
     let ty = (if array then BLOBMSG_TYPE_ARRAY else BLOBMSG_TYPE_TABLE);
     let offset = attr_to_offset (blob_head b);
     let name = (case name of None \<Rightarrow> [] | Some s \<Rightarrow> s);
     (head, data, b) \<leftarrow> blobmsg_new ok b ty (Some name) 0;
     m \<leftarrow> blob_mem b;
     hl \<leftarrow> blob_pad_len m (blob_head b);
     m \<leftarrow> blob_set_raw_len m (blob_head b) (hl - of_nat (blobmsg_hdrlen (length name)));
     Some (offset, b\<lparr>blob_mem := Some m, blob_head := head\<rparr>)
   }"

definition blobmsg_close_nested :: "blob_buf \<Rightarrow> int \<Rightarrow> blob_buf option" where
  "blobmsg_close_nested b cookie = blob_nest_end b cookie"

definition blobmsg_add_field ::
  "(nat \<Rightarrow> bool) \<Rightarrow> blob_buf \<Rightarrow> u32 \<Rightarrow> bytes option \<Rightarrow> bytes \<Rightarrow> nat \<Rightarrow> (int \<times> blob_buf) option" where
  "blobmsg_add_field ok b ty name data len = do {
     (attr, dest, b) \<leftarrow> blobmsg_new ok b ty name len;
     if 0 < len then do {
       m \<leftarrow> blob_mem b;
       src \<leftarrow> mem_read data 0 len;
       m \<leftarrow> mem_write m dest src;
       Some (0, b\<lparr>blob_mem := Some m\<rparr>)
     } else Some (0, b)
   }"

definition blobmsg_add_u8 ::
  "(nat \<Rightarrow> bool) \<Rightarrow> blob_buf \<Rightarrow> bytes option \<Rightarrow> u8 \<Rightarrow> (int \<times> blob_buf) option" where
  "blobmsg_add_u8 ok b name val = blobmsg_add_field ok b BLOBMSG_TYPE_INT8 name [val] 1"

definition blobmsg_add_u16 ::
  "(nat \<Rightarrow> bool) \<Rightarrow> blob_buf \<Rightarrow> bytes option \<Rightarrow> u16 \<Rightarrow> (int \<times> blob_buf) option" where
  "blobmsg_add_u16 ok b name val =
     blobmsg_add_field ok b BLOBMSG_TYPE_INT16 name (bytes_le16 (cpu_to_be16 val)) 2"

definition blobmsg_add_u32 ::
  "(nat \<Rightarrow> bool) \<Rightarrow> blob_buf \<Rightarrow> bytes option \<Rightarrow> u32 \<Rightarrow> (int \<times> blob_buf) option" where
  "blobmsg_add_u32 ok b name val =
     blobmsg_add_field ok b BLOBMSG_TYPE_INT32 name (bytes_le32 (cpu_to_be32 val)) 4"

definition blobmsg_add_u64 ::
  "(nat \<Rightarrow> bool) \<Rightarrow> blob_buf \<Rightarrow> bytes option \<Rightarrow> u64 \<Rightarrow> (int \<times> blob_buf) option" where
  "blobmsg_add_u64 ok b name val =
     blobmsg_add_field ok b BLOBMSG_TYPE_INT64 name (bytes_be64 val) 8"

definition blobmsg_add_string ::
  "(nat \<Rightarrow> bool) \<Rightarrow> blob_buf \<Rightarrow> bytes option \<Rightarrow> bytes \<Rightarrow> (int \<times> blob_buf) option" where
  "blobmsg_add_string ok b name str =
     blobmsg_add_field ok b BLOBMSG_TYPE_STRING name (str @ [0]) (length str + 1)"

definition blobmsg_buf_init :: "(nat \<Rightarrow> bool) \<Rightarrow> blob_buf \<Rightarrow> (int \<times> blob_buf) option" where
  "blobmsg_buf_init ok b = blob_buf_init ok b BLOBMSG_TYPE_TABLE"

text \<open>\<open>strlen\<close> of memory at \<open>p\<close>.\<close>

function c_strlen :: "bytes \<Rightarrow> nat \<Rightarrow> nat option" where
  "c_strlen m p = (if length m \<le> p then None
     else if m ! p = 0 then Some 0 else map_option Suc (c_strlen m (p + 1)))"
  by pat_completeness auto
termination
  by (relation "measure (\<lambda>(m, p). length m - p)") auto

declare c_strlen.simps [simp del]

definition blobmsg_alloc_string_buffer ::
  "(nat \<Rightarrow> bool) \<Rightarrow> blob_buf \<Rightarrow> bytes option \<Rightarrow> nat \<Rightarrow> (nat \<times> blob_buf) option" where
  "blobmsg_alloc_string_buffer ok b name maxlen = do {
     (attr, _, b) \<leftarrow> blobmsg_new ok b BLOBMSG_TYPE_STRING name maxlen;
     m \<leftarrow> blob_mem b;
     data_dest \<leftarrow> blobmsg_data m attr;
     hl \<leftarrow> blob_pad_len m (blob_head b);
     al \<leftarrow> blob_pad_len m attr;
     m \<leftarrow> blob_set_raw_len m (blob_head b) (hl - al);
     ar \<leftarrow> blob_raw_len m attr;
     m \<leftarrow> blob_set_raw_len m attr (ar - of_nat maxlen);
     Some (data_dest, b\<lparr>blob_mem := Some m\<rparr>)
   }"

definition blobmsg_realloc_string_buffer ::
  "(nat \<Rightarrow> bool) \<Rightarrow> blob_buf \<Rightarrow> nat \<Rightarrow> (nat \<times> blob_buf) option" where
  "blobmsg_realloc_string_buffer ok b maxlen = do {
     m \<leftarrow> blob_mem b;
     attr \<leftarrow> blob_next m (blob_head b);
     al \<leftarrow> blob_pad_len m attr;
     let offset = attr_to_offset attr + int (unat al) - BLOB_COOKIE;
     let required = int maxlen - (int (blob_buflen b) - offset);
     if required \<le> 0 then do {
       p \<leftarrow> blobmsg_data m attr;
       Some (p, b)
     } else do {
       let b = blob_buf_grow ok b (nat required);
       m \<leftarrow> blob_mem b;
       attr \<leftarrow> blob_next m (blob_head b);
       p \<leftarrow> blobmsg_data m attr;
       Some (p, b)
     }
   }"

definition blobmsg_add_string_buffer :: "blob_buf \<Rightarrow> blob_buf option" where
  "blobmsg_add_string_buffer b = do {
     m \<leftarrow> blob_mem b;
     attr \<leftarrow> blob_next m (blob_head b);
     p \<leftarrow> blobmsg_data m attr;
     n \<leftarrow> c_strlen m p;
     let len = n + 1;
     ar \<leftarrow> blob_raw_len m attr;
     let attrlen = ar + of_nat len;
     m \<leftarrow> blob_set_raw_len m attr attrlen;
     m \<leftarrow> blob_fill_pad m attr;
     hr \<leftarrow> blob_raw_len m (blob_head b);
     ap \<leftarrow> blob_pad_len m attr;
     m \<leftarrow> blob_set_raw_len m (blob_head b) (hr + ap);
     Some (b\<lparr>blob_mem := Some m\<rparr>)
   }"

text \<open>\<open>blobmsg_vprintf\<close>: \<open>text\<close> is what the C library formats.\<close>

definition blobmsg_vprintf ::
  "(nat \<Rightarrow> bool) \<Rightarrow> blob_buf \<Rightarrow> bytes option \<Rightarrow> bytes \<Rightarrow> blob_buf option" where
  "blobmsg_vprintf ok b name tx = do {
     (dest, b) \<leftarrow> blobmsg_alloc_string_buffer ok b name (length tx + 1);
     m \<leftarrow> blob_mem b;
     m \<leftarrow> mem_write m dest (tx @ [0]);
     blobmsg_add_string_buffer (b\<lparr>blob_mem := Some m\<rparr>)
   }"

section \<open>The encoding of a message\<close>

text \<open>The header in front of a value: name length, name, null byte and padding.\<close>

definition msg_hdr :: "bytes \<Rightarrow> bytes" where
  "msg_hdr name = bytes_le16 (cpu_to_be16 (of_nat (length name))) @ name
     @ replicate (blobmsg_hdrlen (length name) - 2 - length name) 0"

lemma blobmsg_hdrlen_bounds: "3 + k \<le> blobmsg_hdrlen k" "blobmsg_hdrlen k < 7 + k"
  "4 dvd blobmsg_hdrlen k"
  using pad4_bounds [of "2 + k + 1"] by (auto simp: blobmsg_hdrlen_def)

lemma length_msg_hdr [simp]: "length (msg_hdr name) = blobmsg_hdrlen (length name)"
  using blobmsg_hdrlen_bounds [of "length name"] by (simp add: msg_hdr_def)

lemma blobmsg_namelen_hdr:
  assumes "k < 2 ^ 16"
  shows "blobmsg_namelen (l @ h @ bytes_le16 (cpu_to_be16 (of_nat k)) @ rest) (length l + length h) =
    Some (of_nat k)"
  using mem_read_mid [of "bytes_le16 (cpu_to_be16 (of_nat k))" 2 "l @ h" rest]
  by (simp add: blobmsg_namelen_def be16_to_cpu_to_be16)

lemma unat_of_nat_u16: "k < 2 ^ 16 \<Longrightarrow> unat (of_nat k :: u16) = k"
  by (simp add: unat_of_nat take_bit_nat_eq_self)

lemma blobmsg_data_hdr:
  assumes "k < 2 ^ 16"
  shows "blobmsg_data (attr_mem l (True, ty) n (bytes_le16 (cpu_to_be16 (of_nat k)) @ rest)) (length l) =
    Some (length l + 4 + blobmsg_hdrlen k)"
  using assms blobmsg_namelen_hdr [OF assms, of l "bytes_be32 (blob_hdr (True, ty) n)" rest]
  by (simp add: blobmsg_data_def blob_attr_simps blob_data_def unat_of_nat_u16)

lemma hdr_or_extended:
  "cpu_to_be32 (blob_hdr (e, i) n) OR be32_to_cpu BLOB_ATTR_EXTENDED = cpu_to_be32 (blob_hdr (True, i) n)"
  by (simp add: cpu_to_be32_def be32_to_cpu_def blob_hdr_set_ext flip: bswap32_or)

text \<open>The writes of \<open>blobmsg_new\<close> after \<open>blob_new\<close>, on the bytes of the new attribute.\<close>

lemma blobmsg_hdr_writes:
  fixes l d name :: bytes and ty :: u32 and n :: nat
  assumes len: "length d = blobmsg_hdrlen (length name)" and k: "length name < 2 ^ 16"
  defines "h \<equiv> bytes_be32 (blob_hdr (True, ty) n)"
    and "nl \<equiv> bytes_le16 (cpu_to_be16 (of_nat (length name)))"
    and "hl \<equiv> blobmsg_hdrlen (length name)"
  obtains m1 m2 where "mem_write (l @ h @ d @ rest) (length l + 4) nl = Some m1"
    "mem_write m1 (length l + 4 + 2) (name @ [0]) = Some m2"
    "blobmsg_data m2 (length l) = Some (length l + 4 + hl)"
    "length l + 4 + 2 + length name < length l + 4 + hl"
    "mem_write m2 (length l + 4 + 2 + length name) (replicate (hl - 2 - length name) 0) =
       Some (l @ h @ msg_hdr name @ rest)"
proof -
  define d1 d2 d3 where "d1 = take 2 d" and "d2 = take (length name + 1) (drop 2 d)"
    and "d3 = drop (3 + length name) d"
  have b: "3 + length name \<le> hl" using blobmsg_hdrlen_bounds(1) by (simp add: hl_def)
  have "d3 = drop (length name + 1) (drop 2 d)"
    by (simp add: d3_def add.commute numeral_3_eq_3)
  then have d: "d = d1 @ d2 @ d3"
    by (simp only: d1_def d2_def append_take_drop_id)
  have lens: "length d1 = 2" "length d2 = length name + 1" "length d3 = hl - 3 - length name"
    "length h = 4" "length nl = 2"
    using len b by (simp_all add: d1_def d2_def d3_def h_def nl_def hl_def)
  have 1: "mem_write ((l @ h) @ d1 @ d2 @ d3 @ rest) (length (l @ h)) nl =
      Some ((l @ h) @ nl @ d2 @ d3 @ rest)" using lens by (intro mem_write_mid) simp
  have 2: "mem_write ((l @ h @ nl) @ d2 @ d3 @ rest) (length (l @ h @ nl)) (name @ [0]) =
      Some ((l @ h @ nl) @ (name @ [0]) @ d3 @ rest)" using lens by (intro mem_write_mid) simp
  have 3: "mem_write ((l @ h @ nl @ name) @ ([0] @ d3) @ rest) (length (l @ h @ nl @ name))
      (replicate (hl - 2 - length name) 0) =
      Some ((l @ h @ nl @ name) @ replicate (hl - 2 - length name) 0 @ rest)"
    using lens b by (intro mem_write_mid) simp
  have 4: "blobmsg_data (l @ h @ nl @ name @ [0] @ d3 @ rest) (length l) = Some (length l + 4 + hl)"
    using blobmsg_data_hdr [OF k, of l ty n "name @ [0] @ d3 @ rest"] by (simp add: h_def nl_def hl_def)
  show thesis
  proof (rule that [of "(l @ h) @ nl @ d2 @ d3 @ rest" "(l @ h @ nl) @ (name @ [0]) @ d3 @ rest"])
    show "mem_write (l @ h @ d @ rest) (length l + 4) nl = Some ((l @ h) @ nl @ d2 @ d3 @ rest)"
      using 1 lens by (simp add: d)
    show "mem_write ((l @ h) @ nl @ d2 @ d3 @ rest) (length l + 4 + 2) (name @ [0]) =
        Some ((l @ h @ nl) @ (name @ [0]) @ d3 @ rest)" using 2 lens by (simp add: add.commute)
    show "blobmsg_data ((l @ h @ nl) @ (name @ [0]) @ d3 @ rest) (length l) =
        Some (length l + 4 + hl)" using 4 by simp
    show "mem_write ((l @ h @ nl) @ (name @ [0]) @ d3 @ rest) (length l + 4 + 2 + length name)
        (replicate (hl - 2 - length name) 0) = Some (l @ h @ msg_hdr name @ rest)"
      using 3 lens by (simp add: msg_hdr_def nl_def hl_def add.commute add.left_commute)
  qed (use b in simp)
qed

text \<open>The bytes of one field: its header word, its name and value, and zero padding.\<close>

abbreviation msg_enc :: "u32 \<Rightarrow> bytes \<Rightarrow> bytes \<Rightarrow> bytes" where
  "msg_enc ty name data \<equiv> blob_enc (True, ty) (msg_hdr name @ data)"

lemma msg_pad: "pad4 (blobmsg_hdrlen k + n) = blobmsg_hdrlen k + pad4 n"
proof -
  obtain q where "blobmsg_hdrlen k = 4 * q" using blobmsg_hdrlen_bounds(3) [of k] by blast
  then show ?thesis unfolding pad4_def by arith
qed

lemma blobmsg_new_spec:
  assumes at: "buf_at b pre c body" and ok: "\<And>n. ok n"
    and k: "length (case name of None \<Rightarrow> [] | Some s \<Rightarrow> s) < 2 ^ 16"
    and fits: "length body + 8 + blobmsg_hdrlen (length (case name of None \<Rightarrow> [] | Some s \<Rightarrow> s))
      + pad4 n < 2 ^ 24"
  obtains dat b' where "length dat = n"
    "blobmsg_new ok b ty name n = Some (length pre + 4 + length body,
       length pre + 4 + length body + 4 + blobmsg_hdrlen (length (case name of None \<Rightarrow> [] | Some s \<Rightarrow> s)), b')"
    "buf_at b' pre c (body @ msg_enc ty (case name of None \<Rightarrow> [] | Some s \<Rightarrow> s) dat)"
proof -
  define nm where "nm = (case name of None \<Rightarrow> [] | Some s \<Rightarrow> s)"
  define hl where "hl = blobmsg_hdrlen (length nm)"
  have fits': "length body + 8 + pad4 (hl + n) < 2 ^ 24"
    using fits by (simp add: hl_def nm_def msg_pad)
  obtain dat0 b1 where new: "length dat0 = hl + n"
    "blob_new ok b ty (hl + n) = Some (length pre + 4 + length body, b1)"
    "buf_at b1 pre c (body @ bytes_be32 (blob_hdr (False, ty) (4 + (hl + n))) @ dat0
       @ replicate (pad4 (hl + n) - (hl + n)) 0)"
    by (rule blob_new_spec [where ok = ok and aid = ty, OF at ok fits'])
  define z where "z = replicate (pad4 (hl + n) - (hl + n)) (0 :: u8)"
  define d dat where "d = take hl dat0" and "dat = drop hl dat0"
  have d: "dat0 = d @ dat" "length d = hl" "length dat = n"
    using new(1) by (simp_all add: d_def dat_def)
  define body' where "body' = body @ msg_enc ty nm dat"
  have len': "length body' = length (body @ bytes_be32 (blob_hdr (False, ty) (4 + (hl + n))) @ dat0 @ z)"
    using d by (simp add: body'_def z_def hl_def blob_enc_def)
  from new(3) obtain post where b1: "blob_grow b1" "blob_head b1 = length pre" "4 dvd length pre"
    "4 dvd length body'" "4 dvd blob_buflen b1"
    "blob_mem b1 = Some (attr_mem pre c (4 + length body')
       ((body @ bytes_be32 (blob_hdr (False, ty) (4 + (hl + n))) @ dat0 @ z) @ post))"
    "blob_buflen b1 = length pre + 4 + length body' + length post"
    unfolding buf_at_def len' z_def by blast
  define l where "l = pre @ bytes_be32 (blob_hdr c (4 + length body')) @ body"
  have l: "length l = length pre + 4 + length body" by (simp add: l_def)
  have mem1: "blob_mem b1 = Some (attr_mem l (False, ty) (4 + (hl + n)) (d @ dat @ z @ post))"
    using b1(6) by (simp add: l_def d(1))
  obtain m1 m2 where w: "mem_write (attr_mem l (True, ty) (4 + (hl + n)) (d @ dat @ z @ post))
      (length l + 4) (bytes_le16 (cpu_to_be16 (of_nat (length nm)))) = Some m1"
    "mem_write m1 (length l + 4 + 2) (nm @ [0]) = Some m2"
    "blobmsg_data m2 (length l) = Some (length l + 4 + hl)"
    "length l + 4 + 2 + length nm < length l + 4 + hl"
    "mem_write m2 (length l + 4 + 2 + length nm) (replicate (hl - 2 - length nm) 0) =
       Some (attr_mem l (True, ty) (4 + (hl + n)) (msg_hdr nm @ dat @ z @ post))"
    using k d(2) unfolding hl_def by (elim blobmsg_hdr_writes [where name = nm]) (simp add: nm_def)
  define b2 where "b2 = b1\<lparr>blob_mem := Some (attr_mem l (True, ty) (4 + (hl + n))
      (msg_hdr nm @ dat @ z @ post))\<rparr>"
  have "blobmsg_new ok b ty name n = Some (length l, length l + 4 + hl, b2)"
    unfolding blobmsg_new_def Let_def nm_def [symmetric] hl_def [symmetric]
    using new(2) mem1 w
    by (simp add: l id_len_attr [of l, unfolded l] set_id_len_attr [of l, unfolded l]
        hdr_or_extended blob_data_def b2_def)
  moreover have "buf_at b2 pre c body'"
    using b1 d by (intro buf_atI [where post = post])
      (simp_all add: b2_def l_def body'_def blob_enc_def z_def hl_def)
  ultimately show thesis using that [OF d(3)] by (simp add: l hl_def nm_def body'_def)
qed

abbreviation (input) str :: "bytes option \<Rightarrow> bytes" where
  "str name \<equiv> (case name of None \<Rightarrow> [] | Some s \<Rightarrow> s)"

lemma blobmsg_add_field_spec:
  assumes at: "buf_at b pre c body" and ok: "\<And>n. ok n" and k: "length (str name) < 2 ^ 16"
    and fits: "length body + 8 + blobmsg_hdrlen (length (str name)) + pad4 (length data) < 2 ^ 24"
  obtains b' where "blobmsg_add_field ok b ty name data (length data) = Some (0, b')"
    "buf_at b' pre c (body @ msg_enc ty (str name) data)"
proof -
  let ?p = "length pre + 4 + length body"
  let ?hl = "blobmsg_hdrlen (length (str name))"
  obtain dat b1 where new: "length dat = length data"
    "blobmsg_new ok b ty name (length data) = Some (?p, ?p + 4 + ?hl, b1)"
    "buf_at b1 pre c (body @ msg_enc ty (str name) dat)"
    by (rule blobmsg_new_spec [where ok = ok and ty = ty, OF at ok k fits])
  define body' where "body' = body @ msg_enc ty (str name) data"
  have len': "length body' = length (body @ msg_enc ty (str name) dat)"
    using new(1) by (simp add: body'_def)
  define z where "z = replicate (pad4 (?hl + length data) - (?hl + length data)) (0 :: u8)"
  define h where "h = bytes_be32 (blob_hdr (True, ty) (4 + (?hl + length data)))"
  from new(3) obtain post where b1: "blob_grow b1" "blob_head b1 = length pre" "4 dvd length pre"
    "4 dvd length body'" "4 dvd blob_buflen b1"
    "blob_mem b1 = Some (attr_mem pre c (4 + length body') ((body @ msg_enc ty (str name) dat) @ post))"
    "blob_buflen b1 = length pre + 4 + length body' + length post"
    unfolding buf_at_def len' by blast
  define l where "l = pre @ bytes_be32 (blob_hdr c (4 + length body')) @ body @ h @ msg_hdr (str name)"
  have mem1: "blob_mem b1 = Some (l @ dat @ z @ post)"
    using b1(6) new(1) by (simp add: l_def h_def z_def blob_enc_def)
  have l: "length l = ?p + 4 + ?hl" by (simp add: l_def h_def)
  have "mem_write (l @ dat @ z @ post) (length l) data = Some (l @ data @ z @ post)"
    using new(1) by (intro mem_write_mid) simp
  then have "blobmsg_add_field ok b ty name data (length data) =
      Some (0, b1\<lparr>blob_mem := Some (l @ data @ z @ post)\<rparr>)"
    using new(1,2) mem1 unfolding l blobmsg_add_field_def by (auto simp: mem_read_def)
  moreover have "buf_at (b1\<lparr>blob_mem := Some (l @ data @ z @ post)\<rparr>) pre c body'"
    using b1 by (intro buf_atI [where post = post])
      (simp_all add: l_def h_def z_def body'_def blob_enc_def)
  ultimately show thesis using that by (simp add: body'_def)
qed

text \<open>Opening a table leaves the parent with the length of its header only, as \<open>blob_nest_start\<close>
  does: \<open>blob_nest_end\<close> adds the length of everything behind the child's header word.\<close>

lemma blobmsg_open_nested_spec:
  assumes at: "buf_at b pre c body" and ok: "\<And>n. ok n" and k: "length (str name) < 2 ^ 16"
    and fits: "length body + 8 + blobmsg_hdrlen (length (str name)) < 2 ^ 24"
  obtains b' where "blobmsg_open_nested ok b name array = Some (attr_to_offset (length pre), b')"
    "buf_at b' (pre @ bytes_be32 (blob_hdr c (8 + length body)) @ body)
       (True, if array then BLOBMSG_TYPE_ARRAY else BLOBMSG_TYPE_TABLE) (msg_hdr (str name))"
proof -
  define nm where "nm = str name"
  define hl where "hl = blobmsg_hdrlen (length nm)"
  define ty where "ty = (if array then BLOBMSG_TYPE_ARRAY else BLOBMSG_TYPE_TABLE)"
  have k': "length (str (Some nm)) < 2 ^ 16" using k by (simp add: nm_def)
  have fits': "length body + 8 + blobmsg_hdrlen (length (str (Some nm))) + pad4 0 < 2 ^ 24"
    using fits by (simp add: nm_def)
  obtain dat b1 where "length dat = 0"
    "blobmsg_new ok b ty (Some nm) 0 = Some (length pre + 4 + length body,
       length pre + 4 + length body + 4 + blobmsg_hdrlen (length (str (Some nm))), b1)"
    "buf_at b1 pre c (body @ msg_enc ty (str (Some nm)) dat)"
    by (rule blobmsg_new_spec [where ok = ok and ty = ty, OF at ok k' fits'])
  then have new: "blobmsg_new ok b ty (Some nm) 0 = Some (length pre + 4 + length body,
       length pre + 4 + length body + 4 + hl, b1)" "buf_at b1 pre c (body @ msg_enc ty nm [])"
    by (simp_all add: hl_def)
  have dvd: "4 dvd hl" "4 dvd length body" "4 dvd length pre" "blob_head b = length pre"
    using blobmsg_hdrlen_bounds(3) at by (auto simp: hl_def buf_at_def)
  define rest where "rest = body @ bytes_be32 (blob_hdr (True, ty) (4 + hl)) @ msg_hdr nm"
  have enc: "body @ msg_enc ty nm [] = rest" "length rest = length body + 4 + hl"
    using dvd(1) by (simp_all add: rest_def blob_enc_def hl_def)
  from new(2) obtain post where b1: "blob_grow b1" "blob_head b1 = length pre"
    "4 dvd length rest" "4 dvd blob_buflen b1"
    "blob_mem b1 = Some (attr_mem pre c (4 + length rest) (rest @ post))"
    "blob_buflen b1 = length pre + 4 + length rest + length post"
    unfolding buf_at_def enc(1) by blast
  have "of_nat (4 + length rest) - of_nat hl = (of_nat (8 + length body) :: u32)"
    by (simp add: enc(2))
  then have "unat (of_nat (4 + length rest) - of_nat hl :: u32) = 8 + length body"
    using fits by (simp only:) (rule unat_of_nat_u32, simp)
  then have "blob_set_raw_len (attr_mem pre c (4 + length rest) (rest @ post)) (length pre)
      (of_nat (4 + length rest) - of_nat hl) = Some (attr_mem pre c (8 + length body) (rest @ post))"
    by (simp only: blob_set_raw_len_attr)
  moreover have "4 + length rest < 2 ^ 24" using fits by (simp add: enc(2) hl_def nm_def)
  then have "blob_pad_len (attr_mem pre c (4 + length rest) (rest @ post)) (length pre) =
      Some (of_nat (4 + length rest))"
    using b1(3) by (subst blob_pad_len_attr) simp_all
  ultimately have "blobmsg_open_nested ok b name array = Some (attr_to_offset (length pre),
      b1\<lparr>blob_mem := Some (attr_mem pre c (8 + length body) (rest @ post)),
        blob_head := length pre + 4 + length body\<rparr>)"
    using new(1) b1(2,5) dvd(4) unfolding blobmsg_open_nested_def Let_def ty_def [symmetric]
      nm_def [symmetric] hl_def [symmetric] by simp
  moreover have "buf_at (b1\<lparr>blob_mem := Some (attr_mem pre c (8 + length body) (rest @ post)),
      blob_head := length pre + 4 + length body\<rparr>)
      (pre @ bytes_be32 (blob_hdr c (8 + length body)) @ body) (True, ty) (msg_hdr nm)"
    using b1 dvd by (intro buf_atI [where post = post])
      (simp_all add: rest_def hl_def blobmsg_hdrlen_bounds(3))
  ultimately show thesis using that by (simp add: ty_def nm_def)
qed

section \<open>Message trees\<close>

text \<open>What a caller builds with \<open>blobmsg_add_field\<close> and matching open and close calls.\<close>

datatype blobmsg = Field u32 "bytes option" bytes | Nested "bytes option" bool "blobmsg list"

abbreviation nested_type :: "bool \<Rightarrow> u32" where
  "nested_type array \<equiv> (if array then BLOBMSG_TYPE_ARRAY else BLOBMSG_TYPE_TABLE)"

fun enc_msg :: "blobmsg \<Rightarrow> bytes" where
  "enc_msg (Field ty name data) = msg_enc ty (str name) data"
| "enc_msg (Nested name array ms) = msg_enc (nested_type array) (str name) (concat (map enc_msg ms))"

fun names_ok :: "blobmsg \<Rightarrow> bool" where
  "names_ok (Field ty name data) \<longleftrightarrow> length (str name) < 2 ^ 16"
| "names_ok (Nested name array ms) \<longleftrightarrow> length (str name) < 2 ^ 16 \<and> list_all names_ok ms"

fun put_msg :: "(nat \<Rightarrow> bool) \<Rightarrow> blobmsg \<Rightarrow> blob_buf \<Rightarrow> blob_buf option"
  and put_msgs :: "(nat \<Rightarrow> bool) \<Rightarrow> blobmsg list \<Rightarrow> blob_buf \<Rightarrow> blob_buf option" where
  "put_msg ok (Field ty name data) b = do {
     (_, b) \<leftarrow> blobmsg_add_field ok b ty name data (length data);
     Some b
   }"
| "put_msg ok (Nested name array ms) b = do {
     (cookie, b) \<leftarrow> blobmsg_open_nested ok b name array;
     b \<leftarrow> put_msgs ok ms b;
     blobmsg_close_nested b cookie
   }"
| "put_msgs ok [] b = Some b"
| "put_msgs ok (t # ts) b = do {
     b \<leftarrow> put_msg ok t b;
     put_msgs ok ts b
   }"

lemma enc_msg_dvd: "4 dvd length (enc_msg t)"
  by (cases t) simp_all

lemma enc_msgs_dvd: "4 dvd length (concat (map enc_msg ts))"
  by (induction ts) (simp_all add: enc_msg_dvd)

lemma put_msg_spec:
  "\<forall>n. ok n \<Longrightarrow> names_ok t \<Longrightarrow> buf_at b pre c body \<Longrightarrow> length body + 4 + length (enc_msg t) < 2 ^ 24 \<Longrightarrow>
      \<exists>b'. put_msg ok t b = Some b' \<and> buf_at b' pre c (body @ enc_msg t)"
  and put_msgs_spec: "\<forall>n. ok n \<Longrightarrow> list_all names_ok ts \<Longrightarrow> buf_at b pre c body \<Longrightarrow>
      length body + 4 + length (concat (map enc_msg ts)) < 2 ^ 24 \<Longrightarrow>
      \<exists>b'. put_msgs ok ts b = Some b' \<and> buf_at b' pre c (body @ concat (map enc_msg ts))"
proof (induction ok t b and ok ts b arbitrary: pre c body and pre c body
    rule: put_msg_put_msgs.induct)
  case (1 ok ty name data b)
  have ok: "ok n" for n using "1.prems"(1) by blast
  have k: "length (str name) < 2 ^ 16" using "1.prems"(2) by simp
  have fits: "length body + 8 + blobmsg_hdrlen (length (str name)) + pad4 (length data) < 2 ^ 24"
    using "1.prems"(4) by (simp add: msg_pad)
  obtain b' where "blobmsg_add_field ok b ty name data (length data) = Some (0, b')"
    "buf_at b' pre c (body @ msg_enc ty (str name) data)"
    by (rule blobmsg_add_field_spec [where ok = ok and ty = ty, OF "1.prems"(3) ok k fits])
  then show ?case by simp
next
  case (2 ok name array ms b)
  let ?d = "concat (map enc_msg ms)" and ?ty = "nested_type array" and ?h = "msg_hdr (str name)"
  have ok: "ok n" for n using "2.prems"(1) by blast
  have k: "length (str name) < 2 ^ 16" "list_all names_ok ms" using "2.prems"(2) by simp_all
  have d: "pad4 (length ?d) = length ?d" using enc_msgs_dvd by simp
  have fits: "length body + 8 + blobmsg_hdrlen (length (str name)) < 2 ^ 24"
    "length body + 8 + length (?h @ ?d) < 2 ^ 24"
    using "2.prems"(4) by (simp_all add: d msg_pad)
  obtain b1 where b1: "blobmsg_open_nested ok b name array = Some (attr_to_offset (length pre), b1)"
    "buf_at b1 (pre @ bytes_be32 (blob_hdr c (8 + length body)) @ body) (True, ?ty) ?h"
    by (rule blobmsg_open_nested_spec [where ok = ok and array = array, OF "2.prems"(3) ok k(1) fits(1)])
  have "length ?h + 4 + length ?d < 2 ^ 24" using fits by simp
  from "2.IH" [OF b1(1) refl "2.prems"(1) k(2) b1(2) this] obtain b2 where
    b2: "put_msgs ok ms b1 = Some b2"
    "buf_at b2 (pre @ bytes_be32 (blob_hdr c (8 + length body)) @ body) (True, ?ty) (?h @ ?d)"
    by auto
  have dvd: "4 dvd length pre" "4 dvd length body" using "2.prems"(3) by (auto simp: buf_at_def)
  obtain b3 where "blob_nest_end b2 (attr_to_offset (length pre)) = Some b3"
    "buf_at b3 pre c (body @ blob_enc (True, ?ty) (?h @ ?d))"
    by (rule blob_nest_end_spec [OF b2(2) dvd fits(2)])
  with b1 b2 show ?case by (simp add: blobmsg_close_nested_def)
next
  case (3 ok b)
  then show ?case by simp
next
  case (4 ok t ts b)
  let ?d = "concat (map enc_msg ts)"
  have fits: "length body + 4 + length (enc_msg t) < 2 ^ 24"
    "length (body @ enc_msg t) + 4 + length ?d < 2 ^ 24" using "4.prems"(4) by simp_all
  have k: "names_ok t" "list_all names_ok ts" using "4.prems"(2) by simp_all
  from "4.IH"(1) [OF "4.prems"(1) k(1) "4.prems"(3) fits(1)] obtain b1 where
    b1: "put_msg ok t b = Some b1" "buf_at b1 pre c (body @ enc_msg t)" by blast
  from "4.IH"(2) [OF b1(1) "4.prems"(1) k(2) b1(2) fits(2)] b1(1) show ?case by simp
qed

definition blobmsg_build :: "(nat \<Rightarrow> bool) \<Rightarrow> blob_buf \<Rightarrow> blobmsg list \<Rightarrow> blob_buf option" where
  "blobmsg_build ok b ms = do {
     (_, b) \<leftarrow> blobmsg_buf_init ok b;
     put_msgs ok ms b
   }"

lemma blobmsg_build_enc:
  assumes "\<forall>n. ok n" "blob_buf_ok b" "list_all names_ok ms"
    "4 + length (concat (map enc_msg ms)) < 2 ^ 24"
  shows "\<exists>b' post. blobmsg_build ok b ms = Some b' \<and> blob_head b' = 0 \<and>
    blob_mem b' = Some (blob_enc (False, BLOBMSG_TYPE_TABLE) (concat (map enc_msg ms)) @ post)"
proof -
  have ok: "ok n" for n using assms(1) by blast
  have "blob_mem b = None \<and> blob_buflen b = 0 \<or>
      (\<exists>m. blob_mem b = Some m \<and> blob_buflen b = length m \<and> 4 dvd length m)"
    using assms(2) by (auto simp: blob_buf_ok_def split: option.splits)
  then obtain b1 where b1: "blob_buf_init ok b BLOBMSG_TYPE_TABLE = Some (0, b1)"
    "buf_at b1 [] (False, BLOBMSG_TYPE_TABLE) []"
    by (rule blob_buf_init_spec [where ok = ok and aid = BLOBMSG_TYPE_TABLE, OF _ ok])
  from put_msgs_spec [OF assms(1,3) b1(2)] assms(4) obtain b2 where
    b2: "put_msgs ok ms b1 = Some b2"
      "buf_at b2 [] (False, BLOBMSG_TYPE_TABLE) (concat (map enc_msg ms))"
    by fastforce
  from b2(2) enc_msgs_dvd [of ms] show ?thesis
    by (auto simp: blobmsg_build_def blobmsg_buf_init_def b1(1) b2(1) buf_at_def blob_enc_def)
qed

text \<open>C7: building a message with \<open>blobmsg_add_field\<close>, \<open>blobmsg_open_nested\<close> and
  \<open>blob_nest_end\<close> stays inside the allocation and leaves at the start of the buffer the encoding of
  the message tree: each field carries its name and value, each table and array the length of
  its own name header and of everything inside it.\<close>

theorem blobmsg_build_correct:
  assumes "\<forall>n. ok n" "blob_buf_ok b" "list_all names_ok ms"
    "4 + length (concat (map enc_msg ms)) < 2 ^ 24"
  shows "\<exists>b' post. blobmsg_build ok b ms = Some b' \<and> blob_head b' = 0 \<and>
    blob_mem b' = Some (blob_enc (False, BLOBMSG_TYPE_TABLE) (concat (map enc_msg ms)) @ post)"
  using assms by (rule blobmsg_build_enc)

theorem blobmsg_build_correct_witness:
  "\<exists>b' post. blobmsg_build (\<lambda>_. True) small_buf
      [Field 7 (Some [0x61]) [7], Nested (Some [0x62]) True [Field 3 None [0x63, 0]]] = Some b' \<and>
    blob_head b' = 0 \<and>
    blob_mem b' = Some (blob_enc (False, BLOBMSG_TYPE_TABLE) (concat (map enc_msg
      [Field 7 (Some [0x61]) [7], Nested (Some [0x62]) True [Field 3 None [0x63, 0]]])) @ post)"
  by (rule blobmsg_build_correct)
    (simp_all add: blob_buf_ok_def pad4_def small_buf_def blobmsg_hdrlen_def)

section \<open>Checking and parsing a message\<close>

text \<open>What \<open>blobmsg_check_attr\<close> accepts, on the parts of a field.\<close>

definition field_ok :: "u32 \<Rightarrow> bytes \<Rightarrow> bytes \<Rightarrow> bool \<Rightarrow> bool" where
  "field_ok ty name data nm \<longleftrightarrow> (nm \<longrightarrow> name \<noteq> []) \<and> take_bit 7 ty \<le> BLOBMSG_TYPE_LAST \<and>
     (blob_type ! unat (take_bit 7 ty) = BLOB_ATTR_UNSPEC \<or>
      type_ok (blob_type ! unat (take_bit 7 ty)) data)"

definition msg_zeros :: "bytes \<Rightarrow> nat" where
  "msg_zeros name = blobmsg_hdrlen (length name) - 2 - length name"

lemma msg_hdr_zero: "msg_hdr name = bytes_le16 (cpu_to_be16 (of_nat (length name))) @ name
    @ 0 # replicate (msg_zeros name - 1) 0"
proof -
  have "msg_zeros name = Suc (msg_zeros name - 1)"
    using blobmsg_hdrlen_bounds(1) [of "length name"] by (simp add: msg_zeros_def)
  then have "replicate (msg_zeros name) (0 :: u8) = 0 # replicate (msg_zeros name - 1) 0"
    by (metis replicate_Suc)
  then show ?thesis by (simp add: msg_hdr_def msg_zeros_def)
qed

text \<open>A field in memory, with the accessors that the reading functions use on it.\<close>

lemma msg_field:
  assumes m: "m = pre @ msg_enc ty name data @ post" and k: "length name < 2 ^ 16"
    and fits: "4 + blobmsg_hdrlen (length name) + length data < 2 ^ 24"
  shows "blob_id m (length pre) = Some (take_bit 7 ty)"
    "blob_len m (length pre) = Some (of_nat (blobmsg_hdrlen (length name) + length data))"
    "blobmsg_namelen m (blob_data (length pre)) = Some (of_nat (length name))"
    "mem_read m (blob_data (length pre) + 2 + length name) 1 = Some [0]"
    "blobmsg_data m (length pre) = Some (length pre + 4 + blobmsg_hdrlen (length name))"
    "blobmsg_data_len m (length pre) = Some (int (length data))"
    "blob_check_type m (length pre + 4 + blobmsg_hdrlen (length name)) (int (length data)) (Some t) =
       Some (type_ok t data)"
proof -
  let ?hl = "blobmsg_hdrlen (length name)" and ?nl = "bytes_le16 (cpu_to_be16 (of_nat (length name)))"
  define h where "h = bytes_be32 (blob_hdr (True, ty) (4 + (?hl + length data)))"
  define rest where "rest = replicate (pad4 (?hl + length data) - (?hl + length data)) 0 @ post"
  have m1: "m = attr_mem pre (True, ty) (4 + (?hl + length data)) (msg_hdr name @ data @ rest)"
    using m by (simp add: blob_enc_def rest_def)
  define r2 where "r2 = name @ 0 # replicate (msg_zeros name - 1) 0 @ data @ rest"
  have m2: "m = attr_mem pre (True, ty) (4 + (?hl + length data)) (?nl @ r2)"
    by (simp add: m1 msg_hdr_zero r2_def)
  show "blob_id m (length pre) = Some (take_bit 7 ty)" by (simp add: m1 blob_id_attr)
  show len: "blob_len m (length pre) = Some (of_nat (?hl + length data))"
    using fits unfolding m1 by (subst blob_len_attr) simp_all
  show "blobmsg_namelen m (blob_data (length pre)) = Some (of_nat (length name))"
    using blobmsg_namelen_hdr [OF k, of pre h r2] by (simp add: m2 h_def blob_data_def)
  show data: "blobmsg_data m (length pre) = Some (length pre + 4 + ?hl)"
    using blobmsg_data_hdr [OF k] by (simp add: m2)
  show "mem_read m (blob_data (length pre) + 2 + length name) 1 = Some [0]"
    using mem_read_mid [of "[0]" 1 "pre @ h @ ?nl @ name" "replicate (msg_zeros name - 1) 0 @ data @ rest"]
    by (simp add: m2 r2_def h_def blob_data_def add.commute add.left_commute)
  have "(of_nat (?hl + length data) - of_nat ?hl :: u32) = of_nat (length data)" by simp
  with fits show "blobmsg_data_len m (length pre) = Some (int (length data))"
    by (simp add: blobmsg_data_len_def data len blob_data_def sint_of_nat_u32)
  show "blob_check_type m (length pre + 4 + ?hl) (int (length data)) (Some t) = Some (type_ok t data)"
    using blob_check_type_payload [of data "pre @ h" "msg_hdr name" rest t] fits
    by (simp add: m1 h_def)
qed

lemma blobmsg_check_attr_field:
  assumes "m = pre @ msg_enc ty name data @ post" "length name < 2 ^ 16"
    "4 + blobmsg_hdrlen (length name) + length data < 2 ^ 24"
  shows "blobmsg_check_attr m (length pre) nm = Some (field_ok ty name data nm)"
proof -
  note f = msg_field [OF assms]
  have "unat (of_nat (blobmsg_hdrlen (length name) + length data) :: u32) =
      blobmsg_hdrlen (length name) + length data" using assms(3) by (intro unat_of_nat_u32) simp
  moreover have "(of_nat (length name) :: u16) = 0 \<longleftrightarrow> name = []"
    using unat_of_nat_u16 [OF assms(2)] by (auto simp flip: unat_eq_0)
  moreover have "\<not> blobmsg_hdrlen (length name) + length data < 2"
    "\<not> blobmsg_hdrlen (length name) + length data - 2 < length name"
    using blobmsg_hdrlen_bounds(1) [of "length name"] by linarith+
  ultimately show ?thesis
    unfolding blobmsg_check_attr_def Let_def f bind.bind_lunit field_ok_def
      unat_of_nat_u16 [OF assms(2)]
    by (cases "name = [] \<and> nm"; cases "BLOBMSG_TYPE_LAST < take_bit 7 ty";
        cases "blob_type ! unat (take_bit 7 ty) = BLOB_ATTR_UNSPEC") (auto simp: not_less)
qed

lemma strcmp_eq_string:
  assumes "0 \<notin> set xs" "0 \<notin> set s"
  shows "strcmp_eq xs (pre @ s @ 0 # post) (length pre) = Some (xs = s)"
  using assms
proof (induction xs arbitrary: pre s)
  case Nil
  have "mem_read (pre @ [x] @ ys) (length pre) 1 = Some [x]" for x :: u8 and ys
    by (rule mem_read_mid) simp
  with Nil show ?case by (cases s) auto
next
  case (Cons x xs)
  have rd: "mem_read (pre @ [y] @ ys) (length pre) 1 = Some [y]" for y :: u8 and ys
    by (rule mem_read_mid) simp
  show ?case
  proof (cases s)
    case Nil
    with rd [of 0] Cons.prems show ?thesis by auto
  next
    case (Cons y ys)
    with Cons.IH [of ys "pre @ [y]"] Cons.prems rd [of y "ys @ 0 # post"] show ?thesis by auto
  qed
qed

type_synonym field = "u32 \<times> bytes \<times> bytes"

abbreviation field_items :: "field list \<Rightarrow> blob_item list" where
  "field_items \<equiv> map (\<lambda>(ty, name, data). ((True, ty), msg_hdr name @ data))"

text \<open>A policy entry and a field that it selects.\<close>

fun selects :: "blobmsg_policy \<Rightarrow> field \<Rightarrow> bool" where
  "selects pol (ty, name, data) \<longleftrightarrow> pol_name pol = Some name \<and>
     (pol_type pol = BLOBMSG_TYPE_UNSPEC \<or> take_bit 7 ty = pol_type pol)"

text \<open>Fields of a table that every check accepts, and policies with C strings of less than 256
  characters (the parser keeps their length in eight bits).\<close>

fun good_field :: "field \<Rightarrow> bool" where
  "good_field (ty, name, data) \<longleftrightarrow> length name < 2 ^ 16 \<and> 0 \<notin> set name \<and> field_ok ty name data True"

definition good_policy :: "blobmsg_policy \<Rightarrow> bool" where
  "good_policy pol \<longleftrightarrow> (case pol_name pol of None \<Rightarrow> True | Some s \<Rightarrow> length s < 256 \<and> 0 \<notin> set s)"

lemma pslen_eq:
  assumes "n < 256" "k < 2 ^ 16"
  shows "(of_nat k :: u16) = ucast (of_nat n :: u8) \<longleftrightarrow> k = n"
proof -
  have "unat (ucast (of_nat n :: u8) :: u16) = n"
    using assms(1) by (simp add: unsigned_ucast_eq unat_of_nat take_bit_nat_eq_self)
  with unat_of_nat_u16 [OF assms(2)] show ?thesis by (metis word_unat_eq_iff)
qed

lemma blobmsg_parse_policies_field:
  assumes m: "m = pre @ msg_enc ty name data @ post"
    and fits: "4 + blobmsg_hdrlen (length name) + length data < 2 ^ 24"
    and good: "good_field (ty, name, data)" "list_all good_policy pols"
    and "i + length pols = length tb"
  shows "blobmsg_parse_policies m (length pre) pols i tb = Some (Inr (take i tb @
    map2 (\<lambda>pol x. if x = None \<and> selects pol (ty, name, data) then Some (length pre) else x) pols (drop i tb)))"
  using good(2) assms(5)
proof (induction pols arbitrary: i tb)
  case Nil
  then show ?case by simp
next
  case (Cons pol pols)
  have k: "length name < 2 ^ 16" "0 \<notin> set name" "field_ok ty name data True" using good(1) by simp_all
  note f = msg_field [OF m k(1) fits] blobmsg_check_attr_field [OF m k(1) fits]
  define l where "l = pre @ bytes_be32 (blob_hdr (True, ty) (4 + (blobmsg_hdrlen (length name) + length data)))
    @ bytes_le16 (cpu_to_be16 (of_nat (length name)))"
  define r where "r = replicate (msg_zeros name - 1) 0 @ data @
    replicate (pad4 (blobmsg_hdrlen (length name) + length data)
      - (blobmsg_hdrlen (length name) + length data)) 0 @ post"
  have "m = pre @ bytes_be32 (blob_hdr (True, ty) (4 + (blobmsg_hdrlen (length name) + length data)))
      @ msg_hdr name @ data @ replicate (pad4 (blobmsg_hdrlen (length name) + length data)
      - (blobmsg_hdrlen (length name) + length data)) 0 @ post" by (simp add: m blob_enc_def)
  then have ml: "m = l @ name @ 0 # r" "length l = blobmsg_name (length pre)"
    by (simp_all add: msg_hdr_zero l_def r_def blobmsg_name_def blob_data_def)
  have cmp: "strcmp_eq s m (blobmsg_name (length pre)) = Some (s = name)" if "0 \<notin> set s" for s
    using strcmp_eq_string [OF that k(2), of l r] by (simp add: ml)
  define x where "x = tb ! i"
  have i: "i < length tb" "drop i tb = x # drop (Suc i) tb" "take (Suc i) tb = take i tb @ [x]"
    "take (Suc i) (tb[i := v]) = take i tb @ [v]" for v
    using Cons.prems(2) by (auto simp: x_def Cons_nth_drop_Suc take_Suc_conv_app_nth)
  have IH: "i + 1 + length pols = length tb' \<Longrightarrow> blobmsg_parse_policies m (length pre) pols (i + 1) tb' =
    Some (Inr (take (i + 1) tb' @ map2 (\<lambda>pol x. if x = None \<and> selects pol (ty, name, data)
      then Some (length pre) else x) pols (drop (i + 1) tb')))" for tb'
    using Cons.IH [of "i + 1" tb'] Cons.prems(1) by simp
  show ?case
  proof (cases "pol_name pol")
    case None
    then show ?thesis using IH [of tb] Cons.prems(2) i by simp
  next
    case (Some s)
    have s: "length s < 256" "0 \<notin> set s" using Cons.prems(1) Some by (simp_all add: good_policy_def)
    show ?thesis
      using IH [of tb] IH [of "tb[i := Some (length pre)]"] Cons.prems(2) i k(3) Some
      by (auto simp: f cmp [OF s(2)] pslen_eq [OF s(1) k(1)] Let_def simp flip: x_def)
  qed
qed

text \<open>The fields of a table with the positions of their attributes.\<close>

fun place :: "nat \<Rightarrow> field list \<Rightarrow> (nat \<times> field) list" where
  "place p [] = []"
| "place p ((ty, name, data) # fs) = (p, ty, name, data) #
     place (p + 4 + pad4 (blobmsg_hdrlen (length name) + length data)) fs"

abbreviation first_selected :: "nat \<Rightarrow> field list \<Rightarrow> blobmsg_policy \<Rightarrow> nat option" where
  "first_selected p fs pol \<equiv> map_option fst (find (\<lambda>(_, f). selects pol f) (place p fs))"

lemma each_item_fields:
  assumes "m = pre @ enc_items (field_items fs) @ post"
    "4 + length (enc_items (field_items fs)) < 2 ^ 24" "list_all good_field fs"
    "length tb = length policy" and pol: "list_all good_policy policy"
  shows "each_item (blobmsg_parse_attr m policy) (length pre) (field_items fs) tb = Some (Inr
    (map2 (\<lambda>pol x. if x = None then first_selected (length pre) fs pol else x) policy tb))"
  using assms(1-4)
proof (induction fs arbitrary: pre tb)
  case Nil
  then show ?case by (simp, intro nth_equalityI) simp_all
next
  case (Cons f fs)
  obtain ty name data where f: "f = (ty, name, data)" by (cases f)
  have m: "m = pre @ msg_enc ty name data @ enc_items (field_items fs) @ post"
    "m = (pre @ msg_enc ty name data) @ enc_items (field_items fs) @ post"
    using Cons.prems(1) by (simp_all add: f)
  have fits: "4 + length (enc_items (field_items fs)) < 2 ^ 24"
    "4 + blobmsg_hdrlen (length name) + length data < 2 ^ 24"
    using Cons.prems(2) pad4_bounds(1) [of "blobmsg_hdrlen (length name) + length data"]
    by (simp_all add: f)
  define tb1 where "tb1 = map2 (\<lambda>pol x. if x = None \<and> selects pol f then Some (length pre) else x) policy tb"
  have step: "blobmsg_parse_attr m policy (length pre) tb = Some (Inr tb1)"
    using blobmsg_parse_policies_field [OF m(1) fits(2) _ pol, of 0 tb] Cons.prems(3,4)
    by (simp add: f tb1_def blobmsg_parse_attr_def)
  have "length tb1 = length policy" using Cons.prems(4) by (simp add: tb1_def)
  from Cons.IH [OF m(2) fits(1) _ this] Cons.prems(3) step have
    "each_item (blobmsg_parse_attr m policy) (length pre) (field_items (f # fs)) tb = Some (Inr (map2
      (\<lambda>pol x. if x = None then first_selected (length (pre @ msg_enc ty name data)) fs pol else x)
      policy tb1))" by (simp add: f add.assoc)
  moreover have "map2 (\<lambda>pol x. if x = None then first_selected (length (pre @ msg_enc ty name data)) fs pol
      else x) policy tb1 =
    map2 (\<lambda>pol x. if x = None then first_selected (length pre) (f # fs) pol else x) policy tb"
    using Cons.prems(4) unfolding tb1_def
    by (intro nth_equalityI) (auto simp: f add.assoc)
  ultimately show ?case by simp
qed

lemma blobmsg_parse_fields:
  assumes "m = pre @ enc_items (field_items fs) @ post"
    "4 + length (enc_items (field_items fs)) < 2 ^ 24" "list_all good_field fs"
    "list_all good_policy policy"
  shows "blobmsg_parse m policy (length pre) (int (length (enc_items (field_items fs)))) =
    Some (0, map (first_selected (length pre) fs) policy)"
proof -
  have "map2 (\<lambda>pol x. if x = None then g pol else x) policy (replicate (length policy) None) = map g policy"
    for g :: "blobmsg_policy \<Rightarrow> nat option" by (intro nth_equalityI) simp_all
  with each_item_fields [OF assms(1-3) _ assms(4), of "replicate (length policy) None"]
    blob_for_each_items [OF assms(1,2), of "blobmsg_parse_attr m policy" "replicate (length policy) None"]
  have "blob_for_each m (blobmsg_parse_attr m policy) (length pre) (length (enc_items (field_items fs)))
      (replicate (length policy) None) = Some (Inr (map (first_selected (length pre) fs) policy))" by simp
  then show ?thesis unfolding blobmsg_parse_def Let_def nat_int by simp
qed

text \<open>C8: \<open>blobmsg_parse\<close> of the contents of a table whose fields pass \<open>blobmsg_check_attr\<close>
  returns 0, reads nothing outside memory, and sets each entry of its result to the first field
  with the name and type of the policy entry, or null when there is none.\<close>

theorem blobmsg_parse_correct:
  assumes "m = pre @ enc_items (field_items fs) @ post"
    "4 + length (enc_items (field_items fs)) < 2 ^ 24" "list_all good_field fs"
    "list_all good_policy policy"
  shows "blobmsg_parse m policy (length pre) (int (length (enc_items (field_items fs)))) =
    Some (0, map (first_selected (length pre) fs) policy)"
  using assms by (rule blobmsg_parse_fields)

theorem blobmsg_parse_correct_witness:
  "blobmsg_parse (enc_items (field_items [(7, [0x61], [1]), (7, [0x62], [2]), (7, [0x61], [3])]))
     [\<lparr>pol_name = Some [0x62], pol_type = 7\<rparr>, \<lparr>pol_name = Some [0x61], pol_type = 0\<rparr>] 0
     (int (length (enc_items (field_items [(7, [0x61], [1]), (7, [0x62], [2]), (7, [0x61], [3])])))) =
   Some (0, [Some 12, Some 0])"
proof -
  let ?fs = "[(7, [0x61], [1]), (7, [0x62], [2]), (7, [0x61], [3])] :: field list"
  let ?pol = "[\<lparr>pol_name = Some [0x62], pol_type = 7\<rparr>, \<lparr>pol_name = Some [0x61], pol_type = 0\<rparr>] :: blobmsg_policy list"
  have ok: "list_all good_field ?fs" "list_all good_policy ?pol"
    by (simp_all add: good_policy_def field_ok_def blobmsg_types type_ok_def blob_type_def)
  have fits: "4 + length (enc_items (field_items ?fs)) < 2 ^ 24" by (simp add: pad4_def blobmsg_hdrlen_def)
  have "map (first_selected 0 ?fs) ?pol = [Some 12, Some 0]"
    by (simp add: blobmsg_types pad4_def blobmsg_hdrlen_def)
  then show ?thesis
    using blobmsg_parse_correct [where pre = "[]" and post = "[]", OF _ fits ok]
    by (simp add: blobmsg_types)
qed

section \<open>Strings built in place\<close>

lemma c_strlen_string: "0 \<notin> set s \<Longrightarrow> c_strlen (pre @ s @ 0 # post) (length pre) = Some (length s)"
proof (induction s arbitrary: pre)
  case Nil
  show ?case by (subst c_strlen.simps) simp
next
  case (Cons x s)
  from Cons.IH [of "pre @ [x]"] Cons.prems show ?case by (subst c_strlen.simps) simp
qed

text \<open>A container with header \<open>c\<close> and length \<open>k\<close> after \<open>pre\<close>, and a string field of length
  \<open>q\<close> behind its contents \<open>body\<close>.\<close>

definition two_attrs :: "bytes \<Rightarrow> bool \<times> u32 \<Rightarrow> bytes \<Rightarrow> nat \<Rightarrow> nat \<Rightarrow> bytes \<Rightarrow> bytes" where
  "two_attrs pre c body k q r = attr_mem pre c k (attr_mem body (True, BLOBMSG_TYPE_STRING) q r)"

lemma two_attrs_outer:
  assumes "4 \<le> k" "k < 2 ^ 24"
  shows "blob_pad_len (two_attrs pre c body k q r) (length pre) = Some (of_nat (pad4 k))"
    "blob_raw_len (two_attrs pre c body k q r) (length pre) = Some (of_nat k)"
    "blob_next (two_attrs pre c body k q r) (length pre) = Some (length pre + pad4 k)"
  using assms by (simp_all add: two_attrs_def blob_attr_simps)

lemma two_attrs_set_outer: "w = of_nat k' \<Longrightarrow> k' < 2 ^ 24 \<Longrightarrow>
    blob_set_raw_len (two_attrs pre c body k q r) (length pre) w = Some (two_attrs pre c body k' q r)"
  by (simp add: two_attrs_def blob_set_raw_len_to)

lemma two_attrs_inner_eq: "length pre + 4 + length body = length (pre @ bytes_be32 (blob_hdr c k) @ body)"
    "two_attrs pre c body k q r =
     attr_mem (pre @ bytes_be32 (blob_hdr c k) @ body) (True, BLOBMSG_TYPE_STRING) q r"
  by (simp_all add: two_attrs_def)

lemma two_attrs_inner:
  assumes "4 \<le> q" "q < 2 ^ 24"
  shows "blob_pad_len (two_attrs pre c body k q r) (length pre + 4 + length body) = Some (of_nat (pad4 q))"
    "blob_raw_len (two_attrs pre c body k q r) (length pre + 4 + length body) = Some (of_nat q)"
  using assms unfolding two_attrs_inner_eq(1) [of _ _ c k] two_attrs_inner_eq(2)
  by (simp_all only: blob_attr_simps)

lemma two_attrs_set_inner: "w = of_nat q' \<Longrightarrow> q' < 2 ^ 24 \<Longrightarrow>
    blob_set_raw_len (two_attrs pre c body k q r) (length pre + 4 + length body) w =
      Some (two_attrs pre c body k q' r)"
  unfolding two_attrs_inner_eq(1) [of _ _ c k] two_attrs_inner_eq(2)
  by (rule blob_set_raw_len_to)

lemma two_attrs_data:
  assumes "length name < 2 ^ 16"
  shows "blobmsg_data (two_attrs pre c body k q (msg_hdr name @ r)) (length pre + 4 + length body) =
    Some (length pre + 4 + length body + 4 + blobmsg_hdrlen (length name))"
  using blobmsg_data_hdr [OF assms, of "pre @ bytes_be32 (blob_hdr c k) @ body" BLOBMSG_TYPE_STRING q]
  unfolding two_attrs_inner_eq(1) [of _ _ c k] two_attrs_inner_eq(2) msg_hdr_def by simp

text \<open>The reserved attribute lies behind the container, which does not count it, and its own
  length covers the name only.\<close>

lemma blobmsg_alloc_string_buffer_spec:
  assumes at: "buf_at b pre c body" and ok: "\<And>n. ok n" and k: "length (str name) < 2 ^ 16"
    and fits: "length body + 8 + blobmsg_hdrlen (length (str name)) + pad4 n < 2 ^ 24"
  defines "hl \<equiv> blobmsg_hdrlen (length (str name))"
  obtains dat post b' where "length dat = n"
    "blobmsg_alloc_string_buffer ok b name n = Some (length pre + 4 + length body + 4 + hl, b')"
    "blob_grow b'" "blob_head b' = length pre" "4 dvd blob_buflen b'"
    "blob_mem b' = Some (two_attrs pre c body (4 + length body) (4 + hl)
       (msg_hdr (str name) @ dat @ replicate (pad4 n - n) 0 @ post))"
    "blob_buflen b' = length pre + 4 + length body + 4 + hl + pad4 n + length post"
proof -
  let ?ty = BLOBMSG_TYPE_STRING and ?p = "length pre + 4 + length body"
  obtain dat b1 where new: "length dat = n" "blobmsg_new ok b ?ty name n = Some (?p, ?p + 4 + hl, b1)"
    "buf_at b1 pre c (body @ msg_enc ?ty (str name) dat)"
    unfolding hl_def by (rule blobmsg_new_spec [where ok = ok and ty = ?ty, OF at ok k fits])
  define rest where "rest = dat @ replicate (pad4 n - n) 0"
  define N where "N = length body + 4 + hl + pad4 n"
  have enc: "body @ msg_enc ?ty (str name) dat = attr_mem body (True, ?ty) (4 + hl + n) (msg_hdr (str name) @ rest)"
    "length (attr_mem body (True, ?ty) (4 + hl + n) (msg_hdr (str name) @ rest)) = N" "4 dvd N"
    "pad4 (4 + hl + n) = 4 + hl + pad4 n"
    using new(1) pad4_bounds(1) [of n] at blobmsg_hdrlen_bounds(3)
    by (simp_all add: blob_enc_def rest_def hl_def msg_pad N_def buf_at_def add.assoc)
  from new(3) obtain post where b1: "blob_grow b1" "blob_head b1 = length pre" "4 dvd length pre"
    "4 dvd blob_buflen b1" "blob_mem b1 = Some (two_attrs pre c body (4 + N) (4 + hl + n)
      (msg_hdr (str name) @ rest @ post))"
    "blob_buflen b1 = length pre + 4 + N + length post"
    unfolding buf_at_def enc(1) enc(2) two_attrs_def by auto
  have small: "4 \<le> 4 + N" "4 + N < 2 ^ 24" "4 \<le> 4 + hl + n" "4 + hl + n < 2 ^ 24" "4 + hl < 2 ^ 24"
    "4 + length body < 2 ^ 24"
    using fits pad4_bounds(1) [of n] by (simp_all add: N_def hl_def)
  have hp: "pad4 (4 + N) = 4 + N" using enc(3) by simp
  have sp: "blob_set_raw_len (two_attrs pre c body (4 + N) q r) (length pre)
      (of_nat (4 + N) - of_nat (4 + hl + pad4 n)) = Some (two_attrs pre c body (4 + length body) q r)" for q r
    using small(6) by (intro two_attrs_set_outer) (simp_all add: N_def)
  have sa: "blob_set_raw_len (two_attrs pre c body k q r) ?p (of_nat (4 + hl + n) - of_nat n) =
      Some (two_attrs pre c body k (4 + hl) r)" for k q r
    using small(5) by (intro two_attrs_set_inner) simp_all
  have "blobmsg_alloc_string_buffer ok b name n = Some (?p + 4 + hl, b1\<lparr>blob_mem :=
      Some (two_attrs pre c body (4 + length body) (4 + hl) (msg_hdr (str name) @ rest @ post))\<rparr>)"
    unfolding blobmsg_alloc_string_buffer_def new(2) bind.bind_lunit prod.case b1(5,2)
      two_attrs_data [OF k] two_attrs_outer [OF small(1,2)] two_attrs_inner [OF small(3,4)] hp enc(4)
      sp sa bind.bind_lunit hl_def [symmetric] ..
  then show thesis
    using b1 new(1) that [of dat "b1\<lparr>blob_mem := Some (two_attrs pre c body (4 + length body) (4 + hl)
      (msg_hdr (str name) @ rest @ post))\<rparr>" post] by (simp add: N_def rest_def)
qed

text \<open>Committing the string: its length is found, the field and the container grow by it.\<close>

lemma blobmsg_add_string_buffer_mem:
  fixes tx nm z :: bytes
  defines "n \<equiv> length tx + 1" and "hl \<equiv> blobmsg_hdrlen (length nm)"
  assumes b: "blob_head b = length pre" "blob_mem b = Some (two_attrs pre c body (4 + length body) (4 + hl)
      (msg_hdr nm @ (tx @ [0]) @ z @ post))"
    and z: "length z = pad4 n - n" and nz: "0 \<notin> set tx" and k: "length nm < 2 ^ 16"
    and dvd: "4 dvd length body" and fits: "length body + 8 + hl + pad4 n < 2 ^ 24"
  shows "blobmsg_add_string_buffer b = Some (b\<lparr>blob_mem := Some (two_attrs pre c body
      (length body + 8 + hl + pad4 n) (4 + hl + n) (msg_hdr nm @ (tx @ [0]) @ replicate (pad4 n - n) 0 @ post))\<rparr>)"
proof -
  let ?p = "length pre + 4 + length body"
  define L where "L = pre @ bytes_be32 (blob_hdr c (4 + length body)) @ body
    @ bytes_be32 (blob_hdr (True, BLOBMSG_TYPE_STRING) (4 + hl)) @ msg_hdr nm"
  define r where "r y = msg_hdr nm @ (tx @ [0]) @ y @ post" for y
  have small: "4 \<le> 4 + length body" "4 + length body < 2 ^ 24" "4 \<le> 4 + hl" "4 + hl < 2 ^ 24"
    "4 \<le> 4 + hl + n" "4 + hl + n < 2 ^ 24"
    using fits pad4_bounds(1) [of n] by simp_all
  have "L @ tx @ 0 # z @ post = two_attrs pre c body (4 + length body) (4 + hl) (r z)"
    "length L = ?p + 4 + hl" by (simp_all add: L_def two_attrs_def r_def hl_def)
  with c_strlen_string [OF nz, of L "z @ post"]
  have sl: "c_strlen (two_attrs pre c body (4 + length body) (4 + hl) (r z)) (?p + 4 + hl) =
    Some (length tx)" by simp
  have dd: "blobmsg_data (two_attrs pre c body (4 + length body) (4 + hl) (r z)) ?p = Some (?p + 4 + hl)"
    unfolding r_def hl_def by (rule two_attrs_data [OF k])
  have nx: "length pre + pad4 (4 + length body) = ?p" using dvd by simp
  have sa: "blob_set_raw_len (two_attrs pre c body q0 q y) ?p (of_nat (4 + hl) + of_nat (length tx + 1)) =
      Some (two_attrs pre c body q0 (4 + hl + n) y)" for q0 q y
    using small(6) by (intro two_attrs_set_inner) (simp_all add: n_def)
  have pads: "pad4 (4 + hl + n) = 4 + hl + pad4 n" by (simp add: hl_def msg_pad add.assoc)
  have sp: "blob_set_raw_len (two_attrs pre c body q0 q y) (length pre)
      (of_nat (4 + length body) + of_nat (4 + hl + pad4 n)) =
      Some (two_attrs pre c body (length body + 8 + hl + pad4 n) q y)" for q0 q y
    using fits by (intro two_attrs_set_outer) simp_all
  have fp: "blob_fill_pad (two_attrs pre c body q0 (4 + hl + n) (r z)) ?p =
      Some (two_attrs pre c body q0 (4 + hl + n) (r (replicate (pad4 n - n) 0)))" for q0
  proof -
    have "pad4 (hl + n) - (hl + n) = pad4 n - n" by (simp add: hl_def msg_pad)
    moreover from this have "length z = pad4 (hl + n) - (hl + n)" using z by simp
    moreover have "hl + n + 4 < 2 ^ 24" "length (msg_hdr nm @ tx @ [0]) = hl + n"
      using small by (simp_all add: hl_def n_def)
    ultimately show ?thesis
      using blob_fill_pad_attr [of "hl + n" "msg_hdr nm @ tx @ [0]" z
          "pre @ bytes_be32 (blob_hdr c q0) @ body" "(True, BLOBMSG_TYPE_STRING)" post]
      by (simp add: two_attrs_def r_def add.assoc add.commute add.left_commute)
  qed
  show ?thesis
    unfolding blobmsg_add_string_buffer_def Let_def b r_def [symmetric] bind.bind_lunit
      two_attrs_outer [OF small(1,2)] nx dd sl two_attrs_inner [OF small(3,4)] sa fp
      two_attrs_inner [OF small(5,6)] pads sp ..
qed

text \<open>A buffer with a reserved string field: \<open>r\<close> is everything behind the field's name.\<close>

definition buf_string :: "blob_buf \<Rightarrow> bytes \<Rightarrow> bool \<times> u32 \<Rightarrow> bytes \<Rightarrow> bytes \<Rightarrow> bytes \<Rightarrow> bool" where
  "buf_string b pre c body nm r \<longleftrightarrow> blob_grow b \<and> blob_head b = length pre \<and> 4 dvd length pre \<and> 4 dvd length body \<and>
     blob_mem b = Some (two_attrs pre c body (4 + length body) (4 + blobmsg_hdrlen (length nm)) (msg_hdr nm @ r)) \<and>
     4 dvd length r \<and> blob_buflen b = length pre + 4 + length body + 4 + blobmsg_hdrlen (length nm) + length r"

lemma buf_string_alloc:
  assumes at: "buf_at b pre c body" and ok: "\<And>n. ok n" and k: "length (str name) < 2 ^ 16"
    and fits: "length body + 8 + blobmsg_hdrlen (length (str name)) + pad4 n < 2 ^ 24"
  obtains r b' where "blobmsg_alloc_string_buffer ok b name n =
      Some (length pre + 4 + length body + 4 + blobmsg_hdrlen (length (str name)), b')"
    "buf_string b' pre c body (str name) r" "n \<le> length r"
proof -
  obtain dat post b1 where al: "length dat = n" "blobmsg_alloc_string_buffer ok b name n =
      Some (length pre + 4 + length body + 4 + blobmsg_hdrlen (length (str name)), b1)"
    "blob_grow b1" "blob_head b1 = length pre" "4 dvd blob_buflen b1"
    "blob_mem b1 = Some (two_attrs pre c body (4 + length body) (4 + blobmsg_hdrlen (length (str name)))
       (msg_hdr (str name) @ dat @ replicate (pad4 n - n) 0 @ post))"
    "blob_buflen b1 = length pre + 4 + length body + 4 + blobmsg_hdrlen (length (str name)) + pad4 n + length post"
    by (rule blobmsg_alloc_string_buffer_spec [where ok = ok, OF at ok k fits])
  have dvd: "4 dvd length pre" "4 dvd length body" using at by (auto simp: buf_at_def)
  have len: "length (dat @ replicate (pad4 n - n) 0 @ post) = pad4 n + length post"
    using al(1) pad4_bounds(1) [of n] by simp
  have "4 dvd length pre + (4 + (length body + (4 + blobmsg_hdrlen (length (str name)))))"
    using dvd blobmsg_hdrlen_bounds(3) by (intro dvd_add) simp_all
  moreover have "blob_buflen b1 = length pre + (4 + (length body + (4 + blobmsg_hdrlen (length (str name))))) + (pad4 n + length post)"
    using al(7) by (simp only: add.assoc)
  ultimately have "4 dvd pad4 n + length post" using al(5) by (metis dvd_add_right_iff)
  then have "buf_string b1 pre c body (str name) (dat @ replicate (pad4 n - n) 0 @ post)"
    unfolding buf_string_def len using al dvd by simp
  from that [OF al(2) this] show thesis unfolding len using pad4_bounds(1) [of n] by simp
qed

text \<open>Making room for \<open>n\<close> bytes keeps what is there.\<close>

lemma buf_string_realloc:
  assumes b: "buf_string b pre c body nm r" and ok: "\<And>n. ok n" and k: "length nm < 2 ^ 16"
    and fits: "length body + 8 + blobmsg_hdrlen (length nm) < 2 ^ 24"
  obtains x b' where "blobmsg_realloc_string_buffer ok b n =
      Some (length pre + 4 + length body + 4 + blobmsg_hdrlen (length nm), b')"
    "buf_string b' pre c body nm (r @ x)" "n \<le> length (r @ x)"
proof -
  let ?p = "length pre + 4 + length body" and ?hl = "blobmsg_hdrlen (length nm)"
  define m where "m y = two_attrs pre c body (4 + length body) (4 + ?hl) (msg_hdr nm @ y)" for y
  have mem: "blob_mem b = Some (m r)" "blob_head b = length pre" "blob_grow b" "blob_buflen b = ?p + 4 + ?hl + length r"
    "4 dvd length body" "4 dvd length pre" "4 dvd length r" "blob_buflen b = length (m r)" "m r @ y = m (r @ y)" for y
    using b by (simp_all add: buf_string_def m_def two_attrs_def)
  have dvd: "4 dvd ?hl" by (rule blobmsg_hdrlen_bounds(3))
  have next_p: "blob_next (m y) (length pre) = Some ?p" for y
    using fits mem(5) by (simp add: m_def two_attrs_outer)
  have pad: "blob_pad_len (m y) ?p = Some (of_nat (4 + ?hl))" for y
    using fits dvd unfolding m_def by (subst two_attrs_inner) simp_all
  have data: "blobmsg_data (m y) ?p = Some (?p + 4 + ?hl)" for y
    unfolding m_def by (rule two_attrs_data [OF k])
  have u: "unat (of_nat (4 + ?hl) :: u32) = 4 + ?hl" using fits by (intro unat_of_nat_u32) simp
  define req where "req = int n - int (length r)"
  have req: "int n - (int (blob_buflen b) - (attr_to_offset ?p + int (4 + ?hl) - BLOB_COOKIE)) = req"
    by (simp add: req_def mem(4) attr_to_offset_def)
  note step = blobmsg_realloc_string_buffer_def Let_def mem(1,2) bind.bind_lunit next_p pad u req
  show thesis
  proof (cases "req \<le> 0")
    case True
    then have "blobmsg_realloc_string_buffer ok b n = Some (?p + 4 + ?hl, b)"
      unfolding step by (simp add: data)
    then show thesis using b True that [of b "[]"] by (simp add: req_def)
  next
    case False
    have "4 dvd length (m r)" unfolding mem(8) [symmetric] mem(4) using mem(5-7) dvd by simp
    note dvd_m = this
    obtain j where j: "nat req \<le> j" "4 dvd j"
      "blob_buf_grow ok b (nat req) = b\<lparr>blob_mem := Some (m r @ replicate j 0), blob_buflen := length (m r) + j\<rparr>"
      by (rule blob_buf_grow_mem [OF mem(3) disjI1 [OF mem(1)] mem(8) dvd_m ok, of "nat req"])
    have "blobmsg_realloc_string_buffer ok b n = Some (?p + 4 + ?hl,
        b\<lparr>blob_mem := Some (m (r @ replicate j 0)), blob_buflen := length (m r) + j\<rparr>)"
      using False unfolding step j(3) mem(9) by (simp add: next_p data mem(2))
    moreover have "buf_string (b\<lparr>blob_mem := Some (m (r @ replicate j 0)), blob_buflen := length (m r) + j\<rparr>) pre c body nm (r @ replicate j 0)"
      unfolding buf_string_def mem(8) [symmetric] m_def [symmetric] using mem(2-7) j(2) by simp
    ultimately show thesis using j(1) that by (simp add: req_def)
  qed
qed

lemma buf_string_write:
  assumes "buf_string b pre c body nm r" "length done + length t \<le> length r" "r = done @ r'"
  shows "\<exists>m m' r2. blob_mem b = Some m \<and>
    mem_write m (length pre + 4 + length body + 4 + blobmsg_hdrlen (length nm) + length done) t = Some m' \<and>
    length r = length done + length t + length r2 \<and> buf_string (b\<lparr>blob_mem := Some m'\<rparr>) pre c body nm (done @ t @ r2)"
proof -
  define L where "L = pre @ bytes_be32 (blob_hdr c (4 + length body)) @ body
    @ bytes_be32 (blob_hdr (True, BLOBMSG_TYPE_STRING) (4 + blobmsg_hdrlen (length nm))) @ msg_hdr nm"
  have L: "two_attrs pre c body (4 + length body) (4 + blobmsg_hdrlen (length nm)) (msg_hdr nm @ y) = L @ y" 
    "length L = length pre + 4 + length body + 4 + blobmsg_hdrlen (length nm)" for y by (simp_all add: two_attrs_def L_def)
  have "mem_write ((L @ done) @ take (length t) r' @ drop (length t) r') (length (L @ done)) t = Some ((L @ done) @ t @ drop (length t) r')"
    using assms(2,3) by (intro mem_write_mid) simp
  then have "mem_write (L @ r) (length L + length done) t = Some (L @ done @ t @ drop (length t) r')"
    using assms(3) by simp
  moreover have "length r = length done + length t + length (drop (length t) r')" using assms(2,3) by simp
  moreover from this have "buf_string (b\<lparr>blob_mem := Some (L @ done @ t @ drop (length t) r')\<rparr>) pre c body nm (done @ t @ drop (length t) r')"
    using assms(1) by (simp add: buf_string_def L add.assoc)
  moreover have "blob_mem b = Some (L @ r)" using assms(1) by (simp add: buf_string_def L)
  ultimately show ?thesis unfolding L(2) [symmetric] by blast
qed

lemma buf_string_commit:
  assumes b: "buf_string b pre c body nm (tx @ 0 # r)" and nz: "0 \<notin> set tx" and k: "length nm < 2 ^ 16"
    and fits: "length body + 8 + blobmsg_hdrlen (length nm) + pad4 (length tx + 1) < 2 ^ 24"
  shows "\<exists>b'. blobmsg_add_string_buffer b = Some b' \<and> buf_at b' pre c (body @ msg_enc BLOBMSG_TYPE_STRING nm (tx @ [0]))"
proof -
  let ?ty = BLOBMSG_TYPE_STRING
  define n where "n = length tx + 1"
  define hl where "hl = blobmsg_hdrlen (length nm)"
  define z where "z = take (pad4 n - n) r"
  define post where "post = drop (pad4 n - n) r"
  define y where "y = replicate (pad4 n - n) (0 :: u8)"
  have r: "r = z @ post" by (simp add: z_def post_def)
  have bs: "blob_grow b" "blob_head b = length pre" "4 dvd length pre" "4 dvd length body" "4 dvd length (tx @ 0 # r)"
    "blob_mem b = Some (two_attrs pre c body (4 + length body) (4 + hl) (msg_hdr nm @ (tx @ [0]) @ z @ post))"
    "blob_buflen b = length pre + 4 + length body + 4 + hl + length (tx @ 0 # r)"
    using b by (simp_all add: buf_string_def hl_def r)
  have pad: "n \<le> pad4 n" "pad4 n < n + 4" "4 dvd pad4 n" using pad4_bounds [of n] by simp_all
  have len: "length (tx @ 0 # r) = n + length r" by (simp add: n_def)
  have "pad4 n \<le> n + length r" using pad bs(5) unfolding len dvd_def by auto
  then have zl: "length z = pad4 n - n" "n + length r = pad4 n + length post" using pad(1) by (simp_all add: z_def post_def)
  define b2 where "b2 = b\<lparr>blob_mem := Some (two_attrs pre c body (length body + 8 + hl + pad4 n) (4 + hl + n) (msg_hdr nm @ (tx @ [0]) @ y @ post))\<rparr>"
  from blobmsg_add_string_buffer_mem [OF bs(2) bs(6) [unfolded hl_def] zl(1) [unfolded n_def] nz k bs(4) fits]
  have "blobmsg_add_string_buffer b = Some b2" by (simp add: b2_def n_def hl_def y_def)
  moreover have enc: "body @ msg_enc ?ty nm (tx @ [0]) = attr_mem body (True, ?ty) (4 + hl + n) (msg_hdr nm @ (tx @ [0]) @ y)"
    using msg_pad [of "length nm" n] by (simp add: blob_enc_def y_def hl_def n_def)
  moreover have el: "length (body @ msg_enc ?ty nm (tx @ [0])) = length body + 4 + hl + pad4 n"
    using msg_pad [of "length nm" n] by (simp add: hl_def n_def)
  have "buf_at b2 pre c (body @ msg_enc ?ty nm (tx @ [0]))"
  proof (rule buf_atI [where post = post])
    show "4 dvd length (body @ msg_enc ?ty nm (tx @ [0]))" using bs(4) by simp
    show "blob_mem b2 = Some (attr_mem pre c (4 + length (body @ msg_enc ?ty nm (tx @ [0]))) ((body @ msg_enc ?ty nm (tx @ [0])) @ post))"
      unfolding el unfolding enc by (simp add: b2_def two_attrs_def add.commute add.left_commute)
    show "blob_buflen b2 = length pre + 4 + length (body @ msg_enc ?ty nm (tx @ [0])) + length post"
      unfolding el by (simp add: b2_def bs(7) len zl(2) del: length_append list.size)
    have "4 dvd hl" unfolding hl_def by (rule blobmsg_hdrlen_bounds(3))
    then show "4 dvd blob_buflen b2" using bs(3-5) by (simp add: b2_def bs(7) del: length_append list.size)
  qed (use bs in \<open>simp_all add: b2_def\<close>)
  ultimately show ?thesis by blast
qed

text \<open>\<open>blobmsg_vprintf\<close>, which reserves room in the buffer, prints into it and then takes the
  string length from the text found there, appends the same field as \<open>blobmsg_add_string\<close> would.\<close>

theorem blobmsg_vprintf_correct:
  assumes at: "buf_at b pre c body" and ok: "\<forall>n. ok n" and k: "length (str name) < 2 ^ 16"
    and nz: "0 \<notin> set tx"
    and fits: "length body + 12 + blobmsg_hdrlen (length (str name)) + length tx < 2 ^ 24"
  shows "\<exists>b'. blobmsg_vprintf ok b name tx = Some b' \<and>
    buf_at b' pre c (body @ enc_msg (Field BLOBMSG_TYPE_STRING name (tx @ [0])))"
proof -
  have ok': "ok n" for n using ok by blast
  have fits': "length body + 8 + blobmsg_hdrlen (length (str name)) + pad4 (length tx + 1) < 2 ^ 24"
    using fits pad4_bounds(2) [of "length tx + 1"] by simp
  obtain r b1 where al: "blobmsg_alloc_string_buffer ok b name (length tx + 1) =
      Some (length pre + 4 + length body + 4 + blobmsg_hdrlen (length (str name)), b1)"
    "buf_string b1 pre c body (str name) r" "length tx + 1 \<le> length r"
    by (rule buf_string_alloc [where ok = ok, OF at ok' k fits'])
  from buf_string_write [OF al(2), of "[]" "tx @ [0]" r] al(3) obtain m m' r2 where
    w: "blob_mem b1 = Some m" "mem_write m (length pre + 4 + length body + 4 + blobmsg_hdrlen (length (str name))) (tx @ [0]) = Some m'"
    "buf_string (b1\<lparr>blob_mem := Some m'\<rparr>) pre c body (str name) (tx @ 0 # r2)" by auto
  from buf_string_commit [OF w(3) nz k fits'] show ?thesis
    using al(1) w(1,2) by (auto simp: blobmsg_vprintf_def)
qed

theorem blobmsg_vprintf_correct_witness:
  "\<exists>b'. blobmsg_vprintf (\<lambda>_. True) small_buf (Some [0x61]) [0x62, 0x63] = Some b' \<and>
    buf_at b' [] (False, 1) ([] @ enc_msg (Field BLOBMSG_TYPE_STRING (Some [0x61]) ([0x62, 0x63] @ [0])))"
  by (rule blobmsg_vprintf_correct [OF small_buf_at]) (simp_all add: blobmsg_hdrlen_def pad4_def)

section \<open>A read past the payload\<close>

text \<open>An attribute whose name fills the payload, with no null byte after it, passes the
  length test of \<open>blobmsg_check_attr\<close>, and the test for the null byte then reads the byte after
  the attribute: when the attribute is the last thing in memory that read is out of bounds.\<close>

theorem blobmsg_check_attr_overread:
  "blobmsg_check_attr (pre @ blob_enc (True, BLOBMSG_TYPE_STRING) [0, 2, 0x61, 0x62]) (length pre) nm = None"
proof -
  let ?m = "pre @ blob_enc (True, BLOBMSG_TYPE_STRING) [0, 2, 0x61, 0x62]"
  have m: "?m = attr_mem pre (True, BLOBMSG_TYPE_STRING) 8 [0, 2, 0x61, 0x62]"
    by (simp add: blob_enc_def pad4_def)
  have "cpu_to_be16 2 = 0x200" by (simp add: cpu_to_be16_def u_bswap16_def)
  then have "bytes_le16 (cpu_to_be16 2) = [0, 2]" by (simp add: bytes_le16_def)
  then have "blobmsg_namelen ?m (blob_data (length pre)) = Some 2"
    using blobmsg_namelen_hdr [of 2 pre "bytes_be32 (blob_hdr (True, BLOBMSG_TYPE_STRING) 8)" "[0x61, 0x62]"]
    unfolding m blob_data_def by (simp add: blob_data_def)
  moreover have "blob_len ?m (length pre) = Some 4"
    unfolding m by (subst blob_len_attr) simp_all
  moreover have "mem_read ?m (blob_data (length pre) + 2 + 2) 1 = None"
    by (simp add: m mem_read_def blob_data_def)
  ultimately show ?thesis by (simp add: blobmsg_check_attr_def)
qed

end
