(* ===== verification/Uci_Util.thy ===== *)
theory Uci_Util
  imports Prelude "HOL-Library.Monad_Syntax"
begin

text \<open>
  The utility functions of libuci (\<open>libuci/util.c\<close>, \<open>uci_internal.h\<close>): validation of names, types
  and values, and the tuple parser \<open>uci_parse_ptr\<close>.  A C string is the list of its characters
  before the null byte; \<^const>\<open>None\<close> is a null pointer.  An exception of the library (a
  \<open>longjmp\<close> to the innermost trap) is a value \<^const>\<open>Inl\<close> of a sum.
\<close>

section \<open>Characters and strings\<close>

datatype uci_err = UCI_ERR_MEM | UCI_ERR_INVAL | UCI_ERR_NOTFOUND | UCI_ERR_IO
  | UCI_ERR_PARSE | UCI_ERR_DUPLICATE | UCI_ERR_UNKNOWN

definition cv :: "char \<Rightarrow> nat" where
  "cv c = of_char c"

text \<open>The character classes of the C locale.\<close>

definition isdigit :: "char \<Rightarrow> bool" where
  "isdigit c \<longleftrightarrow> 48 \<le> cv c \<and> cv c \<le> 57"

definition isalnum :: "char \<Rightarrow> bool" where
  "isalnum c \<longleftrightarrow> isdigit c \<or> (65 \<le> cv c \<and> cv c \<le> 90) \<or> (97 \<le> cv c \<and> cv c \<le> 122)"

definition isspace :: "char \<Rightarrow> bool" where
  "isspace c \<longleftrightarrow> cv c = 32 \<or> (9 \<le> cv c \<and> cv c \<le> 13)"

definition NUL :: char where "NUL = CHR 0x00"
definition NL :: char where "NL = CHR 0x0A"
definition TAB :: char where "TAB = CHR 0x09"
definition CR :: char where "CR = CHR 0x0D"
definition QUOTE :: char where "QUOTE = CHR 0x27"
definition DQUOTE :: char where "DQUOTE = CHR 0x22"
definition BACKSLASH :: char where "BACKSLASH = CHR 0x5C"

text \<open>\<open>strchr (s, c)\<close> as the strings before and after the first \<open>c\<close>.\<close>

fun split_char :: "char \<Rightarrow> string \<Rightarrow> (string \<times> string) option" where
  "split_char c [] = None"
| "split_char c (x # xs) =
     (if x = c then Some ([], xs)
      else map_option (\<lambda>(a, b). (x # a, b)) (split_char c xs))"

text \<open>\<open>strsep (&str, c)\<close>: the token and the new value of \<open>str\<close>.\<close>

fun strsep :: "char \<Rightarrow> string option \<Rightarrow> string option \<times> string option" where
  "strsep c None = (None, None)"
| "strsep c (Some s) = (case split_char c s of
     None \<Rightarrow> (Some s, None) | Some (a, b) \<Rightarrow> (Some a, Some b))"

section \<open>Validation\<close>

fun uci_validate_loop :: "string \<Rightarrow> bool \<Rightarrow> bool \<Rightarrow> bool" where
  "uci_validate_loop [] name package = True"
| "uci_validate_loop (c # str) name package =
     (if isalnum c \<or> c = CHR ''_'' then uci_validate_loop str name package
      else if c = CHR ''-'' \<and> package then uci_validate_loop str name package
      else if name \<or> cv c < 33 \<or> cv c > 126 then False
      else uci_validate_loop str name package)"

definition uci_validate_str :: "string \<Rightarrow> bool \<Rightarrow> bool \<Rightarrow> bool" where
  "uci_validate_str str name package = (if str = [] then False else uci_validate_loop str name package)"

definition uci_validate_package :: "string \<Rightarrow> bool" where
  "uci_validate_package str = uci_validate_str str False True"

definition uci_validate_type :: "string \<Rightarrow> bool" where
  "uci_validate_type str = uci_validate_str str False False"

definition uci_validate_name :: "string \<Rightarrow> bool" where
  "uci_validate_name str = uci_validate_str str True False"

fun uci_validate_text :: "string \<Rightarrow> bool" where
  "uci_validate_text [] = True"
| "uci_validate_text (c # str) =
     (if cv c < 32 \<and> c \<noteq> TAB \<and> c \<noteq> NL \<and> c \<noteq> CR then False else uci_validate_text str)"

section \<open>Pointers into the configuration\<close>

text \<open>\<open>struct uci_ptr\<close>.  The package an operation works on is passed beside the pointer; a
  section is its index in the package and an option its index in the section.\<close>

datatype uci_type = UCI_TYPE_UNSPEC | UCI_TYPE_PACKAGE | UCI_TYPE_SECTION | UCI_TYPE_OPTION

datatype uci_elem = Elem_package | Elem_section nat | Elem_option nat nat

record uci_ptr =
  ptr_target :: uci_type
  ptr_done :: bool
  ptr_complete :: bool
  ptr_extended :: bool
  ptr_s :: "nat option"
  ptr_o :: "nat option"
  ptr_last :: "uci_elem option"
  ptr_package :: "string option"
  ptr_section :: "string option"
  ptr_option :: "string option"
  ptr_value :: "string option"

definition ptr_zero :: uci_ptr where
  "ptr_zero = \<lparr>ptr_target = UCI_TYPE_UNSPEC, ptr_done = False, ptr_complete = False,
     ptr_extended = False, ptr_s = None, ptr_o = None, ptr_last = None, ptr_package = None,
     ptr_section = None, ptr_option = None, ptr_value = None\<rparr>"

text \<open>The code from the label \<open>lastval\<close> on.\<close>

definition uci_parse_ptr_lastval :: "uci_ptr \<Rightarrow> uci_err + uci_ptr" where
  "uci_parse_ptr_lastval ptr =
     (let bad = (\<lambda>v s. case s of None \<Rightarrow> False | Some t \<Rightarrow> \<not> v t) in
      if bad uci_validate_package (ptr_package ptr) then Inl UCI_ERR_PARSE
      else let ptr = (if bad uci_validate_name (ptr_section ptr) then ptr\<lparr>ptr_extended := True\<rparr> else ptr)
      in if bad uci_validate_name (ptr_option ptr) then Inl UCI_ERR_PARSE
      else if bad uci_validate_text (ptr_value ptr) then Inl UCI_ERR_PARSE
      else Inr ptr)"

definition uci_parse_ptr :: "string \<Rightarrow> uci_err + uci_ptr" where
  "uci_parse_ptr str =
     (let ptr = ptr_zero;
          (str, value) = (case split_char (CHR ''='') str of
             None \<Rightarrow> (str, None) | Some (a, b) \<Rightarrow> (a, Some b));
          ptr = ptr\<lparr>ptr_value := value\<rparr>;
          (package, rest) = strsep (CHR ''.'') (Some str);
          ptr = ptr\<lparr>ptr_package := package\<rparr>
      in if package = None then Inl UCI_ERR_PARSE
         else let (section, rest) = strsep (CHR ''.'') rest; ptr = ptr\<lparr>ptr_section := section\<rparr>
         in if section = None then uci_parse_ptr_lastval (ptr\<lparr>ptr_target := UCI_TYPE_PACKAGE\<rparr>)
         else let (opt, rest) = strsep (CHR ''.'') rest; ptr = ptr\<lparr>ptr_option := opt\<rparr>
         in if opt = None then uci_parse_ptr_lastval (ptr\<lparr>ptr_target := UCI_TYPE_SECTION\<rparr>)
         else let ptr = ptr\<lparr>ptr_target := UCI_TYPE_OPTION\<rparr>; (tmp, rest) = strsep (CHR ''.'') rest
         in if tmp \<noteq> None then Inl UCI_ERR_PARSE
         else uci_parse_ptr_lastval ptr)"

section \<open>What the validators accept\<close>

lemma uci_validate_loop_iff:
  "uci_validate_loop str name package \<longleftrightarrow>
     (\<forall>c \<in> set str. isalnum c \<or> c = CHR ''_'' \<or> (c = CHR ''-'' \<and> package) \<or>
        (\<not> name \<and> 33 \<le> cv c \<and> cv c \<le> 126))"
  by (induction str) auto

lemma uci_validate_text_iff:
  "uci_validate_text str \<longleftrightarrow> (\<forall>c \<in> set str. 32 \<le> cv c \<or> c \<in> {TAB, NL, CR})"
  by (induction str) auto

lemma uci_validate_name_iff:
  "uci_validate_name str \<longleftrightarrow> str \<noteq> [] \<and> (\<forall>c \<in> set str. isalnum c \<or> c = CHR ''_'')"
  by (auto simp: uci_validate_name_def uci_validate_str_def uci_validate_loop_iff)

lemma cv_lits [simp]: "cv (CHR ''.'') = 46" "cv (CHR ''='') = 61" "cv (CHR ''_'') = 95" "cv (CHR ''-'') = 45"
  "cv (CHR '' '') = 32" "cv NUL = 0" "cv NL = 10" "cv TAB = 9" "cv CR = 13" "cv QUOTE = 39"
  "cv DQUOTE = 34" "cv BACKSLASH = 92" "cv (CHR '';'') = 59" "cv (CHR ''#'') = 35"
  by (simp_all add: cv_def NUL_def NL_def TAB_def CR_def QUOTE_def DQUOTE_def BACKSLASH_def)

lemma isalnum_lits [simp]: "\<not> isalnum (CHR ''.'')" "\<not> isalnum (CHR ''='')"
  by (simp_all add: isalnum_def isdigit_def)

lemma split_char_None: "split_char c s = None \<longleftrightarrow> c \<notin> set s"
  by (induction s) auto

lemma split_char_append: "c \<notin> set a \<Longrightarrow> split_char c (a @ c # b) = Some (a, b)"
  by (induction a) auto

text \<open>The text of a tuple, as a user writes it.\<close>

fun tuple_text :: "string \<Rightarrow> string option \<Rightarrow> string option \<Rightarrow> string option \<Rightarrow> string" where
  "tuple_text p s opt v = p @ (case s of None \<Rightarrow> [] | Some s \<Rightarrow> CHR ''.'' # s
       @ (case opt of None \<Rightarrow> [] | Some x \<Rightarrow> CHR ''.'' # x))
     @ (case v of None \<Rightarrow> [] | Some x \<Rightarrow> CHR ''='' # x)"

lemma name_no_sep: "uci_validate_name s \<Longrightarrow> CHR ''.'' \<notin> set s \<and> CHR ''='' \<notin> set s"
  by (auto simp: uci_validate_name_iff)

lemma uci_parse_ptr_spec:
  assumes "uci_validate_package p" "CHR ''.'' \<notin> set p" "CHR ''='' \<notin> set p"
    and "\<forall>x. s = Some x \<longrightarrow> CHR ''.'' \<notin> set x \<and> CHR ''='' \<notin> set x"
    and "\<forall>x. opt = Some x \<longrightarrow> uci_validate_name x" "s = None \<longrightarrow> opt = None"
    and "\<forall>x. v = Some x \<longrightarrow> uci_validate_text x"
  shows "uci_parse_ptr (tuple_text p s opt v) = Inr (ptr_zero\<lparr>
     ptr_target := (if s = None then UCI_TYPE_PACKAGE else if opt = None then UCI_TYPE_SECTION
       else UCI_TYPE_OPTION),
     ptr_extended := (case s of None \<Rightarrow> False | Some x \<Rightarrow> \<not> uci_validate_name x),
     ptr_package := Some p, ptr_section := s, ptr_option := opt, ptr_value := v\<rparr>)"
proof -
  define body where "body = p @ (case s of None \<Rightarrow> [] | Some s \<Rightarrow> CHR ''.'' # s
       @ (case opt of None \<Rightarrow> [] | Some x \<Rightarrow> CHR ''.'' # x))"
  have opt: "opt = Some x \<Longrightarrow> CHR ''.'' \<notin> set x \<and> CHR ''='' \<notin> set x" for x
    using assms(5) name_no_sep by blast
  then have "CHR ''='' \<notin> set body" using assms(3,4) by (auto simp: body_def split: option.splits)
  then have eq: "(case split_char (CHR ''='') (tuple_text p s opt v) of
      None \<Rightarrow> (tuple_text p s opt v, None) | Some (a, b) \<Rightarrow> (a, Some b)) = (body, v)"
    using split_char_None [of "CHR ''=''" body]
    by (cases v) (auto simp: body_def split_char_append simp flip: append_assoc)
  have nd: "split_char (CHR ''.'') x = None" if "CHR ''.'' \<notin> set x" for x
    using that by (simp add: split_char_None)
  show ?thesis
    unfolding uci_parse_ptr_def Let_def eq
    using assms opt
    by (cases s; cases opt; cases v)
      (auto simp: body_def split_char_append nd uci_parse_ptr_lastval_def Let_def ptr_zero_def)
qed

lemma uci_parse_ptr_extra:
  assumes "CHR ''.'' \<notin> set p" "CHR ''='' \<notin> set p" "CHR ''.'' \<notin> set a" "CHR ''='' \<notin> set a"
    and "uci_validate_name b" "CHR ''='' \<notin> set x"
  shows "uci_parse_ptr (p @ CHR ''.'' # a @ CHR ''.'' # b @ CHR ''.'' # x) = Inl UCI_ERR_PARSE"
proof -
  have b: "CHR ''.'' \<notin> set b" "CHR ''='' \<notin> set b" using name_no_sep [OF assms(5)] by auto
  then have "split_char (CHR ''='') (p @ CHR ''.'' # a @ CHR ''.'' # b @ CHR ''.'' # x) = None"
    using assms by (simp add: split_char_None)
  then show ?thesis using assms b
    by (cases "split_char (CHR ''.'') x") (auto simp: uci_parse_ptr_def Let_def split_char_append)
qed

text \<open>C9: \<open>uci_parse_ptr\<close> splits a tuple \<open>package.section.option=value\<close> into its parts, marks a
  section part that is not a plain name as extended syntax, and sets the target to the deepest
  part given.  The value may contain any separator; the section part any character but
  the two separators.  A fourth part is an error.\<close>

theorem uci_parse_ptr_correct:
  assumes "uci_validate_package p" "CHR ''.'' \<notin> set p" "CHR ''='' \<notin> set p"
    and "\<forall>x. s = Some x \<longrightarrow> CHR ''.'' \<notin> set x \<and> CHR ''='' \<notin> set x"
    and "\<forall>x. opt = Some x \<longrightarrow> uci_validate_name x" "s = None \<longrightarrow> opt = None"
    and "\<forall>x. v = Some x \<longrightarrow> uci_validate_text x"
  shows "uci_parse_ptr (tuple_text p s opt v) = Inr (ptr_zero\<lparr>
     ptr_target := (if s = None then UCI_TYPE_PACKAGE else if opt = None then UCI_TYPE_SECTION
       else UCI_TYPE_OPTION),
     ptr_extended := (case s of None \<Rightarrow> False | Some x \<Rightarrow> \<not> uci_validate_name x),
     ptr_package := Some p, ptr_section := s, ptr_option := opt, ptr_value := v\<rparr>) \<and>
   (\<forall>a b x. s = Some a \<and> opt = Some b \<and> CHR ''='' \<notin> set x \<longrightarrow>
     uci_parse_ptr (tuple_text p s opt None @ CHR ''.'' # x) = Inl UCI_ERR_PARSE)"
  using uci_parse_ptr_spec [OF assms] uci_parse_ptr_extra [OF assms(2,3)] assms(4,5) by simp

theorem uci_parse_ptr_correct_witness:
  "uci_parse_ptr ''network.@wan[0].proto.x'' = Inl UCI_ERR_PARSE \<and>
   uci_parse_ptr ''network.@wan[0].proto=a.b=c'' = Inr (ptr_zero\<lparr>
     ptr_target := UCI_TYPE_OPTION, ptr_extended := True, ptr_package := Some ''network'',
     ptr_section := Some ''@wan[0]'', ptr_option := Some ''proto'', ptr_value := Some ''a.b=c''\<rparr>)"
proof -
  have v: "uci_validate_package ''network''" "uci_validate_name ''proto''" "uci_validate_text ''a.b=c''"
    "\<not> uci_validate_name ''@wan[0]''"
    by (simp_all add: uci_validate_package_def uci_validate_name_def uci_validate_str_def isalnum_def
        isdigit_def cv_def)
  show ?thesis
    using uci_parse_ptr_correct [of "''network''" "Some ''@wan[0]''" "Some ''proto''" "Some ''a.b=c''"] v
    by (auto dest!: spec [of _ "''x''"])
qed

end
