(* ===== verification/Uci_Data.thy ===== *)
theory Uci_Data
  imports Uci_Util
begin

text \<open>
  The configuration tree of libuci and the operations on it (\<open>libuci/list.h\<close>, which
  \<open>libuci.c\<close> includes, and \<open>uci_add_delta\<close> of \<open>delta.c\<close>).  A package is a record with the
  list of its sections in order, each with the list of its options.  An operation takes the
  package its pointer refers to and gives the new package; \<^const>\<open>Inl\<close> is a thrown
  exception, after which the package is unchanged, and the outer \<^const>\<open>None\<close> is undefined
  behaviour.  The argument \<open>internal\<close> is \<open>ctx->internal\<close> on entry: changes made in that mode
  are not recorded in the delta.  Allocation is taken to succeed.
\<close>

section \<open>Packages, sections and options\<close>

datatype uci_value = UCI_STRING string | UCI_LIST "string list"

record uci_option =
  o_name :: string
  o_value :: uci_value

text \<open>\<open>s_inline\<close> says that the type string is still stored behind the structure
  (\<open>s->type == uci_dataptr (s)\<close>).\<close>

record uci_section =
  s_name :: "string option"
  s_type :: string
  s_anonymous :: bool
  s_inline :: bool
  s_options :: "uci_option list"

datatype uci_command = UCI_CMD_ADD | UCI_CMD_REMOVE | UCI_CMD_CHANGE | UCI_CMD_RENAME
  | UCI_CMD_REORDER | UCI_CMD_LIST_ADD | UCI_CMD_LIST_DEL

record uci_delta =
  d_cmd :: uci_command
  d_section :: string
  d_option :: "string option"
  d_value :: "string option"

record uci_package =
  p_name :: string
  p_sections :: "uci_section list"
  p_delta :: "uci_delta list"
  p_saved_delta :: "uci_delta list"
  p_has_delta :: bool
  p_n_section :: nat
  p_path :: "string option"

type_synonym uci_op = "(uci_err + nat \<times> uci_ptr \<times> uci_package) option"

definition uci_alloc_package :: "string \<Rightarrow> uci_package" where
  "uci_alloc_package name = \<lparr>p_name = name, p_sections = [], p_delta = [], p_saved_delta = [],
     p_has_delta = False, p_n_section = 0, p_path = None\<rparr>"

definition uci_add_delta ::
  "uci_delta list \<Rightarrow> uci_command \<Rightarrow> string \<Rightarrow> string option \<Rightarrow> string option \<Rightarrow> uci_delta list" where
  "uci_add_delta list cmd section opt value =
     list @ [\<lparr>d_cmd = cmd, d_section = section, d_option = opt, d_value = value\<rparr>]"

text \<open>\<open>if (!internal && p->has_delta) uci_add_delta (ctx, &p->delta, ...)\<close>, where a null
  section string would be dereferenced.\<close>

definition track_delta ::
  "bool \<Rightarrow> uci_package \<Rightarrow> uci_command \<Rightarrow> string option \<Rightarrow> string option \<Rightarrow> string option \<Rightarrow> uci_package option" where
  "track_delta internal p cmd section opt value =
     (if \<not> internal \<and> p_has_delta p
      then map_option (\<lambda>s. p\<lparr>p_delta := uci_add_delta (p_delta p) cmd s opt value\<rparr>) section
      else Some p)"

section \<open>Moving an element in a list\<close>

text \<open>The loop of \<open>uci_list_set_pos\<close>: how many elements of the list, without the moved one, come
  to stand before it.\<close>

fun uci_list_new_head :: "int \<Rightarrow> 'a list \<Rightarrow> nat" where
  "uci_list_new_head pos [] = 0"
| "uci_list_new_head pos (x # xs) = (if pos \<le> 0 then 0 else Suc (uci_list_new_head (pos - 1) xs))"

definition uci_list_set_pos :: "'a list \<Rightarrow> nat \<Rightarrow> int \<Rightarrow> 'a list \<times> bool" where
  "uci_list_set_pos head ptr pos =
     (let old_head = ptr;
          rest = take ptr head @ drop (Suc ptr) head;
          new_head = uci_list_new_head pos rest
      in (take new_head rest @ [head ! ptr] @ drop new_head rest, old_head \<noteq> new_head))"

section \<open>Generated section names\<close>

definition djbhash_step :: "u32 \<Rightarrow> char \<Rightarrow> u32" where
  "djbhash_step hash c = (push_bit 5 hash + hash) + of_nat (cv c)"

definition djbhash :: "u32 \<Rightarrow> string \<Rightarrow> u32" where
  "djbhash hash str = foldl djbhash_step (if hash = NOT 0 then 5381 else hash) str AND 0x7FFFFFFF"

fun hex_digit :: "nat \<Rightarrow> char" where
  "hex_digit n = (if n < 10 then char_of (48 + n) else char_of (87 + n))"

text \<open>\<open>%0wx\<close> of \<open>printf\<close>: the hexadecimal digits, at least \<open>w\<close> of them.\<close>

fun hex_digits :: "nat \<Rightarrow> string" where
  "hex_digits n = (if n < 16 then [hex_digit n] else hex_digits (n div 16) @ [hex_digit (n mod 16)])"

declare hex_digits.simps [simp del] hex_digit.simps [simp del]

definition print_hex :: "nat \<Rightarrow> nat \<Rightarrow> string" where
  "print_hex w n = replicate (w - length (hex_digits n)) (CHR ''0'') @ hex_digits n"

definition uci_section_hash :: "uci_section \<Rightarrow> u32" where
  "uci_section_hash s = foldl (\<lambda>hash opt.
      let hash = djbhash hash (o_name opt)
      in case o_value opt of UCI_STRING v \<Rightarrow> djbhash hash v | UCI_LIST _ \<Rightarrow> hash)
    (djbhash (NOT 0) (s_type s)) (s_options s)"

definition uci_fixup_section :: "nat \<Rightarrow> uci_section \<Rightarrow> uci_section" where
  "uci_fixup_section n_section s =
     (if s_name s \<noteq> None then s
      else s\<lparr>s_name := Some (''cfg'' @ print_hex 2 n_section
               @ print_hex 4 (unat (uci_section_hash s mod 65536)))\<rparr>)"

section \<open>Allocation\<close>

definition uci_alloc_section :: "uci_package \<Rightarrow> string \<Rightarrow> string option \<Rightarrow> nat \<times> uci_package" where
  "uci_alloc_section p ty name =
     (let name = (if name = Some [] then None else name);
          s = \<lparr>s_name = name, s_type = ty, s_anonymous = (name = None), s_inline = True, s_options = []\<rparr>
      in (length (p_sections p),
          p\<lparr>p_n_section := p_n_section p + 1, p_sections := p_sections p @ [s]\<rparr>))"

abbreviation upd_section :: "(uci_section \<Rightarrow> uci_section) \<Rightarrow> nat \<Rightarrow> uci_package \<Rightarrow> uci_package" where
  "upd_section f i p \<equiv> p\<lparr>p_sections := (p_sections p)[i := f (p_sections p ! i)]\<rparr>"

definition uci_alloc_option :: "uci_section \<Rightarrow> string \<Rightarrow> string \<Rightarrow> uci_section" where
  "uci_alloc_option s name value =
     s\<lparr>s_options := s_options s @ [\<lparr>o_name = name, o_value = UCI_STRING value\<rparr>]\<rparr>"

definition uci_alloc_list :: "uci_section \<Rightarrow> string \<Rightarrow> uci_section" where
  "uci_alloc_list s name = s\<lparr>s_options := s_options s @ [\<lparr>o_name = name, o_value = UCI_LIST []\<rparr>]\<rparr>"

definition drop_nth :: "nat \<Rightarrow> 'a list \<Rightarrow> 'a list" where
  "drop_nth i xs = take i xs @ drop (Suc i) xs"

definition uci_free_option :: "nat \<Rightarrow> uci_section \<Rightarrow> uci_section" where
  "uci_free_option i s = s\<lparr>s_options := drop_nth i (s_options s)\<rparr>"

definition uci_free_section :: "nat \<Rightarrow> uci_package \<Rightarrow> uci_package" where
  "uci_free_section i p = p\<lparr>p_sections := drop_nth i (p_sections p)\<rparr>"

section \<open>Looking up\<close>

text \<open>\<open>uci_lookup_list\<close>: the index of the first element with the name.\<close>

fun uci_lookup_list :: "('a \<Rightarrow> string option) \<Rightarrow> 'a list \<Rightarrow> string \<Rightarrow> nat option" where
  "uci_lookup_list nm [] name = None"
| "uci_lookup_list nm (x # xs) name =
     (if nm x = Some name then Some 0 else map_option Suc (uci_lookup_list nm xs name))"

abbreviation lookup_section :: "uci_package \<Rightarrow> string \<Rightarrow> nat option" where
  "lookup_section p name \<equiv> uci_lookup_list s_name (p_sections p) name"

abbreviation lookup_option :: "uci_section \<Rightarrow> string \<Rightarrow> nat option" where
  "lookup_option s name \<equiv> uci_lookup_list (\<lambda>x. Some (o_name x)) (s_options s) name"

text \<open>\<open>strtol (s, &t, 10)\<close> and \<open>sscanf (s, "%d")\<close>: white space, a sign and digits.  The result is
  \<^const>\<open>None\<close> when there is no digit; a \<open>long\<close> has 32 bits and saturates.\<close>

fun digits_value :: "int \<Rightarrow> string \<Rightarrow> int \<times> string" where
  "digits_value acc [] = (acc, [])"
| "digits_value acc (c # s) =
     (if isdigit c then digits_value (acc * 10 + int (cv c) - 48) s else (acc, c # s))"

definition clamp :: "int \<Rightarrow> int" where
  "clamp n = max (-(2 ^ 31)) (min (2 ^ 31 - 1) n)"

definition scan_int :: "string \<Rightarrow> (int \<times> string) option" where
  "scan_int s =
     (let t = dropWhile isspace s;
          (neg, t) = (case t of [] \<Rightarrow> (False, t)
             | c # r \<Rightarrow> if c = CHR ''-'' then (True, r) else if c = CHR ''+'' then (False, r) else (False, t))
      in case t of [] \<Rightarrow> None
         | c # r \<Rightarrow> if isdigit c
             then let (n, rest) = digits_value 0 t in Some (clamp (if neg then - n else n), rest)
             else None)"

definition strtol :: "string \<Rightarrow> int \<times> string" where
  "strtol s = (case scan_int s of None \<Rightarrow> (0, s) | Some r \<Rightarrow> r)"

text \<open>The two loops of \<open>uci_lookup_ext_section\<close>.\<close>

definition type_matches :: "string option \<Rightarrow> uci_section \<Rightarrow> bool" where
  "type_matches name s \<longleftrightarrow> \<not> (name \<noteq> None \<and> Some (s_type s) \<noteq> name)"

fun count_sections :: "string option \<Rightarrow> uci_section list \<Rightarrow> int \<Rightarrow> int" where
  "count_sections name [] c = c"
| "count_sections name (s # ss) c = count_sections name ss (if type_matches name s then c + 1 else c)"

fun find_section :: "string option \<Rightarrow> int \<Rightarrow> uci_section list \<Rightarrow> int \<Rightarrow> nat option" where
  "find_section name idx [] c = None"
| "find_section name idx (s # ss) c =
     (if \<not> type_matches name s then map_option Suc (find_section name idx ss c)
      else if idx = c then Some 0
      else map_option Suc (find_section name idx ss (c + 1)))"

definition uci_lookup_ext_section :: "uci_package \<Rightarrow> string \<Rightarrow> uci_err + nat option" where
  "uci_lookup_ext_section p section =
     (case section of
        [] \<Rightarrow> Inl UCI_ERR_INVAL
      | at # rest \<Rightarrow>
          if at \<noteq> CHR ''@'' then Inl UCI_ERR_INVAL
          else case split_char (CHR ''['') rest of None \<Rightarrow> Inl UCI_ERR_INVAL
          | Some (name, idxstr) \<Rightarrow>
              (case split_char (CHR '']'') idxstr of None \<Rightarrow> Inl UCI_ERR_INVAL
               | Some (idxstr, t) \<Rightarrow>
                   if t \<noteq> [] then Inl UCI_ERR_INVAL
                   else let (idx, t) = strtol idxstr
                   in if t \<noteq> [] then Inl UCI_ERR_INVAL
                   else if name \<noteq> [] \<and> \<not> uci_validate_type name then Inl UCI_ERR_INVAL
                   else let name = (if name = [] then None else Some name);
                            idx = (if idx < 0 then idx + count_sections name (p_sections p) 0 else idx)
                   in Inr (find_section name idx (p_sections p) 0)))"

text \<open>\<open>uci_lookup_ptr\<close> after the package has been found.\<close>

definition uci_lookup_section :: "uci_package \<Rightarrow> uci_ptr \<Rightarrow> bool \<Rightarrow> uci_err + nat option \<times> uci_ptr" where
  "uci_lookup_section p ptr extended =
     (case ptr_s ptr of Some i \<Rightarrow> Inr (Some i, ptr)
      | None \<Rightarrow>
          (case ptr_section ptr of None \<Rightarrow> Inr (None, ptr)
           | Some name \<Rightarrow>
               if ptr_extended ptr then
                 if extended then
                   (case uci_lookup_ext_section p name of Inl e \<Rightarrow> Inl e
                    | Inr None \<Rightarrow> Inr (None, ptr)
                    | Inr (Some i) \<Rightarrow> Inr (Some i, ptr\<lparr>ptr_section := s_name (p_sections p ! i)\<rparr>))
                 else Inl UCI_ERR_INVAL
               else Inr (lookup_section p name, ptr)))"

definition uci_lookup_ptr :: "uci_package \<Rightarrow> uci_ptr \<Rightarrow> bool \<Rightarrow> uci_err + uci_ptr" where
  "uci_lookup_ptr p ptr extended =
     (let ptr = ptr\<lparr>ptr_done := True, ptr_last := Some Elem_package\<rparr>
      in if ptr_section ptr = None \<and> ptr_s ptr = None then Inr (ptr\<lparr>ptr_complete := True\<rparr>)
         else case uci_lookup_section p ptr extended of Inl e \<Rightarrow> Inl e
         | Inr (None, ptr) \<Rightarrow> Inr ptr
         | Inr (Some i, ptr) \<Rightarrow>
             let ptr = ptr\<lparr>ptr_last := Some (Elem_section i), ptr_s := Some i\<rparr>
             in case ptr_option ptr of None \<Rightarrow> Inr (ptr\<lparr>ptr_complete := True\<rparr>)
                | Some name \<Rightarrow>
                    (case lookup_option (p_sections p ! i) name of None \<Rightarrow> Inr ptr
                     | Some j \<Rightarrow> Inr (ptr\<lparr>ptr_o := Some j, ptr_last := Some (Elem_option i j),
                         ptr_complete := True\<rparr>)))"

definition uci_expand_ptr :: "uci_package \<Rightarrow> uci_ptr \<Rightarrow> bool \<Rightarrow> uci_err + uci_ptr" where
  "uci_expand_ptr p ptr complete =
     (case (if ptr_done ptr then Inr ptr else uci_lookup_ptr p ptr True) of Inl e \<Rightarrow> Inl e
      | Inr ptr \<Rightarrow>
          if complete \<and> \<not> ptr_complete ptr then Inl UCI_ERR_NOTFOUND
          else Inr (ptr\<lparr>
            ptr_package := (if ptr_package ptr = None then Some (p_name p) else ptr_package ptr),
            ptr_section := (case (ptr_s ptr, ptr_section ptr) of
               (Some i, None) \<Rightarrow> s_name (p_sections p ! i) | _ \<Rightarrow> ptr_section ptr),
            ptr_option := (case (ptr_s ptr, ptr_o ptr, ptr_option ptr) of
               (Some i, Some j, None) \<Rightarrow> Some (o_name (s_options (p_sections p ! i) ! j))
             | _ \<Rightarrow> ptr_option ptr)\<rparr>))"

section \<open>Changing the tree\<close>

definition uci_rename :: "bool \<Rightarrow> uci_package \<Rightarrow> uci_ptr \<Rightarrow> uci_op" where
  "uci_rename internal p ptr =
     (case uci_expand_ptr p ptr True of Inl e \<Rightarrow> Some (Inl e)
      | Inr ptr \<Rightarrow>
          (case (ptr_s ptr, ptr_value ptr) of
             (Some i, Some value) \<Rightarrow> do {
               p \<leftarrow> track_delta internal p UCI_CMD_RENAME (ptr_section ptr) (ptr_option ptr) (Some value);
               let p = (case ptr_o ptr of
                   Some j \<Rightarrow> upd_section (\<lambda>s. s\<lparr>s_options := (s_options s)[j := (s_options s ! j)\<lparr>o_name := value\<rparr>]\<rparr>) i p
                 | None \<Rightarrow> upd_section (\<lambda>s. s\<lparr>s_name := Some value, s_anonymous := False\<rparr>) i p);
               Some (Inr (0, ptr, p))
             }
           | _ \<Rightarrow> Some (Inl UCI_ERR_INVAL)))"

text \<open>\<open>%d\<close> of \<open>printf\<close>.\<close>

fun dec_digits :: "nat \<Rightarrow> string" where
  "dec_digits n = (if n < 10 then [char_of (48 + n)] else dec_digits (n div 10) @ [char_of (48 + n mod 10)])"

declare dec_digits.simps [simp del]

definition print_int :: "int \<Rightarrow> string" where
  "print_int n = (if n < 0 then CHR ''-'' # dec_digits (nat (- n)) else dec_digits (nat n))"

definition uci_reorder_section :: "bool \<Rightarrow> uci_package \<Rightarrow> nat \<Rightarrow> int \<Rightarrow> uci_package option" where
  "uci_reorder_section internal p i pos =
     (let name = s_name (p_sections p ! i);
          (sections, changed) = uci_list_set_pos (p_sections p) i pos;
          p = p\<lparr>p_sections := sections\<rparr>
      in if changed then track_delta internal p UCI_CMD_REORDER name None (Some (print_int pos))
         else Some p)"

definition uci_add_section :: "bool \<Rightarrow> uci_package \<Rightarrow> string \<Rightarrow> (nat \<times> uci_package) option" where
  "uci_add_section internal p ty = do {
     let (i, p) = uci_alloc_section p ty None;
     let p = (if s_anonymous (p_sections p ! i)
              then upd_section (uci_fixup_section (p_n_section p)) i p else p);
     p \<leftarrow> track_delta internal p UCI_CMD_ADD (s_name (p_sections p ! i)) None (Some ty);
     Some (i, p)
   }"

definition uci_delete :: "bool \<Rightarrow> uci_package \<Rightarrow> uci_ptr \<Rightarrow> uci_op" where
  "uci_delete internal p ptr =
     (case uci_expand_ptr p ptr True of Inl e \<Rightarrow> Some (Inl e)
      | Inr ptr \<Rightarrow>
          (case ptr_s ptr of None \<Rightarrow> Some (Inl UCI_ERR_INVAL)
           | Some i \<Rightarrow>
             (let item = (case ptr_o ptr of None \<Rightarrow> None
                 | Some j \<Rightarrow> (case (o_value (s_options (p_sections p ! i) ! j), ptr_value ptr) of
                     (UCI_LIST xs, Some (c # v)) \<Rightarrow> Some (j, xs, c # v) | _ \<Rightarrow> None))
              in case item of
                Some (j, xs, value) \<Rightarrow>
                  (case scan_int value of
                     None \<Rightarrow> if list_all isspace value then None else Some (Inr (1, ptr, p))
                   | Some (index, _) \<Rightarrow>
                       if 0 \<le> index \<and> index < int (length xs) then do {
                         p \<leftarrow> track_delta internal p UCI_CMD_REMOVE (ptr_section ptr) (ptr_option ptr) (ptr_value ptr);
                         Some (Inr (0, ptr, upd_section (\<lambda>s. s\<lparr>s_options := (s_options s)[j :=
                           (s_options s ! j)\<lparr>o_value := UCI_LIST (drop_nth (nat index) xs)\<rparr>]\<rparr>) i p))
                       } else Some (Inr (0, ptr, p)))
              | None \<Rightarrow> do {
                  p \<leftarrow> track_delta internal p UCI_CMD_REMOVE (ptr_section ptr) (ptr_option ptr) None;
                  let p = (case ptr_o ptr of Some j \<Rightarrow> upd_section (uci_free_option j) i p
                           | None \<Rightarrow> uci_free_section i p);
                  Some (Inr (0, if ptr_option ptr \<noteq> None then ptr\<lparr>ptr_o := None\<rparr>
                                else if ptr_section ptr \<noteq> None then ptr\<lparr>ptr_s := None\<rparr> else ptr, p))
                })))"

text \<open>\<open>uci_add_element_list\<close> on the list option \<open>j\<close> of section \<open>i\<close>.\<close>

definition append_item :: "string \<Rightarrow> uci_option \<Rightarrow> uci_option" where
  "append_item v x = (case o_value x of UCI_LIST xs \<Rightarrow> x\<lparr>o_value := UCI_LIST (xs @ [v])\<rparr> | _ \<Rightarrow> x)"

definition uci_add_element_list ::
  "bool \<Rightarrow> uci_package \<Rightarrow> uci_ptr \<Rightarrow> nat \<Rightarrow> nat \<Rightarrow> string \<Rightarrow> uci_package option" where
  "uci_add_element_list internal p ptr i j value = do {
     p \<leftarrow> track_delta internal p UCI_CMD_LIST_ADD (ptr_section ptr) (ptr_option ptr) (Some value);
     Some (upd_section (\<lambda>s. s\<lparr>s_options := (s_options s)[j := append_item value (s_options s ! j)]\<rparr>) i p)
   }"

definition uci_add_list :: "bool \<Rightarrow> uci_package \<Rightarrow> uci_ptr \<Rightarrow> uci_op" where
  "uci_add_list internal p ptr =
     (case uci_expand_ptr p ptr False of Inl e \<Rightarrow> Some (Inl e)
      | Inr ptr \<Rightarrow>
          (case (ptr_s ptr, ptr_value ptr) of
             (Some i, Some value) \<Rightarrow>
               (let prev = (case ptr_o ptr of None \<Rightarrow> None
                    | Some j \<Rightarrow> Some (j, o_value (s_options (p_sections p ! i) ! j)))
                in case prev of
                  Some (j, UCI_LIST xs) \<Rightarrow> do {
                    p \<leftarrow> uci_add_element_list internal p ptr i j value;
                    Some (Inr (0, ptr, p))
                  }
                | Some (j, UCI_STRING old) \<Rightarrow> do {
                    name \<leftarrow> ptr_option ptr;
                    let n = length (s_options (p_sections p ! i));
                    let p = upd_section (\<lambda>s. uci_alloc_list s name) i p;
                    p \<leftarrow> uci_add_element_list True p ptr i n old;
                    let p = upd_section (uci_free_option j) i p;
                    p \<leftarrow> uci_add_element_list internal p ptr i (n - 1) value;
                    Some (Inr (0, ptr\<lparr>ptr_o := Some (n - 1)\<rparr>, p))
                  }
                | None \<Rightarrow> do {
                    name \<leftarrow> ptr_option ptr;
                    let n = length (s_options (p_sections p ! i));
                    let p = upd_section (\<lambda>s. uci_alloc_list s name) i p;
                    p \<leftarrow> uci_add_element_list internal p ptr i n value;
                    Some (Inr (0, ptr\<lparr>ptr_o := Some n\<rparr>, p))
                  })
           | _ \<Rightarrow> Some (Inl UCI_ERR_INVAL)))"

definition uci_del_list :: "bool \<Rightarrow> uci_package \<Rightarrow> uci_ptr \<Rightarrow> uci_op" where
  "uci_del_list internal p ptr =
     (case uci_expand_ptr p ptr False of Inl e \<Rightarrow> Some (Inl e)
      | Inr ptr \<Rightarrow>
          (case (ptr_s ptr, ptr_value ptr) of
             (Some i, Some value) \<Rightarrow>
               (case (ptr_o ptr, ptr_option ptr) of
                  (Some j, Some name) \<Rightarrow>
                    (case o_value (s_options (p_sections p ! i) ! j) of
                       UCI_STRING _ \<Rightarrow> Some (Inr (0, ptr, p))
                     | UCI_LIST xs \<Rightarrow> do {
                         p \<leftarrow> track_delta internal p UCI_CMD_LIST_DEL (ptr_section ptr) (ptr_option ptr) (Some value);
                         Some (Inr (0, ptr, upd_section (\<lambda>s. s\<lparr>s_options := (s_options s)[j :=
                           (s_options s ! j)\<lparr>o_value := UCI_LIST (filter (\<lambda>x. x \<noteq> value) xs)\<rparr>]\<rparr>) i p))
                       })
                | _ \<Rightarrow> Some (Inr (0, ptr, p)))
           | _ \<Rightarrow> Some (Inl UCI_ERR_INVAL)))"

text \<open>\<open>uci_set\<close>: \<open>ctx->internal\<close> has been reset when it calls \<open>uci_delete\<close>, which therefore runs as
  a recorded change whatever the mode of \<open>uci_set\<close>.\<close>

definition uci_set_change :: "uci_package \<Rightarrow> uci_ptr \<Rightarrow> string \<Rightarrow> (bool \<times> uci_ptr \<times> uci_package) option" where
  "uci_set_change p ptr value =
     (case (ptr_s ptr, ptr_o ptr, ptr_section ptr, ptr_option ptr) of
        (Some i, None, _, Some opt) \<Rightarrow>
          (let n = length (s_options (p_sections p ! i))
           in Some (True, ptr\<lparr>ptr_o := Some n, ptr_last := Some (Elem_option i n)\<rparr>,
                    upd_section (\<lambda>s. uci_alloc_option s opt value) i p))
      | (None, _, Some name, None) \<Rightarrow>
          (let (i, p) = uci_alloc_section p value (Some name)
           in Some (True, ptr\<lparr>ptr_s := Some i, ptr_last := Some (Elem_section i)\<rparr>, p))
      | (Some i, Some j, _, Some opt) \<Rightarrow>
          (if o_value (s_options (p_sections p ! i) ! j) = UCI_STRING value then Some (False, ptr, p)
           else let n = length (s_options (p_sections p ! i)) - 1
           in Some (True, ptr\<lparr>ptr_o := Some n, ptr_last := Some (Elem_option i n)\<rparr>,
                    upd_section (\<lambda>s. uci_free_option j (uci_alloc_option s opt value)) i p))
      | (Some i, _, Some name, None) \<Rightarrow>
          Some (True, if s_inline (p_sections p ! i) then ptr\<lparr>ptr_last := Some (Elem_section i)\<rparr> else ptr,
                upd_section (\<lambda>s. s\<lparr>s_inline := False, s_type := value\<rparr>) i p)
      | _ \<Rightarrow> None)"

definition uci_set :: "bool \<Rightarrow> uci_package \<Rightarrow> uci_ptr \<Rightarrow> uci_op" where
  "uci_set internal p ptr =
     (case uci_expand_ptr p ptr False of Inl e \<Rightarrow> Some (Inl e)
      | Inr ptr \<Rightarrow>
          (case ptr_value ptr of None \<Rightarrow> Some (Inl UCI_ERR_INVAL)
           | Some value \<Rightarrow>
             if \<not> (ptr_s ptr \<noteq> None \<or> (ptr_option ptr = None \<and> ptr_section ptr \<noteq> None))
             then Some (Inl UCI_ERR_INVAL)
             else if ptr_option ptr = None \<and> value \<noteq> [] \<and> \<not> uci_validate_type value
             then Some (Inl UCI_ERR_INVAL)
             else let ptr = (case (ptr_o ptr, ptr_s ptr, ptr_option ptr) of
                 (None, Some i, Some opt) \<Rightarrow> ptr\<lparr>ptr_o := lookup_option (p_sections p ! i) opt\<rparr>
               | _ \<Rightarrow> ptr)
             in if value = [] then
                  if \<not> ptr_complete ptr then Some (Inr (0, ptr, p))
                  else uci_delete False p ptr
                else case uci_set_change p ptr value of
                  None \<Rightarrow> Some (Inl UCI_ERR_INVAL)
                | Some (changed, ptr, p) \<Rightarrow>
                    if \<not> changed then Some (Inr (0, ptr, p))
                    else do {
                      p \<leftarrow> track_delta internal p UCI_CMD_CHANGE (ptr_section ptr) (ptr_option ptr) (Some value);
                      Some (Inr (0, ptr, p))
                    }))"

section \<open>Lists with keys\<close>

text \<open>Sections and options are found by name in a list; with distinct names such a list is a
  finite map.  The operations of the library replace, remove and append elements.\<close>

locale keyed_list =
  fixes key :: "'a \<Rightarrow> string" and val :: "'a \<Rightarrow> 'v"
begin

definition to_map :: "'a list \<Rightarrow> string \<Rightarrow> 'v option" where
  "to_map xs = map_of (map (\<lambda>x. (key x, val x)) xs)"

lemma nth_key_neq: "i < length xs \<Longrightarrow> key y \<notin> key ` set xs \<Longrightarrow> key (xs ! i) \<noteq> key y"
  by (metis imageI nth_mem)

lemma to_map_append:
  assumes "key x \<notin> key ` set xs"
  shows "to_map (xs @ [x]) = (to_map xs)(key x \<mapsto> val x)"
proof -
  have "map_of (map (\<lambda>x. (key x, val x)) xs) (key x) = None"
    using assms by (force simp: map_of_eq_None_iff)
  then show ?thesis
    by (simp add: to_map_def fun_eq_iff map_add_def split: option.split)
qed

lemma to_map_update:
  assumes "distinct (map key xs)" "i < length xs" "key x = key (xs ! i)"
  shows "to_map (xs[i := x]) = (to_map xs)(key x \<mapsto> val x)"
  using assms
proof (induction xs arbitrary: i)
  case (Cons y xs)
  show ?case
  proof (cases i)
    case (Suc j)
    then have "key (xs ! j) \<noteq> key y" using Cons.prems nth_key_neq [of j xs y] by simp
    with Cons Suc show ?thesis by (auto simp: to_map_def fun_eq_iff)
  qed (use Cons in \<open>auto simp: to_map_def\<close>)
qed simp

lemma to_map_drop:
  assumes "distinct (map key xs)" "i < length xs"
  shows "to_map (drop_nth i xs) = (to_map xs)(key (xs ! i) := None)"
  using assms
proof (induction xs arbitrary: i)
  case (Cons y xs)
  show ?case
  proof (cases i)
    case 0
    have "map_of (map (\<lambda>x. (key x, val x)) xs) (key y) = None"
      using Cons.prems by (force simp: map_of_eq_None_iff)
    with 0 show ?thesis by (auto simp: to_map_def drop_nth_def fun_eq_iff)
  next
    case (Suc j)
    then have "key (xs ! j) \<noteq> key y" using Cons.prems nth_key_neq [of j xs y] by simp
    moreover have "drop_nth i (y # xs) = y # drop_nth j xs" using Suc by (simp add: drop_nth_def)
    ultimately show ?thesis using Cons Suc by (auto simp: to_map_def fun_eq_iff)
  qed
qed simp

lemma to_map_nth:
  assumes "distinct (map key xs)" "i < length xs"
  shows "to_map xs (key (xs ! i)) = Some (val (xs ! i))"
proof -
  have "(key (xs ! i), val (xs ! i)) \<in> set (map (\<lambda>x. (key x, val x)) xs)"
    using assms(2) by (force simp: in_set_conv_nth)
  with assms(1) show ?thesis by (simp add: to_map_def map_of_eq_Some_iff comp_def)
qed

lemma to_map_None: "to_map xs k = None \<longleftrightarrow> k \<notin> key ` set xs"
  by (force simp: to_map_def map_of_eq_None_iff)

lemma distinct_append: "distinct (map key xs) \<Longrightarrow> key x \<notin> key ` set xs \<Longrightarrow> distinct (map key (xs @ [x]))"
  by simp

lemma distinct_update:
  assumes "distinct (map key xs)" "i < length xs" "key x = key (xs ! i)"
  shows "distinct (map key (xs[i := x]))"
proof -
  have "map key (xs[i := x]) = map key xs"
    using assms(2,3) by (metis list_update_id map_update)
  with assms(1) show ?thesis by simp
qed

lemma set_drop_nth: "set (drop_nth i xs) \<subseteq> set xs"
  by (auto simp: drop_nth_def dest: in_set_takeD in_set_dropD)

lemma drop_nth_Cons: "drop_nth 0 (y # xs) = xs" "drop_nth (Suc i) (y # xs) = y # drop_nth i xs"
  by (simp_all add: drop_nth_def)

lemma distinct_drop: "distinct (map key xs) \<Longrightarrow> distinct (map key (drop_nth i xs))"
proof (induction xs arbitrary: i)
  case (Cons y xs)
  then show ?case
    using set_drop_nth [of "i - 1" xs] by (cases i) (auto simp: drop_nth_Cons)
qed (simp add: drop_nth_def)

lemma key_drop:
  assumes "distinct (map key xs)" "i < length xs"
  shows "key (xs ! i) \<notin> key ` set (drop_nth i xs)"
  using assms
proof (induction xs arbitrary: i)
  case (Cons y xs)
  show ?case
  proof (cases i)
    case (Suc j)
    then have "key (xs ! j) \<noteq> key y" using Cons.prems nth_key_neq [of j xs y] by simp
    with Cons Suc show ?thesis by (auto simp: drop_nth_Cons)
  qed (use Cons in \<open>simp add: drop_nth_Cons\<close>)
qed simp

lemma to_map_rename:
  assumes "distinct (map key xs)" "i < length xs" "key x \<notin> key ` set xs"
  shows "to_map (xs[i := x]) = (to_map xs)(key (xs ! i) := None, key x \<mapsto> val x)"
    and "distinct (map key (xs[i := x]))"
  using assms
proof (induction xs arbitrary: i)
  case (Cons y xs)
  case 1
  show ?case
  proof (cases i)
    case 0
    have "map_of (map (\<lambda>x. (key x, val x)) xs) (key y) = None"
      using 1 by (force simp: map_of_eq_None_iff)
    with 0 show ?thesis by (auto simp: to_map_def fun_eq_iff)
  next
    case (Suc j)
    then have "key (xs ! j) \<noteq> key y" using 1 nth_key_neq [of j xs y] by simp
    with Cons.IH(1) [of j] 1 Suc show ?thesis by (auto simp: to_map_def fun_eq_iff)
  qed
next
  case (Cons y xs)
  case 2
  show ?case
  proof (cases i)
    case (Suc j)
    with Cons.IH(2) [of j] 2 show ?thesis
      by (auto dest!: set_update_subset_insert [THEN subsetD])
  qed (use 2 in auto)
qed simp_all

end

interpretation opts: keyed_list o_name o_value .

interpretation secs: keyed_list "\<lambda>s. the (s_name s)" "\<lambda>s. (s_type s, opts.to_map (s_options s))" .

section \<open>The abstract configuration\<close>

text \<open>A configuration as a user sees it: each section name has a type and a map from option names
  to values.  \<open>spec_delta\<close> is what one recorded change means.\<close>

type_synonym config = "string \<Rightarrow> (string \<times> (string \<Rightarrow> uci_value option)) option"

definition abs_package :: "uci_package \<Rightarrow> config" where
  "abs_package p = secs.to_map (p_sections p)"

definition wf_section :: "uci_section \<Rightarrow> bool" where
  "wf_section s \<longleftrightarrow> s_name s \<noteq> None \<and> distinct (map o_name (s_options s))"

definition wf_package :: "uci_package \<Rightarrow> bool" where
  "wf_package p \<longleftrightarrow> list_all wf_section (p_sections p) \<and> distinct (map (\<lambda>s. the (s_name s)) (p_sections p))"

definition spec_options :: "string \<Rightarrow> ((string \<Rightarrow> uci_value option) \<Rightarrow> string \<Rightarrow> uci_value option) \<Rightarrow> config \<Rightarrow> config" where
  "spec_options sec f c = (case c sec of None \<Rightarrow> c | Some (ty, os) \<Rightarrow> c(sec \<mapsto> (ty, f os)))"

fun list_items :: "uci_value option \<Rightarrow> string list" where
  "list_items None = []"
| "list_items (Some (UCI_STRING v)) = [v]"
| "list_items (Some (UCI_LIST xs)) = xs"

fun spec_delta :: "uci_delta \<Rightarrow> config \<Rightarrow> config" where
  "spec_delta \<lparr>d_cmd = cmd, d_section = sec, d_option = opt, d_value = value\<rparr> c =
     (case (cmd, opt, value) of
        (UCI_CMD_CHANGE, Some x, Some v) \<Rightarrow> spec_options sec (\<lambda>os. os(x \<mapsto> UCI_STRING v)) c
      | (UCI_CMD_CHANGE, None, Some v) \<Rightarrow> c(sec \<mapsto> (v, case c sec of None \<Rightarrow> Map.empty | Some (_, os) \<Rightarrow> os))
      | (UCI_CMD_ADD, None, Some v) \<Rightarrow> c(sec \<mapsto> (v, case c sec of None \<Rightarrow> Map.empty | Some (_, os) \<Rightarrow> os))
      | (UCI_CMD_REMOVE, Some x, None) \<Rightarrow> spec_options sec (\<lambda>os. os(x := None)) c
      | (UCI_CMD_REMOVE, None, None) \<Rightarrow> c(sec := None)
      | (UCI_CMD_RENAME, Some x, Some v) \<Rightarrow> spec_options sec (\<lambda>os. os(x := None, v := os x)) c
      | (UCI_CMD_RENAME, None, Some v) \<Rightarrow> c(sec := None, v := c sec)
      | (UCI_CMD_LIST_ADD, Some x, Some v) \<Rightarrow>
          spec_options sec (\<lambda>os. os(x \<mapsto> UCI_LIST (list_items (os x) @ [v]))) c
      | (UCI_CMD_LIST_DEL, Some x, Some v) \<Rightarrow>
          spec_options sec (\<lambda>os. case os x of Some (UCI_LIST xs) \<Rightarrow>
              os(x \<mapsto> UCI_LIST (filter (\<lambda>y. y \<noteq> v) xs)) | _ \<Rightarrow> os) c
      | _ \<Rightarrow> c)"

section \<open>Well-formed packages\<close>

lemma lookup_list_Some:
  "uci_lookup_list nm xs name = Some i \<Longrightarrow> i < length xs \<and> nm (xs ! i) = Some name"
  by (induction xs arbitrary: i) (auto split: if_splits)

lemma lookup_list_None: "uci_lookup_list nm xs name = None \<longleftrightarrow> (\<forall>x \<in> set xs. nm x \<noteq> Some name)"
  by (induction xs) auto

lemma wf_nth: "wf_package p \<Longrightarrow> i < length (p_sections p) \<Longrightarrow> wf_section (p_sections p ! i)"
  by (auto simp: wf_package_def list_all_length)

lemma abs_section:
  assumes "wf_package p" "lookup_section p sec = Some i"
  shows "i < length (p_sections p)" "s_name (p_sections p ! i) = Some sec"
    "abs_package p sec = Some (s_type (p_sections p ! i), opts.to_map (s_options (p_sections p ! i)))"
proof -
  show *: "i < length (p_sections p)" "s_name (p_sections p ! i) = Some sec"
    using lookup_list_Some [OF assms(2)] by simp_all
  show "abs_package p sec = Some (s_type (p_sections p ! i), opts.to_map (s_options (p_sections p ! i)))"
    using secs.to_map_nth [of "p_sections p" i] assms(1) * by (simp add: abs_package_def wf_package_def)
qed

lemma no_section:
  assumes "wf_package p" "lookup_section p sec = None"
  shows "sec \<notin> (\<lambda>s. the (s_name s)) ` set (p_sections p)" "abs_package p sec = None"
proof -
  show *: "sec \<notin> (\<lambda>s. the (s_name s)) ` set (p_sections p)"
    using assms by (auto simp: lookup_list_None wf_package_def wf_section_def list_all_iff)
  then show "abs_package p sec = None" by (simp add: abs_package_def secs.to_map_None)
qed

text \<open>Replacing a section by one of the same name.\<close>

lemma upd_section_abs:
  assumes "wf_package p" "lookup_section p sec = Some i"
    and "s_name (f (p_sections p ! i)) = Some sec" "distinct (map o_name (s_options (f (p_sections p ! i))))"
  shows "wf_package (upd_section f i p)"
    "abs_package (upd_section f i p) = (abs_package p)(sec \<mapsto>
       (s_type (f (p_sections p ! i)), opts.to_map (s_options (f (p_sections p ! i)))))"
proof -
  note i = abs_section [OF assms(1,2)]
  have "list_all wf_section ((p_sections p)[i := f (p_sections p ! i)])"
    using assms by (auto simp: wf_package_def wf_section_def list_all_iff dest!: set_update_subset_insert [THEN subsetD])
  then show "wf_package (upd_section f i p)"
    using secs.distinct_update [of "p_sections p" i "f (p_sections p ! i)"] i assms(1,3)
    by (simp add: wf_package_def)
  show "abs_package (upd_section f i p) = (abs_package p)(sec \<mapsto>
       (s_type (f (p_sections p ! i)), opts.to_map (s_options (f (p_sections p ! i)))))"
    using secs.to_map_update [of "p_sections p" i "f (p_sections p ! i)"] i assms(1,3)
    by (simp add: abs_package_def wf_package_def)
qed

lemma upd_section_other [simp]:
  "p_delta (upd_section f i p) = p_delta p" "p_name (upd_section f i p) = p_name p"
  "p_has_delta (upd_section f i p) = p_has_delta p"
  by simp_all

text \<open>A pointer with plain names that has not been looked up yet, and what looking it up gives.\<close>

definition plain_ptr :: "uci_ptr \<Rightarrow> string \<Rightarrow> string option \<Rightarrow> string option \<Rightarrow> bool" where
  "plain_ptr ptr sec opt value \<longleftrightarrow> \<not> ptr_done ptr \<and> \<not> ptr_complete ptr \<and> \<not> ptr_extended ptr \<and>
     ptr_s ptr = None \<and> ptr_o ptr = None \<and> ptr_section ptr = Some sec \<and> ptr_option ptr = opt \<and>
     ptr_value ptr = value"

lemma expand_plain:
  assumes "plain_ptr ptr sec opt value"
  obtains ptr' where "uci_expand_ptr p ptr complete =
      (if complete \<and> \<not> ptr_complete ptr' then Inl UCI_ERR_NOTFOUND else Inr ptr')"
    "ptr_done ptr'" "ptr_section ptr' = Some sec" "ptr_option ptr' = opt" "ptr_value ptr' = value"
    "ptr_s ptr' = lookup_section p sec"
    "ptr_o ptr' = (case (lookup_section p sec, opt) of
       (Some i, Some x) \<Rightarrow> lookup_option (p_sections p ! i) x | _ \<Rightarrow> None)"
    "ptr_complete ptr' \<longleftrightarrow> ptr_s ptr' \<noteq> None \<and> (opt \<noteq> None \<longrightarrow> ptr_o ptr' \<noteq> None)"
    "ptr_last ptr' \<noteq> None"
proof -
  obtain ptr' where "uci_lookup_ptr p ptr True = Inr ptr'" "ptr_done ptr'" "ptr_section ptr' = Some sec"
    "ptr_option ptr' = opt" "ptr_value ptr' = value" "ptr_s ptr' = lookup_section p sec"
    "ptr_o ptr' = (case (lookup_section p sec, opt) of
       (Some i, Some x) \<Rightarrow> lookup_option (p_sections p ! i) x | _ \<Rightarrow> None)"
    "ptr_complete ptr' \<longleftrightarrow> ptr_s ptr' \<noteq> None \<and> (opt \<noteq> None \<longrightarrow> ptr_o ptr' \<noteq> None)"
    "ptr_last ptr' \<noteq> None"
    using assms by (fastforce simp: uci_lookup_ptr_def uci_lookup_section_def plain_ptr_def Let_def
        split: option.splits)
  with assms show thesis
    by (intro that [of "ptr'\<lparr>ptr_package := (if ptr_package ptr' = None then Some (p_name p) else ptr_package ptr')\<rparr>"])
      (auto simp: uci_expand_ptr_def plain_ptr_def split: option.splits)
qed

section \<open>The operations implement the recorded changes\<close>

lemma abs_option:
  assumes "wf_section s" "lookup_option s x = Some j"
  shows "j < length (s_options s)" "o_name (s_options s ! j) = x"
    "opts.to_map (s_options s) x = Some (o_value (s_options s ! j))"
proof -
  show *: "j < length (s_options s)" "o_name (s_options s ! j) = x"
    using lookup_list_Some [OF assms(2)] by simp_all
  show "opts.to_map (s_options s) x = Some (o_value (s_options s ! j))"
    using opts.to_map_nth [of "s_options s" j] assms(1) * by (simp add: wf_section_def)
qed

lemma no_option:
  assumes "lookup_option s x = None"
  shows "x \<notin> o_name ` set (s_options s)" "opts.to_map (s_options s) x = None"
proof -
  show *: "x \<notin> o_name ` set (s_options s)" using assms by (auto simp: lookup_list_None)
  then show "opts.to_map (s_options s) x = None" by (simp add: opts.to_map_None)
qed

lemma drop_nth_append: "j < length xs \<Longrightarrow> drop_nth j (xs @ [x]) = drop_nth j xs @ [x]"
  by (simp add: drop_nth_def)

text \<open>The three changes of a section's options: append, replace by an option at the end, and
  replace in place.\<close>

lemma option_append:
  assumes "wf_section s" "lookup_option s x = None"
  shows "distinct (map o_name (s_options s @ [\<lparr>o_name = x, o_value = v\<rparr>]))"
    "opts.to_map (s_options s @ [\<lparr>o_name = x, o_value = v\<rparr>]) = (opts.to_map (s_options s))(x \<mapsto> v)"
  using no_option [OF assms(2)] assms(1) opts.to_map_append [of "\<lparr>o_name = x, o_value = v\<rparr>" "s_options s"]
  by (simp_all add: wf_section_def)

lemma option_move:
  assumes "wf_section s" "lookup_option s x = Some j"
  shows "distinct (map o_name (drop_nth j (s_options s) @ [\<lparr>o_name = x, o_value = v\<rparr>]))"
    "opts.to_map (drop_nth j (s_options s) @ [\<lparr>o_name = x, o_value = v\<rparr>]) = (opts.to_map (s_options s))(x \<mapsto> v)"
proof -
  note j = abs_option [OF assms]
  have d: "distinct (map o_name (s_options s))" using assms(1) by (simp add: wf_section_def)
  have x: "x \<notin> o_name ` set (drop_nth j (s_options s))" using opts.key_drop [OF d j(1)] j(2) by simp
  with opts.distinct_drop [OF d, of j]
  show "distinct (map o_name (drop_nth j (s_options s) @ [\<lparr>o_name = x, o_value = v\<rparr>]))" by simp
  show "opts.to_map (drop_nth j (s_options s) @ [\<lparr>o_name = x, o_value = v\<rparr>]) =
      (opts.to_map (s_options s))(x \<mapsto> v)"
    using opts.to_map_append [of "\<lparr>o_name = x, o_value = v\<rparr>" "drop_nth j (s_options s)"] x
      opts.to_map_drop [OF d j(1)] j(2) by simp
qed

lemma option_replace:
  assumes "wf_section s" "lookup_option s x = Some j"
  shows "distinct (map o_name ((s_options s)[j := (s_options s ! j)\<lparr>o_value := v\<rparr>]))"
    "opts.to_map ((s_options s)[j := (s_options s ! j)\<lparr>o_value := v\<rparr>]) = (opts.to_map (s_options s))(x \<mapsto> v)"
proof -
  note j = abs_option [OF assms]
  have d: "distinct (map o_name (s_options s))" using assms(1) by (simp add: wf_section_def)
  show "distinct (map o_name ((s_options s)[j := (s_options s ! j)\<lparr>o_value := v\<rparr>]))"
    using opts.distinct_update [OF d j(1)] by simp
  show "opts.to_map ((s_options s)[j := (s_options s ! j)\<lparr>o_value := v\<rparr>]) = (opts.to_map (s_options s))(x \<mapsto> v)"
    using opts.to_map_update [OF d j(1), of "(s_options s ! j)\<lparr>o_value := v\<rparr>"] j(2) by simp
qed

lemma alloc_section_abs:
  assumes "wf_package p" "lookup_section p sec = None" "sec \<noteq> []"
  shows "wf_package (snd (uci_alloc_section p ty (Some sec)))"
    "abs_package (snd (uci_alloc_section p ty (Some sec))) = (abs_package p)(sec \<mapsto> (ty, Map.empty))"
proof -
  note n = no_section [OF assms(1,2)]
  define s where "s = \<lparr>s_name = Some sec, s_type = ty, s_anonymous = False, s_inline = True, s_options = []\<rparr>"
  have sec: "p_sections (snd (uci_alloc_section p ty (Some sec))) = p_sections p @ [s]"
    using assms(3) by (simp add: uci_alloc_section_def s_def)
  show "wf_package (snd (uci_alloc_section p ty (Some sec)))"
    using assms(1) n(1) by (simp add: wf_package_def sec wf_section_def) (simp add: s_def)
  show "abs_package (snd (uci_alloc_section p ty (Some sec))) = (abs_package p)(sec \<mapsto> (ty, Map.empty))"
    using secs.to_map_append [of s "p_sections p"] n(1)
    by (simp add: abs_package_def sec) (simp add: s_def opts.to_map_def)
qed

text \<open>The record of a change in the package's delta list.\<close>

definition recorded :: "bool \<Rightarrow> uci_package \<Rightarrow> uci_delta \<Rightarrow> uci_delta list" where
  "recorded internal p d = (if \<not> internal \<and> p_has_delta p then p_delta p @ [d] else p_delta p)"

lemma track_delta_Some:
  "track_delta internal p cmd (Some sec) opt value = Some (p\<lparr>p_delta := recorded internal p
     \<lparr>d_cmd = cmd, d_section = sec, d_option = opt, d_value = value\<rparr>\<rparr>)"
  by (simp add: track_delta_def recorded_def uci_add_delta_def)

lemma abs_delta [simp]: "abs_package (p\<lparr>p_delta := d\<rparr>) = abs_package p" "wf_package (p\<lparr>p_delta := d\<rparr>) = wf_package p"
  by (simp_all add: abs_package_def wf_package_def)

text \<open>Setting an option of an existing section.\<close>

lemma uci_set_option_step:
  assumes wf: "wf_package p" and i: "lookup_section p sec = Some i"
    and ptr: "ptr_s ptr = Some i" "ptr_option ptr = Some x" "ptr_section ptr = Some sec"
      "ptr_o ptr = lookup_option (p_sections p ! i) x"
  obtains ptr' p' where "uci_set_change p ptr v = Some (
      opts.to_map (s_options (p_sections p ! i)) x \<noteq> Some (UCI_STRING v), ptr', p')"
    "ptr_section ptr' = Some sec" "ptr_option ptr' = Some x" "p_has_delta p' = p_has_delta p"
    "p_delta p' = p_delta p" "wf_package p'"
    "abs_package p' = (abs_package p)(sec \<mapsto> (s_type (p_sections p ! i),
       (opts.to_map (s_options (p_sections p ! i)))(x \<mapsto> UCI_STRING v)))"
proof -
  let ?s = "p_sections p ! i"
  note sc = abs_section [OF wf i]
  have ws: "wf_section ?s" using wf_nth [OF wf sc(1)] .
  show thesis
  proof (cases "lookup_option ?s x")
    case None
    note op = option_append [OF ws None] no_option [OF None]
    show thesis
      using upd_section_abs [OF wf i, of "\<lambda>s. uci_alloc_option s x v"] sc(2) op ptr None
      by (intro that [of "ptr\<lparr>ptr_o := Some (length (s_options ?s)), ptr_last := Some (Elem_option i (length (s_options ?s)))\<rparr>"
            "upd_section (\<lambda>s. uci_alloc_option s x v) i p"])
        (simp_all add: uci_set_change_def uci_alloc_option_def Let_def)
  next
    case (Some j)
    note op = option_move [OF ws Some] abs_option [OF ws Some]
    show thesis
    proof (cases "o_value (s_options ?s ! j) = UCI_STRING v")
      case True
      have "(opts.to_map (s_options ?s))(x \<mapsto> UCI_STRING v) = opts.to_map (s_options ?s)"
        using op(5) True by (simp add: fun_upd_idem)
      then have "(abs_package p)(sec \<mapsto> (s_type ?s, (opts.to_map (s_options ?s))(x \<mapsto> UCI_STRING v))) = abs_package p"
        using sc(3) by (simp add: fun_upd_idem)
      then show thesis using ptr Some True op(5) wf
        by (intro that [of ptr p]) (simp_all add: uci_set_change_def)
    next
      case False
      let ?f = "\<lambda>s. uci_free_option j (uci_alloc_option s x v)"
      have f: "s_options (?f ?s) = drop_nth j (s_options ?s) @ [\<lparr>o_name = x, o_value = UCI_STRING v\<rparr>]"
        "s_name (?f ?s) = s_name ?s" "s_type (?f ?s) = s_type ?s"
        using op(3) by (simp_all add: uci_free_option_def uci_alloc_option_def drop_nth_append)
      let ?n = "length (s_options ?s) - 1"
      show thesis
        using upd_section_abs [OF wf i, of ?f] sc(2) op f ptr Some False
        by (intro that [of "ptr\<lparr>ptr_o := Some ?n, ptr_last := Some (Elem_option i ?n)\<rparr>" "upd_section ?f i p"])
          (simp_all add: uci_set_change_def Let_def)
    qed
  qed
qed

text \<open>Setting the type of a section, which creates it when it is not there.\<close>

lemma uci_set_section_step:
  assumes wf: "wf_package p" and "sec \<noteq> []"
    and ptr: "ptr_s ptr = lookup_section p sec" "ptr_option ptr = None" "ptr_section ptr = Some sec"
      "ptr_o ptr = None"
  obtains ptr' p' where "uci_set_change p ptr v = Some (True, ptr', p')"
    "ptr_section ptr' = Some sec" "ptr_option ptr' = None" "p_has_delta p' = p_has_delta p"
    "p_delta p' = p_delta p" "wf_package p'"
    "abs_package p' = (abs_package p)(sec \<mapsto> (v, case abs_package p sec of None \<Rightarrow> Map.empty | Some (_, os) \<Rightarrow> os))"
proof (cases "lookup_section p sec")
  case None
  let ?a = "uci_alloc_section p v (Some sec)"
  note n = alloc_section_abs [OF wf None assms(2), of v] no_section [OF wf None]
  have "p_delta (snd ?a) = p_delta p" "p_has_delta (snd ?a) = p_has_delta p"
    by (simp_all add: uci_alloc_section_def)
  with n ptr None show thesis
    by (intro that [of "ptr\<lparr>ptr_s := Some (fst ?a), ptr_last := Some (Elem_section (fst ?a))\<rparr>" "snd ?a"])
      (simp_all add: uci_set_change_def split: prod.splits)
next
  case (Some i)
  let ?s = "p_sections p ! i" and ?f = "\<lambda>s. s\<lparr>s_inline := False, s_type := v\<rparr>"
  note sc = abs_section [OF wf Some]
  have ws: "wf_section ?s" using wf_nth [OF wf sc(1)] .
  show thesis
    using upd_section_abs [OF wf Some, of ?f] sc ws ptr Some
    by (intro that [of "if s_inline ?s then ptr\<lparr>ptr_last := Some (Elem_section i)\<rparr> else ptr" "upd_section ?f i p"])
      (simp_all add: uci_set_change_def wf_section_def)
qed

lemma uci_set_step:
  assumes wf: "wf_package p" and ptr: "plain_ptr ptr sec opt (Some v)" and v: "v \<noteq> []" "sec \<noteq> []"
    and ty: "opt = None \<longrightarrow> uci_validate_type v" and ex: "opt \<noteq> None \<longrightarrow> lookup_section p sec \<noteq> None"
  shows "\<exists>ptr' p'. uci_set internal p ptr = Some (Inr (0, ptr', p')) \<and> wf_package p' \<and>
    abs_package p' = spec_delta \<lparr>d_cmd = UCI_CMD_CHANGE, d_section = sec, d_option = opt, d_value = Some v\<rparr> (abs_package p) \<and>
    p_delta p' = (if \<exists>x ty os. opt = Some x \<and> abs_package p sec = Some (ty, os) \<and> os x = Some (UCI_STRING v)
      then p_delta p else recorded internal p
        \<lparr>d_cmd = UCI_CMD_CHANGE, d_section = sec, d_option = opt, d_value = Some v\<rparr>)"
proof -
  obtain q where q: "uci_expand_ptr p ptr False = Inr q" "ptr_section q = Some sec" "ptr_option q = opt"
    "ptr_value q = Some v" "ptr_s q = lookup_section p sec"
    "ptr_o q = (case (lookup_section p sec, opt) of
       (Some i, Some x) \<Rightarrow> lookup_option (p_sections p ! i) x | _ \<Rightarrow> None)"
    by (rule expand_plain [OF ptr, of p False]) simp
  show ?thesis
  proof (cases opt)
    case None
    have "ptr_o q = None" using q(6) None by (simp split: option.splits)
    from uci_set_section_step [OF wf v(2) q(5) q(3) [unfolded None] q(2) this, of v]
    obtain r p' where r: "uci_set_change p q v = Some (True, r, p')" "ptr_section r = Some sec"
      "ptr_option r = None" "p_has_delta p' = p_has_delta p" "p_delta p' = p_delta p" "wf_package p'"
      "abs_package p' = (abs_package p)(sec \<mapsto> (v, case abs_package p sec of None \<Rightarrow> Map.empty | Some (_, os) \<Rightarrow> os))" .
    with q None v ty show ?thesis
      by (auto simp: uci_set_def track_delta_Some recorded_def split: option.splits)
  next
    case (Some x)
    then obtain i where i: "lookup_section p sec = Some i" using ex by auto
    let ?s = "p_sections p ! i"
    have "ptr_o q = lookup_option ?s x" using q(6) i Some by simp
    from uci_set_option_step [OF wf i q(5) [unfolded i] q(3) [unfolded Some] q(2) this, of v]
    obtain r p' where r: "uci_set_change p q v = Some (opts.to_map (s_options ?s) x \<noteq> Some (UCI_STRING v), r, p')"
      "ptr_section r = Some sec" "ptr_option r = Some x" "p_has_delta p' = p_has_delta p"
      "p_delta p' = p_delta p" "wf_package p'"
      "abs_package p' = (abs_package p)(sec \<mapsto> (s_type ?s, (opts.to_map (s_options ?s))(x \<mapsto> UCI_STRING v)))" .
    have same: "(case (ptr_o q, ptr_s q, ptr_option q) of
        (None, Some i, Some opt) \<Rightarrow> q\<lparr>ptr_o := lookup_option (p_sections p ! i) opt\<rparr> | _ \<Rightarrow> q) = q"
      using \<open>ptr_o q = lookup_option ?s x\<close> q(3,5) i Some by (auto split: option.splits)
    have set: "uci_set internal p ptr = (if opts.to_map (s_options ?s) x = Some (UCI_STRING v)
        then Some (Inr (0, r, p')) else do {
          p \<leftarrow> track_delta internal p' UCI_CMD_CHANGE (ptr_section r) (ptr_option r) (Some v);
          Some (Inr (0, r, p)) })"
      unfolding uci_set_def q(1) sum.case q(4) option.case Let_def same r(1)
      using q(3,5) i Some v by simp
    show ?thesis unfolding set r(2,3) track_delta_Some
      using r(4-7) Some abs_section(3) [OF wf i]
      by (cases "opts.to_map (s_options ?s) x = Some (UCI_STRING v)")
        (auto simp: spec_options_def recorded_def)
  qed
qed

text \<open>C10: \<open>uci_set\<close> with a non-empty value implements the change on the abstract configuration:
  it sets an option of an existing section, or the type of a section, which it creates when
  needed; names stay unique; and outside internal mode a package with delta tracking records
  exactly this change, unless the option already has the value.\<close>

theorem uci_set_refines:
  assumes wf: "wf_package p" and ptr: "plain_ptr ptr sec opt (Some v)" and v: "v \<noteq> []" "sec \<noteq> []"
    and ty: "opt = None \<longrightarrow> uci_validate_type v" and ex: "opt \<noteq> None \<longrightarrow> lookup_section p sec \<noteq> None"
  shows "\<exists>ptr' p'. uci_set internal p ptr = Some (Inr (0, ptr', p')) \<and> wf_package p' \<and>
    abs_package p' = spec_delta \<lparr>d_cmd = UCI_CMD_CHANGE, d_section = sec, d_option = opt, d_value = Some v\<rparr> (abs_package p) \<and>
    p_delta p' = (if \<exists>x ty os. opt = Some x \<and> abs_package p sec = Some (ty, os) \<and> os x = Some (UCI_STRING v)
      then p_delta p else recorded internal p
        \<lparr>d_cmd = UCI_CMD_CHANGE, d_section = sec, d_option = opt, d_value = Some v\<rparr>)"
  by (rule uci_set_step [OF assms])

text \<open>A package for the witnesses: one section with a string and a list.\<close>

definition demo_package :: uci_package where
  "demo_package = (uci_alloc_package ''net'')\<lparr>p_has_delta := True, p_n_section := 1, p_sections :=
     [\<lparr>s_name = Some ''lan'', s_type = ''if'', s_anonymous = False, s_inline = True, s_options =
        [\<lparr>o_name = ''ip'', o_value = UCI_STRING ''a''\<rparr>, \<lparr>o_name = ''dns'', o_value = UCI_LIST [''b'', ''c'']\<rparr>]\<rparr>]\<rparr>"

lemma demo_wf: "wf_package demo_package"
  by (simp add: demo_package_def wf_package_def wf_section_def uci_alloc_package_def)

lemma demo_lookup: "lookup_section demo_package ''lan'' = Some 0"
  by (simp add: demo_package_def)

lemma demo_abs: "abs_package demo_package = [''lan'' \<mapsto> (''if'',
    [''dns'' \<mapsto> UCI_LIST [''b'', ''c''], ''ip'' \<mapsto> UCI_STRING ''a''])]"
  by (simp add: abs_package_def secs.to_map_def demo_package_def) (simp add: opts.to_map_def)

abbreviation demo_ptr :: "string option \<Rightarrow> string option \<Rightarrow> uci_ptr" where
  "demo_ptr opt v \<equiv> ptr_zero\<lparr>ptr_section := Some ''lan'', ptr_option := opt, ptr_value := v\<rparr>"

lemma demo_plain: "plain_ptr (demo_ptr opt v) ''lan'' opt v"
  by (simp add: plain_ptr_def ptr_zero_def)

theorem uci_set_refines_witness:
  "\<exists>ptr' p'. uci_set False demo_package (demo_ptr (Some ''ip'') (Some ''z'')) = Some (Inr (0, ptr', p')) \<and>
     wf_package p' \<and> length (p_delta p') = 1"
  using uci_set_refines [OF demo_wf demo_plain [where opt = "Some ''ip''" and v = "Some ''z''"], of False]
    demo_lookup demo_abs
  by (auto simp: recorded_def) (auto simp: demo_package_def uci_alloc_package_def)

lemma uci_delete_step:
  assumes wf: "wf_package p" and ptr: "plain_ptr ptr sec opt None"
  defines "d \<equiv> \<lparr>d_cmd = UCI_CMD_REMOVE, d_section = sec, d_option = opt, d_value = None\<rparr>"
    and "ex \<equiv> (case abs_package p sec of None \<Rightarrow> False
      | Some (ty, os) \<Rightarrow> (case opt of None \<Rightarrow> True | Some x \<Rightarrow> os x \<noteq> None))"
  shows "if ex then \<exists>ptr' p'. uci_delete internal p ptr = Some (Inr (0, ptr', p')) \<and> wf_package p' \<and>
      abs_package p' = spec_delta d (abs_package p) \<and> p_delta p' = recorded internal p d
    else uci_delete internal p ptr = Some (Inl UCI_ERR_NOTFOUND)"
proof -
  obtain q where q: "uci_expand_ptr p ptr True = (if True \<and> \<not> ptr_complete q then Inl UCI_ERR_NOTFOUND else Inr q)"
    "ptr_section q = Some sec" "ptr_option q = opt" "ptr_value q = None" "ptr_s q = lookup_section p sec"
    "ptr_o q = (case (lookup_section p sec, opt) of
       (Some i, Some x) \<Rightarrow> lookup_option (p_sections p ! i) x | _ \<Rightarrow> None)"
    "ptr_complete q \<longleftrightarrow> ptr_s q \<noteq> None \<and> (opt \<noteq> None \<longrightarrow> ptr_o q \<noteq> None)"
    by (rule expand_plain [OF ptr, of p True])
  show ?thesis
  proof (cases "lookup_section p sec")
    case None
    with no_section [OF wf] q show ?thesis by (simp add: ex_def uci_delete_def)
  next
    case (Some i)
    let ?s = "p_sections p ! i"
    note sc = abs_section [OF wf Some]
    have ws: "wf_section ?s" using wf_nth [OF wf sc(1)] .
    have ds: "distinct (map (\<lambda>s. the (s_name s)) (p_sections p))" "list_all wf_section (p_sections p)"
      using wf by (simp_all add: wf_package_def)
    show ?thesis
    proof (cases opt)
      case None
      have "abs_package (uci_free_section i p) = (abs_package p)(sec := None)"
        using secs.to_map_drop [OF ds(1) sc(1)] sc(2) by (simp add: abs_package_def uci_free_section_def)
      moreover have "wf_package (uci_free_section i p)"
        using secs.distinct_drop [OF ds(1)] ds(2) secs.set_drop_nth
        by (fastforce simp: wf_package_def uci_free_section_def list_all_iff)
      ultimately show ?thesis using q sc Some None
        by (auto simp: ex_def d_def uci_delete_def track_delta_Some uci_free_section_def abs_package_def wf_package_def)
    next
      case o: (Some x)
      show ?thesis
      proof (cases "lookup_option ?s x")
        case None
        with no_option [OF this] q sc Some o show ?thesis by (simp add: ex_def uci_delete_def)
      next
        case j: (Some j)
        note op = abs_option [OF ws j]
        have do: "distinct (map o_name (s_options ?s))" using ws by (simp add: wf_section_def)
        show ?thesis
          using upd_section_abs [OF wf Some, of "uci_free_option j"] q sc Some o j op ws
            opts.to_map_drop [OF do op(1)] opts.distinct_drop [OF do, of j]
          by (auto simp: ex_def d_def uci_delete_def track_delta_Some uci_free_option_def spec_options_def
              abs_package_def wf_package_def split: uci_value.splits)
      qed
    qed
  qed
qed

text \<open>C11: \<open>uci_delete\<close> of an option or a section by name removes it from the abstract
  configuration, keeps names unique and records the removal; when the option or section does not
  exist it throws \<open>UCI_ERR_NOTFOUND\<close>.\<close>

theorem uci_delete_refines:
  assumes wf: "wf_package p" and ptr: "plain_ptr ptr sec opt None"
  defines "d \<equiv> \<lparr>d_cmd = UCI_CMD_REMOVE, d_section = sec, d_option = opt, d_value = None\<rparr>"
    and "ex \<equiv> (case abs_package p sec of None \<Rightarrow> False
      | Some (ty, os) \<Rightarrow> (case opt of None \<Rightarrow> True | Some x \<Rightarrow> os x \<noteq> None))"
  shows "if ex then \<exists>ptr' p'. uci_delete internal p ptr = Some (Inr (0, ptr', p')) \<and> wf_package p' \<and>
      abs_package p' = spec_delta d (abs_package p) \<and> p_delta p' = recorded internal p d
    else uci_delete internal p ptr = Some (Inl UCI_ERR_NOTFOUND)"
  unfolding d_def ex_def by (rule uci_delete_step [OF wf ptr])

theorem uci_delete_refines_witness:
  "\<exists>ptr' p'. uci_delete False demo_package (demo_ptr (Some ''ip'') None) = Some (Inr (0, ptr', p')) \<and>
     wf_package p' \<and> length (p_delta p') = 1"
  using uci_delete_refines [OF demo_wf demo_plain [where opt = "Some ''ip''" and v = None], of False] demo_abs
  by (auto simp: recorded_def) (auto simp: demo_package_def uci_alloc_package_def)

lemma uci_add_list_step:
  assumes wf: "wf_package p" and ptr: "plain_ptr ptr sec (Some x) (Some v)"
    and i: "lookup_section p sec = Some i"
  defines "d \<equiv> \<lparr>d_cmd = UCI_CMD_LIST_ADD, d_section = sec, d_option = Some x, d_value = Some v\<rparr>"
  shows "\<exists>ptr' p'. uci_add_list internal p ptr = Some (Inr (0, ptr', p')) \<and> wf_package p' \<and>
      abs_package p' = spec_delta d (abs_package p) \<and> p_delta p' = recorded internal p d"
proof -
  obtain q where q: "uci_expand_ptr p ptr False = Inr q" "ptr_section q = Some sec" "ptr_option q = Some x"
    "ptr_value q = Some v" "ptr_s q = lookup_section p sec"
    "ptr_o q = (case (lookup_section p sec, Some x) of
       (Some i, Some x) \<Rightarrow> lookup_option (p_sections p ! i) x | _ \<Rightarrow> None)"
    by (rule expand_plain [OF ptr, of p False]) simp
  let ?s = "p_sections p ! i"
  note sc = abs_section [OF wf i]
  have ws: "wf_section ?s" using wf_nth [OF wf sc(1)] .
  show ?thesis
  proof (cases "lookup_option ?s x")
    case None
    let ?n = "length (s_options ?s)"
    let ?f = "\<lambda>s. s\<lparr>s_options := (s_options (uci_alloc_list s x))[?n := append_item v (s_options (uci_alloc_list s x) ! ?n)]\<rparr>"
    have f: "s_options (?f ?s) = s_options ?s @ [\<lparr>o_name = x, o_value = UCI_LIST [v]\<rparr>]"
      by (simp add: uci_alloc_list_def append_item_def)
    show ?thesis
      using upd_section_abs [OF wf i, of ?f] f option_append [OF ws None] no_option [OF None] q sc None i
      by (auto simp: uci_add_list_def uci_add_element_list_def track_delta_Some d_def spec_options_def
          uci_alloc_list_def abs_package_def wf_package_def recorded_def)
  next
    case (Some j)
    note op = abs_option [OF ws Some]
    show ?thesis
    proof (cases "o_value (s_options ?s ! j)")
      case (UCI_LIST xs)
      let ?f = "\<lambda>s. s\<lparr>s_options := (s_options s)[j := append_item v (s_options s ! j)]\<rparr>"
      have f: "s_options (?f ?s) = (s_options ?s)[j := (s_options ?s ! j)\<lparr>o_value := UCI_LIST (xs @ [v])\<rparr>]"
        using UCI_LIST by (simp add: append_item_def)
      show ?thesis
        using upd_section_abs [OF wf i, of ?f] f option_replace [OF ws Some] op q sc Some i UCI_LIST
        by (auto simp: uci_add_list_def uci_add_element_list_def track_delta_Some d_def spec_options_def
            abs_package_def wf_package_def recorded_def)
    next
      case (UCI_STRING old)
      let ?f = "\<lambda>s. s\<lparr>s_options := drop_nth j (s_options s) @ [\<lparr>o_name = x, o_value = UCI_LIST [old, v]\<rparr>]\<rparr>"
      have n: "length (s_options ?s) - Suc 0 = length (drop_nth j (s_options ?s))"
        using op(1) by (simp add: drop_nth_def)
      show ?thesis
        using upd_section_abs [OF wf i, of ?f] option_move [OF ws Some] op q sc Some i UCI_STRING
        by (auto simp: uci_add_list_def uci_add_element_list_def track_delta_Some d_def spec_options_def
            abs_package_def wf_package_def recorded_def uci_alloc_list_def uci_free_option_def append_item_def
            drop_nth_append n)
    qed
  qed
qed

text \<open>\<open>uci_add_list\<close> appends the value to a list option, turns a string option into a list
  of its old value and the new one, and creates a one-element list when the option is missing;
  it records one change.\<close>

theorem uci_add_list_refines:
  assumes wf: "wf_package p" and ptr: "plain_ptr ptr sec (Some x) (Some v)"
    and i: "lookup_section p sec = Some i"
  defines "d \<equiv> \<lparr>d_cmd = UCI_CMD_LIST_ADD, d_section = sec, d_option = Some x, d_value = Some v\<rparr>"
  shows "\<exists>ptr' p'. uci_add_list internal p ptr = Some (Inr (0, ptr', p')) \<and> wf_package p' \<and>
      abs_package p' = spec_delta d (abs_package p) \<and> p_delta p' = recorded internal p d"
  unfolding d_def by (rule uci_add_list_step [OF wf ptr i])

theorem uci_add_list_refines_witness:
  "\<exists>ptr' p'. uci_add_list False demo_package (demo_ptr (Some ''ip'') (Some ''z'')) = Some (Inr (0, ptr', p')) \<and>
     wf_package p' \<and> length (p_delta p') = 1"
  using uci_add_list_refines [OF demo_wf demo_plain [where opt = "Some ''ip''" and v = "Some ''z''"] demo_lookup, of False]
  by (auto simp: recorded_def) (auto simp: demo_package_def uci_alloc_package_def)

lemma uci_del_list_step:
  assumes wf: "wf_package p" and ptr: "plain_ptr ptr sec (Some x) (Some v)"
    and i: "lookup_section p sec = Some i"
  defines "d \<equiv> \<lparr>d_cmd = UCI_CMD_LIST_DEL, d_section = sec, d_option = Some x, d_value = Some v\<rparr>"
    and "is_list \<equiv> \<exists>ty os xs. abs_package p sec = Some (ty, os) \<and> os x = Some (UCI_LIST xs)"
  shows "\<exists>ptr' p'. uci_del_list internal p ptr = Some (Inr (0, ptr', p')) \<and> wf_package p' \<and>
      abs_package p' = spec_delta d (abs_package p) \<and>
      p_delta p' = (if is_list then recorded internal p d else p_delta p)"
proof -
  obtain q where q: "uci_expand_ptr p ptr False = Inr q" "ptr_section q = Some sec" "ptr_option q = Some x"
    "ptr_value q = Some v" "ptr_s q = lookup_section p sec"
    "ptr_o q = (case (lookup_section p sec, Some x) of
       (Some i, Some x) \<Rightarrow> lookup_option (p_sections p ! i) x | _ \<Rightarrow> None)"
    by (rule expand_plain [OF ptr, of p False]) simp
  let ?s = "p_sections p ! i"
  note sc = abs_section [OF wf i]
  have ws: "wf_section ?s" using wf_nth [OF wf sc(1)] .
  have idem: "(abs_package p)(sec \<mapsto> (s_type ?s, opts.to_map (s_options ?s))) = abs_package p"
    using sc(3) by (simp add: fun_upd_idem)
  show ?thesis
  proof (cases "lookup_option ?s x")
    case None
    show ?thesis using no_option [OF None] q sc i None wf idem
      by (auto simp: uci_del_list_def d_def is_list_def spec_options_def)
  next
    case (Some j)
    note op = abs_option [OF ws Some]
    show ?thesis
    proof (cases "o_value (s_options ?s ! j)")
      case (UCI_STRING old)
      then show ?thesis using op q sc i Some wf idem
        by (auto simp: uci_del_list_def d_def is_list_def spec_options_def)
    next
      case (UCI_LIST xs)
      let ?f = "\<lambda>s. s\<lparr>s_options := (s_options s)[j := (s_options s ! j)\<lparr>o_value := UCI_LIST (filter (\<lambda>y. y \<noteq> v) xs)\<rparr>]\<rparr>"
      show ?thesis
        using upd_section_abs [OF wf i, of ?f] option_replace [OF ws Some] op q sc Some i UCI_LIST
        by (auto simp: uci_del_list_def track_delta_Some d_def is_list_def spec_options_def
            abs_package_def wf_package_def recorded_def)
    qed
  qed
qed

text \<open>\<open>uci_del_list\<close> removes every occurrence of the value from a list option and records
  the change; on a missing option or a string it changes nothing and records nothing.\<close>

theorem uci_del_list_refines:
  assumes wf: "wf_package p" and ptr: "plain_ptr ptr sec (Some x) (Some v)"
    and i: "lookup_section p sec = Some i"
  defines "d \<equiv> \<lparr>d_cmd = UCI_CMD_LIST_DEL, d_section = sec, d_option = Some x, d_value = Some v\<rparr>"
    and "is_list \<equiv> \<exists>ty os xs. abs_package p sec = Some (ty, os) \<and> os x = Some (UCI_LIST xs)"
  shows "\<exists>ptr' p'. uci_del_list internal p ptr = Some (Inr (0, ptr', p')) \<and> wf_package p' \<and>
      abs_package p' = spec_delta d (abs_package p) \<and>
      p_delta p' = (if is_list then recorded internal p d else p_delta p)"
  unfolding d_def is_list_def by (rule uci_del_list_step [OF wf ptr i])

theorem uci_del_list_refines_witness:
  "\<exists>ptr' p'. uci_del_list False demo_package (demo_ptr (Some ''dns'') (Some ''b'')) = Some (Inr (0, ptr', p')) \<and>
     wf_package p' \<and> length (p_delta p') = 1"
  using uci_del_list_refines [OF demo_wf demo_plain [where opt = "Some ''dns''" and v = "Some ''b''"] demo_lookup, of False]
    demo_abs
  by (auto simp: recorded_def) (auto simp: demo_package_def uci_alloc_package_def)

lemma uci_rename_step:
  assumes wf: "wf_package p" and ptr: "plain_ptr ptr sec opt (Some v)"
    and i: "lookup_section p sec = Some i"
    and opt: "case opt of None \<Rightarrow> abs_package p v = None
      | Some x \<Rightarrow> \<exists>ty os. abs_package p sec = Some (ty, os) \<and> os x \<noteq> None \<and> os v = None"
  defines "d \<equiv> \<lparr>d_cmd = UCI_CMD_RENAME, d_section = sec, d_option = opt, d_value = Some v\<rparr>"
  shows "\<exists>ptr' p'. uci_rename internal p ptr = Some (Inr (0, ptr', p')) \<and> wf_package p' \<and>
      abs_package p' = spec_delta d (abs_package p) \<and> p_delta p' = recorded internal p d"
proof -
  obtain q where q: "uci_expand_ptr p ptr True = (if True \<and> \<not> ptr_complete q then Inl UCI_ERR_NOTFOUND else Inr q)"
    "ptr_section q = Some sec" "ptr_option q = opt" "ptr_value q = Some v" "ptr_s q = lookup_section p sec"
    "ptr_o q = (case (lookup_section p sec, opt) of
       (Some i, Some x) \<Rightarrow> lookup_option (p_sections p ! i) x | _ \<Rightarrow> None)"
    "ptr_complete q \<longleftrightarrow> ptr_s q \<noteq> None \<and> (opt \<noteq> None \<longrightarrow> ptr_o q \<noteq> None)"
    by (rule expand_plain [OF ptr, of p True])
  let ?s = "p_sections p ! i"
  note sc = abs_section [OF wf i]
  have ws: "wf_section ?s" using wf_nth [OF wf sc(1)] .
  have ds: "distinct (map (\<lambda>s. the (s_name s)) (p_sections p))" "list_all wf_section (p_sections p)"
    using wf by (simp_all add: wf_package_def)
  show ?thesis
  proof (cases opt)
    case None
    let ?x = "?s\<lparr>s_name := Some v, s_anonymous := False\<rparr>"
    have "v \<notin> (\<lambda>s. the (s_name s)) ` set (p_sections p)"
      using opt None by (simp add: abs_package_def secs.to_map_None)
    then have ren: "secs.to_map ((p_sections p)[i := ?x]) =
        (secs.to_map (p_sections p))(sec := None, v \<mapsto> (s_type ?s, opts.to_map (s_options ?s)))"
      "distinct (map (\<lambda>s. the (s_name s)) ((p_sections p)[i := ?x]))"
      using secs.to_map_rename [OF ds(1) sc(1), of ?x] sc(2) by simp_all
    moreover have "list_all wf_section ((p_sections p)[i := ?x])"
      using ds(2) ws by (auto simp: wf_section_def list_all_iff dest!: set_update_subset_insert [THEN subsetD])
    ultimately show ?thesis using q None i sc
      by (auto simp: uci_rename_def track_delta_Some d_def abs_package_def wf_package_def recorded_def)
  next
    case (Some x)
    then have "lookup_option ?s x \<noteq> None" using opt sc(3) no_option by fastforce
    then obtain j where j: "lookup_option ?s x = Some j" by blast
    note op = abs_option [OF ws j]
    let ?x = "(s_options ?s ! j)\<lparr>o_name := v\<rparr>"
    let ?f = "\<lambda>s. s\<lparr>s_options := (s_options s)[j := (s_options s ! j)\<lparr>o_name := v\<rparr>]\<rparr>"
    have do: "distinct (map o_name (s_options ?s))" using ws by (simp add: wf_section_def)
    have "v \<notin> o_name ` set (s_options ?s)" using opt Some sc(3) by (auto simp: opts.to_map_None)
    then have ren: "opts.to_map ((s_options ?s)[j := ?x]) =
        (opts.to_map (s_options ?s))(x := None, v \<mapsto> o_value (s_options ?s ! j))"
      "distinct (map o_name ((s_options ?s)[j := ?x]))"
      using opts.to_map_rename [OF do op(1), of ?x] op(2) by simp_all
    show ?thesis
      using upd_section_abs [OF wf i, of ?f] ren op q sc Some i j
      by (auto simp: uci_rename_def track_delta_Some d_def spec_options_def
          abs_package_def wf_package_def recorded_def)
  qed
qed

text \<open>\<open>uci_rename\<close> of a section or an option to a name that is not in use moves its contents
  to the new name and records the change.\<close>

theorem uci_rename_refines:
  assumes wf: "wf_package p" and ptr: "plain_ptr ptr sec opt (Some v)"
    and i: "lookup_section p sec = Some i"
    and opt: "case opt of None \<Rightarrow> abs_package p v = None
      | Some x \<Rightarrow> \<exists>ty os. abs_package p sec = Some (ty, os) \<and> os x \<noteq> None \<and> os v = None"
  defines "d \<equiv> \<lparr>d_cmd = UCI_CMD_RENAME, d_section = sec, d_option = opt, d_value = Some v\<rparr>"
  shows "\<exists>ptr' p'. uci_rename internal p ptr = Some (Inr (0, ptr', p')) \<and> wf_package p' \<and>
      abs_package p' = spec_delta d (abs_package p) \<and> p_delta p' = recorded internal p d"
  unfolding d_def by (rule uci_rename_step [OF wf ptr i opt])

theorem uci_rename_refines_witness:
  "\<exists>ptr' p'. uci_rename False demo_package (demo_ptr None (Some ''wan'')) = Some (Inr (0, ptr', p')) \<and>
     wf_package p' \<and> length (p_delta p') = 1"
  using uci_rename_refines [OF demo_wf demo_plain [where opt = None and v = "Some ''wan''"] demo_lookup, of False]
    demo_abs
  by (auto simp: recorded_def) (auto simp: demo_package_def uci_alloc_package_def)

section \<open>Order of sections\<close>

lemma uci_list_new_head_min: "uci_list_new_head pos xs = min (nat pos) (length xs)"
  by (induction pos xs rule: uci_list_new_head.induct) (auto simp: min_def nat_diff_distrib split: if_splits)

lemma insert_at:
  assumes "k \<le> length r"
  shows "(take k r @ [x] @ drop k r) ! k = x" "drop_nth k (take k r @ [x] @ drop k r) = r"
  using assms by (simp_all add: nth_append drop_nth_def)

text \<open>\<open>uci_list_set_pos\<close> moves one element to the given position, or to the end when the
  position is past it, keeps the order of the others, and reports whether the list changed.\<close>

theorem uci_list_set_pos_correct:
  fixes xs :: "'a list" and pos :: int
  assumes "i < length xs"
  defines "k \<equiv> min (nat pos) (length xs - 1)"
  shows "fst (uci_list_set_pos xs i pos) ! k = xs ! i \<and>
    drop_nth k (fst (uci_list_set_pos xs i pos)) = drop_nth i xs \<and>
    (snd (uci_list_set_pos xs i pos) \<longleftrightarrow> k \<noteq> i) \<and>
    (k = i \<longrightarrow> fst (uci_list_set_pos xs i pos) = xs)"
proof -
  let ?rest = "take i xs @ drop (Suc i) xs"
  have len: "length ?rest = length xs - 1" using assms(1) by simp
  have k: "uci_list_new_head pos ?rest = k" by (simp only: uci_list_new_head_min len k_def)
  have le: "k \<le> length ?rest" unfolding len k_def by simp
  define res where "res = take k ?rest @ [xs ! i] @ drop k ?rest"
  have res: "uci_list_set_pos xs i pos = (res, i \<noteq> k)"
    by (simp add: uci_list_set_pos_def Let_def k res_def)
  have "res ! k = xs ! i" "drop_nth k res = ?rest" unfolding res_def by (rule insert_at [OF le])+
  moreover have "res = xs" if "k = i" using that assms(1) by (simp add: res_def flip: id_take_nth_drop)
  ultimately show ?thesis unfolding res by (auto simp: drop_nth_def)
qed

theorem uci_list_set_pos_correct_witness:
  "fst (uci_list_set_pos [10, 11, 12, 13 :: nat] 3 1) ! min (nat 1) (length [10, 11, 12, 13 :: nat] - 1) =
     [10, 11, 12, 13] ! 3 \<and> fst (uci_list_set_pos [10, 11, 12, 13 :: nat] 3 1) = [10, 13, 11, 12]"
  using uci_list_set_pos_correct [of 3 "[10, 11, 12, 13 :: nat]" 1]
  by (simp add: uci_list_set_pos_def)

section \<open>Extended section names\<close>

lemma isdigit_char_of: "n < 10 \<Longrightarrow> isdigit (char_of (48 + n))" "n < 10 \<Longrightarrow> cv (char_of (48 + n)) = 48 + n"
proof -
  assume "n < 10"
  then have "(48 + n) mod 256 = 48 + n" by simp
  then show "cv (char_of (48 + n)) = 48 + n" by (simp add: cv_def)
  with \<open>n < 10\<close> show "isdigit (char_of (48 + n))" by (simp add: isdigit_def)
qed

lemma dec_digits_digits: "dec_digits n \<noteq> [] \<and> list_all isdigit (dec_digits n)"
proof (induction n rule: dec_digits.induct)
  case (1 n)
  show ?case
  proof (cases "n < 10")
    case True
    then show ?thesis by (subst (1 2) dec_digits.simps) (simp add: isdigit_char_of)
  next
    case False
    with 1 show ?thesis by (subst (1 2) dec_digits.simps) (simp add: isdigit_char_of)
  qed
qed

lemma digits_value_append:
  "list_all isdigit xs \<Longrightarrow> digits_value acc (xs @ ys) = digits_value (fst (digits_value acc xs)) ys"
  by (induction xs arbitrary: acc) auto

lemma digits_value_dec: "digits_value 0 (dec_digits n) = (int n, [])"
proof (induction n rule: dec_digits.induct)
  case (1 n)
  show ?case
  proof (cases "n < 10")
    case True
    then show ?thesis by (subst dec_digits.simps) (simp add: isdigit_char_of)
  next
    case False
    moreover have "int (n div 10) * 10 + int (n mod 10) = int n"
      by (metis div_mult_mod_eq of_nat_add of_nat_mult of_nat_numeral)
    ultimately show ?thesis using 1 dec_digits_digits [of "n div 10"]
      by (subst dec_digits.simps) (simp add: digits_value_append isdigit_char_of)
  qed
qed

text \<open>Printing a number and scanning it back.\<close>

lemma strtol_print_int:
  assumes "- (2 ^ 31) \<le> n" "n < 2 ^ 31"
  shows "strtol (print_int n) = (n, [])"
proof -
  have d: "dec_digits k = c # r \<Longrightarrow> isdigit c \<and> \<not> isspace c \<and> c \<noteq> CHR ''-'' \<and> c \<noteq> CHR ''+''" for k c r
    using dec_digits_digits [of k] by (auto simp: isdigit_def isspace_def cv_def)
  have ne: "dec_digits k \<noteq> []" for k using dec_digits_digits [of k] by simp
  have sign: "\<not> isspace (CHR ''-'')" by (simp add: isspace_def)
  show ?thesis
  proof (cases "n < 0")
    case True
    obtain c r where k: "dec_digits (nat (- n)) = c # r" using ne by (meson neq_Nil_conv)
    with d [OF k] digits_value_dec [of "nat (- n)"] True assms sign show ?thesis
      by (simp add: strtol_def scan_int_def print_int_def clamp_def)
  next
    case False
    obtain c r where k: "dec_digits (nat n) = c # r" using ne by (meson neq_Nil_conv)
    with d [OF k] digits_value_dec [of "nat n"] False assms show ?thesis
      by (simp add: strtol_def scan_int_def print_int_def clamp_def)
  qed
qed

text \<open>The indices of the sections that an extended name can select.\<close>

definition candidates :: "string option \<Rightarrow> uci_section list \<Rightarrow> nat list" where
  "candidates name ss = filter (\<lambda>i. type_matches name (ss ! i)) [0..<length ss]"

lemma candidates_Cons:
  "candidates name (s # ss) = (if type_matches name s then [0] else []) @ map Suc (candidates name ss)"
proof -
  have "[0..<length (s # ss)] = 0 # map Suc [0..<length ss]"
    by (simp add: upt_conv_Cons map_Suc_upt del: upt_Suc)
  then show ?thesis by (simp add: candidates_def filter_map comp_def)
qed

lemma count_sections_candidates: "count_sections name ss c = c + int (length (candidates name ss))"
  by (induction ss arbitrary: c) (simp_all add: candidates_Cons, simp add: candidates_def)

lemma find_section_candidates:
  "find_section name idx ss c = (if c \<le> idx \<and> idx < c + int (length (candidates name ss))
     then Some (candidates name ss ! nat (idx - c)) else None)"
proof (induction ss arbitrary: c)
  case Nil
  then show ?case by (simp add: candidates_def)
next
  case (Cons s ss)
  have "candidates name (s # ss) ! nat (idx - c) = Suc (candidates name ss ! nat (idx - (c + 1)))"
    if "type_matches name s" "c + 1 \<le> idx" "idx < c + 1 + int (length (candidates name ss))"
  proof -
    have "nat (idx - c) = Suc (nat (idx - (c + 1)))" using that(2) by simp
    moreover have "nat (idx - (c + 1)) < length (candidates name ss)" using that by simp
    ultimately show ?thesis using that(1) by (simp only: candidates_Cons) simp
  qed
  with Cons.IH [of c] Cons.IH [of "c + 1"] show ?case by (auto simp: candidates_Cons)
qed

text \<open>The extended section name \<open>@type[n]\<close> selects the \<open>n\<close>-th section of that type (of any
  type when the type is left out), counted from the end when \<open>n\<close> is negative, and no section
  when there is none at that position.\<close>

theorem uci_lookup_ext_section_correct:
  fixes p :: uci_package and ty :: string and n :: int
  assumes "ty = [] \<or> uci_validate_type ty" "CHR ''['' \<notin> set ty" "- (2 ^ 31) \<le> n" "n < 2 ^ 31"
  defines "cs \<equiv> candidates (if ty = [] then None else Some ty) (p_sections p)"
    and "k \<equiv> (if n < 0 then n + int (length (candidates (if ty = [] then None else Some ty) (p_sections p))) else n)"
  shows "uci_lookup_ext_section p (''@'' @ ty @ ''['' @ print_int n @ '']'') =
    Inr (if 0 \<le> k \<and> k < int (length cs) then Some (cs ! nat k) else None)"
proof -
  have "CHR '']'' \<notin> set (print_int n)"
    using dec_digits_digits by (auto simp: print_int_def list_all_iff isdigit_def cv_def) fastforce+
  then have "split_char (CHR '']'') (print_int n @ '']'') = Some (print_int n, [])"
    using split_char_append by fastforce
  moreover have "split_char (CHR ''['') (ty @ CHR ''['' # r) = Some (ty, r)" for r
    using split_char_append [OF assms(2)] .
  ultimately show ?thesis
    using assms(1) strtol_print_int [OF assms(3,4)]
    by (auto simp: uci_lookup_ext_section_def Let_def find_section_candidates count_sections_candidates
        cs_def k_def)
qed

theorem uci_lookup_ext_section_correct_witness:
  "uci_lookup_ext_section demo_package (''@'' @ ''if'' @ ''['' @ print_int (-1) @ '']'') = Inr (Some 0)"
proof -
  have "uci_validate_type ''if''"
    by (simp add: uci_validate_type_def uci_validate_str_def isalnum_def isdigit_def cv_def)
  then show ?thesis
    using uci_lookup_ext_section_correct [of "''if''" "-1" demo_package]
    by (simp add: candidates_def demo_package_def type_matches_def)
qed

section \<open>Names of unnamed sections\<close>

definition hex_value :: "string \<Rightarrow> nat" where
  "hex_value = foldl (\<lambda>a c. 16 * a + (if cv c < 58 then cv c - 48 else cv c - 87)) 0"

lemma cv_hex_digit: "n < 16 \<Longrightarrow> cv (hex_digit n) = (if n < 10 then 48 + n else 87 + n)"
proof -
  assume "n < 16"
  then have "(48 + n) mod 256 = 48 + n" "(87 + n) mod 256 = 87 + n" by simp_all
  then show ?thesis by (simp add: hex_digit.simps cv_def)
qed

lemma hex_value_digits: "hex_value (hex_digits n) = n"
proof (induction n rule: hex_digits.induct)
  case (1 n)
  show ?case
  proof (cases "n < 16")
    case True
    then show ?thesis by (subst hex_digits.simps) (simp add: hex_value_def cv_hex_digit)
  next
    case False
    with 1 have "hex_value (hex_digits (n div 16)) = n div 16" by simp
    with False show ?thesis by (subst hex_digits.simps) (simp add: hex_value_def cv_hex_digit)
  qed
qed

lemma hex_value_print: "hex_value (print_hex w n) = n"
proof -
  have "hex_value (replicate k (CHR ''0'') @ xs) = hex_value xs" for k xs
    by (induction k) (simp_all add: hex_value_def cv_def)
  then show ?thesis by (simp add: print_hex_def hex_value_digits)
qed

lemma length_hex_digits: "n < 16 ^ Suc k \<Longrightarrow> length (hex_digits n) \<le> Suc k"
proof (induction k arbitrary: n)
  case 0
  then show ?case by (subst hex_digits.simps) simp
next
  case (Suc k)
  then have "n div 16 < 16 ^ Suc k" by (simp add: less_mult_imp_div_less mult.commute)
  with Suc.IH [of "n div 16"] show ?case by (subst hex_digits.simps) simp
qed

lemma length_print_hex: "n < 65536 \<Longrightarrow> length (print_hex 4 n) = 4"
  using length_hex_digits [of n 3] by (simp add: print_hex_def)

text \<open>\<open>uci_add_section\<close> appends an unnamed section of the given type, leaves the other
  sections as they are, gives it a generated name and records the addition; names generated at
  different values of the section counter differ.\<close>

theorem uci_add_section_correct:
  "\<exists>name s p'. uci_add_section internal p ty = Some (length (p_sections p), p') \<and>
     p_sections p' = p_sections p @ [s] \<and> s_type s = ty \<and> s_anonymous s \<and> s_options s = [] \<and>
     s_name s = Some name \<and> p_n_section p' = p_n_section p + 1 \<and>
     p_delta p' = recorded internal p
       \<lparr>d_cmd = UCI_CMD_ADD, d_section = name, d_option = None, d_value = Some ty\<rparr> \<and>
     (\<forall>n t. s_name t = None \<longrightarrow> s_name (uci_fixup_section n t) = Some name \<longrightarrow> n = p_n_section p + 1)"
proof -
  define s0 where "s0 = \<lparr>s_name = None, s_type = ty, s_anonymous = True, s_inline = True, s_options = []\<rparr>"
  define name where "name = ''cfg'' @ print_hex 2 (p_n_section p + 1)
    @ print_hex 4 (unat (uci_section_hash s0 mod 65536))"
  have small: "unat (h mod 65536 :: u32) < 65536" for h by (simp add: unat_mod)
  have "n = p_n_section p + 1" if "s_name t = None" "s_name (uci_fixup_section n t) = Some name" for n t
  proof -
    have "print_hex 2 n @ print_hex 4 (unat (uci_section_hash t mod 65536)) =
        print_hex 2 (p_n_section p + 1) @ print_hex 4 (unat (uci_section_hash s0 mod 65536))"
      using that by (simp add: uci_fixup_section_def name_def)
    then have "print_hex 2 n = print_hex 2 (p_n_section p + 1)"
      using length_print_hex [OF small] by (metis append_eq_append_conv)
    then show ?thesis by (metis hex_value_print)
  qed
  moreover have "uci_fixup_section (p_n_section p + 1) s0 = s0\<lparr>s_name := Some name\<rparr>"
    by (simp add: uci_fixup_section_def name_def) (simp add: s0_def)
  ultimately show ?thesis
    by (intro exI [of _ name] exI [of _ "s0\<lparr>s_name := Some name\<rparr>"])
      (auto simp: uci_add_section_def uci_alloc_section_def track_delta_Some recorded_def s0_def)
qed

theorem uci_add_section_correct_witness:
  "\<exists>name. s_name (p_sections (snd (the (uci_add_section False demo_package ''if''))) ! 1) = Some name \<and>
     (\<forall>t. s_name t = None \<longrightarrow> s_name (uci_fixup_section 1 t) \<noteq> Some name)"
proof -
  have "length (p_sections demo_package) = 1" "p_n_section demo_package = 1"
    by (simp_all add: demo_package_def)
  with uci_add_section_correct [of False demo_package "''if''"] show ?thesis
    by (elim exE conjE) (simp add: nth_append, metis n_not_Suc_n)
qed

section \<open>Internal mode\<close>

text \<open>\<open>uci_set\<close> with an empty value deletes the option through \<open>uci_delete\<close>, for which the
  internal flag has been cleared: a change that must not be recorded, as when a delta file is
  replayed, is recorded.\<close>

theorem uci_set_empty_records:
  "\<exists>ptr' p'. uci_set True demo_package (demo_ptr (Some ''ip'') (Some [])) = Some (Inr (0, ptr', p')) \<and>
     p_delta demo_package = [] \<and>
     p_delta p' = [\<lparr>d_cmd = UCI_CMD_REMOVE, d_section = ''lan'', d_option = Some ''ip'', d_value = None\<rparr>]"
  by (simp add: uci_set_def uci_expand_ptr_def uci_lookup_ptr_def uci_lookup_section_def uci_delete_def
      demo_package_def uci_alloc_package_def ptr_zero_def track_delta_def uci_add_delta_def)

end
