(* ===== verification/Uci_File.thy ===== *)
theory Uci_File
  imports Uci_Data
begin

text \<open>
  The configuration file parser and writer of libuci, \<open>libuci/file.c\<close>.  The parser works in
  place on a line buffer: arguments are unquoted, moved and null-terminated inside the buffer,
  and a quoted argument may pull further lines in behind the current position.  The model keeps
  the buffer as the list of all its characters, the position, and the unread rest of the stream;
  reading or writing outside the buffer is \<^const>\<open>None\<close>.  The bytes that \<open>realloc\<close> adds are
  the unspecified character \<open>pp_junk\<close>.  A loop that may not end is a partial function, whose
  value is \<^const>\<open>None\<close> when it does not.  A result carries the parser state after an
  exception too, since importing goes on after one.  \<open>pp_gen\<close> counts the calls of \<open>realloc\<close>: a
  pointer into the buffer that was taken before one is dangling.
\<close>

section \<open>The parser state\<close>

record parser =
  pp_buf :: "string option"
  pp_gen :: nat
  pp_pos :: nat
  pp_line :: nat
  pp_byte :: nat
  pp_reason :: string
  pp_file :: string
  pp_eof :: bool
  pp_package :: "uci_package option"
  pp_section :: "nat option"
  pp_merge :: bool
  pp_name :: "string option"
  pp_root :: "uci_package list"
  pp_strict :: bool
  pp_junk :: char

type_synonym 'a presult = "((uci_err + 'a) \<times> parser) option"

definition pctx_char :: "parser \<Rightarrow> nat \<Rightarrow> char option" where
  "pctx_char st i = (case pp_buf st of None \<Rightarrow> None
     | Some b \<Rightarrow> if i < length b then Some (b ! i) else None)"

definition set_char :: "nat \<Rightarrow> char \<Rightarrow> parser \<Rightarrow> parser option" where
  "set_char i c st = (case pp_buf st of None \<Rightarrow> None
     | Some b \<Rightarrow> if i < length b then Some (st\<lparr>pp_buf := Some (b[i := c])\<rparr>) else None)"

abbreviation pctx_cur_char :: "parser \<Rightarrow> char option" where
  "pctx_cur_char st \<equiv> pctx_char st (pp_pos st)"

text \<open>The C string at an offset of the buffer.\<close>

definition pctx_str :: "parser \<Rightarrow> nat \<Rightarrow> string option" where
  "pctx_str st i = (case pp_buf st of None \<Rightarrow> None
     | Some b \<Rightarrow> if NUL \<in> set (drop i b) then Some (takeWhile (\<lambda>c. c \<noteq> NUL) (drop i b)) else None)"

text \<open>The string behind a pointer that was taken when the buffer had generation \<open>gen\<close>.\<close>

definition deref :: "parser \<Rightarrow> nat \<Rightarrow> nat \<Rightarrow> string option" where
  "deref st gen i = (if gen = pp_gen st then pctx_str st i else None)"

abbreviation advance :: "nat \<Rightarrow> parser \<Rightarrow> parser" where
  "advance n st \<equiv> st\<lparr>pp_pos := pp_pos st + n\<rparr>"

section \<open>Reading a line\<close>

text \<open>What \<open>fgets\<close> takes from a stream when it may store \<open>k\<close> characters: the characters, the
  rest, and whether the end of the file was met.\<close>

fun fgets_take :: "nat \<Rightarrow> string \<Rightarrow> string \<times> string \<times> bool" where
  "fgets_take 0 f = ([], f, False)"
| "fgets_take (Suc k) [] = ([], [], True)"
| "fgets_take (Suc k) (c # f) =
     (if c = NL then ([c], f, False)
      else let (a, r, e) = fgets_take k f in (c # a, r, e))"

lemma fgets_take_split: "fgets_take k f = (a, r, e) \<Longrightarrow> f = a @ r"
  by (induction k f arbitrary: a r e rule: fgets_take.induct) (auto split: if_splits prod.splits)

definition LINEBUF :: nat where "LINEBUF = 32"

definition double :: "parser \<Rightarrow> string \<Rightarrow> string" where
  "double st b = b @ replicate (length b) (pp_junk st)"

function uci_getln_loop :: "nat \<Rightarrow> string \<Rightarrow> parser \<Rightarrow> parser option" where
  "uci_getln_loop ofs b st =
     (if length b \<le> ofs then None
      else let b = b[ofs := NUL];
               (chars, rest, eof) = fgets_take (length b - ofs - 1) (pp_file st);
               st = st\<lparr>pp_file := rest, pp_eof := pp_eof st \<or> eof\<rparr>
      in if chars = [] then Some (st\<lparr>pp_buf := Some b\<rparr>)
         else let b = take ofs b @ (chars @ [NUL]) @ drop (ofs + length chars + 1) b
         in if b ! ofs = NUL then Some (st\<lparr>pp_buf := Some b\<rparr>)
         else let ofs = ofs + length (takeWhile (\<lambda>c. c \<noteq> NUL) (drop ofs b))
         in if b ! (ofs - 1) = NL then Some (st\<lparr>pp_buf := Some b, pp_line := pp_line st + 1\<rparr>)
         else uci_getln_loop ofs (double st b) (st\<lparr>pp_gen := pp_gen st + 1\<rparr>))"
  by pat_completeness auto
termination
proof (relation "measure (\<lambda>(ofs, b, st). length (pp_file st))", goal_cases)
  case (2 ofs b st b' p chars q rest eof)
  then have "pp_file st = chars @ rest" using fgets_take_split by metis
  with 2 show ?case by simp
qed simp

declare uci_getln_loop.simps [simp del]

definition uci_getln :: "nat \<Rightarrow> parser \<Rightarrow> parser option" where
  "uci_getln offset st =
     (let b = (case pp_buf st of None \<Rightarrow> replicate LINEBUF NUL | Some b \<Rightarrow> b);
          (b, st) = (if length b - 1 \<le> offset then (double st b, st\<lparr>pp_gen := pp_gen st + 1\<rparr>) else (b, st))
      in uci_getln_loop offset b st)"

section \<open>Arguments\<close>

definition uci_parse_error :: "string \<Rightarrow> parser \<Rightarrow> 'a presult" where
  "uci_parse_error reason st = Some (Inl UCI_ERR_PARSE, st\<lparr>pp_reason := reason, pp_byte := pp_pos st\<rparr>)"

definition parse_backslash :: "parser \<Rightarrow> (bool \<times> parser) option" where
  "parse_backslash st = do {
     let st = advance 1 st;
     c \<leftarrow> pctx_cur_char st;
     more_input \<leftarrow> (if c = NUL \<or> c = NL then Some True
       else if c = CR then do {
         d \<leftarrow> pctx_char st (pp_pos st + 1);
         if d = NL then do {
           e \<leftarrow> pctx_char st (pp_pos st + 2);
           Some (e = NUL)
         } else Some False
       } else Some False);
     if more_input then do {
       st \<leftarrow> uci_getln (pp_pos st) st;
       Some (False, st)
     } else Some (True, st)
   }"

lemma pctx_char_bound: "pctx_char st i = Some c \<Longrightarrow> i < length (the (pp_buf st))"
  by (auto simp: pctx_char_def split: option.splits if_splits)

function skip_whitespace :: "parser \<Rightarrow> parser option" where
  "skip_whitespace st = (case pctx_cur_char st of None \<Rightarrow> None
     | Some c \<Rightarrow> if c \<noteq> NUL \<and> isspace c then skip_whitespace (advance 1 st) else Some st)"
  by pat_completeness auto
termination
  by (relation "measure (\<lambda>st. length (the (pp_buf st)) - pp_pos st)")
    (auto dest!: pctx_char_bound)

declare skip_whitespace.simps [simp del]

definition addc :: "nat \<Rightarrow> parser \<Rightarrow> (nat \<times> parser) option" where
  "addc target st = do {
     c \<leftarrow> pctx_cur_char st;
     st \<leftarrow> set_char target c st;
     Some (target + 1, advance 1 st)
   }"

partial_function (option) parse_double_quote_loop :: "nat \<Rightarrow> parser \<Rightarrow> nat presult" where
  "parse_double_quote_loop target st = do {
     c \<leftarrow> pctx_cur_char st;
     if c = DQUOTE then Some (Inr target, advance 1 st)
     else if c = NUL then do {
       st \<leftarrow> uci_getln (pp_pos st) st;
       c \<leftarrow> pctx_cur_char st;
       if c = NUL then uci_parse_error (''EOF with unterminated '' @ [DQUOTE]) st
       else parse_double_quote_loop target st
     }
     else if c = BACKSLASH then do {
       (decoded, st) \<leftarrow> parse_backslash st;
       if \<not> decoded then parse_double_quote_loop target st
       else do {
         (target, st) \<leftarrow> addc target st;
         parse_double_quote_loop target st
       }
     }
     else do {
       (target, st) \<leftarrow> addc target st;
       parse_double_quote_loop target st
     }
   }"

definition parse_double_quote :: "nat \<Rightarrow> parser \<Rightarrow> nat presult" where
  "parse_double_quote target st = parse_double_quote_loop target (advance 1 st)"

partial_function (option) parse_single_quote_loop :: "nat \<Rightarrow> parser \<Rightarrow> nat presult" where
  "parse_single_quote_loop target st = do {
     c \<leftarrow> pctx_cur_char st;
     if c = QUOTE then Some (Inr target, advance 1 st)
     else if c = NUL then do {
       st \<leftarrow> uci_getln (pp_pos st) st;
       c \<leftarrow> pctx_cur_char st;
       if c = NUL then uci_parse_error (''EOF with unterminated '' @ [QUOTE]) st
       else parse_single_quote_loop target st
     }
     else do {
       (target, st) \<leftarrow> addc target st;
       parse_single_quote_loop target st
     }
   }"

definition parse_single_quote :: "nat \<Rightarrow> parser \<Rightarrow> nat presult" where
  "parse_single_quote target st = parse_single_quote_loop target (advance 1 st)"

text \<open>One pass through the body of the loop of \<open>parse_str\<close>: \<open>next\<close> is \<^const>\<open>None\<close> while the loop
  goes on to its condition, and the flag \<open>next\<close> of the code when it jumps to \<open>done\<close>.\<close>

definition parse_str_body :: "nat \<Rightarrow> parser \<Rightarrow> (nat \<times> bool option) presult" where
  "parse_str_body target st = do {
     c \<leftarrow> pctx_cur_char st;
     if c = QUOTE then do {
       (r, st) \<leftarrow> parse_single_quote target st;
       Some (case r of Inl e \<Rightarrow> Inl e | Inr t \<Rightarrow> Inr (t, None), st)
     }
     else if c = DQUOTE then do {
       (r, st) \<leftarrow> parse_double_quote target st;
       Some (case r of Inl e \<Rightarrow> Inl e | Inr t \<Rightarrow> Inr (t, None), st)
     }
     else if c = CHR ''#'' then do {
       st \<leftarrow> set_char (pp_pos st) NUL st;
       Some (Inr (target, Some True), st)
     }
     else if c = NUL then Some (Inr (target, Some True), st)
     else if c = CHR '';'' then Some (Inr (target, Some False), st)
     else if c = BACKSLASH then do {
       (decoded, st) \<leftarrow> parse_backslash st;
       if \<not> decoded then Some (Inr (target, None), st)
       else do {
         (target, st) \<leftarrow> addc target st;
         Some (Inr (target, None), st)
       }
     }
     else do {
       (target, st) \<leftarrow> addc target st;
       Some (Inr (target, None), st)
     }
   }"

partial_function (option) parse_str_loop :: "nat \<Rightarrow> parser \<Rightarrow> (nat \<times> bool) presult" where
  "parse_str_loop target st = do {
     (r, st) \<leftarrow> parse_str_body target st;
     (case r of Inl e \<Rightarrow> Some (Inl e, st)
      | Inr (target, nx) \<Rightarrow>
          (case nx of Some n \<Rightarrow> Some (Inr (target, n), st)
           | None \<Rightarrow> do {
               c \<leftarrow> pctx_cur_char st;
               if c \<noteq> NUL \<and> \<not> isspace c then parse_str_loop target st
               else Some (Inr (target, True), st)
             }))
   }"

definition parse_str :: "nat \<Rightarrow> parser \<Rightarrow> unit presult" where
  "parse_str target st = do {
     (r, st) \<leftarrow> parse_str_loop target st;
     (case r of Inl e \<Rightarrow> Some (Inl e, st)
      | Inr (target, nx) \<Rightarrow> do {
          c \<leftarrow> pctx_cur_char st;
          let st = (if c \<noteq> NUL \<and> nx then advance 1 st else st);
          st \<leftarrow> set_char target NUL st;
          Some (Inr (), st)
        })
   }"

definition next_arg :: "bool \<Rightarrow> bool \<Rightarrow> bool \<Rightarrow> parser \<Rightarrow> nat presult" where
  "next_arg required nm package st = do {
     st \<leftarrow> skip_whitespace st;
     let val = pp_pos st;
     c \<leftarrow> pctx_cur_char st;
     (r, st) \<leftarrow> (if c = CHR '';'' then do {
          st \<leftarrow> set_char (pp_pos st) NUL st;
          Some (Inr (), advance 1 st)
        } else parse_str val st);
     (case r of Inl e \<Rightarrow> Some (Inl e, st)
      | Inr _ \<Rightarrow> do {
          v \<leftarrow> pctx_char st val;
          if v = NUL then
            if required then uci_parse_error ''insufficient arguments'' st else Some (Inr val, st)
          else do {
            s \<leftarrow> pctx_str st val;
            if nm \<and> \<not> uci_validate_str s nm package
            then uci_parse_error ''invalid character in name field'' st
            else Some (Inr val, st)
          }
        })
   }"

definition assert_eol :: "parser \<Rightarrow> unit presult" where
  "assert_eol st = do {
     st \<leftarrow> skip_whitespace st;
     (r, st) \<leftarrow> next_arg False False False st;
     (case r of Inl e \<Rightarrow> Some (Inl e, st)
      | Inr ofs \<Rightarrow> do {
          tmp \<leftarrow> pctx_str st ofs;
          if tmp \<noteq> [] \<and> pp_strict st then uci_parse_error ''too many arguments'' st
          else Some (Inr (), st)
        })
   }"

section \<open>Commands\<close>

definition uci_switch_config :: "parser \<Rightarrow> unit presult" where
  "uci_switch_config st =
     (let name = pp_name st;
          st = (case pp_package st of None \<Rightarrow> st
            | Some p \<Rightarrow> st\<lparr>pp_root := pp_root st @ [p], pp_package := None, pp_section := None\<rparr>)
      in case name of None \<Rightarrow> Some (Inr (), st)
         | Some n \<Rightarrow>
             if uci_lookup_list (\<lambda>p. Some (p_name p)) (pp_root st) n \<noteq> None
             then Some (Inl UCI_ERR_DUPLICATE, st)
             else Some (Inr (), st\<lparr>pp_package := Some (uci_alloc_package n)\<rparr>))"

text \<open>\<open>pctx->pos += strlen (pctx_cur_str (pctx)) + 1\<close>.\<close>

definition skip_word :: "parser \<Rightarrow> parser option" where
  "skip_word st = do {
     s \<leftarrow> pctx_str st (pp_pos st);
     Some (advance (length s + 1) st)
   }"

definition uci_parse_package :: "bool \<Rightarrow> parser \<Rightarrow> unit presult" where
  "uci_parse_package single st = do {
     st \<leftarrow> skip_word st;
     (r, st) \<leftarrow> next_arg True True True st;
     (case r of Inl e \<Rightarrow> Some (Inl e, st)
      | Inr ofs_name \<Rightarrow> do {
          let gen = pp_gen st;
          (r, st) \<leftarrow> assert_eol st;
          (case r of Inl e \<Rightarrow> Some (Inl e, st)
           | Inr _ \<Rightarrow>
               if single then Some (Inr (), st)
               else do {
                 name \<leftarrow> deref st gen ofs_name;
                 uci_switch_config (st\<lparr>pp_name := Some name\<rparr>)
               })
        })
   }"

text \<open>\<open>uci_fill_ptr\<close> for a package and for a section.\<close>

definition uci_fill_ptr :: "uci_package \<Rightarrow> nat option \<Rightarrow> uci_ptr" where
  "uci_fill_ptr p s = ptr_zero\<lparr>ptr_package := Some (p_name p), ptr_done := True, ptr_s := s,
     ptr_section := (case s of None \<Rightarrow> None | Some i \<Rightarrow> s_name (p_sections p ! i))\<rparr>"

definition uci_parse_config_args :: "parser \<Rightarrow> (nat \<times> nat) presult" where
  "uci_parse_config_args st = do {
     st \<leftarrow> skip_word st;
     (r, st) \<leftarrow> next_arg True False False st;
     (case r of Inl e \<Rightarrow> Some (Inl e, st)
      | Inr ofs_type \<Rightarrow> do {
          ty \<leftarrow> pctx_str st ofs_type;
          if \<not> uci_validate_type ty then uci_parse_error ''invalid character in type field'' st
          else do {
            (r, st) \<leftarrow> next_arg False True False st;
            (case r of Inl e \<Rightarrow> Some (Inl e, st)
             | Inr ofs_name \<Rightarrow> Some (Inr (ofs_type, ofs_name), st))
          }
        })
   }"

definition uci_open_section :: "string \<Rightarrow> string \<Rightarrow> parser \<Rightarrow> unit presult" where
  "uci_open_section ty name st = do {
     p \<leftarrow> pp_package st;
     let internal = (\<not> pp_merge st);
     if name = [] then do {
       (i, p) \<leftarrow> uci_add_section internal p ty;
       Some (Inr (), st\<lparr>pp_package := Some p, pp_section := Some i\<rparr>)
     }
     else do {
       let ptr = uci_fill_ptr p None;
       let e = lookup_section p name;
       let ptr = ptr\<lparr>ptr_s := e\<rparr>;
       if (case e of None \<Rightarrow> False | Some i \<Rightarrow> pp_strict st \<and> s_type (p_sections p ! i) \<noteq> ty)
       then uci_parse_error ''section of different type overwrites prior section with same name'' st
       else do {
         let ptr = ptr\<lparr>ptr_section := Some name, ptr_value := Some ty\<rparr>;
         r \<leftarrow> uci_set internal p ptr;
         (case r of Inl e \<Rightarrow> Some (Inl e, st)
          | Inr (_, ptr, p) \<Rightarrow>
              Some (Inr (), st\<lparr>pp_package := Some p,
                pp_section := (case ptr_last ptr of Some (Elem_section i) \<Rightarrow> Some i | _ \<Rightarrow> None)\<rparr>))
       }
     }
   }"

definition uci_parse_config :: "parser \<Rightarrow> unit presult" where
  "uci_parse_config st = do {
     (r, st) \<leftarrow> (if pp_package st = None then
         if pp_name st = None
         then uci_parse_error ''attempting to import a file without a package name'' st
         else uci_switch_config st
       else Some (Inr (), st));
     (case r of Inl e \<Rightarrow> Some (Inl e, st)
      | Inr _ \<Rightarrow> do {
          (r, st) \<leftarrow> uci_parse_config_args st;
          (case r of Inl e \<Rightarrow> Some (Inl e, st)
           | Inr (ofs_type, ofs_name) \<Rightarrow> do {
               let gen = pp_gen st;
               (r, st) \<leftarrow> assert_eol st;
               (case r of Inl e \<Rightarrow> Some (Inl e, st)
                | Inr _ \<Rightarrow> do {
                    ty \<leftarrow> deref st gen ofs_type;
                    name \<leftarrow> deref st gen ofs_name;
                    uci_open_section ty name st
                  })
             })
        })
   }"

definition uci_store_option :: "bool \<Rightarrow> string \<Rightarrow> string \<Rightarrow> parser \<Rightarrow> unit presult" where
  "uci_store_option is_list name value st = do {
     p \<leftarrow> pp_package st;
     i \<leftarrow> pp_section st;
     let ptr = uci_fill_ptr p (Some i);
     let ptr = ptr\<lparr>ptr_o := lookup_option (p_sections p ! i) name, ptr_option := Some name,
                ptr_value := Some value\<rparr>;
     let internal = (\<not> pp_merge st);
     r \<leftarrow> (if is_list then uci_add_list internal p ptr else uci_set internal p ptr);
     (case r of Inl e \<Rightarrow> Some (Inl e, st)
      | Inr (_, _, p) \<Rightarrow> Some (Inr (), st\<lparr>pp_package := Some p\<rparr>))
   }"

definition uci_parse_option :: "bool \<Rightarrow> parser \<Rightarrow> unit presult" where
  "uci_parse_option is_list st =
     (if pp_section st = None
      then uci_parse_error ''option/list command found before the first section'' st
      else do {
        st \<leftarrow> skip_word st;
        (r, st) \<leftarrow> next_arg True True False st;
        (case r of Inl e \<Rightarrow> Some (Inl e, st)
         | Inr ofs_name \<Rightarrow> do {
             (r, st) \<leftarrow> next_arg False False False st;
             (case r of Inl e \<Rightarrow> Some (Inl e, st)
              | Inr ofs_value \<Rightarrow> do {
                  let gen = pp_gen st;
                  (r, st) \<leftarrow> assert_eol st;
                  (case r of Inl e \<Rightarrow> Some (Inl e, st)
                   | Inr _ \<Rightarrow> do {
                       name \<leftarrow> deref st gen ofs_name;
                       value \<leftarrow> deref st gen ofs_value;
                       uci_store_option is_list name value st
                     })
                })
           })
      })"

text \<open>\<open>strtok (s, " \t")\<close> on the rest of the buffer: the word, terminated in place.\<close>

definition is_delim :: "char \<Rightarrow> bool" where
  "is_delim c \<longleftrightarrow> c = CHR '' '' \<or> c = TAB"

definition strtok :: "parser \<Rightarrow> (string option \<times> parser) option" where
  "strtok st = do {
     s \<leftarrow> pctx_str st (pp_pos st);
     let skipped = length (takeWhile is_delim s);
     let word = takeWhile (\<lambda>c. \<not> is_delim c) (drop skipped s);
     if word = [] then Some (None, st)
     else do {
       st \<leftarrow> set_char (pp_pos st + skipped + length word) NUL st;
       Some (Some word, st)
     }
   }"

definition uci_parse_command :: "bool \<Rightarrow> string \<Rightarrow> parser \<Rightarrow> unit presult" where
  "uci_parse_command single word st =
     (if word \<in> {''p'', ''package''} then uci_parse_package single st
      else if word \<in> {''c'', ''config''} then uci_parse_config st
      else if word \<in> {''o'', ''option''} then uci_parse_option False st
      else if word \<in> {''l'', ''list''} then uci_parse_option True st
      else uci_parse_error ''invalid command'' st)"

partial_function (option) uci_parse_line_loop :: "bool \<Rightarrow> parser \<Rightarrow> unit presult" where
  "uci_parse_line_loop single st = do {
     (word, st) \<leftarrow> strtok st;
     (case word of None \<Rightarrow> Some (Inr (), st)
      | Some word \<Rightarrow>
          if hd word = CHR ''#'' then Some (Inr (), st)
          else do {
            (r, st) \<leftarrow> uci_parse_command single word st;
            (case r of Inl e \<Rightarrow> Some (Inl e, st)
             | Inr _ \<Rightarrow> uci_parse_line_loop single st)
          })
   }"

definition uci_parse_line :: "bool \<Rightarrow> parser \<Rightarrow> unit presult" where
  "uci_parse_line single st = do {
     st \<leftarrow> skip_whitespace st;
     uci_parse_line_loop single st
   }"

section \<open>Import\<close>

partial_function (option) uci_import_loop :: "bool \<Rightarrow> parser \<Rightarrow> unit presult" where
  "uci_import_loop single st =
     (if pp_eof st then Some (Inr (), st)
      else do {
        st \<leftarrow> uci_getln 0 (st\<lparr>pp_pos := 0\<rparr>);
        c \<leftarrow> pctx_char st 0;
        (r, st) \<leftarrow> (if c \<noteq> NUL then uci_parse_line single st else Some (Inr (), st));
        (case r of Inr _ \<Rightarrow> uci_import_loop single st
         | Inl e \<Rightarrow> if e \<noteq> UCI_ERR_PARSE \<or> pp_strict st then Some (Inl e, st)
                    else uci_import_loop single st)
      })"

definition parser_init :: "char \<Rightarrow> bool \<Rightarrow> uci_package list \<Rightarrow> string \<Rightarrow> parser" where
  "parser_init junk strict root file = \<lparr>pp_buf = None, pp_gen = 0, pp_pos = 0, pp_line = 0, pp_byte = 0,
     pp_reason = [], pp_file = file, pp_eof = False, pp_package = None, pp_section = None,
     pp_merge = False, pp_name = None, pp_root = root, pp_strict = strict, pp_junk = junk\<rparr>"

text \<open>\<open>uci_import\<close>: the result is the package stored through the \<open>package\<close> argument and the list
  of loaded packages.\<close>

definition uci_import ::
  "char \<Rightarrow> bool \<Rightarrow> uci_package list \<Rightarrow> string \<Rightarrow> string option \<Rightarrow> uci_package option \<Rightarrow> bool \<Rightarrow>
     (uci_err + uci_package option \<times> uci_package list) option" where
  "uci_import junk strict root stream name package single =
     (let st = parser_init junk strict root stream;
          st = (if package \<noteq> None \<and> single then st\<lparr>pp_package := package, pp_merge := True\<rparr> else st)
      in if (case name of None \<Rightarrow> False | Some n \<Rightarrow> \<not> uci_validate_package n) then Some (Inl UCI_ERR_INVAL)
         else do {
           (r, st) \<leftarrow> uci_import_loop single (st\<lparr>pp_name := name\<rparr>);
           (case r of Inl e \<Rightarrow> Some (Inl e)
            | Inr _ \<Rightarrow> do {
                (r, st) \<leftarrow> (if pp_package st = None \<and> name \<noteq> None then uci_switch_config st
                            else Some (Inr (), st));
                (case r of Inl e \<Rightarrow> Some (Inl e)
                 | Inr _ \<Rightarrow> do {
                     let result = pp_package st;
                     let st = (if pp_merge st then st\<lparr>pp_package := None\<rparr> else st);
                     (r, st) \<leftarrow> uci_switch_config (st\<lparr>pp_name := None\<rparr>);
                     (case r of Inl e \<Rightarrow> Some (Inl e) | Inr _ \<Rightarrow> Some (Inr (result, pp_root st)))
                   })
              })
         })"

declare parse_double_quote_loop.simps [code] parse_single_quote_loop.simps [code]
  parse_str_loop.simps [code] uci_parse_line_loop.simps [code] uci_import_loop.simps [code]

section \<open>Export\<close>

definition UCI_QUOTE_ESCAPE :: string where
  "UCI_QUOTE_ESCAPE = [QUOTE, BACKSLASH, QUOTE, QUOTE]"

text \<open>The loop that makes room in the buffer of \<open>uci_escape\<close>: \<open>sizeof (UCI_QUOTE_ESCAPE)\<close> is 5.\<close>

function escape_grow :: "char \<Rightarrow> nat \<Rightarrow> string \<Rightarrow> string" where
  "escape_grow junk needed b =
     (if needed > length b \<and> b \<noteq> [] then escape_grow junk needed (b @ replicate (length b) junk) else b)"
  by pat_completeness auto
termination
proof (relation "measure (\<lambda>(junk, needed, b). needed - length b)", goal_cases)
  case (2 junk needed b)
  then have "0 < length b" by simp
  moreover have "length b < needed" using 2 by simp
  ultimately have "needed - (length b + length b) < needed - length b" by linarith
  then show ?case by simp
qed simp

declare escape_grow.simps [simp del]

function uci_escape_loop :: "char \<Rightarrow> string \<Rightarrow> nat \<Rightarrow> string \<Rightarrow> (string \<times> nat) option" where
  "uci_escape_loop junk b ofs str =
     (let (seg, rest) = (case split_char QUOTE str of None \<Rightarrow> (str, None) | Some (a, r) \<Rightarrow> (a, Some r));
          len = length seg;
          b = escape_grow junk (ofs + len + 5 + 1) b
      in case mem_write b ofs seg of None \<Rightarrow> None
         | Some b \<Rightarrow>
             let ofs = ofs + len
             in case rest of
               None \<Rightarrow> Some (b, ofs)
             | Some r \<Rightarrow>
                 (case mem_write b ofs (UCI_QUOTE_ESCAPE @ [NUL]) of None \<Rightarrow> None
                  | Some b \<Rightarrow> uci_escape_loop junk b (ofs + 4) r))"
  by pat_completeness auto
termination
proof (relation "measure (\<lambda>(junk, b, ofs, str). length str)", goal_cases)
  case (2 junk b ofs str p seg rest len b1 b2 ofs2 r b3)
  have "split_char c s = Some (a, t) \<Longrightarrow> length t < length s" for c s a t
    by (induction s arbitrary: a) (auto split: if_splits simp: less_Suc_eq)
  with 2 show ?case by (auto split: option.splits)
qed simp

declare uci_escape_loop.simps [simp del]

definition uci_escape :: "char \<Rightarrow> string option \<Rightarrow> string \<Rightarrow> (string \<times> string) option" where
  "uci_escape junk ctx_buf str = do {
     let b = (case ctx_buf of None \<Rightarrow> replicate LINEBUF junk | Some b \<Rightarrow> b);
     (b, ofs) \<leftarrow> uci_escape_loop junk b 0 str;
     if length b \<le> ofs then None
     else do {
       let b = b[ofs := NUL];
       Some (takeWhile (\<lambda>c. c \<noteq> NUL) b, b)
     }
   }"

text \<open>What the loops of \<open>uci_export_package\<close> write.  The strings go through \<open>uci_escape\<close>;
  \<open>ctx_buf\<close> is the buffer it keeps in the context.\<close>

definition export_escaped :: "char \<Rightarrow> string option \<Rightarrow> string \<Rightarrow> (string \<times> string option) option" where
  "export_escaped junk ctx_buf str = do {
     (s, b) \<leftarrow> uci_escape junk ctx_buf str;
     Some (s, Some b)
   }"

fun uci_export_items :: "char \<Rightarrow> string option \<Rightarrow> string \<Rightarrow> string \<Rightarrow> string list \<Rightarrow> (string \<times> string option) option" where
  "uci_export_items junk cb kw name [] = Some ([], cb)"
| "uci_export_items junk cb kw name (v # vs) = do {
     (n, cb) \<leftarrow> export_escaped junk cb name;
     (s, cb) \<leftarrow> export_escaped junk cb v;
     (rest, cb) \<leftarrow> uci_export_items junk cb kw name vs;
     Some ([TAB] @ kw @ '' '' @ n @ '' '' @ [QUOTE] @ s @ [QUOTE, NL] @ rest, cb)
   }"

definition uci_export_option :: "char \<Rightarrow> string option \<Rightarrow> uci_option \<Rightarrow> (string \<times> string option) option" where
  "uci_export_option junk cb opt = (case o_value opt of
     UCI_STRING v \<Rightarrow> uci_export_items junk cb ''option'' (o_name opt) [v]
   | UCI_LIST vs \<Rightarrow> uci_export_items junk cb ''list'' (o_name opt) vs)"

fun uci_export_options :: "char \<Rightarrow> string option \<Rightarrow> uci_option list \<Rightarrow> (string \<times> string option) option" where
  "uci_export_options junk cb [] = Some ([], cb)"
| "uci_export_options junk cb (x # xs) = do {
     (s, cb) \<leftarrow> uci_export_option junk cb x;
     (rest, cb) \<leftarrow> uci_export_options junk cb xs;
     Some (s @ rest, cb)
   }"

fun uci_export_sections :: "char \<Rightarrow> bool \<Rightarrow> string option \<Rightarrow> uci_section list \<Rightarrow> (string \<times> string option) option" where
  "uci_export_sections junk export_name cb [] = Some ([], cb)"
| "uci_export_sections junk export_name cb (sec # secs) = do {
     (ty, cb) \<leftarrow> export_escaped junk cb (s_type sec);
     (nm, cb) \<leftarrow> (if \<not> s_anonymous sec \<or> export_name then do {
         name \<leftarrow> s_name sec;
         (n, cb) \<leftarrow> export_escaped junk cb name;
         Some ('' '' @ [QUOTE] @ n @ [QUOTE], cb)
       } else Some ([], cb));
     (opts, cb) \<leftarrow> uci_export_options junk cb (s_options sec);
     (rest, cb) \<leftarrow> uci_export_sections junk export_name cb secs;
     Some ([NL] @ ''config '' @ ty @ nm @ [NL] @ opts @ rest, cb)
   }"

definition uci_export_package :: "char \<Rightarrow> bool \<Rightarrow> string option \<Rightarrow> uci_package \<Rightarrow> bool \<Rightarrow> (string \<times> string option) option" where
  "uci_export_package junk export_name cb p header = do {
     (hd, cb) \<leftarrow> (if header then do {
         (n, cb) \<leftarrow> export_escaped junk cb (p_name p);
         Some (''package '' @ n @ [NL], cb)
       } else Some ([], cb));
     (body, cb) \<leftarrow> uci_export_sections junk export_name cb (p_sections p);
     Some (hd @ body @ [NL], cb)
   }"

section \<open>Escaping stays inside its buffer\<close>

definition esc :: "string \<Rightarrow> string" where
  "esc str = concat (map (\<lambda>c. if c = QUOTE then UCI_QUOTE_ESCAPE else [c]) str)"

lemma esc_simps [simp]: "esc [] = []" "esc (c # s) = (if c = QUOTE then UCI_QUOTE_ESCAPE else [c]) @ esc s"
  "esc (a @ b) = esc a @ esc b"
  by (simp_all add: esc_def)

lemma esc_plain: "QUOTE \<notin> set a \<Longrightarrow> esc a = a"
  by (induction a) auto

lemma escape_grow_spec:
  assumes "b \<noteq> []"
  shows "\<exists>z. escape_grow junk needed b = b @ z \<and> needed \<le> length (escape_grow junk needed b)"
  using assms
proof (induction junk needed b rule: escape_grow.induct)
  case (1 junk needed b)
  show ?case
  proof (cases "needed > length b")
    case True
    with 1 obtain z where z: "escape_grow junk needed (b @ replicate (length b) junk) =
        (b @ replicate (length b) junk) @ z"
      "needed \<le> length (escape_grow junk needed (b @ replicate (length b) junk))" by fastforce
    have "escape_grow junk needed b = escape_grow junk needed (b @ replicate (length b) junk)"
      using True "1.prems" by (subst escape_grow.simps) simp
    with z show ?thesis by simp
  next
    case False
    then have "escape_grow junk needed b = b" by (subst escape_grow.simps) simp
    with False show ?thesis by simp
  qed
qed

lemma split_char_cases:
  obtains "c \<notin> set s" "split_char c s = None"
  | a r where "s = a @ c # r" "c \<notin> set a" "split_char c s = Some (a, r)"
proof (cases "c \<in> set s")
  case True
  then obtain a r where "s = a @ c # r" "c \<notin> set a" by (meson split_list_first)
  with that(2) split_char_append show thesis by blast
next
  case False
  with that(1) show thesis by (simp add: split_char_None)
qed

lemma takeWhile_nul: "NUL \<notin> set s \<Longrightarrow> takeWhile (\<lambda>c. c \<noteq> NUL) (s @ NUL # r) = s"
  by (induction s) auto

lemma take_mem_write:
  "ofs + length seg \<le> length b \<Longrightarrow> \<exists>b'. mem_write b ofs seg = Some b' \<and> length b' = length b \<and>
     take (ofs + length seg) b' = take ofs b @ seg"
  by (simp add: mem_write_def)

lemma uci_escape_loop_spec:
  assumes "b \<noteq> []" "ofs \<le> length b"
  shows "\<exists>b'. uci_escape_loop junk b ofs str = Some (b', ofs + length (esc str)) \<and>
    take (ofs + length (esc str)) b' = take ofs b @ esc str \<and> ofs + length (esc str) < length b'"
  using assms
proof (induction str arbitrary: b ofs rule: measure_induct_rule [where f = length])
  case (less str)
  show ?case
  proof (rule split_char_cases [of QUOTE str])
    assume s: "QUOTE \<notin> set str" "split_char QUOTE str = None"
    obtain z where z: "escape_grow junk (ofs + length str + 6) b = b @ z"
      "ofs + length str + 6 \<le> length (b @ z)" using escape_grow_spec [OF less.prems(1)] by metis
    obtain b1 where b1: "mem_write (b @ z) ofs str = Some b1" "length b1 = length (b @ z)"
      "take (ofs + length str) b1 = take ofs (b @ z) @ str"
      using take_mem_write [of ofs str "b @ z"] z(2) by auto
    from z b1 s less.prems show ?thesis
      by (subst uci_escape_loop.simps) (simp add: esc_plain Let_def numeral_eq_Suc)
  next
    fix a r
    assume s: "str = a @ QUOTE # r" "QUOTE \<notin> set a" "split_char QUOTE str = Some (a, r)"
    obtain z where z: "escape_grow junk (ofs + length a + 6) b = b @ z"
      "ofs + length a + 6 \<le> length (b @ z)" using escape_grow_spec [OF less.prems(1)] by metis
    obtain b1 where b1: "mem_write (b @ z) ofs a = Some b1" "length b1 = length (b @ z)"
      "take (ofs + length a) b1 = take ofs (b @ z) @ a"
      using take_mem_write [of ofs a "b @ z"] z(2) by auto
    let ?q = "UCI_QUOTE_ESCAPE @ [NUL]"
    have q: "length ?q = 5" by (simp add: UCI_QUOTE_ESCAPE_def)
    obtain b2 where b2: "mem_write b1 (ofs + length a) ?q = Some b2" "length b2 = length b1"
      "take (ofs + length a + 5) b2 = take (ofs + length a) b1 @ ?q"
      using take_mem_write [of "ofs + length a" ?q b1, unfolded q] z(2) b1(2) by auto
    have len: "ofs + length a + 6 \<le> length b2" using z(2) b1(2) b2(2) by simp
    have "take (ofs + length a + 4) b2 = take (ofs + length a + 4) (take (ofs + length a + 5) b2)"
      by (simp add: min_def)
    also have "\<dots> = take ofs b @ a @ UCI_QUOTE_ESCAPE"
      unfolding b2(3) b1(3) using less.prems(2) by (simp add: UCI_QUOTE_ESCAPE_def)
    finally have t: "take (ofs + length a + 4) b2 = take ofs b @ a @ UCI_QUOTE_ESCAPE" .
    have "b2 \<noteq> []" "ofs + length a + 4 \<le> length b2" "length r < length str" using len s(1) by auto
    from less.IH [OF this(3,1,2)] obtain b3 where b3:
      "uci_escape_loop junk b2 (ofs + length a + 4) r = Some (b3, ofs + length a + 4 + length (esc r))"
      "take (ofs + length a + 4 + length (esc r)) b3 = take (ofs + length a + 4) b2 @ esc r"
      "ofs + length a + 4 + length (esc r) < length b3" by blast
    have "uci_escape_loop junk b ofs str = uci_escape_loop junk b2 (ofs + length a + 4) r"
      using z b1 b2 s(3) by (subst uci_escape_loop.simps) (simp add: Let_def numeral_eq_Suc)
    moreover have "length (esc str) = length a + 4 + length (esc r)" "esc str = a @ UCI_QUOTE_ESCAPE @ esc r"
      using s(1,2) by (simp_all add: esc_plain UCI_QUOTE_ESCAPE_def)
    ultimately show ?thesis using b3 t by (auto simp: add.assoc)
  qed
qed

lemma esc_nul: "NUL \<notin> set str \<Longrightarrow> NUL \<notin> set (esc str)"
  by (auto simp: esc_def UCI_QUOTE_ESCAPE_def NUL_def QUOTE_def BACKSLASH_def split: if_splits)

lemma uci_escape_spec:
  assumes "ctx_buf \<noteq> Some []" "NUL \<notin> set str"
  shows "\<exists>b. uci_escape junk ctx_buf str = Some (esc str, b) \<and> b \<noteq> []"
proof -
  define b0 where "b0 = (case ctx_buf of None \<Rightarrow> replicate LINEBUF junk | Some b \<Rightarrow> b)"
  have "b0 \<noteq> []" using assms(1) by (auto simp: b0_def LINEBUF_def split: option.splits)
  from uci_escape_loop_spec [OF this, of 0 junk str] obtain b' where
    b': "uci_escape_loop junk b0 0 str = Some (b', length (esc str))"
      "take (length (esc str)) b' = esc str" "length (esc str) < length b'" by auto
  let ?b = "b'[length (esc str) := NUL]"
  have "?b = esc str @ NUL # drop (Suc (length (esc str))) b'"
    using b'(2,3) by (simp add: upd_conv_take_nth_drop)
  with esc_nul [OF assms(2)] have "takeWhile (\<lambda>c. c \<noteq> NUL) ?b = esc str" by (simp add: takeWhile_nul)
  moreover have "?b \<noteq> []" using b'(3) by auto
  ultimately show ?thesis using b' by (simp add: uci_escape_def b0_def Let_def)
qed

text \<open>C12: \<open>uci_escape\<close> never writes outside its buffer, whatever the buffer holds from earlier
  calls, and returns the string with every single quote replaced by an escaped one.\<close>

theorem uci_escape_correct:
  assumes "ctx_buf \<noteq> Some []" "NUL \<notin> set str"
  shows "\<exists>b. uci_escape junk ctx_buf str = Some (esc str, b) \<and> b \<noteq> []"
  using uci_escape_spec [OF assms] .

theorem uci_escape_correct_witness:
  "\<exists>b. uci_escape (CHR ''?'') (Some ''x'') [CHR ''a'', QUOTE] = Some (esc [CHR ''a'', QUOTE], b) \<and> b \<noteq> []"
  by (rule uci_escape_correct) (simp_all add: NUL_def QUOTE_def)

end
