(* ===== verification/Uci_Roundtrip.thy ===== *)
theory Uci_Roundtrip
  imports Uci_File
begin

text \<open>
  What the parser does with the text that the exporter writes: reading a line into the buffer,
  unquoting an argument in place, and from there each command and the whole file, up to the
  theorem that importing an exported package gives the package back.
\<close>

section \<open>Reading a line\<close>

lemma fgets_take_line:
  assumes "NL \<notin> set l"
  shows "fgets_take k (l @ NL # f) = (if length l < k then (l @ [NL], f, False)
    else (take k l, drop k l @ NL # f, False))"
  using assms
proof (induction l arbitrary: k)
  case Nil
  show ?case by (cases k) simp_all
next
  case (Cons c l)
  then show ?case by (cases k) auto
qed

text \<open>Everything of the parser state but the buffer, the position, the stream and the line count.\<close>

definition keeps :: "parser \<Rightarrow> parser \<Rightarrow> bool" where
  "keeps st st' \<longleftrightarrow> pp_eof st' = pp_eof st \<and> pp_package st' = pp_package st \<and> pp_section st' = pp_section st \<and>
     pp_merge st' = pp_merge st \<and> pp_name st' = pp_name st \<and> pp_root st' = pp_root st \<and>
     pp_strict st' = pp_strict st \<and> pp_junk st' = pp_junk st"

lemma keeps_refl [simp]: "keeps st st"
  by (simp add: keeps_def)

lemma keeps_trans: "keeps a b \<Longrightarrow> keeps b c \<Longrightarrow> keeps a c"
  by (simp add: keeps_def)

lemma keeps_upd [simp]: "keeps st (st'\<lparr>pp_buf := b\<rparr>) = keeps st st'" "keeps st (st'\<lparr>pp_pos := p\<rparr>) = keeps st st'"
  "keeps st (st'\<lparr>pp_file := f\<rparr>) = keeps st st'" "keeps st (st'\<lparr>pp_line := n\<rparr>) = keeps st st'"
  "keeps st (st'\<lparr>pp_gen := g\<rparr>) = keeps st st'"
  by (simp_all add: keeps_def)

lemma uci_getln_loop_line:
  assumes "ofs + 2 \<le> length b" "pp_file st = l @ NL # f" "NL \<notin> set l" "NUL \<notin> set l"
  shows "\<exists>J st'. uci_getln_loop ofs b st = Some st' \<and> keeps st st' \<and> pp_pos st' = pp_pos st \<and>
    pp_file st' = f \<and> pp_buf st' = Some (take ofs b @ l @ NL # NUL # J)"
  using assms
proof (induction l arbitrary: ofs b st rule: measure_induct_rule [where f = length])
  case (less l)
  define k where "k = length b - ofs - 1"
  have k: "0 < k" "k \<le> length b" using less.prems(1) by (simp_all add: k_def)
  define b0 where "b0 = b[ofs := NUL]"
  have b0: "length b0 = length b" "take ofs b0 = take ofs b" by (simp_all add: b0_def)
  have nn: "NL \<noteq> NUL" by (simp add: NL_def NUL_def)
  show ?case
  proof (cases "length l < k")
    case True
    have fg: "fgets_take (length b0 - ofs - 1) (pp_file st) = (l @ [NL], f, False)"
      using True fgets_take_line [OF less.prems(3)] by (simp add: less.prems(2) b0(1) k_def)
    define J where "J = drop (Suc (Suc (ofs + length l))) b0"
    let ?b1 = "take ofs b @ l @ NL # NUL # J"
    have tw: "takeWhile (\<lambda>c. c \<noteq> NUL) (l @ NL # NUL # J) = l @ [NL]"
      using takeWhile_nul [of "l @ [NL]" J] less.prems(4) nn by simp
    have ofs: "length (take ofs b) = ofs" using less.prems(1) by simp
    have dr: "drop ofs ?b1 = l @ NL # NUL # J" "?b1 ! ofs = (l @ NL # NUL # J) ! 0"
      "?b1 ! (ofs + length l) = NL"
      using ofs by (simp_all add: nth_append)
    have "(l @ NL # NUL # J) ! 0 \<noteq> NUL" using less.prems(4) nn by (cases l) auto
    with dr fg tw show ?thesis
      by (subst uci_getln_loop.simps)
        (use less.prems(1) in \<open>simp add: Let_def J_def [symmetric] b0_def [symmetric] b0(2) keeps_def\<close>)
  next
    case False
    have fg: "fgets_take (length b0 - ofs - 1) (pp_file st) = (take k l, drop k l @ NL # f, False)"
      using False fgets_take_line [OF less.prems(3)] by (simp add: less.prems(2) b0(1) k_def)
    have tk: "length (take k l) = k" "take k l \<noteq> []" using False k by auto
    have full: "drop (ofs + k + 1) b0 = []" using less.prems(1) by (simp add: b0(1) k_def)
    let ?b1 = "take ofs b @ take k l @ [NUL]"
    have ofs: "length (take ofs b) = ofs" using less.prems(1) by simp
    have tw: "takeWhile (\<lambda>c. c \<noteq> NUL) (take k l @ [NUL]) = take k l"
      using takeWhile_nul [of "take k l" "[]"] less.prems(4) by (auto dest: in_set_takeD)
    obtain j where j: "k = Suc j" using k(1) by (cases k) auto
    have dr: "drop ofs ?b1 = take k l @ [NUL]" "?b1 ! ofs = take k l ! 0"
      "?b1 ! (ofs + k - 1) = take k l ! (k - 1)"
      using ofs tk k by (simp_all add: nth_append j)
    have ne: "take k l ! 0 \<noteq> NUL" "take k l ! (k - 1) \<noteq> NL"
      using less.prems(3,4) tk k False by (metis in_set_takeD nth_mem length_greater_0_conv diff_less zero_less_one)+
    let ?st = "st\<lparr>pp_file := drop k l @ NL # f, pp_eof := pp_eof st\<rparr>"
    have rec: "uci_getln_loop ofs b st = uci_getln_loop (ofs + k) (double ?st ?b1) (?st\<lparr>pp_gen := pp_gen st + 1\<rparr>)"
      using dr fg tw ne tk full
      by (subst uci_getln_loop.simps)
        (use less.prems(1) in \<open>simp add: Let_def b0_def [symmetric] b0(2)\<close>)
    have "length (drop k l) < length l" using k(1) False by simp
    moreover have "ofs + k + 2 \<le> length (double ?st ?b1)" using ofs tk less.prems(1) k(1) by (simp add: double_def)
    moreover have "NL \<notin> set (drop k l)" "NUL \<notin> set (drop k l)" using less.prems(3,4) by (auto dest: in_set_dropD)
    ultimately obtain J st' where st': "uci_getln_loop (ofs + k) (double ?st ?b1) (?st\<lparr>pp_gen := pp_gen st + 1\<rparr>) = Some st'"
      "keeps ?st st'" "pp_pos st' = pp_pos st" "pp_file st' = f"
      "pp_buf st' = Some (take (ofs + k) (double ?st ?b1) @ drop k l @ NL # NUL # J)"
      using less.IH [of "drop k l" "ofs + k" "double ?st ?b1" "?st\<lparr>pp_gen := pp_gen st + 1\<rparr>"]
      by (fastforce simp: keeps_def)
    have "take (ofs + k) (double ?st ?b1) = take ofs b @ take k l" using ofs tk by (simp add: double_def)
    then have "pp_buf st' = Some (take ofs b @ l @ NL # NUL # J)"
      using st'(5) by (metis append_assoc append_take_drop_id)
    moreover have "keeps st st'" using st'(2) by (simp add: keeps_def)
    ultimately show ?thesis using st'(1,3,4) rec by (intro exI [of _ J] exI [of _ st']) simp
  qed
qed

lemma uci_getln_loop_eof:
  assumes "ofs + 2 \<le> length b" "pp_file st = []"
  shows "uci_getln_loop ofs b st = Some (st\<lparr>pp_file := [], pp_eof := True, pp_buf := Some (b[ofs := NUL])\<rparr>)"
proof -
  obtain k where "length b - ofs - 1 = Suc k" using assms(1) by (metis Suc_diff_Suc add_2_eq_Suc' diff_Suc_eq_diff_pred diff_is_0_eq not_less_eq_eq One_nat_def Suc_le_lessD diff_commute not_le_imp_less zero_less_diff)
  then show ?thesis using assms by (subst uci_getln_loop.simps) (simp add: Let_def)
qed

section \<open>Unquoting in place\<close>

text \<open>While an argument is parsed the buffer holds, before the position, what precedes the
  argument, the characters of the argument so far and a gap; behind it the rest of the line.\<close>

definition line_end :: "string \<Rightarrow> bool" where
  "line_end t \<longleftrightarrow> t = [] \<or> last t = NL"

definition one_line :: "string \<Rightarrow> bool" where
  "one_line t \<longleftrightarrow> t = [] \<or> (last t = NL \<and> NL \<notin> set (butlast t))"

definition shape :: "parser \<Rightarrow> string \<Rightarrow> string \<Rightarrow> string \<Rightarrow> string \<Rightarrow> bool" where
  "shape st A out gap t \<longleftrightarrow> (\<exists>J. pp_buf st = Some (A @ out @ gap @ t @ NUL # J)) \<and>
     pp_pos st = length (A @ out @ gap) \<and> NUL \<notin> set t \<and> one_line t \<and>
     2 \<le> length (the (pp_buf st)) \<and> NUL \<notin> set (pp_file st) \<and> line_end (pp_file st)"

lemma shape_cur:
  "shape st A out gap t \<Longrightarrow> pctx_cur_char st = Some (case t of [] \<Rightarrow> NUL | c # _ \<Rightarrow> c)"
  by (auto simp: shape_def pctx_char_def nth_append split: list.splits)

lemma one_line_tl: "one_line (c # t) \<Longrightarrow> one_line t"
  by (auto simp: one_line_def split: if_splits)

lemma one_line_ne: "one_line (c # t) \<Longrightarrow> t = [] \<longleftrightarrow> c = NL"
  by (auto simp: one_line_def split: if_splits)

lemma shape_advance: "shape st A out gap (c # t) \<Longrightarrow> shape (advance 1 st) A out (gap @ [c]) t"
  by (auto simp: shape_def dest: one_line_tl)

lemma shape_addc:
  assumes "shape st A out gap (c # t)"
  obtains st' gap' where "addc (length (A @ out)) st = Some (length (A @ out @ [c]), st')"
    "shape st' A (out @ [c]) gap' t" "length gap' = length gap" "keeps st st'" "pp_file st' = pp_file st"
    "pp_gen st' = pp_gen st"
proof -
  from assms obtain J where J: "pp_buf st = Some (A @ out @ gap @ c # t @ NUL # J)" by (auto simp: shape_def)
  have cur: "pctx_cur_char st = Some c" using shape_cur [OF assms] by simp
  define r where "r = t @ NUL # J"
  obtain gap' where gap': "(A @ out @ gap @ c # r)[length (A @ out) := c] = (A @ out @ [c]) @ gap' @ r"
    "length gap' = length gap"
  proof (cases gap)
    case Nil
    with that [of "[]"] show thesis by (simp add: list_update_append)
  next
    case (Cons g gs)
    with that [of "gs @ [c]"] show thesis by (simp add: list_update_append)
  qed
  let ?st = "st\<lparr>pp_buf := Some ((A @ out @ [c]) @ gap' @ t @ NUL # J), pp_pos := pp_pos st + 1\<rparr>"
  have "addc (length (A @ out)) st = Some (length (A @ out @ [c]), ?st)"
    using cur gap'(1) J by (simp add: addc_def set_char_def r_def)
  moreover have "shape ?st A (out @ [c]) gap' t"
    using assms gap'(2) J by (auto simp: shape_def dest: one_line_tl)
  ultimately show thesis using gap'(2) by (intro that [of ?st gap']) simp_all
qed

lemma first_line:
  assumes "line_end f" "f \<noteq> []"
  obtains l f' where "f = l @ NL # f'" "NL \<notin> set l"
proof -
  have "NL \<in> set f" using assms by (metis last_in_set line_end_def)
  with that show thesis by (meson split_list_first)
qed

lemma line_end_append: "line_end (l @ NL # f) \<Longrightarrow> line_end f"
  by (auto simp: line_end_def split: if_splits)

lemma shape_getln:
  assumes "shape st A out gap []" "pp_file st \<noteq> []"
  obtains st' t where "uci_getln (pp_pos st) st = Some st'" "shape st' A out gap t" "t \<noteq> []"
    "t @ pp_file st' = pp_file st" "keeps st st'"
proof -
  from assms(1) obtain J where J: "pp_buf st = Some (A @ out @ gap @ NUL # J)" "pp_pos st = length (A @ out @ gap)"
    "NUL \<notin> set (pp_file st)" "line_end (pp_file st)" by (auto simp: shape_def)
  obtain l f where f: "pp_file st = l @ NL # f" "NL \<notin> set l" using first_line [OF J(4) assms(2)] .
  define b where "b = A @ out @ gap @ NUL # J"
  define st0 where "st0 = (if length b - 1 \<le> pp_pos st then st\<lparr>pp_gen := pp_gen st + 1\<rparr> else st)"
  define b0 where "b0 = (if length b - 1 \<le> pp_pos st then double st b else b)"
  have b0: "pp_pos st + 2 \<le> length b0" "take (pp_pos st) b0 = A @ out @ gap"
    using J(2) by (auto simp: b0_def b_def double_def Suc_le_eq)
  have st0: "pp_file st0 = l @ NL # f" "keeps st st0" "pp_pos st0 = pp_pos st" using f(1) by (auto simp: st0_def)
  have nul: "NUL \<notin> set l" using J(3) f(1) by simp
  from uci_getln_loop_line [OF b0(1) st0(1) f(2) nul] obtain K st' where
    st': "uci_getln_loop (pp_pos st) b0 st0 = Some st'" "keeps st0 st'" "pp_pos st' = pp_pos st0" "pp_file st' = f"
      "pp_buf st' = Some ((A @ out @ gap) @ l @ NL # NUL # K)" unfolding b0(2) by auto
  have "uci_getln (pp_pos st) st = Some st'"
    using st'(1) J(1) by (auto simp: uci_getln_def b0_def st0_def b_def [symmetric] split: if_splits)
  moreover have "shape st' A out gap (l @ [NL])"
    using st' st0(3) J f nul line_end_append [of l f]
    by (auto simp: shape_def line_end_def one_line_def butlast_append NL_def NUL_def)
  ultimately show thesis using st' st0(2) f keeps_trans
    by (intro that [of st' "l @ [NL]"]) (auto intro: keeps_trans)
qed

lemma parse_single_quote_loop_spec:
  assumes "shape st A out gap t" "t @ pp_file st = a @ QUOTE # r" "QUOTE \<notin> set a"
  shows "\<exists>st' gap' t'. parse_single_quote_loop (length (A @ out)) st = Some (Inr (length (A @ out @ a)), st') \<and>
    shape st' A (out @ a) gap' t' \<and> gap' \<noteq> [] \<and> t' \<noteq> [] \<and> t' @ pp_file st' = r \<and> keeps st st'"
  using assms
proof (induction a arbitrary: st out gap t)
  case Nil
  have *: "\<exists>st' gap' t'. parse_single_quote_loop (length (A @ out)) st = Some (Inr (length (A @ out)), st') \<and>
      shape st' A out gap' t' \<and> gap' \<noteq> [] \<and> t' \<noteq> [] \<and> t' @ pp_file st' = r \<and> keeps st st'"
    if sh: "shape st A out gap t" and t: "t @ pp_file st = QUOTE # r" "t \<noteq> []" for st gap t
  proof -
    from t obtain t' where t': "t = QUOTE # t'" by (cases t) auto
    have "t' \<noteq> []" using sh t' one_line_ne [of QUOTE t'] by (simp add: shape_def NL_def QUOTE_def)
    moreover have "parse_single_quote_loop (length (A @ out)) st = Some (Inr (length (A @ out)), advance 1 st)"
      using shape_cur [OF sh] t' by (subst parse_single_quote_loop.simps) simp
    ultimately show ?thesis using shape_advance [OF sh [unfolded t']] t t' by fastforce
  qed
  show ?case
  proof (cases "t = []")
    case True
    with Nil.prems have "pp_file st \<noteq> []" by auto
    from shape_getln [OF Nil.prems(1) [unfolded True] this] obtain st1 t1 where
      st1: "uci_getln (pp_pos st) st = Some st1" "shape st1 A out gap t1" "t1 \<noteq> []"
        "t1 @ pp_file st1 = pp_file st" "keeps st st1" .
    have "pctx_cur_char st1 = Some QUOTE" using shape_cur [OF st1(2)] st1(3,4) Nil.prems(2) True by (cases t1) auto
    then have "parse_single_quote_loop (length (A @ out)) st = parse_single_quote_loop (length (A @ out)) st1"
      using shape_cur [OF Nil.prems(1)] True st1(1)
      by (subst parse_single_quote_loop.simps) (simp add: NUL_def QUOTE_def)
    with * [OF st1(2) _ st1(3)] st1 Nil.prems(2) True keeps_trans show ?thesis by simp blast
  qed (use * Nil in auto)
next
  case (Cons c a)
  have *: "\<exists>st' gap' t'. parse_single_quote_loop (length (A @ out)) st = Some (Inr (length (A @ out @ c # a)), st') \<and>
      shape st' A (out @ c # a) gap' t' \<and> gap' \<noteq> [] \<and> t' \<noteq> [] \<and> t' @ pp_file st' = r \<and> keeps st st'"
    if sh: "shape st A out gap t" and t: "t @ pp_file st = c # a @ QUOTE # r" "t \<noteq> []" for st gap t
  proof -
    from t obtain t1 where t1: "t = c # t1" by (cases t) auto
    have c: "c \<noteq> QUOTE" "c \<noteq> NUL" using Cons.prems(3) sh t1 by (auto simp: shape_def)
    from shape_addc [OF sh [unfolded t1]] obtain st1 gap1 where st1:
      "addc (length (A @ out)) st = Some (length (A @ out @ [c]), st1)" "shape st1 A (out @ [c]) gap1 t1"
      "keeps st st1" "pp_file st1 = pp_file st" .
    have "parse_single_quote_loop (length (A @ out)) st = parse_single_quote_loop (length (A @ out @ [c])) st1"
      using shape_cur [OF sh] t1 c st1(1) by (subst parse_single_quote_loop.simps) simp
    moreover have "t1 @ pp_file st1 = a @ QUOTE # r" "QUOTE \<notin> set a" using t t1 st1(4) Cons.prems(3) by auto
    from Cons.IH [OF st1(2) this] obtain st2 gap2 t2 where
      "parse_single_quote_loop (length (A @ out @ [c])) st1 = Some (Inr (length (A @ (out @ [c]) @ a)), st2)"
      "shape st2 A ((out @ [c]) @ a) gap2 t2" "gap2 \<noteq> []" "t2 \<noteq> []" "t2 @ pp_file st2 = r" "keeps st1 st2" by blast
    ultimately show ?thesis using keeps_trans [OF st1(3)]
      by (intro exI [of _ st2] exI [of _ gap2] exI [of _ t2]) simp
  qed
  show ?case
  proof (cases "t = []")
    case True
    with Cons.prems have "pp_file st \<noteq> []" by auto
    from shape_getln [OF Cons.prems(1) [unfolded True] this] obtain st1 t1 where
      st1: "uci_getln (pp_pos st) st = Some st1" "shape st1 A out gap t1" "t1 \<noteq> []"
        "t1 @ pp_file st1 = pp_file st" "keeps st st1" .
    have "pctx_cur_char st1 = Some c" "c \<noteq> NUL" using shape_cur [OF st1(2)] st1(2,3,4) Cons.prems(2) True
      by (cases t1, auto simp: shape_def)+
    then have "parse_single_quote_loop (length (A @ out)) st = parse_single_quote_loop (length (A @ out)) st1"
      using shape_cur [OF Cons.prems(1)] True st1(1)
      by (subst parse_single_quote_loop.simps) (simp add: NUL_def QUOTE_def)
    with * [OF st1(2) _ st1(3)] st1 Cons.prems(2) True keeps_trans show ?thesis by simp blast
  qed (use * Cons in auto)
qed

section \<open>Arguments\<close>

text \<open>A character that stands for itself in an unquoted argument.\<close>

definition plain_char :: "char \<Rightarrow> bool" where
  "plain_char c \<longleftrightarrow> c \<noteq> NUL \<and> \<not> isspace c \<and> c \<noteq> QUOTE \<and> c \<noteq> DQUOTE \<and> c \<noteq> CHR ''#'' \<and> c \<noteq> CHR '';'' \<and> c \<noteq> BACKSLASH"

lemma char_simps [simp]: "isspace NL" "isspace TAB" "isspace (CHR '' '')" "\<not> isspace QUOTE" "\<not> isspace BACKSLASH"
  "QUOTE \<noteq> NUL" "NL \<noteq> NUL" "TAB \<noteq> NUL" "BACKSLASH \<noteq> NUL" "BACKSLASH \<noteq> QUOTE" "BACKSLASH \<noteq> DQUOTE" "QUOTE \<noteq> NL"
  "BACKSLASH \<noteq> CHR ''#''" "BACKSLASH \<noteq> CHR '';''" "BACKSLASH \<noteq> NL" "QUOTE \<noteq> CR" "CHR '' '' \<noteq> NUL" "CHR '' '' \<noteq> NL"
  "QUOTE \<noteq> CHR '';''" "NUL \<noteq> CHR '';''" "NUL \<noteq> QUOTE" "NUL \<noteq> DQUOTE" "NUL \<noteq> CHR ''#''" "NUL \<noteq> BACKSLASH" "\<not> isspace NUL"
  "TAB \<noteq> NL" "CHR '' '' \<noteq> TAB" "NL \<noteq> CHR '' ''"
  by (simp_all add: isspace_def cv_def NL_def TAB_def QUOTE_def BACKSLASH_def NUL_def CR_def DQUOTE_def)

lemma parse_str_body_plain:
  assumes "shape st A out gap (c # t)" "plain_char c"
  obtains st' gap' where "parse_str_body (length (A @ out)) st = Some (Inr (length (A @ out @ [c]), None), st')"
    "shape st' A (out @ [c]) gap' t" "keeps st st'" "pp_file st' = pp_file st"
proof -
  from shape_addc [OF assms(1)] obtain st1 gap1 where st1:
    "addc (length (A @ out)) st = Some (length (A @ out @ [c]), st1)" "shape st1 A (out @ [c]) gap1 t"
    "keeps st st1" "pp_file st1 = pp_file st" .
  moreover have "parse_str_body (length (A @ out)) st = Some (Inr (length (A @ out @ [c]), None), st1)"
    using shape_cur [OF assms(1)] st1(1) assms(2) by (simp add: parse_str_body_def plain_char_def)
  ultimately show thesis using that by blast
qed

lemma parse_str_loop_plain:
  assumes "shape st A out gap (v @ w # t)" "list_all plain_char v" "v \<noteq> []" "isspace w"
  shows "\<exists>st' gap'. parse_str_loop (length (A @ out)) st = Some (Inr (length (A @ out @ v), True), st') \<and>
    shape st' A (out @ v) gap' (w # t) \<and> pp_file st' = pp_file st \<and> keeps st st'"
  using assms(1,2,3)
proof (induction v arbitrary: st out gap)
  case (Cons c v)
  from Cons.prems(2) have "plain_char c" by simp
  from parse_str_body_plain [OF Cons.prems(1) [simplified] this] obtain st1 gap1 where
    st1: "parse_str_body (length (A @ out)) st = Some (Inr (length (A @ out @ [c]), None), st1)"
    "shape st1 A (out @ [c]) gap1 (v @ w # t)" "keeps st st1" "pp_file st1 = pp_file st" .
  note cur = shape_cur [OF st1(2)]
  show ?case
  proof (cases v)
    case Nil
    with st1 cur assms(4) show ?thesis
      by (subst parse_str_loop.simps) (auto intro!: exI [of _ gap1])
  next
    case (Cons d v')
    have "d \<noteq> NUL" "\<not> isspace d" using Cons.prems(2) Cons by (auto simp: plain_char_def)
    then have "parse_str_loop (length (A @ out)) st = parse_str_loop (length (A @ out @ [c])) st1"
      using st1(1) cur Cons by (subst parse_str_loop.simps) simp
    moreover obtain st2 gap2 where
      "parse_str_loop (length (A @ out @ [c])) st1 = Some (Inr (length (A @ (out @ [c]) @ v), True), st2)"
      "shape st2 A ((out @ [c]) @ v) gap2 (w # t)" "pp_file st2 = pp_file st1" "keeps st1 st2"
      using Cons.IH [OF st1(2)] Cons.prems(2) Cons by auto
    ultimately show ?thesis using st1(4) keeps_trans [OF st1(3)]
      by (intro exI [of _ st2] exI [of _ gap2]) simp
  qed
qed simp

lemma parse_str_body_quoted:
  assumes "shape st A out gap t" "t \<noteq> []" "t @ pp_file st = QUOTE # a @ QUOTE # r" "QUOTE \<notin> set a"
  obtains st' gap' t' where
    "parse_str_body (length (A @ out)) st = Some (Inr (length (A @ out @ a), None), st')"
    "shape st' A (out @ a) gap' t'" "gap' \<noteq> []" "t' \<noteq> []" "t' @ pp_file st' = r" "keeps st st'"
proof -
  from assms(2,3) obtain t1 where t1: "t = QUOTE # t1" "t1 @ pp_file (advance 1 st) = a @ QUOTE # r"
    by (cases t) auto
  have "shape (advance 1 st) A out (gap @ [QUOTE]) t1" using shape_advance assms(1) t1(1) by simp
  from parse_single_quote_loop_spec [OF this t1(2) assms(4)] obtain st' gap' t' where
    st': "parse_single_quote_loop (length (A @ out)) (advance 1 st) = Some (Inr (length (A @ out @ a)), st')"
    "shape st' A (out @ a) gap' t'" "gap' \<noteq> []" "t' \<noteq> []" "t' @ pp_file st' = r" "keeps (advance 1 st) st'" by blast
  moreover have "parse_str_body (length (A @ out)) st = Some (Inr (length (A @ out @ a), None), st')"
    using shape_cur [OF assms(1)] t1(1) st'(1) by (simp add: parse_str_body_def parse_single_quote_def)
  moreover have "keeps st st'" using st'(6) by (simp add: keeps_def)
  ultimately show thesis using that by blast
qed

lemma parse_str_body_backslash:
  assumes "shape st A out gap (BACKSLASH # QUOTE # t)"
  obtains st' gap' where
    "parse_str_body (length (A @ out)) st = Some (Inr (length (A @ out @ [QUOTE]), None), st')"
    "shape st' A (out @ [QUOTE]) gap' t" "pp_file st' = pp_file st" "keeps st st'"
proof -
  have sh: "shape (advance 1 st) A out (gap @ [BACKSLASH]) (QUOTE # t)" using shape_advance [OF assms] .
  from shape_addc [OF this] obtain st1 gap1 where st1:
    "addc (length (A @ out)) (advance 1 st) = Some (length (A @ out @ [QUOTE]), st1)"
    "shape st1 A (out @ [QUOTE]) gap1 t" "keeps (advance 1 st) st1" "pp_file st1 = pp_file (advance 1 st)" .
  have "parse_backslash st = Some (True, advance 1 st)"
    using shape_cur [OF sh] by (simp add: parse_backslash_def)
  then have "parse_str_body (length (A @ out)) st = Some (Inr (length (A @ out @ [QUOTE]), None), st1)"
    using shape_cur [OF assms] st1(1) by (simp add: parse_str_body_def)
  moreover have "keeps st st1" using st1(3) by (simp add: keeps_def)
  ultimately show thesis using that st1(2,4) by simp
qed

lemma esc_first_quote:
  obtains "QUOTE \<notin> set v" "esc v = v"
  | a u where "v = a @ QUOTE # u" "QUOTE \<notin> set a" "esc v = a @ QUOTE # BACKSLASH # QUOTE # QUOTE # esc u"
proof (rule split_char_cases [of QUOTE v])
  assume "QUOTE \<notin> set v" then show thesis using that(1) esc_plain by blast
next
  fix a u assume "v = a @ QUOTE # u" "QUOTE \<notin> set a"
  then show thesis using that(2) [of a u] by (simp add: esc_plain UCI_QUOTE_ESCAPE_def)
qed

lemma parse_str_loop_quoted:
  assumes "shape st A out gap t" "t \<noteq> []" "t @ pp_file st = QUOTE # esc v @ QUOTE # w # r" "isspace w"
  shows "\<exists>st' gap' t'. parse_str_loop (length (A @ out)) st = Some (Inr (length (A @ out @ v), True), st') \<and>
    shape st' A (out @ v) gap' (w # t') \<and> t' @ pp_file st' = r \<and> keeps st st'"
  using assms(1,2,3)
proof (induction v arbitrary: st out gap t rule: measure_induct_rule [where f = length])
  case (less v)
  show ?case
  proof (rule esc_first_quote [of v])
    assume v: "QUOTE \<notin> set v" "esc v = v"
    from parse_str_body_quoted [OF less.prems(1,2) less.prems(3) [unfolded v(2)] v(1)]
    obtain st1 gap1 t1 where st1:
      "parse_str_body (length (A @ out)) st = Some (Inr (length (A @ out @ v), None), st1)"
      "shape st1 A (out @ v) gap1 t1" "t1 \<noteq> []" "t1 @ pp_file st1 = w # r" "keeps st st1" .
    then obtain t2 where t2: "t1 = w # t2" "t2 @ pp_file st1 = r" by (cases t1) auto
    with st1 shape_cur [OF st1(2)] assms(4) show ?thesis
      by (subst parse_str_loop.simps) auto
  next
    fix a u
    assume v: "v = a @ QUOTE # u" "QUOTE \<notin> set a" "esc v = a @ QUOTE # BACKSLASH # QUOTE # QUOTE # esc u"
    have p3: "t @ pp_file st = QUOTE # a @ QUOTE # (BACKSLASH # QUOTE # QUOTE # esc u @ QUOTE # w # r)"
      using less.prems(3) v(3) by simp
    from parse_str_body_quoted [OF less.prems(1,2) p3 v(2)]
    obtain st1 gap1 t1 where st1:
      "parse_str_body (length (A @ out)) st = Some (Inr (length (A @ out @ a), None), st1)"
      "shape st1 A (out @ a) gap1 t1" "t1 \<noteq> []"
      "t1 @ pp_file st1 = BACKSLASH # QUOTE # QUOTE # esc u @ QUOTE # w # r" "keeps st st1" .
    obtain t2 where t2: "t1 = BACKSLASH # QUOTE # QUOTE # t2"
    proof -
      have le: "one_line t1" using st1(2) by (simp add: shape_def)
      from st1(3,4) obtain x where x: "t1 = BACKSLASH # x" by (cases t1) auto
      with le obtain y where y: "x = QUOTE # y" using st1(4) one_line_ne [of BACKSLASH x] by (cases x) auto
      with le x obtain z where "y = QUOTE # z"
        using st1(4) one_line_ne [OF one_line_tl, of BACKSLASH QUOTE y] by (cases y) auto
      with x y that show thesis by simp
    qed
    from parse_str_body_backslash [OF st1(2) [unfolded t2]] obtain st2 gap2 where st2:
      "parse_str_body (length (A @ out @ a)) st1 = Some (Inr (length (A @ (out @ a) @ [QUOTE]), None), st2)"
      "shape st2 A ((out @ a) @ [QUOTE]) gap2 (QUOTE # t2)" "pp_file st2 = pp_file st1" "keeps st1 st2" by auto
    have c1: "pctx_cur_char st1 = Some BACKSLASH" "pctx_cur_char st2 = Some QUOTE"
      using shape_cur [OF st1(2)] shape_cur [OF st2(2)] t2 by simp_all
    have "parse_str_loop (length (A @ out)) st = parse_str_loop (length (A @ out @ a)) st1"
      using st1(1) c1 by (subst parse_str_loop.simps) simp
    also have "\<dots> = parse_str_loop (length (A @ ((out @ a) @ [QUOTE]))) st2"
      using st2(1) c1 by (subst parse_str_loop.simps) simp
    finally have eq: "parse_str_loop (length (A @ out)) st = \<dots>" .
    have "length u < length v" "(QUOTE # t2) @ pp_file st2 = QUOTE # esc u @ QUOTE # w # r"
      using v(1) st1(4) st2(3) t2 by simp_all
    from less.IH [OF this(1) st2(2) _ this(2)] obtain st3 gap3 t3 where
      "parse_str_loop (length (A @ ((out @ a) @ [QUOTE]))) st2 =
        Some (Inr (length (A @ ((out @ a) @ [QUOTE]) @ u), True), st3)"
      "shape st3 A (((out @ a) @ [QUOTE]) @ u) gap3 (w # t3)" "t3 @ pp_file st3 = r" "keeps st2 st3" by blast
    then show ?thesis using eq v(1) keeps_trans [OF st1(5) keeps_trans [OF st2(4)]]
      by (intro exI [of _ st3] exI [of _ gap3] exI [of _ t3]) simp
  qed
qed

lemma parse_str_loop_prefix:
  assumes "shape st A out gap (v @ t)" "list_all plain_char v" "t \<noteq> []" "\<not> isspace (hd t)"
  shows "\<exists>st' gap'. parse_str_loop (length (A @ out)) st = parse_str_loop (length (A @ out @ v)) st' \<and>
    shape st' A (out @ v) gap' t \<and> pp_file st' = pp_file st \<and> keeps st st'"
  using assms(1,2)
proof (induction v arbitrary: st out gap)
  case Nil
  then show ?case by auto
next
  case (Cons c v)
  from Cons.prems(2) have "plain_char c" by simp
  from parse_str_body_plain [OF Cons.prems(1) [simplified] this] obtain st1 gap1 where
    st1: "parse_str_body (length (A @ out)) st = Some (Inr (length (A @ out @ [c]), None), st1)"
    "shape st1 A (out @ [c]) gap1 (v @ t)" "keeps st st1" "pp_file st1 = pp_file st" .
  obtain d z where d: "v @ t = d # z" "d \<noteq> NUL" "\<not> isspace d"
    using Cons.prems(2) assms(3,4) st1(2) by (cases v; cases t) (auto simp: plain_char_def shape_def)
  then have "parse_str_loop (length (A @ out)) st = parse_str_loop (length (A @ out @ [c])) st1"
    using st1(1) shape_cur [OF st1(2)] by (subst parse_str_loop.simps) simp
  moreover obtain st2 gap2 where
    "parse_str_loop (length (A @ (out @ [c]))) st1 = parse_str_loop (length (A @ (out @ [c]) @ v)) st2"
    "shape st2 A ((out @ [c]) @ v) gap2 t" "pp_file st2 = pp_file st1" "keeps st1 st2"
    using Cons.IH [OF st1(2)] Cons.prems(2) by auto
  ultimately show ?case using st1(4) keeps_trans [OF st1(3)]
    by (intro exI [of _ st2] exI [of _ gap2]) simp
qed

text \<open>The text of an argument with value \<open>v\<close>: as it is, or with its end quoted.\<close>

definition arg_text :: "string \<Rightarrow> string \<Rightarrow> bool" where
  "arg_text v x \<longleftrightarrow> (x = v \<and> v \<noteq> [] \<and> list_all plain_char v) \<or>
     (\<exists>u q. list_all plain_char u \<and> v = u @ q \<and> x = u @ QUOTE # esc q @ [QUOTE])"

lemma arg_text_quoted: "arg_text v (QUOTE # esc v @ [QUOTE])"
  unfolding arg_text_def by (rule disjI2, rule exI [of _ "[]"]) simp

lemma one_line_words:
  assumes "one_line t" "t \<noteq> []" "t @ f = v @ w # r" "list_all (\<lambda>c. c \<noteq> NL) v"
  obtains t' where "t = v @ w # t'" "t' @ f = r" "t' = [] \<longleftrightarrow> w = NL"
  using assms
proof (induction v arbitrary: t thesis)
  case Nil
  then show ?case using one_line_ne by (cases t) auto
next
  case (Cons c v)
  obtain t1 where t1: "t = c # t1" "t1 @ f = v @ w # r" using Cons.prems(3,4) by (cases t) auto
  have "c \<noteq> NL" using Cons.prems(5) by simp
  with Cons.prems(2) t1(1) have "t1 \<noteq> []" "one_line t1" by (auto dest: one_line_ne one_line_tl)
  with Cons.IH [of t1] t1 Cons.prems(1,5) show ?case by auto
qed

lemma plain_no_newline: "list_all plain_char v \<Longrightarrow> list_all (\<lambda>c. c \<noteq> NL) v"
  by (erule list.pred_mono_strong) (auto simp: plain_char_def)

lemma parse_str_loop_arg:
  assumes "shape st A [] gap t" "t \<noteq> []" "t @ pp_file st = x @ w # r" "isspace w" "arg_text v x"
  obtains st' gap' t' where "parse_str_loop (length A) st = Some (Inr (length (A @ v), True), st')"
    "shape st' A v gap' (w # t')" "t' @ pp_file st' = r" "keeps st st'"
proof (cases "x = v \<and> v \<noteq> [] \<and> list_all plain_char v")
  case True
  then have x: "x = v" "v \<noteq> []" "list_all plain_char v" by auto
  have "one_line t" using assms(1) by (simp add: shape_def)
  moreover have "list_all (\<lambda>c. c \<noteq> NL) v" using plain_no_newline [OF x(3)] .
  ultimately obtain t' where t': "t = v @ w # t'" "t' @ pp_file st = r"
    by (rule one_line_words [OF _ assms(2) assms(3) [unfolded x(1)]])
  from parse_str_loop_plain [OF assms(1) [unfolded t'(1)] x(3,2) assms(4)] t'(2) that show thesis by auto
next
  case False
  then obtain u q where u: "list_all plain_char u" "v = u @ q" "x = u @ QUOTE # esc q @ [QUOTE]"
    using assms(5) by (auto simp: arg_text_def)
  have eq: "t @ pp_file st = u @ QUOTE # (esc q @ QUOTE # w # r)" using assms(3) u(3) by simp
  have ol: "one_line t" using assms(1) by (simp add: shape_def)
  obtain t' where t': "t = u @ QUOTE # t'" "t' @ pp_file st = esc q @ QUOTE # w # r"
    by (rule one_line_words [OF ol assms(2) eq plain_no_newline [OF u(1)]])
  from parse_str_loop_prefix [OF assms(1) [unfolded t'(1)] u(1)] obtain st1 gap1 where
    st1: "parse_str_loop (length A) st = parse_str_loop (length (A @ u)) st1" "shape st1 A u gap1 (QUOTE # t')"
    "pp_file st1 = pp_file st" "keeps st st1" by auto
  have "(QUOTE # t') @ pp_file st1 = QUOTE # esc q @ QUOTE # w # r" using t'(2) st1(3) by simp
  from parse_str_loop_quoted [OF st1(2) _ this assms(4)] obtain st2 gap2 t2 where
    "parse_str_loop (length (A @ u)) st1 = Some (Inr (length (A @ u @ q), True), st2)"
    "shape st2 A (u @ q) gap2 (w # t2)" "t2 @ pp_file st2 = r" "keeps st1 st2" by blast
  with that st1(1) u(2) keeps_trans [OF st1(4)] show thesis by auto
qed

lemma parse_str_arg:
  assumes "shape st A [] [] t" "t \<noteq> []" "t @ pp_file st = x @ w # r" "isspace w" "arg_text v x"
  obtains st' g t' where "parse_str (length A) st = Some (Inr (), st')"
    "shape st' (A @ v @ NUL # g) [] [] t'" "t' @ pp_file st' = r" "keeps st st'" "t' = [] \<longleftrightarrow> w = NL"
proof -
  from parse_str_loop_arg [OF assms] obtain st1 gap t1 where
    st1: "parse_str_loop (length A) st = Some (Inr (length (A @ v), True), st1)"
    "shape st1 A v gap (w # t1)" "t1 @ pp_file st1 = r" "keeps st st1" .
  note cur = shape_cur [OF st1(2)]
  have w: "w \<noteq> NUL" using assms(4) by auto
  have sh: "shape (advance 1 st1) A v (gap @ [w]) t1" using shape_advance [OF st1(2)] .
  then obtain J where J: "pp_buf st1 = Some (A @ v @ (gap @ [w]) @ t1 @ NUL # J)" by (auto simp: shape_def)
  obtain y g where g: "gap @ [w] = y # g" by (cases gap) auto
  let ?st = "(advance 1 st1)\<lparr>pp_buf := Some (A @ v @ (NUL # g) @ t1 @ NUL # J)\<rparr>"
  have "set_char (length (A @ v)) NUL (advance 1 st1) = Some ?st"
    using J g by (simp add: set_char_def list_update_append)
  then have "parse_str (length A) st = Some (Inr (), ?st)"
    using st1(1) cur w by (simp add: parse_str_def)
  moreover have "length (gap @ [w]) = length (y # g)" using g by simp
  then have "shape ?st (A @ v @ NUL # g) [] [] t1" using sh J by (auto simp: shape_def)
  moreover have "t1 = [] \<longleftrightarrow> w = NL" using st1(2) one_line_ne by (simp add: shape_def)
  ultimately show thesis using st1(3,4) by (intro that [of ?st g t1]) simp_all
qed

lemma skip_whitespace_spec:
  assumes "shape st A [] [] (ws @ t)" "list_all isspace ws" "t = [] \<or> \<not> isspace (hd t)"
  obtains st' where "skip_whitespace st = Some st'" "shape st' (A @ ws) [] [] t" "keeps st st'"
    "pp_file st' = pp_file st" "pp_buf st' = pp_buf st" "pp_gen st' = pp_gen st"
  using assms
proof (induction ws arbitrary: st A thesis)
  case Nil
  have "skip_whitespace st = Some st"
    using shape_cur [of st A "[]" "[]" t] Nil.prems by (subst skip_whitespace.simps) (auto split: list.splits)
  with Nil.prems show ?case by simp
next
  case (Cons c ws)
  from Cons.prems have c: "isspace c" "c \<noteq> NUL" by auto
  have "shape (advance 1 st) A [] [c] (ws @ t)" using shape_advance [of st A "[]" "[]" c "ws @ t"] Cons.prems by simp
  then have sh: "shape (advance 1 st) (A @ [c]) [] [] (ws @ t)" by (simp add: shape_def)
  have "skip_whitespace st = skip_whitespace (advance 1 st)"
    using shape_cur [OF Cons.prems(2)] c by (subst skip_whitespace.simps) simp
  moreover obtain st' where "skip_whitespace (advance 1 st) = Some st'" "shape st' ((A @ [c]) @ ws) [] [] t"
    "keeps (advance 1 st) st'" "pp_file st' = pp_file (advance 1 st)" "pp_buf st' = pp_buf (advance 1 st)"
    "pp_gen st' = pp_gen (advance 1 st)"
    using Cons.IH [OF _ sh] Cons.prems(3,4) by auto
  ultimately show ?case by (intro Cons.prems(1) [of st']) (simp_all add: keeps_def)
qed

lemma pctx_str_prefix:
  "shape st (A @ v @ NUL # g) out gap t \<Longrightarrow> NUL \<notin> set v \<Longrightarrow> pctx_str st (length A) = Some v"
  by (auto simp: shape_def pctx_str_def takeWhile_nul)

lemma arg_text_first:
  assumes "t \<noteq> []" "t @ f = x @ w # r" "arg_text v x"
  obtains c t' where "t = c # t'" "\<not> isspace c" "c \<noteq> CHR '';''"
proof -
  obtain c x' where "x = c # x'" "\<not> isspace c" "c \<noteq> CHR '';''"
  proof (cases "x = v \<and> v \<noteq> [] \<and> list_all plain_char v")
    case True
    with that show thesis by (cases v) (auto simp: plain_char_def)
  next
    case False
    then obtain u q where "list_all plain_char u" "x = u @ QUOTE # esc q @ [QUOTE]"
      using assms(3) by (auto simp: arg_text_def)
    with that show thesis by (cases u) (auto simp: plain_char_def)
  qed
  with assms(1,2) that show thesis by (cases t) auto
qed

lemma next_arg_spec:
  assumes "shape st A [] [] (ws @ t)" "list_all isspace ws" "t \<noteq> []" "t @ pp_file st = x @ w # r" "isspace w"
    "arg_text v x" "NUL \<notin> set v" "v = [] \<longrightarrow> \<not> required" "nm \<longrightarrow> v = [] \<or> uci_validate_str v nm package"
  obtains st' g t' where "next_arg required nm package st = Some (Inr (length (A @ ws)), st')"
    "shape st' ((A @ ws) @ v @ NUL # g) [] [] t'" "t' @ pp_file st' = r" "keeps st st'" "t' = [] \<longleftrightarrow> w = NL"
proof -
  obtain c t0 where c: "t = c # t0" "\<not> isspace c" "c \<noteq> CHR '';''" by (rule arg_text_first [OF assms(3,4,6)])
  obtain st1 where st1: "skip_whitespace st = Some st1" "shape st1 (A @ ws) [] [] t" "keeps st st1"
    "pp_file st1 = pp_file st" by (rule skip_whitespace_spec [OF assms(1,2)]) (use c in auto)
  have pos: "pp_pos st1 = length (A @ ws)" using st1(2) by (simp add: shape_def)
  have cur: "pctx_cur_char st1 = Some c" using shape_cur [OF st1(2)] c(1) by simp
  obtain st2 g t' where st2: "parse_str (length (A @ ws)) st1 = Some (Inr (), st2)"
    "shape st2 ((A @ ws) @ v @ NUL # g) [] [] t'" "t' @ pp_file st2 = r" "keeps st1 st2" "t' = [] \<longleftrightarrow> w = NL"
    by (rule parse_str_arg [OF st1(2) assms(3) _ assms(5,6)]) (use assms(4) st1(4) in auto)
  have str: "pctx_str st2 (length (A @ ws)) = Some v" using pctx_str_prefix [OF st2(2) assms(7)] .
  have ch: "pctx_char st2 (length (A @ ws)) = Some (case v of [] \<Rightarrow> NUL | d # _ \<Rightarrow> d)"
    using st2(2) by (auto simp: shape_def pctx_char_def nth_append split: list.splits)
  have "next_arg required nm package st = Some (Inr (length (A @ ws)), st2)"
    unfolding next_arg_def using st1(1) cur c(3) pos st2(1) ch str assms(7,8,9)
    by (cases v) (auto simp del: length_append)
  then show thesis using that st2 keeps_trans [OF st1(3)] by blast
qed

lemma next_arg_end:
  assumes "shape st A [] [] []"
  shows "next_arg False nm package st = Some (Inr (length A), st)"
proof -
  have cur: "pctx_cur_char st = Some NUL" "pp_pos st = length A"
    using shape_cur [OF assms] assms by (simp_all add: shape_def)
  have body: "parse_str_body (length A) st = Some (Inr (length A, Some True), st)"
    using cur by (simp add: parse_str_body_def)
  have "parse_str_loop (length A) st = Some (Inr (length A, True), st)"
    using body by (subst parse_str_loop.simps) simp
  moreover have "set_char (length A) NUL st = Some st"
    using assms by (auto simp: shape_def set_char_def list_update_append)
  ultimately have "parse_str (length A) st = Some (Inr (), st)" using cur by (simp add: parse_str_def)
  moreover have "skip_whitespace st = Some st" using cur by (subst skip_whitespace.simps) simp
  ultimately show ?thesis using cur by (simp add: next_arg_def)
qed

lemma assert_eol_end:
  assumes "shape st A [] [] []"
  shows "assert_eol st = Some (Inr (), st)"
proof -
  have cur: "pctx_cur_char st = Some NUL" using shape_cur [OF assms] by simp
  have "pctx_str st (length A) = Some []" using pctx_str_prefix [of st A "[]" "[]" "[]" "[]" "[]"] assms
    by (auto simp: shape_def pctx_str_def)
  moreover have "skip_whitespace st = Some st" using cur by (subst skip_whitespace.simps) simp
  ultimately show ?thesis using next_arg_end [OF assms, of False False] by (simp add: assert_eol_def)
qed

section \<open>Commands\<close>

lemma strtok_skip_word:
  assumes "shape st A [] [] (word @ d # t)" "is_delim d" "word \<noteq> []" "list_all (\<lambda>c. \<not> is_delim c) word"
  obtains st' st'' where "strtok st = Some (Some word, st')" "keeps st st'" "pp_file st' = pp_file st"
    "skip_word st' = Some st''" "shape st'' (A @ word @ [NUL]) [] [] t" "keeps st' st''" "pp_file st'' = pp_file st"
proof -
  from assms(1) obtain J where J: "pp_buf st = Some (A @ word @ d # t @ NUL # J)" "pp_pos st = length A"
    "NUL \<notin> set (word @ d # t)" by (auto simp: shape_def)
  have s: "pctx_str st (pp_pos st) = Some (word @ d # t)"
    using J takeWhile_nul [of "word @ d # t" J] by (simp add: pctx_str_def)
  have tw: "takeWhile is_delim (word @ d # t) = []" "takeWhile (\<lambda>c. \<not> is_delim c) (word @ d # t) = word"
    using assms(2,3,4) by (auto simp: list_all_iff takeWhile_append neq_Nil_conv)
  let ?st = "st\<lparr>pp_buf := Some (A @ word @ NUL # t @ NUL # J)\<rparr>"
  have set: "set_char (pp_pos st + length word) NUL st = Some ?st"
    using J by (simp add: set_char_def list_update_append)
  have tok: "strtok st = Some (Some word, ?st)"
    unfolding strtok_def using s tw set assms(3) by (simp add: Let_def)
  have "pctx_str ?st (length A) = Some word" using J(3) by (simp add: pctx_str_def takeWhile_nul)
  then have skip: "skip_word ?st = Some (advance (length word + 1) ?st)" using J(2) by (simp add: skip_word_def)
  have "shape (advance (length word + 1) ?st) (A @ word @ [NUL]) [] [] t"
  proof -
    have "one_line t" using assms(1) by (auto simp: shape_def one_line_def butlast_append split: if_splits)
    with assms(1) J show ?thesis by (auto simp: shape_def)
  qed
  with tok skip show thesis by (intro that [of ?st "advance (length word + 1) ?st"]) simp_all
qed

text \<open>At the end of the line the loop over the commands stops.\<close>

lemma uci_parse_line_loop_end:
  assumes "shape st A [] [] []"
  shows "uci_parse_line_loop single st = Some (Inr (), st)"
proof -
  from assms have "pctx_str st (pp_pos st) = Some []" by (auto simp: shape_def pctx_str_def)
  then have "strtok st = Some (None, st)" by (simp add: strtok_def Let_def)
  then show ?thesis by (subst uci_parse_line_loop.simps) simp
qed

lemma validate_plain:
  "uci_validate_loop n True False \<Longrightarrow> list_all plain_char n"
proof (induction n)
  case (Cons c n)
  then have "isalnum c \<or> c = CHR ''_''" by (auto split: if_splits)
  then have "plain_char c"
    by (auto simp: plain_char_def isalnum_def isdigit_def isspace_def cv_def NUL_def QUOTE_def DQUOTE_def BACKSLASH_def)
  with Cons show ?case by (auto split: if_splits)
qed simp

lemma plain_nul: "list_all plain_char v \<Longrightarrow> NUL \<notin> set v"
  by (auto simp: list_all_iff plain_char_def)

lemma name_facts:
  assumes "uci_validate_name n"
  shows "n \<noteq> []" "list_all plain_char n" "NUL \<notin> set n" "uci_validate_str n True False" "arg_text n n" "esc n = n"
proof -
  show *: "n \<noteq> []" "list_all plain_char n" "NUL \<notin> set n" "uci_validate_str n True False"
    using assms validate_plain plain_nul by (auto simp: uci_validate_name_def uci_validate_str_def split: if_splits)
  show "arg_text n n" using * by (simp add: arg_text_def)
  have "QUOTE \<notin> set n" using *(2) by (auto simp: list_all_iff plain_char_def)
  then show "esc n = n" by (rule esc_plain)
qed

lemma deref_prefix:
  "shape st (A @ v @ NUL # g) out gap t \<Longrightarrow> NUL \<notin> set v \<Longrightarrow> deref st (pp_gen st) (length A) = Some v"
  using pctx_str_prefix by (simp add: deref_def)

text \<open>What the option and list commands do with a line that the exporter wrote.\<close>

lemma uci_parse_option_line:
  assumes "skip_word st = Some st1" "shape st1 A [] [] t" "t \<noteq> []" "keeps st st1"
    "t @ pp_file st1 = n @ CHR '' '' # QUOTE # esc v @ QUOTE # NL # r"
    "uci_validate_name n" "NUL \<notin> set v" "pp_section st \<noteq> None"
  obtains st' B where "uci_parse_option is_list st = uci_store_option is_list n v st'"
    "shape st' B [] [] []" "pp_file st' = r" "keeps st st'"
proof -
  note n = name_facts [OF assms(6)]
  obtain st2 g t2 where st2: "next_arg True True False st1 = Some (Inr (length A), st2)"
    "shape st2 (A @ n @ NUL # g) [] [] t2" "t2 @ pp_file st2 = QUOTE # esc v @ QUOTE # NL # r" "keeps st1 st2" "t2 \<noteq> []"
    by (rule next_arg_spec [of st1 A "[]" t n "CHR '' ''" "QUOTE # esc v @ QUOTE # NL # r" n True True False])
      (use assms n in auto)
  obtain st3 g' t3 where st3: "next_arg False False False st2 = Some (Inr (length (A @ n @ NUL # g)), st3)"
    "shape st3 ((A @ n @ NUL # g) @ v @ NUL # g') [] [] t3" "t3 @ pp_file st3 = r" "keeps st2 st3" "t3 = []"
    by (rule next_arg_spec [of st2 "A @ n @ NUL # g" "[]" t2 "QUOTE # esc v @ [QUOTE]" NL r v False False False])
      (use assms(7) st2 arg_text_quoted in auto)
  have d: "deref st3 (pp_gen st3) (length A) = Some n"
    "deref st3 (pp_gen st3) (length (A @ n @ NUL # g)) = Some v"
    using deref_prefix [of st3 A n "g @ v @ NUL # g'"] deref_prefix [of st3 "A @ n @ NUL # g" v g'] st3(2) n(3) assms(7)
    by auto
  have "assert_eol st3 = Some (Inr (), st3)" using assert_eol_end st3(2,5) by simp
  then have "uci_parse_option is_list st = uci_store_option is_list n v st3"
    unfolding uci_parse_option_def using assms(1,8) st2(1) st3(1) d
    by (auto simp del: length_append)
  then show thesis using that st3 keeps_trans [OF assms(4) keeps_trans [OF st2(4) st3(4)]] by auto
qed

lemma uci_store_option_new:
  assumes "pp_package st = Some p" "pp_section st = Some i" "\<not> pp_merge st"
    "lookup_option (p_sections p ! i) n = None" "v \<noteq> []" "s_name (p_sections p ! i) \<noteq> None"
  shows "uci_store_option False n v st =
    Some (Inr (), st\<lparr>pp_package := Some (upd_section (\<lambda>s. uci_alloc_option s n v) i p)\<rparr>)"
proof -
  obtain m where "s_name (p_sections p ! i) = Some m" using assms(6) by auto
  with assms show ?thesis
    by (simp add: uci_store_option_def uci_set_def uci_expand_ptr_def uci_fill_ptr_def ptr_zero_def
      uci_set_change_def track_delta_def Let_def)
qed

lemma uci_store_list_new:
  assumes "pp_package st = Some p" "pp_section st = Some i" "\<not> pp_merge st" "i < length (p_sections p)"
    "lookup_option (p_sections p ! i) n = None"
  shows "uci_store_option True n v st = Some (Inr (), st\<lparr>pp_package := Some (upd_section (\<lambda>s.
    s\<lparr>s_options := s_options s @ [\<lparr>o_name = n, o_value = UCI_LIST [v]\<rparr>]\<rparr>) i p)\<rparr>)"
  using assms
  by (simp add: uci_store_option_def uci_add_list_def uci_expand_ptr_def uci_fill_ptr_def ptr_zero_def
      uci_add_element_list_def uci_alloc_list_def append_item_def track_delta_def Let_def nth_append list_update_append)

lemma uci_store_list_append:
  assumes "pp_package st = Some p" "pp_section st = Some i" "\<not> pp_merge st" "i < length (p_sections p)"
    "s_options (p_sections p ! i) = os @ [\<lparr>o_name = n, o_value = UCI_LIST vs\<rparr>]" "n \<notin> o_name ` set os"
  shows "uci_store_option True n v st = Some (Inr (), st\<lparr>pp_package := Some (upd_section (\<lambda>s.
    s\<lparr>s_options := os @ [\<lparr>o_name = n, o_value = UCI_LIST (vs @ [v])\<rparr>]\<rparr>) i p)\<rparr>)"
proof -
  have "uci_lookup_list (\<lambda>x. Some (o_name x)) (os @ [x]) n = Some (length os)" if "o_name x = n" for x
    using assms(6) that by (induction os) auto
  then have "lookup_option (p_sections p ! i) n = Some (length os)" using assms(5) by simp
  with assms show ?thesis
    by (simp add: uci_store_option_def uci_add_list_def uci_expand_ptr_def uci_fill_ptr_def ptr_zero_def
        uci_add_element_list_def append_item_def track_delta_def Let_def nth_append list_update_append)
qed

section \<open>The import loop\<close>

text \<open>The state at the beginning of a line: the unchanging settings, the rest of the file, the
  package built so far and the section that takes the options.\<close>

definition ready :: "parser \<Rightarrow> bool" where
  "ready st \<longleftrightarrow> \<not> pp_eof st \<and> (\<forall>b. pp_buf st = Some b \<longrightarrow> 2 \<le> length b) \<and> NUL \<notin> set (pp_file st) \<and> line_end (pp_file st)"

definition at_line ::
  "bool \<times> string option \<times> uci_package list \<times> bool \<Rightarrow> string \<Rightarrow> uci_package option \<Rightarrow> nat option \<Rightarrow> parser \<Rightarrow> bool" where
  "at_line c f p s st \<longleftrightarrow> ready st \<and> (pp_merge st, pp_name st, pp_root st, pp_strict st) = c \<and>
     pp_file st = f \<and> pp_package st = p \<and> pp_section st = s"

lemma at_line_keeps:
  assumes "at_line c f p s st" "keeps st st'" "shape st' B [] [] []" "pp_file st' = r"
  shows "at_line c r p s st'"
  using assms by (auto simp: at_line_def ready_def keeps_def shape_def)

lemma import_getln:
  assumes "at_line c f p s st" "f \<noteq> []"
  obtains st1 t where "uci_getln 0 (st\<lparr>pp_pos := 0\<rparr>) = Some st1" "shape st1 [] [] [] t" "t \<noteq> []"
    "t @ pp_file st1 = f" "keeps st st1"
proof -
  from assms(1) have rd: "\<And>b. pp_buf st = Some b \<Longrightarrow> 2 \<le> length b" "NUL \<notin> set f" "line_end f" "pp_file st = f"
    by (auto simp: at_line_def ready_def)
  obtain l f' where f: "f = l @ NL # f'" "NL \<notin> set l" using first_line [OF rd(3) assms(2)] .
  define b where "b = (case pp_buf st of None \<Rightarrow> replicate LINEBUF NUL | Some b \<Rightarrow> b)"
  have b: "0 + 2 \<le> length b" using rd(1) by (auto simp: b_def LINEBUF_def split: option.splits)
  have "uci_getln 0 (st\<lparr>pp_pos := 0\<rparr>) = uci_getln_loop 0 b (st\<lparr>pp_pos := 0\<rparr>)"
    using b by (auto simp: uci_getln_def b_def Let_def)
  moreover have "pp_file (st\<lparr>pp_pos := 0\<rparr>) = l @ NL # f'" "NUL \<notin> set l" using rd f by auto
  from uci_getln_loop_line [OF b this(1) f(2) this(2)] obtain J st1 where
    st1: "uci_getln_loop 0 b (st\<lparr>pp_pos := 0\<rparr>) = Some st1" "keeps st st1" "pp_pos st1 = 0" "pp_file st1 = f'"
    "pp_buf st1 = Some (l @ NL # NUL # J)" by (auto simp: keeps_def)
  moreover have "shape st1 [] [] [] (l @ [NL])"
    using st1 rd(2,3) f line_end_append by (auto simp: shape_def one_line_def)
  ultimately show thesis using f(1) by (intro that [of st1 "l @ [NL]"]) simp_all
qed

lemma import_line:
  assumes "at_line c f p s st" "f \<noteq> []"
    and "\<And>st1 t. shape st1 [] [] [] t \<Longrightarrow> t \<noteq> [] \<Longrightarrow> t @ pp_file st1 = f \<Longrightarrow> keeps st st1 \<Longrightarrow>
      \<exists>st2. uci_parse_line single st1 = Some (Inr (), st2) \<and> P st2"
  shows "\<exists>st2. uci_import_loop single st = uci_import_loop single st2 \<and> P st2"
proof -
  obtain st1 t where st1: "uci_getln 0 (st\<lparr>pp_pos := 0\<rparr>) = Some st1" "shape st1 [] [] [] t" "t \<noteq> []"
    "t @ pp_file st1 = f" "keeps st st1" by (rule import_getln [OF assms(1,2)])
  obtain st2 where st2: "uci_parse_line single st1 = Some (Inr (), st2)" "P st2"
    using assms(3) [OF st1(2-5)] by auto
  from st1(2,3) obtain d where d: "pctx_char st1 0 = Some d" "d \<noteq> NUL"
    by (cases t) (auto simp: shape_def pctx_char_def)
  have "\<not> pp_eof st" using assms(1) by (simp add: at_line_def ready_def)
  then have "uci_import_loop single st = uci_import_loop single st2"
    using st1(1) d st2(1) by (subst uci_import_loop.simps) simp
  with st2(2) show ?thesis by blast
qed

lemma import_blank:
  assumes "at_line c (NL # r) p s st"
  shows "\<exists>st'. uci_import_loop single st = uci_import_loop single st' \<and> at_line c r p s st'"
proof (rule import_line [OF assms])
  fix st1 t
  assume st1: "shape st1 [] [] [] t" "t \<noteq> []" "t @ pp_file st1 = NL # r" "keeps st st1"
  then obtain t' where t': "t = NL # t'" by (cases t) auto
  then have t: "t = [NL] @ []" "pp_file st1 = r" using st1(1,3) one_line_ne [of NL t'] by (auto simp: shape_def)
  obtain st2 where st2: "skip_whitespace st1 = Some st2" "shape st2 [NL] [] [] []" "keeps st1 st2" "pp_file st2 = pp_file st1"
    by (rule skip_whitespace_spec [OF st1(1) [unfolded t(1)]]) auto
  then have "uci_parse_line single st1 = Some (Inr (), st2)"
    using uci_parse_line_loop_end [OF st2(2)] by (simp add: uci_parse_line_def)
  moreover have "at_line c r p s st2"
    using at_line_keeps [OF assms keeps_trans [OF st1(4) st2(3)] st2(2)] st2(4) t(2) by simp
  ultimately show "\<exists>st2. uci_parse_line single st1 = Some (Inr (), st2) \<and> at_line c r p s st2" by blast
qed simp

text \<open>A line with one command whose effect on the state leaves the line alone.\<close>

definition command_word :: "string \<Rightarrow> bool" where
  "command_word w \<longleftrightarrow> w \<noteq> [] \<and> list_all plain_char w"

lemma import_command:
  assumes at: "at_line c (ws @ word @ CHR '' '' # x) p s st" and ws: "list_all (\<lambda>c. c = TAB) ws" and word: "command_word word"
    and cmd: "\<And>st1 st2 A t. skip_word st1 = Some st2 \<Longrightarrow> shape st2 A [] [] t \<Longrightarrow> t \<noteq> [] \<Longrightarrow> t @ pp_file st2 = x \<Longrightarrow>
      keeps st1 st2 \<Longrightarrow> keeps st st1 \<Longrightarrow>
      \<exists>st3 B. uci_parse_command single word st1 = Some (Inr (), st3) \<and> shape st3 B [] [] [] \<and> P st3"
  shows "\<exists>st'. uci_import_loop single st = uci_import_loop single st' \<and> P st'"
proof (rule import_line [OF at])
  fix st1 t
  assume st1: "shape st1 [] [] [] t" "t \<noteq> []" "t @ pp_file st1 = ws @ word @ CHR '' '' # x" "keeps st st1"
  have pl: "list_all (\<lambda>c. c \<noteq> NL) (ws @ word)"
    using list.pred_mono_strong [OF ws, of "\<lambda>c. c \<noteq> NL"] plain_no_newline word by (simp add: command_word_def)
  have ol: "one_line t" using st1(1) by (simp add: shape_def)
  have eq: "t @ pp_file st1 = (ws @ word) @ CHR '' '' # x" using st1(3) by simp
  obtain t' where t': "t = ws @ word @ CHR '' '' # t'" "t' \<noteq> []"
    by (rule one_line_words [OF ol st1(2) eq pl]) simp
  have sp: "list_all isspace ws" using ws by (rule list.pred_mono_strong) simp
  obtain st2 where st2: "skip_whitespace st1 = Some st2" "shape st2 ws [] [] (word @ CHR '' '' # t')" "keeps st1 st2"
    "pp_file st2 = pp_file st1"
    by (rule skip_whitespace_spec [OF st1(1) [unfolded t'(1)] sp])
      (use word in \<open>auto simp: command_word_def plain_char_def neq_Nil_conv\<close>)
  obtain st3 st4 where st3: "strtok st2 = Some (Some word, st3)" "keeps st2 st3" "skip_word st3 = Some st4"
    "shape st4 (ws @ word @ [NUL]) [] [] t'" "keeps st3 st4" "pp_file st4 = pp_file st2"
    by (rule strtok_skip_word [OF st2(2)])
      (use word in \<open>auto simp: command_word_def plain_char_def is_delim_def list_all_iff\<close>)
  have "t' @ pp_file st4 = x" using st3(6) st2(4) st1(3) t'(1) by simp
  then obtain st5 B where st5: "uci_parse_command single word st3 = Some (Inr (), st5)" "shape st5 B [] [] []" "P st5"
    using cmd [OF st3(3,4) t'(2) _ st3(5)] keeps_trans [OF st1(4) keeps_trans [OF st2(3) st3(2)]] by blast
  have "hd word \<noteq> CHR ''#''" using word by (auto simp: command_word_def plain_char_def neq_Nil_conv)
  then have "uci_parse_line_loop single st2 = Some (Inr (), st5)"
    using st3(1) st5(1) uci_parse_line_loop_end [OF st5(2)] by (subst uci_parse_line_loop.simps) simp
  then show "\<exists>st'. uci_parse_line single st1 = Some (Inr (), st') \<and> P st'"
    using st2(1) st5(3) by (simp add: uci_parse_line_def)
qed simp

lemma import_item:
  assumes at: "at_line c ([TAB] @ (if is_list then ''list'' else ''option'') @ CHR '' '' # n @ CHR '' '' # QUOTE # esc v @ QUOTE # NL # r)
      (Some p) (Some i) st" and n: "uci_validate_name n" and v: "NUL \<notin> set v"
    and store: "\<And>st'. pp_package st' = Some p \<Longrightarrow> pp_section st' = Some i \<Longrightarrow> pp_merge st' = fst c \<Longrightarrow>
      uci_store_option is_list n v st' = Some (Inr (), st'\<lparr>pp_package := Some p'\<rparr>)"
  shows "\<exists>st'. uci_import_loop single st = uci_import_loop single st' \<and> at_line c r (Some p') (Some i) st'"
proof (rule import_command [OF at])
  show "command_word (if is_list then ''list'' else ''option'')"
    by (simp add: command_word_def plain_char_def isspace_def cv_def NUL_def QUOTE_def DQUOTE_def BACKSLASH_def)
next
  fix st1 st2 A t
  assume st1: "skip_word st1 = Some st2" "shape st2 A [] [] t" "t \<noteq> []"
    "t @ pp_file st2 = n @ CHR '' '' # QUOTE # esc v @ QUOTE # NL # r" "keeps st1 st2" "keeps st st1"
  have s: "pp_section st1 \<noteq> None" using at st1(6) by (simp add: at_line_def keeps_def)
  obtain st3 B where st3: "uci_parse_option is_list st1 = uci_store_option is_list n v st3"
    "shape st3 B [] [] []" "pp_file st3 = r" "keeps st1 st3"
    by (rule uci_parse_option_line [OF st1(1,2,3,5,4) n v s])
  have k: "keeps st st3" by (rule keeps_trans [OF st1(6) st3(4)])
  have al: "at_line c r (Some p) (Some i) st3" by (rule at_line_keeps [OF at k st3(2,3)])
  let ?st = "st3\<lparr>pp_package := Some p'\<rparr>"
  have "uci_parse_command single (if is_list then ''list'' else ''option'') st1 = Some (Inr (), ?st)"
    using st3(1) store [of st3] al by (auto simp: uci_parse_command_def at_line_def)
  moreover have "shape ?st B [] [] []" using st3(2) by (simp add: shape_def)
  moreover have "at_line c r (Some p') (Some i) ?st" using al by (auto simp: at_line_def ready_def)
  ultimately show "\<exists>st3 B. uci_parse_command single (if is_list then ''list'' else ''option'') st1 = Some (Inr (), st3) \<and>
      shape st3 B [] [] [] \<and> at_line c r (Some p') (Some i) st3" by blast
qed simp

text \<open>The \<open>config\<close> command: the text behind the type is empty or a quoted name.\<close>

definition name_text :: "string \<Rightarrow> string" where
  "name_text name = (if name = [] then [] else CHR '' '' # QUOTE # esc name @ [QUOTE])"

lemma uci_parse_config_args_line:
  assumes "skip_word st = Some st1" "shape st1 A [] [] t" "t \<noteq> []" "keeps st st1"
    "t @ pp_file st1 = ty @ name_text name @ NL # r"
    "list_all plain_char ty" "uci_validate_type ty" "name \<noteq> [] \<Longrightarrow> uci_validate_name name"
  obtains st' B i j where "uci_parse_config_args st = Some (Inr (i, j), st')"
    "deref st' (pp_gen st') i = Some ty" "deref st' (pp_gen st') j = Some name"
    "shape st' B [] [] []" "pp_file st' = r" "keeps st st'"
proof -
  have ty: "ty \<noteq> []" "arg_text ty ty" "NUL \<notin> set ty" using assms(6,7) plain_nul
    by (auto simp: uci_validate_type_def uci_validate_str_def arg_text_def split: if_splits)
  show thesis
  proof (cases "name = []")
    case True
    obtain st2 g t2 where st2: "next_arg True False False st1 = Some (Inr (length A), st2)"
      "shape st2 (A @ ty @ NUL # g) [] [] t2" "t2 @ pp_file st2 = r" "keeps st1 st2" "t2 = []"
      by (rule next_arg_spec [of st1 A "[]" t ty NL r ty True False False])
        (use assms(2,3,5) ty True in \<open>auto simp: name_text_def\<close>)
    let ?B = "A @ ty @ NUL # g"
    have d: "deref st2 (pp_gen st2) (length A) = Some ty" "pctx_str st2 (length A) = Some ty"
      using deref_prefix [OF st2(2) ty(3)] pctx_str_prefix [OF st2(2) ty(3)] .
    have "deref st2 (pp_gen st2) (length ?B) = Some []"
      using st2(2,5) by (auto simp: deref_def pctx_str_def shape_def)
    moreover have "next_arg False True False st2 = Some (Inr (length ?B), st2)"
      using next_arg_end st2(2,5) by simp
    then have "uci_parse_config_args st = Some (Inr (length A, length ?B), st2)"
      unfolding uci_parse_config_args_def using assms(1,7) st2(1) d(2) by (simp del: length_append)
    ultimately show thesis using that d(1) st2(2,3,5) True keeps_trans [OF assms(4) st2(4)] by auto
  next
    case False
    note n = name_facts [OF assms(8) [OF False]]
    obtain st2 g t2 where st2: "next_arg True False False st1 = Some (Inr (length A), st2)"
      "shape st2 (A @ ty @ NUL # g) [] [] t2" "t2 @ pp_file st2 = QUOTE # esc name @ QUOTE # NL # r" "keeps st1 st2" "t2 \<noteq> []"
      by (rule next_arg_spec [of st1 A "[]" t ty "CHR '' ''" "QUOTE # esc name @ QUOTE # NL # r" ty True False False])
        (use assms(2,3,5) ty False in \<open>auto simp: name_text_def\<close>)
    let ?B = "A @ ty @ NUL # g"
    obtain st3 g' t3 where st3: "next_arg False True False st2 = Some (Inr (length ?B), st3)"
      "shape st3 (?B @ name @ NUL # g') [] [] t3" "t3 @ pp_file st3 = r" "keeps st2 st3" "t3 = []"
      by (rule next_arg_spec [of st2 ?B "[]" t2 "QUOTE # esc name @ [QUOTE]" NL r name False True False])
        (use n(1-5) st2 arg_text_quoted in auto)
    have "deref st3 (pp_gen st3) (length A) = Some ty" "deref st3 (pp_gen st3) (length ?B) = Some name"
      "pctx_str st2 (length A) = Some ty"
      using deref_prefix [of st3 A ty "g @ name @ NUL # g'"] deref_prefix [of st3 ?B name g'] st3(2) n(3) ty(3)
        pctx_str_prefix [OF st2(2) ty(3)] by auto
    moreover from this have "uci_parse_config_args st = Some (Inr (length A, length ?B), st3)"
      unfolding uci_parse_config_args_def using assms(1,7) st2(1) st3(1) by (simp del: length_append)
    ultimately show thesis using that st3(2,3,5) keeps_trans [OF assms(4) keeps_trans [OF st2(4) st3(4)]] by auto
  qed
qed

text \<open>The section that a \<open>config\<close> command makes, as the \<open>n\<close>th of its package.\<close>

definition fresh_section :: "nat \<Rightarrow> string \<Rightarrow> string \<Rightarrow> uci_section" where
  "fresh_section n ty name =
     (if name = [] then uci_fixup_section n \<lparr>s_name = None, s_type = ty, s_anonymous = True, s_inline = True, s_options = []\<rparr>
      else \<lparr>s_name = Some name, s_type = ty, s_anonymous = False, s_inline = True, s_options = []\<rparr>)"

definition with_section :: "string \<Rightarrow> string \<Rightarrow> uci_package \<Rightarrow> uci_package" where
  "with_section ty name p = p\<lparr>p_n_section := p_n_section p + 1,
     p_sections := p_sections p @ [fresh_section (p_n_section p + 1) ty name]\<rparr>"

lemma uci_open_section_new:
  assumes "pp_package st = Some p" "\<not> pp_merge st" "uci_validate_type ty"
    "name \<noteq> [] \<Longrightarrow> lookup_section p name = None"
  shows "uci_open_section ty name st = Some (Inr (), st\<lparr>pp_package := Some (with_section ty name p),
    pp_section := Some (length (p_sections p))\<rparr>)"
proof -
  have "ty \<noteq> []" using assms(3) by (auto simp: uci_validate_type_def uci_validate_str_def)
  with assms show ?thesis
    by (simp add: uci_open_section_def uci_add_section_def uci_alloc_section_def with_section_def fresh_section_def
        track_delta_def uci_set_def uci_expand_ptr_def uci_fill_ptr_def ptr_zero_def uci_set_change_def Let_def)
qed

text \<open>The package that the first \<open>config\<close> command finds: the one named in the call.\<close>

definition base_package :: "bool \<times> string option \<times> uci_package list \<times> bool \<Rightarrow> uci_package option \<Rightarrow> uci_package \<Rightarrow> bool" where
  "base_package c p0 p \<longleftrightarrow> p0 = Some p \<or> (p0 = None \<and> (\<exists>n. fst (snd c) = Some n \<and> p = uci_alloc_package n \<and>
     n \<notin> p_name ` set (fst (snd (snd c)))))"

lemma uci_parse_config_base:
  assumes "base_package (pp_merge st, pp_name st, pp_root st, pp_strict st) (pp_package st) p"
  shows "uci_parse_config st = uci_parse_config (st\<lparr>pp_package := Some p\<rparr>)"
proof (cases "pp_package st")
  case None
  then obtain n where n: "pp_name st = Some n" "p = uci_alloc_package n" "n \<notin> p_name ` set (pp_root st)"
    using assms by (auto simp: base_package_def)
  then have "uci_lookup_list (\<lambda>p. Some (p_name p)) (pp_root st) n = None" by (auto simp: lookup_list_None)
  with n None show ?thesis by (simp add: uci_parse_config_def uci_switch_config_def Let_def)
next
  case (Some q)
  then have "st\<lparr>pp_package := Some p\<rparr> = st" using assms by (simp add: base_package_def)
  then show ?thesis by simp
qed

lemma import_config:
  assumes at: "at_line c ([] @ ''config'' @ CHR '' '' # (ty @ name_text name @ NL # r)) p0 s st"
    and ty: "list_all plain_char ty" "uci_validate_type ty" and name: "name \<noteq> [] \<Longrightarrow> uci_validate_name name"
    and p: "base_package c p0 p" "name \<noteq> [] \<Longrightarrow> lookup_section p name = None" and merge: "\<not> fst c"
  shows "\<exists>st'. uci_import_loop single st = uci_import_loop single st' \<and>
    at_line c r (Some (with_section ty name p)) (Some (length (p_sections p))) st'"
proof (rule import_command [OF at])
  show "command_word ''config''"
    by (simp add: command_word_def plain_char_def isspace_def cv_def NUL_def QUOTE_def DQUOTE_def BACKSLASH_def)
next
  fix st1 st2 A t
  assume st1: "skip_word st1 = Some st2" "shape st2 A [] [] t" "t \<noteq> []"
    "t @ pp_file st2 = ty @ name_text name @ NL # r" "keeps st1 st2" "keeps st st1"
  let ?s1 = "st1\<lparr>pp_package := Some p\<rparr>" and ?s2 = "st2\<lparr>pp_package := Some p\<rparr>"
  have c: "c = (pp_merge st1, pp_name st1, pp_root st1, pp_strict st1)" "pp_package st1 = p0"
    using at st1(6) by (auto simp: at_line_def keeps_def)
  have s2: "skip_word ?s1 = Some ?s2" "shape ?s2 A [] [] t" "keeps ?s1 ?s2"
    "t @ pp_file ?s2 = ty @ name_text name @ NL # r"
    using st1 by (auto simp: skip_word_def pctx_str_def shape_def keeps_def split: option.splits if_splits)
  obtain st3 B i j where st3: "uci_parse_config_args ?s1 = Some (Inr (i, j), st3)"
    "deref st3 (pp_gen st3) i = Some ty" "deref st3 (pp_gen st3) j = Some name"
    "shape st3 B [] [] []" "pp_file st3 = r" "keeps ?s1 st3"
    by (rule uci_parse_config_args_line [OF s2(1,2) st1(3) s2(3,4) ty name])
  let ?st = "st3\<lparr>pp_package := Some (with_section ty name p), pp_section := Some (length (p_sections p))\<rparr>"
  have "uci_open_section ty name st3 = Some (Inr (), ?st)"
    by (rule uci_open_section_new) (use st3(6) c merge p(2) ty(2) in \<open>auto simp: keeps_def\<close>)
  then have "uci_parse_config ?s1 = Some (Inr (), ?st)"
    using st3(1-3) assert_eol_end [OF st3(4)] by (simp add: uci_parse_config_def)
  then have "uci_parse_command single ''config'' st1 = Some (Inr (), ?st)"
    using uci_parse_config_base [of st1 p] p(1) c by (simp add: uci_parse_command_def)
  moreover have "shape ?st B [] [] []" using st3(4) by (simp add: shape_def)
  moreover have "at_line c r (Some (with_section ty name p)) (Some (length (p_sections p))) ?st"
    using at st1(6) st3(4-6) c by (auto simp: at_line_def ready_def keeps_def shape_def)
  ultimately show "\<exists>st3 B. uci_parse_command single ''config'' st1 = Some (Inr (), st3) \<and> shape st3 B [] [] [] \<and>
      at_line c r (Some (with_section ty name p)) (Some (length (p_sections p))) st3" by blast
qed simp

section \<open>The text that is exported\<close>

definition item_text :: "string \<Rightarrow> string \<Rightarrow> string \<Rightarrow> string" where
  "item_text kw n v = [TAB] @ kw @ CHR '' '' # n @ CHR '' '' # QUOTE # esc v @ [QUOTE, NL]"

definition option_text :: "uci_option \<Rightarrow> string" where
  "option_text x = (case o_value x of UCI_STRING v \<Rightarrow> item_text ''option'' (o_name x) v
     | UCI_LIST vs \<Rightarrow> concat (map (item_text ''list'' (o_name x)) vs))"

definition config_name :: "uci_section \<Rightarrow> string" where
  "config_name s = (if s_anonymous s then [] else the (s_name s))"

definition section_text :: "uci_section \<Rightarrow> string" where
  "section_text s = NL # ''config'' @ CHR '' '' # s_type s @ name_text (config_name s) @ NL # concat (map option_text (s_options s))"

text \<open>The packages whose text can be read back: names and types are valid and the types contain
  no character that the parser treats specially; strings are not empty, and neither are lists.\<close>

definition exportable_option :: "uci_option \<Rightarrow> bool" where
  "exportable_option x \<longleftrightarrow> uci_validate_name (o_name x) \<and> (case o_value x of
     UCI_STRING v \<Rightarrow> v \<noteq> [] \<and> NUL \<notin> set v
   | UCI_LIST vs \<Rightarrow> vs \<noteq> [] \<and> list_all (\<lambda>v. NUL \<notin> set v) vs)"

definition exportable_section :: "uci_section \<Rightarrow> bool" where
  "exportable_section s \<longleftrightarrow> uci_validate_type (s_type s) \<and> list_all plain_char (s_type s) \<and>
     (\<not> s_anonymous s \<longrightarrow> s_name s \<noteq> None \<and> uci_validate_name (the (s_name s))) \<and>
     distinct (map o_name (s_options s)) \<and> list_all exportable_option (s_options s)"

lemma export_escaped_spec:
  assumes "cb \<noteq> Some []" "NUL \<notin> set s"
  obtains cb' where "export_escaped junk cb s = Some (esc s, cb')" "cb' \<noteq> Some []"
  using uci_escape_spec [OF assms, of junk] that by (auto simp: export_escaped_def)

lemma uci_export_items_spec:
  assumes "cb \<noteq> Some []" "uci_validate_name n" "list_all (\<lambda>v. NUL \<notin> set v) vs"
  shows "\<exists>cb'. uci_export_items junk cb kw n vs = Some (concat (map (item_text kw n) vs), cb') \<and> cb' \<noteq> Some []"
  using assms(1,3)
proof (induction vs arbitrary: cb)
  case (Cons v vs)
  note n = name_facts [OF assms(2)]
  obtain cb1 where cb1: "export_escaped junk cb n = Some (n, cb1)" "cb1 \<noteq> Some []"
    using export_escaped_spec [OF Cons.prems(1) n(3)] n(6) by metis
  obtain cb2 where cb2: "export_escaped junk cb1 v = Some (esc v, cb2)" "cb2 \<noteq> Some []"
    using export_escaped_spec [OF cb1(2)] Cons.prems(2) by auto
  from Cons.IH [OF cb2(2)] Cons.prems(2) cb1 cb2 show ?case by (auto simp: item_text_def)
qed simp

lemma uci_export_options_spec:
  assumes "cb \<noteq> Some []" "list_all exportable_option xs"
  shows "\<exists>cb'. uci_export_options junk cb xs = Some (concat (map option_text xs), cb') \<and> cb' \<noteq> Some []"
  using assms
proof (induction xs arbitrary: cb)
  case (Cons x xs)
  have "\<exists>cb'. uci_export_option junk cb x = Some (option_text x, cb') \<and> cb' \<noteq> Some []"
  proof (cases "o_value x")
    case (UCI_STRING v)
    with uci_export_items_spec [OF Cons.prems(1), of "o_name x" "[v]" junk "''option''"] Cons.prems(2) show ?thesis
      by (simp add: uci_export_option_def option_text_def exportable_option_def del: uci_export_items.simps)
  next
    case (UCI_LIST vs)
    with uci_export_items_spec [OF Cons.prems(1), of "o_name x" vs junk "''list''"] Cons.prems(2) show ?thesis
      by (simp add: uci_export_option_def option_text_def exportable_option_def)
  qed
  with Cons show ?case by fastforce
qed simp

lemma uci_export_sections_spec:
  assumes "cb \<noteq> Some []" "list_all exportable_section secs"
  shows "\<exists>cb'. uci_export_sections junk False cb secs = Some (concat (map section_text secs), cb') \<and> cb' \<noteq> Some []"
  using assms
proof (induction secs arbitrary: cb)
  case (Cons s secs)
  from Cons.prems(2) have s: "list_all plain_char (s_type s)" "list_all exportable_option (s_options s)"
    "\<not> s_anonymous s \<Longrightarrow> s_name s = Some (the (s_name s)) \<and> uci_validate_name (the (s_name s))"
    by (auto simp: exportable_section_def)
  have "QUOTE \<notin> set (s_type s)" using s(1) by (auto simp: list_all_iff plain_char_def)
  then obtain cb1 where cb1: "export_escaped junk cb (s_type s) = Some (s_type s, cb1)" "cb1 \<noteq> Some []"
    using export_escaped_spec [OF Cons.prems(1) plain_nul [OF s(1)]] esc_plain by metis
  let ?nm = "\<lambda>cb. if \<not> s_anonymous s \<or> False then do {
         name \<leftarrow> s_name s;
         (n, cb) \<leftarrow> export_escaped junk cb name;
         Some ('' '' @ [QUOTE] @ n @ [QUOTE], cb)
       } else Some ([], cb)"
  obtain cb2 where cb2: "?nm cb1 = Some (name_text (config_name s), cb2)" "cb2 \<noteq> Some []"
  proof (cases "s_anonymous s")
    case True
    with cb1 that show thesis by (simp add: name_text_def config_name_def)
  next
    case False
    note n = name_facts [OF s(3) [OF False, THEN conjunct2]]
    obtain cb2 where "export_escaped junk cb1 (the (s_name s)) = Some (esc (the (s_name s)), cb2)" "cb2 \<noteq> Some []"
      by (rule export_escaped_spec [OF cb1(2) n(3)])
    with that False s(3) n(1) show thesis
      by (cases "s_name s") (auto simp: name_text_def config_name_def)
  qed
  obtain cb3 where cb3: "uci_export_options junk cb2 (s_options s) = Some (concat (map option_text (s_options s)), cb3)"
    "cb3 \<noteq> Some []" using uci_export_options_spec [OF cb2(2) s(2)] by blast
  obtain cb4 where "uci_export_sections junk False cb3 secs = Some (concat (map section_text secs), cb4)" "cb4 \<noteq> Some []"
    using Cons.IH [OF cb3(2)] Cons.prems(2) by auto
  with cb1 cb2(1) cb3 show ?case by (auto simp: section_text_def [of s])
qed simp

section \<open>Importing what was exported\<close>

lemma p_sections_idem: "p_sections p = xs \<Longrightarrow> p\<lparr>p_sections := xs\<rparr> = p"
  by (cases p) simp

lemma import_list_items:
  assumes "at_line c (concat (map (item_text ''list'' n) vs) @ r) (Some p) (Some (length ss)) st" "\<not> fst c"
    "p_sections p = ss @ [s\<lparr>s_options := os @ [\<lparr>o_name = n, o_value = UCI_LIST us\<rparr>]\<rparr>]" "n \<notin> o_name ` set os"
    "uci_validate_name n" "list_all (\<lambda>v. NUL \<notin> set v) vs"
  shows "\<exists>st'. uci_import_loop single st = uci_import_loop single st' \<and>
    at_line c r (Some (p\<lparr>p_sections := ss @ [s\<lparr>s_options := os @ [\<lparr>o_name = n, o_value = UCI_LIST (us @ vs)\<rparr>]\<rparr>]\<rparr>))
      (Some (length ss)) st'"
  using assms(1,3,6)
proof (induction vs arbitrary: p st us)
  case Nil
  show ?case using Nil.prems(1) by (intro exI [of _ st]) (simp add: p_sections_idem [OF Nil.prems(2)])
next
  case (Cons v vs)
  let ?p = "p\<lparr>p_sections := ss @ [s\<lparr>s_options := os @ [\<lparr>o_name = n, o_value = UCI_LIST (us @ [v])\<rparr>]\<rparr>]\<rparr>"
  have "\<exists>st1. uci_import_loop single st = uci_import_loop single st1 \<and>
      at_line c (concat (map (item_text ''list'' n) vs) @ r) (Some ?p) (Some (length ss)) st1"
  proof (rule import_item [where is_list = True])
    show "at_line c ([TAB] @ (if True then ''list'' else ''option'') @ CHR '' '' # n @ CHR '' '' # QUOTE # esc v @ QUOTE # NL #
        concat (map (item_text ''list'' n) vs) @ r) (Some p) (Some (length ss)) st"
      using Cons.prems(1) by (simp add: item_text_def [of _ _ v])
  next
    fix st' :: parser
    assume "pp_package st' = Some p" "pp_section st' = Some (length ss)" "pp_merge st' = fst c"
    with uci_store_list_append [of st' p "length ss" os n us v] Cons.prems(2) assms(2,4)
    show "uci_store_option True n v st' = Some (Inr (), st'\<lparr>pp_package := Some ?p\<rparr>)" by simp
  qed (use assms(5) Cons.prems(3) in simp_all)
  then obtain st1 where st1: "uci_import_loop single st = uci_import_loop single st1"
    "at_line c (concat (map (item_text ''list'' n) vs) @ r) (Some ?p) (Some (length ss)) st1" by blast
  from Cons.IH [OF st1(2), of "us @ [v]"] Cons.prems(3) st1(1) show ?case by simp
qed

lemma lookup_option_None: "n \<notin> o_name ` set (s_options s) \<Longrightarrow> lookup_option s n = None"
  by (auto simp: lookup_list_None)

lemma import_option:
  assumes "at_line c (option_text x @ r) (Some p) (Some (length ss)) st" "\<not> fst c"
    "p_sections p = ss @ [s]" "s_name s \<noteq> None" "o_name x \<notin> o_name ` set (s_options s)" "exportable_option x"
  shows "\<exists>st'. uci_import_loop single st = uci_import_loop single st' \<and>
    at_line c r (Some (p\<lparr>p_sections := ss @ [s\<lparr>s_options := s_options s @ [x]\<rparr>]\<rparr>)) (Some (length ss)) st'"
proof (cases "o_value x")
  case (UCI_STRING v)
  then have x: "x = \<lparr>o_name = o_name x, o_value = UCI_STRING v\<rparr>" by simp
  have v: "v \<noteq> []" "NUL \<notin> set v" "uci_validate_name (o_name x)" using assms(6) UCI_STRING by (auto simp: exportable_option_def)
  show ?thesis
  proof (rule import_item [where is_list = False])
    show "at_line c ([TAB] @ (if False then ''list'' else ''option'') @ CHR '' '' # o_name x @ CHR '' '' # QUOTE # esc v @ QUOTE # NL # r)
        (Some p) (Some (length ss)) st"
      using assms(1) UCI_STRING by (simp add: option_text_def item_text_def)
  next
    fix st' :: parser
    assume "pp_package st' = Some p" "pp_section st' = Some (length ss)" "pp_merge st' = fst c"
    with uci_store_option_new [of st' p "length ss" "o_name x" v] assms(2-5) v lookup_option_None
    show "uci_store_option False (o_name x) v st' = Some (Inr (), st'\<lparr>pp_package :=
        Some (p\<lparr>p_sections := ss @ [s\<lparr>s_options := s_options s @ [x]\<rparr>]\<rparr>)\<rparr>)"
      by (subst x) (simp add: uci_alloc_option_def)
  qed (use v in simp_all)
next
  case (UCI_LIST us)
  then obtain v vs where us: "us = v # vs" "NUL \<notin> set v" "list_all (\<lambda>v. NUL \<notin> set v) vs"
    using assms(6) by (cases us) (auto simp: exportable_option_def)
  have n: "uci_validate_name (o_name x)" using assms(6) by (simp add: exportable_option_def)
  let ?r = "concat (map (item_text ''list'' (o_name x)) vs) @ r"
  let ?p = "p\<lparr>p_sections := ss @ [s\<lparr>s_options := s_options s @ [\<lparr>o_name = o_name x, o_value = UCI_LIST [v]\<rparr>]\<rparr>]\<rparr>"
  have "\<exists>st1. uci_import_loop single st = uci_import_loop single st1 \<and> at_line c ?r (Some ?p) (Some (length ss)) st1"
  proof (rule import_item [where is_list = True])
    show "at_line c ([TAB] @ (if True then ''list'' else ''option'') @ CHR '' '' # o_name x @ CHR '' '' # QUOTE # esc v @ QUOTE # NL # ?r)
        (Some p) (Some (length ss)) st"
      using assms(1) UCI_LIST us(1) by (simp add: option_text_def item_text_def [of _ _ v])
  next
    fix st' :: parser
    assume "pp_package st' = Some p" "pp_section st' = Some (length ss)" "pp_merge st' = fst c"
    with uci_store_list_new [of st' p "length ss" "o_name x" v] assms(2,3,5) lookup_option_None
    show "uci_store_option True (o_name x) v st' = Some (Inr (), st'\<lparr>pp_package := Some ?p\<rparr>)" by simp
  qed (use n us in simp_all)
  then obtain st1 where st1: "uci_import_loop single st = uci_import_loop single st1"
    "at_line c ?r (Some ?p) (Some (length ss)) st1" by blast
  have x: "x = \<lparr>o_name = o_name x, o_value = UCI_LIST ([v] @ vs)\<rparr>" using UCI_LIST us(1) by simp
  from import_list_items [OF st1(2) assms(2) _ assms(5) n us(3), where s = s and us = "[v]" and single = single] st1(1)
  show ?thesis by (subst x) simp
qed

lemma import_options:
  assumes "at_line c (concat (map option_text xs) @ r) (Some p) (Some (length ss)) st" "\<not> fst c"
    "p_sections p = ss @ [s]" "s_name s \<noteq> None" "distinct (map o_name (s_options s @ xs))" "list_all exportable_option xs"
  shows "\<exists>st'. uci_import_loop single st = uci_import_loop single st' \<and>
    at_line c r (Some (p\<lparr>p_sections := ss @ [s\<lparr>s_options := s_options s @ xs\<rparr>]\<rparr>)) (Some (length ss)) st'"
  using assms(1,3-6)
proof (induction xs arbitrary: p s st)
  case Nil
  show ?case using Nil.prems(1) by (intro exI [of _ st]) (simp add: p_sections_idem [OF Nil.prems(2)])
next
  case (Cons x xs)
  let ?s = "s\<lparr>s_options := s_options s @ [x]\<rparr>"
  have at: "at_line c (option_text x @ concat (map option_text xs) @ r) (Some p) (Some (length ss)) st"
    using Cons.prems(1) by simp
  obtain st1 where st1: "uci_import_loop single st = uci_import_loop single st1"
    "at_line c (concat (map option_text xs) @ r) (Some (p\<lparr>p_sections := ss @ [?s]\<rparr>)) (Some (length ss)) st1"
    using import_option [OF at assms(2) Cons.prems(2,3), of single] Cons.prems(4,5) by auto
  from Cons.IH [OF st1(2), of ?s] Cons.prems(3-5) st1(1) show ?case by auto
qed

text \<open>A section as it is after export and import: an anonymous one gets a new name.\<close>

definition reimport :: "nat \<Rightarrow> uci_section \<Rightarrow> uci_section" where
  "reimport n s = (fresh_section n (s_type s) (config_name s))\<lparr>s_options := s_options s\<rparr>"

fun reimports :: "nat \<Rightarrow> uci_section list \<Rightarrow> uci_section list" where
  "reimports n [] = []"
| "reimports n (s # ss) = reimport (n + 1) s # reimports (n + 1) ss"

lemma fresh_section_name [simp]: "\<exists>m. s_name (fresh_section n ty name) = Some m" "s_options (fresh_section n ty name) = []"
  by (simp_all add: fresh_section_def uci_fixup_section_def)

lemma import_section:
  assumes "at_line c (section_text s @ r) p0 sec st" "\<not> fst c" "base_package c p0 p" "exportable_section s"
    "s_name (reimport (p_n_section p + 1) s) \<notin> s_name ` set (p_sections p)"
  shows "\<exists>st'. uci_import_loop single st = uci_import_loop single st' \<and>
    at_line c r (Some (p\<lparr>p_n_section := p_n_section p + 1, p_sections := p_sections p @ [reimport (p_n_section p + 1) s]\<rparr>))
      (Some (length (p_sections p))) st'"
proof -
  let ?o = "concat (map option_text (s_options s)) @ r"
  have s: "uci_validate_type (s_type s)" "list_all plain_char (s_type s)" "distinct (map o_name (s_options s))"
    "list_all exportable_option (s_options s)" "config_name s \<noteq> [] \<Longrightarrow> uci_validate_name (config_name s)"
    using assms(4) by (auto simp: exportable_section_def config_name_def split: if_splits)
  have new: "lookup_section p (config_name s) = None" if "config_name s \<noteq> []"
    using assms(5) that by (auto simp: lookup_list_None reimport_def fresh_section_def image_iff)
  have "at_line c (NL # ([] @ ''config'' @ CHR '' '' # (s_type s @ name_text (config_name s) @ NL # ?o))) p0 sec st"
    using assms(1) by (simp add: section_text_def)
  from import_blank [OF this, of single] obtain st1 where st1: "uci_import_loop single st = uci_import_loop single st1"
    "at_line c ([] @ ''config'' @ CHR '' '' # (s_type s @ name_text (config_name s) @ NL # ?o)) p0 sec st1" by blast
  from import_config [OF st1(2) s(2,1,5) assms(3) new assms(2), of single] obtain st2 where
    st2: "uci_import_loop single st1 = uci_import_loop single st2"
    "at_line c ?o (Some (with_section (s_type s) (config_name s) p)) (Some (length (p_sections p))) st2" by blast
  from import_options [OF st2(2) assms(2), of "fresh_section (p_n_section p + 1) (s_type s) (config_name s)" single] s(3,4)
  have "\<exists>st'. uci_import_loop single st2 = uci_import_loop single st' \<and>
    at_line c r (Some ((with_section (s_type s) (config_name s) p)\<lparr>p_sections := p_sections p @ [reimport (p_n_section p + 1) s]\<rparr>))
      (Some (length (p_sections p))) st'"
    by (simp add: with_section_def reimport_def)
  then show ?thesis using st1(1) st2(1) by (simp add: with_section_def)
qed

definition with_sections :: "uci_section list \<Rightarrow> uci_package \<Rightarrow> uci_package" where
  "with_sections secs p = p\<lparr>p_n_section := p_n_section p + length secs,
     p_sections := p_sections p @ reimports (p_n_section p) secs\<rparr>"

lemma import_sections:
  assumes "at_line c (concat (map section_text secs) @ r) p0 sec st" "\<not> fst c" "base_package c p0 p"
    "list_all exportable_section secs" "distinct (map s_name (p_sections p @ reimports (p_n_section p) secs))"
  shows "\<exists>st' p1 sec'. uci_import_loop single st = uci_import_loop single st' \<and> at_line c r p1 sec' st' \<and>
    base_package c p1 (with_sections secs p)"
  using assms(1,3-5)
proof (induction secs arbitrary: p0 p sec st)
  case Nil
  then show ?case by (intro exI [of _ st] exI [of _ p0] exI [of _ sec]) (simp add: with_sections_def)
next
  case (Cons s secs)
  let ?p = "p\<lparr>p_n_section := p_n_section p + 1, p_sections := p_sections p @ [reimport (p_n_section p + 1) s]\<rparr>"
  have at: "at_line c (section_text s @ (concat (map section_text secs) @ r)) p0 sec st" using Cons.prems(1) by simp
  have ex: "exportable_section s" "s_name (reimport (p_n_section p + 1) s) \<notin> s_name ` set (p_sections p)"
    using Cons.prems(3,4) by auto
  from import_section [OF at assms(2) Cons.prems(2) ex, of single] obtain st1 where st1:
    "uci_import_loop single st = uci_import_loop single st1"
    "at_line c (concat (map section_text secs) @ r) (Some ?p) (Some (length (p_sections p))) st1" by blast
  have "base_package c (Some ?p) ?p" by (simp add: base_package_def)
  from Cons.IH [OF st1(2) this] Cons.prems(3,4) st1(1)
  have "\<exists>st' p1 sec'. uci_import_loop single st = uci_import_loop single st' \<and> at_line c r p1 sec' st' \<and>
      base_package c p1 (with_sections secs ?p)" by auto
  moreover have "with_sections secs ?p = with_sections (s # secs) p" by (simp add: with_sections_def)
  ultimately show ?case by metis
qed

lemma import_end:
  assumes "at_line c [] p s st"
  shows "\<exists>st'. uci_import_loop single st = Some (Inr (), st') \<and> (pp_merge st', pp_name st', pp_root st', pp_strict st') = c \<and>
    pp_package st' = p"
proof -
  from assms have rd: "\<And>b. pp_buf st = Some b \<Longrightarrow> 2 \<le> length b" "pp_file st = []" "\<not> pp_eof st"
    by (auto simp: at_line_def ready_def)
  define b where "b = (case pp_buf st of None \<Rightarrow> replicate LINEBUF NUL | Some b \<Rightarrow> b)"
  have b: "0 + 2 \<le> length b" using rd(1) by (auto simp: b_def LINEBUF_def split: option.splits)
  let ?st = "st\<lparr>pp_pos := 0, pp_file := [], pp_eof := True, pp_buf := Some (b[0 := NUL])\<rparr>"
  have "uci_getln 0 (st\<lparr>pp_pos := 0\<rparr>) = Some ?st"
    using b uci_getln_loop_eof [OF b, of "st\<lparr>pp_pos := 0\<rparr>"] rd(2) by (auto simp: uci_getln_def b_def [symmetric] Let_def)
  moreover have "pctx_char ?st 0 = Some NUL" using b by (auto simp: pctx_char_def)
  moreover have "uci_import_loop single ?st = Some (Inr (), ?st)" by (subst uci_import_loop.simps) simp
  ultimately have "uci_import_loop single st = Some (Inr (), ?st)" using rd(3) by (subst uci_import_loop.simps) simp
  with assms show ?thesis by (auto simp: at_line_def)
qed

text \<open>The package that importing gives, and when it is the one that was exported.\<close>

definition reimported :: "string \<Rightarrow> uci_package \<Rightarrow> uci_package" where
  "reimported name p = with_sections (p_sections p) (uci_alloc_package name)"

definition exportable :: "uci_package \<Rightarrow> bool" where
  "exportable p \<longleftrightarrow> list_all exportable_section (p_sections p) \<and> distinct (map s_name (reimports 0 (p_sections p)))"

lemma reimports_named:
  "list_all (\<lambda>s. exportable_section s \<and> \<not> s_anonymous s) ss \<Longrightarrow> reimports n ss = map (\<lambda>s. s\<lparr>s_inline := True\<rparr>) ss"
proof (induction ss arbitrary: n)
  case (Cons s ss)
  have "s_name s = Some (the (s_name s))" "the (s_name s) \<noteq> []" using Cons.prems name_facts(1)
    by (auto simp: exportable_section_def)
  with Cons show ?case by (cases s) (simp add: reimport_def fresh_section_def config_name_def)
qed simp

lemma reimported_abs:
  assumes "exportable p" "list_all (\<lambda>s. \<not> s_anonymous s) (p_sections p)"
  shows "abs_package (reimported name p) = abs_package p"
proof -
  have "reimports 0 (p_sections p) = map (\<lambda>s. s\<lparr>s_inline := True\<rparr>) (p_sections p)"
    using assms by (intro reimports_named) (simp add: exportable_def list_all_iff)
  then show ?thesis
    by (simp add: abs_package_def reimported_def with_sections_def uci_alloc_package_def secs.to_map_def comp_def)
qed

lemma section_text_nul: "exportable_section s \<Longrightarrow> NUL \<notin> set (section_text s)"
proof -
  assume s: "exportable_section s"
  have "NUL \<notin> set (option_text x)" if "exportable_option x" for x
    using that esc_nul name_facts(3) [of "o_name x"]
    by (auto simp: exportable_option_def option_text_def item_text_def list_all_iff NUL_def TAB_def QUOTE_def NL_def split: uci_value.splits)
  moreover have "NUL \<notin> set (name_text (config_name s))"
    using s name_facts(3,6) [of "the (s_name s)"]
    by (auto simp: name_text_def config_name_def exportable_section_def NUL_def QUOTE_def)
  ultimately show "NUL \<notin> set (section_text s)"
    using s plain_nul by (auto simp: section_text_def exportable_section_def list_all_iff NUL_def NL_def)
qed

lemma uci_export_import_spec:
  assumes "exportable p" "cb \<noteq> Some []" "uci_validate_package name" "name \<notin> p_name ` set root"
  shows "\<exists>text cb'. uci_export_package junk False cb p False = Some (text, cb') \<and>
    uci_import junk' strict root text (Some name) None single =
      Some (Inr (Some (reimported name p), root @ [reimported name p])) \<and>
    (list_all (\<lambda>s. \<not> s_anonymous s) (p_sections p) \<longrightarrow> abs_package (reimported name p) = abs_package p)"
proof -
  let ?text = "concat (map section_text (p_sections p)) @ [NL]"
  have ex: "list_all exportable_section (p_sections p)" using assms(1) by (simp add: exportable_def)
  obtain cb' where exp: "uci_export_package junk False cb p False = Some (?text, cb')"
    using uci_export_sections_spec [OF assms(2) ex, of junk] by (auto simp: uci_export_package_def)
  define c where "c = (False, Some name, root, strict)"
  let ?st = "(parser_init junk' strict root ?text)\<lparr>pp_name := Some name\<rparr>"
  have "NUL \<noteq> NL" by (simp add: NUL_def NL_def)
  then have "NUL \<notin> set ?text" using ex section_text_nul by (auto simp: list_all_iff)
  then have at: "at_line c ?text None None ?st"
    by (simp add: at_line_def ready_def parser_init_def line_end_def c_def)
  have base: "base_package c None (uci_alloc_package name)" "\<not> fst c" using assms(4) by (auto simp: base_package_def c_def)
  have d: "distinct (map s_name (p_sections (uci_alloc_package name) @ reimports (p_n_section (uci_alloc_package name)) (p_sections p)))"
    using assms(1) by (simp add: exportable_def uci_alloc_package_def)
  from import_sections [OF at base(2,1) ex d, of single] obtain st1 p1 sec where
    st1: "uci_import_loop single ?st = uci_import_loop single st1" "at_line c [NL] p1 sec st1"
    "base_package c p1 (reimported name p)" by (auto simp: reimported_def)
  from import_blank [OF st1(2), of single] obtain st2 where
    st2: "uci_import_loop single st1 = uci_import_loop single st2" "at_line c [] p1 sec st2" by blast
  from import_end [OF st2(2), of single] obtain st3 where
    st3: "uci_import_loop single st2 = Some (Inr (), st3)" "pp_merge st3 = False" "pp_name st3 = Some name" "pp_root st3 = root"
    "pp_package st3 = p1" by (auto simp: c_def)
  have new: "uci_lookup_list (\<lambda>p. Some (p_name p)) root name = None" using assms(4) by (auto simp: lookup_list_None)
  have "uci_import junk' strict root ?text (Some name) None single =
      Some (Inr (Some (reimported name p), root @ [reimported name p]))"
    using st1(1,3) st2(1) st3 assms(3) new
    by (auto simp: uci_import_def parser_init_def Let_def base_package_def uci_switch_config_def c_def split: option.splits)
  with exp reimported_abs [OF assms(1)] show ?thesis by blast
qed

text \<open>C13: importing the text that \<open>uci_export_package\<close> writes for a package ends without an error
  and gives the package back: the same sections in the same order with the same options, where
  an anonymous section has the name of its new position.  Without anonymous sections the
  configuration is the same.\<close>

theorem uci_export_import:
  assumes "exportable p" "cb \<noteq> Some []" "uci_validate_package name" "name \<notin> p_name ` set root"
  shows "\<exists>text cb'. uci_export_package junk False cb p False = Some (text, cb') \<and>
    uci_import junk' strict root text (Some name) None single =
      Some (Inr (Some (reimported name p), root @ [reimported name p])) \<and>
    (list_all (\<lambda>s. \<not> s_anonymous s) (p_sections p) \<longrightarrow> abs_package (reimported name p) = abs_package p)"
  by (rule uci_export_import_spec [OF assms])

definition quoted_package :: uci_package where
  "quoted_package = (uci_alloc_package ''net'')\<lparr>p_n_section := 2, p_sections :=
     [\<lparr>s_name = Some ''lan'', s_type = ''if'', s_anonymous = False, s_inline = True, s_options =
        [\<lparr>o_name = ''ip'', o_value = UCI_STRING [CHR ''a'', QUOTE, NL, CHR '' '', CHR ''b'']\<rparr>,
         \<lparr>o_name = ''dns'', o_value = UCI_LIST [''x'', [], [BACKSLASH]]\<rparr>]\<rparr>,
      \<lparr>s_name = Some ''cfgx'', s_type = ''rule'', s_anonymous = True, s_inline = True, s_options = []\<rparr>]\<rparr>"

theorem uci_export_import_witness:
  "\<exists>text cb'. uci_export_package (CHR ''?'') False None quoted_package False = Some (text, cb') \<and>
    uci_import (CHR ''!'') True [] text (Some ''net'') None True =
      Some (Inr (Some (reimported ''net'' quoted_package), [] @ [reimported ''net'' quoted_package])) \<and>
    (list_all (\<lambda>s. \<not> s_anonymous s) (p_sections quoted_package) \<longrightarrow>
      abs_package (reimported ''net'' quoted_package) = abs_package quoted_package)"
proof (rule uci_export_import)
  have "list_all exportable_section (p_sections quoted_package)" by code_simp
  moreover have "distinct (map s_name (reimports 0 (p_sections quoted_package)))"
    by (simp add: quoted_package_def reimport_def fresh_section_def config_name_def uci_fixup_section_def)
  ultimately show "exportable quoted_package" by (simp add: exportable_def)
qed code_simp+

text \<open>A last line that holds only the command word makes the parser read on behind the end of
  the line (\<open>pos += strlen + 1\<close> steps over the terminating null byte), into what an earlier line
  left in the buffer: the bare \<open>l\<close> adds an item to the list that the line before it names.  With
  a newline at its end the same file is rejected.\<close>

theorem uci_import_stale_line:
  "(case uci_import (CHR ''?'') True [] (''c a b'' @ [NL] @ ''l xx yy'' @ [NL] @ ''l'') (Some ''net'') None True of
      Some (Inr (Some p, _)) \<Rightarrow> map s_options (p_sections p) | _ \<Rightarrow> []) =
     [[\<lparr>o_name = ''xx'', o_value = UCI_LIST [''yy'', []]\<rparr>]] \<and>
   uci_import (CHR ''?'') True [] (''c a b'' @ [NL] @ ''l xx yy'' @ [NL] @ ''l'' @ [NL]) (Some ''net'') None True =
     Some (Inl UCI_ERR_PARSE)"
  by code_simp

text \<open>\<open>uci_parse_config\<close> takes pointers to the type and the name before \<open>assert_eol\<close>, which may
  read a continuation line and move the buffer: the section is then opened with dangling
  pointers.\<close>

theorem uci_parse_config_dangling:
  "uci_import (CHR ''?'') True [] (''config a b '' @ [BACKSLASH, NL] @ replicate 20 (CHR '' '') @ [NL]) (Some ''net'') None True = None"
  by code_simp

end
