(* ===== verification/Uci_Delta.thy ===== *)
theory Uci_Delta
  imports Uci_Roundtrip "HOL-Library.Multiset"
begin

text \<open>
  Delta files of libuci (\<open>libuci/delta.c\<close>): the changes recorded in a package are appended to a
  file as one line each, and replayed on the package when it is loaded.  The lines are read
  with the parser of \<^theory_text>\<open>Uci_File\<close>.  Files are a map from names to contents; locking and
  modes are left out, and opening an existing file succeeds.
\<close>

section \<open>Saving a delta\<close>

definition uci_commands :: "uci_command list" where
  "uci_commands = [UCI_CMD_ADD, UCI_CMD_REMOVE, UCI_CMD_CHANGE, UCI_CMD_RENAME, UCI_CMD_REORDER,
     UCI_CMD_LIST_ADD, UCI_CMD_LIST_DEL]"

fun uci_command_char :: "uci_command \<Rightarrow> char" where
  "uci_command_char UCI_CMD_ADD = CHR ''+''"
| "uci_command_char UCI_CMD_REMOVE = CHR ''-''"
| "uci_command_char UCI_CMD_CHANGE = NUL"
| "uci_command_char UCI_CMD_RENAME = CHR ''@''"
| "uci_command_char UCI_CMD_REORDER = CHR ''^''"
| "uci_command_char UCI_CMD_LIST_ADD = CHR ''|''"
| "uci_command_char UCI_CMD_LIST_DEL = CHR ''~''"

text \<open>The loop that writes the value; \<^const>\<open>None\<close> below is the dereference of a null value.\<close>

fun uci_delta_save_value :: "string \<Rightarrow> string" where
  "uci_delta_save_value [] = []"
| "uci_delta_save_value (c # v) =
     (if c \<noteq> QUOTE then [c] else [QUOTE, BACKSLASH, QUOTE, QUOTE]) @ uci_delta_save_value v"

definition uci_delta_save :: "string \<Rightarrow> uci_delta \<Rightarrow> string option" where
  "uci_delta_save name h =
     (let c = uci_command_char (d_cmd h);
          prefix = (if c = NUL then [] else [c]);
          tuple = prefix @ name @ ''.'' @ d_section h @
            (case d_option h of None \<Rightarrow> [] | Some opt \<Rightarrow> ''.'' @ opt)
      in if d_cmd h = UCI_CMD_REMOVE \<and> d_value h = None then Some (tuple @ [NL])
         else case d_value h of None \<Rightarrow> None
         | Some v \<Rightarrow> Some (tuple @ ''='' @ [QUOTE] @ uci_delta_save_value v @ [QUOTE, NL]))"

fun uci_delta_save_all :: "string \<Rightarrow> uci_delta list \<Rightarrow> string option" where
  "uci_delta_save_all name [] = Some []"
| "uci_delta_save_all name (h # hs) = do {
     line \<leftarrow> uci_delta_save name h;
     rest \<leftarrow> uci_delta_save_all name hs;
     Some (line @ rest)
   }"

section \<open>Replaying a delta\<close>

text \<open>\<open>uci_parse_argument\<close> on the current line: the argument and what follows it.\<close>

definition uci_parse_argument :: "parser \<Rightarrow> (string \<times> string) presult" where
  "uci_parse_argument st = do {
     (r, st) \<leftarrow> next_arg False False False st;
     (case r of Inl e \<Rightarrow> Some (Inl e, st)
      | Inr ofs_result \<Rightarrow> do {
          result \<leftarrow> pctx_str st ofs_result;
          str \<leftarrow> pctx_str st (pp_pos st);
          Some (Inr (result, str), st)
        })
   }"

text \<open>The loop over \<open>uci_command_char\<close>: the character of an empty argument is the null byte.\<close>

definition uci_find_command :: "string \<Rightarrow> uci_command" where
  "uci_find_command arg =
     (let a = (case arg of [] \<Rightarrow> NUL | c # _ \<Rightarrow> c)
      in case List.find (\<lambda>c. uci_command_char c = a) uci_commands of
        None \<Rightarrow> UCI_CMD_CHANGE | Some c \<Rightarrow> c)"

definition uci_check_tuple :: "uci_command \<Rightarrow> uci_ptr \<Rightarrow> bool" where
  "uci_check_tuple c ptr \<longleftrightarrow> ptr_section ptr \<noteq> None \<and> \<not> ptr_extended ptr \<and>
     \<not> (c \<noteq> UCI_CMD_REMOVE \<and> ptr_value ptr = None) \<and>
     (case c of
        UCI_CMD_REORDER \<Rightarrow> \<not> (ptr_value ptr = None \<or> ptr_option ptr \<noteq> None)
      | UCI_CMD_RENAME \<Rightarrow> (case ptr_value ptr of None \<Rightarrow> False | Some v \<Rightarrow> uci_validate_name v)
      | UCI_CMD_LIST_ADD \<Rightarrow> ptr_option ptr \<noteq> None
      | UCI_CMD_LIST_DEL \<Rightarrow> ptr_option ptr \<noteq> None
      | _ \<Rightarrow> True)"

definition uci_parse_delta_tuple :: "parser \<Rightarrow> (uci_command \<times> uci_ptr) presult" where
  "uci_parse_delta_tuple st = do {
     (r, st) \<leftarrow> uci_parse_argument st;
     (case r of Inl e \<Rightarrow> Some (Inl e, st)
      | Inr (arg, str) \<Rightarrow>
          if str \<noteq> [] then Some (Inl UCI_ERR_INVAL, st)
          else let c = uci_find_command arg;
                   arg = (if c \<noteq> UCI_CMD_CHANGE then drop 1 arg else arg)
          in case uci_parse_ptr arg of Inl e \<Rightarrow> Some (Inl e, st)
          | Inr ptr \<Rightarrow>
              if uci_check_tuple c ptr then Some (Inr (c, ptr), st) else Some (Inl UCI_ERR_INVAL, st))
   }"

text \<open>\<open>(int) strtoul (s, NULL, 10)\<close> with 32-bit \<open>long\<close> and \<open>int\<close>.\<close>

definition strtoul_int :: "string \<Rightarrow> int" where
  "strtoul_int s =
     (let t = dropWhile isspace s;
          (neg, t) = (case t of [] \<Rightarrow> (False, t)
             | c # r \<Rightarrow> if c = CHR ''-'' then (True, r) else if c = CHR ''+'' then (False, r) else (False, t));
          n = fst (digits_value 0 t);
          u = (if n > 2 ^ 32 - 1 then 2 ^ 32 - 1 else if neg then (- n) mod 2 ^ 32 else n)
      in if u < 2 ^ 31 then u else u - 2 ^ 32)"

text \<open>The switch of \<open>uci_parse_delta_line\<close>: each operation runs in internal mode.\<close>

definition uci_apply_delta :: "uci_command \<Rightarrow> uci_ptr \<Rightarrow> uci_package \<Rightarrow> (uci_err + uci_package) option" where
  "uci_apply_delta cmd ptr p =
     (let result = (\<lambda>r :: uci_op. case r of None \<Rightarrow> None
         | Some (Inl e) \<Rightarrow> Some (Inl e) | Some (Inr (_, _, p)) \<Rightarrow> Some (Inr p));
          set = (case uci_set True p ptr of None \<Rightarrow> None
             | Some (Inl e) \<Rightarrow> Some (Inl e)
             | Some (Inr (_, ptr, p)) \<Rightarrow>
                 if ptr_option ptr = None \<and> cmd = UCI_CMD_ADD then
                   (case ptr_last ptr of
                      None \<Rightarrow> Some (Inr p)
                    | Some (Elem_section i) \<Rightarrow>
                        if i < length (p_sections p)
                        then Some (Inr (upd_section (\<lambda>s. s\<lparr>s_anonymous := True\<rparr>) i p)) else None
                    | _ \<Rightarrow> None)
                 else Some (Inr p))
      in case cmd of
        UCI_CMD_REORDER \<Rightarrow>
          (case uci_expand_ptr p ptr True of Inl e \<Rightarrow> Some (Inl e)
           | Inr ptr \<Rightarrow>
               (case (ptr_s ptr, ptr_value ptr) of
                  (None, _) \<Rightarrow> Some (Inl UCI_ERR_NOTFOUND)
                | (_, None) \<Rightarrow> None
                | (Some i, Some v) \<Rightarrow> map_option Inr (uci_reorder_section True p i (strtoul_int v))))
      | UCI_CMD_RENAME \<Rightarrow> result (uci_rename True p ptr)
      | UCI_CMD_REMOVE \<Rightarrow> result (uci_delete True p ptr)
      | UCI_CMD_LIST_ADD \<Rightarrow> result (uci_add_list True p ptr)
      | UCI_CMD_LIST_DEL \<Rightarrow> result (uci_del_list True p ptr)
      | UCI_CMD_ADD \<Rightarrow> set
      | UCI_CMD_CHANGE \<Rightarrow> set)"

text \<open>\<open>saved_delta\<close> is the flag \<open>UCI_FLAG_SAVED_DELTA\<close>.  The line is recorded there before the
  operation runs, and stays recorded when the operation throws.\<close>

definition uci_parse_delta_line ::
  "bool \<Rightarrow> uci_package \<Rightarrow> parser \<Rightarrow> ((uci_err + unit) \<times> uci_package \<times> parser) option" where
  "uci_parse_delta_line saved_delta p st = do {
     (r, st) \<leftarrow> uci_parse_delta_tuple st;
     (case r of Inl e \<Rightarrow> Some (Inl e, p, st)
      | Inr (cmd, ptr) \<Rightarrow>
          if ptr_package ptr \<noteq> Some (p_name p) then Some (Inl UCI_ERR_PARSE, p, st)
          else do {
            section \<leftarrow> ptr_section ptr;
            let p = (if saved_delta then p\<lparr>p_saved_delta :=
                  uci_add_delta (p_saved_delta p) cmd section (ptr_option ptr) (ptr_value ptr)\<rparr> else p);
            r \<leftarrow> uci_apply_delta cmd ptr p;
            (case r of Inl e \<Rightarrow> Some (Inl e, p, st) | Inr p \<Rightarrow> Some (Inr (), p, st))
          })
   }"

partial_function (option) uci_parse_delta_loop ::
  "bool \<Rightarrow> nat \<Rightarrow> uci_package \<Rightarrow> parser \<Rightarrow> (nat \<times> uci_package) option" where
  "uci_parse_delta_loop saved_delta changes p st =
     (if pp_eof st then Some (changes, p)
      else do {
        st \<leftarrow> uci_getln 0 (st\<lparr>pp_pos := 0\<rparr>);
        c \<leftarrow> pctx_char st 0;
        if c = NUL then uci_parse_delta_loop saved_delta changes p st
        else do {
          (r, p, st) \<leftarrow> uci_parse_delta_line saved_delta p st;
          (case r of Inl e \<Rightarrow> uci_parse_delta_loop saved_delta changes p st
           | Inr _ \<Rightarrow> uci_parse_delta_loop saved_delta (changes + 1) p st)
        }
      })"

definition uci_parse_delta :: "char \<Rightarrow> bool \<Rightarrow> string \<Rightarrow> uci_package \<Rightarrow> (nat \<times> uci_package) option" where
  "uci_parse_delta junk saved_delta stream p =
     uci_parse_delta_loop saved_delta 0 p (parser_init junk True [] stream)"

section \<open>Filtering a delta\<close>

definition filter_match :: "string option \<Rightarrow> string option \<Rightarrow> bool" where
  "filter_match wanted x \<longleftrightarrow> (case wanted of None \<Rightarrow> True | Some w \<Rightarrow> x = Some w)"

text \<open>The loop of \<open>uci_filter_delta\<close>: \<^const>\<open>Inl\<close> when a line does not parse.\<close>

partial_function (option) uci_filter_delta_loop ::
  "string option \<Rightarrow> string option \<Rightarrow> uci_delta list \<Rightarrow> parser \<Rightarrow> (uci_err + uci_delta list) option" where
  "uci_filter_delta_loop section opt list st =
     (if pp_eof st then Some (Inr list)
      else do {
        st \<leftarrow> uci_getln 0 (st\<lparr>pp_pos := 0\<rparr>);
        c \<leftarrow> pctx_char st 0;
        if c = NUL then uci_filter_delta_loop section opt list st
        else do {
          (r, st) \<leftarrow> uci_parse_delta_tuple st;
          (case r of Inl e \<Rightarrow> Some (Inl e)
           | Inr (c, ptr) \<Rightarrow> do {
               sec \<leftarrow> ptr_section ptr;
               let match = (filter_match section (ptr_section ptr) \<and> filter_match opt (ptr_option ptr));
               let list = (if match then list else uci_add_delta list c sec (ptr_option ptr) (ptr_value ptr));
               uci_filter_delta_loop section opt list st
             })
        }
      })"

text \<open>The contents of the delta file after \<open>uci_filter_delta\<close>; after an error it is left alone.\<close>

definition uci_filter_delta ::
  "char \<Rightarrow> string \<Rightarrow> string option \<Rightarrow> string option \<Rightarrow> string \<Rightarrow> string option" where
  "uci_filter_delta junk name section opt stream = do {
     r \<leftarrow> uci_filter_delta_loop section opt [] (parser_init junk True [] stream);
     (case r of Inl e \<Rightarrow> Some stream
      | Inr list \<Rightarrow> uci_delta_save_all name list)
   }"

declare uci_parse_delta_loop.simps [code] uci_filter_delta_loop.simps [code]

section \<open>Reading a saved line\<close>

text \<open>Package names for which a line can be told from its command character, and changes whose
  line is accepted: the names are plain, the value is printable text, and each command has the
  parts it needs.\<close>

definition package_word :: "string \<Rightarrow> bool" where
  "package_word name \<longleftrightarrow> name \<noteq> [] \<and> hd name \<noteq> CHR ''-'' \<and>
     list_all (\<lambda>c. isalnum c \<or> c = CHR ''_'' \<or> c = CHR ''-'') name"

definition delta_ptr :: "string \<Rightarrow> uci_delta \<Rightarrow> uci_ptr" where
  "delta_ptr name h = ptr_zero\<lparr>
     ptr_target := (if d_option h = None then UCI_TYPE_SECTION else UCI_TYPE_OPTION),
     ptr_package := Some name, ptr_section := Some (d_section h), ptr_option := d_option h, ptr_value := d_value h\<rparr>"

definition valid_delta :: "uci_delta \<Rightarrow> bool" where
  "valid_delta h \<longleftrightarrow> uci_validate_name (d_section h) \<and>
     (case d_option h of None \<Rightarrow> True | Some x \<Rightarrow> uci_validate_name x) \<and>
     (case d_value h of None \<Rightarrow> True | Some v \<Rightarrow> uci_validate_text v) \<and>
     uci_check_tuple (d_cmd h) (delta_ptr [] h)"

definition delta_arg :: "string \<Rightarrow> uci_delta \<Rightarrow> string" where
  "delta_arg name h = (if d_cmd h = UCI_CMD_CHANGE then [] else [uci_command_char (d_cmd h)]) @
     tuple_text name (Some (d_section h)) (d_option h) (d_value h)"

lemma uci_delta_save_value_esc: "uci_delta_save_value v = esc v"
  by (induction v) (auto simp: UCI_QUOTE_ESCAPE_def)

lemma package_word_facts:
  assumes "package_word name"
  shows "name \<noteq> []" "list_all plain_char name" "uci_validate_package name" "CHR ''.'' \<notin> set name" "CHR ''='' \<notin> set name"
    "uci_command_char c \<noteq> hd name"
proof -
  have *: "isalnum c \<or> c = CHR ''_'' \<or> c = CHR ''-''" if "c \<in> set name" for c
    using assms that by (auto simp: package_word_def list_all_iff)
  show "name \<noteq> []" using assms by (simp add: package_word_def)
  then have hd: "hd name \<in> set name" "hd name \<noteq> CHR ''-''" using assms by (auto simp: package_word_def)
  have "plain_char c" if "isalnum c \<or> c = CHR ''_'' \<or> c = CHR ''-''" for c
    using that by (auto simp: plain_char_def isalnum_def isdigit_def isspace_def cv_def NUL_def QUOTE_def DQUOTE_def BACKSLASH_def)
  with * show "list_all plain_char name" by (simp add: list_all_iff)
  show "uci_validate_package name"
    using * \<open>name \<noteq> []\<close> by (auto simp: uci_validate_package_def uci_validate_str_def uci_validate_loop_iff)
  show "CHR ''.'' \<notin> set name" "CHR ''='' \<notin> set name" using * by force+
  have "\<not> isalnum (uci_command_char c)" "uci_command_char c \<noteq> CHR ''_''"
    by (cases c; simp add: isalnum_def isdigit_def cv_def NUL_def)+
  with * [OF hd(1)] hd(2) show "uci_command_char c \<noteq> hd name" by metis
qed

lemma uci_find_command_arg:
  assumes "package_word name"
  shows "uci_find_command (delta_arg name h) = d_cmd h"
proof -
  obtain c n where n: "name = c # n" using package_word_facts(1) [OF assms] by (cases name) auto
  have "List.find (\<lambda>k. uci_command_char k = c) uci_commands = None"
    using package_word_facts(6) [OF assms] n by (simp add: find_None_iff)
  moreover have "List.find (\<lambda>k. uci_command_char k = uci_command_char (d_cmd h)) uci_commands = Some (d_cmd h)"
    by (cases "d_cmd h") (simp_all add: uci_commands_def NUL_def)
  ultimately show ?thesis by (simp add: delta_arg_def uci_find_command_def n)
qed

lemma text_no_nul: "uci_validate_text v \<Longrightarrow> NUL \<notin> set v"
  by (auto simp: uci_validate_text_iff TAB_def NL_def CR_def NUL_def cv_def dest!: bspec)

text \<open>The line is one argument of the parser, with the value quoted.\<close>

lemma uci_delta_save_arg:
  assumes "package_word name" "valid_delta h"
  obtains x where "uci_delta_save name h = Some (x @ [NL])" "arg_text (delta_arg name h) x" "NUL \<notin> set (delta_arg name h)"
proof -
  let ?u = "(if d_cmd h = UCI_CMD_CHANGE then [] else [uci_command_char (d_cmd h)]) @ tuple_text name (Some (d_section h)) (d_option h) None"
  have cmd: "uci_command_char (d_cmd h) = NUL \<longleftrightarrow> d_cmd h = UCI_CMD_CHANGE" "plain_char (CHR ''='')" "plain_char (CHR ''.'')"
    "d_cmd h \<noteq> UCI_CMD_CHANGE \<Longrightarrow> plain_char (uci_command_char (d_cmd h))"
    by (cases "d_cmd h"; simp add: NUL_def plain_char_def isspace_def cv_def QUOTE_def DQUOTE_def BACKSLASH_def)+
  have sec: "list_all plain_char (d_section h)" "\<And>x. d_option h = Some x \<Longrightarrow> list_all plain_char x"
    using assms(2) name_facts(2) by (auto simp: valid_delta_def)
  have u: "list_all plain_char ?u" "?u \<noteq> []"
    using package_word_facts(1,2) [OF assms(1)] cmd sec by (auto split: option.splits)
  have nul: "NUL \<notin> set v" if "d_value h = Some v" for v
    using assms(2) that text_no_nul by (simp add: valid_delta_def)
  have need: "d_value h \<noteq> None" if "d_cmd h \<noteq> UCI_CMD_REMOVE"
    using assms(2) that by (auto simp: valid_delta_def uci_check_tuple_def delta_ptr_def)
  show thesis
  proof (cases "d_value h")
    case None
    then have arg: "delta_arg name h = ?u" by (simp add: delta_arg_def)
    have "uci_delta_save name h = Some (?u @ [NL])"
      using None need cmd(1) by (auto simp: uci_delta_save_def Let_def NUL_def split: option.splits)
    then show thesis using that [of ?u] u plain_nul [OF u(1)] arg by (simp add: arg_text_def)
  next
    case (Some v)
    let ?x = "(?u @ ''='') @ QUOTE # esc v @ [QUOTE]"
    have arg: "delta_arg name h = (?u @ ''='') @ v" using Some by (simp add: delta_arg_def)
    have save: "uci_delta_save name h = Some (?x @ [NL])"
      using Some cmd(1) by (auto simp: uci_delta_save_def Let_def uci_delta_save_value_esc split: option.splits)
    have pl: "list_all plain_char (?u @ ''='')" using u(1) cmd(2) by simp
    have "arg_text (delta_arg name h) ?x"
      unfolding arg_text_def arg using pl by blast
    moreover have "NUL \<notin> set (delta_arg name h)" using arg plain_nul [OF pl] nul [OF Some] by auto
    ultimately show thesis using that [OF save] by simp
  qed
qed

lemma uci_check_tuple_name: "uci_check_tuple c (delta_ptr name h) = uci_check_tuple c (delta_ptr [] h)"
  by (cases c) (simp_all add: uci_check_tuple_def delta_ptr_def)

lemma uci_parse_ptr_delta:
  assumes "package_word name" "valid_delta h"
  shows "uci_parse_ptr (tuple_text name (Some (d_section h)) (d_option h) (d_value h)) = Inr (delta_ptr name h)"
proof -
  have sec: "uci_validate_name (d_section h)" using assms(2) by (simp add: valid_delta_def)
  have "CHR ''.'' \<notin> set (d_section h) \<and> CHR ''='' \<notin> set (d_section h)" using name_no_sep [OF sec] .
  with sec assms show ?thesis
    by (subst uci_parse_ptr_spec)
      (auto simp: valid_delta_def package_word_facts delta_ptr_def ptr_zero_def simp del: tuple_text.simps split: option.splits)
qed

lemma uci_parse_delta_tuple_line:
  assumes "shape st [] [] [] t" "t \<noteq> []" "uci_delta_save name h = Some line" "t @ pp_file st = line @ r"
    "package_word name" "valid_delta h"
  obtains st' B where "uci_parse_delta_tuple st = Some (Inr (d_cmd h, delta_ptr name h), st')"
    "shape st' B [] [] []" "pp_file st' = r" "keeps st st'"
proof -
  obtain x where x: "uci_delta_save name h = Some (x @ [NL])" "arg_text (delta_arg name h) x" "NUL \<notin> set (delta_arg name h)"
    by (rule uci_delta_save_arg [OF assms(5,6)])
  let ?v = "delta_arg name h"
  have eq: "t @ pp_file st = x @ NL # r" using assms(3,4) x(1) by simp
  obtain st1 g t1 where st1: "next_arg False False False st = Some (Inr (length ([] @ [])), st1)"
    "shape st1 (([] @ []) @ ?v @ NUL # g) [] [] t1" "t1 @ pp_file st1 = r" "keeps st st1" "t1 = [] \<longleftrightarrow> NL = NL"
    by (rule next_arg_spec [where st = st and A = "[]" and ws = "[]" and t = t and required = False and nm = False and package = False,
        OF _ _ assms(2) eq _ x(2,3)])
      (use assms(1) in simp_all)
  have arg: "pctx_str st1 0 = Some ?v" using pctx_str_prefix [of st1 "[]" ?v g] st1(2) x(3) by simp
  have rest: "pctx_str st1 (pp_pos st1) = Some []" using st1(2,5) by (auto simp: shape_def pctx_str_def)
  have "(if d_cmd h \<noteq> UCI_CMD_CHANGE then drop 1 ?v else ?v) = tuple_text name (Some (d_section h)) (d_option h) (d_value h)"
    by (simp add: delta_arg_def)
  then have "uci_parse_delta_tuple st = Some (Inr (d_cmd h, delta_ptr name h), st1)"
    using st1(1) arg rest uci_find_command_arg [OF assms(5)] uci_parse_ptr_delta [OF assms(5,6)] assms(6)
      uci_check_tuple_name [of "d_cmd h" name h]
    by (simp add: uci_parse_delta_tuple_def uci_parse_argument_def Let_def valid_delta_def)
  then show thesis using that st1(2-5) by simp
qed

section \<open>Replaying a saved file\<close>

text \<open>The meaning of replaying: each change is noted as saved and applied in order; one that
  throws is skipped and not counted.\<close>

definition note_saved :: "bool \<Rightarrow> uci_delta \<Rightarrow> uci_package \<Rightarrow> uci_package" where
  "note_saved flag h p = (if flag then p\<lparr>p_saved_delta := p_saved_delta p @ [h]\<rparr> else p)"

fun replay :: "bool \<Rightarrow> string \<Rightarrow> uci_delta list \<Rightarrow> nat \<times> uci_package \<Rightarrow> (nat \<times> uci_package) option" where
  "replay flag name [] s = Some s"
| "replay flag name (h # hs) (n, p) =
     (case uci_apply_delta (d_cmd h) (delta_ptr name h) (note_saved flag h p) of
        None \<Rightarrow> None
      | Some (Inl e) \<Rightarrow> replay flag name hs (n, note_saved flag h p)
      | Some (Inr p') \<Rightarrow> replay flag name hs (n + 1, p'))"

text \<open>No operation changes the name or the file of the package or starts or stops its delta tracking.\<close>

lemma track_delta_name: "track_delta internal p cmd sec opt v = Some p' \<Longrightarrow> p_name p' = p_name p \<and> p_has_delta p' = p_has_delta p \<and> p_path p' = p_path p"
  by (auto simp: track_delta_def split: if_splits)

lemma uci_rename_name: "uci_rename i p ptr = Some (Inr (n, q, p')) \<Longrightarrow> p_name p' = p_name p \<and> p_has_delta p' = p_has_delta p \<and> p_path p' = p_path p"
  by (auto simp: uci_rename_def bind_eq_Some_conv dest!: track_delta_name split: sum.splits option.splits)

lemma uci_delete_name: "uci_delete i p ptr = Some (Inr (n, q, p')) \<Longrightarrow> p_name p' = p_name p \<and> p_has_delta p' = p_has_delta p \<and> p_path p' = p_path p"
  by (auto simp: uci_delete_def bind_eq_Some_conv Let_def uci_free_section_def dest!: track_delta_name
      split: sum.splits option.splits if_splits)

lemma uci_del_list_name: "uci_del_list i p ptr = Some (Inr (n, q, p')) \<Longrightarrow> p_name p' = p_name p \<and> p_has_delta p' = p_has_delta p \<and> p_path p' = p_path p"
  by (auto simp: uci_del_list_def bind_eq_Some_conv dest!: track_delta_name
      split: sum.splits option.splits uci_value.splits)

lemma uci_add_element_list_name: "uci_add_element_list i p ptr s j v = Some p' \<Longrightarrow> p_name p' = p_name p \<and> p_has_delta p' = p_has_delta p \<and> p_path p' = p_path p"
  by (auto simp: uci_add_element_list_def bind_eq_Some_conv dest!: track_delta_name)

lemma uci_add_list_name: "uci_add_list i p ptr = Some (Inr (n, q, p')) \<Longrightarrow> p_name p' = p_name p \<and> p_has_delta p' = p_has_delta p \<and> p_path p' = p_path p"
  by (auto simp: uci_add_list_def bind_eq_Some_conv Let_def dest!: uci_add_element_list_name
      split: sum.splits option.splits uci_value.splits)

lemma uci_set_change_name: "uci_set_change p ptr v = Some (c, q, p') \<Longrightarrow> p_name p' = p_name p \<and> p_has_delta p' = p_has_delta p \<and> p_path p' = p_path p"
  by (auto simp: uci_set_change_def uci_alloc_section_def Let_def split: option.splits if_splits)

lemma uci_set_name: "uci_set i p ptr = Some (Inr (n, q, p')) \<Longrightarrow> p_name p' = p_name p \<and> p_has_delta p' = p_has_delta p \<and> p_path p' = p_path p"
  by (auto simp: uci_set_def bind_eq_Some_conv Let_def dest!: track_delta_name uci_set_change_name uci_delete_name
      split: sum.splits option.splits if_splits)

lemma uci_reorder_section_name: "uci_reorder_section i p s pos = Some p' \<Longrightarrow> p_name p' = p_name p \<and> p_has_delta p' = p_has_delta p \<and> p_path p' = p_path p"
  by (auto simp: uci_reorder_section_def Let_def dest!: track_delta_name split: if_splits prod.splits)

lemmas op_names = uci_rename_name uci_delete_name uci_del_list_name uci_add_list_name uci_set_name uci_reorder_section_name

lemma uci_apply_delta_name: "uci_apply_delta c ptr p = Some (Inr p') \<Longrightarrow> p_name p' = p_name p \<and> p_has_delta p' = p_has_delta p \<and> p_path p' = p_path p"
  by (cases c) (auto simp: uci_apply_delta_def Let_def dest!: op_names split: option.splits sum.splits uci_elem.splits if_splits)

lemma at_line_any: "ready st \<Longrightarrow> \<exists>c. at_line c (pp_file st) (pp_package st) (pp_section st) st"
  by (simp add: at_line_def)

lemma ready_after:
  assumes "ready st" "keeps st st'" "shape st' B [] [] []"
  shows "ready st'"
  using assms by (auto simp: ready_def keeps_def shape_def)

text \<open>One pass of a loop that reads the delta file a line at a time.\<close>

lemma delta_getln:
  assumes "ready st" "pp_file st = line @ r" "uci_delta_save name h = Some line" "package_word name" "valid_delta h"
  obtains st1 st2 d where "uci_getln 0 (st\<lparr>pp_pos := 0\<rparr>) = Some st1" "pctx_char st1 0 = Some d" "d \<noteq> NUL"
    "uci_parse_delta_tuple st1 = Some (Inr (d_cmd h, delta_ptr name h), st2)" "ready st2" "pp_file st2 = r"
proof -
  obtain x where x: "line = x @ [NL]" using uci_delta_save_arg [OF assms(4,5)] assms(3) by (metis option.inject)
  obtain c where c: "at_line c (line @ r) (pp_package st) (pp_section st) st" using at_line_any [OF assms(1)] assms(2) by auto
  have ne: "line @ r \<noteq> []" using x by simp
  obtain st1 t where st1: "uci_getln 0 (st\<lparr>pp_pos := 0\<rparr>) = Some st1" "shape st1 [] [] [] t" "t \<noteq> []"
    "t @ pp_file st1 = line @ r" "keeps st st1" by (rule import_getln [OF c ne])
  from st1(2,3) obtain d where d: "pctx_char st1 0 = Some d" "d \<noteq> NUL"
    by (cases t) (auto simp: shape_def pctx_char_def)
  obtain st2 B where st2: "uci_parse_delta_tuple st1 = Some (Inr (d_cmd h, delta_ptr name h), st2)"
    "shape st2 B [] [] []" "pp_file st2 = r" "keeps st1 st2"
    by (rule uci_parse_delta_tuple_line [OF st1(2,3) assms(3) st1(4) assms(4,5)])
  have "ready st2" using ready_after [OF assms(1) keeps_trans [OF st1(5) st2(4)] st2(2)] .
  with st1(1) d st2(1,3) that show thesis by blast
qed

lemma ready_end:
  assumes "ready st" "pp_file st = []"
  obtains st' where "uci_getln 0 (st\<lparr>pp_pos := 0\<rparr>) = Some st'" "pctx_char st' 0 = Some NUL" "pp_eof st'" "\<not> pp_eof st"
proof -
  define b where "b = (case pp_buf st of None \<Rightarrow> replicate LINEBUF NUL | Some b \<Rightarrow> b)"
  have b: "0 + 2 \<le> length b" using assms(1) by (auto simp: b_def LINEBUF_def ready_def split: option.splits)
  let ?st = "st\<lparr>pp_pos := 0, pp_file := [], pp_eof := True, pp_buf := Some (b[0 := NUL])\<rparr>"
  have "uci_getln 0 (st\<lparr>pp_pos := 0\<rparr>) = Some ?st"
    using b uci_getln_loop_eof [OF b, of "st\<lparr>pp_pos := 0\<rparr>"] assms(2) by (auto simp: uci_getln_def b_def [symmetric] Let_def)
  moreover have "pctx_char ?st 0 = Some NUL" using b by (auto simp: pctx_char_def)
  ultimately show thesis using that assms(1) by (simp add: ready_def)
qed

lemma uci_parse_delta_loop_replay:
  assumes "package_word name" "list_all valid_delta hs" "uci_delta_save_all name hs = Some (pp_file st)" "ready st" "p_name p = name"
  shows "uci_parse_delta_loop flag n p st = replay flag name hs (n, p)"
  using assms(2-5)
proof (induction hs arbitrary: n p st)
  case Nil
  then obtain st' where st': "uci_getln 0 (st\<lparr>pp_pos := 0\<rparr>) = Some st'" "pctx_char st' 0 = Some NUL" "pp_eof st'" "\<not> pp_eof st"
    using ready_end [of st] by auto
  have "uci_parse_delta_loop flag n p st' = Some (n, p)" using st'(3) by (subst uci_parse_delta_loop.simps) simp
  with st' show ?case by (subst uci_parse_delta_loop.simps) simp
next
  case (Cons h hs)
  from Cons.prems(2) obtain line r where l: "uci_delta_save name h = Some line" "uci_delta_save_all name hs = Some r"
    "pp_file st = line @ r" by (auto simp: bind_eq_Some_conv)
  have h: "valid_delta h" "list_all valid_delta hs" using Cons.prems(1) by simp_all
  obtain st1 st2 d where st1: "uci_getln 0 (st\<lparr>pp_pos := 0\<rparr>) = Some st1" "pctx_char st1 0 = Some d" "d \<noteq> NUL"
    "uci_parse_delta_tuple st1 = Some (Inr (d_cmd h, delta_ptr name h), st2)" "ready st2" "pp_file st2 = r"
    by (rule delta_getln [OF Cons.prems(3) l(3,1) assms(1) h(1)])
  have ptr: "ptr_package (delta_ptr name h) = Some name" "ptr_section (delta_ptr name h) = Some (d_section h)"
    "ptr_option (delta_ptr name h) = d_option h" "ptr_value (delta_ptr name h) = d_value h" by (simp_all add: delta_ptr_def)
  have saved_eq: "(if flag then p\<lparr>p_saved_delta := uci_add_delta (p_saved_delta p) (d_cmd h) (d_section h)
        (ptr_option (delta_ptr name h)) (ptr_value (delta_ptr name h))\<rparr> else p) = note_saved flag h p"
    by (simp add: ptr uci_add_delta_def note_saved_def)
  have line: "uci_parse_delta_line flag p st1 = (do {
      r \<leftarrow> uci_apply_delta (d_cmd h) (delta_ptr name h) (note_saved flag h p);
      (case r of Inl e \<Rightarrow> Some (Inl e, note_saved flag h p, st2) | Inr p \<Rightarrow> Some (Inr (), p, st2)) })"
    using st1(4) Cons.prems(4) ptr(1,2) by (simp add: uci_parse_delta_line_def saved_eq Let_def split del: if_split)
  have eof: "\<not> pp_eof st" using Cons.prems(3) by (simp add: ready_def)
  have saved: "p_name (note_saved flag h p) = name" using Cons.prems(4) by (simp add: note_saved_def)
  have IH: "uci_parse_delta_loop flag m q st2 = replay flag name hs (m, q)" if "p_name q = name" for m q
    using Cons.IH [OF h(2) _ st1(5) that] l(2) st1(6) by simp
  have step: "uci_parse_delta_loop flag n p st = (do {
      (r, p, st) \<leftarrow> uci_parse_delta_line flag p st1;
      (case r of Inl e \<Rightarrow> uci_parse_delta_loop flag n p st | Inr _ \<Rightarrow> uci_parse_delta_loop flag (n + 1) p st) })"
    using st1(1-3) eof by (subst uci_parse_delta_loop.simps) simp
  show ?case
  proof (cases "uci_apply_delta (d_cmd h) (delta_ptr name h) (note_saved flag h p)")
    case None
    then show ?thesis by (simp add: step line)
  next
    case (Some r)
    show ?thesis
    proof (cases r)
      case (Inl e)
      with Some IH [OF saved] show ?thesis by (simp add: step line)
    next
      case (Inr q)
      have "p_name q = name" using uci_apply_delta_name Some Inr saved by metis
      with Some Inr IH show ?thesis by (simp add: step line)
    qed
  qed
qed

lemma arg_text_nul: "arg_text v x \<Longrightarrow> NUL \<notin> set v \<Longrightarrow> NUL \<notin> set x"
  unfolding arg_text_def by (elim disjE exE conjE) (simp_all add: esc_nul)

lemma uci_delta_save_all_text:
  assumes "package_word name" "list_all valid_delta hs"
  obtains s where "uci_delta_save_all name hs = Some s" "NUL \<notin> set s" "line_end s"
  using assms(2)
proof (induction hs arbitrary: thesis)
  case Nil
  then show ?case by (simp add: line_end_def)
next
  case (Cons h hs)
  obtain r where r: "uci_delta_save_all name hs = Some r" "NUL \<notin> set r" "line_end r" using Cons.IH Cons.prems(2) by auto
  have "valid_delta h" using Cons.prems(2) by simp
  from uci_delta_save_arg [OF assms(1) this] obtain x where
    x: "uci_delta_save name h = Some (x @ [NL])" "arg_text (delta_arg name h) x" "NUL \<notin> set (delta_arg name h)" .
  have "NUL \<notin> set (x @ NL # r)" using arg_text_nul [OF x(2,3)] r(2) char_simps(7) by (simp add: eq_commute)
  moreover have "line_end (x @ NL # r)" using r(3) by (auto simp: line_end_def)
  ultimately show ?case using r(1) by (intro Cons.prems(1) [of "x @ NL # r"]) (simp_all add: x(1))
qed

text \<open>A change that a configuration admits: the sections and options it needs exist, a new name is
  free, and a new type is valid.\<close>

definition applicable :: "uci_delta \<Rightarrow> config \<Rightarrow> bool" where
  "applicable h c \<longleftrightarrow> (case d_cmd h of
     UCI_CMD_REORDER \<Rightarrow> c (d_section h) \<noteq> None \<and> d_option h = None \<and> d_value h \<noteq> None
   | UCI_CMD_RENAME \<Rightarrow> (case (c (d_section h), d_option h, d_value h) of
       (Some _, None, Some v) \<Rightarrow> c v = None
     | (Some (ty, os), Some x, Some v) \<Rightarrow> os x \<noteq> None \<and> os v = None
     | _ \<Rightarrow> False)
   | UCI_CMD_REMOVE \<Rightarrow> d_value h = None \<and> (case (c (d_section h), d_option h) of
       (None, _) \<Rightarrow> False | (Some _, None) \<Rightarrow> True | (Some (ty, os), Some x) \<Rightarrow> os x \<noteq> None)
   | UCI_CMD_LIST_ADD \<Rightarrow> c (d_section h) \<noteq> None \<and> d_option h \<noteq> None \<and> d_value h \<noteq> None
   | UCI_CMD_LIST_DEL \<Rightarrow> c (d_section h) \<noteq> None \<and> d_option h \<noteq> None \<and> d_value h \<noteq> None
   | UCI_CMD_ADD \<Rightarrow> d_option h = None \<and> d_section h \<noteq> [] \<and> (case d_value h of None \<Rightarrow> False | Some v \<Rightarrow> uci_validate_type v)
   | UCI_CMD_CHANGE \<Rightarrow> d_section h \<noteq> [] \<and> (case (d_option h, d_value h) of
       (None, Some v) \<Rightarrow> uci_validate_type v
     | (Some x, Some v) \<Rightarrow> v \<noteq> [] \<and> c (d_section h) \<noteq> None
     | _ \<Rightarrow> False))"

fun applicable_all :: "uci_delta list \<Rightarrow> config \<Rightarrow> bool" where
  "applicable_all [] c = True"
| "applicable_all (h # hs) c = (applicable h c \<and> applicable_all hs (spec_delta h c))"

lemma lookup_abs: "wf_package p \<Longrightarrow> lookup_section p sec \<noteq> None \<longleftrightarrow> abs_package p sec \<noteq> None"
  using abs_section(3) [of p sec] no_section(2) [of p sec] by (cases "lookup_section p sec") auto

lemma delta_ptr_plain: "plain_ptr (delta_ptr name h) (d_section h) (d_option h) (d_value h)"
  by (simp add: plain_ptr_def delta_ptr_def ptr_zero_def)

lemma validate_type_nonempty: "uci_validate_type v \<Longrightarrow> v \<noteq> []"
  by (auto simp: uci_validate_type_def uci_validate_str_def)

lemma anonymous_abs:
  assumes "i < length (p_sections p)"
  shows "abs_package (upd_section (\<lambda>s. s\<lparr>s_anonymous := True\<rparr>) i p) = abs_package p"
    "wf_package (upd_section (\<lambda>s. s\<lparr>s_anonymous := True\<rparr>) i p) = wf_package p"
proof -
  let ?x = "(p_sections p ! i)\<lparr>s_anonymous := True\<rparr>"
  have m: "map f ((p_sections p)[i := ?x]) = map f (p_sections p)" if "f ?x = f (p_sections p ! i)" for f :: "uci_section \<Rightarrow> 'a"
    using assms that by (metis list_update_id map_update)
  show "abs_package (upd_section (\<lambda>s. s\<lparr>s_anonymous := True\<rparr>) i p) = abs_package p"
    unfolding abs_package_def secs.to_map_def by (simp add: m)
  have all: "list_all wf_section xs \<longleftrightarrow> (\<forall>b \<in> set (map wf_section xs). b)" for xs by (auto simp: list_all_iff)
  have "list_all wf_section ((p_sections p)[i := ?x]) = list_all wf_section (p_sections p)"
    unfolding all by (subst m) (simp_all add: wf_section_def)
  then show "wf_package (upd_section (\<lambda>s. s\<lparr>s_anonymous := True\<rparr>) i p) = wf_package p"
    using m [of "\<lambda>s. the (s_name s)"] by (simp add: wf_package_def)
qed

lemma uci_set_section_last:
  assumes "wf_package p" "plain_ptr ptr sec None (Some v)" "v \<noteq> []" "uci_set True p ptr = Some (Inr (n, q, p'))"
  shows "ptr_option q = None" "\<exists>i. ptr_last q = Some (Elem_section i) \<and> i < length (p_sections p')"
  using assms lookup_list_Some [of s_name "p_sections p" sec]
  by (auto simp: uci_set_def uci_expand_ptr_def uci_lookup_ptr_def uci_lookup_section_def plain_ptr_def Let_def
      uci_set_change_def track_delta_def uci_alloc_section_def split: option.splits if_splits)

lemma uci_apply_set:
  assumes "wf_package p" "plain_ptr ptr sec opt (Some v)" "v \<noteq> []" "sec \<noteq> []" "opt = None \<longrightarrow> uci_validate_type v"
    "opt \<noteq> None \<longrightarrow> lookup_section p sec \<noteq> None" "cmd = UCI_CMD_ADD \<or> cmd = UCI_CMD_CHANGE"
    "cmd = UCI_CMD_ADD \<longrightarrow> opt = None"
  shows "\<exists>p'. uci_apply_delta cmd ptr p = Some (Inr p') \<and> wf_package p' \<and>
    abs_package p' = spec_delta \<lparr>d_cmd = UCI_CMD_CHANGE, d_section = sec, d_option = opt, d_value = Some v\<rparr> (abs_package p)"
proof -
  obtain q p' where q: "uci_set True p ptr = Some (Inr (0, q, p'))" "wf_package p'"
    "abs_package p' = spec_delta \<lparr>d_cmd = UCI_CMD_CHANGE, d_section = sec, d_option = opt, d_value = Some v\<rparr> (abs_package p)"
    using uci_set_step [OF assms(1-6), of True] by blast
  show ?thesis
  proof (cases "cmd = UCI_CMD_ADD")
    case False
    with q assms(7) show ?thesis by (simp add: uci_apply_delta_def)
  next
    case True
    with assms(8) have "opt = None" by simp
    from uci_set_section_last [OF assms(1) assms(2) [unfolded this] assms(3) q(1)] obtain i where
      i: "ptr_option q = None" "ptr_last q = Some (Elem_section i)" "i < length (p_sections p')" by blast
    with q True anonymous_abs [OF i(3)] show ?thesis by (simp add: uci_apply_delta_def)
  qed
qed

lemma uci_list_set_pos_mset:
  assumes "i < length xs"
  shows "mset (fst (uci_list_set_pos xs i pos)) = mset xs"
proof -
  define r where "r = take i xs @ drop (Suc i) xs"
  have "mset (take i xs @ [xs ! i] @ drop (Suc i) xs) = mset xs" using assms by (simp add: id_take_nth_drop [symmetric])
  then have r: "add_mset (xs ! i) (mset r) = mset xs" by (simp add: r_def)
  have "mset (take k r) + mset (drop k r) = mset r" for k by (simp flip: mset_append)
  with r show ?thesis by (simp add: uci_list_set_pos_def Let_def flip: r_def)
qed

lemma permuted_abs:
  assumes "wf_package p" "mset ss = mset (p_sections p)"
  shows "wf_package (p\<lparr>p_sections := ss\<rparr>)" "abs_package (p\<lparr>p_sections := ss\<rparr>) = abs_package p"
proof -
  have s: "set ss = set (p_sections p)" using assms(2) by (metis set_mset_mset)
  have d: "distinct (map (\<lambda>s. the (s_name s)) (p_sections p))" using assms(1) by (simp add: wf_package_def)
  then have d': "distinct (map (\<lambda>s. the (s_name s)) ss)"
    using mset_eq_imp_distinct_iff [of "map (\<lambda>s. the (s_name s)) ss" "map (\<lambda>s. the (s_name s)) (p_sections p)"] assms(2) by simp
  show "wf_package (p\<lparr>p_sections := ss\<rparr>)" using assms(1) s d' by (simp add: wf_package_def list_all_iff)
  show "abs_package (p\<lparr>p_sections := ss\<rparr>) = abs_package p"
    unfolding abs_package_def secs.to_map_def using d d' s by (intro map_of_inject_set [THEN iffD2]) (simp_all add: comp_def)
qed

lemma uci_apply_reorder:
  assumes wf: "wf_package p" and "plain_ptr ptr sec None (Some v)" "abs_package p sec \<noteq> None"
  shows "\<exists>p'. uci_apply_delta UCI_CMD_REORDER ptr p = Some (Inr p') \<and> wf_package p' \<and> abs_package p' = abs_package p"
proof -
  obtain i where i: "lookup_section p sec = Some i" using lookup_abs [OF wf, of sec] assms(3) by auto
  obtain q where q: "uci_expand_ptr p ptr True = Inr q" "ptr_s q = Some i" "ptr_value q = Some v"
    by (rule expand_plain [OF assms(2), of p True]) (use i in auto)
  let ?ss = "fst (uci_list_set_pos (p_sections p) i (strtoul_int v))"
  have "mset ?ss = mset (p_sections p)" using abs_section(1) [OF wf i] by (rule uci_list_set_pos_mset)
  from permuted_abs [OF wf this] q show ?thesis
    by (simp add: uci_apply_delta_def uci_reorder_section_def track_delta_def split_beta Let_def)
qed

lemma applicable_section: "applicable h c \<Longrightarrow> d_cmd h \<notin> {UCI_CMD_ADD, UCI_CMD_CHANGE} \<Longrightarrow> c (d_section h) \<noteq> None"
  by (cases "d_cmd h") (auto simp: applicable_def split: option.splits prod.splits)

text \<open>Each applicable change is applied without an error and has its abstract meaning.\<close>

lemma uci_apply_delta_step:
  assumes wf: "wf_package p" and app: "applicable h (abs_package p)"
  shows "\<exists>p'. uci_apply_delta (d_cmd h) (delta_ptr name h) p = Some (Inr p') \<and> wf_package p' \<and>
    abs_package p' = spec_delta h (abs_package p)"
proof -
  obtain cmd sec opt val where h: "h = \<lparr>d_cmd = cmd, d_section = sec, d_option = opt, d_value = val\<rparr>" by (cases h)
  have ptr: "plain_ptr (delta_ptr name h) sec opt val" using delta_ptr_plain [of name h] h by simp
  have sec: "\<exists>i. lookup_section p sec = Some i" if "cmd \<notin> {UCI_CMD_ADD, UCI_CMD_CHANGE}"
    using applicable_section [OF app] lookup_abs [OF wf, of sec] that by (simp add: h)
  note app = app [unfolded h applicable_def, simplified]
  show ?thesis
  proof (cases cmd)
    case UCI_CMD_ADD
    then obtain v where v: "opt = None" "val = Some v" "uci_validate_type v" "sec \<noteq> []" using app by (auto split: option.splits)
    from uci_apply_set [OF wf ptr [unfolded v(2)] validate_type_nonempty [OF v(3)] v(4), of cmd] v UCI_CMD_ADD
    show ?thesis by (simp add: h)
  next
    case UCI_CMD_CHANGE
    then obtain v where v: "val = Some v" "v \<noteq> []" "sec \<noteq> []" "opt = None \<longrightarrow> uci_validate_type v"
      "opt \<noteq> None \<longrightarrow> lookup_section p sec \<noteq> None"
      using app validate_type_nonempty lookup_abs [OF wf, of sec] by (cases opt; cases val) (auto simp del: not_None_eq)
    from uci_apply_set [OF wf ptr [unfolded v(1)] v(2-5), of cmd] v(1) UCI_CMD_CHANGE show ?thesis by (simp add: h)
  next
    case UCI_CMD_REMOVE
    then have v: "val = None" using app by simp
    have "case abs_package p sec of None \<Rightarrow> False | Some (ty, os) \<Rightarrow> (case opt of None \<Rightarrow> True | Some x \<Rightarrow> os x \<noteq> None)"
      using app UCI_CMD_REMOVE by (cases opt) (auto split: option.splits)
    with uci_delete_step [OF wf ptr [unfolded v], of True] UCI_CMD_REMOVE v show ?thesis
      by (auto simp: h uci_apply_delta_def simp del: spec_delta.simps)
  next
    case UCI_CMD_RENAME
    then obtain i v where i: "lookup_section p sec = Some i" "val = Some v"
      and o: "case opt of None \<Rightarrow> abs_package p v = None
        | Some x \<Rightarrow> \<exists>ty os. abs_package p sec = Some (ty, os) \<and> os x \<noteq> None \<and> os v = None"
      using sec app by (cases opt; cases val) (auto split: option.splits)
    from uci_rename_step [OF wf ptr [unfolded i(2)] i(1) o, of True] UCI_CMD_RENAME i(2) show ?thesis
      by (auto simp: h uci_apply_delta_def simp del: spec_delta.simps)
  next
    case UCI_CMD_REORDER
    then obtain v where v: "opt = None" "val = Some v" "abs_package p sec \<noteq> None" using app by auto
    from uci_apply_reorder [OF wf ptr [unfolded v(1,2)] v(3)] v UCI_CMD_REORDER show ?thesis by (simp add: h)
  next
    case UCI_CMD_LIST_ADD
    then obtain i x v where i: "lookup_section p sec = Some i" "opt = Some x" "val = Some v" using sec app by auto
    from uci_add_list_step [OF wf ptr [unfolded i(2,3)] i(1), of True] UCI_CMD_LIST_ADD i show ?thesis
      by (auto simp: h uci_apply_delta_def simp del: spec_delta.simps)
  next
    case UCI_CMD_LIST_DEL
    then obtain i x v where i: "lookup_section p sec = Some i" "opt = Some x" "val = Some v" using sec app by auto
    from uci_del_list_step [OF wf ptr [unfolded i(2,3)] i(1), of True] UCI_CMD_LIST_DEL i show ?thesis
      by (auto simp: h uci_apply_delta_def simp del: spec_delta.simps)
  qed
qed

lemma note_saved_abs [simp]: "abs_package (note_saved flag h p) = abs_package p" "wf_package (note_saved flag h p) = wf_package p"
  by (simp_all add: note_saved_def abs_package_def wf_package_def)

lemma replay_refines:
  assumes "wf_package p" "applicable_all hs (abs_package p)"
  shows "\<exists>p'. replay flag name hs (n, p) = Some (n + length hs, p') \<and> wf_package p' \<and>
    abs_package p' = fold spec_delta hs (abs_package p)"
  using assms
proof (induction hs arbitrary: n p)
  case (Cons h hs)
  obtain p1 where p1: "uci_apply_delta (d_cmd h) (delta_ptr name h) (note_saved flag h p) = Some (Inr p1)" "wf_package p1"
    "abs_package p1 = spec_delta h (abs_package p)"
    using uci_apply_delta_step [of "note_saved flag h p" h name] Cons.prems by auto
  with Cons.IH [of p1 "n + 1"] Cons.prems show ?case by simp
qed simp

lemma parser_init_ready: "NUL \<notin> set s \<Longrightarrow> line_end s \<Longrightarrow> ready (parser_init junk True [] s)"
  by (simp add: ready_def parser_init_def)

lemma uci_parse_delta_saved:
  assumes "package_word (p_name p)" "list_all valid_delta hs" "uci_delta_save_all (p_name p) hs = Some s"
  shows "uci_parse_delta junk flag s p = replay flag (p_name p) hs (0, p)"
proof -
  have s: "NUL \<notin> set s" "line_end s" using uci_delta_save_all_text [OF assms(1,2)] assms(3) by (metis option.inject)+
  have "pp_file (parser_init junk True [] s) = s" by (simp add: parser_init_def)
  then show ?thesis
    using uci_parse_delta_loop_replay [OF assms(1,2) _ parser_init_ready [OF s] refl] assms(3) by (simp add: uci_parse_delta_def)
qed

text \<open>C14: the lines that \<open>uci_delta_save\<close> writes for a list of changes are read back by
  \<open>uci_parse_delta\<close>, which ends and performs exactly these changes in their order, each in internal
  mode; when every change is applicable, all of them are counted and the configuration afterwards
  is the one that the changes mean.\<close>

theorem uci_delta_save_replay:
  assumes "package_word (p_name p)" "list_all valid_delta hs"
  shows "\<exists>text. uci_delta_save_all (p_name p) hs = Some text \<and>
    uci_parse_delta junk flag text p = replay flag (p_name p) hs (0, p) \<and>
    (wf_package p \<and> applicable_all hs (abs_package p) \<longrightarrow>
      (\<exists>p'. uci_parse_delta junk flag text p = Some (length hs, p') \<and> wf_package p' \<and>
        abs_package p' = fold spec_delta hs (abs_package p)))"
proof -
  obtain s where s: "uci_delta_save_all (p_name p) hs = Some s" "NUL \<notin> set s" "line_end s"
    by (rule uci_delta_save_all_text [OF assms])
  have "uci_parse_delta junk flag s p = replay flag (p_name p) hs (0, p)" by (rule uci_parse_delta_saved [OF assms s(1)])
  with s(1) replay_refines [of p hs flag "p_name p" 0] show ?thesis by auto
qed

definition demo_changes :: "uci_delta list" where
  "demo_changes = [
     \<lparr>d_cmd = UCI_CMD_CHANGE, d_section = ''lan'', d_option = Some ''ip'', d_value = Some [CHR ''a'', QUOTE, NL]\<rparr>,
     \<lparr>d_cmd = UCI_CMD_LIST_ADD, d_section = ''lan'', d_option = Some ''ip'', d_value = Some ''b''\<rparr>,
     \<lparr>d_cmd = UCI_CMD_ADD, d_section = ''cfg1'', d_option = None, d_value = Some ''if''\<rparr>,
     \<lparr>d_cmd = UCI_CMD_REORDER, d_section = ''cfg1'', d_option = None, d_value = Some ''0''\<rparr>,
     \<lparr>d_cmd = UCI_CMD_REMOVE, d_section = ''lan'', d_option = Some ''dns'', d_value = None\<rparr>]"

theorem uci_delta_save_replay_witness:
  "\<exists>text p'. uci_delta_save_all ''net'' demo_changes = Some text \<and>
     uci_parse_delta (CHR ''?'') True text demo_package = Some (5, p') \<and>
     abs_package p' = fold spec_delta demo_changes (abs_package demo_package)"
proof -
  have p: "p_name demo_package = ''net''" by (simp add: demo_package_def uci_alloc_package_def)
  have v: "package_word ''net''" "list_all valid_delta demo_changes" by code_simp+
  have "uci_validate_type ''if''" by code_simp
  then have "applicable_all demo_changes (abs_package demo_package)"
    by (simp add: demo_abs demo_changes_def applicable_def spec_options_def)
  with uci_delta_save_replay [of demo_package demo_changes "CHR ''?''" True, unfolded p, OF v] demo_wf show ?thesis
    by (auto simp: demo_changes_def numeral_eq_Suc)
qed

lemma uci_delta_save_all_append:
  "uci_delta_save_all name as = Some s \<Longrightarrow> uci_delta_save_all name bs = Some t \<Longrightarrow> uci_delta_save_all name (as @ bs) = Some (s @ t)"
  by (induction as arbitrary: s) (auto simp: bind_eq_Some_conv)

section \<open>Reverting\<close>

definition reverts :: "string option \<Rightarrow> string option \<Rightarrow> uci_delta \<Rightarrow> bool" where
  "reverts section opt h \<longleftrightarrow> filter_match section (Some (d_section h)) \<and> filter_match opt (d_option h)"

lemma uci_filter_delta_loop_spec:
  assumes "package_word name" "list_all valid_delta hs" "uci_delta_save_all name hs = Some (pp_file st)" "ready st"
  shows "uci_filter_delta_loop sec opt acc st = Some (Inr (acc @ filter (\<lambda>h. \<not> reverts sec opt h) hs))"
  using assms(2-4)
proof (induction hs arbitrary: acc st)
  case Nil
  then obtain st' where st': "uci_getln 0 (st\<lparr>pp_pos := 0\<rparr>) = Some st'" "pctx_char st' 0 = Some NUL" "pp_eof st'" "\<not> pp_eof st"
    using ready_end [of st] by auto
  have "uci_filter_delta_loop sec opt acc st' = Some (Inr acc)" using st'(3) by (subst uci_filter_delta_loop.simps) simp
  with st' show ?case by (subst uci_filter_delta_loop.simps) simp
next
  case (Cons h hs)
  from Cons.prems(2) obtain line r where l: "uci_delta_save name h = Some line" "uci_delta_save_all name hs = Some r"
    "pp_file st = line @ r" by (auto simp: bind_eq_Some_conv)
  have h: "valid_delta h" "list_all valid_delta hs" using Cons.prems(1) by simp_all
  obtain st1 st2 d where st1: "uci_getln 0 (st\<lparr>pp_pos := 0\<rparr>) = Some st1" "pctx_char st1 0 = Some d" "d \<noteq> NUL"
    "uci_parse_delta_tuple st1 = Some (Inr (d_cmd h, delta_ptr name h), st2)" "ready st2" "pp_file st2 = r"
    by (rule delta_getln [OF Cons.prems(3) l(3,1) assms(1) h(1)])
  have ptr: "ptr_section (delta_ptr name h) = Some (d_section h)" "ptr_option (delta_ptr name h) = d_option h"
    "ptr_value (delta_ptr name h) = d_value h" by (simp_all add: delta_ptr_def)
  have add: "uci_add_delta acc (d_cmd h) (d_section h) (d_option h) (d_value h) = acc @ [h]" by (simp add: uci_add_delta_def)
  have eof: "\<not> pp_eof st" using Cons.prems(3) by (simp add: ready_def)
  have "uci_filter_delta_loop sec opt acc st = uci_filter_delta_loop sec opt (if reverts sec opt h then acc else acc @ [h]) st2"
    using st1(1-4) eof ptr add by (subst uci_filter_delta_loop.simps) (simp add: reverts_def Let_def)
  with Cons.IH [OF h(2) _ st1(5)] l(2) st1(6) show ?case by simp
qed

text \<open>C15: \<open>uci_filter_delta\<close> on a delta file written by \<open>uci_delta_save\<close> rewrites it to the lines of
  exactly the changes that do not match the reverted section and option, in their order.\<close>

theorem uci_filter_delta_correct:
  assumes "package_word name" "list_all valid_delta hs"
  shows "\<exists>text. uci_delta_save_all name hs = Some text \<and>
    uci_filter_delta junk name sec opt text = uci_delta_save_all name (filter (\<lambda>h. \<not> reverts sec opt h) hs) \<and>
    uci_delta_save_all name (filter (\<lambda>h. \<not> reverts sec opt h) hs) \<noteq> None"
proof -
  obtain s where s: "uci_delta_save_all name hs = Some s" "NUL \<notin> set s" "line_end s"
    by (rule uci_delta_save_all_text [OF assms])
  have "pp_file (parser_init junk True [] s) = s" by (simp add: parser_init_def)
  then have "uci_filter_delta junk name sec opt s = uci_delta_save_all name (filter (\<lambda>h. \<not> reverts sec opt h) hs)"
    using uci_filter_delta_loop_spec [OF assms _ parser_init_ready [OF s(2,3)], of junk sec opt "[]"] s(1)
    by (simp add: uci_filter_delta_def)
  moreover have "list_all valid_delta (filter (\<lambda>h. \<not> reverts sec opt h) hs)" using assms(2) by (simp add: list_all_iff)
  then have "uci_delta_save_all name (filter (\<lambda>h. \<not> reverts sec opt h) hs) \<noteq> None"
    using uci_delta_save_all_text [OF assms(1)] by (metis option.distinct(1))
  ultimately show ?thesis using s(1) by blast
qed

theorem uci_filter_delta_correct_witness:
  "\<exists>text. uci_delta_save_all ''net'' demo_changes = Some text \<and>
     uci_filter_delta (CHR ''?'') ''net'' (Some ''lan'') (Some ''ip'') text = uci_delta_save_all ''net'' (drop 2 demo_changes)"
proof -
  have "package_word ''net''" "list_all valid_delta demo_changes" by code_simp+
  moreover have "filter (\<lambda>h. \<not> reverts (Some ''lan'') (Some ''ip'') h) demo_changes = drop 2 demo_changes"
    by (simp add: demo_changes_def reverts_def filter_match_def)
  ultimately show ?thesis
    using uci_filter_delta_correct [of "''net''" demo_changes "CHR ''?''" "Some ''lan''" "Some ''ip''"] by metis
qed

text \<open>A delta line that adds a section with an empty type makes \<open>uci_parse_delta_line\<close> treat the
  package as a section: \<open>uci_set\<close> returns without creating one and the pointer to the last element
  found is the package.\<close>

theorem uci_parse_delta_add_empty:
  "uci_parse_delta (CHR ''?'') True (''+net.new='' @ [QUOTE, QUOTE, NL]) demo_package = None"
  by code_simp

end
