(* ===== verification/Uci_Context.thy ===== *)
theory Uci_Context
  imports Uci_Delta
begin

text \<open>
  The context of libuci and what it does with files: \<open>libuci.c\<close>, the file backend of \<open>file.c\<close>, and
  saving, loading and reverting deltas in \<open>delta.c\<close>.  Files are a map from path names to contents.
  Locks, modes and directories are left out: opening an existing file succeeds, a file that is
  opened for creation exists afterwards, and a new version of a configuration file replaces the
  old one in one step.  A result carries the files after an exception too.
\<close>

section \<open>The context\<close>

record uci_context =
  c_confdir :: string
  c_savedir :: string
  c_delta_path :: "string list"
  c_strict :: bool
  c_saved_delta :: bool
  c_export_name :: bool

type_synonym files = "string \<Rightarrow> string option"

type_synonym 'a fresult = "((uci_err + 'a) \<times> files) option"

definition UCI_CONFDIR :: string where "UCI_CONFDIR = ''/mnt/vram/config''"
definition UCI_SAVEDIR :: string where "UCI_SAVEDIR = ''/tmp/.uci''"

text \<open>The new element goes before the last one, which is the save directory.\<close>

definition uci_add_delta_path :: "uci_context \<Rightarrow> string option \<Rightarrow> (uci_err + unit) \<times> uci_context" where
  "uci_add_delta_path ctx dir = (case dir of None \<Rightarrow> (Inl UCI_ERR_INVAL, ctx)
     | Some d \<Rightarrow>
         if d \<in> set (c_delta_path ctx) then (Inl UCI_ERR_DUPLICATE, ctx)
         else let n = length (c_delta_path ctx) - 1
         in (Inr (), ctx\<lparr>c_delta_path := take n (c_delta_path ctx) @ [d] @ drop n (c_delta_path ctx)\<rparr>))"

definition uci_set_savedir :: "uci_context \<Rightarrow> string option \<Rightarrow> (uci_err + unit) \<times> uci_context" where
  "uci_set_savedir ctx dir = (case dir of None \<Rightarrow> (Inl UCI_ERR_INVAL, ctx)
     | Some d \<Rightarrow> (Inr (), ctx\<lparr>c_delta_path := remove1 d (c_delta_path ctx) @ [d], c_savedir := d\<rparr>))"

definition uci_set_confdir :: "uci_context \<Rightarrow> string option \<Rightarrow> (uci_err + unit) \<times> uci_context" where
  "uci_set_confdir ctx dir = (case dir of None \<Rightarrow> (Inl UCI_ERR_INVAL, ctx)
     | Some d \<Rightarrow> (Inr (), ctx\<lparr>c_confdir := d\<rparr>))"

definition uci_alloc_context :: uci_context where
  "uci_alloc_context = snd (uci_add_delta_path
     \<lparr>c_confdir = UCI_CONFDIR, c_savedir = UCI_SAVEDIR, c_delta_path = [], c_strict = True,
      c_saved_delta = True, c_export_name = False\<rparr> (Some UCI_SAVEDIR))"

section \<open>Delta files\<close>

definition in_dir :: "string \<Rightarrow> string \<Rightarrow> string" where
  "in_dir dir name = dir @ ''/'' @ name"

definition uci_load_delta_file :: "char \<Rightarrow> uci_context \<Rightarrow> files \<Rightarrow> string \<Rightarrow> uci_package \<Rightarrow> (nat \<times> uci_package) option" where
  "uci_load_delta_file junk ctx fs filename p = (case fs filename of None \<Rightarrow> Some (0, p)
     | Some stream \<Rightarrow> uci_parse_delta junk (c_saved_delta ctx) stream p)"

fun uci_load_delta_paths :: "char \<Rightarrow> uci_context \<Rightarrow> files \<Rightarrow> string list \<Rightarrow> nat \<times> uci_package \<Rightarrow> (nat \<times> uci_package) option" where
  "uci_load_delta_paths junk ctx fs [] s = Some s"
| "uci_load_delta_paths junk ctx fs (e # es) (changes, p) = do {
     (n, p) \<leftarrow> uci_load_delta_file junk ctx fs (in_dir e (p_name p)) p;
     uci_load_delta_paths junk ctx fs es (changes + n, p)
   }"

definition uci_load_delta :: "char \<Rightarrow> uci_context \<Rightarrow> files \<Rightarrow> uci_package \<Rightarrow> bool \<Rightarrow> (nat \<times> uci_package \<times> files) option" where
  "uci_load_delta junk ctx fs p flush =
     (if \<not> p_has_delta p then Some (0, p, fs)
      else do {
        (changes, p) \<leftarrow> uci_load_delta_paths junk ctx fs (c_delta_path ctx) (0, p);
        let filename = in_dir (c_savedir ctx) (p_name p);
        let fs = (if fs filename \<noteq> None \<and> flush \<and> changes > 0 then fs(filename \<mapsto> []) else fs);
        Some (changes, p, fs)
      })"

text \<open>\<open>uci_save\<close> for a package with delta tracking.\<close>

definition uci_save_delta :: "uci_context \<Rightarrow> files \<Rightarrow> uci_package \<Rightarrow> uci_package fresult" where
  "uci_save_delta ctx fs p =
     (if p_delta p = [] then Some (Inr p, fs)
      else if fs (c_savedir ctx) \<noteq> None then Some (Inl UCI_ERR_IO, fs)
      else do {
        let filename = in_dir (c_savedir ctx) (p_name p);
        lines \<leftarrow> uci_delta_save_all (p_name p) (p_delta p);
        let old = (case fs filename of None \<Rightarrow> [] | Some s \<Rightarrow> s);
        Some (Inr (p\<lparr>p_delta := []\<rparr>), fs(filename \<mapsto> old @ lines))
      })"

section \<open>The file backend\<close>

definition uci_config_path :: "uci_context \<Rightarrow> string \<Rightarrow> uci_err + string" where
  "uci_config_path ctx name =
     (if uci_validate_package name then Inr (in_dir (c_confdir ctx) name) else Inl UCI_ERR_INVAL)"

text \<open>The part of \<open>uci_file_commit\<close> that brings a tracked package up to date: its own changes go to
  the delta file, the configuration file is read again, and the delta is replayed and emptied.
  The flag says whether there is anything to write.\<close>

definition uci_commit_reload ::
  "char \<Rightarrow> uci_context \<Rightarrow> files \<Rightarrow> uci_package list \<Rightarrow> uci_package \<Rightarrow> string \<Rightarrow> bool \<Rightarrow> (bool \<times> uci_package) fresult" where
  "uci_commit_reload junk ctx fs root p path overwrite = do {
     (r, fs) \<leftarrow> (if overwrite then Some (Inr p, fs)
       else do {
         (r, fs) \<leftarrow> uci_save_delta ctx fs p;
         (case r of Inl e \<Rightarrow> Some (Inl e, fs)
          | Inr _ \<Rightarrow> do {
              stream \<leftarrow> fs path;
              i \<leftarrow> uci_import junk (c_strict ctx) root stream (Some (p_name p)) None True;
              (case i of Inl e \<Rightarrow> Some (Inl e, fs)
               | Inr (q, _) \<Rightarrow> do {
                   q \<leftarrow> q;
                   Some (Inr (q\<lparr>p_path := Some path, p_has_delta := True\<rparr>), fs)
                 })
            })
       });
     (case r of Inl e \<Rightarrow> Some (Inl e, fs)
      | Inr p \<Rightarrow> do {
          (changes, p, fs) \<leftarrow> uci_load_delta junk ctx fs p True;
          Some (Inr (changes > 0, p), fs)
        })
   }"

definition uci_file_commit ::
  "char \<Rightarrow> uci_context \<Rightarrow> string option \<Rightarrow> files \<Rightarrow> uci_package list \<Rightarrow> uci_package \<Rightarrow> bool \<Rightarrow> uci_package fresult" where
  "uci_file_commit junk ctx cb fs root p overwrite =
     (case (case p_path p of Some path \<Rightarrow> Inr path
            | None \<Rightarrow> if overwrite then uci_config_path ctx (p_name p) else Inl UCI_ERR_INVAL) of
        Inl e \<Rightarrow> Some (Inl e, fs)
      | Inr path \<Rightarrow> do {
          let p = p\<lparr>p_path := Some path\<rparr>;
          let fs = (if fs path = None then fs(path \<mapsto> []) else fs);
          (r, fs) \<leftarrow> (if p_has_delta p then uci_commit_reload junk ctx fs root p path overwrite
                       else Some (Inr (True, p), fs));
          (case r of Inl e \<Rightarrow> Some (Inl e, fs)
           | Inr (write, p) \<Rightarrow>
               if \<not> write then Some (Inr p, fs)
               else do {
                 (s, _) \<leftarrow> uci_export_package junk (c_export_name ctx) cb p False;
                 Some (Inr p, fs(path \<mapsto> s))
               })
        })"

definition uci_save ::
  "char \<Rightarrow> uci_context \<Rightarrow> string option \<Rightarrow> files \<Rightarrow> uci_package list \<Rightarrow> uci_package \<Rightarrow> uci_package fresult" where
  "uci_save junk ctx cb fs root p =
     (if \<not> p_has_delta p then uci_file_commit junk ctx cb fs root p False else uci_save_delta ctx fs p)"

text \<open>\<open>strrchr (name, '/') + 1\<close>.\<close>

definition basename :: "string \<Rightarrow> string" where
  "basename name = rev (takeWhile (\<lambda>c. c \<noteq> CHR ''/'') (rev name))"

text \<open>The switch on the first character: the file, the package name, and whether the file is in the
  configuration directory.\<close>

definition uci_load_path :: "uci_context \<Rightarrow> string \<Rightarrow> uci_err + string \<times> string \<times> bool" where
  "uci_load_path ctx name =
     (let c = (\<lambda>i. if i < length name then name ! i else NUL)
      in if c 0 = CHR ''.'' \<and> c 1 \<noteq> CHR ''/'' then Inl UCI_ERR_NOTFOUND
         else if c 0 = CHR ''.'' \<or> c 0 = CHR ''/'' then Inr (name, basename name, False)
         else case uci_config_path ctx name of Inl e \<Rightarrow> Inl e | Inr filename \<Rightarrow> Inr (filename, name, True))"

definition uci_file_load ::
  "char \<Rightarrow> uci_context \<Rightarrow> files \<Rightarrow> uci_package list \<Rightarrow> string \<Rightarrow> uci_package option fresult" where
  "uci_file_load junk ctx fs root name =
     (case uci_load_path ctx name of
        Inl e \<Rightarrow> Some (Inl e, fs)
      | Inr (filename, name, confdir) \<Rightarrow>
          (case fs filename of None \<Rightarrow> Some (Inl UCI_ERR_NOTFOUND, fs)
           | Some stream \<Rightarrow> do {
               r \<leftarrow> uci_import junk (c_strict ctx) root stream (Some name) None True;
               (case r of Inl e \<Rightarrow> Some (Inl e, fs)
                | Inr (package, _) \<Rightarrow>
                    (case package of None \<Rightarrow> Some (Inr None, fs)
                     | Some p \<Rightarrow> do {
                         (_, p, fs) \<leftarrow> uci_load_delta junk ctx fs (p\<lparr>p_path := Some filename, p_has_delta := confdir\<rparr>) False;
                         Some (Inr (Some p), fs)
                       }))
             }))"

text \<open>\<open>uci_revert\<close> after its pointer has been expanded: the unwritten changes are saved, the package
  is unloaded, the delta file of the save directory filtered, and the package loaded again.\<close>

definition uci_revert ::
  "char \<Rightarrow> uci_context \<Rightarrow> files \<Rightarrow> uci_package list \<Rightarrow> uci_package \<Rightarrow> string option \<Rightarrow> string option \<Rightarrow>
     uci_package option fresult" where
  "uci_revert junk ctx fs root p section opt =
     (if \<not> p_has_delta p then Some (Inl UCI_ERR_INVAL, fs)
      else do {
        (r, fs) \<leftarrow> uci_save_delta ctx fs p;
        (case r of Inl e \<Rightarrow> Some (Inl e, fs)
         | Inr _ \<Rightarrow> do {
             let filename = in_dir (c_savedir ctx) (p_name p);
             fs \<leftarrow> (case fs filename of None \<Rightarrow> Some fs
                 | Some stream \<Rightarrow> do {
                     s \<leftarrow> uci_filter_delta junk (p_name p) section opt stream;
                     Some (fs(filename \<mapsto> s))
                   });
             uci_file_load junk ctx fs root (p_name p)
           })
      })"

section \<open>The delta search path\<close>

inductive ctx_reach :: "uci_context \<Rightarrow> bool" where
  alloc: "ctx_reach uci_alloc_context"
| savedir: "ctx_reach ctx \<Longrightarrow> ctx_reach (snd (uci_set_savedir ctx dir))"
| delta_path: "ctx_reach ctx \<Longrightarrow> ctx_reach (snd (uci_add_delta_path ctx dir))"
| confdir: "ctx_reach ctx \<Longrightarrow> ctx_reach (snd (uci_set_confdir ctx dir))"

definition path_inv :: "uci_context \<Rightarrow> bool" where
  "path_inv ctx \<longleftrightarrow> c_delta_path ctx \<noteq> [] \<and> distinct (c_delta_path ctx) \<and> last (c_delta_path ctx) = c_savedir ctx"

lemma insert_before_last:
  assumes "xs \<noteq> []"
  shows "take (length xs - 1) xs @ [d] @ drop (length xs - 1) xs = butlast xs @ [d, last xs]"
  using assms by (cases xs rule: rev_cases) auto

lemma add_delta_path_inv:
  assumes "path_inv ctx"
  shows "path_inv (snd (uci_add_delta_path ctx dir))"
proof (cases "case dir of None \<Rightarrow> True | Some d \<Rightarrow> d \<in> set (c_delta_path ctx)")
  case True
  with assms show ?thesis by (auto simp: uci_add_delta_path_def split: option.splits)
next
  case False
  then obtain d where d: "dir = Some d" "d \<notin> set (c_delta_path ctx)" by (auto split: option.splits)
  obtain ys y where ys: "c_delta_path ctx = ys @ [y]" using assms by (metis path_inv_def rev_exhaust)
  with assms d show ?thesis by (auto simp: uci_add_delta_path_def path_inv_def)
qed

text \<open>C16: in every context that the library can build, the delta search path has no duplicates
  and ends with the save directory, so that the changes of this process are replayed last;
  setting the save directory and adding a search path keep this, and a refused directory changes
  nothing.\<close>

theorem delta_path_invariant:
  assumes "ctx_reach ctx"
  shows "c_delta_path ctx \<noteq> [] \<and> distinct (c_delta_path ctx) \<and> last (c_delta_path ctx) = c_savedir ctx"
proof -
  have "path_inv ctx"
    using assms
  proof induction
    case alloc
    then show ?case by (simp add: path_inv_def uci_alloc_context_def uci_add_delta_path_def)
  next
    case (savedir ctx dir)
    then show ?case by (cases dir) (auto simp: path_inv_def uci_set_savedir_def)
  next
    case (delta_path ctx dir)
    then show ?case using add_delta_path_inv by blast
  next
    case (confdir ctx dir)
    then show ?case by (cases dir) (auto simp: path_inv_def uci_set_confdir_def)
  qed
  then show ?thesis by (simp add: path_inv_def)
qed

theorem delta_path_invariant_witness:
  "c_delta_path (snd (uci_add_delta_path (snd (uci_set_savedir uci_alloc_context (Some ''/a''))) (Some ''/b''))) =
     [''/tmp/.uci'', ''/b'', ''/a''] \<and>
   last (c_delta_path (snd (uci_add_delta_path (snd (uci_set_savedir uci_alloc_context (Some ''/a''))) (Some ''/b'')))) = ''/a''"
  using delta_path_invariant [OF ctx_reach.delta_path [OF ctx_reach.savedir [OF ctx_reach.alloc, of "Some ''/a''"], of "Some ''/b''"]]
  by (simp add: uci_add_delta_path_def uci_set_savedir_def uci_alloc_context_def UCI_SAVEDIR_def)

section \<open>Committing and loading\<close>

text \<open>What the delta file of a package holds: the lines of the changes \<open>hs\<close>.\<close>

definition delta_file :: "files \<Rightarrow> string \<Rightarrow> string \<Rightarrow> uci_delta list \<Rightarrow> bool" where
  "delta_file fs filename name hs \<longleftrightarrow>
     uci_delta_save_all name hs = Some (case fs filename of None \<Rightarrow> [] | Some s \<Rightarrow> s)"

lemma delta_file_missing:
  assumes "delta_file fs filename name hs" "fs filename = None"
  shows "hs = []"
proof (cases hs)
  case (Cons h hs')
  with assms have "uci_delta_save name h = Some []" by (auto simp: delta_file_def bind_eq_Some_conv)
  then show ?thesis by (auto simp: uci_delta_save_def Let_def split: if_splits option.splits)
qed simp

lemma uci_save_delta_spec:
  assumes "package_word (p_name p)" "list_all valid_delta (p_delta p)" "fs (c_savedir ctx) = None"
    "delta_file fs (in_dir (c_savedir ctx) (p_name p)) (p_name p) hs"
  obtains fs' where "uci_save_delta ctx fs p = Some (Inr (p\<lparr>p_delta := []\<rparr>), fs')"
    "delta_file fs' (in_dir (c_savedir ctx) (p_name p)) (p_name p) (hs @ p_delta p)"
    "\<forall>f. f \<noteq> in_dir (c_savedir ctx) (p_name p) \<longrightarrow> fs' f = fs f"
proof (cases "p_delta p = []")
  case True
  then have "p\<lparr>p_delta := []\<rparr> = p" by simp
  with True assms that [of fs] show thesis by (simp add: uci_save_delta_def)
next
  case False
  let ?d = "in_dir (c_savedir ctx) (p_name p)"
  obtain s where s: "uci_delta_save_all (p_name p) (p_delta p) = Some s"
    using uci_delta_save_all_text [OF assms(1,2)] by blast
  let ?fs = "fs(?d \<mapsto> (case fs ?d of None \<Rightarrow> [] | Some s \<Rightarrow> s) @ s)"
  have "uci_save_delta ctx fs p = Some (Inr (p\<lparr>p_delta := []\<rparr>), ?fs)"
    using False assms(3) s by (simp add: uci_save_delta_def Let_def)
  moreover have "delta_file ?fs ?d (p_name p) (hs @ p_delta p)"
    using uci_delta_save_all_append [OF _ s] assms(4) by (simp add: delta_file_def)
  ultimately show thesis using that [of ?fs] by simp
qed

lemma uci_load_delta_file_spec:
  assumes "package_word (p_name p)" "list_all valid_delta hs" "delta_file fs filename (p_name p) hs"
  shows "uci_load_delta_file junk ctx fs filename p = replay (c_saved_delta ctx) (p_name p) hs (0, p)"
proof (cases "fs filename")
  case None
  then have "hs = []" by (rule delta_file_missing [OF assms(3)])
  with None show ?thesis by (simp add: uci_load_delta_file_def)
next
  case (Some s)
  with uci_parse_delta_saved [OF assms(1,2)] assms(3) show ?thesis by (simp add: uci_load_delta_file_def delta_file_def)
qed

lemma replay_name: "replay flag name hs (n, p) = Some (m, q) \<Longrightarrow> p_name q = p_name p \<and> p_has_delta q = p_has_delta p"
proof (induction hs arbitrary: n p)
  case (Cons h hs)
  have "p_name (note_saved flag h p) = p_name p" "p_has_delta (note_saved flag h p) = p_has_delta p" by (simp_all add: note_saved_def)
  with Cons show ?case by (auto dest!: uci_apply_delta_name split: option.splits sum.splits)
qed simp

lemma uci_load_delta_single:
  assumes "c_delta_path ctx = [c_savedir ctx]" "p_has_delta p" "package_word (p_name p)" "list_all valid_delta hs"
    "delta_file fs (in_dir (c_savedir ctx) (p_name p)) (p_name p) hs"
    "replay (c_saved_delta ctx) (p_name p) hs (0, p) = Some (n, q)"
  shows "uci_load_delta junk ctx fs p flush = Some (n, q,
    if fs (in_dir (c_savedir ctx) (p_name p)) \<noteq> None \<and> flush \<and> n > 0 then fs(in_dir (c_savedir ctx) (p_name p) \<mapsto> []) else fs)"
proof -
  have "uci_load_delta_paths junk ctx fs (c_delta_path ctx) (0, p) = Some (n, q)"
    using uci_load_delta_file_spec [OF assms(3-5)] assms(1,6) by simp
  with assms(2) replay_name [OF assms(6)] show ?thesis by (auto simp: uci_load_delta_def Let_def)
qed

lemma reimported_name [simp]: "p_name (reimported name p) = name"
  by (simp add: reimported_def with_sections_def uci_alloc_package_def)

definition loaded :: "uci_context \<Rightarrow> string \<Rightarrow> uci_package \<Rightarrow> uci_package" where
  "loaded ctx name p = (reimported name p)\<lparr>p_path := Some (in_dir (c_confdir ctx) name), p_has_delta := True\<rparr>"

lemma uci_load_path_word:
  assumes "package_word name"
  shows "uci_load_path ctx name = Inr (in_dir (c_confdir ctx) name, name, True)"
proof -
  obtain c r where c: "name = c # r" "isalnum c \<or> c = CHR ''_''"
    using assms by (cases name) (auto simp: package_word_def)
  have "c \<noteq> CHR ''.''" "c \<noteq> CHR ''/''" using c(2) by (auto simp: isalnum_def isdigit_def cv_def)
  then show ?thesis using package_word_facts(3) [OF assms] by (simp add: uci_load_path_def c(1) uci_config_path_def)
qed

lemma uci_file_load_saved:
  assumes "package_word name" "c_delta_path ctx = [c_savedir ctx]" "name \<notin> p_name ` set root"
    "exportable p" "cb \<noteq> Some []" "uci_export_package junk' False cb p False = Some (s, cb')"
    "fs (in_dir (c_confdir ctx) name) = Some s" "list_all valid_delta hs"
    "delta_file fs (in_dir (c_savedir ctx) name) name hs"
    "replay (c_saved_delta ctx) name hs (0, loaded ctx name p) = Some (n, q)"
  shows "uci_file_load junk ctx fs root name = Some (Inr (Some q), fs)"
proof -
  note v = package_word_facts(3) [OF assms(1)]
  have imp: "uci_import junk (c_strict ctx) root s (Some name) None True =
      Some (Inr (Some (reimported name p), root @ [reimported name p]))"
    using uci_export_import_spec [OF assms(4,5) v assms(3), of junk' junk "c_strict ctx" True] assms(6) by auto
  have nm: "p_name (loaded ctx name p) = name" "p_has_delta (loaded ctx name p)" by (simp_all add: loaded_def)
  have "uci_load_delta junk ctx fs (loaded ctx name p) False = Some (n, q, fs)"
    using uci_load_delta_single [OF assms(2) nm(2), of hs fs n q junk False] assms(1,8-10) nm(1) by simp
  with imp assms(7) show ?thesis
    by (simp add: uci_file_load_def uci_load_path_word [OF assms(1)] loaded_def)
qed

text \<open>C17: committing a package with delta tracking saves its own changes behind those already in
  the delta file, replays all of them on the configuration file as it is on disk, writes the
  result and empties the delta file; loading the package afterwards gives the committed
  configuration.\<close>

theorem uci_commit_load:
  assumes "package_word (p_name p)" "p_has_delta p" "p_path p = Some (in_dir (c_confdir ctx) (p_name p))"
    and ctx: "c_delta_path ctx = [c_savedir ctx]" "\<not> c_export_name ctx" "fs (c_savedir ctx) = None"
      "c_confdir ctx \<noteq> c_savedir ctx"
    and base: "exportable b" "cb \<noteq> Some []" "uci_export_package junk' False cb b False = Some (s, cb')"
      "fs (in_dir (c_confdir ctx) (p_name p)) = Some s"
    and deltas: "list_all valid_delta hs" "list_all valid_delta (p_delta p)"
      "delta_file fs (in_dir (c_savedir ctx) (p_name p)) (p_name p) hs"
    and result: "replay (c_saved_delta ctx) (p_name p) (hs @ p_delta p) (0, loaded ctx (p_name p) b) = Some (n, q)"
      "n > 0" "exportable q"
    and root: "p_name p \<notin> p_name ` set root"
  shows "\<exists>t fs'. uci_file_commit junk ctx cb fs root p False = Some (Inr q, fs') \<and>
    fs' (in_dir (c_confdir ctx) (p_name p)) = Some t \<and> fs' (in_dir (c_savedir ctx) (p_name p)) = Some [] \<and>
    uci_file_load junk ctx fs' root (p_name p) = Some (Inr (Some (loaded ctx (p_name p) q)), fs')"
proof -
  let ?n = "p_name p" and ?c = "in_dir (c_confdir ctx) (p_name p)" and ?d = "in_dir (c_savedir ctx) (p_name p)"
  have ne: "?c \<noteq> ?d" using ctx(4) by (simp add: in_dir_def)
  note v = package_word_facts(3) [OF assms(1)]
  obtain fs1 where fs1: "uci_save_delta ctx fs p = Some (Inr (p\<lparr>p_delta := []\<rparr>), fs1)"
    "delta_file fs1 ?d ?n (hs @ p_delta p)" "\<forall>f. f \<noteq> ?d \<longrightarrow> fs1 f = fs f"
    by (rule uci_save_delta_spec [OF assms(1) deltas(2) ctx(3) deltas(3)])
  have imp: "uci_import junk (c_strict ctx) root s (Some ?n) None True =
      Some (Inr (Some (reimported ?n b), root @ [reimported ?n b]))"
    using uci_export_import_spec [OF base(1,2) v root, of junk' junk "c_strict ctx" True] base(3) by auto
  have all: "list_all valid_delta (hs @ p_delta p)" using deltas by simp
  have nm: "p_name (loaded ctx ?n b) = ?n" "p_has_delta (loaded ctx ?n b)" by (simp_all add: loaded_def)
  have fd: "fs1 ?d \<noteq> None"
  proof
    assume "fs1 ?d = None"
    moreover have "uci_load_delta_file junk ctx fs1 ?d (loaded ctx ?n b) = Some (n, q)"
      using uci_load_delta_file_spec [of "loaded ctx ?n b" "hs @ p_delta p" fs1 ?d junk ctx] assms(1) all fs1(2) nm(1) result(1) by simp
    ultimately show False using result(2) by (simp add: uci_load_delta_file_def)
  qed
  have load: "uci_load_delta junk ctx fs1 (loaded ctx ?n b) True = Some (n, q, fs1(?d \<mapsto> []))"
    using uci_load_delta_single [OF ctx(1) nm(2), of "hs @ p_delta p" fs1 n q junk True] assms(1) all fs1(2) nm(1) result(1,2) fd by simp
  have reload: "uci_commit_reload junk ctx fs root p ?c False = Some (Inr (True, q), fs1(?d \<mapsto> []))"
    using fs1(1) fs1(3) ne base(4) imp load result(2) by (simp add: uci_commit_reload_def loaded_def)
  obtain t cb'' where t: "uci_export_package junk False cb q False = Some (t, cb'')"
    using uci_export_import_spec [OF result(3) base(2) v root] by blast
  let ?fs = "fs1(?d \<mapsto> [], ?c \<mapsto> t)"
  have idem: "p\<lparr>p_path := Some ?c\<rparr> = p" using assms(3) by simp
  have "uci_commit_reload junk ctx fs root (p\<lparr>p_path := Some ?c\<rparr>) ?c False = Some (Inr (True, q), fs1(?d \<mapsto> []))"
    unfolding idem by (rule reload)
  with t base(4) assms(2,3) ctx(2) have "uci_file_commit junk ctx cb fs root p False = Some (Inr q, ?fs)"
    by (simp add: uci_file_commit_def)
  moreover have "uci_file_load junk ctx ?fs root ?n = Some (Inr (Some (loaded ctx ?n q)), ?fs)"
    by (rule uci_file_load_saved [OF assms(1) ctx(1) root result(3) base(2) t, where hs = "[]" and n = 0])
      (use ne in \<open>simp_all add: delta_file_def\<close>)
  ultimately show ?thesis using ne by (intro exI [of _ t] exI [of _ ?fs]) simp
qed

definition demo_change :: uci_delta where
  "demo_change = \<lparr>d_cmd = UCI_CMD_CHANGE, d_section = ''lan'', d_option = Some ''ip'', d_value = Some ''z''\<rparr>"

definition demo_edited :: uci_package where
  "demo_edited = demo_package\<lparr>p_path := Some (in_dir UCI_CONFDIR ''net''), p_delta := [demo_change]\<rparr>"

definition demo_text :: string where
  "demo_text = fst (the (uci_export_package (CHR ''?'') False None demo_package False))"

definition demo_files :: files where
  "demo_files = [in_dir UCI_CONFDIR ''net'' \<mapsto> demo_text]"

definition demo_result :: "nat \<times> uci_package" where
  "demo_result = the (replay True ''net'' [demo_change] (0, loaded uci_alloc_context ''net'' demo_package))"

theorem uci_commit_load_witness:
  "\<exists>t fs'. uci_file_commit (CHR ''?'') uci_alloc_context None demo_files [] demo_edited False = Some (Inr (snd demo_result), fs') \<and>
    fs' (in_dir UCI_CONFDIR ''net'') = Some t \<and> fs' (in_dir UCI_SAVEDIR ''net'') = Some [] \<and>
    uci_file_load (CHR ''?'') uci_alloc_context fs' [] ''net'' =
      Some (Inr (Some (loaded uci_alloc_context ''net'' (snd demo_result))), fs')"
proof -
  let ?ctx = uci_alloc_context
  have c: "c_confdir ?ctx = UCI_CONFDIR" "c_savedir ?ctx = UCI_SAVEDIR" "c_delta_path ?ctx = [UCI_SAVEDIR]" "\<not> c_export_name ?ctx"
    "c_saved_delta ?ctx" "UCI_CONFDIR \<noteq> UCI_SAVEDIR" by code_simp+
  have p: "p_name demo_edited = ''net''" "p_has_delta demo_edited" "p_delta demo_edited = [demo_change]"
    "p_path demo_edited = Some (in_dir UCI_CONFDIR ''net'')" "package_word ''net''" by code_simp+
  have f: "demo_files UCI_SAVEDIR = None" "demo_files (in_dir UCI_CONFDIR ''net'') = Some demo_text"
    "delta_file demo_files (in_dir UCI_SAVEDIR ''net'') ''net'' []"
    by (simp_all add: demo_files_def delta_file_def in_dir_def UCI_SAVEDIR_def UCI_CONFDIR_def)
  have e: "exportable demo_package" "valid_delta demo_change" by code_simp+
  obtain s cb where s: "uci_export_package (CHR ''?'') False None demo_package False = Some (s, cb)"
    using uci_export_import_spec [OF e(1), of None "''net''" "[]" "CHR ''?''" "CHR ''?''" True True] package_word_facts(3) [OF p(5)] by auto
  have r: "replay True ''net'' [demo_change] (0, loaded ?ctx ''net'' demo_package) = Some demo_result" "fst demo_result = 1"
    "exportable (snd demo_result)" by code_simp+
  obtain n q where q: "demo_result = (n, q)" by (cases demo_result)
  have nq: "0 < n" "exportable q" "snd demo_result = q" using r(2,3) unfolding q by simp_all
  show ?thesis
    unfolding nq(3)
    using uci_commit_load [of demo_edited ?ctx demo_files demo_package None "CHR ''?''" demo_text cb "[]" n q "[]" "CHR ''?''"]
      c p f e r(1) [unfolded q] nq(1,2) s by (simp add: demo_text_def del: replay.simps)
qed

section \<open>Reverting changes\<close>

lemma uci_filter_delta_file:
  assumes "package_word name" "list_all valid_delta hs" "delta_file fs d name hs" "fs d = Some s"
  obtains t where "uci_filter_delta junk name sec opt s = Some t"
    "uci_delta_save_all name (filter (\<lambda>h. \<not> reverts sec opt h) hs) = Some t"
proof -
  have sv: "uci_delta_save_all name hs = Some s" using assms(3,4) by (simp add: delta_file_def)
  have s: "NUL \<notin> set s" "line_end s" using uci_delta_save_all_text [OF assms(1,2)] sv by (metis option.inject)+
  have v: "list_all valid_delta (filter (\<lambda>h. \<not> reverts sec opt h) hs)" using assms(2) by (simp add: list_all_iff)
  obtain t where t: "uci_delta_save_all name (filter (\<lambda>h. \<not> reverts sec opt h) hs) = Some t"
    using uci_delta_save_all_text [OF assms(1) v] by blast
  have "pp_file (parser_init junk True [] s) = s" by (simp add: parser_init_def)
  then have "uci_filter_delta junk name sec opt s = Some t"
    using uci_filter_delta_loop_spec [OF assms(1,2) _ parser_init_ready [OF s], of junk sec opt "[]"] sv t
    by (simp add: uci_filter_delta_def)
  with t that show thesis by blast
qed

text \<open>C18: \<open>uci_revert\<close> of a package, section or option drops exactly the matching changes, those not
  yet saved included, from the delta file and gives the package as it is without them.\<close>

theorem uci_revert_correct:
  assumes "package_word (p_name p)" "p_has_delta p"
    and ctx: "c_delta_path ctx = [c_savedir ctx]" "fs (c_savedir ctx) = None" "c_confdir ctx \<noteq> c_savedir ctx"
    and base: "exportable b" "cb \<noteq> Some []" "uci_export_package junk' False cb b False = Some (s, cb')"
      "fs (in_dir (c_confdir ctx) (p_name p)) = Some s"
    and deltas: "list_all valid_delta hs" "list_all valid_delta (p_delta p)"
      "delta_file fs (in_dir (c_savedir ctx) (p_name p)) (p_name p) hs"
    and result: "replay (c_saved_delta ctx) (p_name p) (filter (\<lambda>h. \<not> reverts sec opt h) (hs @ p_delta p))
      (0, loaded ctx (p_name p) b) = Some (n, q)"
    and root: "p_name p \<notin> p_name ` set root"
  shows "\<exists>fs'. uci_revert junk ctx fs root p sec opt = Some (Inr (Some q), fs') \<and>
    delta_file fs' (in_dir (c_savedir ctx) (p_name p)) (p_name p) (filter (\<lambda>h. \<not> reverts sec opt h) (hs @ p_delta p))"
proof -
  let ?n = "p_name p" and ?c = "in_dir (c_confdir ctx) (p_name p)" and ?d = "in_dir (c_savedir ctx) (p_name p)"
  let ?hs = "filter (\<lambda>h. \<not> reverts sec opt h) (hs @ p_delta p)"
  have ne: "?c \<noteq> ?d" using ctx(3) by (simp add: in_dir_def)
  obtain fs1 where fs1: "uci_save_delta ctx fs p = Some (Inr (p\<lparr>p_delta := []\<rparr>), fs1)"
    "delta_file fs1 ?d ?n (hs @ p_delta p)" "\<forall>f. f \<noteq> ?d \<longrightarrow> fs1 f = fs f"
    by (rule uci_save_delta_spec [OF assms(1) deltas(2) ctx(2) deltas(3)])
  have all: "list_all valid_delta (hs @ p_delta p)" "list_all valid_delta ?hs" using deltas by (auto simp: list_all_iff)
  obtain fs2 where fs2: "(case fs1 ?d of None \<Rightarrow> Some fs1 | Some stream \<Rightarrow> do {
        s \<leftarrow> uci_filter_delta junk ?n sec opt stream; Some (fs1(?d \<mapsto> s)) }) = Some fs2"
    "delta_file fs2 ?d ?n ?hs" "fs2 ?c = fs ?c"
  proof (cases "fs1 ?d")
    case None
    then have "hs @ p_delta p = []" by (rule delta_file_missing [OF fs1(2)])
    with None fs1 ne that [of fs1] show thesis by (simp add: delta_file_def)
  next
    case (Some st)
    obtain t where "uci_filter_delta junk ?n sec opt st = Some t" "uci_delta_save_all ?n ?hs = Some t"
      by (rule uci_filter_delta_file [OF assms(1) all(1) fs1(2) Some])
    with Some fs1(3) ne that [of "fs1(?d \<mapsto> t)"] show thesis by (simp add: delta_file_def)
  qed
  have "uci_file_load junk ctx fs2 root ?n = Some (Inr (Some q), fs2)"
    by (rule uci_file_load_saved [OF assms(1) ctx(1) root base(1,2,3) _ all(2) fs2(2) result]) (use fs2(3) base(4) in simp)
  then have "uci_revert junk ctx fs root p sec opt = Some (Inr (Some q), fs2)"
    using assms(2) fs1(1) fs2(1) by (simp add: uci_revert_def Let_def)
  with fs2(2) show ?thesis by blast
qed

theorem uci_revert_correct_witness:
  "\<exists>fs'. uci_revert (CHR ''?'') uci_alloc_context demo_files [] demo_edited (Some ''lan'') (Some ''ip'') =
     Some (Inr (Some (loaded uci_alloc_context ''net'' demo_package)), fs') \<and>
   delta_file fs' (in_dir UCI_SAVEDIR ''net'') ''net'' []"
proof -
  let ?ctx = uci_alloc_context
  have c: "c_confdir ?ctx = UCI_CONFDIR" "c_savedir ?ctx = UCI_SAVEDIR" "c_delta_path ?ctx = [UCI_SAVEDIR]"
    "UCI_CONFDIR \<noteq> UCI_SAVEDIR" by code_simp+
  have p: "p_name demo_edited = ''net''" "p_has_delta demo_edited" "p_delta demo_edited = [demo_change]" "package_word ''net''"
    by code_simp+
  have f: "demo_files UCI_SAVEDIR = None" "demo_files (in_dir UCI_CONFDIR ''net'') = Some demo_text"
    "delta_file demo_files (in_dir UCI_SAVEDIR ''net'') ''net'' []"
    by (simp_all add: demo_files_def delta_file_def in_dir_def UCI_SAVEDIR_def UCI_CONFDIR_def)
  have e: "exportable demo_package" "valid_delta demo_change" "reverts (Some ''lan'') (Some ''ip'') demo_change" by code_simp+
  obtain s cb where s: "uci_export_package (CHR ''?'') False None demo_package False = Some (s, cb)"
    using uci_export_import_spec [OF e(1), of None "''net''" "[]" "CHR ''?''" "CHR ''?''" True True] package_word_facts(3) [OF p(4)] by auto
  show ?thesis
    using uci_revert_correct [of demo_edited ?ctx demo_files demo_package None "CHR ''?''" demo_text cb "[]"
        "Some ''lan''" "Some ''ip''" 0 "loaded ?ctx ''net'' demo_package" "[]" "CHR ''?''"] c p f e s
    by (simp add: demo_text_def)
qed

end
