(* ===== verification/Uci_Parse.thy ===== *)
theory Uci_Parse
  imports Uci_Data
begin

text \<open>
  Tables of options for applications (\<open>libuci/parse.c\<close>): \<open>uci_parse_section\<close> sorts the options of a
  section into a table described by names and types, and \<open>uci_hash_options\<close> gives a hash of such
  a table, so that a program can see whether its configuration has changed.
\<close>

section \<open>Filling the table\<close>

record uci_parse_option =
  po_name :: string
  po_list :: bool

definition is_list_option :: "uci_option \<Rightarrow> bool" where
  "is_list_option x = (case o_value x of UCI_LIST _ \<Rightarrow> True | UCI_STRING _ \<Rightarrow> False)"

text \<open>The inner loop: the option goes to the first free slot that fits it.\<close>

fun uci_parse_slot :: "uci_parse_option list \<Rightarrow> uci_option \<Rightarrow> uci_option option list \<Rightarrow> uci_option option list" where
  "uci_parse_slot (opt # opts) x (t # tb) =
     (if t \<noteq> None then t # uci_parse_slot opts x tb
      else if po_name opt \<noteq> o_name x then t # uci_parse_slot opts x tb
      else if po_list opt \<noteq> is_list_option x then t # uci_parse_slot opts x tb
      else Some x # tb)"
| "uci_parse_slot opts x tb = tb"

definition uci_parse_section :: "uci_section \<Rightarrow> uci_parse_option list \<Rightarrow> uci_option option list" where
  "uci_parse_section s opts = foldl (\<lambda>tb x. uci_parse_slot opts x tb) (replicate (length opts) None) (s_options s)"

section \<open>Hashing the table\<close>

definition murmur_m :: u32 where "murmur_m = 0x5bd1e995"

definition murmur_word :: "u32 \<Rightarrow> bytes \<Rightarrow> u32" where
  "murmur_word h data =
     (let k = ucast (data ! 0);
          k = k OR push_bit 8 (ucast (data ! 1));
          k = k OR push_bit 16 (ucast (data ! 2));
          k = k OR push_bit 24 (ucast (data ! 3));
          k = k * murmur_m;
          k = k XOR drop_bit 24 k;
          k = k * murmur_m;
          h = h * murmur_m
      in h XOR k)"

definition murmur_tail :: "u32 \<Rightarrow> bytes \<Rightarrow> u32" where
  "murmur_tail h data =
     (let h = (if length data = 3 then h XOR push_bit 16 (ucast (data ! 2)) else h);
          h = (if length data \<ge> 2 then h XOR push_bit 8 (ucast (data ! 1)) else h)
      in if length data \<ge> 1 then (h XOR ucast (data ! 0)) * murmur_m else h)"

fun murmur_loop :: "u32 \<Rightarrow> bytes \<Rightarrow> u32" where
  "murmur_loop h data = (if 4 \<le> length data then murmur_loop (murmur_word h data) (drop 4 data) else murmur_tail h data)"

declare murmur_loop.simps [simp del]

definition hash_murmur2 :: "u32 \<Rightarrow> bytes \<Rightarrow> u32" where
  "hash_murmur2 h key =
     (let h = murmur_loop h key;
          h = h XOR drop_bit 13 h;
          h = h * murmur_m
      in h XOR drop_bit 15 h)"

text \<open>The bytes of a string with its terminator.\<close>

definition string_bytes :: "string \<Rightarrow> bytes" where
  "string_bytes s = map (\<lambda>c. of_nat (cv c)) s @ [0]"

definition uci_hash_list :: "u32 \<Rightarrow> string list \<Rightarrow> u32" where
  "uci_hash_list h list = foldl (\<lambda>h e. hash_murmur2 h (string_bytes e)) h list"

definition uci_hash_option :: "u32 \<Rightarrow> uci_option \<Rightarrow> u32" where
  "uci_hash_option h x =
     (let h = hash_murmur2 h (string_bytes (o_name x));
          h = hash_murmur2 h (bytes_le32 (if is_list_option x then 1 else 0))
      in case o_value x of
        UCI_STRING v \<Rightarrow> hash_murmur2 h (string_bytes v)
      | UCI_LIST vs \<Rightarrow> uci_hash_list h vs)"

definition uci_hash_options :: "uci_option option list \<Rightarrow> u32" where
  "uci_hash_options tb = foldl (\<lambda>h t. case t of None \<Rightarrow> h | Some x \<Rightarrow> uci_hash_option h x) 0xdeadc0de tb"

section \<open>What the table holds\<close>

definition fits :: "uci_parse_option \<Rightarrow> uci_option \<Rightarrow> bool" where
  "fits opt x \<longleftrightarrow> po_name opt = o_name x \<and> po_list opt = is_list_option x"

lemma uci_parse_slot_length: "length (uci_parse_slot opts x tb) = length tb"
  by (induction opts x tb rule: uci_parse_slot.induct) auto

lemma uci_parse_slot_nth:
  assumes "length tb = length opts" "distinct opts" "i < length opts"
  shows "uci_parse_slot opts x tb ! i = (if tb ! i = None \<and> fits (opts ! i) x then Some x else tb ! i)"
  using assms
proof (induction opts x tb arbitrary: i rule: uci_parse_slot.induct)
  case (1 opt opts x t tb)
  show ?case
  proof (cases "t = None \<and> fits opt x")
    case True
    have "\<not> fits (opts ! j) x" if "j < length opts" for j
    proof
      assume "fits (opts ! j) x"
      with True have "opts ! j = opt" by (cases "opts ! j"; cases opt) (auto simp: fits_def)
      with "1.prems"(2) that show False by (auto simp: in_set_conv_nth)
    qed
    with True 1 show ?thesis by (cases i) (auto simp: fits_def)
  next
    case False
    then have "uci_parse_slot (opt # opts) x (t # tb) = t # uci_parse_slot opts x tb" by (auto simp: fits_def)
    moreover have "uci_parse_slot opts x tb ! j = (if tb ! j = None \<and> fits (opts ! j) x then Some x else tb ! j)" if "j < length opts" for j
      using 1 that False by (cases "t \<noteq> None"; cases "po_name opt \<noteq> o_name x") (auto simp: fits_def)
    ultimately show ?thesis using False "1.prems" by (cases i) auto
  qed
qed auto

text \<open>With distinct entries in the description, \<open>uci_parse_section\<close> puts into each slot the
  first option of the section with its name and type, and leaves the slots without such an option
  empty.\<close>

theorem uci_parse_section_correct:
  assumes "distinct opts" "i < length opts"
  shows "uci_parse_section s opts ! i = List.find (fits (opts ! i)) (s_options s)"
proof -
  have "length (foldl (\<lambda>tb x. uci_parse_slot opts x tb) tb xs) = length tb" for tb xs
    by (induction xs arbitrary: tb) (auto simp: uci_parse_slot_length)
  moreover have "foldl (\<lambda>tb x. uci_parse_slot opts x tb) tb xs ! i =
      (if tb ! i = None then List.find (fits (opts ! i)) xs else tb ! i)" if "length tb = length opts" for tb xs
    using that assms
  proof (induction xs arbitrary: tb)
    case (Cons x xs)
    then show ?case by (simp add: uci_parse_slot_length uci_parse_slot_nth)
  qed simp
  ultimately show ?thesis using assms by (simp add: uci_parse_section_def)
qed

theorem uci_parse_section_correct_witness:
  "uci_parse_section (p_sections demo_package ! 0) [\<lparr>po_name = ''dns'', po_list = True\<rparr>, \<lparr>po_name = ''ip'', po_list = True\<rparr>] ! 0 =
     Some \<lparr>o_name = ''dns'', o_value = UCI_LIST [''b'', ''c'']\<rparr>"
proof -
  let ?opts = "[\<lparr>po_name = ''dns'', po_list = True\<rparr>, \<lparr>po_name = ''ip'', po_list = True\<rparr>]"
  have "distinct ?opts" "0 < length ?opts" by simp_all
  from uci_parse_section_correct [OF this, of "p_sections demo_package ! 0"] show ?thesis
    by (simp add: demo_package_def fits_def is_list_option_def)
qed

end
