(* ===== verification/Ulist.thy ===== *)
theory Ulist
  imports Prelude
begin

text \<open>
  Circular doubly linked lists (\<open>libubox/list.h\<close>).  Memory is one function per field of
  \<open>struct list_head\<close>, from addresses to the pointers stored there; address 0 is the null pointer
  and an access through it is a fault.  Records of components with embedded list heads extend
  \<open>list_heap\<close>, so they use these operations on their own states.

  The abstraction \<open>ring\<close> says that a head and a HOL list of entries form a well-linked ring.
  \<open>rings\<close> describes a set of disjoint rings by a map from heads to their entries, and every
  operation of the header refines the matching operation on that map.
\<close>

section \<open>The operations\<close>

type_synonym addr = nat

record list_heap =
  l_next :: "addr \<Rightarrow> addr"
  l_prev :: "addr \<Rightarrow> addr"

definition get_next :: "addr \<Rightarrow> 'a list_heap_scheme \<Rightarrow> addr option" where
  "get_next p s = (if p = 0 then None else Some (l_next s p))"

definition get_prev :: "addr \<Rightarrow> 'a list_heap_scheme \<Rightarrow> addr option" where
  "get_prev p s = (if p = 0 then None else Some (l_prev s p))"

definition set_next :: "addr \<Rightarrow> addr \<Rightarrow> 'a list_heap_scheme \<Rightarrow> 'a list_heap_scheme option" where
  "set_next p v s = (if p = 0 then None else Some (s\<lparr>l_next := (l_next s)(p := v)\<rparr>))"

definition set_prev :: "addr \<Rightarrow> addr \<Rightarrow> 'a list_heap_scheme \<Rightarrow> 'a list_heap_scheme option" where
  "set_prev p v s = (if p = 0 then None else Some (s\<lparr>l_prev := (l_prev s)(p := v)\<rparr>))"

definition INIT_LIST_HEAD :: "addr \<Rightarrow> 'a list_heap_scheme \<Rightarrow> 'a list_heap_scheme option" where
  "INIT_LIST_HEAD list s = do {
     s \<leftarrow> set_prev list list s;
     set_next list list s
   }"

definition list_empty :: "addr \<Rightarrow> 'a list_heap_scheme \<Rightarrow> bool option" where
  "list_empty head s = do { n \<leftarrow> get_next head s; Some (n = head) }"

definition list_is_first :: "addr \<Rightarrow> addr \<Rightarrow> 'a list_heap_scheme \<Rightarrow> bool option" where
  "list_is_first list head s = do { p \<leftarrow> get_prev list s; Some (p = head) }"

definition list_is_last :: "addr \<Rightarrow> addr \<Rightarrow> 'a list_heap_scheme \<Rightarrow> bool option" where
  "list_is_last list head s = do { n \<leftarrow> get_next list s; Some (n = head) }"

definition list_unlink :: "addr \<Rightarrow> 'a list_heap_scheme \<Rightarrow> 'a list_heap_scheme option" where
  "list_unlink entry s = do {
     n \<leftarrow> get_next entry s;
     p \<leftarrow> get_prev entry s;
     s \<leftarrow> set_prev n p s;
     p \<leftarrow> get_prev entry s;
     n \<leftarrow> get_next entry s;
     set_next p n s
   }"

definition list_del :: "addr \<Rightarrow> 'a list_heap_scheme \<Rightarrow> 'a list_heap_scheme option" where
  "list_del entry s = do {
     s \<leftarrow> list_unlink entry s;
     s \<leftarrow> set_prev entry 0 s;
     set_next entry 0 s
   }"

definition list_link :: "addr \<Rightarrow> addr \<Rightarrow> addr \<Rightarrow> 'a list_heap_scheme \<Rightarrow> 'a list_heap_scheme option" where
  "list_link new prev next s = do {
     s \<leftarrow> set_prev next new s;
     s \<leftarrow> set_next new next s;
     s \<leftarrow> set_prev new prev s;
     set_next prev new s
   }"

definition list_del_init :: "addr \<Rightarrow> 'a list_heap_scheme \<Rightarrow> 'a list_heap_scheme option" where
  "list_del_init entry s = do { s \<leftarrow> list_unlink entry s; INIT_LIST_HEAD entry s }"

definition list_add :: "addr \<Rightarrow> addr \<Rightarrow> 'a list_heap_scheme \<Rightarrow> 'a list_heap_scheme option" where
  "list_add new head s = do { n \<leftarrow> get_next head s; list_link new head n s }"

definition list_add_tail :: "addr \<Rightarrow> addr \<Rightarrow> 'a list_heap_scheme \<Rightarrow> 'a list_heap_scheme option" where
  "list_add_tail new head s = do { p \<leftarrow> get_prev head s; list_link new p head s }"

definition list_move :: "addr \<Rightarrow> addr \<Rightarrow> 'a list_heap_scheme \<Rightarrow> 'a list_heap_scheme option" where
  "list_move list head s = do { s \<leftarrow> list_unlink list s; list_add list head s }"

definition list_move_tail :: "addr \<Rightarrow> addr \<Rightarrow> 'a list_heap_scheme \<Rightarrow> 'a list_heap_scheme option" where
  "list_move_tail entry head s = do { s \<leftarrow> list_unlink entry s; list_add_tail entry head s }"

text \<open>\<open>_list_splice\<close>.\<close>

definition list_splice_between :: "addr \<Rightarrow> addr \<Rightarrow> addr \<Rightarrow> 'a list_heap_scheme \<Rightarrow> 'a list_heap_scheme option" where
  "list_splice_between list prev next s = do {
     e \<leftarrow> list_empty list s;
     if e then Some s
     else do {
       first \<leftarrow> get_next list s;
       last \<leftarrow> get_prev list s;
       s \<leftarrow> set_prev first prev s;
       s \<leftarrow> set_next prev first s;
       s \<leftarrow> set_next last next s;
       set_prev next last s
     }
   }"

definition list_splice :: "addr \<Rightarrow> addr \<Rightarrow> 'a list_heap_scheme \<Rightarrow> 'a list_heap_scheme option" where
  "list_splice list head s = do { n \<leftarrow> get_next head s; list_splice_between list head n s }"

definition list_splice_tail :: "addr \<Rightarrow> addr \<Rightarrow> 'a list_heap_scheme \<Rightarrow> 'a list_heap_scheme option" where
  "list_splice_tail list head s = do { p \<leftarrow> get_prev head s; list_splice_between list p head s }"

definition list_splice_init :: "addr \<Rightarrow> addr \<Rightarrow> 'a list_heap_scheme \<Rightarrow> 'a list_heap_scheme option" where
  "list_splice_init list head s = do {
     n \<leftarrow> get_next head s;
     s \<leftarrow> list_splice_between list head n s;
     INIT_LIST_HEAD list s
   }"

definition list_splice_tail_init :: "addr \<Rightarrow> addr \<Rightarrow> 'a list_heap_scheme \<Rightarrow> 'a list_heap_scheme option" where
  "list_splice_tail_init list head s = do {
     p \<leftarrow> get_prev head s;
     s \<leftarrow> list_splice_between list p head s;
     INIT_LIST_HEAD list s
   }"

lemmas list_accessors = get_next_def get_prev_def set_next_def set_prev_def

section \<open>Rings\<close>

text \<open>The entries \<open>xs\<close> lie between \<open>a\<close> and \<open>b\<close>, with the links in both directions.\<close>

fun seg :: "'a list_heap_scheme \<Rightarrow> addr \<Rightarrow> addr list \<Rightarrow> addr \<Rightarrow> bool" where
  "seg s a [] b \<longleftrightarrow> l_next s a = b \<and> l_prev s b = a"
| "seg s a (x # xs) b \<longleftrightarrow> l_next s a = x \<and> l_prev s x = a \<and> seg s x xs b"

definition ring :: "'a list_heap_scheme \<Rightarrow> addr \<Rightarrow> addr list \<Rightarrow> bool" where
  "ring s h xs \<longleftrightarrow> distinct (h # xs) \<and> 0 \<notin> set (h # xs) \<and> seg s h xs h"

lemma seg_append: "seg s a (xs @ m # ys) b \<longleftrightarrow> seg s a xs m \<and> seg s m ys b"
  by (induction xs arbitrary: a) auto

lemma seg_cong:
  assumes "\<forall>x \<in> set (a # xs). l_next s' x = l_next s x" "\<forall>x \<in> set (xs @ [b]). l_prev s' x = l_prev s x"
  shows "seg s' a xs b = seg s a xs b"
  using assms by (induction xs arbitrary: a) auto

lemma ring_cong:
  assumes "\<forall>x \<in> set (h # xs). l_next s' x = l_next s x" "\<forall>x \<in> set (h # xs). l_prev s' x = l_prev s x"
  shows "ring s' h xs = ring s h xs"
  unfolding ring_def using seg_cong [of h xs s' s h] assms by auto

lemma seg_ends: "seg s a xs b \<Longrightarrow> l_next s a = hd (xs @ [b]) \<and> l_prev s b = last (a # xs)"
  by (induction xs arbitrary: a) auto

lemma ring_next: "ring s h (xs @ x # ys) \<Longrightarrow> l_next s x = hd (ys @ [h])"
  using seg_ends [of s x ys h] by (simp add: ring_def seg_append)

lemma ring_prev: "ring s h (xs @ x # ys) \<Longrightarrow> l_prev s x = last (h # xs)"
  using seg_ends [of s h xs x] by (simp add: ring_def seg_append)

lemma ring_head: "ring s h xs \<Longrightarrow> l_next s h = hd (xs @ [h]) \<and> l_prev s h = last (h # xs)"
  using seg_ends [of s h xs h] by (simp add: ring_def)

lemma ring_nonzero: "ring s h xs \<Longrightarrow> h \<noteq> 0 \<and> 0 \<notin> set xs"
  by (simp add: ring_def)

lemma ring_ends: "hd (ys @ [h]) \<in> set (h # ys)" "last (h # xs) \<in> set (h # xs)"
  by (cases ys, simp_all)

lemma ring_ends_nonzero: "ring s h (xs @ ys) \<Longrightarrow> hd (ys @ [h]) \<noteq> 0 \<and> last (h # xs) \<noteq> 0"
proof -
  assume "ring s h (xs @ ys)"
  then have "x \<noteq> 0" if "x \<in> set (h # ys) \<or> x \<in> set (h # xs)" for x using that by (auto simp: ring_def)
  then show ?thesis using ring_ends(1) [of ys h] ring_ends(2) [of h xs] by blast
qed

text \<open>Reading the successor and the predecessor of an entry, and the successor of the first of a list of
  remaining entries or, behind the last one, of the head.\<close>

lemma ring_get_next: "ring s h (xs @ x # ys) \<Longrightarrow> get_next x s = Some (hd (ys @ [h])) \<and> hd (ys @ [h]) \<noteq> 0"
  using ring_next [of s h xs x ys] ring_ends_nonzero [of s h "xs @ [x]" ys] by (auto simp: get_next_def ring_def)

lemma ring_get_prev: "ring s h (xs @ x # ys) \<Longrightarrow> get_prev x s = Some (last (h # xs)) \<and> last (h # xs) \<noteq> 0"
  using ring_prev [of s h xs x ys] ring_ends_nonzero [of s h xs "x # ys"] by (auto simp: get_prev_def ring_def)

lemma ring_get_first: "ring s h xs \<Longrightarrow> get_next h s = Some (hd (xs @ [h])) \<and> hd (xs @ [h]) \<noteq> 0"
  using ring_head [of s h xs] ring_ends_nonzero [of s h "[]" xs] by (auto simp: get_next_def ring_def)

lemma ring_successor:
  assumes "ring s h (ys @ zs)"
  shows "\<exists>p. get_next (hd (zs @ [h])) s = Some p \<and> p \<noteq> 0 \<and> (zs \<noteq> [] \<longrightarrow> p = hd (tl zs @ [h]))"
  using ring_get_first [OF assms] ring_get_next [of s h ys "hd zs" "tl zs"] assms by (cases zs) auto

text \<open>What the linking primitives do to memory when no pointer is null.\<close>

definition linked :: "addr \<Rightarrow> addr \<Rightarrow> addr \<Rightarrow> 'a list_heap_scheme \<Rightarrow> 'a list_heap_scheme" where
  "linked e p n s = s\<lparr>l_next := (l_next s)(e := n, p := e), l_prev := (l_prev s)(n := e, e := p)\<rparr>"

definition unlinked :: "addr \<Rightarrow> addr \<Rightarrow> 'a list_heap_scheme \<Rightarrow> 'a list_heap_scheme" where
  "unlinked p n s = s\<lparr>l_next := (l_next s)(p := n), l_prev := (l_prev s)(n := p)\<rparr>"

definition deleted :: "addr \<Rightarrow> addr \<Rightarrow> addr \<Rightarrow> 'a list_heap_scheme \<Rightarrow> 'a list_heap_scheme" where
  "deleted e p n s = s\<lparr>l_next := (l_next s)(p := n, e := 0), l_prev := (l_prev s)(n := p, e := 0)\<rparr>"

lemma list_link_linked: "e \<noteq> 0 \<Longrightarrow> p \<noteq> 0 \<Longrightarrow> n \<noteq> 0 \<Longrightarrow> list_link e p n s = Some (linked e p n s)"
  by (simp add: list_link_def list_accessors linked_def)

lemma ring_linked:
  assumes "ring s h (xs @ ys)" "e \<notin> set (h # xs @ ys)" "e \<noteq> 0"
  shows "ring (linked e (last (h # xs)) (hd (ys @ [h])) s) h (xs @ e # ys)"
proof -
  let ?p = "last (h # xs)" and ?n = "hd (ys @ [h])"
  let ?s = "linked e ?p ?n s"
  have p: "?p \<notin> set ys"
    using assms(1) ring_ends(2) [of h xs] by (auto simp: ring_def simp del: last.simps)
  have left: "seg ?s h xs e"
  proof (cases xs rule: rev_cases)
    case Nil
    then show ?thesis using assms(2) by (auto simp: linked_def)
  next
    case (snoc zs p)
    have "seg s h zs p" using assms(1) by (simp add: ring_def snoc seg_append)
    moreover have "seg ?s h zs p = seg s h zs p"
      using assms(1,2) by (intro seg_cong) (auto simp: linked_def snoc ring_def hd_append split: if_splits)
    ultimately show ?thesis using assms(2) by (simp add: snoc seg_append linked_def)
  qed
  have right: "seg ?s e ys h"
  proof (cases ys)
    case Nil
    then show ?thesis using assms(2) by (auto simp: linked_def)
  next
    case (Cons n zs)
    have "seg s n zs h" using assms(1) by (simp add: ring_def Cons seg_append)
    moreover have "seg ?s n zs h = seg s n zs h"
      using assms(1,2) p by (intro seg_cong) (auto simp: linked_def Cons ring_def)
    ultimately show ?thesis using assms(2) by (auto simp: Cons linked_def)
  qed
  show ?thesis using assms left right by (auto simp: ring_def seg_append)
qed

lemma list_unlink_unlinked:
  assumes "ring s h (xs @ e # ys)"
  shows "list_unlink e s = Some (unlinked (last (h # xs)) (hd (ys @ [h])) s)"
proof -
  have "l_next s e = hd (ys @ [h])" "l_prev s e = last (h # xs)"
    using ring_next [OF assms] ring_prev [OF assms] by auto
  moreover have "e \<noteq> 0" "hd (ys @ [h]) \<noteq> 0" "last (h # xs) \<noteq> 0" "hd (ys @ [h]) \<noteq> e" "last (h # xs) \<noteq> e"
    using assms ring_ends(1) [of ys h] ring_ends(2) [of h xs] by (auto simp: ring_def simp del: last.simps)
  ultimately show ?thesis
    by (simp add: list_unlink_def list_accessors unlinked_def del: last.simps)
qed

lemma ring_unlinked:
  assumes "ring s h (xs @ e # ys)"
  shows "ring (unlinked (last (h # xs)) (hd (ys @ [h])) s) h (xs @ ys)"
proof -
  let ?p = "last (h # xs)" and ?n = "hd (ys @ [h])"
  let ?s = "unlinked ?p ?n s"
  have p: "?p \<notin> set ys"
    using assms(1) ring_ends(2) [of h xs] by (auto simp: ring_def simp del: last.simps)
  have segs: "seg s h xs e" "seg s e ys h" using assms by (auto simp: ring_def seg_append)
  have left: "xs = zs @ [p] \<Longrightarrow> seg ?s h zs p" for zs p
  proof -
    assume xs: "xs = zs @ [p]"
    have "seg ?s h zs p = seg s h zs p"
      using assms by (intro seg_cong) (auto simp: unlinked_def xs ring_def hd_append split: if_splits)
    then show ?thesis using segs(1) by (simp add: xs seg_append)
  qed
  have right: "ys = n # zs \<Longrightarrow> seg ?s n zs h" for n zs
  proof -
    assume ys: "ys = n # zs"
    have "seg ?s n zs h = seg s n zs h"
      using assms p by (intro seg_cong) (auto simp: unlinked_def ys ring_def)
    then show ?thesis using segs(2) by (simp add: ys)
  qed
  have mid: "l_next ?s ?p = ?n" "l_prev ?s ?n = ?p" by (simp_all add: unlinked_def)
  have "seg ?s h (xs @ ys) h"
  proof (cases xs rule: rev_cases)
    case Nil
    then show ?thesis using mid right by (cases ys) auto
  next
    case (snoc zs p)
    have "seg ?s p ys h" using mid right snoc by (cases ys) auto
    with left [OF snoc] show ?thesis by (simp add: snoc seg_append)
  qed
  then show ?thesis using assms by (auto simp: ring_def)
qed

text \<open>The operations on one ring.\<close>

lemma list_add_ring:
  assumes "ring s h xs" "e \<notin> set (h # xs)" "e \<noteq> 0"
  shows "list_add e h s = Some (linked e h (hd (xs @ [h])) s)" "ring (linked e h (hd (xs @ [h])) s) h (e # xs)"
proof -
  show "ring (linked e h (hd (xs @ [h])) s) h (e # xs)" using ring_linked [of s h "[]" xs e] assms by simp
  have "hd (xs @ [h]) \<noteq> 0" using ring_ends_nonzero [of s h "[]" xs] assms(1) by simp
  then show "list_add e h s = Some (linked e h (hd (xs @ [h])) s)"
    using ring_head [OF assms(1)] ring_nonzero [OF assms(1)] assms(3)
    by (simp add: list_add_def get_next_def list_link_linked)
qed

text \<open>\<open>list_add\<close> behind an entry and \<open>list_add_tail\<close> before one.\<close>

lemma list_add_behind:
  assumes "ring s h (xs @ x # ys)" "e \<notin> set (h # xs @ x # ys)" "e \<noteq> 0"
  shows "list_add e x s = Some (linked e x (hd (ys @ [h])) s)"
    "ring (linked e x (hd (ys @ [h])) s) h (xs @ x # e # ys)"
proof -
  show "ring (linked e x (hd (ys @ [h])) s) h (xs @ x # e # ys)"
    using ring_linked [of s h "xs @ [x]" ys e] assms by simp
  have "hd (ys @ [h]) \<noteq> 0" "x \<noteq> 0" using assms(1) ring_ends(1) [of ys h] by (auto simp: ring_def)
  then show "list_add e x s = Some (linked e x (hd (ys @ [h])) s)"
    using ring_next [OF assms(1)] assms(3) by (simp add: list_add_def get_next_def list_link_linked)
qed

lemma list_add_before:
  assumes "ring s h (xs @ x # ys)" "e \<notin> set (h # xs @ x # ys)" "e \<noteq> 0"
  shows "list_add_tail e x s = Some (linked e (last (h # xs)) x s)"
    "ring (linked e (last (h # xs)) x s) h (xs @ e # x # ys)"
proof -
  show "ring (linked e (last (h # xs)) x s) h (xs @ e # x # ys)"
    using ring_linked [of s h xs "x # ys" e] assms by simp
  have "last (h # xs) \<noteq> 0" "x \<noteq> 0"
    using assms(1) ring_ends(2) [of h xs] by (auto simp: ring_def simp del: last.simps)
  then show "list_add_tail e x s = Some (linked e (last (h # xs)) x s)"
    using ring_prev [OF assms(1)] assms(3)
    by (simp add: list_add_tail_def get_prev_def list_link_linked del: last.simps)
qed

lemma list_add_tail_ring:
  assumes "ring s h xs" "e \<notin> set (h # xs)" "e \<noteq> 0"
  shows "list_add_tail e h s = Some (linked e (last (h # xs)) h s)"
    "ring (linked e (last (h # xs)) h s) h (xs @ [e])"
proof -
  show "ring (linked e (last (h # xs)) h s) h (xs @ [e])" using ring_linked [of s h xs "[]" e] assms by simp
  have "last (h # xs) \<noteq> 0" using ring_ends_nonzero [of s h xs "[]"] assms(1) by simp
  then show "list_add_tail e h s = Some (linked e (last (h # xs)) h s)"
    using ring_head [OF assms(1)] ring_nonzero [OF assms(1)] assms(3)
    by (simp add: list_add_tail_def get_prev_def list_link_linked del: last.simps)
qed

text \<open>Both at once: the entry goes between \<open>xs\<close> and \<open>ys\<close>.\<close>

lemma list_add_tail_at:
  assumes "ring s h (xs @ ys)" "e \<notin> set (h # xs @ ys)" "e \<noteq> 0"
  shows "list_add_tail e (hd (ys @ [h])) s = Some (linked e (last (h # xs)) (hd (ys @ [h])) s)"
    "ring (linked e (last (h # xs)) (hd (ys @ [h])) s) h (xs @ e # ys)"
proof -
  show "list_add_tail e (hd (ys @ [h])) s = Some (linked e (last (h # xs)) (hd (ys @ [h])) s)"
    using assms list_add_tail_ring(1) [of s h xs e] list_add_before(1) [of s h xs "hd ys" "tl ys" e] by (cases ys) (simp_all del: last.simps)
  show "ring (linked e (last (h # xs)) (hd (ys @ [h])) s) h (xs @ e # ys)"
    using assms list_add_tail_ring(2) [of s h xs e] list_add_before(2) [of s h xs "hd ys" "tl ys" e] by (cases ys) (simp_all del: last.simps)
qed

lemma list_del_ring:
  assumes "ring s h (xs @ e # ys)"
  shows "list_del e s = Some (deleted e (last (h # xs)) (hd (ys @ [h])) s)"
    "ring (deleted e (last (h # xs)) (hd (ys @ [h])) s) h (xs @ ys)"
proof -
  let ?s = "deleted e (last (h # xs)) (hd (ys @ [h])) s" and ?u = "unlinked (last (h # xs)) (hd (ys @ [h])) s"
  have e: "e \<noteq> 0" "e \<notin> set (h # xs @ ys)" using assms by (auto simp: ring_def)
  then show "list_del e s = Some ?s"
    using list_unlink_unlinked [OF assms]
    by (simp add: list_del_def list_accessors unlinked_def deleted_def del: last.simps)
  have "ring ?s h (xs @ ys) = ring ?u h (xs @ ys)"
    using e by (intro ring_cong) (auto simp: unlinked_def deleted_def simp del: last.simps)
  then show "ring ?s h (xs @ ys)" using ring_unlinked [OF assms] by simp
qed

text \<open>Splicing: the entries of the ring at \<open>l\<close> go between \<open>xs\<close> and \<open>ys\<close> of the ring at \<open>h\<close>.\<close>

definition spliced :: "addr \<Rightarrow> addr \<Rightarrow> addr list \<Rightarrow> 'a list_heap_scheme \<Rightarrow> 'a list_heap_scheme" where
  "spliced p n zs s = (if zs = [] then s else
     s\<lparr>l_next := (l_next s)(p := hd zs, last zs := n), l_prev := (l_prev s)(hd zs := p, n := last zs)\<rparr>)"

lemma list_splice_between_spliced:
  assumes "ring s l zs" "p \<noteq> 0" "n \<noteq> 0"
  shows "list_splice_between l p n s = Some (spliced p n zs s)"
proof (cases "zs = []")
  case False
  have "hd zs \<noteq> 0" "last zs \<noteq> 0" "hd zs \<noteq> l" "l \<noteq> 0"
    using False assms(1) ring_ends_nonzero [of s l zs "[]"] ring_ends_nonzero [of s l "[]" zs] hd_in_set [OF False]
    by (auto simp: ring_def simp del: hd_in_set)
  then show ?thesis using False assms(2,3) ring_head [OF assms(1)]
    by (simp add: list_splice_between_def list_empty_def list_accessors spliced_def)
next
  case True
  then show ?thesis using ring_head [OF assms(1)] ring_nonzero [OF assms(1)]
    by (simp add: list_splice_between_def list_empty_def list_accessors spliced_def)
qed

lemma ring_spliced:
  assumes "ring s h (xs @ ys)" "ring s l zs" "set (h # xs @ ys) \<inter> set (l # zs) = {}"
  shows "ring (spliced (last (h # xs)) (hd (ys @ [h])) zs s) h (xs @ zs @ ys)"
proof (cases "zs = []")
  case False
  define p n where pn_def: "p = last (h # xs)" "n = hd (ys @ [h])"
  let ?s = "spliced p n zs s"
  have inside: "p \<in> set (h # xs)" "n \<in> set (h # ys)" "p \<notin> set ys"
    using assms(1) ring_ends(1) [of ys h] ring_ends(2) [of h xs] by (auto simp: ring_def pn_def simp del: last.simps)
  have pn: "p \<notin> set zs" "n \<notin> set zs" "\<And>x. x \<in> set (h # xs @ ys) \<Longrightarrow> x \<noteq> hd zs \<and> x \<noteq> last zs"
    using assms(3) inside hd_in_set [OF False] last_in_set [OF False]
    by (auto simp del: hd_in_set last_in_set)
  have left: "seg ?s h vs q" if "xs = vs @ [q]" for vs q
  proof -
    have "q = p" "q \<noteq> n" using that assms(1) inside by (auto simp: pn_def ring_def)
    then have "seg ?s h vs q = seg s h vs q"
      using assms(1) pn(3) inside by (intro seg_cong) (auto simp: spliced_def that ring_def)
    then show ?thesis using assms(1) by (simp add: ring_def that seg_append)
  qed
  have right: "seg ?s q vs h" if "ys = q # vs" for q vs
  proof -
    have "q = n" using that by (simp add: pn_def)
    then have "seg ?s q vs h = seg s q vs h"
      using assms(1) inside pn(3) by (intro seg_cong) (auto simp: spliced_def that ring_def)
    then show ?thesis using assms(1) by (simp add: ring_def that seg_append)
  qed
  have mid: "seg ?s p zs n"
  proof -
    obtain a ws where zs: "zs = a # ws" using False by (cases zs) auto
    show ?thesis
    proof (cases ws rule: rev_cases)
      case Nil
      then show ?thesis using pn by (auto simp: spliced_def zs)
    next
      case (snoc vs b)
      have "seg ?s a vs b = seg s a vs b"
        using assms(2) pn by (intro seg_cong) (auto simp: spliced_def zs snoc ring_def)
      then show ?thesis using assms(2) pn by (auto simp: ring_def zs snoc seg_append spliced_def)
    qed
  qed
  have rest: "seg ?s p (zs @ ys) h"
    using mid right by (cases ys) (auto simp: seg_append pn_def(2))
  have "seg ?s h (xs @ zs @ ys) h"
  proof (cases xs rule: rev_cases)
    case Nil
    then show ?thesis using rest by (simp add: pn_def(1))
  next
    case (snoc vs q)
    then show ?thesis using rest left [OF snoc] by (simp add: seg_append pn_def(1))
  qed
  then show ?thesis using assms by (auto simp: ring_def pn_def)
qed (use assms(1) in \<open>simp add: spliced_def\<close>)

section \<open>Disjoint rings\<close>

definition rings :: "'a list_heap_scheme \<Rightarrow> (addr \<rightharpoonup> addr list) \<Rightarrow> bool" where
  "rings s R \<longleftrightarrow> (\<forall>h xs. R h = Some xs \<longrightarrow> ring s h xs) \<and>
     (\<forall>h h' xs xs'. h \<noteq> h' \<longrightarrow> R h = Some xs \<longrightarrow> R h' = Some xs' \<longrightarrow> set (h # xs) \<inter> set (h' # xs') = {})"

definition fresh :: "(addr \<rightharpoonup> addr list) \<Rightarrow> addr \<Rightarrow> bool" where
  "fresh R e \<longleftrightarrow> e \<noteq> 0 \<and> (\<forall>h xs. R h = Some xs \<longrightarrow> e \<notin> set (h # xs))"

lemma rings_ring: "rings s R \<Longrightarrow> R h = Some xs \<Longrightarrow> ring s h xs"
  by (simp add: rings_def)

lemma rings_disjoint: "rings s R \<Longrightarrow> R h = Some xs \<Longrightarrow> R h' = Some xs' \<Longrightarrow> h \<noteq> h' \<Longrightarrow> set (h # xs) \<inter> set (h' # xs') = {}"
  unfolding rings_def by blast

lemma rings_forget: "rings s R \<Longrightarrow> rings s (R(l := None))"
  by (auto simp: rings_def)

text \<open>An operation that changes one ring, and fresh entries besides, leaves the other rings alone.\<close>

lemma rings_upd:
  assumes rings: "rings s R" "\<forall>xs. R h = Some xs \<longrightarrow> set xs \<subseteq> A" "R h = None \<longrightarrow> fresh R h"
    and E: "\<forall>x \<in> A. fresh (R(h := None)) x" and ring: "ring s' h xs'" "set xs' \<subseteq> A"
    and same: "\<forall>x. x \<noteq> h \<and> x \<notin> A \<longrightarrow> l_next s' x = l_next s x \<and> l_prev s' x = l_prev s x"
  shows "rings s' (R(h \<mapsto> xs'))"
proof -
  have other: "set (h # A') \<inter> set (k # ys) = {}" if "R k = Some ys" "k \<noteq> h" "set A' \<subseteq> A" for k ys A'
  proof -
    have "h \<notin> set (k # ys)"
      using rings(1,3) that by (cases "R h") (auto simp: fresh_def dest: rings_disjoint)
    moreover have "x \<notin> set (k # ys)" if "x \<in> A" for x
    proof -
      have "(R(h := None)) k = Some ys" using \<open>R k = Some ys\<close> \<open>k \<noteq> h\<close> by simp
      with E that show ?thesis unfolding fresh_def by blast
    qed
    ultimately show ?thesis using that(3) by auto
  qed
  have "ring s' k ys" if "R k = Some ys" "k \<noteq> h" for k ys
  proof -
    have "x \<noteq> h \<and> x \<notin> A" if "x \<in> set (k # ys)" for x
      using other [OF \<open>R k = Some ys\<close> \<open>k \<noteq> h\<close>, of "[x]"] other [OF \<open>R k = Some ys\<close> \<open>k \<noteq> h\<close>, of "[]"] that by auto
    then have "ring s' k ys = ring s k ys" using same by (intro ring_cong) auto
    with rings_ring [OF rings(1) that(1)] show ?thesis by simp
  qed
  moreover have "set (k # ys) \<inter> set (k' # ys') = {}"
    if "k \<noteq> k'" "(R(h \<mapsto> xs')) k = Some ys" "(R(h \<mapsto> xs')) k' = Some ys'" for k k' ys ys'
    using that other [OF _ _ ring(2)] rings_disjoint [OF rings(1), of k ys k' ys']
    by (simp split: if_splits) blast+
  ultimately show ?thesis using ring(1) unfolding rings_def by (metis fun_upd_apply option.inject)
qed

lemma rings_forget_fresh:
  assumes "rings s R" "R l = Some zs" "x \<in> set (l # zs)"
  shows "fresh (R(l := None)) x"
proof -
  have "x \<noteq> 0" using rings_ring [OF assms(1,2)] assms(3) by (auto simp: ring_def intro!: gr0I)
  moreover have "x \<notin> set (h # xs)" if "(R(l := None)) h = Some xs" for h xs
    using rings_disjoint [OF assms(1,2), of h xs] that assms(3) by (auto split: if_splits)
  ultimately show ?thesis by (simp add: fresh_def)
qed

lemma rings_fresh_entries: "rings s R \<Longrightarrow> R h = Some xs \<Longrightarrow> x \<in> set xs \<Longrightarrow> fresh (R(h := None)) x"
  by (auto intro: rings_forget_fresh)

lemma fresh_forget: "fresh R x \<Longrightarrow> fresh (R(h := None)) x"
  by (auto simp: fresh_def)

lemma rings_entry:
  assumes "rings s R" "R h = Some xs"
    and "ring s' h xs'" "set xs' \<subseteq> insert e (set xs)" "fresh (R(h := None)) e"
    and "\<forall>x. x \<notin> insert e (set (h # xs)) \<longrightarrow> l_next s' x = l_next s x \<and> l_prev s' x = l_prev s x"
  shows "rings s' (R(h \<mapsto> xs'))"
  using assms rings_fresh_entries [OF assms(1,2)]
  by (intro rings_upd [where A = "insert e (set xs)"]) auto

lemma rings_init:
  assumes "rings s R" "fresh R h"
  shows "\<exists>s'. INIT_LIST_HEAD h s = Some s' \<and> rings s' (R(h \<mapsto> []))"
proof -
  let ?s = "s\<lparr>l_prev := (l_prev s)(h := h), l_next := (l_next s)(h := h)\<rparr>"
  have "R h = None" "h \<noteq> 0" using assms(2) by (auto simp: fresh_def) (metis not_None_eq)
  then have "INIT_LIST_HEAD h s = Some ?s" "rings ?s (R(h \<mapsto> []))"
    using assms by (auto simp: INIT_LIST_HEAD_def list_accessors ring_def intro!: rings_upd [where A = "{}"])
  then show ?thesis by blast
qed

lemma linked_same: "x \<notin> {e, p, n} \<Longrightarrow> l_next (linked e p n s) x = l_next s x \<and> l_prev (linked e p n s) x = l_prev s x"
  by (simp add: linked_def)

lemma unlinked_same: "x \<notin> {p, n} \<Longrightarrow> l_next (unlinked p n s) x = l_next s x \<and> l_prev (unlinked p n s) x = l_prev s x"
  by (simp add: unlinked_def)

lemma deleted_same: "x \<notin> {e, p, n} \<Longrightarrow> l_next (deleted e p n s) x = l_next s x \<and> l_prev (deleted e p n s) x = l_prev s x"
  by (simp add: deleted_def)

lemma rings_add:
  assumes "rings s R" "R h = Some xs" "fresh R e"
  shows "\<exists>s'. list_add e h s = Some s' \<and> rings s' (R(h \<mapsto> e # xs))"
    "\<exists>s'. list_add_tail e h s = Some s' \<and> rings s' (R(h \<mapsto> xs @ [e]))"
proof -
  note r = rings_ring [OF assms(1,2)]
  have e: "e \<notin> set (h # xs)" "e \<noteq> 0" using assms(2,3) by (auto simp: fresh_def)
  note fr = fresh_forget [OF assms(3), of h]
  have "rings (linked e h (hd (xs @ [h])) s) (R(h \<mapsto> e # xs))"
    using list_add_ring(2) [OF r e] ring_ends(1) [of xs h]
    by (intro rings_entry [OF assms(1,2) _ _ fr]) (auto intro!: linked_same [THEN conjunct1] linked_same [THEN conjunct2])
  then show "\<exists>s'. list_add e h s = Some s' \<and> rings s' (R(h \<mapsto> e # xs))"
    using list_add_ring(1) [OF r e] by blast
  have "rings (linked e (last (h # xs)) h s) (R(h \<mapsto> xs @ [e]))"
    using list_add_tail_ring(2) [OF r e] ring_ends(2) [of h xs]
    by (intro rings_entry [OF assms(1,2) _ _ fr])
      (auto intro!: linked_same [THEN conjunct1] linked_same [THEN conjunct2] simp del: last.simps)
  then show "\<exists>s'. list_add_tail e h s = Some s' \<and> rings s' (R(h \<mapsto> xs @ [e]))"
    using list_add_tail_ring(1) [OF r e] by blast
qed

lemma rings_unlink:
  assumes "rings s R" "R h = Some xs" "e \<in> set xs"
  shows "\<exists>s'. list_unlink e s = Some s' \<and> rings s' (R(h \<mapsto> remove1 e xs))" (is ?unlink)
    and "\<exists>s'. list_del e s = Some s' \<and> rings s' (R(h \<mapsto> remove1 e xs))" (is ?del)
    and "fresh (R(h \<mapsto> remove1 e xs)) e" (is ?fresh)
proof -
  obtain us ws where xs: "xs = us @ e # ws" using assms(3) by (auto dest: split_list)
  have r: "ring s h (us @ e # ws)" using rings_ring [OF assms(1,2)] xs by simp
  have rm: "remove1 e xs = us @ ws" using r by (auto simp: ring_def xs remove1_append)
  note fr = rings_fresh_entries [OF assms]
  let ?p = "last (h # us)" and ?n = "hd (ws @ [h])"
  have ends: "?p \<in> set (h # us)" "?n \<in> set (h # ws)" by (rule ring_ends)+
  have "rings (unlinked ?p ?n s) (R(h \<mapsto> us @ ws))"
    using ring_unlinked [OF r] ends
    by (intro rings_entry [OF assms(1,2) _ _ fr])
      (auto simp: xs intro!: unlinked_same [THEN conjunct1] unlinked_same [THEN conjunct2] simp del: last.simps)
  then show ?unlink using list_unlink_unlinked [OF r] rm by auto
  have "rings (deleted e ?p ?n s) (R(h \<mapsto> us @ ws))"
    using list_del_ring(2) [OF r] ends
    by (intro rings_entry [OF assms(1,2) _ _ fr])
      (auto simp: xs intro!: deleted_same [THEN conjunct1] deleted_same [THEN conjunct2] simp del: last.simps)
  then show ?del using list_del_ring(1) [OF r] rm by auto
  show ?fresh using fr r by (auto simp: fresh_def rm ring_def split: if_splits)
qed

lemma rings_splice:
  assumes "rings s R" "R l = Some zs" "R h = Some (xs @ ys)" "l \<noteq> h"
  shows "\<exists>s'. list_splice_between l (last (h # xs)) (hd (ys @ [h])) s = Some s' \<and>
    rings s' (R(l := None, h \<mapsto> xs @ zs @ ys))"
proof -
  let ?p = "last (h # xs)" and ?n = "hd (ys @ [h])" and ?R = "R(l := None)"
  let ?s = "spliced ?p ?n zs s"
  note r = rings_ring [OF assms(1,3)] and rl = rings_ring [OF assms(1,2)]
  have dis: "set (h # xs @ ys) \<inter> set (l # zs) = {}" using rings_disjoint [OF assms(1,3,2)] assms(4) by blast
  have "list_splice_between l ?p ?n s = Some ?s"
    using ring_ends_nonzero [OF r] by (intro list_splice_between_spliced [OF rl]) auto
  moreover have "rings ?s (?R(h \<mapsto> xs @ zs @ ys))"
  proof (rule rings_upd [where A = "set (xs @ zs @ ys)"])
    show "rings s ?R" by (rule rings_forget [OF assms(1)])
    show "ring ?s h (xs @ zs @ ys)" by (rule ring_spliced [OF r rl dis])
    show "\<forall>x\<in>set (xs @ zs @ ys). fresh (?R(h := None)) x"
    proof
      fix x assume "x \<in> set (xs @ zs @ ys)"
      then consider "x \<in> set zs" | "x \<in> set (xs @ ys)" by auto
      then show "fresh (?R(h := None)) x"
      proof cases
        case 1
        then show ?thesis using fresh_forget [OF rings_forget_fresh [OF assms(1,2)], of x h] by simp
      next
        case 2
        then have "fresh (R(h := None)) x" by (intro rings_fresh_entries [OF assms(1,3)])
        then have "fresh (R(h := None, l := None)) x" by (rule fresh_forget)
        then show ?thesis using assms(4) by (simp add: fun_upd_twist)
      qed
    qed
    have "?p \<in> set (h # xs)" "?n \<in> set (h # ys)" by (rule ring_ends)+
    then show "\<forall>x. x \<noteq> h \<and> x \<notin> set (xs @ zs @ ys) \<longrightarrow> l_next ?s x = l_next s x \<and> l_prev ?s x = l_prev s x"
      by (auto simp: spliced_def simp del: last.simps)
  qed (use assms in auto)
  ultimately show ?thesis by blast
qed

text \<open>The operations of the header, their effect on memory and their meaning: entry, list and
  destination are given by their addresses, and \<open>fresh\<close> entries are in no list.\<close>

datatype list_op =
    Op_init addr
  | Op_add addr addr
  | Op_add_tail addr addr
  | Op_del addr addr
  | Op_del_init addr addr
  | Op_move addr addr addr
  | Op_move_tail addr addr addr
  | Op_splice addr addr
  | Op_splice_tail addr addr
  | Op_splice_init addr addr
  | Op_splice_tail_init addr addr

fun run_op :: "list_op \<Rightarrow> 'a list_heap_scheme \<Rightarrow> 'a list_heap_scheme option" where
  "run_op (Op_init h) s = INIT_LIST_HEAD h s"
| "run_op (Op_add e h) s = list_add e h s"
| "run_op (Op_add_tail e h) s = list_add_tail e h s"
| "run_op (Op_del e h) s = list_del e s"
| "run_op (Op_del_init e h) s = list_del_init e s"
| "run_op (Op_move e h h') s = list_move e h' s"
| "run_op (Op_move_tail e h h') s = list_move_tail e h' s"
| "run_op (Op_splice l h) s = list_splice l h s"
| "run_op (Op_splice_tail l h) s = list_splice_tail l h s"
| "run_op (Op_splice_init l h) s = list_splice_init l h s"
| "run_op (Op_splice_tail_init l h) s = list_splice_tail_init l h s"

definition abs_add :: "(addr list \<Rightarrow> addr list) \<Rightarrow> addr \<Rightarrow> addr \<Rightarrow> (addr \<rightharpoonup> addr list) \<Rightarrow> (addr \<rightharpoonup> addr list) option" where
  "abs_add f e h R = (case R h of Some xs \<Rightarrow> if fresh R e then Some (R(h \<mapsto> f xs)) else None | None \<Rightarrow> None)"

definition abs_del :: "addr \<Rightarrow> addr \<Rightarrow> (addr \<rightharpoonup> addr list) \<Rightarrow> (addr \<rightharpoonup> addr list) option" where
  "abs_del e h R = (case R h of Some xs \<Rightarrow> if e \<in> set xs then Some (R(h \<mapsto> remove1 e xs)) else None | None \<Rightarrow> None)"

definition abs_splice :: "(addr list \<Rightarrow> addr list \<Rightarrow> addr list) \<Rightarrow> addr list option \<Rightarrow> addr \<Rightarrow> addr \<Rightarrow> (addr \<rightharpoonup> addr list) \<Rightarrow> (addr \<rightharpoonup> addr list) option" where
  "abs_splice f v l h R = (case (R l, R h) of
     (Some zs, Some xs) \<Rightarrow> if l \<noteq> h then Some (R(l := v, h \<mapsto> f zs xs)) else None | _ \<Rightarrow> None)"

fun abs_op :: "list_op \<Rightarrow> (addr \<rightharpoonup> addr list) \<Rightarrow> (addr \<rightharpoonup> addr list) option" where
  "abs_op (Op_init h) R = (if fresh R h then Some (R(h \<mapsto> [])) else None)"
| "abs_op (Op_add e h) R = abs_add (\<lambda>xs. e # xs) e h R"
| "abs_op (Op_add_tail e h) R = abs_add (\<lambda>xs. xs @ [e]) e h R"
| "abs_op (Op_del e h) R = abs_del e h R"
| "abs_op (Op_del_init e h) R = do { R \<leftarrow> abs_del e h R; Some (R(e \<mapsto> [])) }"
| "abs_op (Op_move e h h') R = do { R \<leftarrow> abs_del e h R; abs_add (\<lambda>xs. e # xs) e h' R }"
| "abs_op (Op_move_tail e h h') R = do { R \<leftarrow> abs_del e h R; abs_add (\<lambda>xs. xs @ [e]) e h' R }"
| "abs_op (Op_splice l h) R = abs_splice (\<lambda>zs xs. zs @ xs) None l h R"
| "abs_op (Op_splice_tail l h) R = abs_splice (\<lambda>zs xs. xs @ zs) None l h R"
| "abs_op (Op_splice_init l h) R = abs_splice (\<lambda>zs xs. zs @ xs) (Some []) l h R"
| "abs_op (Op_splice_tail_init l h) R = abs_splice (\<lambda>zs xs. xs @ zs) (Some []) l h R"

fun run_ops :: "list_op list \<Rightarrow> 'a list_heap_scheme \<Rightarrow> 'a list_heap_scheme option" where
  "run_ops [] s = Some s"
| "run_ops (x # xs) s = do { s \<leftarrow> run_op x s; run_ops xs s }"

fun abs_ops :: "list_op list \<Rightarrow> (addr \<rightharpoonup> addr list) \<Rightarrow> (addr \<rightharpoonup> addr list) option" where
  "abs_ops [] R = Some R"
| "abs_ops (x # xs) R = do { R \<leftarrow> abs_op x R; abs_ops xs R }"

lemma abs_add_refines:
  assumes "rings s R" "abs_add f e h R = Some R'"
  shows "f = (\<lambda>xs. e # xs) \<Longrightarrow> \<exists>s'. list_add e h s = Some s' \<and> rings s' R'"
    and "f = (\<lambda>xs. xs @ [e]) \<Longrightarrow> \<exists>s'. list_add_tail e h s = Some s' \<and> rings s' R'"
  using assms rings_add [OF assms(1)] by (auto simp: abs_add_def split: option.splits if_splits)

lemma abs_del_refines:
  assumes "rings s R" "abs_del e h R = Some R'"
  shows "\<exists>s'. list_unlink e s = Some s' \<and> rings s' R'" "\<exists>s'. list_del e s = Some s' \<and> rings s' R'" "fresh R' e"
  using assms rings_unlink [OF assms(1)] by (auto simp: abs_del_def split: option.splits if_splits)

lemma abs_splice_refines:
  assumes "rings s R" "abs_splice f v l h R = Some R'" "f = (\<lambda>zs xs. zs @ xs) \<or> f = (\<lambda>zs xs. xs @ zs)"
  shows "f = (\<lambda>zs xs. zs @ xs) \<Longrightarrow> \<exists>s'. list_splice l h s = Some s' \<and> rings s' (R'(l := None))"
    and "f = (\<lambda>zs xs. xs @ zs) \<Longrightarrow> \<exists>s'. list_splice_tail l h s = Some s' \<and> rings s' (R'(l := None))"
    and "fresh (R'(l := None)) l" "R'(l := v) = R'"
proof -
  obtain zs xs where R: "R l = Some zs" "R h = Some xs" "l \<noteq> h" and R'v: "R' = R(l := v, h \<mapsto> f zs xs)"
    using assms(2) by (auto simp: abs_splice_def split: option.splits if_splits)
  note hd = ring_head [OF rings_ring [OF assms(1) R(2)]] and nz = ring_nonzero [OF rings_ring [OF assms(1) R(2)]]
  have R': "R'(l := None) = R(l := None, h \<mapsto> f zs xs)" using R(3) R'v by (auto simp: fun_eq_iff)
  show "\<exists>s'. list_splice l h s = Some s' \<and> rings s' (R'(l := None))" if "f = (\<lambda>zs xs. zs @ xs)"
    unfolding R' using rings_splice [OF assms(1) R(1), of h "[]" xs] R hd nz that
    by (simp add: list_splice_def get_next_def del: fun_upd_apply)
  show "\<exists>s'. list_splice_tail l h s = Some s' \<and> rings s' (R'(l := None))" if "f = (\<lambda>zs xs. xs @ zs)"
    unfolding R' using rings_splice [OF assms(1) R(1), of h xs "[]"] R hd nz that
    by (simp add: list_splice_tail_def get_prev_def del: fun_upd_apply last.simps)
  have "fresh (R(l := None)) l" by (rule rings_forget_fresh [OF assms(1) R(1)]) simp
  moreover have "l \<notin> set (f zs xs)"
    using assms(3) rings_disjoint [OF assms(1) R] rings_ring [OF assms(1) R(1)] by (auto simp: ring_def)
  ultimately show "fresh (R'(l := None)) l" unfolding R' using R(3) by (auto simp: fresh_def)
  show "R'(l := v) = R'" using R(3) R'v by (auto simp: fun_eq_iff)
qed

lemma run_op_refines:
  assumes "rings s R" "abs_op x R = Some R'"
  shows "\<exists>s'. run_op x s = Some s' \<and> rings s' R'"
proof (cases x)
  case (Op_init h)
  then show ?thesis using assms rings_init by (auto split: if_splits)
next
  case (Op_del_init e h)
  then obtain R1 where R1: "abs_del e h R = Some R1" "R' = R1(e \<mapsto> [])" using assms(2) by (auto simp: bind_eq_Some_conv)
  from abs_del_refines(1,3) [OF assms(1) R1(1)] obtain s1 where "list_unlink e s = Some s1" "rings s1 R1" "fresh R1 e" by blast
  with rings_init [of s1 R1 e] show ?thesis by (auto simp: Op_del_init R1 list_del_init_def)
next
  case (Op_move e h h')
  then obtain R1 where R1: "abs_del e h R = Some R1" "abs_add (\<lambda>xs. e # xs) e h' R1 = Some R'" using assms(2) by (auto simp: bind_eq_Some_conv)
  from abs_del_refines(1) [OF assms(1) R1(1)] obtain s1 where "list_unlink e s = Some s1" "rings s1 R1" by blast
  with abs_add_refines(1) [OF _ R1(2)] show ?thesis by (auto simp: Op_move list_move_def)
next
  case (Op_move_tail e h h')
  then obtain R1 where R1: "abs_del e h R = Some R1" "abs_add (\<lambda>xs. xs @ [e]) e h' R1 = Some R'" using assms(2) by (auto simp: bind_eq_Some_conv)
  from abs_del_refines(1) [OF assms(1) R1(1)] obtain s1 where "list_unlink e s = Some s1" "rings s1 R1" by blast
  with abs_add_refines(2) [OF _ R1(2)] show ?thesis by (auto simp: Op_move_tail list_move_tail_def)
next
  case (Op_splice l h)
  with assms abs_splice_refines(1,4) [OF assms(1), of "\<lambda>zs xs. zs @ xs" None l h R'] show ?thesis by simp
next
  case (Op_splice_tail l h)
  with assms abs_splice_refines(2,4) [OF assms(1), of "\<lambda>zs xs. xs @ zs" None l h R'] show ?thesis by simp
next
  case (Op_splice_init l h)
  note r = abs_splice_refines [OF assms(1), of "\<lambda>zs xs. zs @ xs" "Some []" l h R']
  obtain s1 where s1: "list_splice l h s = Some s1" "rings s1 (R'(l := None))" using r(1) assms(2) Op_splice_init by auto
  have "fresh (R'(l := None)) l" "R'(l := None, l \<mapsto> []) = R'" using r(3,4) assms(2) Op_splice_init by auto
  with rings_init [OF s1(2), of l] s1(1) show ?thesis
    by (auto simp: Op_splice_init list_splice_init_def list_splice_def bind_eq_Some_conv)
next
  case (Op_splice_tail_init l h)
  note r = abs_splice_refines [OF assms(1), of "\<lambda>zs xs. xs @ zs" "Some []" l h R']
  obtain s1 where s1: "list_splice_tail l h s = Some s1" "rings s1 (R'(l := None))" using r(2) assms(2) Op_splice_tail_init by auto
  have "fresh (R'(l := None)) l" "R'(l := None, l \<mapsto> []) = R'" using r(3,4) assms(2) Op_splice_tail_init by auto
  with rings_init [OF s1(2), of l] s1(1) show ?thesis
    by (auto simp: Op_splice_tail_init list_splice_tail_init_def list_splice_tail_def bind_eq_Some_conv)
qed (use assms abs_add_refines [OF assms(1) _ refl] abs_del_refines(2) [OF assms(1)] in auto)

lemma run_ops_refines: "rings s R \<Longrightarrow> abs_ops xs R = Some R' \<Longrightarrow> \<exists>s'. run_ops xs s = Some s' \<and> rings s' R'"
proof (induction xs arbitrary: s R)
  case (Cons x xs)
  then obtain R1 where "abs_op x R = Some R1" "abs_ops xs R1 = Some R'" by (auto simp: bind_eq_Some_conv)
  with Cons run_op_refines show ?case by fastforce
qed simp

lemma list_queries:
  assumes "ring s h xs"
  shows "list_empty h s = Some (xs = [])"
    and "e \<in> set xs \<Longrightarrow> list_is_first e h s = Some (e = hd xs)"
    and "e \<in> set xs \<Longrightarrow> list_is_last e h s = Some (e = last xs)"
proof -
  show "list_empty h s = Some (xs = [])"
    using ring_head [OF assms] assms by (cases xs) (auto simp: list_empty_def get_next_def ring_def)
  assume "e \<in> set xs"
  then obtain us ws where xs: "xs = us @ e # ws" by (auto dest: split_list)
  have r: "ring s h (us @ e # ws)" using assms xs by simp
  have e: "e \<noteq> 0" "h \<noteq> 0" using r by (auto simp: ring_def)
  show "list_is_first e h s = Some (e = hd xs)"
    using ring_prev [OF r] e r by (cases us) (auto simp: list_is_first_def get_prev_def xs ring_def)
  show "list_is_last e h s = Some (e = last xs)"
    using ring_next [OF r] e r by (cases ws rule: rev_cases) (auto simp: list_is_last_def get_next_def xs ring_def hd_append)
qed

text \<open>C19: on disjoint rings, every sequence of operations of \<open>list.h\<close> whose entries are in the
  lists the operations need runs without a null access, leaves disjoint rings with exactly the
  entries that the list operations say, and the three queries on a resulting ring answer for its
  list of entries.\<close>

theorem list_ops_refine:
  assumes "rings s R" "abs_ops xs R = Some R'"
  shows "\<exists>s'. run_ops xs s = Some s' \<and> rings s' R' \<and>
    (\<forall>h es e. R' h = Some es \<longrightarrow> list_empty h s' = Some (es = []) \<and>
       (e \<in> set es \<longrightarrow> list_is_first e h s' = Some (e = hd es) \<and> list_is_last e h s' = Some (e = last es)))"
  using run_ops_refines [OF assms] list_queries rings_ring by blast

theorem list_ops_refine_witness:
  "\<exists>s' :: list_heap. run_ops [Op_init 1, Op_init 2, Op_add_tail 10 1, Op_add 11 1, Op_add 12 2, Op_move_tail 10 1 2, Op_splice_init 2 1]
     \<lparr>l_next = (\<lambda>_. 0), l_prev = (\<lambda>_. 0)\<rparr> = Some s' \<and> ring s' 1 [12, 10, 11] \<and> ring s' 2 []"
proof -
  let ?ops = "[Op_init 1, Op_init 2, Op_add_tail 10 1, Op_add 11 1, Op_add 12 2, Op_move_tail 10 1 2, Op_splice_init 2 1]"
  let ?s = "\<lparr>l_next = (\<lambda>_. 0), l_prev = (\<lambda>_. 0)\<rparr> :: list_heap"
  have s: "rings ?s Map.empty" by (simp add: rings_def)
  obtain R where R: "abs_ops ?ops Map.empty = Some R" "R 1 = Some [12, 10, 11]" "R 2 = Some []"
    by (simp add: abs_add_def abs_del_def abs_splice_def fresh_def)
  obtain s' where "run_ops ?ops ?s = Some s'" "rings s' R" using list_ops_refine [OF s R(1)] by blast
  with R(2,3) show ?thesis by (auto dest: rings_ring)
qed

end
