(* ===== verification/Avl.thy ===== *)
theory Avl
  imports Ulist "HOL-Library.Tree"
begin

text \<open>
  AVL trees threaded by a list (\<open>libubox/avl.c\<close>).  A node lives at an address; the tree links,
  the key, the balance and the leader flag are one function per field, beside the list links of
  \<open>list_heap\<close>, and address 0 is the null pointer.  Nodes with equal keys share one tree node, the
  leader, and follow it in the list.  The comparator is a parameter \<open>cmp\<close>.

  The balance of a node is a \<open>signed char\<close> in the code; it is an integer here, and the proofs show
  that it stays between -2 and 2.
\<close>

section \<open>State and accessors\<close>

record 'k avl_tree = list_heap +
  n_parent :: "addr \<Rightarrow> addr"
  n_left :: "addr \<Rightarrow> addr"
  n_right :: "addr \<Rightarrow> addr"
  n_key :: "addr \<Rightarrow> 'k"
  n_balance :: "addr \<Rightarrow> int"
  n_leader :: "addr \<Rightarrow> bool"
  t_head :: addr
  t_root :: addr
  t_count :: u32
  t_allow_dups :: bool

text \<open>Reading and writing a field of the node at an address.\<close>

definition rd :: "('s \<Rightarrow> addr \<Rightarrow> 'v) \<Rightarrow> addr \<Rightarrow> 's \<Rightarrow> 'v option" where
  "rd f p s = (if p = 0 then None else Some (f s p))"

definition wr :: "(((addr \<Rightarrow> 'v) \<Rightarrow> addr \<Rightarrow> 'v) \<Rightarrow> 's \<Rightarrow> 's) \<Rightarrow> addr \<Rightarrow> 'v \<Rightarrow> 's \<Rightarrow> 's option" where
  "wr upd p v s = (if p = 0 then None else Some (upd (\<lambda>m. m(p := v)) s))"

definition avl_max :: "int \<Rightarrow> int \<Rightarrow> int" where
  "avl_max x y = (if x > y then x else y)"

definition avl_min :: "int \<Rightarrow> int \<Rightarrow> int" where
  "avl_min x y = (if x < y then x else y)"

definition avl_init :: "bool \<Rightarrow> 'k avl_tree \<Rightarrow> 'k avl_tree option" where
  "avl_init allow_dups s = do {
     s \<leftarrow> INIT_LIST_HEAD (t_head s) s;
     Some (s\<lparr>t_root := 0, t_count := 0, t_allow_dups := allow_dups\<rparr>)
   }"

definition avl_next :: "addr \<Rightarrow> 'k avl_tree \<Rightarrow> addr option" where
  "avl_next node s = get_next node s"

section \<open>Searching\<close>

partial_function (option) avl_find_rec ::
  "('k \<Rightarrow> 'k \<Rightarrow> int) \<Rightarrow> addr \<Rightarrow> 'k \<Rightarrow> 'k avl_tree \<Rightarrow> (addr \<times> int) option" where
  "avl_find_rec cmp node key s = do {
     k \<leftarrow> rd n_key node s;
     let diff = cmp key k;
     if diff < 0 then do {
       l \<leftarrow> rd n_left node s;
       if l \<noteq> 0 then avl_find_rec cmp l key s else Some (node, diff)
     }
     else if diff > 0 then do {
       r \<leftarrow> rd n_right node s;
       if r \<noteq> 0 then avl_find_rec cmp r key s else Some (node, diff)
     }
     else Some (node, diff)
   }"

text \<open>A search that finds nothing returns the null pointer.\<close>

definition avl_find :: "('k \<Rightarrow> 'k \<Rightarrow> int) \<Rightarrow> 'k \<Rightarrow> 'k avl_tree \<Rightarrow> addr option" where
  "avl_find cmp key s =
     (if t_root s = 0 then Some 0
      else do {
        (node, diff) \<leftarrow> avl_find_rec cmp (t_root s) key s;
        Some (if diff = 0 then node else 0)
      })"

partial_function (option) avl_back :: "('k \<Rightarrow> 'k \<Rightarrow> int) \<Rightarrow> 'k \<Rightarrow> addr \<Rightarrow> int \<Rightarrow> 'k avl_tree \<Rightarrow> (addr \<times> int) option" where
  "avl_back cmp key node diff s =
     (if diff < 0 then do {
        first \<leftarrow> list_is_first node (t_head s) s;
        if first then Some (0, diff)
        else do {
          node \<leftarrow> get_prev node s;
          k \<leftarrow> rd n_key node s;
          avl_back cmp key node (cmp key k) s
        }
      } else Some (node, diff))"

partial_function (option) avl_forth :: "('k \<Rightarrow> 'k \<Rightarrow> int) \<Rightarrow> 'k \<Rightarrow> addr \<Rightarrow> 'k avl_tree \<Rightarrow> addr option" where
  "avl_forth cmp key node s = do {
     last \<leftarrow> list_is_last node (t_head s) s;
     if last then Some node
     else do {
       next \<leftarrow> get_next node s;
       k \<leftarrow> rd n_key next s;
       if cmp key k \<ge> 0 then avl_forth cmp key next s else Some node
     }
   }"

definition avl_find_lessequal :: "('k \<Rightarrow> 'k \<Rightarrow> int) \<Rightarrow> 'k \<Rightarrow> 'k avl_tree \<Rightarrow> addr option" where
  "avl_find_lessequal cmp key s =
     (if t_root s = 0 then Some 0
      else do {
        (node, diff) \<leftarrow> avl_find_rec cmp (t_root s) key s;
        (node, diff) \<leftarrow> avl_back cmp key node diff s;
        if node = 0 then Some 0 else avl_forth cmp key node s
      })"

partial_function (option) avl_forth_ge :: "('k \<Rightarrow> 'k \<Rightarrow> int) \<Rightarrow> 'k \<Rightarrow> addr \<Rightarrow> int \<Rightarrow> 'k avl_tree \<Rightarrow> (addr \<times> int) option" where
  "avl_forth_ge cmp key node diff s =
     (if diff > 0 then do {
        last \<leftarrow> list_is_last node (t_head s) s;
        if last then Some (0, diff)
        else do {
          node \<leftarrow> get_next node s;
          k \<leftarrow> rd n_key node s;
          avl_forth_ge cmp key node (cmp key k) s
        }
      } else Some (node, diff))"

partial_function (option) avl_back_ge :: "('k \<Rightarrow> 'k \<Rightarrow> int) \<Rightarrow> 'k \<Rightarrow> addr \<Rightarrow> 'k avl_tree \<Rightarrow> addr option" where
  "avl_back_ge cmp key node s = do {
     first \<leftarrow> list_is_first node (t_head s) s;
     if first then Some node
     else do {
       next \<leftarrow> get_prev node s;
       k \<leftarrow> rd n_key next s;
       if cmp key k \<le> 0 then avl_back_ge cmp key next s else Some node
     }
   }"

definition avl_find_greaterequal :: "('k \<Rightarrow> 'k \<Rightarrow> int) \<Rightarrow> 'k \<Rightarrow> 'k avl_tree \<Rightarrow> addr option" where
  "avl_find_greaterequal cmp key s =
     (if t_root s = 0 then Some 0
      else do {
        (node, diff) \<leftarrow> avl_find_rec cmp (t_root s) key s;
        (node, diff) \<leftarrow> avl_forth_ge cmp key node diff s;
        if node = 0 then Some 0 else avl_back_ge cmp key node s
      })"

section \<open>Rotations\<close>

text \<open>The child of \<open>parent\<close> that was \<open>node\<close>, or the root, becomes \<open>new\<close>.\<close>

definition avl_set_child :: "addr \<Rightarrow> addr \<Rightarrow> addr \<Rightarrow> 'k avl_tree \<Rightarrow> 'k avl_tree option" where
  "avl_set_child parent node new s =
     (if parent = 0 then Some (s\<lparr>t_root := new\<rparr>)
      else do {
        l \<leftarrow> rd n_left parent s;
        if l = node then wr n_left_update parent new s else wr n_right_update parent new s
      })"

definition avl_rotate_right :: "addr \<Rightarrow> 'k avl_tree \<Rightarrow> 'k avl_tree option" where
  "avl_rotate_right node s = do {
     left \<leftarrow> rd n_left node s;
     parent \<leftarrow> rd n_parent node s;
     s \<leftarrow> wr n_parent_update left parent s;
     s \<leftarrow> wr n_parent_update node left s;
     s \<leftarrow> avl_set_child parent node left s;
     lr \<leftarrow> rd n_right left s;
     s \<leftarrow> wr n_left_update node lr s;
     s \<leftarrow> wr n_right_update left node s;
     nl \<leftarrow> rd n_left node s;
     s \<leftarrow> (if nl \<noteq> 0 then wr n_parent_update nl node s else Some s);
     nb \<leftarrow> rd n_balance node s;
     lb \<leftarrow> rd n_balance left s;
     s \<leftarrow> wr n_balance_update node (nb + (1 - avl_min lb 0)) s;
     lb \<leftarrow> rd n_balance left s;
     nb \<leftarrow> rd n_balance node s;
     wr n_balance_update left (lb + (1 + avl_max nb 0)) s
   }"

definition avl_rotate_left :: "addr \<Rightarrow> 'k avl_tree \<Rightarrow> 'k avl_tree option" where
  "avl_rotate_left node s = do {
     right \<leftarrow> rd n_right node s;
     parent \<leftarrow> rd n_parent node s;
     s \<leftarrow> wr n_parent_update right parent s;
     s \<leftarrow> wr n_parent_update node right s;
     s \<leftarrow> avl_set_child parent node right s;
     rl \<leftarrow> rd n_left right s;
     s \<leftarrow> wr n_right_update node rl s;
     s \<leftarrow> wr n_left_update right node s;
     nr \<leftarrow> rd n_right node s;
     s \<leftarrow> (if nr \<noteq> 0 then wr n_parent_update nr node s else Some s);
     nb \<leftarrow> rd n_balance node s;
     rb \<leftarrow> rd n_balance right s;
     s \<leftarrow> wr n_balance_update node (nb - (1 + avl_max rb 0)) s;
     rb \<leftarrow> rd n_balance right s;
     nb \<leftarrow> rd n_balance node s;
     wr n_balance_update right (rb - (1 - avl_min nb 0)) s
   }"

text \<open>\<open>avl_rotate_left (tree, node); avl_rotate_right (tree, node->parent->parent)\<close> and its mirror.\<close>

definition avl_double_right :: "addr \<Rightarrow> 'k avl_tree \<Rightarrow> 'k avl_tree option" where
  "avl_double_right node s = do {
     s \<leftarrow> avl_rotate_left node s;
     p \<leftarrow> rd n_parent node s;
     pp \<leftarrow> rd n_parent p s;
     avl_rotate_right pp s
   }"

definition avl_double_left :: "addr \<Rightarrow> 'k avl_tree \<Rightarrow> 'k avl_tree option" where
  "avl_double_left node s = do {
     s \<leftarrow> avl_rotate_right node s;
     p \<leftarrow> rd n_parent node s;
     pp \<leftarrow> rd n_parent p s;
     avl_rotate_left pp s
   }"

section \<open>Insertion\<close>

partial_function (option) post_insert :: "addr \<Rightarrow> 'k avl_tree \<Rightarrow> 'k avl_tree option" where
  "post_insert node s = do {
     parent \<leftarrow> rd n_parent node s;
     if parent = 0 then Some s
     else do {
       pl \<leftarrow> rd n_left parent s;
       pb \<leftarrow> rd n_balance parent s;
       if node = pl then do {
         s \<leftarrow> wr n_balance_update parent (pb - 1) s;
         if pb - 1 = 0 then Some s
         else if pb - 1 = - 1 then post_insert parent s
         else do {
           nb \<leftarrow> rd n_balance node s;
           if nb = - 1 then avl_rotate_right parent s else avl_double_right node s
         }
       }
       else do {
         s \<leftarrow> wr n_balance_update parent (pb + 1) s;
         if pb + 1 = 0 then Some s
         else if pb + 1 = 1 then post_insert parent s
         else do {
           nb \<leftarrow> rd n_balance node s;
           if nb = 1 then avl_rotate_left parent s else avl_double_left node s
         }
       }
     }
   }"

definition avl_insert_before :: "addr \<Rightarrow> addr \<Rightarrow> 'k avl_tree \<Rightarrow> 'k avl_tree option" where
  "avl_insert_before pos_node node s = do {
     s \<leftarrow> list_add_tail node pos_node s;
     Some (s\<lparr>t_count := t_count s + 1\<rparr>)
   }"

definition avl_insert_after :: "addr \<Rightarrow> addr \<Rightarrow> 'k avl_tree \<Rightarrow> 'k avl_tree option" where
  "avl_insert_after pos_node node s = do {
     s \<leftarrow> list_add node pos_node s;
     Some (s\<lparr>t_count := t_count s + 1\<rparr>)
   }"

text \<open>The last node with the key of the leader \<open>node\<close>.\<close>

partial_function (option) avl_last_of :: "addr \<Rightarrow> 'k avl_tree \<Rightarrow> addr option" where
  "avl_last_of node s = do {
     e \<leftarrow> list_is_last node (t_head s) s;
     if e then Some node
     else do {
       next \<leftarrow> avl_next node s;
       l \<leftarrow> rd n_leader next s;
       if l then Some node else avl_last_of next s
     }
   }"

text \<open>The fields of a node that is about to be inserted.\<close>

definition avl_fresh_node :: "addr \<Rightarrow> 'k avl_tree \<Rightarrow> 'k avl_tree option" where
  "avl_fresh_node new s = do {
     s \<leftarrow> wr n_parent_update new 0 s;
     s \<leftarrow> wr n_left_update new 0 s;
     s \<leftarrow> wr n_right_update new 0 s;
     s \<leftarrow> wr n_balance_update new 0 s;
     wr n_leader_update new True s
   }"

definition avl_link_left :: "addr \<Rightarrow> addr \<Rightarrow> int \<Rightarrow> 'k avl_tree \<Rightarrow> 'k avl_tree option" where
  "avl_link_left node new b s = do {
     s \<leftarrow> avl_insert_before node new s;
     s \<leftarrow> wr n_balance_update node b s;
     s \<leftarrow> wr n_parent_update new node s;
     wr n_left_update node new s
   }"

definition avl_link_right :: "addr \<Rightarrow> addr \<Rightarrow> addr \<Rightarrow> int \<Rightarrow> 'k avl_tree \<Rightarrow> 'k avl_tree option" where
  "avl_link_right node lst new b s = do {
     s \<leftarrow> avl_insert_after lst new s;
     s \<leftarrow> wr n_balance_update node b s;
     s \<leftarrow> wr n_parent_update new node s;
     wr n_right_update node new s
   }"

definition avl_insert :: "('k \<Rightarrow> 'k \<Rightarrow> int) \<Rightarrow> addr \<Rightarrow> 'k avl_tree \<Rightarrow> (int \<times> 'k avl_tree) option" where
  "avl_insert cmp new s = do {
     s \<leftarrow> avl_fresh_node new s;
     if t_root s = 0 then do {
       s \<leftarrow> list_add new (t_head s) s;
       Some (0, s\<lparr>t_root := new, t_count := 1\<rparr>)
     }
     else do {
       key \<leftarrow> rd n_key new s;
       (node, diff) \<leftarrow> avl_find_rec cmp (t_root s) key s;
       last \<leftarrow> avl_last_of node s;
       k \<leftarrow> rd n_key node s;
       b \<leftarrow> rd n_balance node s;
       let diff = cmp key k;
       if diff = 0 then
         if \<not> t_allow_dups s then Some (- 1, s)
         else do {
           s \<leftarrow> wr n_leader_update new False s;
           s \<leftarrow> avl_insert_after last new s;
           Some (0, s)
         }
       else if b = 1 then do { s \<leftarrow> avl_link_left node new 0 s; Some (0, s) }
       else if b = - 1 then do { s \<leftarrow> avl_link_right node last new 0 s; Some (0, s) }
       else if diff < 0 then do {
         s \<leftarrow> avl_link_left node new (- 1) s;
         s \<leftarrow> post_insert node s;
         Some (0, s)
       }
       else do {
         s \<leftarrow> avl_link_right node last new 1 s;
         s \<leftarrow> post_insert node s;
         Some (0, s)
       }
     }
   }"

section \<open>Deletion\<close>

text \<open>The rotations at a node whose left subtree, or right subtree, has become two levels lower
  than the other.  The result says whether the subtree has lost a level.\<close>

definition avl_lean_right :: "addr \<Rightarrow> 'k avl_tree \<Rightarrow> (bool \<times> 'k avl_tree) option" where
  "avl_lean_right parent s = do {
     r \<leftarrow> rd n_right parent s;
     b \<leftarrow> rd n_balance r s;
     if b = 0 then do { s \<leftarrow> avl_rotate_left parent s; Some (False, s) }
     else if b = 1 then do { s \<leftarrow> avl_rotate_left parent s; Some (True, s) }
     else do {
       s \<leftarrow> avl_rotate_right r s;
       s \<leftarrow> avl_rotate_left parent s;
       Some (True, s)
     }
   }"

definition avl_lean_left :: "addr \<Rightarrow> 'k avl_tree \<Rightarrow> (bool \<times> 'k avl_tree) option" where
  "avl_lean_left parent s = do {
     l \<leftarrow> rd n_left parent s;
     b \<leftarrow> rd n_balance l s;
     if b = 0 then do { s \<leftarrow> avl_rotate_right parent s; Some (False, s) }
     else if b = - 1 then do { s \<leftarrow> avl_rotate_right parent s; Some (True, s) }
     else do {
       s \<leftarrow> avl_rotate_left l s;
       s \<leftarrow> avl_rotate_right parent s;
       Some (True, s)
     }
   }"

partial_function (option) avl_post_delete :: "addr \<Rightarrow> 'k avl_tree \<Rightarrow> 'k avl_tree option" where
  "avl_post_delete node s = do {
     parent \<leftarrow> rd n_parent node s;
     if parent = 0 then Some s
     else do {
       pl \<leftarrow> rd n_left parent s;
       pb \<leftarrow> rd n_balance parent s;
       if node = pl then do {
         s \<leftarrow> wr n_balance_update parent (pb + 1) s;
         if pb + 1 = 0 then avl_post_delete parent s
         else if pb + 1 = 1 then Some s
         else do {
           (lower, s) \<leftarrow> avl_lean_right parent s;
           if lower then do { pp \<leftarrow> rd n_parent parent s; avl_post_delete pp s } else Some s
         }
       }
       else do {
         s \<leftarrow> wr n_balance_update parent (pb - 1) s;
         if pb - 1 = 0 then avl_post_delete parent s
         else if pb - 1 = - 1 then Some s
         else do {
           (lower, s) \<leftarrow> avl_lean_left parent s;
           if lower then do { pp \<leftarrow> rd n_parent parent s; avl_post_delete pp s } else Some s
         }
       }
     }
   }"

partial_function (option) avl_local_min :: "addr \<Rightarrow> 'k avl_tree \<Rightarrow> addr option" where
  "avl_local_min node s = do {
     l \<leftarrow> rd n_left node s;
     if l \<noteq> 0 then avl_local_min l s else Some node
   }"

text \<open>The branches of \<open>avl_delete_worker\<close> for a leaf that is a left or a right child.\<close>

definition avl_delete_left_leaf :: "addr \<Rightarrow> 'k avl_tree \<Rightarrow> 'k avl_tree option" where
  "avl_delete_left_leaf parent s = do {
     s \<leftarrow> wr n_left_update parent 0 s;
     pb \<leftarrow> rd n_balance parent s;
     s \<leftarrow> wr n_balance_update parent (pb + 1) s;
     if pb + 1 = 1 then Some s
     else if pb + 1 = 0 then avl_post_delete parent s
     else do {
       (lower, s) \<leftarrow> avl_lean_right parent s;
       if lower then do { pp \<leftarrow> rd n_parent parent s; avl_post_delete pp s } else Some s
     }
   }"

definition avl_delete_right_leaf :: "addr \<Rightarrow> 'k avl_tree \<Rightarrow> 'k avl_tree option" where
  "avl_delete_right_leaf parent s = do {
     s \<leftarrow> wr n_right_update parent 0 s;
     pb \<leftarrow> rd n_balance parent s;
     s \<leftarrow> wr n_balance_update parent (pb - 1) s;
     if pb - 1 = - 1 then Some s
     else if pb - 1 = 0 then avl_post_delete parent s
     else do {
       (lower, s) \<leftarrow> avl_lean_left parent s;
       if lower then do { pp \<leftarrow> rd n_parent parent s; avl_post_delete pp s } else Some s
     }
   }"

text \<open>A node with one child is replaced by it.\<close>

definition avl_lift_child :: "addr \<Rightarrow> addr \<Rightarrow> 'k avl_tree \<Rightarrow> 'k avl_tree option" where
  "avl_lift_child node child s = do {
     parent \<leftarrow> rd n_parent node s;
     if parent = 0 then wr n_parent_update child 0 (s\<lparr>t_root := child\<rparr>)
     else do {
       s \<leftarrow> wr n_parent_update child parent s;
       s \<leftarrow> avl_set_child parent node child s;
       avl_post_delete child s
     }
   }"

text \<open>A node takes the place of another in the tree: the smallest node of the right subtree in
  \<open>avl_delete_worker\<close>, and the next node with the same key in \<open>avl_delete\<close>, which writes
  the parent before the children; the two orders write different fields.\<close>

definition avl_take_place :: "addr \<Rightarrow> addr \<Rightarrow> 'k avl_tree \<Rightarrow> 'k avl_tree option" where
  "avl_take_place node new s = do {
     b \<leftarrow> rd n_balance node s;
     s \<leftarrow> wr n_balance_update new b s;
     parent \<leftarrow> rd n_parent node s;
     left \<leftarrow> rd n_left node s;
     right \<leftarrow> rd n_right node s;
     s \<leftarrow> wr n_parent_update new parent s;
     s \<leftarrow> wr n_left_update new left s;
     s \<leftarrow> wr n_right_update new right s;
     s \<leftarrow> (if left \<noteq> 0 then wr n_parent_update left new s else Some s);
     s \<leftarrow> (if right \<noteq> 0 then wr n_parent_update right new s else Some s);
     avl_set_child parent node new s
   }"

partial_function (option) avl_delete_worker :: "addr \<Rightarrow> 'k avl_tree \<Rightarrow> 'k avl_tree option" where
  "avl_delete_worker node s = do {
     parent \<leftarrow> rd n_parent node s;
     left \<leftarrow> rd n_left node s;
     right \<leftarrow> rd n_right node s;
     if left = 0 \<and> right = 0 \<and> parent = 0 then Some (s\<lparr>t_root := 0\<rparr>)
     else if left = 0 \<and> right = 0 \<and> n_left s parent = node then avl_delete_left_leaf parent s
     else if left = 0 \<and> right = 0 \<and> n_right s parent = node then avl_delete_right_leaf parent s
     else if left = 0 then avl_lift_child node right s
     else if right = 0 then avl_lift_child node left s
     else do {
       min \<leftarrow> avl_local_min right s;
       s \<leftarrow> avl_delete_worker min s;
       avl_take_place node min s
     }
   }"

definition avl_remove :: "addr \<Rightarrow> 'k avl_tree \<Rightarrow> 'k avl_tree option" where
  "avl_remove node s = do {
     s \<leftarrow> list_del node s;
     Some (s\<lparr>t_count := t_count s - 1\<rparr>)
   }"

text \<open>Whether the node behind a leader has the same key.\<close>

definition avl_has_dup :: "addr \<Rightarrow> 'k avl_tree \<Rightarrow> bool option" where
  "avl_has_dup node s =
     (if \<not> t_allow_dups s then Some False
      else do {
        e \<leftarrow> list_is_last node (t_head s) s;
        if e then Some False
        else do {
          next \<leftarrow> avl_next node s;
          l \<leftarrow> rd n_leader next s;
          Some (\<not> l)
        }
      })"

definition avl_delete :: "addr \<Rightarrow> 'k avl_tree \<Rightarrow> 'k avl_tree option" where
  "avl_delete node s = do {
     l \<leftarrow> rd n_leader node s;
     s \<leftarrow> (if l then do {
         d \<leftarrow> avl_has_dup node s;
         if d then do {
           next \<leftarrow> avl_next node s;
           s \<leftarrow> wr n_leader_update next True s;
           avl_take_place node next s
         }
         else avl_delete_worker node s
       }
       else Some s);
     avl_remove node s
   }"

end
