(* ===== verification/Avl_Tree.thy ===== *)
theory Avl_Tree
  imports Avl
begin

text \<open>
  The tree part of \<open>avl.c\<close> refines balanced trees of addresses.  \<open>tree_at\<close> relates the links below
  a node to a tree, \<open>path_at\<close> the links around it to a path, the tree with a hole, so that the
  functions that climb along the parent pointers are verified by induction on the path.
\<close>

section \<open>Accessors\<close>

lemma avl_wr:
  "p \<noteq> 0 \<Longrightarrow> wr n_parent_update p x s = Some (s\<lparr>n_parent := (n_parent s)(p := x)\<rparr>)"
  "p \<noteq> 0 \<Longrightarrow> wr n_left_update p x s = Some (s\<lparr>n_left := (n_left s)(p := x)\<rparr>)"
  "p \<noteq> 0 \<Longrightarrow> wr n_right_update p x s = Some (s\<lparr>n_right := (n_right s)(p := x)\<rparr>)"
  "p \<noteq> 0 \<Longrightarrow> wr n_balance_update p b s = Some (s\<lparr>n_balance := (n_balance s)(p := b)\<rparr>)"
  "p \<noteq> 0 \<Longrightarrow> wr n_leader_update p f s = Some (s\<lparr>n_leader := (n_leader s)(p := f)\<rparr>)"
  for s :: "'k avl_tree"
  by (cases s, simp add: wr_def)+

lemma avl_rd: "p \<noteq> 0 \<Longrightarrow> rd f p s = Some (f s p)"
  by (simp add: rd_def)

section \<open>Trees and paths in memory\<close>

fun tree_at :: "'k avl_tree \<Rightarrow> addr \<Rightarrow> addr \<Rightarrow> addr tree \<Rightarrow> bool" where
  "tree_at s par p Leaf \<longleftrightarrow> p = 0"
| "tree_at s par p (Node l a r) \<longleftrightarrow> p = a \<and> a \<noteq> 0 \<and> n_parent s a = par \<and>
     tree_at s a (n_left s a) l \<and> tree_at s a (n_right s a) r"

text \<open>In \<open>Lft c a r\<close> the hole is the left child of \<open>a\<close>, whose right subtree is \<open>r\<close>.\<close>

datatype path = Top | Lft path addr "addr tree" | Rgt path addr "addr tree"

fun plug :: "path \<Rightarrow> addr tree \<Rightarrow> addr tree" where
  "plug Top t = t"
| "plug (Lft c a r) t = plug c (Node t a r)"
| "plug (Rgt c a l) t = plug c (Node l a t)"

fun path_at :: "'k avl_tree \<Rightarrow> addr \<Rightarrow> addr \<Rightarrow> path \<Rightarrow> bool" where
  "path_at s par hole Top \<longleftrightarrow> par = 0 \<and> t_root s = hole"
| "path_at s par hole (Lft c a r) \<longleftrightarrow> par = a \<and> a \<noteq> 0 \<and> n_left s a = hole \<and>
     tree_at s a (n_right s a) r \<and> path_at s (n_parent s a) a c"
| "path_at s par hole (Rgt c a l) \<longleftrightarrow> par = a \<and> a \<noteq> 0 \<and> n_right s a = hole \<and>
     tree_at s a (n_left s a) l \<and> path_at s (n_parent s a) a c"

fun set_path :: "path \<Rightarrow> addr set" where
  "set_path Top = {}"
| "set_path (Lft c a r) = insert a (set_tree r \<union> set_path c)"
| "set_path (Rgt c a l) = insert a (set_tree l \<union> set_path c)"

fun before :: "path \<Rightarrow> addr list" where
  "before Top = []"
| "before (Lft c a r) = before c"
| "before (Rgt c a l) = before c @ inorder l @ [a]"

fun after :: "path \<Rightarrow> addr list" where
  "after Top = []"
| "after (Lft c a r) = a # inorder r @ after c"
| "after (Rgt c a l) = after c"

lemma inorder_plug: "inorder (plug c t) = before c @ inorder t @ after c"
  by (induction c arbitrary: t) auto

lemma set_path: "set_path c = set (before c) \<union> set (after c)"
  by (induction c) auto

lemma tree_at_plug:
  "tree_at s 0 (t_root s) (plug c t) \<longleftrightarrow> (\<exists>par hole. path_at s par hole c \<and> tree_at s par hole t)"
  by (induction c arbitrary: t) auto

fun below :: "path \<Rightarrow> path \<Rightarrow> path" where
  "below c Top = c"
| "below c (Lft d a r) = Lft (below c d) a r"
| "below c (Rgt d a l) = Rgt (below c d) a l"

lemma plug_below: "plug (below c d) t = plug c (plug d t)"
  by (induction d arbitrary: t) auto

lemma before_below: "before (below c d) = before c @ before d" "after (below c d) = after d @ after c"
  by (induction d) auto

lemma ex_plug: "a \<in> set_tree t \<Longrightarrow> \<exists>c l r. t = plug c (Node l a r)"
proof (induction t)
  case (Node l x r)
  consider "a = x" | "a \<in> set_tree l" | "a \<in> set_tree r" using Node.prems by auto
  then show ?case
  proof cases
    case 1
    then have "Node l x r = plug Top (Node l a r)" by simp
    then show ?thesis by blast
  next
    case 2
    with Node.IH(1) obtain c l' r' where "l = plug c (Node l' a r')" by blast
    then have "Node l x r = plug (below (Lft Top x r) c) (Node l' a r')" by (simp add: plug_below)
    then show ?thesis by blast
  next
    case 3
    with Node.IH(2) obtain c l' r' where "r = plug c (Node l' a r')" by blast
    then have "Node l x r = plug (below (Rgt Top x l) c) (Node l' a r')" by (simp add: plug_below)
    then show ?thesis by blast
  qed
qed simp

text \<open>What the links of a tree and of a path depend on.\<close>

definition same_links :: "addr set \<Rightarrow> 'k avl_tree \<Rightarrow> 'k avl_tree \<Rightarrow> bool" where
  "same_links A s s' \<longleftrightarrow> (\<forall>a \<in> A. n_parent s' a = n_parent s a \<and> n_left s' a = n_left s a \<and> n_right s' a = n_right s a)"

definition same_rest :: "'k avl_tree \<Rightarrow> 'k avl_tree \<Rightarrow> bool" where
  "same_rest s s' \<longleftrightarrow> l_next s' = l_next s \<and> l_prev s' = l_prev s \<and> n_key s' = n_key s \<and> n_leader s' = n_leader s \<and>
     t_head s' = t_head s \<and> t_count s' = t_count s \<and> t_allow_dups s' = t_allow_dups s"

lemma same_rest_trans: "same_rest s s' \<Longrightarrow> same_rest s' s'' \<Longrightarrow> same_rest s s''"
  by (simp add: same_rest_def)

lemma same_links_mono: "same_links A s s' \<Longrightarrow> B \<subseteq> A \<Longrightarrow> same_links B s s'"
  by (auto simp: same_links_def)

lemma tree_cong: "same_links (set_tree t) s s' \<Longrightarrow> tree_at s' par p t = tree_at s par p t"
  by (induction t arbitrary: par p) (auto simp: same_links_def)

lemma path_cong: "same_links (set_path c) s s' \<Longrightarrow> t_root s' = t_root s \<Longrightarrow> path_at s' par hole c = path_at s par hole c"
proof (induction c arbitrary: par hole)
  case (Lft c a r)
  moreover have "same_links (set_tree r) s s'" "same_links (set_path c) s s'" using Lft.prems(1) by (auto simp: same_links_def)
  ultimately show ?case using tree_cong [of r s s'] by (auto simp: same_links_def)
next
  case (Rgt c a l)
  moreover have "same_links (set_tree l) s s'" "same_links (set_path c) s s'" using Rgt.prems(1) by (auto simp: same_links_def)
  ultimately show ?case using tree_cong [of l s s'] by (auto simp: same_links_def)
qed simp

lemma tree_root: "tree_at s par p t \<Longrightarrow> (p = 0 \<and> t = Leaf) \<or> (p \<noteq> 0 \<and> p \<in> set_tree t \<and> n_parent s p = par)"
  by (cases t) auto

lemma tree_nonzero: "tree_at s par p t \<Longrightarrow> 0 \<notin> set_tree t"
  by (induction t arbitrary: par p) auto

text \<open>A subtree gets another parent.\<close>

lemma tree_reroot:
  assumes "tree_at s par p t" "same_links (set_tree t - {p}) s s'" "p \<noteq> 0 \<longrightarrow> n_left s' p = n_left s p \<and> n_right s' p = n_right s p \<and> n_parent s' p = par'"
    and "distinct (inorder t)"
  shows "tree_at s' par' p t"
proof (cases t)
  case (Node l a r)
  have "same_links (set_tree l) s s'" "same_links (set_tree r) s s'"
    using assms(1,2,4) by (auto simp: Node same_links_def)
  with assms(1,3) show ?thesis by (simp add: Node tree_cong)
qed (use assms in simp)

text \<open>Another subtree is hung into the hole.\<close>

lemma avl_set_child_path:
  assumes "path_at s par hole c" "hole \<noteq> 0" "hole \<notin> set_path c" "distinct (before c @ after c)"
  shows "\<exists>s'. avl_set_child par hole new s = Some s' \<and> path_at s' par new c \<and> same_links (- set_path c) s s' \<and>
    n_parent s' = n_parent s \<and> n_balance s' = n_balance s \<and> same_rest s s'"
proof (cases c)
  case Top
  then show ?thesis using assms by (auto simp: avl_set_child_def same_links_def same_rest_def)
next
  case (Lft d a r)
  let ?s = "s\<lparr>n_left := (n_left s)(a := new)\<rparr>"
  have "same_links (set_tree r) s ?s" "same_links (set_path d) s ?s"
    using assms(4) by (auto simp: Lft same_links_def set_path)
  then have "path_at ?s par new c" using assms(1) by (simp add: Lft tree_cong path_cong)
  then show ?thesis using assms(1)
    by (auto simp: avl_set_child_def Lft avl_rd avl_wr same_links_def same_rest_def)
next
  case (Rgt d a l)
  let ?s = "s\<lparr>n_right := (n_right s)(a := new)\<rparr>"
  have "same_links (set_tree l) s ?s" "same_links (set_path d) s ?s"
    using assms(4) by (auto simp: Rgt same_links_def set_path)
  then have "path_at ?s par new c" using assms(1) by (simp add: Rgt tree_cong path_cong)
  moreover have "n_left s a \<noteq> hole" using assms(1-3) tree_root [of s a "n_left s a" l] by (auto simp: Rgt)
  ultimately show ?thesis using assms(1)
    by (auto simp: avl_set_child_def Rgt avl_rd avl_wr same_links_def same_rest_def)
qed

section \<open>Rotations\<close>

lemma avl_rotate_right_at:
  assumes path: "path_at s par y c" and tree: "tree_at s par y (Node (Node A x B) y D)"
    and dist: "distinct (inorder (plug c (Node (Node A x B) y D)))"
  shows "\<exists>s'. avl_rotate_right y s = Some s' \<and> path_at s' par x c \<and> tree_at s' par x (Node A x (Node B y D)) \<and>
    n_balance s' = (let b = (n_balance s)(y := n_balance s y + (1 - avl_min (n_balance s x) 0))
      in b(x := b x + (1 + avl_max (b y) 0))) \<and> same_rest s s'"
proof -
  define q where "q = n_right s x"
  have nz: "y \<noteq> 0" "x \<noteq> 0" "n_left s y = x" "n_parent s y = par" using tree by auto
  have sub: "tree_at s x (n_left s x) A" "tree_at s x q B" "tree_at s y (n_right s y) D" using tree by (auto simp: q_def)
  have out: "x \<notin> set_path c" "y \<notin> set_path c" "x \<noteq> y" "x \<notin> set_tree A \<union> set_tree B \<union> set_tree D"
      "y \<notin> set_tree A \<union> set_tree B \<union> set_tree D" "set_tree B \<inter> (set_tree A \<union> set_tree D \<union> set_path c) = {}"
      "(set_tree A \<union> set_tree D) \<inter> set_path c = {}" "distinct (inorder B)" "distinct (before c @ after c)"
    using dist by (auto simp: inorder_plug set_path)
  have q: "q = 0 \<and> B = Leaf \<or> q \<noteq> 0 \<and> q \<in> set_tree B" using tree_root [OF sub(2)] by auto
  let ?s1 = "s\<lparr>n_parent := (n_parent s)(x := par, y := x)\<rparr>"
  have "same_links (set_path c) s ?s1" using out by (auto simp: same_links_def)
  then have "path_at ?s1 par y c" using path by (simp add: path_cong)
  from avl_set_child_path [OF this nz(1) out(2,9), of x] obtain s2 where s2:
    "avl_set_child par y x ?s1 = Some s2" "path_at s2 par x c" "same_links (- set_path c) ?s1 s2"
    "n_parent s2 = n_parent ?s1" "n_balance s2 = n_balance s" "same_rest ?s1 s2" by auto
  have same: "n_left s2 a = n_left s a" "n_right s2 a = n_right s a" if "a \<notin> set_path c" for a
    using s2(3) that by (auto simp: same_links_def)
  let ?b = "(n_balance s)(y := n_balance s y + (1 - avl_min (n_balance s x) 0))"
  define s3 where "s3 = s2\<lparr>n_left := (n_left s2)(y := q), n_right := (n_right s2)(x := y),
    n_parent := (if q \<noteq> 0 then (n_parent s2)(q := y) else n_parent s2), n_balance := ?b(x := ?b x + (1 + avl_max (?b y) 0))\<rparr>"
  have s3: "n_left s3 = (n_left s2)(y := q)" "n_right s3 = (n_right s2)(x := y)"
      "n_parent s3 = (if q \<noteq> 0 then (n_parent s)(x := par, y := x, q := y) else (n_parent s)(x := par, y := x))"
      "t_root s3 = t_root s2"
    using s2(4) by (auto simp: s3_def)
  have "avl_rotate_right y s = Some s3"
    using nz out s2(1,5) same(2) [OF out(1)] by (auto simp: avl_rotate_right_def avl_rd avl_wr q_def s3_def)
  moreover have "path_at s3 par x c"
  proof -
    have "same_links (set_path c) s2 s3" using out q s2(4) by (auto simp: same_links_def s3)
    with s2(2) s3(4) show ?thesis by (simp add: path_cong)
  qed
  moreover have "tree_at s3 par x (Node A x (Node B y D))"
  proof -
    have "same_links (set_tree A) s s3" "same_links (set_tree D) s s3" "same_links (set_tree B - {q}) s s3"
      using out q same by (auto simp: same_links_def s3)
    moreover have "q \<noteq> 0 \<longrightarrow> n_left s3 q = n_left s q \<and> n_right s3 q = n_right s q \<and> n_parent s3 q = y"
      using out q same by (auto simp: s3)
    ultimately have "tree_at s3 x (n_left s x) A" "tree_at s3 y (n_right s y) D" "tree_at s3 y q B"
      using sub out(8) by (simp_all add: tree_cong tree_reroot)
    moreover have "n_parent s3 x = par" "n_parent s3 y = x" using nz out q by (auto simp: s3)
    ultimately show ?thesis using nz out(3) same [OF out(1)] same [OF out(2)] by (simp add: s3)
  qed
  moreover have "same_rest s s3" using s2(6) by (simp add: same_rest_def s3_def)
  ultimately show ?thesis by (intro exI [of _ s3]) (simp add: Let_def s3_def)
qed

lemma avl_rotate_left_at:
  assumes path: "path_at s par y c" and tree: "tree_at s par y (Node D y (Node B x A))"
    and dist: "distinct (inorder (plug c (Node D y (Node B x A))))"
  shows "\<exists>s'. avl_rotate_left y s = Some s' \<and> path_at s' par x c \<and> tree_at s' par x (Node (Node D y B) x A) \<and>
    n_balance s' = (let b = (n_balance s)(y := n_balance s y - (1 + avl_max (n_balance s x) 0))
      in b(x := b x - (1 - avl_min (b y) 0))) \<and> same_rest s s'"
proof -
  define q where "q = n_left s x"
  have nz: "y \<noteq> 0" "x \<noteq> 0" "n_right s y = x" "n_parent s y = par" using tree by auto
  have sub: "tree_at s x (n_right s x) A" "tree_at s x q B" "tree_at s y (n_left s y) D" using tree by (auto simp: q_def)
  have out: "x \<notin> set_path c" "y \<notin> set_path c" "x \<noteq> y" "x \<notin> set_tree A \<union> set_tree B \<union> set_tree D"
      "y \<notin> set_tree A \<union> set_tree B \<union> set_tree D" "set_tree B \<inter> (set_tree A \<union> set_tree D \<union> set_path c) = {}"
      "(set_tree A \<union> set_tree D) \<inter> set_path c = {}" "distinct (inorder B)" "distinct (before c @ after c)"
    using dist by (auto simp: inorder_plug set_path)
  have q: "q = 0 \<and> B = Leaf \<or> q \<noteq> 0 \<and> q \<in> set_tree B" using tree_root [OF sub(2)] by auto
  let ?s1 = "s\<lparr>n_parent := (n_parent s)(x := par, y := x)\<rparr>"
  have "same_links (set_path c) s ?s1" using out by (auto simp: same_links_def)
  then have "path_at ?s1 par y c" using path by (simp add: path_cong)
  from avl_set_child_path [OF this nz(1) out(2,9), of x] obtain s2 where s2:
    "avl_set_child par y x ?s1 = Some s2" "path_at s2 par x c" "same_links (- set_path c) ?s1 s2"
    "n_parent s2 = n_parent ?s1" "n_balance s2 = n_balance s" "same_rest ?s1 s2" by auto
  have same: "n_right s2 a = n_right s a" "n_left s2 a = n_left s a" if "a \<notin> set_path c" for a
    using s2(3) that by (auto simp: same_links_def)
  let ?b = "(n_balance s)(y := n_balance s y - (1 + avl_max (n_balance s x) 0))"
  define s3 where "s3 = s2\<lparr>n_right := (n_right s2)(y := q), n_left := (n_left s2)(x := y),
    n_parent := (if q \<noteq> 0 then (n_parent s2)(q := y) else n_parent s2), n_balance := ?b(x := ?b x - (1 - avl_min (?b y) 0))\<rparr>"
  have s3: "n_right s3 = (n_right s2)(y := q)" "n_left s3 = (n_left s2)(x := y)"
      "n_parent s3 = (if q \<noteq> 0 then (n_parent s)(x := par, y := x, q := y) else (n_parent s)(x := par, y := x))"
      "t_root s3 = t_root s2"
    using s2(4) by (auto simp: s3_def)
  have "avl_rotate_left y s = Some s3"
    using nz out s2(1,5) same(2) [OF out(1)] by (auto simp: avl_rotate_left_def avl_rd avl_wr q_def s3_def)
  moreover have "path_at s3 par x c"
  proof -
    have "same_links (set_path c) s2 s3" using out q s2(4) by (auto simp: same_links_def s3)
    with s2(2) s3(4) show ?thesis by (simp add: path_cong)
  qed
  moreover have "tree_at s3 par x (Node (Node D y B) x A)"
  proof -
    have "same_links (set_tree A) s s3" "same_links (set_tree D) s s3" "same_links (set_tree B - {q}) s s3"
      using out q same by (auto simp: same_links_def s3)
    moreover have "q \<noteq> 0 \<longrightarrow> n_right s3 q = n_right s q \<and> n_left s3 q = n_left s q \<and> n_parent s3 q = y"
      using out q same by (auto simp: s3)
    ultimately have "tree_at s3 x (n_right s x) A" "tree_at s3 y (n_left s y) D" "tree_at s3 y q B"
      using sub out(8) by (simp_all add: tree_cong tree_reroot)
    moreover have "n_parent s3 x = par" "n_parent s3 y = x" using nz out q by (auto simp: s3)
    ultimately show ?thesis using nz out(3) same [OF out(1)] same [OF out(2)] by (simp add: s3)
  qed
  moreover have "same_rest s s3" using s2(6) by (simp add: same_rest_def s3_def)
  ultimately show ?thesis by (intro exI [of _ s3]) (simp add: Let_def s3_def)
qed

section \<open>Shape and balance\<close>

definition shape :: "'k avl_tree \<Rightarrow> addr tree \<Rightarrow> bool" where
  "shape s T \<longleftrightarrow> tree_at s 0 (t_root s) T \<and> distinct (inorder T)"

text \<open>The stored balance of every node is the difference of the heights of its subtrees, and no
  difference is larger than one.\<close>

fun bf :: "(addr \<Rightarrow> int) \<Rightarrow> addr tree \<Rightarrow> bool" where
  "bf b Leaf \<longleftrightarrow> True"
| "bf b (Node l a r) \<longleftrightarrow> b a = int (height r) - int (height l) \<and> bf b l \<and> bf b r"

fun avl :: "'a tree \<Rightarrow> bool" where
  "avl Leaf \<longleftrightarrow> True"
| "avl (Node l a r) \<longleftrightarrow> height r \<le> height l + 1 \<and> height l \<le> height r + 1 \<and> avl l \<and> avl r"

text \<open>The same for the nodes of a path whose hole has height \<open>h\<close>.\<close>

fun path_bf :: "(addr \<Rightarrow> int) \<Rightarrow> nat \<Rightarrow> path \<Rightarrow> bool" where
  "path_bf b h Top \<longleftrightarrow> True"
| "path_bf b h (Lft c a r) \<longleftrightarrow> b a = int (height r) - int h \<and> bf b r \<and> path_bf b (Suc (max h (height r))) c"
| "path_bf b h (Rgt c a l) \<longleftrightarrow> b a = int h - int (height l) \<and> bf b l \<and> path_bf b (Suc (max (height l) h)) c"

fun path_avl :: "nat \<Rightarrow> path \<Rightarrow> bool" where
  "path_avl h Top \<longleftrightarrow> True"
| "path_avl h (Lft c a r) \<longleftrightarrow> height r \<le> h + 1 \<and> h \<le> height r + 1 \<and> avl r \<and> path_avl (Suc (max h (height r))) c"
| "path_avl h (Rgt c a l) \<longleftrightarrow> height l \<le> h + 1 \<and> h \<le> height l + 1 \<and> avl l \<and> path_avl (Suc (max (height l) h)) c"

definition good :: "'k avl_tree \<Rightarrow> addr tree \<Rightarrow> bool" where
  "good s T \<longleftrightarrow> shape s T \<and> bf (n_balance s) T \<and> avl T"

lemma bf_plug: "bf b (plug c t) \<longleftrightarrow> bf b t \<and> path_bf b (height t) c"
  by (induction c arbitrary: t) auto

lemma avl_plug: "avl (plug c t) \<longleftrightarrow> avl t \<and> path_avl (height t) c"
  by (induction c arbitrary: t) auto

lemma bf_cong: "\<forall>a \<in> set_tree t. b' a = b a \<Longrightarrow> bf b' t = bf b t"
  by (induction t) auto

lemma path_bf_cong: "\<forall>a \<in> set_path c. b' a = b a \<Longrightarrow> path_bf b' h c = path_bf b h c"
proof (induction c arbitrary: h)
  case (Lft c a r)
  then show ?case using bf_cong [of r b' b] by auto
next
  case (Rgt c a l)
  then show ?case using bf_cong [of l b' b] by auto
qed simp

lemma bf_upd [simp]: "a \<notin> set_tree t \<Longrightarrow> bf (b(a := v)) t = bf b t"
  by (rule bf_cong) auto

lemma path_bf_upd [simp]: "a \<notin> set_path c \<Longrightarrow> path_bf (b(a := v)) h c = path_bf b h c"
  by (rule path_bf_cong) auto

lemma shape_plug:
  assumes "shape s (plug c (Node l p r))"
  shows "path_at s (n_parent s p) p c" "tree_at s (n_parent s p) p (Node l p r)"
  using assms by (auto simp: shape_def tree_at_plug)

lemma shape_plugI: "path_at s par p c \<Longrightarrow> tree_at s par p t \<Longrightarrow> distinct (inorder (plug c t)) \<Longrightarrow> shape s (plug c t)"
  by (auto simp: shape_def tree_at_plug)

lemma shape_node:
  assumes "shape s (plug c (Node l p r))"
  shows "p \<noteq> 0" "p \<notin> set_tree l" "p \<notin> set_tree r" "p \<notin> set_path c"
    "n_left s p = 0 \<longleftrightarrow> l = Leaf" "n_right s p = 0 \<longleftrightarrow> r = Leaf" "n_parent s p = 0 \<longleftrightarrow> c = Top"
proof -
  note at = shape_plug [OF assms]
  have d: "distinct (inorder (plug c (Node l p r)))" using assms by (simp add: shape_def)
  show "p \<noteq> 0" using at by simp
  show "p \<notin> set_tree l" "p \<notin> set_tree r" "p \<notin> set_path c" using d by (auto simp: inorder_plug set_path)
  show "n_left s p = 0 \<longleftrightarrow> l = Leaf" "n_right s p = 0 \<longleftrightarrow> r = Leaf" using at(2) by (cases l, auto, cases r, auto)
  show "n_parent s p = 0 \<longleftrightarrow> c = Top" using at(1) by (cases c) auto
qed

lemma shape_child:
  shows "shape s (plug c (Node (Node A x B) y D)) \<Longrightarrow> n_left s y = x \<and> n_parent s x = y"
    and "shape s (plug c (Node D y (Node B x A))) \<Longrightarrow> n_right s y = x \<and> n_parent s x = y \<and> n_left s y \<noteq> x"
proof -
  assume "shape s (plug c (Node (Node A x B) y D))"
  from shape_plug(2) [OF this] show "n_left s y = x \<and> n_parent s x = y" by auto
next
  assume s: "shape s (plug c (Node D y (Node B x A)))"
  have "x \<notin> set_tree D" using s by (auto simp: shape_def inorder_plug)
  then show "n_right s y = x \<and> n_parent s x = y \<and> n_left s y \<noteq> x"
    using shape_plug(2) [OF s] tree_root [of s y "n_left s y" D] by auto
qed

lemma shape_balance [simp]: "shape (s\<lparr>n_balance := b\<rparr>) T = shape s T"
proof -
  have "same_links (set_tree T) s (s\<lparr>n_balance := b\<rparr>)" by (simp add: same_links_def)
  from tree_cong [OF this] show ?thesis by (simp add: shape_def)
qed

lemma same_rest_balance [simp]: "same_rest s (s\<lparr>n_balance := b\<rparr>)"
  by (simp add: same_rest_def)

lemma avl_rotate_right_shape:
  assumes "shape s (plug c (Node (Node A x B) y D))" "bf (n_balance s) (Node (Node A x B) y D)"
  shows "\<exists>s'. avl_rotate_right y s = Some s' \<and> shape s' (plug c (Node A x (Node B y D))) \<and>
    bf (n_balance s') (Node A x (Node B y D)) \<and> (\<forall>a. a \<noteq> x \<and> a \<noteq> y \<longrightarrow> n_balance s' a = n_balance s a) \<and> same_rest s s'"
proof -
  have d: "distinct (inorder (plug c (Node (Node A x B) y D)))" using assms(1) by (simp add: shape_def)
  from avl_rotate_right_at [OF shape_plug [OF assms(1)] d] obtain s' where s':
    "avl_rotate_right y s = Some s'" "path_at s' (n_parent s y) x c" "tree_at s' (n_parent s y) x (Node A x (Node B y D))"
    "n_balance s' = (let b = (n_balance s)(y := n_balance s y + (1 - avl_min (n_balance s x) 0))
      in b(x := b x + (1 + avl_max (b y) 0)))" "same_rest s s'" by blast
  have out: "x \<noteq> y" "x \<notin> set_tree A \<union> set_tree B \<union> set_tree D" "y \<notin> set_tree A \<union> set_tree B \<union> set_tree D"
    using d by (auto simp: inorder_plug)
  have eq: "n_balance s' a = n_balance s a" if "a \<noteq> x \<and> a \<noteq> y" for a using that by (simp add: s'(4) Let_def)
  have "bf (n_balance s') A" "bf (n_balance s') B" "bf (n_balance s') D"
    using assms(2) out eq bf_cong [of A "n_balance s'" "n_balance s"] bf_cong [of B "n_balance s'" "n_balance s"]
      bf_cong [of D "n_balance s'" "n_balance s"] by fastforce+
  moreover have "n_balance s' y = int (height D) - int (height B)"
    "n_balance s' x = int (height (Node B y D)) - int (height A)"
    using assms(2) out(1) by (simp_all add: s'(4) Let_def avl_min_def avl_max_def max_def)
  ultimately have "bf (n_balance s') (Node A x (Node B y D))" by simp
  moreover have "shape s' (plug c (Node A x (Node B y D)))"
    using shape_plugI [OF s'(2,3)] d by (simp add: inorder_plug)
  ultimately show ?thesis using s'(1,5) eq by blast
qed

lemma avl_rotate_left_shape:
  assumes "shape s (plug c (Node D y (Node B x A)))" "bf (n_balance s) (Node D y (Node B x A))"
  shows "\<exists>s'. avl_rotate_left y s = Some s' \<and> shape s' (plug c (Node (Node D y B) x A)) \<and>
    bf (n_balance s') (Node (Node D y B) x A) \<and> (\<forall>a. a \<noteq> x \<and> a \<noteq> y \<longrightarrow> n_balance s' a = n_balance s a) \<and> same_rest s s'"
proof -
  have d: "distinct (inorder (plug c (Node D y (Node B x A))))" using assms(1) by (simp add: shape_def)
  from avl_rotate_left_at [OF shape_plug [OF assms(1)] d] obtain s' where s':
    "avl_rotate_left y s = Some s'" "path_at s' (n_parent s y) x c" "tree_at s' (n_parent s y) x (Node (Node D y B) x A)"
    "n_balance s' = (let b = (n_balance s)(y := n_balance s y - (1 + avl_max (n_balance s x) 0))
      in b(x := b x - (1 - avl_min (b y) 0)))" "same_rest s s'" by blast
  have out: "x \<noteq> y" "x \<notin> set_tree A \<union> set_tree B \<union> set_tree D" "y \<notin> set_tree A \<union> set_tree B \<union> set_tree D"
    using d by (auto simp: inorder_plug)
  have eq: "n_balance s' a = n_balance s a" if "a \<noteq> x \<and> a \<noteq> y" for a using that by (simp add: s'(4) Let_def)
  have "bf (n_balance s') A" "bf (n_balance s') B" "bf (n_balance s') D"
    using assms(2) out eq bf_cong [of A "n_balance s'" "n_balance s"] bf_cong [of B "n_balance s'" "n_balance s"]
      bf_cong [of D "n_balance s'" "n_balance s"] by fastforce+
  moreover have "n_balance s' y = int (height B) - int (height D)"
    "n_balance s' x = int (height A) - int (height (Node D y B))"
    using assms(2) out(1) by (simp_all add: s'(4) Let_def avl_min_def avl_max_def max_def)
  ultimately have "bf (n_balance s') (Node (Node D y B) x A)" by simp
  moreover have "shape s' (plug c (Node (Node D y B) x A))"
    using shape_plugI [OF s'(2,3)] d by (simp add: inorder_plug)
  ultimately show ?thesis using s'(1,5) eq by blast
qed

lemma avl_double_right_shape:
  assumes "shape s (plug c (Node (Node A x (Node B z C)) y D))" "bf (n_balance s) (Node (Node A x (Node B z C)) y D)"
    and "height (Node (Node A x B) z C) = height (Node A x (Node B z C))"
  shows "\<exists>s1 s'. avl_rotate_left x s = Some s1 \<and> avl_rotate_right y s1 = Some s' \<and> avl_double_right x s = Some s' \<and>
    shape s' (plug c (Node (Node A x B) z (Node C y D))) \<and>
    bf (n_balance s') (Node (Node A x B) z (Node C y D)) \<and>
    (\<forall>a. a \<noteq> x \<and> a \<noteq> y \<and> a \<noteq> z \<longrightarrow> n_balance s' a = n_balance s a) \<and> same_rest s s'"
proof -
  have "shape s (plug (Lft c y D) (Node A x (Node B z C)))" "bf (n_balance s) (Node A x (Node B z C))" using assms by auto
  from avl_rotate_left_shape [OF this] obtain s1 where s1:
    "avl_rotate_left x s = Some s1" "shape s1 (plug (Lft c y D) (Node (Node A x B) z C))"
    "bf (n_balance s1) (Node (Node A x B) z C)" "\<forall>a. a \<noteq> z \<and> a \<noteq> x \<longrightarrow> n_balance s1 a = n_balance s a" "same_rest s s1"
    by blast
  have d: "y \<noteq> z" "y \<noteq> x" "x \<notin> set_tree D" "z \<notin> set_tree D"
    using assms(1) by (auto simp: shape_def inorder_plug)
  have "bf (n_balance s1) D" using assms(2) d s1(4) bf_cong [of D "n_balance s1" "n_balance s"] by fastforce
  moreover have "n_balance s1 y = n_balance s y" using d s1(4) by simp
  ultimately have bf: "bf (n_balance s1) (Node (Node (Node A x B) z C) y D)" using assms(2,3) s1(3) by simp
  have sh: "shape s1 (plug c (Node (Node (Node A x B) z C) y D))" using s1(2) by simp
  from avl_rotate_right_shape [OF sh bf] obtain s' where s':
    "avl_rotate_right y s1 = Some s'" "shape s' (plug c (Node (Node A x B) z (Node C y D)))"
    "bf (n_balance s') (Node (Node A x B) z (Node C y D))" "\<forall>a. a \<noteq> z \<and> a \<noteq> y \<longrightarrow> n_balance s' a = n_balance s1 a"
    "same_rest s1 s'" by blast
  have "x \<noteq> 0" "z \<noteq> 0" using shape_node(1) [of s "Lft c y D" A x "Node B z C"] shape_node(1) [of s "Rgt (Lft c y D) x A" B z C] assms(1) by auto
  moreover have "n_parent s1 x = z" "n_parent s1 z = y"
    using shape_child(1) [of s1 "Lft c y D" A x B z C] shape_child(1) [OF sh] s1(2) by auto
  ultimately have "avl_double_right x s = Some s'" using s1(1) s'(1) by (simp add: avl_double_right_def avl_rd)
  moreover have "\<forall>a. a \<noteq> x \<and> a \<noteq> y \<and> a \<noteq> z \<longrightarrow> n_balance s' a = n_balance s a" using s1(4) s'(4) by simp
  ultimately show ?thesis using s1(1) s'(1,2,3) same_rest_trans [OF s1(5) s'(5)] by blast
qed

lemma avl_double_left_shape:
  assumes "shape s (plug c (Node D y (Node (Node C z B) x A)))" "bf (n_balance s) (Node D y (Node (Node C z B) x A))"
    and "height (Node C z (Node B x A)) = height (Node (Node C z B) x A)"
  shows "\<exists>s1 s'. avl_rotate_right x s = Some s1 \<and> avl_rotate_left y s1 = Some s' \<and> avl_double_left x s = Some s' \<and>
    shape s' (plug c (Node (Node D y C) z (Node B x A))) \<and>
    bf (n_balance s') (Node (Node D y C) z (Node B x A)) \<and>
    (\<forall>a. a \<noteq> x \<and> a \<noteq> y \<and> a \<noteq> z \<longrightarrow> n_balance s' a = n_balance s a) \<and> same_rest s s'"
proof -
  have "shape s (plug (Rgt c y D) (Node (Node C z B) x A))" "bf (n_balance s) (Node (Node C z B) x A)" using assms by auto
  from avl_rotate_right_shape [OF this] obtain s1 where s1:
    "avl_rotate_right x s = Some s1" "shape s1 (plug (Rgt c y D) (Node C z (Node B x A)))"
    "bf (n_balance s1) (Node C z (Node B x A))" "\<forall>a. a \<noteq> z \<and> a \<noteq> x \<longrightarrow> n_balance s1 a = n_balance s a" "same_rest s s1"
    by blast
  have d: "y \<noteq> z" "y \<noteq> x" "x \<notin> set_tree D" "z \<notin> set_tree D"
    using assms(1) by (auto simp: shape_def inorder_plug)
  have "bf (n_balance s1) D" using assms(2) d s1(4) bf_cong [of D "n_balance s1" "n_balance s"] by fastforce
  moreover have "n_balance s1 y = n_balance s y" using d s1(4) by simp
  ultimately have bf: "bf (n_balance s1) (Node D y (Node C z (Node B x A)))" using assms(2,3) s1(3) by simp
  have sh: "shape s1 (plug c (Node D y (Node C z (Node B x A))))" using s1(2) by simp
  from avl_rotate_left_shape [OF sh bf] obtain s' where s':
    "avl_rotate_left y s1 = Some s'" "shape s' (plug c (Node (Node D y C) z (Node B x A)))"
    "bf (n_balance s') (Node (Node D y C) z (Node B x A))" "\<forall>a. a \<noteq> z \<and> a \<noteq> y \<longrightarrow> n_balance s' a = n_balance s1 a"
    "same_rest s1 s'" by blast
  have "x \<noteq> 0" "z \<noteq> 0" using shape_node(1) [of s "Rgt c y D" "Node C z B" x A] shape_node(1) [of s "Lft (Rgt c y D) x A" C z B] assms(1) by auto
  moreover have "n_parent s1 x = z" "n_parent s1 z = y"
    using shape_child(2) [of s1 "Rgt c y D" C z B x A] shape_child(2) [OF sh] s1(2) by auto
  ultimately have "avl_double_left x s = Some s'" using s1(1) s'(1) by (simp add: avl_double_left_def avl_rd)
  moreover have "\<forall>a. a \<noteq> x \<and> a \<noteq> y \<and> a \<noteq> z \<longrightarrow> n_balance s' a = n_balance s a" using s1(4) s'(4) by simp
  ultimately show ?thesis using s1(1) s'(1,2,3) same_rest_trans [OF s1(5) s'(5)] by blast
qed

section \<open>Climbing after an insertion\<close>

text \<open>The balance of the parent is adjusted to the new height of the child.\<close>

lemma good_up:
  assumes "shape s (plug c t)" "bf (n_balance s) t" "avl t" "path_bf (n_balance s) (height t) c" "path_avl (height t) c"
  shows "good s (plug c t)"
  using assms by (simp add: good_def bf_plug avl_plug)

lemma good_at:
  "shape s (plug c t) \<Longrightarrow> bf (n_balance s) t \<Longrightarrow> avl t \<Longrightarrow> height t = k \<Longrightarrow> path_bf (n_balance s) k c \<Longrightarrow> path_avl k c \<Longrightarrow>
    good s (plug c t)"
  by (auto intro: good_up)

text \<open>An operation \<open>f\<close> that restores the invariant of the whole tree and keeps its entries.\<close>

definition restores :: "'k avl_tree option \<Rightarrow> 'k avl_tree \<Rightarrow> addr list \<Rightarrow> bool" where
  "restores r s xs \<longleftrightarrow> (\<exists>s' T. r = Some s' \<and> good s' T \<and> inorder T = xs \<and> same_rest s s')"

lemma restoresI: "r = Some s' \<Longrightarrow> good s' T \<Longrightarrow> inorder T = xs \<Longrightarrow> same_rest s s' \<Longrightarrow> restores r s xs"
  by (auto simp: restores_def)

lemma restores_same: "restores r s1 xs \<Longrightarrow> same_rest s s1 \<Longrightarrow> restores r s xs"
  by (auto simp: restores_def intro: same_rest_trans)

lemma grown_left_restores:
  assumes sh: "shape s (plug d (Node (Node l p r) a R))" and bf: "bf (n_balance s) (Node (Node l p r) a R)"
    and avl: "avl (Node l p r)" "avl R" and h: "height (Node l p r) = height R + 2" "height l \<noteq> height r"
    and path: "path_bf (n_balance s) (height R + 2) d" "path_avl (height R + 2) d"
  shows "restores (if n_balance s p = - 1 then avl_rotate_right a s else avl_double_right p s) s
    (inorder (plug d (Node (Node l p r) a R)))"
proof -
  have out: "{p, a} \<inter> set_path d = {}" "set_tree r \<inter> set_path d = {}" using sh by (auto simp: shape_def inorder_plug set_path)
  consider "height l = height R + 1" "height r = height R"
    | B x C where "height l = height R" "height r = height R + 1" "r = Node B x C"
    using h avl by (cases r) (auto simp: max_def split: if_splits)
  then show ?thesis
  proof cases
    case 1
    obtain s' where s': "avl_rotate_right a s = Some s'" "shape s' (plug d (Node l p (Node r a R)))"
      "bf (n_balance s') (Node l p (Node r a R))" "\<forall>b. b \<noteq> p \<and> b \<noteq> a \<longrightarrow> n_balance s' b = n_balance s b" "same_rest s s'"
      using avl_rotate_right_shape [OF sh bf] by blast
    have "path_bf (n_balance s') k d = path_bf (n_balance s) k d" for k using s'(4) out by (intro path_bf_cong) auto
    then have "good s' (plug d (Node l p (Node r a R)))" using s'(2,3) 1 avl path by (intro good_up) (auto simp: max_def)
    moreover have "n_balance s p = - 1" using bf 1 by simp
    ultimately show ?thesis using s'(1,5) by (intro restoresI [of _ s']) (auto simp: inorder_plug)
  next
    case 2
    have eqh: "height (Node (Node l p B) x C) = height (Node l p (Node B x C))" using 2 avl(1) by (auto simp: max_def split: if_splits)
    obtain s' where s': "avl_double_right p s = Some s'" "shape s' (plug d (Node (Node l p B) x (Node C a R)))"
      "bf (n_balance s') (Node (Node l p B) x (Node C a R))"
      "\<forall>b. b \<noteq> p \<and> b \<noteq> a \<and> b \<noteq> x \<longrightarrow> n_balance s' b = n_balance s b" "same_rest s s'"
      using avl_double_right_shape [OF sh [unfolded 2(3)] bf [unfolded 2(3)] eqh] by blast
    have "path_bf (n_balance s') k d = path_bf (n_balance s) k d" for k using s'(4) out 2(3) by (intro path_bf_cong) auto
    then have pb: "path_bf (n_balance s') (height R + 2) d" using path(1) by simp
    have hs: "max (height B) (height C) = height R" "height B \<le> height C + 1" "height C \<le> height B + 1" "avl B" "avl C" "avl l"
      using 2(2,3) avl(1) by auto
    then have "avl (Node (Node l p B) x (Node C a R))" "height (Node (Node l p B) x (Node C a R)) = height R + 2"
      using 2(1) avl(2) by auto
    then have "good s' (plug d (Node (Node l p B) x (Node C a R)))"
      using good_at [OF s'(2,3) _ _ pb path(2)] by blast
    moreover have "n_balance s p = 1" using bf 2 by simp
    ultimately show ?thesis using s'(1,5) by (intro restoresI [of _ s']) (auto simp: inorder_plug 2(3))
  qed
qed

lemma grown_right_restores:
  assumes sh: "shape s (plug d (Node R a (Node l p r)))" and bf: "bf (n_balance s) (Node R a (Node l p r))"
    and avl: "avl (Node l p r)" "avl R" and h: "height (Node l p r) = height R + 2" "height l \<noteq> height r"
    and path: "path_bf (n_balance s) (height R + 2) d" "path_avl (height R + 2) d"
  shows "restores (if n_balance s p = 1 then avl_rotate_left a s else avl_double_left p s) s
    (inorder (plug d (Node R a (Node l p r))))"
proof -
  have out: "{p, a} \<inter> set_path d = {}" "set_tree l \<inter> set_path d = {}" using sh by (auto simp: shape_def inorder_plug set_path)
  consider "height r = height R + 1" "height l = height R"
    | B x C where "height r = height R" "height l = height R + 1" "l = Node B x C"
    using h avl by (cases l) (auto simp: max_def split: if_splits)
  then show ?thesis
  proof cases
    case 1
    obtain s' where s': "avl_rotate_left a s = Some s'" "shape s' (plug d (Node (Node R a l) p r))"
      "bf (n_balance s') (Node (Node R a l) p r)" "\<forall>b. b \<noteq> p \<and> b \<noteq> a \<longrightarrow> n_balance s' b = n_balance s b" "same_rest s s'"
      using avl_rotate_left_shape [OF sh bf] by blast
    have "path_bf (n_balance s') k d = path_bf (n_balance s) k d" for k using s'(4) out by (intro path_bf_cong) auto
    then have "good s' (plug d (Node (Node R a l) p r))" using s'(2,3) 1 avl path by (intro good_up) (auto simp: max_def)
    moreover have "n_balance s p = 1" using bf 1 by simp
    ultimately show ?thesis using s'(1,5) by (intro restoresI [of _ s']) (auto simp: inorder_plug)
  next
    case 2
    have eqh: "height (Node B x (Node C p r)) = height (Node (Node B x C) p r)" using 2 avl(1) by (auto simp: max_def split: if_splits)
    obtain s' where s': "avl_double_left p s = Some s'" "shape s' (plug d (Node (Node R a B) x (Node C p r)))"
      "bf (n_balance s') (Node (Node R a B) x (Node C p r))"
      "\<forall>b. b \<noteq> p \<and> b \<noteq> a \<and> b \<noteq> x \<longrightarrow> n_balance s' b = n_balance s b" "same_rest s s'"
      using avl_double_left_shape [OF sh [unfolded 2(3)] bf [unfolded 2(3)] eqh] by blast
    have "path_bf (n_balance s') k d = path_bf (n_balance s) k d" for k using s'(4) out 2(3) by (intro path_bf_cong) auto
    then have pb: "path_bf (n_balance s') (height R + 2) d" using path(1) by simp
    have hs: "max (height B) (height C) = height R" "height B \<le> height C + 1" "height C \<le> height B + 1" "avl B" "avl C" "avl r"
      using 2(2,3) avl(1) by auto
    then have "avl (Node (Node R a B) x (Node C p r))" "height (Node (Node R a B) x (Node C p r)) = height R + 2"
      using 2(1) avl(2) by auto
    then have "good s' (plug d (Node (Node R a B) x (Node C p r)))"
      using good_at [OF s'(2,3) _ _ pb path(2)] by blast
    moreover have "n_balance s p = - 1" using bf 2 by simp
    ultimately show ?thesis using s'(1,5) by (intro restoresI [of _ s']) (auto simp: inorder_plug 2(3))
  qed
qed

lemma post_insert_restores:
  assumes "shape s (plug c (Node l p r))" "bf (n_balance s) (Node l p r)" "avl (Node l p r)"
    and "path_bf (n_balance s) h c" "path_avl h c" "height (Node l p r) = Suc h" "height l \<noteq> height r"
  shows "restores (post_insert p s) s (inorder (plug c (Node l p r)))"
  using assms
proof (induction c arbitrary: s l p r h)
  case Top
  have "n_parent s p = 0" "p \<noteq> 0" using shape_node(1,7) [OF Top(1)] by auto
  then have "post_insert p s = Some s" by (subst post_insert.simps) (simp add: avl_rd)
  moreover have "good s (Node l p r)" using Top good_up [of s Top "Node l p r"] by simp
  ultimately show ?case by (auto intro: restoresI simp: same_rest_def)
next
  case (Lft d a R)
  let ?t = "Node l p r"
  define s1 where "s1 = s\<lparr>n_balance := (n_balance s)(a := n_balance s a - 1)\<rparr>"
  have sh: "shape s (plug d (Node ?t a R))" using Lft.prems(1) by simp
  have nz: "p \<noteq> 0" "a \<noteq> 0" "n_parent s p = a" "n_left s a = p" and out: "a \<notin> set_tree ?t" "a \<notin> set_tree R" "a \<notin> set_path d"
    using shape_node(1) [OF Lft.prems(1)] shape_node(1-4) [OF sh] shape_child(1) [OF sh] by auto
  have s1: "shape s1 (plug d (Node ?t a R))" "bf (n_balance s1) (Node ?t a R)" "same_rest s s1"
    "path_bf (n_balance s1) (Suc (max h (height R))) d" "path_avl (Suc (max h (height R))) d"
    using sh Lft.prems(2,4-6) out by (simp_all add: s1_def)
  have step: "post_insert p s = (if n_balance s a - 1 = 0 then Some s1 else if n_balance s a - 1 = - 1 then post_insert a s1
      else if n_balance s1 p = - 1 then avl_rotate_right a s1 else avl_double_right p s1)"
    using nz out unfolding s1_def by (subst post_insert.simps) (auto simp: avl_rd avl_wr)
  have h: "avl R" "avl ?t" "height R \<le> h + 1" "h \<le> height R + 1" "n_balance s a = int (height R) - int h" "height ?t = Suc h"
    using Lft.prems(3-6) by auto
  consider "height R = Suc h" | "height R = h" | "h = Suc (height R)" using h(3,4) by linarith
  then have "restores (post_insert p s) s1 (inorder (plug d (Node ?t a R)))"
  proof cases
    case 1
    then have "good s1 (plug d (Node ?t a R))" using s1 h by (intro good_up) (auto simp: max_def)
    then show ?thesis using 1 h step by (intro restoresI [of _ s1]) (auto simp: same_rest_def)
  next
    case 2
    then have "restores (post_insert a s1) s1 (inorder (plug d (Node ?t a R)))"
      using s1 h by (intro Lft.IH [OF s1(1,2), where h = "Suc h"]) (auto simp: max_def)
    then show ?thesis using 2 h step by simp
  next
    case 3
    then show ?thesis using grown_left_restores [OF s1(1,2) h(2,1)] s1(4,5) h Lft.prems(7) step by (simp add: max_def)
  qed
  then show ?case using s1(3) by (auto intro: restores_same)
next
  case (Rgt d a R)
  let ?t = "Node l p r"
  define s1 where "s1 = s\<lparr>n_balance := (n_balance s)(a := n_balance s a + 1)\<rparr>"
  have sh: "shape s (plug d (Node R a ?t))" using Rgt.prems(1) by simp
  have nz: "p \<noteq> 0" "a \<noteq> 0" "n_parent s p = a" "n_left s a \<noteq> p" and out: "a \<notin> set_tree ?t" "a \<notin> set_tree R" "a \<notin> set_path d"
    using shape_node(1) [OF Rgt.prems(1)] shape_node(1-4) [OF sh] shape_child(2) [OF sh] by auto
  have s1: "shape s1 (plug d (Node R a ?t))" "bf (n_balance s1) (Node R a ?t)" "same_rest s s1"
    "path_bf (n_balance s1) (Suc (max (height R) h)) d" "path_avl (Suc (max (height R) h)) d"
    using sh Rgt.prems(2,4-6) out by (simp_all add: s1_def)
  have step: "post_insert p s = (if n_balance s a + 1 = 0 then Some s1 else if n_balance s a + 1 = 1 then post_insert a s1
      else if n_balance s1 p = 1 then avl_rotate_left a s1 else avl_double_left p s1)"
    using nz out unfolding s1_def by (subst post_insert.simps) (auto simp: avl_rd avl_wr)
  have h: "avl R" "avl ?t" "height R \<le> h + 1" "h \<le> height R + 1" "n_balance s a = int h - int (height R)" "height ?t = Suc h"
    using Rgt.prems(3-6) by auto
  consider "height R = Suc h" | "height R = h" | "h = Suc (height R)" using h(3,4) by linarith
  then have "restores (post_insert p s) s1 (inorder (plug d (Node R a ?t)))"
  proof cases
    case 1
    then have "good s1 (plug d (Node R a ?t))" using s1 h by (intro good_up) (auto simp: max_def)
    then show ?thesis using 1 h step by (intro restoresI [of _ s1]) (auto simp: same_rest_def)
  next
    case 2
    then have "restores (post_insert a s1) s1 (inorder (plug d (Node R a ?t)))"
      using s1 h by (intro Rgt.IH [OF s1(1,2), where h = "Suc h"]) (auto simp: max_def)
    then show ?thesis using 2 h step by simp
  next
    case 3
    then show ?thesis using grown_right_restores [OF s1(1,2) h(2,1)] s1(4,5) h Rgt.prems(7) step by (simp add: max_def)
  qed
  then show ?case using s1(3) by (auto intro: restores_same)
qed

section \<open>Climbing after a deletion\<close>

text \<open>What the rotations at a node with balance 2 or -2 leave: whether the subtree has lost a
  level, and that the node is below the new root if it has.\<close>

definition leaned :: "(bool \<times> 'k avl_tree) option \<Rightarrow> 'k avl_tree \<Rightarrow> path \<Rightarrow> addr tree \<Rightarrow> addr \<Rightarrow> nat \<Rightarrow> bool" where
  "leaned r s d t a h \<longleftrightarrow> (\<exists>lower s' l x y. r = Some (lower, s') \<and> shape s' (plug d (Node l x y)) \<and> bf (n_balance s') (Node l x y) \<and>
     avl (Node l x y) \<and> height (Node l x y) = (if lower then h else Suc h) \<and> inorder (Node l x y) = inorder t \<and>
     (\<forall>b. b \<notin> set_tree t \<longrightarrow> n_balance s' b = n_balance s b) \<and> same_rest s s' \<and> n_parent s' a = x)"

lemma leanedI:
  "r = Some (lower, s') \<Longrightarrow> shape s' (plug d (Node l x y)) \<Longrightarrow> bf (n_balance s') (Node l x y) \<Longrightarrow> avl (Node l x y) \<Longrightarrow>
   height (Node l x y) = (if lower then h else Suc h) \<Longrightarrow> inorder (Node l x y) = inorder t \<Longrightarrow>
   (\<And>b. b \<notin> set_tree t \<Longrightarrow> n_balance s' b = n_balance s b) \<Longrightarrow> same_rest s s' \<Longrightarrow> n_parent s' a = x \<Longrightarrow> leaned r s d t a h"
  unfolding leaned_def by blast

lemma avl_lean_right_leaned:
  assumes sh: "shape s (plug d (Node t a R))" and bf: "bf (n_balance s) (Node t a R)"
    and avl: "avl t" "avl R" and h: "height R = height t + 2"
  shows "leaned (avl_lean_right a s) s d (Node t a R) a (height R)"
proof -
  obtain B x C where R: "R = Node B x C" using h by (cases R) auto
  have nz: "a \<noteq> 0" "x \<noteq> 0" "n_right s a = x"
    using shape_node(1) [OF sh] shape_node(1) [of s "Rgt d a t" B x C] shape_child(2) [OF sh [unfolded R]] sh R by auto
  consider "height C = height t + 1" "height B \<in> {height t, height t + 1}" | "height B = height t + 1" "height C = height t"
    using h avl(2) by (fastforce simp: R max_def split: if_splits)
  then show ?thesis
  proof cases
    case 1
    obtain s' where s': "avl_rotate_left a s = Some s'" "shape s' (plug d (Node (Node t a B) x C))"
      "bf (n_balance s') (Node (Node t a B) x C)" "\<forall>b. b \<noteq> x \<and> b \<noteq> a \<longrightarrow> n_balance s' b = n_balance s b" "same_rest s s'"
      using avl_rotate_left_shape [OF sh [unfolded R] bf [unfolded R]] by blast
    have lean: "avl_lean_right a s = Some (height B = height t, s')"
      using 1 nz bf s'(1) by (auto simp: avl_lean_right_def avl_rd R)
    have "n_parent s' a = x" using shape_child(1) [OF s'(2)] by simp
    then show ?thesis using 1 avl by (intro leanedI [OF lean s'(2,3) _ _ _ _ s'(5)]) (use s'(4) in \<open>auto simp: R\<close>)
  next
    case 2
    then obtain B1 z B2 where B: "B = Node B1 z B2" by (cases B) auto
    have hs: "max (height B1) (height B2) = height t" "height B1 \<le> height B2 + 1" "height B2 \<le> height B1 + 1" "avl B1" "avl B2" "avl C"
      using 2 avl(2) by (auto simp: R B)
    then have eqh: "height (Node B1 z (Node B2 x C)) = height (Node (Node B1 z B2) x C)" using 2 by auto
    obtain s1 s' where s': "avl_rotate_right x s = Some s1" "avl_rotate_left a s1 = Some s'"
      "shape s' (plug d (Node (Node t a B1) z (Node B2 x C)))"
      "bf (n_balance s') (Node (Node t a B1) z (Node B2 x C))"
      "\<forall>b. b \<noteq> x \<and> b \<noteq> a \<and> b \<noteq> z \<longrightarrow> n_balance s' b = n_balance s b" "same_rest s s'"
      using avl_double_left_shape [OF sh [unfolded R B] bf [unfolded R B] eqh] by blast
    have lean: "avl_lean_right a s = Some (True, s')"
      using 2 nz bf s'(1,2) by (simp add: avl_lean_right_def avl_rd R)
    have "n_parent s' a = z" using shape_child(1) [OF s'(3)] by simp
    moreover have "avl (Node (Node t a B1) z (Node B2 x C))" "height (Node (Node t a B1) z (Node B2 x C)) = height t + 2"
      using hs 2 avl(1) by auto
    ultimately show ?thesis using h by (intro leanedI [OF lean s'(3,4) _ _ _ _ s'(6)]) (use s'(5) in \<open>auto simp: R B\<close>)
  qed
qed

lemma shrunk_left_restores:
  fixes s :: "'k avl_tree"
  assumes IH: "\<And>(s :: 'k avl_tree) l p r h. shape s (plug d (Node l p r)) \<Longrightarrow> bf (n_balance s) (Node l p r) \<Longrightarrow> avl (Node l p r) \<Longrightarrow>
      path_bf (n_balance s) (Suc h) d \<Longrightarrow> path_avl (Suc h) d \<Longrightarrow> height (Node l p r) = h \<Longrightarrow>
      restores (avl_post_delete p s) s (inorder (plug d (Node l p r)))"
    and sh: "shape s (plug d (Node t a R))" and bf: "bf (n_balance s) (Node t a R)" and avl: "avl t" "avl R"
    and h: "height R \<le> height t + 2" "height t \<le> height R"
    and path: "path_bf (n_balance s) (Suc (max (Suc (height t)) (height R))) d" "path_avl (Suc (max (Suc (height t)) (height R))) d"
  shows "restores (if height R = height t then avl_post_delete a s else if height R = height t + 1 then Some s
    else do { (lower, s) \<leftarrow> avl_lean_right a s;
       if lower then do { pp \<leftarrow> rd n_parent a s; avl_post_delete pp s } else Some s }) s (inorder (plug d (Node t a R)))"
proof -
  consider "height R = height t" | "height R = height t + 1" | "height R = height t + 2" using h by linarith
  then show ?thesis
  proof cases
    case 1
    then show ?thesis using IH [OF sh bf, of "Suc (height t)"] avl path by simp
  next
    case 2
    then have "good s (plug d (Node t a R))" using path avl by (intro good_at [OF sh bf]) auto
    then show ?thesis using 2 by (auto intro: restoresI simp: same_rest_def)
  next
    case 3
    from avl_lean_right_leaned [OF sh bf avl 3] obtain lower s' l x r where s':
      "avl_lean_right a s = Some (lower, s')" "shape s' (plug d (Node l x r))" "bf (n_balance s') (Node l x r)" "avl (Node l x r)"
      "height (Node l x r) = (if lower then height R else Suc (height R))" "inorder (Node l x r) = inorder (Node t a R)"
      "\<forall>b. b \<notin> set_tree (Node t a R) \<longrightarrow> n_balance s' b = n_balance s b" "same_rest s s'" "n_parent s' a = x"
      unfolding leaned_def by blast
    have "set_tree (Node t a R) \<inter> set_path d = {}" using sh by (auto simp: shape_def inorder_plug set_path)
    then have "path_bf (n_balance s') k d = path_bf (n_balance s) k d" for k using s'(7) by (intro path_bf_cong) auto
    then have pb: "path_bf (n_balance s') (Suc (height R)) d" "path_avl (Suc (height R)) d" using path 3 by auto
    have "restores (if lower then avl_post_delete x s' else Some s') s' (inorder (plug d (Node l x r)))"
    proof (cases lower)
      case True
      then show ?thesis using IH [OF s'(2,3,4) pb] s'(5) by simp
    next
      case False
      then have "good s' (plug d (Node l x r))" using pb s'(5) by (intro good_at [OF s'(2,3,4)]) auto
      then show ?thesis using False by (auto intro: restoresI simp: same_rest_def)
    qed
    moreover have "inorder (plug d (Node l x r)) = inorder (plug d (Node t a R))" using s'(6) by (simp only: inorder_plug)
    ultimately have "restores (if lower then avl_post_delete x s' else Some s') s (inorder (plug d (Node t a R)))"
      using restores_same [OF _ s'(8)] by simp
    then show ?thesis using 3 s'(1,9) shape_node(1) [OF sh] by (cases lower) (simp_all add: avl_rd)
  qed
qed

lemma avl_lean_left_leaned:
  assumes sh: "shape s (plug d (Node R a t))" and bf: "bf (n_balance s) (Node R a t)"
    and avl: "avl t" "avl R" and h: "height R = height t + 2"
  shows "leaned (avl_lean_left a s) s d (Node R a t) a (height R)"
proof -
  obtain B x C where R: "R = Node C x B" using h by (cases R) auto
  have nz: "a \<noteq> 0" "x \<noteq> 0" "n_left s a = x"
    using shape_node(1) [OF sh] shape_node(1) [of s "Lft d a t" C x B] shape_child(1) [OF sh [unfolded R]] sh R by auto
  consider "height C = height t + 1" "height B \<in> {height t, height t + 1}" | "height B = height t + 1" "height C = height t"
    using h avl(2) by (fastforce simp: R max_def split: if_splits)
  then show ?thesis
  proof cases
    case 1
    obtain s' where s': "avl_rotate_right a s = Some s'" "shape s' (plug d (Node C x (Node B a t)))"
      "bf (n_balance s') (Node C x (Node B a t))" "\<forall>b. b \<noteq> x \<and> b \<noteq> a \<longrightarrow> n_balance s' b = n_balance s b" "same_rest s s'"
      using avl_rotate_right_shape [OF sh [unfolded R] bf [unfolded R]] by blast
    have lean: "avl_lean_left a s = Some (height B = height t, s')"
      using 1 nz bf s'(1) by (auto simp: avl_lean_left_def avl_rd R)
    have "n_parent s' a = x" using shape_child(2) [OF s'(2)] by simp
    then show ?thesis using 1 avl by (intro leanedI [OF lean s'(2,3) _ _ _ _ s'(5)]) (use s'(4) in \<open>auto simp: R\<close>)
  next
    case 2
    then obtain B1 z B2 where B: "B = Node B2 z B1" by (cases B) auto
    have hs: "max (height B1) (height B2) = height t" "height B1 \<le> height B2 + 1" "height B2 \<le> height B1 + 1" "avl B1" "avl B2" "avl C"
      using 2 avl(2) by (auto simp: R B)
    then have eqh: "height (Node (Node C x B2) z B1) = height (Node C x (Node B2 z B1))" using 2 by auto
    obtain s1 s' where s': "avl_rotate_left x s = Some s1" "avl_rotate_right a s1 = Some s'"
      "shape s' (plug d (Node (Node C x B2) z (Node B1 a t)))"
      "bf (n_balance s') (Node (Node C x B2) z (Node B1 a t))"
      "\<forall>b. b \<noteq> x \<and> b \<noteq> a \<and> b \<noteq> z \<longrightarrow> n_balance s' b = n_balance s b" "same_rest s s'"
      using avl_double_right_shape [OF sh [unfolded R B] bf [unfolded R B] eqh] by blast
    have lean: "avl_lean_left a s = Some (True, s')"
      using 2 nz bf s'(1,2) by (simp add: avl_lean_left_def avl_rd R)
    have "n_parent s' a = z" using shape_child(2) [OF s'(3)] by simp
    moreover have "avl (Node (Node C x B2) z (Node B1 a t))" "height (Node (Node C x B2) z (Node B1 a t)) = height t + 2"
      using hs 2 avl(1) by auto
    ultimately show ?thesis using h by (intro leanedI [OF lean s'(3,4) _ _ _ _ s'(6)]) (use s'(5) in \<open>auto simp: R B\<close>)
  qed
qed

lemma shrunk_right_restores:
  fixes s :: "'k avl_tree"
  assumes IH: "\<And>(s :: 'k avl_tree) l p r h. shape s (plug d (Node l p r)) \<Longrightarrow> bf (n_balance s) (Node l p r) \<Longrightarrow> avl (Node l p r) \<Longrightarrow>
      path_bf (n_balance s) (Suc h) d \<Longrightarrow> path_avl (Suc h) d \<Longrightarrow> height (Node l p r) = h \<Longrightarrow>
      restores (avl_post_delete p s) s (inorder (plug d (Node l p r)))"
    and sh: "shape s (plug d (Node R a t))" and bf: "bf (n_balance s) (Node R a t)" and avl: "avl t" "avl R"
    and h: "height R \<le> height t + 2" "height t \<le> height R"
    and path: "path_bf (n_balance s) (Suc (max (height R) (Suc (height t)))) d" "path_avl (Suc (max (height R) (Suc (height t)))) d"
  shows "restores (if height R = height t then avl_post_delete a s else if height R = height t + 1 then Some s
    else do { (lower, s) \<leftarrow> avl_lean_left a s;
       if lower then do { pp \<leftarrow> rd n_parent a s; avl_post_delete pp s } else Some s }) s (inorder (plug d (Node R a t)))"
proof -
  consider "height R = height t" | "height R = height t + 1" | "height R = height t + 2" using h by linarith
  then show ?thesis
  proof cases
    case 1
    then show ?thesis using IH [OF sh bf, of "Suc (height t)"] avl path by simp
  next
    case 2
    then have "good s (plug d (Node R a t))" using path avl by (intro good_at [OF sh bf]) auto
    then show ?thesis using 2 by (auto intro: restoresI simp: same_rest_def)
  next
    case 3
    from avl_lean_left_leaned [OF sh bf avl 3] obtain lower s' l x r where s':
      "avl_lean_left a s = Some (lower, s')" "shape s' (plug d (Node l x r))" "bf (n_balance s') (Node l x r)" "avl (Node l x r)"
      "height (Node l x r) = (if lower then height R else Suc (height R))" "inorder (Node l x r) = inorder (Node R a t)"
      "\<forall>b. b \<notin> set_tree (Node R a t) \<longrightarrow> n_balance s' b = n_balance s b" "same_rest s s'" "n_parent s' a = x"
      unfolding leaned_def by blast
    have "set_tree (Node R a t) \<inter> set_path d = {}" using sh by (auto simp: shape_def inorder_plug set_path)
    then have "path_bf (n_balance s') k d = path_bf (n_balance s) k d" for k using s'(7) by (intro path_bf_cong) auto
    then have pb: "path_bf (n_balance s') (Suc (height R)) d" "path_avl (Suc (height R)) d" using path 3 by auto
    have "restores (if lower then avl_post_delete x s' else Some s') s' (inorder (plug d (Node l x r)))"
    proof (cases lower)
      case True
      then show ?thesis using IH [OF s'(2,3,4) pb] s'(5) by simp
    next
      case False
      then have "good s' (plug d (Node l x r))" using pb s'(5) by (intro good_at [OF s'(2,3,4)]) auto
      then show ?thesis using False by (auto intro: restoresI simp: same_rest_def)
    qed
    moreover have "inorder (plug d (Node l x r)) = inorder (plug d (Node R a t))" using s'(6) by (simp only: inorder_plug)
    ultimately have "restores (if lower then avl_post_delete x s' else Some s') s (inorder (plug d (Node R a t)))"
      using restores_same [OF _ s'(8)] by simp
    then show ?thesis using 3 s'(1,9) shape_node(1) [OF sh] by (cases lower) (simp_all add: avl_rd)
  qed
qed

text \<open>The balance of a node whose left or right subtree has lost a level.\<close>

lemma avl_post_delete_restores:
  assumes "shape s (plug c (Node l p r))" "bf (n_balance s) (Node l p r)" "avl (Node l p r)"
    and "path_bf (n_balance s) (Suc h) c" "path_avl (Suc h) c" "height (Node l p r) = h"
  shows "restores (avl_post_delete p s) s (inorder (plug c (Node l p r)))"
  using assms
proof (induction c arbitrary: s l p r h)
  case Top
  have "n_parent s p = 0" "p \<noteq> 0" using shape_node(1,7) [OF Top(1)] by auto
  then have "avl_post_delete p s = Some s" by (subst avl_post_delete.simps) (simp add: avl_rd)
  moreover have "good s (Node l p r)" using Top good_up [of s Top "Node l p r"] by simp
  ultimately show ?case by (auto intro: restoresI simp: same_rest_def)
next
  case (Lft d a R)
  let ?t = "Node l p r"
  define s1 where "s1 = s\<lparr>n_balance := (n_balance s)(a := n_balance s a + 1)\<rparr>"
  have sh: "shape s (plug d (Node ?t a R))" using Lft.prems(1) by simp
  have nz: "p \<noteq> 0" "a \<noteq> 0" "n_parent s p = a" "n_left s a = p" and out: "a \<notin> set_tree ?t" "a \<notin> set_tree R" "a \<notin> set_path d"
    using shape_node(1) [OF Lft.prems(1)] shape_node(1-4) [OF sh] shape_child(1) [OF sh] by auto
  have s1: "shape s1 (plug d (Node ?t a R))" "bf (n_balance s1) (Node ?t a R)" "same_rest s s1"
    "path_bf (n_balance s1) (Suc (max (Suc (height ?t)) (height R))) d" "path_avl (Suc (max (Suc (height ?t)) (height R))) d"
    using sh Lft.prems(2,4-6) out by (simp_all add: s1_def)
  have h: "avl R" "height R \<le> height ?t + 2" "height ?t \<le> height R" "n_balance s a + 1 = int (height R) - int (height ?t)"
    using Lft.prems(4-6) by auto
  have "avl_post_delete p s = (if height R = height ?t then avl_post_delete a s1 else if height R = height ?t + 1 then Some s1
    else do { (lower, s) \<leftarrow> avl_lean_right a s1;
       if lower then do { pp \<leftarrow> rd n_parent a s; avl_post_delete pp s } else Some s })"
    using nz h unfolding s1_def by (subst avl_post_delete.simps) (auto simp: avl_rd avl_wr)
  with shrunk_left_restores [OF Lft.IH s1(1,2) Lft.prems(3) h(1,2,3) s1(4,5)]
  have "restores (avl_post_delete p s) s1 (inorder (plug d (Node ?t a R)))" by simp
  then show ?case using s1(3) by (auto intro: restores_same)
next
  case (Rgt d a R)
  let ?t = "Node l p r"
  define s1 where "s1 = s\<lparr>n_balance := (n_balance s)(a := n_balance s a - 1)\<rparr>"
  have sh: "shape s (plug d (Node R a ?t))" using Rgt.prems(1) by simp
  have nz: "p \<noteq> 0" "a \<noteq> 0" "n_parent s p = a" "n_left s a \<noteq> p" and out: "a \<notin> set_tree ?t" "a \<notin> set_tree R" "a \<notin> set_path d"
    using shape_node(1) [OF Rgt.prems(1)] shape_node(1-4) [OF sh] shape_child(2) [OF sh] by auto
  have s1: "shape s1 (plug d (Node R a ?t))" "bf (n_balance s1) (Node R a ?t)" "same_rest s s1"
    "path_bf (n_balance s1) (Suc (max (height R) (Suc (height ?t)))) d" "path_avl (Suc (max (height R) (Suc (height ?t)))) d"
    using sh Rgt.prems(2,4-6) out by (simp_all add: s1_def)
  have h: "avl R" "height R \<le> height ?t + 2" "height ?t \<le> height R" "n_balance s a - 1 = int (height ?t) - int (height R)"
    using Rgt.prems(4-6) by auto
  have "avl_post_delete p s = (if height R = height ?t then avl_post_delete a s1 else if height R = height ?t + 1 then Some s1
    else do { (lower, s) \<leftarrow> avl_lean_left a s1;
       if lower then do { pp \<leftarrow> rd n_parent a s; avl_post_delete pp s } else Some s })"
    using nz h unfolding s1_def by (subst avl_post_delete.simps) (auto simp: avl_rd avl_wr)
  with shrunk_right_restores [OF Rgt.IH s1(1,2) Rgt.prems(3) h(1,2,3) s1(4,5)]
  have "restores (avl_post_delete p s) s1 (inorder (plug d (Node R a ?t)))" by simp
  then show ?case using s1(3) by (auto intro: restores_same)
qed

section \<open>Deleting a node\<close>

lemma good_plug: "good s (plug c t) \<longleftrightarrow> shape s (plug c t) \<and> bf (n_balance s) t \<and> avl t \<and> path_bf (n_balance s) (height t) c \<and> path_avl (height t) c"
  by (auto simp: good_def bf_plug avl_plug)

lemma shape_cut:
  shows "shape s (plug (Lft d a R) t) \<Longrightarrow> shape (s\<lparr>n_left := (n_left s)(a := 0)\<rparr>) (plug d (Node Leaf a R))" (is "?L \<Longrightarrow> _")
    and "shape s (plug (Rgt d a R) t) \<Longrightarrow> shape (s\<lparr>n_right := (n_right s)(a := 0)\<rparr>) (plug d (Node R a Leaf))" (is "?R \<Longrightarrow> _")
proof -
  assume ?L
  then have sh: "shape s (plug d (Node t a R))" by simp
  let ?s = "s\<lparr>n_left := (n_left s)(a := 0)\<rparr>"
  have "same_links (set_path d) s ?s" "same_links (set_tree R) s ?s" "distinct (inorder (plug d (Node Leaf a R)))"
    using shape_node(3,4) [OF sh] sh by (auto simp: same_links_def shape_def inorder_plug)
  then show "shape ?s (plug d (Node Leaf a R))"
    using shape_plug [OF sh] by (intro shape_plugI [of _ "n_parent s a" a]) (auto simp: path_cong tree_cong)
next
  assume ?R
  then have sh: "shape s (plug d (Node R a t))" by simp
  let ?s = "s\<lparr>n_right := (n_right s)(a := 0)\<rparr>"
  have "same_links (set_path d) s ?s" "same_links (set_tree R) s ?s" "distinct (inorder (plug d (Node R a Leaf)))"
    using shape_node(2,4) [OF sh] sh by (auto simp: same_links_def shape_def inorder_plug)
  then show "shape ?s (plug d (Node R a Leaf))"
    using shape_plug [OF sh] by (intro shape_plugI [of _ "n_parent s a" a]) (auto simp: path_cong tree_cong)
qed

lemma avl_delete_left_leaf_restores:
  assumes "good s (plug (Lft d a R) (Node Leaf p Leaf))"
  shows "restores (avl_delete_left_leaf a s) s (inorder (plug d (Node Leaf a R)))"
proof -
  have sh: "shape s (plug d (Node (Node Leaf p Leaf) a R))" and path: "path_bf (n_balance s) (Suc 0) (Lft d a R)" "path_avl (Suc 0) (Lft d a R)"
    using assms by (simp_all add: good_plug)
  note out = shape_node(1,3,4) [OF sh]
  let ?e = "Leaf :: addr tree" and ?s = "s\<lparr>n_left := (n_left s)(a := 0), n_balance := (n_balance s)(a := n_balance s a + 1)\<rparr>"
  have s1: "shape ?s (plug d (Node Leaf a R))" using shape_cut(1) [of s d a R "Node Leaf p Leaf"] sh by simp
  have bf: "bf (n_balance ?s) (Node Leaf a R)" and h: "avl R" "height R \<le> height ?e + 2" "height ?e \<le> height R"
    and path': "path_bf (n_balance ?s) (Suc (max (Suc (height ?e)) (height R))) d" "path_avl (Suc (max (Suc (height ?e)) (height R))) d"
    using path out by auto
  have eq: "avl_delete_left_leaf a s = (if height R = height ?e then avl_post_delete a ?s else if height R = height ?e + 1 then Some ?s
    else do { (lower, s) \<leftarrow> avl_lean_right a ?s;
       if lower then do { pp \<leftarrow> rd n_parent a s; avl_post_delete pp s } else Some s })"
    using path out by (auto simp: avl_delete_left_leaf_def avl_rd avl_wr)
  have "restores (avl_delete_left_leaf a s) ?s (inorder (plug d (Node Leaf a R)))"
    unfolding eq by (rule shrunk_left_restores [OF _ s1 bf _ h path']) (rule avl_post_delete_restores, assumption+, simp)
  then show ?thesis by (rule restores_same) (simp add: same_rest_def)
qed

lemma avl_delete_right_leaf_restores:
  assumes "good s (plug (Rgt d a R) (Node Leaf p Leaf))"
  shows "restores (avl_delete_right_leaf a s) s (inorder (plug d (Node R a Leaf)))"
proof -
  have sh: "shape s (plug d (Node R a (Node Leaf p Leaf)))" and path: "path_bf (n_balance s) (Suc 0) (Rgt d a R)" "path_avl (Suc 0) (Rgt d a R)"
    using assms by (simp_all add: good_plug)
  note out = shape_node(1,2,4) [OF sh]
  let ?e = "Leaf :: addr tree" and ?s = "s\<lparr>n_right := (n_right s)(a := 0), n_balance := (n_balance s)(a := n_balance s a - 1)\<rparr>"
  have s1: "shape ?s (plug d (Node R a Leaf))" using shape_cut(2) [of s d a R "Node Leaf p Leaf"] sh by simp
  have bf: "bf (n_balance ?s) (Node R a Leaf)" and h: "avl R" "height R \<le> height ?e + 2" "height ?e \<le> height R"
    and path': "path_bf (n_balance ?s) (Suc (max (height R) (Suc (height ?e)))) d" "path_avl (Suc (max (height R) (Suc (height ?e)))) d"
    using path out by auto
  have eq: "avl_delete_right_leaf a s = (if height R = height ?e then avl_post_delete a ?s else if height R = height ?e + 1 then Some ?s
    else do { (lower, s) \<leftarrow> avl_lean_left a ?s;
       if lower then do { pp \<leftarrow> rd n_parent a s; avl_post_delete pp s } else Some s })"
    using path out by (auto simp: avl_delete_right_leaf_def avl_rd avl_wr)
  have "restores (avl_delete_right_leaf a s) ?s (inorder (plug d (Node R a Leaf)))"
    unfolding eq by (rule shrunk_right_restores [OF _ s1 bf _ h path']) (rule avl_post_delete_restores, assumption+, simp)
  then show ?thesis by (rule restores_same) (simp add: same_rest_def)
qed

lemma avl_lift_child_restores:
  assumes "good s (plug c t)" "t = Node Leaf p (Node l x r) \<or> t = Node (Node l x r) p Leaf"
  shows "restores (avl_lift_child p x s) s (inorder (plug c (Node l x r)))"
proof -
  let ?u = "Node l x r" and ?par = "n_parent s p"
  have sh: "shape s (plug c t)" and t: "bf (n_balance s) ?u" "avl ?u" "path_bf (n_balance s) (Suc (height ?u)) c" "path_avl (Suc (height ?u)) c"
    using assms by (auto simp: good_plug)
  have at: "path_at s ?par p c" "tree_at s p x ?u" "p \<noteq> 0" "x \<noteq> 0"
    using sh assms(2) by (auto simp: shape_def tree_at_plug)
  have out: "p \<notin> set_path c" "x \<notin> set_path c" "x \<notin> set_tree l" "x \<notin> set_tree r" "set_tree ?u \<inter> set_path c = {}" "p \<noteq> x"
      "distinct (inorder (plug c ?u))" "distinct (before c @ after c)" "distinct (inorder ?u)"
    using sh assms(2) by (auto simp: shape_def inorder_plug set_path)
  let ?s = "s\<lparr>n_parent := (n_parent s)(x := ?par)\<rparr>"
  have "same_links (set_path c) s ?s" using out by (auto simp: same_links_def)
  then have "path_at ?s ?par p c" using at(1) by (simp add: path_cong)
  from avl_set_child_path [OF this at(3) out(1,8), of x] obtain s2 where s2:
    "avl_set_child ?par p x ?s = Some s2" "path_at s2 ?par x c" "same_links (- set_path c) ?s s2"
    "n_parent s2 = n_parent ?s" "n_balance s2 = n_balance s" "same_rest ?s s2" by auto
  have "tree_at s2 ?par x ?u"
    using s2(3,4) out at(2) by (intro tree_reroot [OF at(2) _ _ out(9)]) (auto simp: same_links_def)
  then have shape: "shape s2 (plug c ?u)" using shape_plugI [OF s2(2)] out(7) by blast
  have rest: "same_rest s s2" using s2(6) by (simp add: same_rest_def)
  show ?thesis
  proof (cases "c = Top")
    case True
    then have par: "?par = 0" using at(1) by simp
    have "good s2 (plug c ?u)" using True shape t s2(5) by (auto simp: good_def)
    moreover have "avl_lift_child p x s = Some s2"
      using par at s2(1) by (auto simp: avl_lift_child_def avl_rd avl_wr avl_set_child_def)
    ultimately show ?thesis using rest by (auto intro: restoresI)
  next
    case False
    then have "?par \<noteq> 0" using at(1) by (cases c) auto
    then have "avl_lift_child p x s = avl_post_delete x s2"
      using at s2(1) by (simp add: avl_lift_child_def avl_rd avl_wr)
    moreover have "restores (avl_post_delete x s2) s2 (inorder (plug c ?u))"
      using shape t s2(5) by (intro avl_post_delete_restores [where h = "height ?u"]) auto
    ultimately show ?thesis using rest by (simp add: restores_same)
  qed
qed

lemma avl_take_place_shape:
  assumes sh: "shape s (plug c (Node l p r))" and m: "m \<notin> set (inorder (plug c (Node l p r)))" "m \<noteq> 0"
  shows "\<exists>s'. avl_take_place p m s = Some s' \<and> shape s' (plug c (Node l m r)) \<and>
    n_balance s' = (n_balance s)(m := n_balance s p) \<and> same_rest s s'"
proof -
  define par L R where defs: "par = n_parent s p" "L = n_left s p" "R = n_right s p"
  note at = shape_plug [OF sh] and pz = shape_node(1) [OF sh]
  have out: "p \<notin> set_path c" "m \<notin> set_path c" "m \<noteq> p" "m \<notin> set_tree l \<union> set_tree r" "p \<notin> set_tree l \<union> set_tree r"
      "(set_tree l \<union> set_tree r) \<inter> set_path c = {}" "set_tree l \<inter> set_tree r = {}" "distinct (inorder l)" "distinct (inorder r)"
      "distinct (before c @ after c)"
    using sh m(1) by (auto simp: shape_def inorder_plug set_path)
  have sub: "tree_at s p L l" "tree_at s p R r" using at(2) by (auto simp: defs)
  have L: "L = 0 \<or> L \<in> set_tree l" and R: "R = 0 \<or> R \<in> set_tree r" using sub tree_root by blast+
  let ?f = "\<lambda>g q. if q \<noteq> 0 then g(q := m) else g"
  define s1 where "s1 = s\<lparr>n_balance := (n_balance s)(m := n_balance s p), n_left := (n_left s)(m := L), n_right := (n_right s)(m := R),
    n_parent := ?f (?f ((n_parent s)(m := par)) L) R\<rparr>"
  have s1: "n_left s1 = (n_left s)(m := L)" "n_right s1 = (n_right s)(m := R)" "n_parent s1 = ?f (?f ((n_parent s)(m := par)) L) R"
    "t_root s1 = t_root s" "n_balance s1 = (n_balance s)(m := n_balance s p)" "same_rest s s1"
    by (simp_all add: s1_def same_rest_def)
  have eq: "avl_take_place p m s = avl_set_child par p m s1"
    using pz m(2) out(3) by (cases s) (auto simp: avl_take_place_def avl_rd avl_wr s1_def defs)
  have "same_links (set_path c) s s1" using out L R by (auto simp: same_links_def s1)
  then have "path_at s1 par p c" using at(1) s1(4) by (simp add: path_cong defs(1))
  from avl_set_child_path [OF this pz out(1,10), of m] obtain s2 where s2:
    "avl_set_child par p m s1 = Some s2" "path_at s2 par m c" "same_links (- set_path c) s1 s2"
    "n_parent s2 = n_parent s1" "n_balance s2 = n_balance s1" "same_rest s1 s2" by auto
  have same: "n_left s2 a = n_left s1 a" "n_right s2 a = n_right s1 a" if "a \<notin> set_path c" for a
    using s2(3) that by (auto simp: same_links_def)
  have par: "n_parent s2 a = n_parent s a" if "a \<noteq> m" "a \<noteq> L" "a \<noteq> R" for a using that by (simp add: s1(3) s2(4))
  have links: "n_left s2 a = n_left s a" "n_right s2 a = n_right s a" if "a \<notin> set_path c" "a \<noteq> m" for a
    using same [OF that(1)] that(2) by (simp_all add: s1)
  have apart: "a \<notin> set_path c" "a \<noteq> m" "a \<noteq> R" if "a \<in> set_tree l" for a
    using that out R tree_nonzero [OF sub(1)] by auto
  have apart': "a \<notin> set_path c" "a \<noteq> m" "a \<noteq> L" if "a \<in> set_tree r" for a
    using that out L tree_nonzero [OF sub(2)] by auto
  have sub2: "same_links (set_tree l - {L}) s s2" "same_links (set_tree r - {R}) s s2"
    unfolding same_links_def using par links apart apart' by auto
  have "L \<noteq> 0 \<longrightarrow> n_left s2 L = n_left s L \<and> n_right s2 L = n_right s L \<and> n_parent s2 L = m"
    "R \<noteq> 0 \<longrightarrow> n_left s2 R = n_left s R \<and> n_right s2 R = n_right s R \<and> n_parent s2 R = m"
    using links apart apart' L R by (auto simp: s1(3) s2(4))
  then have "tree_at s2 m L l" "tree_at s2 m R r"
    using tree_reroot [OF sub(1) sub2(1) _ out(8)] tree_reroot [OF sub(2) sub2(2) _ out(9)] by blast+
  moreover have "n_parent s2 m = par" using out L R by (auto simp: s1 s2(4))
  ultimately have "tree_at s2 par m (Node l m r)" using same [OF out(2)] m(2) by (simp add: s1)
  moreover have "distinct (inorder (plug c (Node l m r)))" using sh m(1) by (auto simp: shape_def inorder_plug)
  ultimately have "shape s2 (plug c (Node l m r))" using shape_plugI [OF s2(2)] by blast
  then show ?thesis using eq s2(1,5) s1(5) same_rest_trans [OF s1(6) s2(6)] by auto
qed

lemma avl_local_min_plug:
  assumes "shape s (plug c (Node l x r))"
  shows "\<exists>m d R. avl_local_min x s = Some m \<and> Node l x r = plug d (Node Leaf m R) \<and> before d = []"
  using assms
proof (induction l arbitrary: c x r)
  case Leaf
  have "avl_local_min x s = Some x" using shape_node(1,5) [OF Leaf] by (subst avl_local_min.simps) (simp add: avl_rd)
  then show ?case by (intro exI [of _ x] exI [of _ Top]) auto
next
  case (Node l1 y l2)
  have "shape s (plug (Lft c x r) (Node l1 y l2))" using Node.prems by simp
  from Node.IH(1) [OF this] obtain m d R where m: "avl_local_min y s = Some m" "Node l1 y l2 = plug d (Node Leaf m R)" "before d = []" by blast
  have "avl_local_min x s = Some m"
    using m(1) shape_node(1) [OF Node.prems] shape_node(1) [of s "Lft c x r" l1 y l2] shape_child(1) [OF Node.prems] Node.prems
    by (subst avl_local_min.simps) (simp add: avl_rd)
  moreover have "before (below (Lft Top x r) d) = []" using m(3) by (simp add: before_below)
  moreover have "Node (Node l1 y l2) x r = plug (below (Lft Top x r) d) (Node Leaf m R)" using m(2) by (simp add: plug_below)
  ultimately show ?case by blast
qed

text \<open>A node with at most one child.\<close>

lemma avl_delete_worker_half:
  assumes "good s (plug c (Node l p r))" "l = Leaf \<or> r = Leaf"
  shows "restores (avl_delete_worker p s) s (before c @ inorder l @ inorder r @ after c)"
proof -
  have sh: "shape s (plug c (Node l p r))" using assms(1) by (simp add: good_def)
  note nz = shape_node [OF sh]
  note unfold = avl_delete_worker.simps [of p s]
  consider "l = Leaf" "r = Leaf" "c = Top" | d a R where "l = Leaf" "r = Leaf" "c = Lft d a R" | d a R where "l = Leaf" "r = Leaf" "c = Rgt d a R"
    | A x B where "l = Leaf" "r = Node A x B" | A x B where "r = Leaf" "l = Node A x B"
    using assms(2) by (cases l; cases r; cases c) auto
  then show ?thesis
  proof cases
    case 1
    let ?s = "s\<lparr>t_root := 0\<rparr>"
    have "avl_delete_worker p s = Some ?s" using 1 nz by (simp add: unfold avl_rd)
    moreover have "good ?s Leaf" "same_rest s ?s" by (simp_all add: good_def shape_def same_rest_def)
    ultimately show ?thesis using 1 by (auto intro: restoresI)
  next
    case 2
    have "n_parent s p = a" "n_left s a = p" using shape_child(1) [of s d Leaf p Leaf a R] sh 2 by auto
    then have "avl_delete_worker p s = avl_delete_left_leaf a s" using 2 nz by (simp add: unfold avl_rd)
    then show ?thesis using avl_delete_left_leaf_restores [of s d a R p] assms(1) 2 by (simp add: inorder_plug)
  next
    case 3
    have "n_parent s p = a" "n_left s a \<noteq> p" "n_right s a = p" using shape_child(2) [of s d R a Leaf p Leaf] sh 3 by auto
    then have "avl_delete_worker p s = avl_delete_right_leaf a s" using 3 nz by (simp add: unfold avl_rd)
    then show ?thesis using avl_delete_right_leaf_restores [of s d a R p] assms(1) 3 by (simp add: inorder_plug)
  next
    case 4
    have "n_right s p = x" using shape_child(2) [OF sh [unfolded 4]] by simp
    then have "avl_delete_worker p s = avl_lift_child p x s" using 4 nz by (simp add: unfold avl_rd)
    then show ?thesis using avl_lift_child_restores [OF assms(1), of p A x B] 4 by (simp add: inorder_plug)
  next
    case 5
    have "n_left s p = x" using shape_child(1) [OF sh [unfolded 5]] by simp
    then have "avl_delete_worker p s = avl_lift_child p x s" using 5 nz by (simp add: unfold avl_rd)
    then show ?thesis using avl_lift_child_restores [OF assms(1), of p A x B] 5 by (simp add: inorder_plug)
  qed
qed

lemma avl_delete_worker_restores:
  assumes "good s T" "p \<in> set_tree T"
  shows "restores (avl_delete_worker p s) s (remove1 p (inorder T))"
proof -
  obtain c l r where T: "T = plug c (Node l p r)" using ex_plug [OF assms(2)] by blast
  have sh: "shape s (plug c (Node l p r))" using assms(1) by (simp add: good_def T)
  have p: "p \<notin> set (before c)" "p \<notin> set_tree l" using shape_node(2,4) [OF sh] by (auto simp: set_path)
  then have rm: "remove1 p (inorder T) = before c @ inorder l @ inorder r @ after c" by (simp add: T inorder_plug remove1_append)
  show ?thesis
  proof (cases "l = Leaf \<or> r = Leaf")
    case True
    then show ?thesis using avl_delete_worker_half assms(1) rm by (simp add: T)
  next
    case False
    then obtain A x B where r: "r = Node A x B" by (cases r) auto
    have sr: "shape s (plug (Rgt c p l) (Node A x B))" using sh r by simp
    from avl_local_min_plug [OF this] obtain m d R where
      m: "avl_local_min x s = Some m" "Node A x B = plug d (Node Leaf m R)" "before d = []" by blast
    have inr: "inorder r = m # inorder R @ after d" using m(2,3) by (simp add: r inorder_plug)
    have Tm: "T = plug (below (Rgt c p l) d) (Node Leaf m R)" using m(2) by (simp add: T r plug_below)
    have dT: "distinct (inorder T)" using sh by (simp add: shape_def T)
    from avl_delete_worker_half [of s "below (Rgt c p l) d" Leaf m R] assms(1) obtain s1 T1 where
      s1: "avl_delete_worker m s = Some s1" "good s1 T1" "inorder T1 = before c @ inorder l @ p # inorder R @ after d @ after c" "same_rest s s1"
      using m(3) by (auto simp: Tm restores_def before_below)
    then have "p \<in> set_tree T1" by (metis in_set_conv_decomp append_assoc append_Cons set_inorder)
    then obtain c1 l1 r1 where T1: "T1 = plug c1 (Node l1 p r1)" using ex_plug by blast
    have mo: "m \<notin> set (inorder T1)" "m \<noteq> 0" using dT s1(3) shape_node(1) [of s "below (Rgt c p l) d" Leaf m R] sh
      by (auto simp: T Tm [symmetric] inorder_plug inr)
    from avl_take_place_shape [of s1 c1 l1 p r1 m] mo s1(2) obtain s2 where s2:
      "avl_take_place p m s1 = Some s2" "shape s2 (plug c1 (Node l1 m r1))" "n_balance s2 = (n_balance s1)(m := n_balance s1 p)" "same_rest s1 s2"
      by (auto simp: T1 good_def)
    have "good s2 (plug c1 (Node l1 m r1))"
      using s2(2,3) s1(2) mo(1) by (auto simp: good_plug T1 inorder_plug set_path)
    moreover have "inorder (plug c1 (Node l1 m r1)) = remove1 p (inorder T)"
    proof -
      have "(before c1 @ inorder l1) @ p # (inorder r1 @ after c1) = (before c @ inorder l) @ p # (inorder R @ after d @ after c)"
        using s1(3) by (simp add: T1 inorder_plug)
      moreover have "p \<notin> set (before c1 @ inorder l1)" "p \<notin> set (inorder r1 @ after c1)"
        using s1(2) by (auto simp: good_def shape_def T1 inorder_plug)
      ultimately have "before c1 @ inorder l1 = before c @ inorder l \<and> inorder r1 @ after c1 = inorder R @ after d @ after c"
        using append_Cons_eq_iff [of p "before c1 @ inorder l1" "inorder r1 @ after c1" "before c @ inorder l" "inorder R @ after d @ after c"] by blast
      then show ?thesis by (simp add: inorder_plug rm inr)
    qed
    moreover have "avl_delete_worker p s = Some s2"
      using m(1) s1(1) s2(1) shape_node(1,5,6) [OF sh] shape_child(2) [OF sh [unfolded r]] False r
      by (subst avl_delete_worker.simps) (simp add: avl_rd)
    ultimately show ?thesis using same_rest_trans [OF s1(4) s2(4)] by (auto intro: restoresI)
  qed
qed

end
