(* ===== verification/Avl_Map.thy ===== *)
theory Avl_Map
  imports Avl_Tree
begin

text \<open>
  The tree and the list of \<open>avl.c\<close> together: an ordered multimap.  The entries of the list fall
  into groups of equal keys, each headed by its leader, and the tree holds the leaders in order.
  \<open>avl_inv\<close> is the invariant of a tree with given list of nodes; insertion, deletion and the three
  searches keep it and do to the list what their comments say.
\<close>

section \<open>Comparators\<close>

locale comparator =
  fixes cmp :: "'k \<Rightarrow> 'k \<Rightarrow> int"
  assumes cmp_swap: "cmp a b < 0 \<longleftrightarrow> 0 < cmp b a"
    and cmp_trans: "cmp a b \<le> 0 \<Longrightarrow> cmp b c \<le> 0 \<Longrightarrow> cmp a c \<le> 0"
begin

lemma cmp_refl [simp]: "cmp a a = 0"
  using cmp_swap [of a a] by linarith

lemma cmp_le_swap: "cmp a b \<le> 0 \<longleftrightarrow> 0 \<le> cmp b a"
  using cmp_swap [of b a] by linarith

lemma cmp_flip: "0 < cmp a b \<Longrightarrow> cmp b a \<le> 0" "cmp a b < 0 \<Longrightarrow> 0 < cmp b a"
  using cmp_swap [of b a] cmp_swap [of a b] by simp_all

lemma cmp_less_trans:
  shows "cmp a b < 0 \<Longrightarrow> cmp b c \<le> 0 \<Longrightarrow> cmp a c < 0" and "cmp a b \<le> 0 \<Longrightarrow> cmp b c < 0 \<Longrightarrow> cmp a c < 0"
proof -
  assume ab: "cmp a b < 0" and bc: "cmp b c \<le> 0"
  show "cmp a c < 0"
  proof (rule ccontr)
    assume "\<not> cmp a c < 0"
    then have "cmp c a \<le> 0" using cmp_le_swap by simp
    with bc have "cmp b a \<le> 0" by (rule cmp_trans)
    with ab show False using cmp_swap by fastforce
  qed
next
  assume ab: "cmp a b \<le> 0" and bc: "cmp b c < 0"
  show "cmp a c < 0"
  proof (rule ccontr)
    assume "\<not> cmp a c < 0"
    then have "cmp c a \<le> 0" using cmp_le_swap by simp
    with ab have "cmp c b \<le> 0" using cmp_trans by blast
    with bc show False using cmp_swap by fastforce
  qed
qed

lemma cmp_lt_trans: "cmp a b < 0 \<Longrightarrow> cmp b c < 0 \<Longrightarrow> cmp a c < 0"
  using cmp_less_trans(1) [of a b c] by simp

lemma cmp_gt_trans: "0 < cmp a b \<Longrightarrow> cmp c b < 0 \<Longrightarrow> 0 < cmp a c"
  using cmp_lt_trans [of c b a] cmp_swap by blast

lemma cmp_eq_swap: "cmp a b = 0 \<longleftrightarrow> cmp b a = 0"
  using cmp_swap [of a b] cmp_swap [of b a] by linarith

lemma cmp_eq_subst:
  assumes "cmp a b = 0"
  shows "cmp a c < 0 \<longleftrightarrow> cmp b c < 0" "cmp c a < 0 \<longleftrightarrow> cmp c b < 0" "cmp c a = 0 \<longleftrightarrow> cmp c b = 0"
proof -
  have le: "cmp a b \<le> 0" "cmp b a \<le> 0" using assms cmp_eq_swap [of a b] by simp_all
  show 1: "cmp a c < 0 \<longleftrightarrow> cmp b c < 0" using le cmp_less_trans(2) by blast
  show 2: "cmp c a < 0 \<longleftrightarrow> cmp c b < 0" using le cmp_less_trans(1) by blast
  show "cmp c a = 0 \<longleftrightarrow> cmp c b = 0"
    using 1 2 cmp_swap [of a c] cmp_swap [of b c] by linarith
qed

end

text \<open>\<open>avl_strcmp\<close> compares strings like \<open>strcmp\<close>, as sequences of unsigned bytes.\<close>

fun avl_strcmp :: "string \<Rightarrow> string \<Rightarrow> int" where
  "avl_strcmp [] [] = 0"
| "avl_strcmp [] (c # k2) = - 1"
| "avl_strcmp (c # k1) [] = 1"
| "avl_strcmp (c # k1) (d # k2) =
     (if of_char c < (of_char d :: int) then - 1 else if (of_char d :: int) < of_char c then 1 else avl_strcmp k1 k2)"

lemma avl_strcmp_swap: "avl_strcmp b a = - avl_strcmp a b"
  by (induction a b rule: avl_strcmp.induct) auto

lemma avl_strcmp_Cons_le:
  "avl_strcmp (c # k1) (d # k2) \<le> 0 \<longleftrightarrow>
     of_char c < (of_char d :: int) \<or> (of_char c = (of_char d :: int) \<and> avl_strcmp k1 k2 \<le> 0)"
  by auto

lemma avl_strcmp_trans: "avl_strcmp a b \<le> 0 \<Longrightarrow> avl_strcmp b c \<le> 0 \<Longrightarrow> avl_strcmp a c \<le> 0"
proof (induction a b arbitrary: c rule: avl_strcmp.induct)
  case (4 x k1 d k2)
  then obtain e k3 where c: "c = e # k3" by (cases c) auto
  have xd: "of_char x < (of_char d :: int) \<or> (of_char x = (of_char d :: int) \<and> avl_strcmp k1 k2 \<le> 0)"
    using "4.prems"(1) unfolding avl_strcmp_Cons_le .
  have de: "of_char d < (of_char e :: int) \<or> (of_char d = (of_char e :: int) \<and> avl_strcmp k2 k3 \<le> 0)"
    using "4.prems"(2) unfolding c avl_strcmp_Cons_le .
  have IH: "of_char x = (of_char d :: int) \<Longrightarrow> avl_strcmp k1 k2 \<le> 0 \<Longrightarrow> avl_strcmp k2 k3 \<le> 0 \<Longrightarrow> avl_strcmp k1 k3 \<le> 0"
    using "4.IH" [of k3] by linarith
  show ?case unfolding c avl_strcmp_Cons_le using xd de IH by linarith
next
  case (2 x k2)
  then show ?case by (cases c) auto
qed (simp, case_tac c, auto)

interpretation strs: comparator avl_strcmp
proof
  fix a b c
  show "avl_strcmp a b < 0 \<longleftrightarrow> 0 < avl_strcmp b a" using avl_strcmp_swap [of b a] by simp
  show "avl_strcmp a b \<le> 0 \<Longrightarrow> avl_strcmp b c \<le> 0 \<Longrightarrow> avl_strcmp a c \<le> 0" by (rule avl_strcmp_trans)
qed

section \<open>The invariant\<close>

text \<open>Groups of equal keys in increasing order, each with its leader in front.\<close>

definition groups :: "('k \<Rightarrow> 'k \<Rightarrow> int) \<Rightarrow> 'k avl_tree \<Rightarrow> addr list list \<Rightarrow> bool" where
  "groups cmp s gs \<longleftrightarrow>
     (\<forall>g \<in> set gs. g \<noteq> [] \<and> n_leader s (hd g) \<and> (\<forall>a \<in> set (tl g). \<not> n_leader s a) \<and>
        (\<forall>a \<in> set g. cmp (n_key s a) (n_key s (hd g)) = 0) \<and> (t_allow_dups s \<or> length g = 1)) \<and>
     sorted_wrt (\<lambda>g g'. cmp (n_key s (hd g)) (n_key s (hd g')) < 0) gs"

definition avl_rep :: "('k \<Rightarrow> 'k \<Rightarrow> int) \<Rightarrow> 'k avl_tree \<Rightarrow> addr list list \<Rightarrow> bool" where
  "avl_rep cmp s gs \<longleftrightarrow> ring s (t_head s) (concat gs) \<and> (\<exists>T. good s T \<and> inorder T = map hd gs) \<and>
     groups cmp s gs \<and> t_count s = of_nat (length (concat gs))"

definition avl_inv :: "('k \<Rightarrow> 'k \<Rightarrow> int) \<Rightarrow> 'k avl_tree \<Rightarrow> addr list \<Rightarrow> bool" where
  "avl_inv cmp s xs \<longleftrightarrow> (\<exists>gs. avl_rep cmp s gs \<and> xs = concat gs)"

text \<open>What no operation changes.\<close>

definition same_keys :: "'k avl_tree \<Rightarrow> 'k avl_tree \<Rightarrow> bool" where
  "same_keys s s' \<longleftrightarrow> n_key s' = n_key s \<and> t_head s' = t_head s \<and> t_allow_dups s' = t_allow_dups s"

text \<open>What the parts of the invariant depend on.\<close>

lemma groups_cong:
  assumes "\<forall>a \<in> set (concat gs). n_key s' a = n_key s a \<and> n_leader s' a = n_leader s a" "t_allow_dups s' = t_allow_dups s"
  shows "groups cmp s' gs = groups cmp s gs"
proof -
  have *: "n_key s' a = n_key s a \<and> n_leader s' a = n_leader s a" if "g \<in> set gs" "a \<in> set g" for g a
    using assms(1) that by auto
  have hd: "n_key s' (hd g) = n_key s (hd g) \<and> n_leader s' (hd g) = n_leader s (hd g)" if "g \<in> set gs" "g \<noteq> []" for g
    using * [OF that(1)] that(2) by simp
  let ?P = "\<lambda>s g. g \<noteq> [] \<and> n_leader s (hd g) \<and> (\<forall>a \<in> set (tl g). \<not> n_leader s a) \<and>
        (\<forall>a \<in> set g. cmp (n_key s a) (n_key s (hd g)) = 0) \<and> (t_allow_dups s \<or> length g = 1)"
  let ?S = "\<lambda>s. sorted_wrt (\<lambda>g g'. cmp (n_key s (hd g)) (n_key s (hd g')) < 0) gs"
  have "?P s' g = ?P s g" if "g \<in> set gs" for g
    using * [OF that] hd [OF that] assms(2) by (cases g) auto
  then have P: "(\<forall>g \<in> set gs. ?P s' g) = (\<forall>g \<in> set gs. ?P s g)" by (intro ball_cong refl)
  have S: "?S s' = ?S s" if "\<forall>g \<in> set gs. ?P s g"
    using hd that by (intro iffI; elim sorted_wrt_mono_rel [rotated]) auto
  show ?thesis unfolding groups_def P using S by (intro conj_cong refl)
qed

lemma shape_cong: "same_links (set_tree T) s s' \<Longrightarrow> t_root s' = t_root s \<Longrightarrow> shape s' T = shape s T"
  by (simp add: shape_def tree_cong)

lemma good_cong:
  assumes "same_links (set_tree T) s s'" "t_root s' = t_root s" "\<forall>a \<in> set_tree T. n_balance s' a = n_balance s a"
  shows "good s' T = good s T"
  using assms(1,2) bf_cong [OF assms(3)] by (simp add: good_def shape_cong)

lemma restores_rep:
  assumes "restores r s (map hd gs)" "ring s (t_head s) (concat gs)" "groups cmp s gs" "t_count s = of_nat (length (concat gs))"
  shows "\<exists>s'. r = Some s' \<and> avl_rep cmp s' gs \<and> same_keys s s'"
proof -
  obtain s' T where s': "r = Some s'" "good s' T" "inorder T = map hd gs" "same_rest s s'" using assms(1) by (auto simp: restores_def)
  have "ring s' (t_head s') (concat gs)" using assms(2) s'(4) ring_cong [of "t_head s" "concat gs" s' s] by (simp add: same_rest_def)
  moreover have "groups cmp s' gs" using assms(3) s'(4) groups_cong [of gs s' s cmp] by (simp add: same_rest_def)
  ultimately show ?thesis using s' assms(4) by (auto simp: avl_rep_def same_rest_def same_keys_def)
qed

section \<open>Searching\<close>

context comparator
begin

lemma avl_find_rec_at:
  assumes "shape s (plug c (Node l n r))" "sorted_wrt (\<lambda>a b. cmp (n_key s a) (n_key s b) < 0) (inorder (plug c (Node l n r)))"
    and "\<forall>x \<in> set (before c). 0 < cmp key (n_key s x)" "\<forall>x \<in> set (after c). cmp key (n_key s x) < 0"
  shows "\<exists>c' l' n' r'. plug c (Node l n r) = plug c' (Node l' n' r') \<and> avl_find_rec cmp n key s = Some (n', cmp key (n_key s n')) \<and>
    (cmp key (n_key s n') < 0 \<longrightarrow> l' = Leaf) \<and> (0 < cmp key (n_key s n') \<longrightarrow> r' = Leaf) \<and>
    (\<forall>x \<in> set (before c'). 0 < cmp key (n_key s x)) \<and> (\<forall>x \<in> set (after c'). cmp key (n_key s x) < 0)"
  using assms
proof (induction "Node l n r" arbitrary: c l n r)
  case (Node l n r)
  note nz = shape_node(1,5,6) [OF Node.prems(1)]
  have un: "avl_find_rec cmp n key s = (let diff = cmp key (n_key s n) in
      if diff < 0 then (if n_left s n \<noteq> 0 then avl_find_rec cmp (n_left s n) key s else Some (n, diff))
      else if diff > 0 then (if n_right s n \<noteq> 0 then avl_find_rec cmp (n_right s n) key s else Some (n, diff)) else Some (n, diff))"
    using nz(1) by (subst avl_find_rec.simps) (simp add: avl_rd Let_def)
  have sorted: "cmp (n_key s x) (n_key s n) < 0" if "x \<in> set (inorder l)" for x
    using that Node.prems(2) by (auto simp: inorder_plug sorted_wrt_append)
  have sorted': "cmp (n_key s n) (n_key s x) < 0" if "x \<in> set (inorder r)" for x
    using that Node.prems(2) by (auto simp: inorder_plug sorted_wrt_append)
  consider (left) A x B where "cmp key (n_key s n) < 0" "l = Node A x B" | (right) A x B where "0 < cmp key (n_key s n)" "r = Node A x B"
    | (here) "cmp key (n_key s n) < 0 \<longrightarrow> l = Leaf" "0 < cmp key (n_key s n) \<longrightarrow> r = Leaf"
    by (cases l; cases r) (blast intro: order.strict_trans)+
  then show ?case
  proof cases
    case left
    have "n_left s n = x" using shape_child(1) [OF Node.prems(1) [unfolded left(2)]] by simp
    moreover have "x \<noteq> 0" using shape_node(1) [of s "Lft c n r" A x B] Node.prems(1) left(2) by simp
    ultimately have "avl_find_rec cmp n key s = avl_find_rec cmp x key s" using un left(1) by (simp add: Let_def)
    moreover have "\<forall>x \<in> set (after (Lft c n r)). cmp key (n_key s x) < 0"
      using left(1) sorted' Node.prems(4) cmp_lt_trans [OF left(1)] by auto
    ultimately show ?thesis using Node.hyps(1) [OF left(2), of "Lft c n r"] Node.prems left(2) by simp
  next
    case right
    have "n_right s n = x" using shape_child(2) [OF Node.prems(1) [unfolded right(2)]] by simp
    moreover have "x \<noteq> 0" using shape_node(1) [of s "Rgt c n l" A x B] Node.prems(1) right(2) by simp
    ultimately have "avl_find_rec cmp n key s = avl_find_rec cmp x key s" using un right(1) by (simp add: Let_def)
    moreover have "\<forall>x \<in> set (before (Rgt c n l)). 0 < cmp key (n_key s x)"
      using right(1) sorted Node.prems(3) cmp_gt_trans [OF right(1)] by auto
    ultimately show ?thesis using Node.hyps(2) [OF right(2), of "Rgt c n l"] Node.prems right(2) by simp
  next
    case here
    then have "avl_find_rec cmp n key s = Some (n, cmp key (n_key s n))" using un nz by (auto simp: Let_def)
    then show ?thesis using here Node.prems(3,4) by blast
  qed
qed

lemma map_eq_mid: "map f xs = ys @ y # zs \<Longrightarrow> \<exists>A g B. xs = A @ g # B \<and> map f A = ys \<and> f g = y \<and> map f B = zs"
proof (induction ys arbitrary: xs)
  case Nil
  then show ?case by (intro exI [of _ "[]"]) (auto simp: map_eq_Cons_conv)
next
  case (Cons a ys)
  then obtain x xs' where "xs = x # xs'" "f x = a" "map f xs' = ys @ y # zs" by (auto simp: map_eq_Cons_conv)
  with Cons.IH [of xs'] show ?case by (metis append_Cons list.simps(9))
qed

text \<open>Where the search in the tree ends: at a group \<open>g\<close> such that all groups before it have smaller
  keys than the one searched for, and all behind it have larger ones.\<close>

lemma avl_find_rec_rep:
  assumes "avl_rep cmp s gs" "t_root s \<noteq> 0"
  obtains A g B c l r where "gs = A @ g # B" "good s (plug c (Node l (hd g) r))" "map hd A = before c @ inorder l" "map hd B = inorder r @ after c"
    "avl_find_rec cmp (t_root s) key s = Some (hd g, cmp key (n_key s (hd g)))"
    "cmp key (n_key s (hd g)) < 0 \<longrightarrow> l = Leaf" "0 < cmp key (n_key s (hd g)) \<longrightarrow> r = Leaf"
    "\<forall>g' \<in> set A. 0 < cmp key (n_key s (hd g'))" "\<forall>g' \<in> set B. cmp key (n_key s (hd g')) < 0"
proof -
  obtain T where T: "good s T" "inorder T = map hd gs" using assms(1) by (auto simp: avl_rep_def)
  have sorted: "sorted_wrt (\<lambda>a b. cmp (n_key s a) (n_key s b) < 0) (inorder T)"
    using assms(1) by (simp add: T(2) avl_rep_def groups_def sorted_wrt_map)
  obtain l0 n0 r0 where T0: "T = Node l0 n0 r0" "t_root s = n0" using T(1) assms(2) by (cases T) (auto simp: good_def shape_def)
  have "shape s (plug Top (Node l0 n0 r0))" using T(1) T0 by (simp add: good_def)
  from avl_find_rec_at [OF this, of key] sorted T0 obtain c l n r where
    n: "T = plug c (Node l n r)" "avl_find_rec cmp (t_root s) key s = Some (n, cmp key (n_key s n))"
    "cmp key (n_key s n) < 0 \<longrightarrow> l = Leaf" "0 < cmp key (n_key s n) \<longrightarrow> r = Leaf"
    "\<forall>x \<in> set (before c). 0 < cmp key (n_key s x)" "\<forall>x \<in> set (after c). cmp key (n_key s x) < 0"
    by auto
  have "map hd gs = (before c @ inorder l) @ n # (inorder r @ after c)" using T(2) n(1) by (simp add: inorder_plug)
  from map_eq_mid [OF this] obtain A g B where
    gs: "gs = A @ g # B" "map hd A = before c @ inorder l" "hd g = n" "map hd B = inorder r @ after c" by blast
  have lt: "cmp (n_key s x) (n_key s n) < 0" if "x \<in> set (before c @ inorder l)" for x
    using that sorted by (auto simp: n(1) inorder_plug sorted_wrt_append)
  have gt: "cmp (n_key s n) (n_key s x) < 0" if "x \<in> set (inorder r @ after c)" for x
    using that sorted by (auto simp: n(1) inorder_plug sorted_wrt_append)
  have "0 < cmp key (n_key s x)" if "x \<in> set (before c @ inorder l)" for x
  proof (cases "cmp key (n_key s n) < 0")
    case True
    then show ?thesis using that n(3,5) by auto
  next
    case False
    then show ?thesis using lt [OF that] cmp_less_trans(1) [of "n_key s x" "n_key s n" key] cmp_le_swap [of "n_key s n" key] cmp_swap by fastforce
  qed
  then have A: "\<forall>g' \<in> set A. 0 < cmp key (n_key s (hd g'))" using gs(2) by (metis image_eqI set_map)
  have "cmp key (n_key s x) < 0" if "x \<in> set (inorder r @ after c)" for x
  proof (cases "0 < cmp key (n_key s n)")
    case True
    then show ?thesis using that n(4,6) by auto
  next
    case False
    then show ?thesis using gt [OF that] cmp_less_trans(2) [of key "n_key s n" "n_key s x"] by simp
  qed
  then have B: "\<forall>g' \<in> set B. cmp key (n_key s (hd g')) < 0" using gs(4) by (metis image_eqI set_map)
  show thesis using that [OF gs(1) _ gs(2) gs(4) _ _ _ A B] T(1) n gs(3) by simp
qed

end

section \<open>Insertion\<close>

lemma avl_last_of_group:
  assumes "ring s (t_head s) (us @ (a # rest) @ ws)" "\<forall>x \<in> set rest. \<not> n_leader s x" "ws \<noteq> [] \<longrightarrow> n_leader s (hd ws)"
  shows "avl_last_of a s = Some (last (a # rest))"
  using assms
proof (induction rest arbitrary: us a)
  case Nil
  have r: "ring s (t_head s) (us @ a # ws)" using Nil(1) by simp
  have nz: "a \<noteq> 0" "0 \<notin> set ws" "t_head s \<notin> set ws" using r by (auto simp: ring_def)
  have nx: "l_next s a = hd (ws @ [t_head s])" using ring_next [OF r] .
  show ?case
  proof (cases ws)
    case Nil
    then show ?thesis using nz nx by (subst avl_last_of.simps) (simp add: list_is_last_def get_next_def)
  next
    case (Cons w ws')
    then show ?thesis using nz nx Nil(3)
      by (subst avl_last_of.simps) (simp add: list_is_last_def get_next_def avl_next_def avl_rd)
  qed
next
  case (Cons b rest)
  have r: "ring s (t_head s) (us @ a # (b # rest) @ ws)" using Cons.prems(1) by simp
  have nz: "a \<noteq> 0" "b \<noteq> 0" "t_head s \<noteq> b" using r by (auto simp: ring_def)
  have nx: "l_next s a = b" using ring_next [OF r] by simp
  have "avl_last_of b s = Some (last (b # rest))" using Cons.IH [of "us @ [a]" b] Cons.prems by simp
  then show ?case using nz nx Cons.prems(2)
    by (subst avl_last_of.simps) (simp add: list_is_last_def get_next_def avl_next_def avl_rd)
qed

text \<open>A leaf is hung below a node.\<close>

lemma shape_hang_left:
  fixes s s1 :: "'k avl_tree"
  assumes sh: "shape s (plug c (Node Leaf n r))" and new: "new \<notin> set (inorder (plug c (Node Leaf n r)))" "new \<noteq> 0" "n_left s new = 0" "n_right s new = 0"
    and s1: "n_parent s1 = (n_parent s)(new := n)" "n_left s1 = (n_left s)(n := new)" "n_right s1 = n_right s" "t_root s1 = t_root s"
  shows "shape s1 (plug c (Node (Node Leaf new Leaf) n r))"
proof -
  note at = shape_plug [OF sh] and out = shape_node(1,3,4) [OF sh]
  have new': "new \<notin> set_path c" "new \<notin> set_tree r" "new \<noteq> n" using new(1) by (auto simp: inorder_plug set_path)
  then have "same_links (set_path c) s s1" "same_links (set_tree r) s s1" using out s1 by (auto simp: same_links_def)
  then have "path_at s1 (n_parent s n) n c" "tree_at s1 n (n_right s n) r" using at s1(4) by (simp_all add: path_cong tree_cong)
  then show ?thesis using at out new new' s1 sh
    by (intro shape_plugI [of s1 "n_parent s n" n]) (auto simp: shape_def inorder_plug)
qed

lemma shape_hang_right:
  fixes s s1 :: "'k avl_tree"
  assumes sh: "shape s (plug c (Node l n Leaf))" and new: "new \<notin> set (inorder (plug c (Node l n Leaf)))" "new \<noteq> 0" "n_left s new = 0" "n_right s new = 0"
    and s1: "n_parent s1 = (n_parent s)(new := n)" "n_right s1 = (n_right s)(n := new)" "n_left s1 = n_left s" "t_root s1 = t_root s"
  shows "shape s1 (plug c (Node l n (Node Leaf new Leaf)))"
proof -
  note at = shape_plug [OF sh] and out = shape_node(1,2,4) [OF sh]
  have new': "new \<notin> set_path c" "new \<notin> set_tree l" "new \<noteq> n" using new(1) by (auto simp: inorder_plug set_path)
  then have "same_links (set_path c) s s1" "same_links (set_tree l) s s1" using out s1 by (auto simp: same_links_def)
  then have "path_at s1 (n_parent s n) n c" "tree_at s1 n (n_left s n) l" using at s1(4) by (simp_all add: path_cong tree_cong)
  then show ?thesis using at out new new' s1 sh
    by (intro shape_plugI [of s1 "n_parent s n" n]) (auto simp: shape_def inorder_plug)
qed

lemma insert_left_restores:
  fixes s s1 :: "'k avl_tree"
  assumes g: "good s (plug c (Node Leaf n r))" and new: "new \<notin> set (inorder (plug c (Node Leaf n r)))" "new \<noteq> 0" "n_left s new = 0" "n_right s new = 0" "n_balance s new = 0"
    and s1: "n_parent s1 = (n_parent s)(new := n)" "n_left s1 = (n_left s)(n := new)" "n_right s1 = n_right s" "t_root s1 = t_root s"
      "n_balance s1 = (n_balance s)(n := n_balance s n - 1)"
  shows "restores (if n_balance s n = 1 then Some s1 else post_insert n s1) s1 (before c @ new # n # inorder r @ after c)"
proof -
  let ?t = "Node (Node Leaf new Leaf) n r"
  have sh: "shape s (plug c (Node Leaf n r))" using g by (simp add: good_def)
  note out = shape_node(3,4) [OF sh]
  have sh1: "shape s1 (plug c ?t)" using shape_hang_left [OF sh new(1-4) s1(1-4)] .
  have gp: "n_balance s n = int (height r)" "bf (n_balance s) r" "height r \<le> 1" "avl r" "path_bf (n_balance s) (Suc (height r)) c" "path_avl (Suc (height r)) c"
    using g by (auto simp: good_plug)
  have new': "new \<noteq> n" "new \<notin> set_tree r" using new(1) by (auto simp: inorder_plug)
  have bf: "bf (n_balance s1) ?t" "path_bf (n_balance s1) (Suc (height r)) c" using gp out new new' by (simp_all add: s1(5))
  have xs: "inorder (plug c ?t) = before c @ new # n # inorder r @ after c" by (simp add: inorder_plug)
  show ?thesis
  proof (cases "height r = 1")
    case True
    then have "good s1 (plug c ?t)" using gp bf(2) by (intro good_at [OF sh1 bf(1)]) auto
    then show ?thesis using True gp(1) xs by (auto intro!: restoresI simp: same_rest_def)
  next
    case False
    then have "height r = 0" using gp(3) by linarith
    then show ?thesis using post_insert_restores [OF sh1 bf(1), of "Suc 0"] gp bf(2) xs by simp
  qed
qed

lemma insert_right_restores:
  fixes s s1 :: "'k avl_tree"
  assumes g: "good s (plug c (Node l n Leaf))" and new: "new \<notin> set (inorder (plug c (Node l n Leaf)))" "new \<noteq> 0" "n_left s new = 0" "n_right s new = 0" "n_balance s new = 0"
    and s1: "n_parent s1 = (n_parent s)(new := n)" "n_right s1 = (n_right s)(n := new)" "n_left s1 = n_left s" "t_root s1 = t_root s"
      "n_balance s1 = (n_balance s)(n := n_balance s n + 1)"
  shows "restores (if n_balance s n = - 1 then Some s1 else post_insert n s1) s1 (before c @ inorder l @ n # new # after c)"
proof -
  let ?t = "Node l n (Node Leaf new Leaf)"
  have sh: "shape s (plug c (Node l n Leaf))" using g by (simp add: good_def)
  note out = shape_node(2,4) [OF sh]
  have sh1: "shape s1 (plug c ?t)" using shape_hang_right [OF sh new(1-4) s1(1-4)] .
  have gp: "n_balance s n = - int (height l)" "bf (n_balance s) l" "height l \<le> 1" "avl l" "path_bf (n_balance s) (Suc (height l)) c" "path_avl (Suc (height l)) c"
    using g by (auto simp: good_plug)
  have new': "new \<noteq> n" "new \<notin> set_tree l" using new(1) by (auto simp: inorder_plug)
  have bf: "bf (n_balance s1) ?t" "path_bf (n_balance s1) (Suc (height l)) c" using gp out new new' by (simp_all add: s1(5))
  have xs: "inorder (plug c ?t) = before c @ inorder l @ n # new # after c" by (simp add: inorder_plug)
  show ?thesis
  proof (cases "height l = 1")
    case True
    then have "good s1 (plug c ?t)" using gp bf(2) by (intro good_at [OF sh1 bf(1)]) auto
    then show ?thesis using True gp(1) xs by (auto intro!: restoresI simp: same_rest_def)
  next
    case False
    then have "height l = 0" using gp(3) by linarith
    then show ?thesis using post_insert_restores [OF sh1 bf(1), of "Suc 0"] gp bf(2) xs by simp
  qed
qed

lemma ring_same: "l_next s' = l_next s \<Longrightarrow> l_prev s' = l_prev s \<Longrightarrow> ring s' h xs = ring s h xs"
  by (rule ring_cong) auto

text \<open>The fields that the list operations and the new links leave alone.\<close>

definition linked_rest :: "'k avl_tree \<Rightarrow> 'k avl_tree \<Rightarrow> bool" where
  "linked_rest s s' \<longleftrightarrow> n_key s' = n_key s \<and> n_leader s' = n_leader s \<and> t_head s' = t_head s \<and> t_root s' = t_root s \<and>
     t_count s' = t_count s + 1 \<and> t_allow_dups s' = t_allow_dups s"

lemma avl_link_left_eq:
  assumes "ring s (t_head s) (us @ n # ws)" "new \<notin> set (t_head s # us @ n # ws)" "new \<noteq> 0"
  shows "\<exists>s1. avl_link_left n new b s = Some s1 \<and> ring s1 (t_head s) (us @ new # n # ws) \<and> linked_rest s s1 \<and>
    n_parent s1 = (n_parent s)(new := n) \<and> n_left s1 = (n_left s)(n := new) \<and> n_right s1 = n_right s \<and> n_balance s1 = (n_balance s)(n := b)"
proof -
  note add = list_add_before [OF assms]
  let ?l = "linked new (last (t_head s # us)) n s"
  let ?s = "?l\<lparr>t_count := t_count s + 1, n_balance := (n_balance s)(n := b), n_parent := (n_parent s)(new := n), n_left := (n_left s)(n := new)\<rparr>"
  have "n \<noteq> 0" using assms(1) by (auto simp: ring_def)
  then have "avl_link_left n new b s = Some ?s"
    using add(1) assms(3) by (simp add: avl_link_left_def avl_insert_before_def avl_wr linked_def)
  moreover have "ring ?s (t_head s) (us @ new # n # ws)" using add(2) ring_same [of ?s ?l] by simp
  ultimately show ?thesis by (auto simp: linked_rest_def linked_def)
qed

lemma avl_link_right_eq:
  assumes "ring s (t_head s) (us @ z # ws)" "new \<notin> set (t_head s # us @ z # ws)" "new \<noteq> 0" "n \<noteq> 0"
  shows "\<exists>s1. avl_link_right n z new b s = Some s1 \<and> ring s1 (t_head s) (us @ z # new # ws) \<and> linked_rest s s1 \<and>
    n_parent s1 = (n_parent s)(new := n) \<and> n_right s1 = (n_right s)(n := new) \<and> n_left s1 = n_left s \<and> n_balance s1 = (n_balance s)(n := b)"
proof -
  note add = list_add_behind [OF assms(1-3)]
  let ?l = "linked new z (hd (ws @ [t_head s])) s"
  let ?s = "?l\<lparr>t_count := t_count s + 1, n_balance := (n_balance s)(n := b), n_parent := (n_parent s)(new := n), n_right := (n_right s)(n := new)\<rparr>"
  have "avl_link_right n z new b s = Some ?s"
    using add(1) assms(3,4) by (simp add: avl_link_right_def avl_insert_after_def avl_wr linked_def)
  moreover have "ring ?s (t_head s) (us @ z # new # ws)" using add(2) ring_same [of ?s ?l] by simp
  ultimately show ?thesis by (auto simp: linked_rest_def linked_def)
qed

lemma while_split:
  "\<forall>x \<in> set xs. P x \<Longrightarrow> \<forall>y \<in> set ys. \<not> P y \<Longrightarrow> takeWhile P (xs @ ys) = xs \<and> dropWhile P (xs @ ys) = ys"
  by (cases ys) (auto simp: takeWhile_append2)

lemma rep_tree_nodes: "avl_rep cmp s gs \<Longrightarrow> inorder T = map hd gs \<Longrightarrow> set_tree T \<subseteq> set (concat gs)"
proof -
  assume "avl_rep cmp s gs" and T: "inorder T = map hd gs"
  then have "hd g \<in> set g" if "g \<in> set gs" for g using that by (auto simp: avl_rep_def groups_def)
  moreover have "set_tree T = hd ` set gs" using T by (metis set_inorder set_map)
  ultimately show ?thesis by auto
qed

lemma avl_fresh_node_rep:
  assumes "avl_rep cmp s gs" "new \<notin> set (concat gs)" "new \<noteq> 0"
  shows "\<exists>s0. avl_fresh_node new s = Some s0 \<and> avl_rep cmp s0 gs \<and> n_left s0 new = 0 \<and> n_right s0 new = 0 \<and> n_parent s0 new = 0 \<and>
    n_balance s0 new = 0 \<and> n_leader s0 new \<and> n_key s0 = n_key s \<and> t_allow_dups s0 = t_allow_dups s \<and> t_head s0 = t_head s \<and> t_root s0 = t_root s"
proof -
  let ?s = "s\<lparr>n_parent := (n_parent s)(new := 0), n_left := (n_left s)(new := 0), n_right := (n_right s)(new := 0),
    n_balance := (n_balance s)(new := 0), n_leader := (n_leader s)(new := True)\<rparr>"
  obtain T where T: "good s T" "inorder T = map hd gs" using assms(1) by (auto simp: avl_rep_def)
  have nT: "new \<notin> set_tree T" using rep_tree_nodes [OF assms(1) T(2)] assms(2) by auto
  have "good ?s T = good s T" using nT by (intro good_cong) (auto simp: same_links_def)
  moreover have "groups cmp ?s gs = groups cmp s gs" using assms(2) by (intro groups_cong) auto
  moreover have "ring ?s (t_head s) (concat gs) = ring s (t_head s) (concat gs)" by (rule ring_same) auto
  ultimately have "avl_rep cmp ?s gs" using assms(1) T unfolding avl_rep_def by auto
  moreover have "avl_fresh_node new s = Some ?s" using assms(3) by (simp add: avl_fresh_node_def avl_wr)
  ultimately show ?thesis by auto
qed

context comparator
begin

lemma groups_insert:
  assumes "groups cmp s (A @ B)" "n_leader s new"
    and "\<forall>g \<in> set A. 0 < cmp (n_key s new) (n_key s (hd g))" "\<forall>g \<in> set B. cmp (n_key s new) (n_key s (hd g)) < 0"
  shows "groups cmp s (A @ [new] # B)"
  using assms by (auto simp: groups_def sorted_wrt_append cmp_swap)

lemma groups_append:
  assumes "groups cmp s (A @ g # B)" "\<not> n_leader s new" "t_allow_dups s" "cmp (n_key s new) (n_key s (hd g)) = 0"
  shows "groups cmp s (A @ (g @ [new]) # B)"
proof -
  have "g \<noteq> []" using assms(1) by (auto simp: groups_def)
  then show ?thesis using assms by (auto simp: groups_def sorted_wrt_append)
qed

text \<open>The place of a key among the groups is its place in the list.\<close>

lemma groups_place:
  assumes "groups cmp s (A @ B)"
    and "\<forall>g \<in> set A. cmp (n_key s (hd g)) k \<le> 0" "\<forall>g \<in> set B. 0 < cmp (n_key s (hd g)) k"
  shows "takeWhile (\<lambda>x. cmp (n_key s x) k \<le> 0) (concat (A @ B)) = concat A" "dropWhile (\<lambda>x. cmp (n_key s x) k \<le> 0) (concat (A @ B)) = concat B"
proof -
  have eq: "cmp (n_key s x) (n_key s (hd g)) = 0" if "g \<in> set (A @ B)" "x \<in> set g" for g x
    using assms(1) that by (auto simp: groups_def)
  have le: "cmp (n_key s x) k \<le> 0" if x: "x \<in> set (concat A)" for x
  proof -
    obtain g where g: "g \<in> set A" "x \<in> set g" using x by auto
    have "cmp (n_key s x) (n_key s (hd g)) \<le> 0" using eq [of g x] g by simp
    then show ?thesis using cmp_trans assms(2) g(1) by blast
  qed
  have gt: "0 < cmp (n_key s x) k" if x: "x \<in> set (concat B)" for x
  proof -
    obtain g where g: "g \<in> set B" "x \<in> set g" using x by auto
    have "cmp k (n_key s (hd g)) < 0" using assms(3) g(1) cmp_swap by blast
    then show ?thesis using cmp_eq_subst(2) [OF eq [of g x]] g cmp_swap by auto
  qed
  have "\<forall>x \<in> set (concat A). cmp (n_key s x) k \<le> 0" "\<forall>x \<in> set (concat B). \<not> cmp (n_key s x) k \<le> 0"
    using le gt by (auto simp del: set_concat simp: not_le)
  from while_split [OF this]
  show "takeWhile (\<lambda>x. cmp (n_key s x) k \<le> 0) (concat (A @ B)) = concat A" "dropWhile (\<lambda>x. cmp (n_key s x) k \<le> 0) (concat (A @ B)) = concat B"
    by simp_all
qed

end

lemma link_rep:
  assumes "restores r s1 (map hd gs')" "linked_rest s s1" "ring s1 (t_head s) (concat gs')" "groups cmp s gs'"
    and "t_count s = of_nat (length (concat gs))" "length (concat gs') = Suc (length (concat gs))"
  shows "\<exists>s'. r = Some s' \<and> avl_rep cmp s' gs' \<and> same_keys s s'"
proof -
  have "groups cmp s1 gs'" using assms(2,4) groups_cong [of gs' s1 s cmp] by (simp add: linked_rest_def)
  then show ?thesis using restores_rep [OF assms(1), of cmp] assms(2,3,5,6) by (simp add: linked_rest_def same_keys_def)
qed

lemma groups_last_of:
  assumes "ring s (t_head s) (concat (A @ g # B))" "groups cmp s (A @ g # B)"
  shows "avl_last_of (hd g) s = Some (last g)"
proof -
  obtain a rest where g: "g = a # rest" using assms(2) by (cases g) (auto simp: groups_def)
  have "n_leader s (hd (concat B))" if "concat B \<noteq> []"
    using that assms(2) by (cases B) (auto simp: groups_def)
  moreover have "\<forall>x \<in> set rest. \<not> n_leader s x" using assms(2) by (simp add: groups_def g)
  ultimately show ?thesis using avl_last_of_group [of s "concat A" a rest "concat B"] assms(1) by (simp add: g)
qed

context comparator
begin

text \<open>The insertion of a node that has been prepared by \<^const>\<open>avl_fresh_node\<close>: a key smaller than that of the group
  where the search ends, a larger one, and an equal one.\<close>

lemma avl_insert_smaller:
  assumes rep: "ring s (t_head s) (concat (A @ g # B))" "groups cmp s (A @ g # B)" "t_count s = of_nat (length (concat (A @ g # B)))"
    and tree: "good s (plug c (Node Leaf (hd g) r))" "map hd A = before c" "map hd B = inorder r @ after c"
    and new: "new \<notin> set (t_head s # concat (A @ g # B))" "new \<noteq> 0" "n_left s new = 0" "n_right s new = 0" "n_balance s new = 0" "n_leader s new"
    and key: "\<forall>g' \<in> set A. 0 < cmp (n_key s new) (n_key s (hd g'))" "\<forall>g' \<in> set (g # B). cmp (n_key s new) (n_key s (hd g')) < 0"
  shows "\<exists>s1 s'. avl_link_left (hd g) new (n_balance s (hd g) - 1) s = Some s1 \<and>
    (if n_balance s (hd g) = 1 then Some s1 else post_insert (hd g) s1) = Some s' \<and> avl_rep cmp s' (A @ [new] # g # B) \<and> same_keys s s'"
proof -
  obtain a rest where g: "g = a # rest" using rep(2) by (cases g) (auto simp: groups_def)
  from avl_link_left_eq [of s "concat A" a "rest @ concat B" new "n_balance s a - 1"] rep(1) new(1,2)
  obtain s1 where s1: "avl_link_left a new (n_balance s a - 1) s = Some s1" "ring s1 (t_head s) (concat (A @ [new] # g # B))"
    "linked_rest s s1" "n_parent s1 = (n_parent s)(new := a)" "n_left s1 = (n_left s)(a := new)" "n_right s1 = n_right s"
    "n_balance s1 = (n_balance s)(a := n_balance s a - 1)" by (auto simp: g)
  have "set (inorder (plug c (Node Leaf a r))) \<subseteq> set (concat (A @ g # B))"
  proof -
    have "inorder (plug c (Node Leaf a r)) = map hd (A @ g # B)" using tree(2,3) by (simp add: inorder_plug g)
    moreover have "\<forall>g' \<in> set (A @ g # B). hd g' \<in> set g'" using rep(2) by (auto simp: groups_def)
    ultimately show ?thesis by auto
  qed
  then have "new \<notin> set (inorder (plug c (Node Leaf a r)))" using new(1) by (meson list.set_intros(2) subsetD)
  then have "restores (if n_balance s a = 1 then Some s1 else post_insert a s1) s1 (before c @ new # a # inorder r @ after c)"
    using insert_left_restores [of s c a r new s1] tree(1) new(2-5) s1(3-7) by (simp add: g linked_rest_def)
  then have "restores (if n_balance s a = 1 then Some s1 else post_insert a s1) s1 (map hd (A @ [new] # g # B))"
    using tree(2,3) by (simp add: g)
  from link_rep [OF this s1(3) s1(2) groups_insert [OF rep(2) new(6) key] rep(3)] s1(1) show ?thesis by (auto simp: g)
qed

lemma avl_insert_larger:
  assumes rep: "ring s (t_head s) (concat (A @ g # B))" "groups cmp s (A @ g # B)" "t_count s = of_nat (length (concat (A @ g # B)))"
    and tree: "good s (plug c (Node l (hd g) Leaf))" "map hd A = before c @ inorder l" "map hd B = after c"
    and new: "new \<notin> set (t_head s # concat (A @ g # B))" "new \<noteq> 0" "n_left s new = 0" "n_right s new = 0" "n_balance s new = 0" "n_leader s new"
    and key: "\<forall>g' \<in> set (A @ [g]). 0 < cmp (n_key s new) (n_key s (hd g'))" "\<forall>g' \<in> set B. cmp (n_key s new) (n_key s (hd g')) < 0"
  shows "\<exists>s1 s'. avl_link_right (hd g) (last g) new (n_balance s (hd g) + 1) s = Some s1 \<and>
    (if n_balance s (hd g) = - 1 then Some s1 else post_insert (hd g) s1) = Some s' \<and> avl_rep cmp s' (A @ g # [new] # B) \<and> same_keys s s'"
proof -
  let ?a = "hd g"
  have g: "g \<noteq> []" using rep(2) by (auto simp: groups_def)
  then have gl: "g @ xs = butlast g @ last g # xs" for xs by (metis append_butlast_last_id append_Cons append_Nil append_assoc)
  have a: "?a \<noteq> 0" using shape_node(1) tree(1) by (auto simp: good_def)
  have r': "ring s (t_head s) ((concat A @ butlast g) @ last g # concat B)" using rep(1) gl by simp
  have n': "new \<notin> set (t_head s # (concat A @ butlast g) @ last g # concat B)" using new(1) g by (auto dest: in_set_butlastD)
  from avl_link_right_eq [OF r' n' new(2) a, of "n_balance s ?a + 1"]
  obtain s1 where s1: "avl_link_right ?a (last g) new (n_balance s ?a + 1) s = Some s1" "ring s1 (t_head s) (concat (A @ g # [new] # B))"
    "linked_rest s s1" "n_parent s1 = (n_parent s)(new := ?a)" "n_right s1 = (n_right s)(?a := new)" "n_left s1 = n_left s"
    "n_balance s1 = (n_balance s)(?a := n_balance s ?a + 1)" using gl by auto
  have "set (inorder (plug c (Node l ?a Leaf))) \<subseteq> set (concat (A @ g # B))"
  proof -
    have "inorder (plug c (Node l ?a Leaf)) = map hd (A @ g # B)" using tree(2,3) by (simp add: inorder_plug)
    moreover have "\<forall>g' \<in> set (A @ g # B). hd g' \<in> set g'" using rep(2) by (auto simp: groups_def)
    ultimately show ?thesis by auto
  qed
  then have "new \<notin> set (inorder (plug c (Node l ?a Leaf)))" using new(1) by (meson list.set_intros(2) subsetD)
  then have "restores (if n_balance s ?a = - 1 then Some s1 else post_insert ?a s1) s1 (before c @ inorder l @ ?a # new # after c)"
    using insert_right_restores [of s c l ?a new s1] tree(1) new(2-5) s1(3-7) by (simp add: linked_rest_def)
  then have res: "restores (if n_balance s ?a = - 1 then Some s1 else post_insert ?a s1) s1 (map hd (A @ g # [new] # B))"
    using tree(2,3) by simp
  have "groups cmp s (A @ g # [new] # B)" using groups_insert [of s "A @ [g]" B new] rep(2) new(6) key by simp
  from link_rep [OF res s1(3) s1(2) this rep(3)] s1(1) show ?thesis by auto
qed

end

lemma rep_root: "avl_rep cmp s gs \<Longrightarrow> t_root s = 0 \<longleftrightarrow> gs = []"
proof -
  assume "avl_rep cmp s gs"
  then obtain T where "good s T" "inorder T = map hd gs" by (auto simp: avl_rep_def)
  then show ?thesis by (cases T) (auto simp: good_def shape_def)
qed

lemma avl_insert_empty:
  assumes rep: "avl_rep cmp s []" and new: "new \<noteq> t_head s" "new \<noteq> 0" "n_left s new = 0" "n_right s new = 0" "n_parent s new = 0" "n_balance s new = 0" "n_leader s new"
    and refl: "cmp (n_key s new) (n_key s new) = 0"
  shows "\<exists>s1. list_add new (t_head s) s = Some s1 \<and> avl_rep cmp (s1\<lparr>t_root := new, t_count := 1\<rparr>) [[new]] \<and> same_keys s s1"
proof -
  have r: "ring s (t_head s) []" using rep by (simp add: avl_rep_def)
  let ?l = "linked new (t_head s) (t_head s) s"
  let ?s = "?l\<lparr>t_root := new, t_count := 1\<rparr>"
  have add: "list_add new (t_head s) s = Some ?l" "ring ?l (t_head s) [new]"
    using list_add_ring [OF r, of new] new(1,2) by auto
  have "ring ?s (t_head s) [new]" using add(2) ring_same [of ?s ?l] by simp
  moreover have "good ?s (Node Leaf new Leaf)" using new by (simp add: good_def shape_def linked_def)
  moreover have "groups cmp ?s [[new]]" using new(7) refl by (simp add: groups_def linked_def)
  ultimately have "avl_rep cmp ?s [[new]]" unfolding avl_rep_def
    by (intro conjI exI [of _ "Node Leaf new Leaf"]) (simp_all add: linked_def)
  then show ?thesis using add(1) by (auto simp: linked_def same_keys_def)
qed

context comparator
begin

lemma avl_insert_equal:
  assumes rep: "ring s (t_head s) (concat (A @ g # B))" "groups cmp s (A @ g # B)" "t_count s = of_nat (length (concat (A @ g # B)))"
    and tree: "good s T" "inorder T = map hd (A @ g # B)"
    and new: "new \<notin> set (t_head s # concat (A @ g # B))" "new \<noteq> 0" and key: "cmp (n_key s new) (n_key s (hd g)) = 0" "t_allow_dups s"
  shows "\<exists>s1 s2. wr n_leader_update new False s = Some s1 \<and> avl_insert_after (last g) new s1 = Some s2 \<and>
    avl_rep cmp s2 (A @ (g @ [new]) # B) \<and> same_keys s s2"
proof -
  let ?s1 = "s\<lparr>n_leader := (n_leader s)(new := False)\<rparr>"
  have g: "g \<noteq> []" using rep(2) by (auto simp: groups_def)
  then have gl: "g @ xs = butlast g @ last g # xs" for xs by (metis append_butlast_last_id append_Cons append_Nil append_assoc)
  have "ring ?s1 (t_head s) ((concat A @ butlast g) @ last g # concat B)" using rep(1) gl ring_same [of ?s1 s] by simp
  note add = list_add_behind [OF this _ new(2)]
  have n': "new \<notin> set (t_head s # (concat A @ butlast g) @ last g # concat B)" using new(1) g by (auto dest: in_set_butlastD)
  let ?l = "linked new (last g) (hd (concat B @ [t_head s])) ?s1"
  let ?s2 = "?l\<lparr>t_count := t_count s + 1\<rparr>"
  have "avl_insert_after (last g) new ?s1 = Some ?s2" using add(1) [OF n'] by (simp add: avl_insert_after_def linked_def)
  moreover have "avl_rep cmp ?s2 (A @ (g @ [new]) # B)"
    unfolding avl_rep_def
  proof (intro conjI exI [of _ T])
    show "ring ?s2 (t_head ?s2) (concat (A @ (g @ [new]) # B))"
      using add(2) [OF n', unfolded append_assoc, folded gl] ring_same [of ?s2 ?l] by (simp add: linked_def)
    have "groups cmp ?s1 (A @ g # B)" using rep(2) new(1) groups_cong [of "A @ g # B" ?s1 s cmp] by auto
    then have "groups cmp ?s1 (A @ (g @ [new]) # B)" using groups_append [of ?s1 A g B new] key by simp
    then show "groups cmp ?s2 (A @ (g @ [new]) # B)" using groups_cong [of "A @ (g @ [new]) # B" ?s2 ?s1 cmp] by (simp add: linked_def)
    show "good ?s2 T" using tree(1) good_cong [of T s ?s2] by (simp add: linked_def same_links_def)
    show "inorder T = map hd (A @ (g @ [new]) # B)" using tree(2) g by simp
    show "t_count ?s2 = of_nat (length (concat (A @ (g @ [new]) # B)))" using rep(3) by simp
  qed
  ultimately show ?thesis using new(2) by (auto simp: avl_wr linked_def same_keys_def)
qed

text \<open>Whether a key occurs.\<close>

lemma groups_occurs:
  assumes "groups cmp s gs" "\<forall>g \<in> set gs. cmp k (n_key s (hd g)) \<noteq> 0"
  shows "\<forall>x \<in> set (concat gs). cmp k (n_key s x) \<noteq> 0"
proof
  fix x assume "x \<in> set (concat gs)"
  then obtain g where g: "g \<in> set gs" "x \<in> set g" by auto
  then have "cmp (n_key s x) (n_key s (hd g)) = 0" using assms(1) by (auto simp: groups_def)
  from cmp_eq_subst(3) [OF this, of k] show "cmp k (n_key s x) \<noteq> 0" using assms(2) g(1) by blast
qed

lemma avl_insert_step:
  assumes "avl_fresh_node new s = Some s0" "t_root s0 \<noteq> 0" "new \<noteq> 0" "a \<noteq> 0"
    and "avl_find_rec cmp (t_root s0) (n_key s0 new) s0 = Some (a, cmp (n_key s0 new) (n_key s0 a))" "avl_last_of a s0 = Some z"
  shows "avl_insert cmp new s = (let diff = cmp (n_key s0 new) (n_key s0 a); b = n_balance s0 a in
     if diff = 0 then (if \<not> t_allow_dups s0 then Some (- 1, s0)
       else do { s \<leftarrow> wr n_leader_update new False s0; s \<leftarrow> avl_insert_after z new s; Some (0, s) })
     else if b = 1 then do { s \<leftarrow> avl_link_left a new 0 s0; Some (0, s) }
     else if b = - 1 then do { s \<leftarrow> avl_link_right a z new 0 s0; Some (0, s) }
     else if diff < 0 then do { s \<leftarrow> avl_link_left a new (- 1) s0; s \<leftarrow> post_insert a s; Some (0, s) }
     else do { s \<leftarrow> avl_link_right a z new 1 s0; s \<leftarrow> post_insert a s; Some (0, s) })"
  using assms by (simp add: avl_insert_def avl_rd Let_def)

lemma avl_insert_rep:
  assumes rep: "avl_rep cmp s gs" and new: "new \<notin> set (t_head s # concat gs)" "new \<noteq> 0"
  defines "k \<equiv> n_key s new"
  shows "\<exists>ret s'. avl_insert cmp new s = Some (ret, s') \<and> same_keys s s' \<and>
    (if (\<exists>x \<in> set (concat gs). cmp k (n_key s x) = 0) \<and> \<not> t_allow_dups s then ret = - 1 \<and> avl_rep cmp s' gs
     else ret = 0 \<and> avl_inv cmp s' (takeWhile (\<lambda>x. cmp (n_key s x) k \<le> 0) (concat gs) @ new # dropWhile (\<lambda>x. cmp (n_key s x) k \<le> 0) (concat gs)))"
proof -
  obtain s0 where s0: "avl_fresh_node new s = Some s0" "avl_rep cmp s0 gs" and f: "n_left s0 new = 0" "n_right s0 new = 0" "n_parent s0 new = 0"
    "n_balance s0 new = 0" "n_leader s0 new" and same: "n_key s0 = n_key s" "t_allow_dups s0 = t_allow_dups s" "t_head s0 = t_head s"
    using avl_fresh_node_rep [OF rep, of new] new by auto
  have k0: "n_key s0 new = k" by (simp add: k_def same)
  show ?thesis
  proof (cases "t_root s0 = 0")
    case True
    then have gs: "gs = []" using rep_root [OF s0(2)] by simp
    obtain s1 where s1: "list_add new (t_head s0) s0 = Some s1" "avl_rep cmp (s1\<lparr>t_root := new, t_count := 1\<rparr>) [[new]]" "same_keys s0 s1"
      using avl_insert_empty [OF s0(2) [unfolded gs]] f new same by auto
    then have "avl_insert cmp new s = Some (0, s1\<lparr>t_root := new, t_count := 1\<rparr>)" using s0(1) True by (simp add: avl_insert_def)
    moreover have "avl_inv cmp (s1\<lparr>t_root := new, t_count := 1\<rparr>) [new]" unfolding avl_inv_def using s1(2) by (intro exI [of _ "[[new]]"]) simp
    ultimately show ?thesis using gs s1(3) same by (simp add: same_keys_def)
  next
    case False
    obtain A g B c l r where gs: "gs = A @ g # B" and T: "good s0 (plug c (Node l (hd g) r))" "map hd A = before c @ inorder l" "map hd B = inorder r @ after c"
      and find: "avl_find_rec cmp (t_root s0) k s0 = Some (hd g, cmp k (n_key s0 (hd g)))"
      and leaf: "cmp k (n_key s0 (hd g)) < 0 \<longrightarrow> l = Leaf" "0 < cmp k (n_key s0 (hd g)) \<longrightarrow> r = Leaf"
      and AB: "\<forall>g' \<in> set A. 0 < cmp k (n_key s0 (hd g'))" "\<forall>g' \<in> set B. cmp k (n_key s0 (hd g')) < 0"
      by (rule avl_find_rec_rep [OF s0(2) False, of k])
    let ?a = "hd g" and ?P = "\<lambda>x. cmp (n_key s x) k \<le> 0"
    have parts: "ring s0 (t_head s0) (concat (A @ g # B))" "groups cmp s0 (A @ g # B)" "t_count s0 = of_nat (length (concat (A @ g # B)))"
      using s0(2) by (simp_all add: avl_rep_def gs)
    have new0: "new \<notin> set (t_head s0 # concat (A @ g # B))" using new(1) by (simp add: gs same)
    have a: "?a \<noteq> 0" "?a \<in> set (concat gs)" using shape_node(1) T(1) parts(2) by (auto simp: good_def groups_def gs)
    note un = avl_insert_step [OF s0(1) False new(2) a(1) find [folded k0] groups_last_of [OF parts(1,2)]]
    note place = groups_place [of s0, unfolded same(1)]
    have A: "\<forall>g' \<in> set A. cmp (n_key s (hd g')) k \<le> 0" using AB(1) cmp_flip(1) by (simp add: same)
    have B: "\<forall>g' \<in> set B. 0 < cmp (n_key s (hd g')) k" using AB(2) cmp_flip(2) by (simp add: same)
    consider "cmp k (n_key s0 ?a) = 0" | "cmp k (n_key s0 ?a) < 0" | "0 < cmp k (n_key s0 ?a)" by linarith
    then show ?thesis
    proof cases
      case 1
      then have ex: "\<exists>x \<in> set (concat gs). cmp k (n_key s x) = 0" using a(2) same(1) by auto
      show ?thesis
      proof (cases "t_allow_dups s0")
        case True
        have "inorder (plug c (Node l ?a r)) = map hd (A @ g # B)" using T(2,3) by (simp add: inorder_plug)
        then obtain s1 s2 where s2: "wr n_leader_update new False s0 = Some s1" "avl_insert_after (last g) new s1 = Some s2"
          "avl_rep cmp s2 (A @ (g @ [new]) # B)" "same_keys s0 s2"
          using avl_insert_equal [OF parts T(1) _ new0 new(2)] 1 True k0 by auto
        have "\<forall>g' \<in> set (A @ [g]). cmp (n_key s (hd g')) k \<le> 0" using A 1 cmp_eq_swap [of k] by (auto simp: same)
        from place [of "A @ [g]" B k] this B parts(2)
        have "avl_inv cmp s2 (takeWhile ?P (concat gs) @ new # dropWhile ?P (concat gs))"
          unfolding avl_inv_def gs by (intro exI [of _ "A @ (g @ [new]) # B"]) (simp add: s2(3))
        moreover have "avl_insert cmp new s = Some (0, s2)" using un 1 True s2(1,2) by (simp add: k0 Let_def)
        ultimately show ?thesis using ex True same s2(4) by (simp add: same_keys_def)
      next
        case False
        then have "avl_insert cmp new s = Some (- 1, s0)" using un 1 by (simp add: k0 Let_def)
        then show ?thesis using False ex s0(2) same by (simp add: same_keys_def)
      qed
    next
      case 2
      then have l: "l = Leaf" using leaf(1) by simp
      have gB: "\<forall>g' \<in> set (g # B). cmp k (n_key s0 (hd g')) < 0" using 2 AB(2) by simp
      obtain s1 s' where s1: "avl_link_left ?a new (n_balance s0 ?a - 1) s0 = Some s1"
        "(if n_balance s0 ?a = 1 then Some s1 else post_insert ?a s1) = Some s'" "avl_rep cmp s' (A @ [new] # g # B)" "same_keys s0 s'"
        using avl_insert_smaller [OF parts, of c r new] T new0 new(2) f AB(1) gB k0 by (auto simp: l)
      have b: "n_balance s0 ?a \<in> {0, 1}" using T(1) by (auto simp: good_plug l le_Suc_eq)
      have "avl_insert cmp new s = Some (0, s')"
        using un 2 b s1(1,2) by (cases "n_balance s0 ?a = 1") (auto simp: k0 Let_def)
      moreover have "avl_inv cmp s' (takeWhile ?P (concat gs) @ new # dropWhile ?P (concat gs))"
      proof -
        have "\<forall>g' \<in> set (g # B). 0 < cmp (n_key s (hd g')) k" using gB cmp_flip(2) by (simp add: same)
        from place [OF parts(2) A this] show ?thesis
          unfolding avl_inv_def gs by (intro exI [of _ "A @ [new] # g # B"]) (simp add: s1(3))
      qed
      moreover have "\<forall>x \<in> set (concat gs). cmp k (n_key s x) \<noteq> 0"
        using groups_occurs [OF parts(2), of k] AB(1) gB unfolding gs same(1) by fastforce
      ultimately show ?thesis using same s1(4) by (auto simp: same_keys_def)
    next
      case 3
      then have r: "r = Leaf" using leaf(2) by simp
      have gA: "\<forall>g' \<in> set (A @ [g]). 0 < cmp k (n_key s0 (hd g'))" using 3 AB(1) by simp
      obtain s1 s' where s1: "avl_link_right ?a (last g) new (n_balance s0 ?a + 1) s0 = Some s1"
        "(if n_balance s0 ?a = - 1 then Some s1 else post_insert ?a s1) = Some s'" "avl_rep cmp s' (A @ g # [new] # B)" "same_keys s0 s'"
        using avl_insert_larger [OF parts, of c l new] T new0 new(2) f AB(2) gA k0 by (auto simp: r)
      have b: "n_balance s0 ?a \<in> {0, - 1}" using T(1) by (auto simp: good_plug r le_Suc_eq)
      have "avl_insert cmp new s = Some (0, s')"
        using un 3 b s1(1,2) by (cases "n_balance s0 ?a = - 1") (auto simp: k0 Let_def)
      moreover have "avl_inv cmp s' (takeWhile ?P (concat gs) @ new # dropWhile ?P (concat gs))"
      proof -
        have "\<forall>g' \<in> set (A @ [g]). cmp (n_key s (hd g')) k \<le> 0" using gA cmp_flip(1) by (simp add: same)
        from place [of "A @ [g]" B k] this B parts(2) show ?thesis
          unfolding avl_inv_def gs by (intro exI [of _ "A @ g # [new] # B"]) (simp add: s1(3))
      qed
      moreover have "\<forall>x \<in> set (concat gs). cmp k (n_key s x) \<noteq> 0"
        using groups_occurs [OF parts(2), of k] AB(2) gA unfolding gs same(1) by fastforce
      ultimately show ?thesis using same s1(4) by (auto simp: same_keys_def)
    qed
  qed
qed

end

section \<open>Deletion\<close>

lemma avl_remove_rep:
  assumes r: "ring s (t_head s) (us @ node # ws)" and T: "good s T" "inorder T = map hd gs" and gr: "groups cmp s gs"
    and xs: "concat gs = us @ ws" "t_count s = of_nat (Suc (length (us @ ws)))"
  shows "\<exists>s'. avl_remove node s = Some s' \<and> avl_rep cmp s' gs \<and> same_keys s s'"
proof -
  note del = list_del_ring [OF r]
  define d where "d = deleted node (last (t_head s # us)) (hd (ws @ [t_head s])) s"
  let ?s = "d\<lparr>t_count := t_count s - 1\<rparr>"
  have eqs: "n_parent d = n_parent s" "n_left d = n_left s" "n_right d = n_right s" "n_balance d = n_balance s" "n_key d = n_key s" "n_leader d = n_leader s"
    "t_head d = t_head s" "t_root d = t_root s" "t_count d = t_count s" "t_allow_dups d = t_allow_dups s"
    by (simp_all add: d_def deleted_def del: last.simps)
  have "avl_remove node s = Some ?s" using del(1) eqs by (simp add: avl_remove_def d_def [symmetric] del: last.simps)
  moreover have "ring ?s (t_head s) (us @ ws)" using del(2) ring_same [of ?s d] by (simp add: d_def del: last.simps)
  moreover have "good ?s T" using T(1) good_cong [of T s ?s] by (simp add: same_links_def eqs)
  moreover have "groups cmp ?s gs" using gr groups_cong [of gs ?s s cmp] by (simp add: eqs)
  ultimately show ?thesis using T(2) xs eqs by (auto simp: avl_rep_def same_keys_def)
qed

lemma groups_mid: "groups cmp s (A @ g # B) \<Longrightarrow> groups cmp s (A @ B)"
  by (auto simp: groups_def sorted_wrt_append)

lemma groups_drop:
  assumes "groups cmp s (A @ (a # p @ x # q) # B)"
  shows "groups cmp s (A @ (a # p @ q) # B)" "\<not> n_leader s x"
  using assms by (auto simp: groups_def sorted_wrt_append)

lemma inorder_swap:
  assumes "inorder (plug c (Node l n r)) = xs @ n # ys" "distinct (xs @ n # ys)"
  shows "inorder (plug c (Node l m r)) = xs @ m # ys"
proof -
  have "(before c @ inorder l) @ n # (inorder r @ after c) = xs @ n # ys" using assms(1) by (simp add: inorder_plug)
  moreover have "n \<notin> set xs" "n \<notin> set ys" using assms(2) by auto
  ultimately have "before c @ inorder l = xs \<and> inorder r @ after c = ys"
    using append_Cons_eq_iff [of n xs ys "before c @ inorder l" "inorder r @ after c"] by metis
  then show ?thesis by (auto simp: inorder_plug)
qed

text \<open>A node that is not the leader of its group leaves the tree as it is.\<close>

lemma avl_delete_member:
  assumes rep: "avl_rep cmp s (A @ (a # p @ node # q) # B)"
  shows "\<exists>s'. avl_delete node s = Some s' \<and> avl_rep cmp s' (A @ (a # p @ q) # B) \<and> same_keys s s'"
proof -
  obtain T where T: "good s T" "inorder T = map hd (A @ (a # p @ q) # B)" using rep by (auto simp: avl_rep_def)
  have r: "ring s (t_head s) ((concat A @ a # p) @ node # (q @ concat B))" using rep by (simp add: avl_rep_def)
  have gr: "groups cmp s (A @ (a # p @ q) # B)" "\<not> n_leader s node" using groups_drop [of cmp s A a p node q B] rep by (simp_all add: avl_rep_def)
  have "node \<noteq> 0" using r by (auto simp: ring_def)
  then have "avl_delete node s = avl_remove node s" using gr by (simp add: avl_delete_def avl_rd)
  then show ?thesis using avl_remove_rep [OF r T gr(1)] rep by (simp add: avl_rep_def)
qed

text \<open>A leader without followers is taken out of the tree.\<close>

lemma avl_delete_single:
  assumes rep: "avl_rep cmp s (A @ [node] # B)"
  shows "\<exists>s'. avl_delete node s = Some s' \<and> avl_rep cmp s' (A @ B) \<and> same_keys s s'"
proof -
  obtain T where T: "good s T" "inorder T = map hd A @ node # map hd B" using rep by (auto simp: avl_rep_def)
  have r: "ring s (t_head s) (concat A @ node # concat B)" and gr: "groups cmp s (A @ [node] # B)" using rep by (simp_all add: avl_rep_def)
  note nx = ring_next [OF r]
  have nz: "node \<noteq> 0" and lead: "n_leader s node" using r gr by (auto simp: ring_def groups_def)
  have "avl_has_dup node s = Some False"
  proof (cases B)
    case Nil
    then show ?thesis using nx nz by (simp add: avl_has_dup_def list_is_last_def get_next_def)
  next
    case (Cons g' B')
    then obtain b q where b: "g' = b # q" "n_leader s b" using gr by (cases g') (auto simp: groups_def)
    then have "b \<noteq> 0" "b \<noteq> t_head s" using r by (auto simp: Cons ring_def)
    then show ?thesis using nx nz Cons b by (simp add: avl_has_dup_def list_is_last_def get_next_def avl_next_def avl_rd)
  qed
  then have un: "avl_delete node s = avl_delete_worker node s \<bind> avl_remove node" using lead nz by (simp add: avl_delete_def avl_rd)
  have "distinct (map hd A @ node # map hd B)" using T by (auto simp: good_def shape_def)
  then have rm: "remove1 node (inorder T) = map hd (A @ B)" by (simp add: T(2) remove1_append)
  have "node \<in> set (inorder T)" by (simp add: T(2))
  then have "restores (avl_delete_worker node s) s (map hd (A @ B))" using avl_delete_worker_restores [OF T(1), of node] by (simp add: rm)
  then obtain s1 T1 where s1: "avl_delete_worker node s = Some s1" "good s1 T1" "inorder T1 = map hd (A @ B)" "same_rest s s1" by (auto simp: restores_def)
  have "groups cmp s1 (A @ B)" using groups_mid [OF gr] s1(4) groups_cong [of "A @ B" s1 s cmp] by (simp add: same_rest_def)
  moreover have "ring s1 (t_head s1) (concat A @ node # concat B)" using r s1(4) ring_same [of s1 s] by (simp add: same_rest_def)
  ultimately show ?thesis using avl_remove_rep [OF _ s1(2,3), of "concat A" node "concat B" cmp] rep s1(1,4)
    by (simp add: un avl_rep_def same_rest_def same_keys_def)
qed

context comparator
begin

text \<open>The second node of a group becomes its leader, and takes the place of the first one in the tree.\<close>

lemma groups_lead:
  assumes gr: "groups cmp s (A @ (a # b # q) # B)" and dis: "distinct (concat (A @ (a # b # q) # B))"
    and s1: "n_key s1 = n_key s" "n_leader s1 = (n_leader s)(b := True)" "t_allow_dups s1 = t_allow_dups s"
  shows "groups cmp s1 (A @ (b # q) # B)"
proof -
  let ?P = "\<lambda>s g. g \<noteq> [] \<and> n_leader s (hd g) \<and> (\<forall>a \<in> set (tl g). \<not> n_leader s a) \<and>
        (\<forall>a \<in> set g. cmp (n_key s a) (n_key s (hd g)) = 0) \<and> (t_allow_dups s \<or> length g = 1)"
  have ab: "cmp (n_key s b) (n_key s a) = 0" using gr by (auto simp: groups_def)
  note sub = cmp_eq_subst [OF ab]
  have "t_allow_dups s" using gr by (auto simp: groups_def)
  moreover have "b \<notin> set q" using dis by auto
  moreover have "\<forall>x \<in> set q. cmp (n_key s x) (n_key s b) = 0 \<and> \<not> n_leader s x" using gr sub(3) by (auto simp: groups_def)
  ultimately have bq: "?P s1 (b # q)" by (auto simp: s1)
  have AB: "?P s1 g" if "g \<in> set A \<union> set B" for g
  proof -
    have "?P s g" using that gr by (auto simp: groups_def)
    moreover have "b \<notin> set g" using that dis by auto
    ultimately show ?thesis by (cases g) (auto simp: s1)
  qed
  have "\<forall>g \<in> set A. cmp (n_key s (hd g)) (n_key s b) < 0" "\<forall>g \<in> set B. cmp (n_key s b) (n_key s (hd g)) < 0"
    using gr sub(1,2) by (auto simp: groups_def sorted_wrt_append)
  then have "sorted_wrt (\<lambda>g g'. cmp (n_key s1 (hd g)) (n_key s1 (hd g')) < 0) (A @ (b # q) # B)"
    using gr by (auto simp: groups_def sorted_wrt_append s1)
  moreover have "\<forall>g \<in> set (A @ (b # q) # B). ?P s1 g" using bq AB by (metis Un_iff set_ConsD set_append)
  ultimately show ?thesis unfolding groups_def by blast
qed

lemma avl_delete_leader:
  assumes rep: "avl_rep cmp s (A @ (node # b # q) # B)"
  shows "\<exists>s'. avl_delete node s = Some s' \<and> avl_rep cmp s' (A @ (b # q) # B) \<and> same_keys s s'"
proof -
  obtain T where T: "good s T" "inorder T = map hd A @ node # map hd B" using rep by (auto simp: avl_rep_def)
  have r: "ring s (t_head s) (concat A @ node # (b # q @ concat B))" and gr: "groups cmp s (A @ (node # b # q) # B)" using rep by (simp_all add: avl_rep_def)
  note nx = ring_next [OF r]
  have dis: "distinct (concat (A @ (node # b # q) # B))" and nz: "node \<noteq> 0" "b \<noteq> 0" "b \<noteq> t_head s" "b \<noteq> node" using r by (auto simp: ring_def)
  have lead: "n_leader s node" "\<not> n_leader s b" "t_allow_dups s" using gr by (auto simp: groups_def)
  define s0 where "s0 = s\<lparr>n_leader := (n_leader s)(b := True)\<rparr>"
  have "avl_has_dup node s = Some True" "avl_next node s = Some b" using nx nz lead
    by (simp_all add: avl_has_dup_def list_is_last_def get_next_def avl_next_def avl_rd)
  then have un: "avl_delete node s = avl_take_place node b s0 \<bind> avl_remove node"
    using lead nz by (simp add: avl_delete_def avl_rd avl_wr s0_def)
  have "node \<in> set (inorder T)" by (simp add: T(2))
  then obtain c l r' where c: "T = plug c (Node l node r')" using ex_plug [of node T] by auto
  have g0: "good s0 (plug c (Node l node r'))" using T(1) good_cong [of T s s0] c by (simp add: s0_def same_links_def)
  have "\<forall>g \<in> set (A @ B). n_leader s (hd g)" using gr by (auto simp: groups_def)
  then have nb: "b \<notin> set (inorder (plug c (Node l node r')))" using lead nz T(2) c by auto
  obtain s1 where s1: "avl_take_place node b s0 = Some s1" "shape s1 (plug c (Node l b r'))"
    "n_balance s1 = (n_balance s0)(b := n_balance s0 node)" "same_rest s0 s1"
    using avl_take_place_shape [of s0 c l node r' b] g0 nb nz by (auto simp: good_def)
  have "good s1 (plug c (Node l b r'))" using s1(2,3) g0 nb by (auto simp: good_plug inorder_plug set_path)
  moreover have "distinct (map hd A @ node # map hd B)" using T by (auto simp: good_def shape_def)
  then have "inorder (plug c (Node l b r')) = map hd (A @ (b # q) # B)" using inorder_swap [of c l node r' "map hd A" "map hd B" b] T(2) c by simp
  moreover have "groups cmp s1 (A @ (b # q) # B)" using groups_lead [OF gr dis, of s1] s1(4) by (simp add: s0_def same_rest_def)
  moreover have "ring s1 (t_head s1) (concat A @ node # (b # q @ concat B))"
    using r s1(4) ring_same [of s1 s] by (simp add: same_rest_def s0_def)
  ultimately show ?thesis
    using avl_remove_rep [of s1 "concat A" node "b # q @ concat B" "plug c (Node l b r')" "A @ (b # q) # B" cmp] rep s1(1,4)
    by (simp add: un avl_rep_def same_rest_def same_keys_def s0_def)
qed

lemma avl_delete_rep:
  assumes rep: "avl_rep cmp s gs" and node: "node \<in> set (concat gs)"
  shows "\<exists>s'. avl_delete node s = Some s' \<and> avl_inv cmp s' (remove1 node (concat gs)) \<and> same_keys s s'"
proof -
  obtain A g B where gs: "gs = A @ g # B" and g: "node \<in> set g" using node by (auto dest: split_list)
  have dis: "distinct (concat gs)" using rep by (auto simp: avl_rep_def ring_def)
  then have nA: "node \<notin> set (concat A)" using g by (auto simp: gs)
  have fin: ?thesis if "\<exists>s'. avl_delete node s = Some s' \<and> avl_rep cmp s' gs' \<and> same_keys s s'" "concat gs' = remove1 node (concat gs)" for gs'
    using that unfolding avl_inv_def by metis
  obtain a rest where a: "g = a # rest" using g by (cases g) auto
  consider p q where "node \<noteq> a" "rest = p @ node # q" | "node = a" "rest = []" | b q where "node = a" "rest = b # q"
    using g a by (metis list.exhaust set_ConsD split_list)
  then show ?thesis
  proof cases
    case (1 p q)
    then have "node \<notin> set p" using dis by (auto simp: gs a)
    then show ?thesis using avl_delete_member rep 1 nA by (intro fin [of "A @ (a # p @ q) # B"]) (simp_all add: gs a remove1_append)
  next
    case 2
    then show ?thesis using avl_delete_single rep nA by (intro fin [of "A @ B"]) (simp_all add: gs a remove1_append)
  next
    case (3 b q)
    then show ?thesis using avl_delete_leader rep nA by (intro fin [of "A @ (b # q) # B"]) (simp_all add: gs a remove1_append)
  qed
qed

end

section \<open>The searches along the list\<close>

text \<open>The loops of the searches for the nearest key, from a node of the list.\<close>

lemma avl_back_at:
  assumes "ring s (t_head s) (us @ x # ws)"
  shows "avl_back cmp key x (cmp key (n_key s x)) s =
    Some (let ys = filter (\<lambda>y. 0 \<le> cmp key (n_key s y)) (us @ [x]) in
      if ys = [] then (0, cmp key (n_key s (hd (us @ [x])))) else (last ys, cmp key (n_key s (last ys))))"
  using assms
proof (induction us arbitrary: x ws rule: rev_induct)
  case Nil
  have "x \<noteq> 0" "l_prev s x = t_head s" using Nil ring_prev [OF Nil] by (auto simp: ring_def)
  then show ?case by (subst avl_back.simps) (simp add: list_is_first_def get_prev_def)
next
  case (snoc u us)
  have r: "ring s (t_head s) (us @ u # x # ws)" using snoc.prems by simp
  have nz: "x \<noteq> 0" "u \<noteq> 0" "u \<noteq> t_head s" "l_prev s x = u" using r ring_prev [OF snoc.prems] by (auto simp: ring_def)
  show ?case
  proof (cases "cmp key (n_key s x) < 0")
    case True
    then have "avl_back cmp key x (cmp key (n_key s x)) s = avl_back cmp key u (cmp key (n_key s u)) s"
      using nz by (subst avl_back.simps) (simp add: list_is_first_def get_prev_def avl_rd)
    then show ?thesis using snoc.IH [OF r] True by (cases us) (simp_all add: Let_def)
  next
    case False
    then show ?thesis by (subst avl_back.simps) (simp add: Let_def)
  qed
qed

lemma avl_forth_at:
  assumes "ring s (t_head s) (us @ x # ws)"
  shows "avl_forth cmp key x s = Some (last (x # takeWhile (\<lambda>y. 0 \<le> cmp key (n_key s y)) ws))"
  using assms
proof (induction ws arbitrary: us x)
  case Nil
  have "x \<noteq> 0" "l_next s x = t_head s" using Nil ring_next [OF Nil] by (auto simp: ring_def)
  then show ?case by (subst avl_forth.simps) (simp add: list_is_last_def get_next_def)
next
  case (Cons w ws)
  have r: "ring s (t_head s) ((us @ [x]) @ w # ws)" using Cons.prems by simp
  have nz: "x \<noteq> 0" "w \<noteq> 0" "w \<noteq> t_head s" "l_next s x = w" using r ring_next [OF Cons.prems] by (auto simp: ring_def)
  show ?case using nz Cons.IH [OF r]
    by (subst avl_forth.simps) (simp add: list_is_last_def get_next_def avl_rd)
qed

lemma avl_forth_ge_at:
  assumes "ring s (t_head s) (us @ x # ws)"
  shows "avl_forth_ge cmp key x (cmp key (n_key s x)) s =
    Some (let ys = filter (\<lambda>y. cmp key (n_key s y) \<le> 0) (x # ws) in
      if ys = [] then (0, cmp key (n_key s (last (x # ws)))) else (hd ys, cmp key (n_key s (hd ys))))"
  using assms
proof (induction ws arbitrary: us x)
  case Nil
  have "x \<noteq> 0" "l_next s x = t_head s" using Nil ring_next [OF Nil] by (auto simp: ring_def)
  then show ?case by (subst avl_forth_ge.simps) (simp add: list_is_last_def get_next_def)
next
  case (Cons w ws)
  have r: "ring s (t_head s) ((us @ [x]) @ w # ws)" using Cons.prems by simp
  have nz: "x \<noteq> 0" "w \<noteq> 0" "w \<noteq> t_head s" "l_next s x = w" using r ring_next [OF Cons.prems] by (auto simp: ring_def)
  show ?case
  proof (cases "0 < cmp key (n_key s x)")
    case True
    then have "avl_forth_ge cmp key x (cmp key (n_key s x)) s = avl_forth_ge cmp key w (cmp key (n_key s w)) s"
      using nz by (subst avl_forth_ge.simps) (simp add: list_is_last_def get_next_def avl_rd)
    then show ?thesis using Cons.IH [OF r] True by (simp add: Let_def)
  next
    case False
    then show ?thesis by (subst avl_forth_ge.simps) (simp add: Let_def)
  qed
qed

lemma avl_back_ge_at:
  assumes "ring s (t_head s) (us @ x # ws)"
  shows "avl_back_ge cmp key x s = Some (last (x # takeWhile (\<lambda>y. cmp key (n_key s y) \<le> 0) (rev us)))"
  using assms
proof (induction us arbitrary: x ws rule: rev_induct)
  case Nil
  have "x \<noteq> 0" "l_prev s x = t_head s" using Nil ring_prev [OF Nil] by (auto simp: ring_def)
  then show ?case by (subst avl_back_ge.simps) (simp add: list_is_first_def get_prev_def)
next
  case (snoc u us)
  have r: "ring s (t_head s) (us @ u # x # ws)" using snoc.prems by simp
  have nz: "x \<noteq> 0" "u \<noteq> 0" "u \<noteq> t_head s" "l_prev s x = u" using r ring_prev [OF snoc.prems] by (auto simp: ring_def)
  show ?case using nz snoc.IH [OF r]
    by (subst avl_back_ge.simps) (simp add: list_is_first_def get_prev_def avl_rd)
qed

lemma sorted_filter_split:
  assumes "sorted_wrt R xs" "\<And>a b. R a b \<Longrightarrow> P b \<Longrightarrow> P a"
  shows "xs = filter P xs @ filter (\<lambda>x. \<not> P x) xs"
  using assms(1)
proof (induction xs)
  case (Cons x xs)
  then have "filter P xs = []" if "\<not> P x" using that assms(2) by (auto simp: filter_empty_conv)
  then show ?case using Cons by (cases "P x") (auto simp: filter_id_conv filter_empty_conv)
qed simp

context comparator
begin

lemma groups_sorted: "groups cmp s gs \<Longrightarrow> sorted_wrt (\<lambda>a b. cmp (n_key s a) (n_key s b) \<le> 0) (concat gs)"
proof (induction gs)
  case (Cons g gs)
  then have gs: "groups cmp s gs" by (simp add: groups_def)
  have eq: "cmp (n_key s a) (n_key s (hd g')) = 0" if "g' \<in> set (g # gs)" "a \<in> set g'" for g' a
    using that Cons.prems by (auto simp: groups_def)
  have "cmp (n_key s a) (n_key s b) \<le> 0" if "a \<in> set g" "b \<in> set g" for a b
    using eq [of g a] eq [of g b] that cmp_trans [of "n_key s a" "n_key s (hd g)" "n_key s b"] cmp_eq_swap [of "n_key s b"] by simp
  then have "sorted_wrt (\<lambda>a b. cmp (n_key s a) (n_key s b) \<le> 0) g" by (simp add: sorted_wrt_iff_nth_less)
  moreover have "cmp (n_key s a) (n_key s b) \<le> 0" if "a \<in> set g" "g' \<in> set gs" "b \<in> set g'" for a b g'
  proof -
    have "cmp (n_key s (hd g)) (n_key s (hd g')) < 0" using that Cons.prems by (auto simp: groups_def)
    then have le: "cmp (n_key s a) (n_key s (hd g')) \<le> 0" using cmp_less_trans(2) [of "n_key s a" "n_key s (hd g)" "n_key s (hd g')"] eq [of g a] that by simp
    have "cmp (n_key s (hd g')) (n_key s b) \<le> 0" using eq [of g' b] that cmp_eq_swap [of "n_key s b"] by simp
    with le show ?thesis by (rule cmp_trans)
  qed
  ultimately show ?case using Cons.IH [OF gs] by (auto simp: sorted_wrt_append)
qed simp

lemma avl_find_rep:
  assumes "avl_rep cmp s gs"
  shows "avl_find cmp key s = Some (hd (filter (\<lambda>x. cmp key (n_key s x) = 0) (concat gs) @ [0]))"
proof (cases "t_root s = 0")
  case True
  then show ?thesis using rep_root [OF assms] by (simp add: avl_find_def)
next
  case False
  have gr: "groups cmp s gs" using assms by (simp add: avl_rep_def)
  obtain A g B c l r where gs: "gs = A @ g # B" "good s (plug c (Node l (hd g) r))" "map hd A = before c @ inorder l" "map hd B = inorder r @ after c"
    and find: "avl_find_rec cmp (t_root s) key s = Some (hd g, cmp key (n_key s (hd g)))"
    and "cmp key (n_key s (hd g)) < 0 \<longrightarrow> l = Leaf" "0 < cmp key (n_key s (hd g)) \<longrightarrow> r = Leaf"
    and A: "\<forall>g' \<in> set A. 0 < cmp key (n_key s (hd g'))" and B: "\<forall>g' \<in> set B. cmp key (n_key s (hd g')) < 0"
    by (rule avl_find_rec_rep [OF assms False, of key])
  have un: "avl_find cmp key s = Some (if cmp key (n_key s (hd g)) = 0 then hd g else 0)" using False find by (simp add: avl_find_def)
  show ?thesis
  proof (cases "cmp key (n_key s (hd g)) = 0")
    case True
    have "groups cmp s A" using gr by (auto simp: gs(1) groups_def sorted_wrt_append)
    then have "\<forall>x \<in> set (concat A). cmp key (n_key s x) \<noteq> 0" using groups_occurs [of s A key] A by fastforce
    then have "filter (\<lambda>x. cmp key (n_key s x) = 0) (concat A) = []" unfolding filter_empty_conv .
    moreover obtain a rest where "g = a # rest" using gr by (cases g) (auto simp: gs(1) groups_def)
    ultimately show ?thesis using un True by (simp add: gs(1))
  next
    case neq: False
    then have "\<forall>g' \<in> set gs. cmp key (n_key s (hd g')) \<noteq> 0" using A B by (fastforce simp: gs(1))
    then have "filter (\<lambda>x. cmp key (n_key s x) = 0) (concat gs) = []" using groups_occurs [OF gr] unfolding filter_empty_conv by blast
    then show ?thesis using un neq by simp
  qed
qed

lemma avl_find_rec_node:
  assumes "avl_rep cmp s gs" "t_root s \<noteq> 0"
  obtains us x ws where "concat gs = us @ x # ws" "x \<noteq> 0" "avl_find_rec cmp (t_root s) key s = Some (x, cmp key (n_key s x))"
proof -
  obtain A g B c l r where gs: "gs = A @ g # B" "good s (plug c (Node l (hd g) r))" "map hd A = before c @ inorder l" "map hd B = inorder r @ after c"
    and find: "avl_find_rec cmp (t_root s) key s = Some (hd g, cmp key (n_key s (hd g)))"
    and "cmp key (n_key s (hd g)) < 0 \<longrightarrow> l = Leaf" "0 < cmp key (n_key s (hd g)) \<longrightarrow> r = Leaf"
    and "\<forall>g' \<in> set A. 0 < cmp key (n_key s (hd g'))" and "\<forall>g' \<in> set B. cmp key (n_key s (hd g')) < 0"
    by (rule avl_find_rec_rep [OF assms, of key])
  obtain a rest where g: "g = a # rest" using assms(1) by (cases g) (auto simp: gs(1) groups_def avl_rep_def)
  have "a \<noteq> 0" using assms(1) by (auto simp: avl_rep_def ring_def gs(1) g)
  then show thesis using that [of "concat A" a "rest @ concat B"] find by (simp add: gs(1) g)
qed

lemma avl_find_lessequal_rep:
  assumes "avl_rep cmp s gs"
  shows "avl_find_lessequal cmp key s = Some (last (0 # filter (\<lambda>x. 0 \<le> cmp key (n_key s x)) (concat gs)))"
proof (cases "t_root s = 0")
  case True
  then show ?thesis using rep_root [OF assms] by (simp add: avl_find_lessequal_def)
next
  case False
  let ?P = "\<lambda>x. 0 \<le> cmp key (n_key s x)"
  have r: "ring s (t_head s) (concat gs)" using assms by (simp add: avl_rep_def)
  obtain us x ws where x: "concat gs = us @ x # ws" "x \<noteq> 0" "avl_find_rec cmp (t_root s) key s = Some (x, cmp key (n_key s x))"
    by (rule avl_find_rec_node [OF assms False])
  define L G where "L = filter ?P (concat gs)" and "G = filter (\<lambda>x. \<not> ?P x) (concat gs)"
  have LG: "concat gs = L @ G" "\<forall>y \<in> set L. ?P y" "\<forall>y \<in> set G. \<not> ?P y"
    unfolding L_def G_def
    using sorted_filter_split [of _ "concat gs" ?P, OF groups_sorted [of s gs]] assms cmp_trans cmp_le_swap
    by (auto simp: avl_rep_def)
  have un: "avl_find_lessequal cmp key s = do { (node, diff) \<leftarrow> avl_back cmp key x (cmp key (n_key s x)) s;
      if node = 0 then Some 0 else avl_forth cmp key node s }" using False x(3) by (simp add: avl_find_lessequal_def)
  consider L1 L2 where "L = L1 @ x # L2" | G1 G2 where "G = G1 @ x # G2" "x \<notin> set L"
    using x(1) LG(1) by (metis Un_iff in_set_conv_decomp set_append)
  then show ?thesis
  proof cases
    case (1 L1 L2)
    then have Px: "?P x" using LG(2) by simp
    have rx: "ring s (t_head s) (L1 @ x # (L2 @ G))" using r by (simp add: LG(1) 1)
    have "takeWhile ?P (L2 @ G) = L2" using while_split [of L2 ?P G] LG(2,3) 1 by simp
    then have "avl_find_lessequal cmp key s = Some (last L)" using avl_back_at [OF rx] avl_forth_at [OF rx] Px x(2) 1
      by (simp add: un Let_def)
    then show ?thesis using 1 by (simp add: L_def [symmetric])
  next
    case (2 G1 G2)
    have rx: "ring s (t_head s) ((L @ G1) @ x # G2)" using r by (simp add: LG(1) 2)
    have f: "filter ?P ((L @ G1) @ [x]) = L" using LG(2,3) 2 by (simp add: filter_id_conv filter_empty_conv)
    show ?thesis
    proof (cases L rule: rev_cases)
      case Nil
      then show ?thesis using avl_back_at [OF rx, of cmp key, unfolded f] by (simp add: un Let_def L_def [symmetric])
    next
      case (snoc L' z)
      have rz: "ring s (t_head s) (L' @ z # G)" using r by (simp add: LG(1) snoc)
      have "z \<noteq> 0" using rz by (auto simp: ring_def)
      moreover have "takeWhile ?P G = []" using LG(3) by (cases G) auto
      ultimately show ?thesis using avl_back_at [OF rx, of cmp key, unfolded f] avl_forth_at [OF rz, of cmp key] snoc
        by (simp add: un Let_def L_def [symmetric])
    qed
  qed
qed

lemma avl_find_greaterequal_rep:
  assumes "avl_rep cmp s gs"
  shows "avl_find_greaterequal cmp key s = Some (hd (filter (\<lambda>x. cmp key (n_key s x) \<le> 0) (concat gs) @ [0]))"
proof (cases "t_root s = 0")
  case True
  then show ?thesis using rep_root [OF assms] by (simp add: avl_find_greaterequal_def)
next
  case False
  let ?P = "\<lambda>x. cmp key (n_key s x) \<le> 0"
  have r: "ring s (t_head s) (concat gs)" using assms by (simp add: avl_rep_def)
  obtain us x ws where x: "concat gs = us @ x # ws" "x \<noteq> 0" "avl_find_rec cmp (t_root s) key s = Some (x, cmp key (n_key s x))"
    by (rule avl_find_rec_node [OF assms False])
  define L G where "L = filter (\<lambda>x. \<not> ?P x) (concat gs)" and "G = filter ?P (concat gs)"
  have "?P b" if "?P a" "cmp (n_key s a) (n_key s b) \<le> 0" for a b using that cmp_trans by blast
  then have LG: "concat gs = L @ G" "\<forall>y \<in> set L. \<not> ?P y" "\<forall>y \<in> set G. ?P y"
    unfolding L_def G_def
    using sorted_filter_split [of _ "concat gs" "\<lambda>x. \<not> ?P x", OF groups_sorted [of s gs]] assms
    by (auto simp: avl_rep_def)
  have un: "avl_find_greaterequal cmp key s = do { (node, diff) \<leftarrow> avl_forth_ge cmp key x (cmp key (n_key s x)) s;
      if node = 0 then Some 0 else avl_back_ge cmp key node s }" using False x(3) by (simp add: avl_find_greaterequal_def)
  consider G1 G2 where "G = G1 @ x # G2" | L1 L2 where "L = L1 @ x # L2" "x \<notin> set G"
    using x(1) LG(1) by (metis Un_iff in_set_conv_decomp set_append)
  then show ?thesis
  proof cases
    case (1 G1 G2)
    then have Px: "?P x" using LG(3) by simp
    have rx: "ring s (t_head s) ((L @ G1) @ x # G2)" using r by (simp add: LG(1) 1)
    have "takeWhile ?P (rev G1 @ rev L) = rev G1" using while_split [of "rev G1" ?P "rev L"] LG(2,3) 1 by simp
    then have "avl_find_greaterequal cmp key s = Some (hd G)" using avl_forth_ge_at [OF rx] avl_back_ge_at [OF rx] Px x(2) 1
      by (cases G1) (simp_all add: un Let_def)
    then show ?thesis using 1 by (cases G1) (simp_all add: G_def [symmetric])
  next
    case (2 L1 L2)
    have rx: "ring s (t_head s) (L1 @ x # (L2 @ G))" using r by (simp add: LG(1) 2)
    have f: "filter ?P (x # L2 @ G) = G" using LG(2,3) 2 by (simp add: filter_id_conv filter_empty_conv)
    show ?thesis
    proof (cases G)
      case Nil
      then show ?thesis using avl_forth_ge_at [OF rx, of cmp key, unfolded f] by (simp add: un Let_def G_def [symmetric])
    next
      case (Cons z G')
      have rz: "ring s (t_head s) (L @ z # G')" using r by (simp add: LG(1) Cons)
      have "z \<noteq> 0" using rz by (auto simp: ring_def)
      moreover have "takeWhile ?P (rev L) = []" using LG(2) by (cases L rule: rev_cases) auto
      ultimately show ?thesis using avl_forth_ge_at [OF rx, of cmp key, unfolded f] avl_back_ge_at [OF rz, of cmp key] Cons
        by (simp add: un Let_def G_def [symmetric])
    qed
  qed
qed

end

section \<open>The properties of the tree\<close>

lemma avl_init_inv: "t_head s \<noteq> 0 \<Longrightarrow> \<exists>s'. avl_init d s = Some s' \<and> avl_inv cmp s' [] \<and> n_key s' = n_key s \<and> t_head s' = t_head s \<and> t_allow_dups s' = d"
proof -
  assume h: "t_head s \<noteq> 0"
  let ?s = "s\<lparr>l_next := (l_next s)(t_head s := t_head s), l_prev := (l_prev s)(t_head s := t_head s), t_root := 0, t_count := 0, t_allow_dups := d\<rparr>"
  have "avl_init d s = Some ?s" using h by (simp add: avl_init_def INIT_LIST_HEAD_def list_accessors)
  moreover have "ring ?s (t_head s) []" using h by (simp add: ring_def)
  moreover have "good ?s Leaf" by (simp add: good_def shape_def)
  moreover have "groups cmp ?s []" by (simp add: groups_def)
  ultimately have "avl_init d s = Some ?s" "avl_rep cmp ?s []" by (auto simp: avl_rep_def intro!: exI [of _ "Leaf :: addr tree"])
  then show ?thesis unfolding avl_inv_def by (intro exI [of _ ?s]) auto
qed

text \<open>C20: insertion.  In a tree that satisfies the invariant (the list of nodes in the order of their keys, the leaders of the
  groups of equal keys forming a balanced search tree with correct parent pointers and balances, and the right count), \<open>avl_insert\<close> of
  a fresh node always returns.  It fails with -1 and an unchanged list when the key is there and duplicates are not allowed; otherwise
  it returns 0, the node stands behind all nodes with a smaller or equal key, and the invariant holds again.\<close>

theorem avl_insert_correct:
  assumes "comparator cmp" "avl_inv cmp s xs" "new \<notin> set (t_head s # xs)" "new \<noteq> 0"
  shows "\<exists>ret s'. avl_insert cmp new s = Some (ret, s') \<and> same_keys s s' \<and>
    (if (\<exists>x \<in> set xs. cmp (n_key s new) (n_key s x) = 0) \<and> \<not> t_allow_dups s then ret = - 1 \<and> avl_inv cmp s' xs
     else ret = 0 \<and> avl_inv cmp s' (takeWhile (\<lambda>x. cmp (n_key s x) (n_key s new) \<le> 0) xs @ new #
       dropWhile (\<lambda>x. cmp (n_key s x) (n_key s new) \<le> 0) xs))"
proof -
  obtain gs where gs: "avl_rep cmp s gs" "xs = concat gs" using assms(2) by (auto simp: avl_inv_def)
  from comparator.avl_insert_rep [OF assms(1) gs(1)] assms(3,4) obtain ret s' where
    s': "avl_insert cmp new s = Some (ret, s')" "same_keys s s'"
    "if (\<exists>x \<in> set xs. cmp (n_key s new) (n_key s x) = 0) \<and> \<not> t_allow_dups s then ret = - 1 \<and> avl_rep cmp s' gs
     else ret = 0 \<and> avl_inv cmp s' (takeWhile (\<lambda>x. cmp (n_key s x) (n_key s new) \<le> 0) xs @ new #
       dropWhile (\<lambda>x. cmp (n_key s x) (n_key s new) \<le> 0) xs)"
    unfolding gs(2) by blast
  then show ?thesis using gs(2) unfolding avl_inv_def by (intro exI [of _ ret] exI [of _ s']) (auto split: if_splits)
qed

text \<open>An initial state: the keys of the nodes 2, 3, 4 and 5 are b, a, c and a, and the head of the list is at 1.\<close>

definition avl_sample :: "string avl_tree" where
  "avl_sample = \<lparr>l_next = (\<lambda>_. 0), l_prev = (\<lambda>_. 0), n_parent = (\<lambda>_. 0), n_left = (\<lambda>_. 0), n_right = (\<lambda>_. 0),
     n_key = (\<lambda>p. if p = 2 then ''b'' else if p = 4 then ''c'' else ''a''), n_balance = (\<lambda>_. 0), n_leader = (\<lambda>_. False),
     t_head = 1, t_root = 0, t_count = 0, t_allow_dups = False\<rparr>"

lemma avl_sample_init:
  obtains s where "avl_init d avl_sample = Some s" "avl_inv avl_strcmp s []" "n_key s = n_key avl_sample" "t_head s = 1" "t_allow_dups s = d"
  using avl_init_inv [of avl_sample d avl_strcmp] by (auto simp: avl_sample_def)

theorem avl_insert_correct_witness:
  "\<exists>s0 s1 s2. avl_init False avl_sample = Some s0 \<and> avl_insert avl_strcmp 2 s0 = Some (0, s1) \<and> avl_inv avl_strcmp s1 [2] \<and>
     avl_insert avl_strcmp 3 s1 = Some (0, s2) \<and> avl_inv avl_strcmp s2 [3, 2]"
proof -
  obtain s0 where s0: "avl_init False avl_sample = Some s0" "avl_inv avl_strcmp s0 []" "n_key s0 = n_key avl_sample" "t_head s0 = 1" "t_allow_dups s0 = False"
    by (rule avl_sample_init)
  obtain s1 where s1: "avl_insert avl_strcmp 2 s0 = Some (0, s1)" "same_keys s0 s1" "avl_inv avl_strcmp s1 [2]"
    using avl_insert_correct [OF strs.comparator_axioms s0(2), of 2] s0(4) by auto
  obtain s2 where "avl_insert avl_strcmp 3 s1 = Some (0, s2)" "avl_inv avl_strcmp s2 [3, 2]"
    using avl_insert_correct [OF strs.comparator_axioms s1(3), of 3] s0 s1(2) by (auto simp: same_keys_def avl_sample_def)
  then show ?thesis using s0(1) s1(1,3) by blast
qed

text \<open>C21: deletion.  \<open>avl_delete\<close> of a node of the tree always returns, and afterwards the invariant holds for the list without
  that node; in particular a follower of a deleted leader has become the leader, and the rotations have restored the balance.\<close>

theorem avl_delete_correct:
  assumes "comparator cmp" "avl_inv cmp s xs" "node \<in> set xs"
  shows "\<exists>s'. avl_delete node s = Some s' \<and> avl_inv cmp s' (remove1 node xs) \<and> same_keys s s'"
proof -
  obtain gs where "avl_rep cmp s gs" "xs = concat gs" using assms(2) by (auto simp: avl_inv_def)
  then show ?thesis using comparator.avl_delete_rep [OF assms(1)] assms(3) by blast
qed

text \<open>The tree of the witnesses: duplicates allowed, with the nodes 3 and 5 of equal keys.\<close>

lemma avl_sample_full:
  obtains s where "avl_inv avl_strcmp s [3, 5, 2, 4]" "n_key s = n_key avl_sample" "t_head s = 1" "t_allow_dups s"
proof -
  have ins: "\<exists>s'. same_keys s s' \<and> avl_inv avl_strcmp s' (takeWhile (\<lambda>x. avl_strcmp (n_key s x) (n_key s new) \<le> 0) xs @ new #
       dropWhile (\<lambda>x. avl_strcmp (n_key s x) (n_key s new) \<le> 0) xs)"
    if inv: "avl_inv avl_strcmp s xs" and new: "new \<notin> set (t_head s # xs)" "new \<noteq> 0" "t_allow_dups s" for s xs new
  proof -
    obtain gs where gs: "avl_rep avl_strcmp s gs" "xs = concat gs" using inv by (auto simp: avl_inv_def)
    show ?thesis using strs.avl_insert_rep [OF gs(1)] new unfolding gs(2) by (auto split: if_splits)
  qed
  obtain s0 where s0: "avl_init True avl_sample = Some s0" "avl_inv avl_strcmp s0 []" "n_key s0 = n_key avl_sample" "t_head s0 = 1" "t_allow_dups s0 = True"
    by (rule avl_sample_init)
  obtain s1 where s1: "avl_inv avl_strcmp s1 [2]" "same_keys s0 s1" using ins [OF s0(2), of 2] s0 by auto
  obtain s2 where s2: "avl_inv avl_strcmp s2 [3, 2]" "same_keys s1 s2"
    using ins [OF s1(1), of 3] s0 s1(2) by (auto simp: same_keys_def avl_sample_def)
  obtain s3 where s3: "avl_inv avl_strcmp s3 [3, 2, 4]" "same_keys s2 s3"
    using ins [OF s2(1), of 4] s0 s1(2) s2(2) by (auto simp: same_keys_def avl_sample_def)
  obtain s4 where s4: "avl_inv avl_strcmp s4 [3, 5, 2, 4]" "same_keys s3 s4"
    using ins [OF s3(1), of 5] s0 s1(2) s2(2) s3(2) by (auto simp: same_keys_def avl_sample_def)
  show thesis using that [OF s4(1)] s0 s1(2) s2(2) s3(2) s4(2) by (simp add: same_keys_def)
qed

theorem avl_delete_correct_witness:
  "\<exists>s s1 s2. avl_inv avl_strcmp s [3, 5, 2, 4] \<and> avl_delete 3 s = Some s1 \<and> avl_inv avl_strcmp s1 [5, 2, 4] \<and>
     avl_delete 2 s1 = Some s2 \<and> avl_inv avl_strcmp s2 [5, 4]"
proof -
  obtain s where s: "avl_inv avl_strcmp s [3, 5, 2, 4]" by (rule avl_sample_full)
  obtain s1 where s1: "avl_delete 3 s = Some s1" "avl_inv avl_strcmp s1 [5, 2, 4]"
    using avl_delete_correct [OF strs.comparator_axioms s, of 3] by auto
  obtain s2 where "avl_delete 2 s1 = Some s2" "avl_inv avl_strcmp s2 [5, 4]"
    using avl_delete_correct [OF strs.comparator_axioms s1(2), of 2] by auto
  then show ?thesis using s s1 by blast
qed

text \<open>C22: the searches.  In a tree that satisfies the invariant, all three searches return.  \<open>avl_find\<close> gives the first node with
  the key, \<open>avl_find_lessequal\<close> the last node whose key is not larger, and \<open>avl_find_greaterequal\<close> the first node whose key is
  not smaller; each gives the null pointer when there is none.\<close>

theorem avl_find_correct:
  assumes "comparator cmp" "avl_inv cmp s xs"
  shows "avl_find cmp key s = Some (hd (filter (\<lambda>x. cmp key (n_key s x) = 0) xs @ [0])) \<and>
    avl_find_lessequal cmp key s = Some (last (0 # filter (\<lambda>x. 0 \<le> cmp key (n_key s x)) xs)) \<and>
    avl_find_greaterequal cmp key s = Some (hd (filter (\<lambda>x. cmp key (n_key s x) \<le> 0) xs @ [0]))"
proof -
  obtain gs where gs: "avl_rep cmp s gs" "xs = concat gs" using assms(2) by (auto simp: avl_inv_def)
  note rep = comparator.avl_find_rep [OF assms(1) gs(1)] comparator.avl_find_lessequal_rep [OF assms(1) gs(1)]
    comparator.avl_find_greaterequal_rep [OF assms(1) gs(1)]
  show ?thesis unfolding gs(2) by (intro conjI rep)
qed

theorem avl_find_correct_witness:
  "\<exists>s. avl_inv avl_strcmp s [3, 5, 2, 4] \<and> avl_find avl_strcmp ''a'' s = Some 3 \<and> avl_find avl_strcmp ''aa'' s = Some 0 \<and>
     avl_find_lessequal avl_strcmp ''aa'' s = Some 5 \<and> avl_find_greaterequal avl_strcmp ''aa'' s = Some 2"
proof -
  obtain s where s: "avl_inv avl_strcmp s [3, 5, 2, 4]" "n_key s = n_key avl_sample" by (rule avl_sample_full)
  show ?thesis
    using s(1) avl_find_correct [OF strs.comparator_axioms s(1), of "''a''"] avl_find_correct [OF strs.comparator_axioms s(1), of "''aa''"]
    by (intro exI [of _ s]) (simp add: s(2) avl_sample_def)
qed

end
