(* ===== verification/Vlist.thy ===== *)
theory Vlist
  imports Avl_Map
begin

text \<open>
  Versioned lists (\<open>libubox/vlist.c\<close>), a client of the AVL tree.  Every node carries the version of
  the tree at the time it was added; an application raises the version, adds what it finds again,
  and flushes what has not been added since.  The \<open>update\<close> callback of the application is the
  parameter \<open>upd\<close>: it receives the new and the old node, 0 where there is none, and works on the
  state \<open>'w\<close> of the application.
\<close>

section \<open>State and operations\<close>

record ('k, 'w) vlist_tree =
  v_avl :: "'k avl_tree"
  v_keep_old :: bool
  v_no_delete :: bool
  v_version :: int
  vn_version :: "addr \<Rightarrow> int"
  v_world :: 'w

type_synonym 'w vlist_update_cb = "addr \<Rightarrow> addr \<Rightarrow> 'w \<Rightarrow> 'w"

definition vlist_init :: "('k, 'w) vlist_tree \<Rightarrow> ('k, 'w) vlist_tree option" where
  "vlist_init s = do {
     t \<leftarrow> avl_init False (v_avl s);
     Some (s\<lparr>v_version := 1, v_avl := t\<rparr>)
   }"

text \<open>The version is a signed integer of 32 bits, and raising the largest one is undefined.\<close>

definition vlist_update :: "('k, 'w) vlist_tree \<Rightarrow> ('k, 'w) vlist_tree option" where
  "vlist_update s = (if v_version s = 2 ^ 31 - 1 then None else Some (s\<lparr>v_version := v_version s + 1\<rparr>))"

definition vlist_delete :: "'w vlist_update_cb \<Rightarrow> addr \<Rightarrow> ('k, 'w) vlist_tree \<Rightarrow> ('k, 'w) vlist_tree option" where
  "vlist_delete upd node s = do {
     s \<leftarrow> (if \<not> v_no_delete s then do { t \<leftarrow> avl_delete node (v_avl s); Some (s\<lparr>v_avl := t\<rparr>) } else Some s);
     Some (s\<lparr>v_world := upd 0 node (v_world s)\<rparr>)
   }"

definition vlist_add :: "'w vlist_update_cb \<Rightarrow> ('k \<Rightarrow> 'k \<Rightarrow> int) \<Rightarrow> addr \<Rightarrow> 'k \<Rightarrow> ('k, 'w) vlist_tree \<Rightarrow> ('k, 'w) vlist_tree option" where
  "vlist_add upd cmp node key s = do {
     t \<leftarrow> wr n_key_update node key (v_avl s);
     s \<leftarrow> wr vn_version_update node (v_version s) (s\<lparr>v_avl := t\<rparr>);
     anode \<leftarrow> avl_find cmp key (v_avl s);
     s \<leftarrow> (if anode \<noteq> 0 \<and> (v_keep_old s \<or> v_no_delete s) then wr vn_version_update anode (v_version s) s
       else do {
         t \<leftarrow> (if anode \<noteq> 0 then avl_delete anode (v_avl s) else Some (v_avl s));
         (_, t) \<leftarrow> avl_insert cmp node t;
         Some (s\<lparr>v_avl := t\<rparr>)
       });
     Some (s\<lparr>v_world := upd node anode (v_world s)\<rparr>)
   }"

text \<open>The condition under which \<open>vlist_flush\<close> passes over a node, and its loop, which is
  \<open>avl_for_each_element_safe\<close>: the successor is read before the body runs, and the loop ends at
  the element whose predecessor is the last element, which is the head of the list.\<close>

definition vlist_current :: "addr \<Rightarrow> ('k, 'w) vlist_tree \<Rightarrow> bool" where
  "vlist_current node s \<longleftrightarrow> (vn_version s node = v_version s \<or> vn_version s node = - 1) \<and> v_version s \<noteq> - 1"

partial_function (option) vlist_flush_loop :: "'w vlist_update_cb \<Rightarrow> addr \<Rightarrow> addr \<Rightarrow> ('k, 'w) vlist_tree \<Rightarrow> ('k, 'w) vlist_tree option" where
  "vlist_flush_loop upd element ptr s = do {
     prev \<leftarrow> get_prev element (v_avl s);
     end \<leftarrow> get_prev (t_head (v_avl s)) (v_avl s);
     if prev = end then Some s
     else do {
       s \<leftarrow> (if vlist_current element s then Some s else vlist_delete upd element s);
       ptr' \<leftarrow> get_next ptr (v_avl s);
       vlist_flush_loop upd ptr ptr' s
     }
   }"

definition vlist_flush :: "'w vlist_update_cb \<Rightarrow> ('k, 'w) vlist_tree \<Rightarrow> ('k, 'w) vlist_tree option" where
  "vlist_flush upd s = do {
     element \<leftarrow> get_next (t_head (v_avl s)) (v_avl s);
     ptr \<leftarrow> get_next element (v_avl s);
     vlist_flush_loop upd element ptr s
   }"

definition vlist_flush_all :: "'w vlist_update_cb \<Rightarrow> ('k, 'w) vlist_tree \<Rightarrow> ('k, 'w) vlist_tree option" where
  "vlist_flush_all upd s = vlist_flush upd (s\<lparr>v_version := - 1\<rparr>)"

section \<open>The invariant\<close>

lemma vlist_wr:
  "wr n_key_update p k t = (if p = 0 then None else Some (t\<lparr>n_key := (n_key t)(p := k)\<rparr>))"
  "wr vn_version_update p v s = (if p = 0 then None else Some (s\<lparr>vn_version := (vn_version s)(p := v)\<rparr>))"
  by (simp_all add: wr_def)

definition vlist_inv :: "('k \<Rightarrow> 'k \<Rightarrow> int) \<Rightarrow> ('k, 'w) vlist_tree \<Rightarrow> addr list \<Rightarrow> bool" where
  "vlist_inv cmp s xs \<longleftrightarrow> avl_inv cmp (v_avl s) xs \<and> \<not> t_allow_dups (v_avl s)"

lemma avl_inv_ring: "avl_inv cmp s xs \<Longrightarrow> ring s (t_head s) xs"
  by (auto simp: avl_inv_def avl_rep_def)

text \<open>The key of a node that is not in the tree can be set.\<close>

lemma avl_inv_key:
  assumes "avl_inv cmp s xs" "node \<notin> set xs"
  shows "avl_inv cmp (s\<lparr>n_key := (n_key s)(node := key)\<rparr>) xs"
proof -
  let ?s = "s\<lparr>n_key := (n_key s)(node := key)\<rparr>"
  obtain gs where gs: "avl_rep cmp s gs" "xs = concat gs" using assms(1) by (auto simp: avl_inv_def)
  have "groups cmp ?s gs = groups cmp s gs" using assms(2) gs(2) by (intro groups_cong) auto
  moreover have "good ?s T = good s T" for T by (rule good_cong) (auto simp: same_links_def)
  moreover have "ring ?s (t_head s) xs = ring s (t_head s) xs" by (rule ring_same) auto
  ultimately have "avl_rep cmp ?s gs" using gs unfolding avl_rep_def by auto
  then show ?thesis using gs(2) by (auto simp: avl_inv_def)
qed

text \<open>Without duplicates the keys increase strictly.\<close>

lemma avl_inv_strict:
  assumes "avl_inv cmp s xs" "\<not> t_allow_dups s"
  shows "sorted_wrt (\<lambda>a b. cmp (n_key s a) (n_key s b) < 0) xs"
proof -
  obtain gs where gs: "groups cmp s gs" "xs = concat gs" using assms(1) by (auto simp: avl_inv_def avl_rep_def)
  have "\<forall>g \<in> set gs. length g = 1" using gs(1) assms(2) by (auto simp: groups_def)
  then have "concat gs = map hd gs" by (induction gs) (auto simp: length_Suc_conv)
  then show ?thesis using gs by (simp add: sorted_wrt_map groups_def)
qed

context comparator
begin

lemma strict_split:
  assumes "sorted_wrt (\<lambda>a b. cmp (f a) (f b) < 0) (A @ x # B)" "cmp k (f x) = 0"
  shows "\<forall>a \<in> set A. cmp (f a) k < 0" "\<forall>b \<in> set B. 0 < cmp (f b) k"
    "filter (\<lambda>a. cmp k (f a) = 0) (A @ x # B) = [x]"
proof -
  have "\<forall>a \<in> set A. cmp (f a) (f x) < 0" "\<forall>b \<in> set B. cmp (f x) (f b) < 0" using assms(1) by (auto simp: sorted_wrt_append)
  then show A: "\<forall>a \<in> set A. cmp (f a) k < 0" and B: "\<forall>b \<in> set B. 0 < cmp (f b) k"
    using cmp_eq_subst(2) [OF assms(2)] cmp_eq_subst(1) [OF assms(2)] cmp_flip(2) by blast+
  have "\<forall>a \<in> set A. cmp k (f a) \<noteq> 0" "\<forall>b \<in> set B. cmp k (f b) \<noteq> 0" using A B cmp_eq_swap [of k] by fastforce+
  then show "filter (\<lambda>a. cmp k (f a) = 0) (A @ x # B) = [x]" using assms(2) by (simp add: filter_empty_conv)
qed

end

section \<open>Adding\<close>

definition same_options :: "('k, 'w) vlist_tree \<Rightarrow> ('k, 'w) vlist_tree \<Rightarrow> bool" where
  "same_options s s' \<longleftrightarrow> v_version s' = v_version s \<and> v_keep_old s' = v_keep_old s \<and> v_no_delete s' = v_no_delete s \<and>
     t_head (v_avl s') = t_head (v_avl s)"

context comparator
begin

text \<open>The tree operations in the form in which \<open>vlist_add\<close> uses them.\<close>

lemma vlist_insert_tree:
  assumes "avl_inv cmp t xs" "\<not> t_allow_dups t" "node \<notin> set (t_head t # xs)" "node \<noteq> 0" "\<forall>x \<in> set xs. cmp (n_key t node) (n_key t x) \<noteq> 0"
  shows "\<exists>t'. avl_insert cmp node t = Some (0, t') \<and> same_keys t t' \<and>
    avl_inv cmp t' (takeWhile (\<lambda>x. cmp (n_key t x) (n_key t node) \<le> 0) xs @ node # dropWhile (\<lambda>x. cmp (n_key t x) (n_key t node) \<le> 0) xs)"
proof -
  obtain gs where gs: "avl_rep cmp t gs" "xs = concat gs" using assms(1) by (auto simp: avl_inv_def)
  have "\<not> (\<exists>x \<in> set (concat gs). cmp (n_key t node) (n_key t x) = 0)" using assms(5) gs(2) by blast
  then show ?thesis using avl_insert_rep [OF gs(1), of node] assms(3,4) unfolding gs(2) by auto
qed

lemma vlist_delete_tree:
  assumes "avl_inv cmp t xs" "node \<in> set xs"
  shows "\<exists>t'. avl_delete node t = Some t' \<and> avl_inv cmp t' (remove1 node xs) \<and> same_keys t t'"
proof -
  obtain gs where "avl_rep cmp t gs" "xs = concat gs" using assms(1) by (auto simp: avl_inv_def)
  then show ?thesis using avl_delete_rep assms(2) by blast
qed

lemma vlist_find_tree:
  assumes "avl_inv cmp t xs"
  shows "avl_find cmp key t = Some (hd (filter (\<lambda>x. cmp key (n_key t x) = 0) xs @ [0]))"
  using assms avl_find_rep by (auto simp: avl_inv_def)

text \<open>An element with an equal key is replaced where it stands.\<close>

lemma vlist_replace_tree:
  assumes inv: "avl_inv cmp t (A @ x # B)" and t: "\<not> t_allow_dups t" "node \<notin> set (t_head t # A @ x # B)" "node \<noteq> 0"
    and key: "cmp (n_key t node) (n_key t x) = 0"
  shows "\<exists>t1 t2. avl_delete x t = Some t1 \<and> avl_insert cmp node t1 = Some (0, t2) \<and> same_keys t t2 \<and> avl_inv cmp t2 (A @ node # B)"
proof -
  let ?k = "n_key t node" and ?P = "\<lambda>x. cmp (n_key t x) (n_key t node) \<le> 0"
  note AB = strict_split(1,2) [OF avl_inv_strict [OF inv t(1)] key]
  have x: "x \<notin> set A" using avl_inv_ring [OF inv] by (auto simp: ring_def)
  then obtain t1 where t1: "avl_delete x t = Some t1" "avl_inv cmp t1 (A @ B)" "same_keys t t1"
    using vlist_delete_tree [OF inv, of x] by (auto simp: remove1_append)
  have ne: "\<forall>y \<in> set (A @ B). cmp (n_key t1 node) (n_key t1 y) \<noteq> 0" using AB t1(3) cmp_eq_swap [of ?k] by (fastforce simp: same_keys_def)
  have tw: "takeWhile ?P (A @ B) = A" "dropWhile ?P (A @ B) = B" using while_split [of A ?P B] AB by fastforce+
  obtain t2 where "avl_insert cmp node t1 = Some (0, t2)" "same_keys t1 t2" "avl_inv cmp t2 (A @ node # B)"
    using vlist_insert_tree [OF t1(2) _ _ t(3) ne] t t1(3) tw by (auto simp: same_keys_def)
  then show ?thesis using t1(1,3) by (auto simp: same_keys_def)
qed

lemma vlist_add_new:
  assumes inv: "vlist_inv cmp s xs" and node: "node \<notin> set (t_head (v_avl s) # xs)" "node \<noteq> 0"
    and none: "filter (\<lambda>x. cmp key (n_key (v_avl s) x) = 0) xs = []"
  shows "\<exists>s'. vlist_add upd cmp node key s = Some s' \<and> same_options s s' \<and> v_world s' = upd node 0 (v_world s) \<and>
    vn_version s' = (vn_version s)(node := v_version s) \<and> n_key (v_avl s') = (n_key (v_avl s))(node := key) \<and>
    vlist_inv cmp s' (takeWhile (\<lambda>x. cmp (n_key (v_avl s) x) key \<le> 0) xs @ node # dropWhile (\<lambda>x. cmp (n_key (v_avl s) x) key \<le> 0) xs)"
proof -
  define t where "t = v_avl s\<lparr>n_key := (n_key (v_avl s))(node := key)\<rparr>"
  have t: "avl_inv cmp t xs" "\<not> t_allow_dups t" using inv node avl_inv_key by (auto simp: t_def vlist_inv_def)
  have k: "n_key t x = n_key (v_avl s) x" if "x \<in> set xs" for x using that node by (auto simp: t_def)
  have f: "filter (\<lambda>x. cmp key (n_key t x) = 0) xs = []" using none k by (auto simp: filter_empty_conv)
  have find: "avl_find cmp key t = Some 0" using vlist_find_tree [OF t(1), of key] f by simp
  have ne: "\<forall>x \<in> set xs. cmp (n_key t node) (n_key t x) \<noteq> 0" using f by (simp add: filter_empty_conv t_def)
  have tw: "takeWhile (\<lambda>x. cmp (n_key t x) key \<le> 0) xs = takeWhile (\<lambda>x. cmp (n_key (v_avl s) x) key \<le> 0) xs"
    "dropWhile (\<lambda>x. cmp (n_key t x) key \<le> 0) xs = dropWhile (\<lambda>x. cmp (n_key (v_avl s) x) key \<le> 0) xs"
    using k by (auto intro: takeWhile_cong dropWhile_cong)
  have kn: "n_key t node = key" by (simp add: t_def)
  obtain t' where t': "avl_insert cmp node t = Some (0, t')" "same_keys t t'"
    "avl_inv cmp t' (takeWhile (\<lambda>x. cmp (n_key (v_avl s) x) key \<le> 0) xs @ node # dropWhile (\<lambda>x. cmp (n_key (v_avl s) x) key \<le> 0) xs)"
    using vlist_insert_tree [OF t _ node(2) ne] node(1) unfolding kn tw by (auto simp: t_def)
  have "vlist_add upd cmp node key s = Some (s\<lparr>v_avl := t', vn_version := (vn_version s)(node := v_version s), v_world := upd node 0 (v_world s)\<rparr>)"
    using node(2) find t'(1) by (simp add: vlist_add_def vlist_wr t_def [symmetric])
  then show ?thesis using t'(2,3) t(2) by (auto simp: same_options_def vlist_inv_def same_keys_def t_def)
qed

lemma vlist_add_old:
  assumes inv: "vlist_inv cmp s (A @ x # B)" and node: "node \<notin> set (t_head (v_avl s) # A @ x # B)" "node \<noteq> 0"
    and key: "cmp key (n_key (v_avl s) x) = 0"
  shows "\<exists>s'. vlist_add upd cmp node key s = Some s' \<and> same_options s s' \<and> v_world s' = upd node x (v_world s) \<and>
    n_key (v_avl s') = (n_key (v_avl s))(node := key) \<and>
    (if v_keep_old s \<or> v_no_delete s then vlist_inv cmp s' (A @ x # B) \<and> vn_version s' = (vn_version s)(node := v_version s, x := v_version s)
     else vlist_inv cmp s' (A @ node # B) \<and> vn_version s' = (vn_version s)(node := v_version s))"
proof -
  define t where "t = v_avl s\<lparr>n_key := (n_key (v_avl s))(node := key)\<rparr>"
  have t: "avl_inv cmp t (A @ x # B)" "\<not> t_allow_dups t" using inv node avl_inv_key [of cmp "v_avl s" "A @ x # B" node key] by (auto simp: t_def vlist_inv_def)
  have x: "x \<noteq> 0" "x \<noteq> node" using avl_inv_ring [OF t(1)] node by (auto simp: ring_def)
  have kx: "cmp key (n_key t x) = 0" "n_key t node = key" using key x by (simp_all add: t_def)
  have "filter (\<lambda>a. cmp key (n_key t a) = 0) (A @ x # B) = [x]" by (rule strict_split(3) [OF avl_inv_strict [OF t] kx(1)])
  then have find: "avl_find cmp key t = Some x" using vlist_find_tree [OF t(1), of key] by simp
  show ?thesis
  proof (cases "v_keep_old s \<or> v_no_delete s")
    case True
    then have "vlist_add upd cmp node key s = Some (s\<lparr>v_avl := t, vn_version := (vn_version s)(node := v_version s, x := v_version s), v_world := upd node x (v_world s)\<rparr>)"
      using node(2) find x by (simp add: vlist_add_def vlist_wr t_def [symmetric])
    then show ?thesis using True t by (auto simp: same_options_def vlist_inv_def t_def)
  next
    case False
    obtain t1 t2 where t2: "avl_delete x t = Some t1" "avl_insert cmp node t1 = Some (0, t2)" "same_keys t t2" "avl_inv cmp t2 (A @ node # B)"
      using vlist_replace_tree [OF t _ node(2)] node(1) kx by (auto simp: t_def)
    then have "vlist_add upd cmp node key s = Some (s\<lparr>v_avl := t2, vn_version := (vn_version s)(node := v_version s), v_world := upd node x (v_world s)\<rparr>)"
      using False node(2) find x by (simp add: vlist_add_def vlist_wr t_def [symmetric])
    then show ?thesis using False t2(3,4) t(2) by (auto simp: same_options_def vlist_inv_def same_keys_def t_def)
  qed
qed

end

section \<open>Flushing\<close>

context comparator
begin

lemma vlist_delete_inv:
  assumes "vlist_inv cmp s xs" "node \<in> set xs"
  shows "\<exists>s'. vlist_delete upd node s = Some s' \<and> vlist_inv cmp s' (if v_no_delete s then xs else remove1 node xs) \<and> same_options s s' \<and>
    v_world s' = upd 0 node (v_world s) \<and> vn_version s' = vn_version s \<and> n_key (v_avl s') = n_key (v_avl s)"
  using assms vlist_delete_tree [of "v_avl s" xs node]
  by (auto simp: vlist_delete_def vlist_inv_def same_options_def same_keys_def)

lemma vlist_flush_loop_inv:
  assumes "vlist_inv cmp s (ys @ zs)" "p \<noteq> 0" "zs \<noteq> [] \<longrightarrow> p = hd (tl zs @ [t_head (v_avl s)])"
  shows "\<exists>s'. vlist_flush_loop upd (hd (zs @ [t_head (v_avl s)])) p s = Some s' \<and> same_options s s' \<and> vn_version s' = vn_version s \<and>
    n_key (v_avl s') = n_key (v_avl s) \<and>
    v_world s' = fold (upd 0) (filter (\<lambda>x. \<not> vlist_current x s) zs) (v_world s) \<and>
    vlist_inv cmp s' (ys @ (if v_no_delete s then zs else filter (\<lambda>x. vlist_current x s) zs))"
  using assms
proof (induction zs arbitrary: ys s p)
  case Nil
  have "t_head (v_avl s) \<noteq> 0" using avl_inv_ring [of cmp "v_avl s"] Nil(1) by (auto simp: vlist_inv_def ring_def)
  then show ?case using Nil(1) by (subst vlist_flush_loop.simps) (simp add: get_prev_def same_options_def)
next
  case (Cons z zs)
  let ?h = "t_head (v_avl s)"
  have r: "ring (v_avl s) ?h (ys @ z # zs)" using avl_inv_ring Cons.prems(1) by (auto simp: vlist_inv_def)
  have nz: "z \<noteq> 0" "?h \<noteq> 0" and p: "p = hd (zs @ [?h])" using r Cons.prems(3) by (auto simp: ring_def)
  have prev: "l_prev (v_avl s) z = last (?h # ys)" "l_prev (v_avl s) ?h = last (z # zs)" using ring_prev [OF r] ring_head [OF r] by auto
  have "last (?h # ys) \<in> set (?h # ys)" "last (z # zs) \<in> set (z # zs)" by (rule last_in_set, simp)+
  then have ne: "last (?h # ys) \<noteq> last (z # zs)" using r by (auto simp: ring_def)
  obtain s1 ys1 where s1: "(if vlist_current z s then Some s else vlist_delete upd z s) = Some s1" "vlist_inv cmp s1 (ys1 @ zs)"
    "ys1 = ys @ (if vlist_current z s \<or> v_no_delete s then [z] else [])" "same_options s s1" "vn_version s1 = vn_version s"
    "v_world s1 = (if vlist_current z s then v_world s else upd 0 z (v_world s))" "n_key (v_avl s1) = n_key (v_avl s)"
  proof (cases "vlist_current z s")
    case True
    then show thesis using Cons.prems(1) by (intro that [of s "ys @ [z]"]) (simp_all add: same_options_def)
  next
    case False
    have "z \<notin> set ys" using r by (auto simp: ring_def)
    then have rm: "(if v_no_delete s then ys @ z # zs else remove1 z (ys @ z # zs)) = (ys @ (if v_no_delete s then [z] else [])) @ zs"
      by (simp add: remove1_append)
    from vlist_delete_inv [OF Cons.prems(1), of z upd] obtain s1 where s1: "vlist_delete upd z s = Some s1"
      "vlist_inv cmp s1 ((ys @ (if v_no_delete s then [z] else [])) @ zs)" "same_options s s1" "v_world s1 = upd 0 z (v_world s)"
      "vn_version s1 = vn_version s" "n_key (v_avl s1) = n_key (v_avl s)" unfolding rm by auto
    show thesis by (rule that [OF _ s1(2)]) (simp_all add: False s1)
  qed
  have r1: "ring (v_avl s1) ?h (ys1 @ zs)" using avl_inv_ring [of cmp "v_avl s1"] s1(2,4) by (auto simp: vlist_inv_def same_options_def)
  have cur: "vlist_current x s1 = vlist_current x s" for x using s1(4,5) by (simp add: vlist_current_def same_options_def)
  from ring_successor [OF r1] p obtain p' where p': "get_next p (v_avl s1) = Some p'" "p' \<noteq> 0" "zs \<noteq> [] \<longrightarrow> p' = hd (tl zs @ [?h])" by blast
  have h1: "t_head (v_avl s1) = ?h" using s1(4) by (simp add: same_options_def)
  have un: "vlist_flush_loop upd z p s = vlist_flush_loop upd (hd (zs @ [?h])) p' s1"
    using nz prev ne s1(1) p'(1) p by (subst vlist_flush_loop.simps) (simp add: get_prev_def del: last.simps)
  from Cons.IH [OF s1(2) p'(2), unfolded h1, OF p'(3)] obtain s' where
    s': "vlist_flush_loop upd (hd (zs @ [?h])) p' s1 = Some s'" "same_options s1 s'" "vn_version s' = vn_version s1" "n_key (v_avl s') = n_key (v_avl s1)"
    "v_world s' = fold (upd 0) (filter (\<lambda>x. \<not> vlist_current x s1) zs) (v_world s1)"
    "vlist_inv cmp s' (ys1 @ (if v_no_delete s1 then zs else filter (\<lambda>x. vlist_current x s1) zs))" by blast
  have "v_no_delete s1 = v_no_delete s" using s1(4) by (simp add: same_options_def)
  then show ?case using un s' s1(3-7) unfolding cur by (auto simp: same_options_def)
qed

lemma vlist_flush_inv:
  assumes inv: "vlist_inv cmp s xs"
  shows "\<exists>s'. vlist_flush upd s = Some s' \<and> same_options s s' \<and> vn_version s' = vn_version s \<and> n_key (v_avl s') = n_key (v_avl s) \<and>
    v_world s' = fold (upd 0) (filter (\<lambda>x. \<not> vlist_current x s) xs) (v_world s) \<and>
    vlist_inv cmp s' (if v_no_delete s then xs else filter (\<lambda>x. vlist_current x s) xs)"
proof -
  let ?h = "t_head (v_avl s)"
  have r: "ring (v_avl s) ?h xs" using avl_inv_ring inv by (auto simp: vlist_inv_def)
  have h: "?h \<noteq> 0" "l_next (v_avl s) ?h = hd (xs @ [?h])" using ring_head [OF r] r by (auto simp: ring_def)
  from ring_successor [of "v_avl s" ?h "[]" xs] r obtain p where
    p: "get_next (hd (xs @ [?h])) (v_avl s) = Some p" "p \<noteq> 0" "xs \<noteq> [] \<longrightarrow> p = hd (tl xs @ [?h])" by auto
  have "vlist_flush upd s = vlist_flush_loop upd (hd (xs @ [?h])) p s" using h p(1) by (simp add: vlist_flush_def get_next_def)
  then show ?thesis using vlist_flush_loop_inv [of s "[]" xs p upd] inv p(2,3) by simp
qed

end

section \<open>The properties of versioned lists\<close>

text \<open>C23: adding.  On a versioned list that satisfies the invariant, \<open>vlist_add\<close> of a fresh node returns and calls \<open>update\<close>
  exactly once.  A new key puts the node at its place in the order, with the current version.  When an old node has an equal
  key, the callback gets it as well: with \<open>keep_old\<close> or \<open>no_delete\<close> the old node stays and only its version is raised,
  otherwise the new node takes its place in the list.\<close>

theorem vlist_add_correct:
  assumes "comparator cmp" "vlist_inv cmp s xs" "node \<notin> set (t_head (v_avl s) # xs)" "node \<noteq> 0"
  shows "\<exists>s'. vlist_add upd cmp node key s = Some s' \<and> same_options s s' \<and> n_key (v_avl s') = (n_key (v_avl s))(node := key) \<and>
    (case filter (\<lambda>x. cmp key (n_key (v_avl s) x) = 0) xs of
       [] \<Rightarrow> v_world s' = upd node 0 (v_world s) \<and> vn_version s' = (vn_version s)(node := v_version s) \<and>
         vlist_inv cmp s' (takeWhile (\<lambda>x. cmp (n_key (v_avl s) x) key \<le> 0) xs @ node # dropWhile (\<lambda>x. cmp (n_key (v_avl s) x) key \<le> 0) xs)
     | x # _ \<Rightarrow> v_world s' = upd node x (v_world s) \<and>
         (if v_keep_old s \<or> v_no_delete s then vlist_inv cmp s' xs \<and> vn_version s' = (vn_version s)(node := v_version s, x := v_version s)
          else vlist_inv cmp s' (map (\<lambda>y. if y = x then node else y) xs) \<and> vn_version s' = (vn_version s)(node := v_version s)))"
proof (cases "filter (\<lambda>x. cmp key (n_key (v_avl s) x) = 0) xs")
  case Nil
  then show ?thesis using comparator.vlist_add_new [OF assms(1-4) Nil, of upd] by auto
next
  case (Cons x rest)
  then have x: "x \<in> set xs" "cmp key (n_key (v_avl s) x) = 0" by (metis (mono_tags, lifting) mem_Collect_eq set_filter list.set_intros(1))+
  then obtain A B where xs: "xs = A @ x # B" by (meson split_list)
  have d: "x \<notin> set A" "x \<notin> set B" using avl_inv_ring [of cmp "v_avl s" xs] assms(2) xs by (auto simp: vlist_inv_def ring_def)
  then have "map (\<lambda>y. if y = x then node else y) xs = A @ node # B" by (auto simp: xs intro: map_idI)
  then show ?thesis using comparator.vlist_add_old [OF assms(1) assms(2,3) [unfolded xs] assms(4) x(2), of upd] Cons xs by auto
qed

text \<open>C24: flushing.  \<open>vlist_flush\<close> of a list that satisfies the invariant returns.  It calls \<open>update\<close> for exactly the
  outdated nodes (all of them, when the version is -1), in the order of the list, and removes them unless \<open>no_delete\<close> is set.\<close>

theorem vlist_flush_correct:
  assumes "comparator cmp" "vlist_inv cmp s xs"
  shows "\<exists>s'. vlist_flush upd s = Some s' \<and> same_options s s' \<and> vn_version s' = vn_version s \<and> n_key (v_avl s') = n_key (v_avl s) \<and>
    v_world s' = fold (upd 0) (filter (\<lambda>x. \<not> vlist_current x s) xs) (v_world s) \<and>
    vlist_inv cmp s' (if v_no_delete s then xs else filter (\<lambda>x. vlist_current x s) xs)"
  by (rule comparator.vlist_flush_inv [OF assms])

text \<open>A versioned list of two nodes in version 1; the application keeps a log of the calls.\<close>

definition vlist_sample :: "(string, (addr \<times> addr) list) vlist_tree" where
  "vlist_sample = \<lparr>v_avl = avl_sample, v_keep_old = False, v_no_delete = False, v_version = 0, vn_version = (\<lambda>_. 0), v_world = []\<rparr>"

abbreviation log_update :: "(addr \<times> addr) list vlist_update_cb" where
  "log_update new old w \<equiv> w @ [(new, old)]"

lemma vlist_sample_init:
  obtains s where "vlist_init vlist_sample = Some s" "vlist_inv avl_strcmp s []" "v_version s = 1" "v_world s = []" "t_head (v_avl s) = 1"
    "v_keep_old s = False" "v_no_delete s = False"
proof -
  obtain t where "avl_init False avl_sample = Some t" "avl_inv avl_strcmp t []" "n_key t = n_key avl_sample" "t_head t = 1" "t_allow_dups t = False"
    by (rule avl_sample_init)
  then show thesis using that by (auto simp: vlist_init_def vlist_sample_def vlist_inv_def)
qed

theorem vlist_add_correct_witness:
  "\<exists>s0 s1 s2 s3. vlist_init vlist_sample = Some s0 \<and> vlist_add log_update avl_strcmp 2 ''b'' s0 = Some s1 \<and> vlist_inv avl_strcmp s1 [2] \<and>
     vlist_add log_update avl_strcmp 3 ''a'' s1 = Some s2 \<and> vlist_inv avl_strcmp s2 [3, 2] \<and>
     vlist_add log_update avl_strcmp 4 ''a'' s2 = Some s3 \<and> vlist_inv avl_strcmp s3 [4, 2] \<and> v_world s3 = [(2, 0), (3, 0), (4, 3)]"
proof -
  obtain s0 where s0: "vlist_init vlist_sample = Some s0" "vlist_inv avl_strcmp s0 []" "v_version s0 = 1" "v_world s0 = []" "t_head (v_avl s0) = 1"
    "v_keep_old s0 = False" "v_no_delete s0 = False" by (rule vlist_sample_init)
  note add = vlist_add_correct [OF strs.comparator_axioms, of _ _ _ log_update]
  obtain s1 where s1: "vlist_add log_update avl_strcmp 2 ''b'' s0 = Some s1" "same_options s0 s1" "n_key (v_avl s1) 2 = ''b''"
    "v_world s1 = [(2, 0)]" "vlist_inv avl_strcmp s1 [2]" using add [OF s0(2), of 2 "''b''"] s0(4,5) by auto
  obtain s2 where s2: "vlist_add log_update avl_strcmp 3 ''a'' s1 = Some s2" "same_options s1 s2" "n_key (v_avl s2) 2 = ''b''" "n_key (v_avl s2) 3 = ''a''"
    "v_world s2 = [(2, 0), (3, 0)]" "vlist_inv avl_strcmp s2 [3, 2]" using add [OF s1(5), of 3 "''a''"] s0(5) s1(2-4) by (auto simp: same_options_def)
  obtain s3 where "vlist_add log_update avl_strcmp 4 ''a'' s2 = Some s3" "v_world s3 = [(2, 0), (3, 0), (4, 3)]" "vlist_inv avl_strcmp s3 [4, 2]"
    using add [OF s2(6), of 4 "''a''"] s0(5-7) s1(2) s2(2-5) by (auto simp: same_options_def)
  then show ?thesis using s0(1) s1(1,5) s2(1,6) by blast
qed

theorem vlist_flush_correct_witness:
  "\<exists>s s'. vlist_inv avl_strcmp s [2] \<and> \<not> vlist_current 2 s \<and> vlist_flush log_update s = Some s' \<and> vlist_inv avl_strcmp s' [] \<and> v_world s' = v_world s @ [(0, 2)]"
proof -
  obtain s0 where s0: "vlist_init vlist_sample = Some s0" "vlist_inv avl_strcmp s0 []" "v_version s0 = 1" "v_world s0 = []" "t_head (v_avl s0) = 1"
    "v_keep_old s0 = False" "v_no_delete s0 = False" by (rule vlist_sample_init)
  have "2 \<notin> set (t_head (v_avl s0) # [])" using s0(5) by simp
  from strs.vlist_add_new [OF s0(2) this, of "''b''" log_update] obtain s1 where
    s1: "vlist_inv avl_strcmp s1 [2]" "same_options s0 s1" "vn_version s1 2 = 1" using s0(3) by auto
  define s where "s = s1\<lparr>v_version := 2\<rparr>"
  have s: "vlist_inv avl_strcmp s [2]" "\<not> vlist_current 2 s" "v_no_delete s = False" using s1 s0(7) by (simp_all add: s_def vlist_inv_def vlist_current_def same_options_def)
  obtain s' where "vlist_flush log_update s = Some s'" "v_world s' = v_world s @ [(0, 2)]" "vlist_inv avl_strcmp s' []"
    using vlist_flush_correct [OF strs.comparator_axioms s(1), of log_update] s(2,3) by auto
  then show ?thesis using s(1,2) by blast
qed

end
