(* ===== verification/Ustream.thy ===== *)
theory Ustream
  imports Prelude
begin

text \<open>
  Buffered streams (\<open>libubox/ustream.c\<close>, \<open>ustream.h\<close>).  A
  chain of buffers is a list; \<open>data_tail\<close> is the index of the buffer that takes the next data.  A buffer
  has its memory and the offsets of its data, its tail and its end; writing behind the memory is a
  fault.  The first buffer is the only one that is ever freed or recycled.

  The function pointers of a stream (\<open>write\<close>, \<open>set_read_blocked\<close>, \<open>free\<close>, \<open>poll\<close> and the notifications) are
  parameters that take the whole stream, as in the code, and may fault; what lies behind a stream is a state
  \<open>'w\<close>.  That the timer \<open>state_change\<close> is armed is the flag \<open>s_state_change\<close>; \<open>alloc\<close> is the default one.
  Lengths are the non-negative values of the \<open>int\<close> arguments.
\<close>

section \<open>Buffers\<close>

record ustream_buf =
  b_mem :: bytes
  b_data :: nat
  b_tail :: nat
  b_end :: nat

record ustream_buf_list =
  l_bufs :: "ustream_buf list"
  l_data_tail :: "nat option"
  l_data_bytes :: int
  l_min_buffers :: int
  l_max_buffers :: int
  l_buffer_len :: nat
  l_buffers :: int

text \<open>\<open>ustream_init_buf\<close> aborts on a buffer without room; it terminates the empty contents.\<close>

definition ustream_init_buf :: "bytes \<Rightarrow> nat \<Rightarrow> ustream_buf option" where
  "ustream_init_buf mem len =
     (if len = 0 then None
      else do { mem \<leftarrow> mem_write mem 0 [0]; Some \<lparr>b_mem = mem, b_data = 0, b_tail = 0, b_end = len\<rparr> })"

definition ustream_add_buf :: "ustream_buf \<Rightarrow> ustream_buf_list \<Rightarrow> ustream_buf_list" where
  "ustream_add_buf buf l = l\<lparr>l_buffers := l_buffers l + 1, l_bufs := l_bufs l @ [buf],
     l_data_tail := (case l_data_tail l of None \<Rightarrow> Some 0 | Some d \<Rightarrow> Some d)\<rparr>"

definition ustream_can_alloc :: "ustream_buf_list \<Rightarrow> bool" where
  "ustream_can_alloc l \<longleftrightarrow> l_max_buffers l \<le> 0 \<or> l_buffers l < l_max_buffers l"

text \<open>New memory is taken as zero bytes.\<close>

definition ustream_alloc_default :: "bool \<Rightarrow> ustream_buf_list \<Rightarrow> (int \<times> ustream_buf_list) option" where
  "ustream_alloc_default string_data l =
     (if \<not> ustream_can_alloc l then Some (- 1, l)
      else do {
        buf \<leftarrow> ustream_init_buf (replicate (l_buffer_len l + (if string_data then 1 else 0)) 0) (l_buffer_len l);
        Some (0, ustream_add_buf buf l)
      })"

definition ustream_free_buffers :: "ustream_buf_list \<Rightarrow> ustream_buf_list" where
  "ustream_free_buffers l = l\<lparr>l_bufs := [], l_data_tail := None\<rparr>"

definition ustream_should_move :: "ustream_buf_list \<Rightarrow> nat \<Rightarrow> ustream_buf \<Rightarrow> nat \<Rightarrow> bool" where
  "ustream_should_move l d buf len =
     (if b_data buf = 0 then False
      else if b_data buf > b_end buf div 2 then True
      else if b_tail buf - b_data buf < 32 \<and> b_data buf > b_end buf div 4 then True
      else if Suc d \<noteq> length (l_bufs l) \<or> ustream_can_alloc l then False
      else b_end buf - b_tail buf < len)"

text \<open>\<open>ustream_free_buf\<close> of the first buffer.\<close>

definition ustream_free_buf :: "ustream_buf_list \<Rightarrow> ustream_buf_list option" where
  "ustream_free_buf l = (case l_bufs l of
     [] \<Rightarrow> None
   | buf # bufs \<Rightarrow>
       let l = l\<lparr>l_bufs := bufs, l_buffers := l_buffers l - 1,
             l_data_tail := (case l_data_tail l of None \<Rightarrow> None | Some 0 \<Rightarrow> (if bufs = [] then None else Some 0) | Some (Suc d) \<Rightarrow> Some d)\<rparr> in
       if l_buffers l \<ge> l_min_buffers l then Some l
       else do { buf \<leftarrow> ustream_init_buf (b_mem buf) (b_end buf); Some (ustream_add_buf buf l) })"

definition ustream_fixup_string :: "bool \<Rightarrow> ustream_buf \<Rightarrow> ustream_buf option" where
  "ustream_fixup_string string_data buf =
     (if \<not> string_data then Some buf
      else do { mem \<leftarrow> mem_write (b_mem buf) (b_tail buf) [0]; Some (buf\<lparr>b_mem := mem\<rparr>) })"

text \<open>The contents of a buffer move to its front; \<open>fixup\<close> says that the buffer belongs to the read side
  of a stream with string data.\<close>

definition ustream_move_buf :: "bool \<Rightarrow> ustream_buf \<Rightarrow> ustream_buf option" where
  "ustream_move_buf fixup buf = do {
     let len = b_tail buf - b_data buf;
     bs \<leftarrow> mem_read (b_mem buf) (b_data buf) len;
     mem \<leftarrow> mem_write (b_mem buf) 0 bs;
     ustream_fixup_string fixup (buf\<lparr>b_mem := mem, b_data := 0, b_tail := len\<rparr>)
   }"

definition ustream_prepare_alloc :: "bool \<Rightarrow> ustream_buf_list \<Rightarrow> (bool \<times> ustream_buf_list) option" where
  "ustream_prepare_alloc string_data l =
     (if \<not> ustream_can_alloc l then Some (False, l)
      else do {
        (r, l) \<leftarrow> ustream_alloc_default string_data l;
        if r < 0 then Some (False, l)
        else Some (True, l\<lparr>l_data_tail := Some (length (l_bufs l) - 1)\<rparr>)
      })"

definition ustream_prepare_buf :: "bool \<Rightarrow> bool \<Rightarrow> nat \<Rightarrow> ustream_buf_list \<Rightarrow> (bool \<times> ustream_buf_list) option" where
  "ustream_prepare_buf string_data fixup len l = (case l_data_tail l of
     None \<Rightarrow> ustream_prepare_alloc string_data l
   | Some d \<Rightarrow>
       if d \<ge> length (l_bufs l) then None
       else do {
         let buf = l_bufs l ! d;
         buf \<leftarrow> (if ustream_should_move l d buf len then ustream_move_buf fixup buf else Some buf);
         let l = l\<lparr>l_bufs := (l_bufs l)[d := buf]\<rparr>;
         if b_tail buf \<noteq> b_end buf then Some (True, l)
         else if Suc d < length (l_bufs l) then Some (True, l\<lparr>l_data_tail := Some (Suc d)\<rparr>)
         else ustream_prepare_alloc string_data l
       })"

section \<open>Streams\<close>

record 'w ustream =
  s_r :: ustream_buf_list
  s_w :: ustream_buf_list
  s_string_data :: bool
  s_write_error :: bool
  s_eof :: bool
  s_eof_write_done :: bool
  s_read_blocked :: u32
  s_state_change :: bool
  s_world :: 'w

abbreviation READ_BLOCKED_USER :: u32 where "READ_BLOCKED_USER \<equiv> 1"
abbreviation READ_BLOCKED_FULL :: u32 where "READ_BLOCKED_FULL \<equiv> 2"

text \<open>The callbacks of a stream; those that may be missing are options.  \<open>op_write\<close> gives the number of bytes it accepts, or
  a negative number.\<close>

record 'w ustream_ops =
  op_write :: "bytes \<Rightarrow> bool \<Rightarrow> 'w ustream \<Rightarrow> (int \<times> 'w ustream) option"
  op_notify_read :: "(int \<Rightarrow> 'w ustream \<Rightarrow> 'w ustream option) option"
  op_notify_write :: "(int \<Rightarrow> 'w ustream \<Rightarrow> 'w ustream option) option"
  op_notify_state :: "('w ustream \<Rightarrow> 'w ustream option) option"
  op_set_read_blocked :: "('w ustream \<Rightarrow> 'w ustream option) option"
  op_free :: "('w ustream \<Rightarrow> 'w ustream option) option"
  op_poll :: "('w ustream \<Rightarrow> (bool \<times> 'w ustream) option) option"

definition notify :: "('w ustream \<Rightarrow> 'w ustream option) option \<Rightarrow> 'w ustream \<Rightarrow> 'w ustream option" where
  "notify f s = (case f of None \<Rightarrow> Some s | Some f \<Rightarrow> f s)"

definition notify_n :: "(int \<Rightarrow> 'w ustream \<Rightarrow> 'w ustream option) option \<Rightarrow> int \<Rightarrow> 'w ustream \<Rightarrow> 'w ustream option" where
  "notify_n f n s = (case f of None \<Rightarrow> Some s | Some f \<Rightarrow> f n s)"

definition ustream_state_change :: "'w ustream \<Rightarrow> 'w ustream" where
  "ustream_state_change s = s\<lparr>s_state_change := True\<rparr>"

definition ustream_read_blocked :: "'w ustream \<Rightarrow> bool" where
  "ustream_read_blocked s \<longleftrightarrow> s_read_blocked s AND READ_BLOCKED_USER \<noteq> 0"

definition ustream_pending_data :: "bool \<Rightarrow> 'w ustream \<Rightarrow> int" where
  "ustream_pending_data write s = l_data_bytes (if write then s_w s else s_r s)"

definition ustream_read_buf_full :: "'w ustream \<Rightarrow> bool" where
  "ustream_read_buf_full s = (case l_data_tail (s_r s) of
     None \<Rightarrow> False
   | Some d \<Rightarrow> let buf = l_bufs (s_r s) ! d in
       b_data buf = 0 \<and> b_tail buf = b_end buf \<and> l_buffers (s_r s) = l_max_buffers (s_r s))"

definition ustream_poll :: "'w ustream_ops \<Rightarrow> 'w ustream \<Rightarrow> (bool \<times> 'w ustream) option" where
  "ustream_poll ops s = (case op_poll ops of None \<Rightarrow> Some (False, s) | Some f \<Rightarrow> f s)"

definition ustream_free :: "'w ustream_ops \<Rightarrow> 'w ustream \<Rightarrow> 'w ustream option" where
  "ustream_free ops s = do {
     s \<leftarrow> notify (op_free ops) s;
     Some (s\<lparr>s_state_change := False, s_r := ustream_free_buffers (s_r s), s_w := ustream_free_buffers (s_w s)\<rparr>)
   }"

definition ustream_state_change_cb :: "'w ustream_ops \<Rightarrow> 'w ustream \<Rightarrow> 'w ustream option" where
  "ustream_state_change_cb ops s =
     notify (op_notify_state ops) (if s_write_error s then s\<lparr>s_w := ustream_free_buffers (s_w s)\<rparr> else s)"

definition default_set :: "'a :: zero \<Rightarrow> 'a \<Rightarrow> 'a" where
  "default_set v d = (if v = 0 then d else v)"

definition ustream_init_defaults :: "'w ustream \<Rightarrow> 'w ustream" where
  "ustream_init_defaults s = s\<lparr>
     s_r := (s_r s)\<lparr>l_min_buffers := default_set (l_min_buffers (s_r s)) 1, l_max_buffers := default_set (l_max_buffers (s_r s)) 1,
       l_buffer_len := default_set (l_buffer_len (s_r s)) 4096, l_buffers := 0, l_data_bytes := 0\<rparr>,
     s_w := (s_w s)\<lparr>l_min_buffers := default_set (l_min_buffers (s_w s)) 2, l_max_buffers := default_set (l_max_buffers (s_w s)) (- 1),
       l_buffer_len := default_set (l_buffer_len (s_w s)) 256, l_buffers := 0, l_data_bytes := 0\<rparr>,
     s_write_error := False, s_eof := False, s_eof_write_done := False, s_read_blocked := 0\<rparr>"

text \<open>\<open>__ustream_set_read_blocked\<close>: the callback is called without a test; the argument passes through an \<open>unsigned char\<close>.\<close>

definition set_read_blocked :: "'w ustream_ops \<Rightarrow> u8 \<Rightarrow> 'w ustream \<Rightarrow> 'w ustream option" where
  "set_read_blocked ops val s =
     (let changed = ((s_read_blocked s \<noteq> 0) \<noteq> (val \<noteq> 0)); s = s\<lparr>s_read_blocked := ucast val\<rparr> in
      if changed then do { f \<leftarrow> op_set_read_blocked ops; f s } else Some s)"

definition ustream_set_read_blocked :: "'w ustream_ops \<Rightarrow> bool \<Rightarrow> 'w ustream \<Rightarrow> 'w ustream option" where
  "ustream_set_read_blocked ops block s = (let val = ucast (s_read_blocked s AND NOT READ_BLOCKED_USER) in
     set_read_blocked ops (if block then val OR ucast READ_BLOCKED_USER else val) s)"

section \<open>Reading\<close>

text \<open>The loop of \<open>ustream_consume\<close>.  The buffer at hand is always the first one; its successor is looked up before it is
  freed or recycled, and going on without a successor is a fault.\<close>

partial_function (option) ustream_consume_loop :: "nat \<Rightarrow> ustream_buf_list \<Rightarrow> ustream_buf_list option" where
  "ustream_consume_loop len l = (case l_bufs l of
     [] \<Rightarrow> None
   | buf # bufs \<Rightarrow>
       let buf_len = b_tail buf - b_data buf in
       if len < buf_len then Some (l\<lparr>l_bufs := buf\<lparr>b_data := b_data buf + len\<rparr> # bufs\<rparr>)
       else do {
         l \<leftarrow> ustream_free_buf l;
         if len - buf_len = 0 then Some l
         else if bufs = [] then None
         else ustream_consume_loop (len - buf_len) l
       })"

definition ustream_consume :: "'w ustream_ops \<Rightarrow> nat \<Rightarrow> 'w ustream \<Rightarrow> 'w ustream option" where
  "ustream_consume ops len s =
     (if len = 0 then Some s
      else let l = (s_r s)\<lparr>l_data_bytes := l_data_bytes (s_r s) - int len\<rparr> in
        if l_data_bytes l < 0 then None
        else do {
          l \<leftarrow> ustream_consume_loop len l;
          set_read_blocked ops (ucast (s_read_blocked s AND NOT READ_BLOCKED_FULL)) (s\<lparr>s_r := l\<rparr>)
        })"

text \<open>The result is the index of the buffer and the room behind its tail, or no buffer.\<close>

definition ustream_reserve :: "'w ustream_ops \<Rightarrow> nat \<Rightarrow> 'w ustream \<Rightarrow> ((nat \<times> nat) option \<times> 'w ustream) option" where
  "ustream_reserve ops len s = do {
     (r, l) \<leftarrow> ustream_prepare_buf (s_string_data s) (s_string_data s) len (s_r s);
     let s = s\<lparr>s_r := l\<rparr>;
     if \<not> r then do { s \<leftarrow> set_read_blocked ops (ucast (s_read_blocked s OR READ_BLOCKED_FULL)) s; Some (None, s) }
     else do {
       d \<leftarrow> l_data_tail l;
       let buf = l_bufs l ! d;
       Some (Some (d, b_end buf - b_tail buf), s)
     }
   }"

text \<open>What a stream implementation writes to the memory it has reserved.\<close>

definition ustream_store :: "nat \<Rightarrow> bytes \<Rightarrow> 'w ustream \<Rightarrow> 'w ustream option" where
  "ustream_store d bs s =
     (if d \<ge> length (l_bufs (s_r s)) then None
      else do {
        let buf = l_bufs (s_r s) ! d;
        mem \<leftarrow> mem_write (b_mem buf) (b_tail buf) bs;
        Some (s\<lparr>s_r := (s_r s)\<lparr>l_bufs := (l_bufs (s_r s))[d := buf\<lparr>b_mem := mem\<rparr>]\<rparr>\<rparr>)
      })"

text \<open>The loop of \<open>ustream_fill_read\<close> from the buffer \<open>d\<close> on; \<open>n\<close> is the number of buffers from there, and the code aborts when
  none is left.\<close>

fun ustream_fill_loop :: "bool \<Rightarrow> nat \<Rightarrow> nat \<Rightarrow> nat \<Rightarrow> ustream_buf_list \<Rightarrow> ustream_buf_list option" where
  "ustream_fill_loop string_data 0 d len l = None"
| "ustream_fill_loop string_data (Suc n) d len l = do {
     let buf = l_bufs l ! d;
     let maxlen = min len (b_end buf - b_tail buf);
     buf \<leftarrow> ustream_fixup_string string_data (buf\<lparr>b_tail := b_tail buf + maxlen\<rparr>);
     let l = l\<lparr>l_bufs := (l_bufs l)[d := buf], l_data_tail := Some d\<rparr>;
     if len - maxlen = 0 then Some l else ustream_fill_loop string_data n (Suc d) (len - maxlen) l
   }"

definition ustream_fill_read :: "'w ustream_ops \<Rightarrow> nat \<Rightarrow> 'w ustream \<Rightarrow> 'w ustream option" where
  "ustream_fill_read ops len s = do {
     let l = (s_r s)\<lparr>l_data_bytes := l_data_bytes (s_r s) + int len\<rparr>;
     d \<leftarrow> l_data_tail l;
     l \<leftarrow> ustream_fill_loop (s_string_data s) (length (l_bufs l) - d) d len l;
     notify_n (op_notify_read ops) (int len) (s\<lparr>s_r := l\<rparr>)
   }"

text \<open>The data at the returned pointer; \<open>None\<close> inside is the null pointer.\<close>

definition ustream_get_read_buf :: "'w ustream \<Rightarrow> bytes option option" where
  "ustream_get_read_buf s = (case l_bufs (s_r s) of
     [] \<Rightarrow> Some None
   | buf # bufs \<Rightarrow> let len = b_tail buf - b_data buf in
       if len > 0 then do { bs \<leftarrow> mem_read (b_mem buf) (b_data buf) len; Some (Some bs) } else Some None)"

section \<open>Writing\<close>

definition ustream_write_error :: "'w ustream \<Rightarrow> 'w ustream" where
  "ustream_write_error s = (if \<not> s_write_error s then ustream_state_change s else s)\<lparr>s_write_error := True\<rparr>"

text \<open>The loop of \<open>ustream_write_pending\<close>; \<open>wr\<close> counts the bytes written.  The successor of the buffer at hand, which is the
  first one, is looked up before the buffer is freed or recycled.\<close>

partial_function (option) ustream_pending_loop :: "'w ustream_ops \<Rightarrow> int \<Rightarrow> 'w ustream \<Rightarrow> (int \<times> 'w ustream) option" where
  "ustream_pending_loop ops wr s = (case l_bufs (s_w s) of
     [] \<Rightarrow> Some (wr, s)
   | buf # bufs \<Rightarrow>
       if l_data_bytes (s_w s) = 0 then Some (wr, s)
       else do {
         let maxlen = b_tail buf - b_data buf;
         bs \<leftarrow> mem_read (b_mem buf) (b_data buf) maxlen;
         (len, s) \<leftarrow> op_write ops bs (bufs \<noteq> []) s;
         if len < 0 then Some (wr, ustream_write_error s)
         else if len = 0 then Some (wr, s)
         else do {
           let l = (s_w s)\<lparr>l_data_bytes := l_data_bytes (s_w s) - len\<rparr>;
           if len < int maxlen
           then Some (wr + len, s\<lparr>s_w := l\<lparr>l_bufs := buf\<lparr>b_data := b_data buf + nat len\<rparr> # bufs\<rparr>\<rparr>)
           else do {
             l \<leftarrow> ustream_free_buf l;
             if bufs = [] then Some (wr + len, s\<lparr>s_w := l\<rparr>)
             else ustream_pending_loop ops (wr + len) (s\<lparr>s_w := l\<rparr>)
           }
         }
       })"

definition ustream_write_pending :: "'w ustream_ops \<Rightarrow> 'w ustream \<Rightarrow> (bool \<times> 'w ustream) option" where
  "ustream_write_pending ops s =
     (if s_write_error s then Some (False, s)
      else do {
        (wr, s) \<leftarrow> ustream_pending_loop ops 0 s;
        s \<leftarrow> notify_n (op_notify_write ops) wr s;
        let s = (if s_eof s \<and> wr \<noteq> 0 \<and> l_data_bytes (s_w s) = 0 then ustream_state_change s else s);
        Some (l_data_bytes (s_w s) = 0, s)
      })"

partial_function (option) ustream_write_buffered :: "bytes \<Rightarrow> int \<Rightarrow> 'w ustream \<Rightarrow> (int \<times> 'w ustream) option" where
  "ustream_write_buffered data wr s =
     (if data = [] then Some (wr, s)
      else do {
        (r, l) \<leftarrow> ustream_prepare_buf (s_string_data s) False (length data) (s_w s);
        let s = s\<lparr>s_w := l\<rparr>;
        if \<not> r then Some (wr, s)
        else do {
          d \<leftarrow> l_data_tail l;
          let buf = l_bufs l ! d;
          let maxlen = min (length data) (b_end buf - b_tail buf);
          mem \<leftarrow> mem_write (b_mem buf) (b_tail buf) (take maxlen data);
          let buf = buf\<lparr>b_mem := mem, b_tail := b_tail buf + maxlen\<rparr>;
          let l = l\<lparr>l_bufs := (l_bufs l)[d := buf], l_data_bytes := l_data_bytes l + int maxlen\<rparr>;
          ustream_write_buffered (drop maxlen data) (wr + int maxlen) (s\<lparr>s_w := l\<rparr>)
        }
      })"

definition ustream_write :: "'w ustream_ops \<Rightarrow> bytes \<Rightarrow> bool \<Rightarrow> 'w ustream \<Rightarrow> (int \<times> 'w ustream) option" where
  "ustream_write ops data more_data s =
     (if s_write_error s then Some (0, s)
      else if l_data_bytes (s_w s) = 0
      then do {
        (wr, s) \<leftarrow> op_write ops data more_data s;
        if wr = int (length data) then Some (wr, s)
        else if wr < 0 then Some (wr, ustream_write_error s)
        else ustream_write_buffered (drop (nat wr) data) wr s
      }
      else ustream_write_buffered data 0 s)"

text \<open>\<open>str\<close> is the text that the format gives; \<open>vsnprintf\<close> into \<open>n\<close> bytes stores what fits, with its terminator.\<close>

abbreviation MAX_STACK_BUFLEN :: nat where "MAX_STACK_BUFLEN \<equiv> 256"

definition ustream_vprintf :: "'w ustream_ops \<Rightarrow> bytes \<Rightarrow> 'w ustream \<Rightarrow> (int \<times> 'w ustream) option" where
  "ustream_vprintf ops str s =
     (if s_write_error s then Some (0, s)
      else if l_data_bytes (s_w s) = 0
      then if length str < MAX_STACK_BUFLEN
        then do {
          (wr, s) \<leftarrow> op_write ops str False s;
          if wr < 0 then Some (wr, ustream_write_error s)
          else if wr = int (length str) then Some (wr, s)
          else ustream_write_buffered (drop (nat wr) str) wr s
        }
        else ustream_write ops str False s
      else do {
        (r, l) \<leftarrow> ustream_prepare_buf (s_string_data s) False 1 (s_w s);
        let s = s\<lparr>s_w := l\<rparr>;
        if \<not> r then Some (0, s)
        else do {
          d \<leftarrow> l_data_tail l;
          let buf = l_bufs l ! d;
          let buflen = b_end buf - b_tail buf;
          let wr = (if length str \<ge> buflen then buflen - 1 else length str);
          mem \<leftarrow> mem_write (b_mem buf) (b_tail buf) (take wr str @ [0]);
          let buf = buf\<lparr>b_mem := mem, b_tail := b_tail buf + wr\<rparr>;
          let l = l\<lparr>l_bufs := (l_bufs l)[d := buf], l_data_bytes := l_data_bytes l + int wr\<rparr>;
          let s = s\<lparr>s_w := l\<rparr>;
          if length str < buflen then Some (int wr, s)
          else ustream_write_buffered (drop wr str) (int wr) s
        }
      })"

definition ustream_printf :: "'w ustream_ops \<Rightarrow> bytes \<Rightarrow> 'w ustream \<Rightarrow> (int \<times> 'w ustream) option" where
  "ustream_printf ops str s = (if s_write_error s then Some (0, s) else ustream_vprintf ops str s)"

end
