(* ===== verification/Ustream_Queue.thy ===== *)
theory Ustream_Queue
  imports Ustream
begin

text \<open>
  The buffers of a stream as a queue of bytes: the invariant of a chain of buffers, and how the
  internal operations of \<open>ustream.c\<close> change its contents.  A chain refines the list of its bytes:
  preparing keeps it, storing appends to it, freeing the first buffer drops a prefix.
\<close>

section \<open>The invariant\<close>

definition buf_ok :: "bool \<Rightarrow> ustream_buf \<Rightarrow> bool" where
  "buf_ok string_data buf \<longleftrightarrow> b_data buf \<le> b_tail buf \<and> b_tail buf \<le> b_end buf \<and> 0 < b_end buf \<and>
     b_end buf + (if string_data then 1 else 0) \<le> length (b_mem buf) \<and> (b_data buf = b_tail buf \<longrightarrow> b_tail buf = 0)"

definition buf_bytes :: "ustream_buf \<Rightarrow> bytes" where
  "buf_bytes buf = take (b_tail buf - b_data buf) (drop (b_data buf) (b_mem buf))"

definition bufs_bytes :: "ustream_buf list \<Rightarrow> bytes" where
  "bufs_bytes bufs = concat (map buf_bytes bufs)"

abbreviation contents :: "ustream_buf_list \<Rightarrow> bytes" where
  "contents l \<equiv> bufs_bytes (l_bufs l)"

text \<open>Before the buffer that takes new data every buffer has data, and none behind it.\<close>

definition tail_at :: "ustream_buf_list \<Rightarrow> ustream_buf list \<Rightarrow> ustream_buf \<Rightarrow> ustream_buf list \<Rightarrow> bool" where
  "tail_at l pre buf post \<longleftrightarrow> l_bufs l = pre @ buf # post \<and> l_data_tail l = Some (length pre) \<and>
     (\<forall>b \<in> set pre. b_data b < b_tail b) \<and> (\<forall>b \<in> set post. b_tail b = 0)"

definition chain_ok :: "bool \<Rightarrow> ustream_buf_list \<Rightarrow> bool" where
  "chain_ok string_data l \<longleftrightarrow> (\<forall>b \<in> set (l_bufs l). buf_ok string_data b) \<and> l_buffers l = int (length (l_bufs l)) \<and>
     0 < l_buffer_len l \<and> (l_bufs l = [] \<and> l_data_tail l = None \<or> (\<exists>pre buf post. tail_at l pre buf post))"

definition list_ok :: "bool \<Rightarrow> ustream_buf_list \<Rightarrow> bool" where
  "list_ok string_data l \<longleftrightarrow> chain_ok string_data l \<and> l_data_bytes l = int (length (contents l))"

text \<open>The settings of a chain, which its operations keep.\<close>

definition same_limits :: "ustream_buf_list \<Rightarrow> ustream_buf_list \<Rightarrow> bool" where
  "same_limits l' l \<longleftrightarrow> l_min_buffers l' = l_min_buffers l \<and> l_max_buffers l' = l_max_buffers l \<and> l_buffer_len l' = l_buffer_len l"

lemma same_limits_refl [simp]: "same_limits l l"
  by (simp add: same_limits_def)

lemma same_limits_trans: "same_limits a b \<Longrightarrow> same_limits b c \<Longrightarrow> same_limits a c"
  by (simp add: same_limits_def)

lemma bufs_bytes_simps [simp]:
  "bufs_bytes [] = []" "bufs_bytes (b # bs) = buf_bytes b @ bufs_bytes bs" "bufs_bytes (as @ bs) = bufs_bytes as @ bufs_bytes bs"
  by (simp_all add: bufs_bytes_def)

lemma length_buf_bytes: "buf_ok sd b \<Longrightarrow> length (buf_bytes b) = b_tail b - b_data b"
  by (auto simp: buf_ok_def buf_bytes_def split: if_splits)

lemma buf_bytes_empty [simp]: "b_tail b = 0 \<Longrightarrow> buf_bytes b = []"
  by (simp add: buf_bytes_def)

lemma bufs_bytes_empty: "\<forall>b \<in> set bs. b_tail b = 0 \<Longrightarrow> bufs_bytes bs = []"
  by (induction bs) auto

lemma tail_at_contents: "tail_at l pre buf post \<Longrightarrow> contents l = bufs_bytes pre @ buf_bytes buf"
  by (simp add: tail_at_def bufs_bytes_empty)

lemma mem_read_buf: "buf_ok sd b \<Longrightarrow> mem_read (b_mem b) (b_data b) (b_tail b - b_data b) = Some (buf_bytes b)"
  by (auto simp: buf_ok_def buf_bytes_def mem_read_def split: if_splits)

section \<open>Single buffers\<close>

lemma ustream_init_buf_ok:
  assumes "0 < len" "len + (if sd then 1 else 0) \<le> length mem"
  shows "\<exists>b. ustream_init_buf mem len = Some b \<and> buf_ok sd b \<and> b_data b = 0 \<and> b_tail b = 0"
  using assms by (auto simp: ustream_init_buf_def buf_ok_def mem_write_def split: if_splits)

text \<open>Storing behind the tail of a buffer.\<close>

lemma buf_store:
  assumes ok: "buf_ok sd b" and wr: "mem_write (b_mem b) (b_tail b) bs = Some mem"
    and n: "n \<le> length bs" "b_tail b + n \<le> b_end b"
  shows "buf_ok sd (b\<lparr>b_mem := mem, b_tail := b_tail b + n\<rparr>)"
    "buf_bytes (b\<lparr>b_mem := mem, b_tail := b_tail b + n\<rparr>) = buf_bytes b @ take n bs"
proof -
  have mem: "mem = take (b_tail b) (b_mem b) @ bs @ drop (b_tail b + length bs) (b_mem b)" and len: "length mem = length (b_mem b)"
    using wr by (auto simp: mem_write_def split: if_splits)
  have le: "b_data b \<le> b_tail b" "b_tail b \<le> length (b_mem b)" using ok by (auto simp: buf_ok_def split: if_splits)
  show "buf_ok sd (b\<lparr>b_mem := mem, b_tail := b_tail b + n\<rparr>)" using ok n by (auto simp: buf_ok_def len split: if_splits)
  have "take (b_tail b + n - b_data b) (drop (b_data b) mem) = drop (b_data b) (take (b_tail b + n) mem)" by (simp add: drop_take)
  also have "\<dots> = drop (b_data b) (take (b_tail b) (b_mem b)) @ take n bs" using le n by (simp add: mem)
  finally show "buf_bytes (b\<lparr>b_mem := mem, b_tail := b_tail b + n\<rparr>) = buf_bytes b @ take n bs"
    by (simp add: buf_bytes_def drop_take)
qed

lemma ustream_fixup_string_ok:
  assumes "buf_ok sd b" "fix_end \<longrightarrow> sd"
  shows "\<exists>b'. ustream_fixup_string fix_end b = Some b' \<and> buf_ok sd b' \<and> buf_bytes b' = buf_bytes b \<and>
    b_data b' = b_data b \<and> b_tail b' = b_tail b \<and> b_end b' = b_end b"
proof (cases fix_end)
  case True
  then have "b_tail b + 1 \<le> length (b_mem b)" using assms by (auto simp: buf_ok_def)
  then obtain mem where mem: "mem_write (b_mem b) (b_tail b) [0] = Some mem" by (simp add: mem_write_def)
  have "buf_ok sd (b\<lparr>b_mem := mem\<rparr>)" "buf_bytes (b\<lparr>b_mem := mem\<rparr>) = buf_bytes b"
    using buf_store [OF assms(1) mem, of 0] assms(1) by (simp_all add: buf_ok_def)
  then show ?thesis using True mem by (simp add: ustream_fixup_string_def)
qed (use assms in \<open>simp add: ustream_fixup_string_def\<close>)

lemma ustream_move_buf_ok:
  assumes "buf_ok sd b" "fix_end \<longrightarrow> sd"
  shows "\<exists>b'. ustream_move_buf fix_end b = Some b' \<and> buf_ok sd b' \<and> buf_bytes b' = buf_bytes b \<and>
    b_data b' = 0 \<and> b_tail b' = b_tail b - b_data b \<and> b_end b' = b_end b"
proof -
  define len where "len = b_tail b - b_data b"
  define mem where "mem = buf_bytes b @ drop len (b_mem b)"
  have len: "length (buf_bytes b) = len" "len \<le> length (b_mem b)"
    using assms length_buf_bytes [OF assms(1)] by (auto simp: len_def buf_ok_def split: if_splits)
  let ?b = "b\<lparr>b_mem := mem, b_data := 0, b_tail := len\<rparr>"
  have wr: "mem_write (b_mem b) 0 (buf_bytes b) = Some mem" using len by (simp add: mem_write_def mem_def)
  have ok: "buf_ok sd ?b" "buf_bytes ?b = buf_bytes b"
    using assms len by (auto simp: buf_ok_def mem_def len_def buf_bytes_def split: if_splits)
  have "ustream_move_buf fix_end b = ustream_fixup_string fix_end ?b"
    by (simp add: ustream_move_buf_def mem_read_buf [OF assms(1)] wr len_def)
  with ustream_fixup_string_ok [OF ok(1) assms(2)] ok(2) show ?thesis by (simp add: len_def)
qed

lemma buf_advance:
  assumes "buf_ok sd b" "n < b_tail b - b_data b"
  shows "buf_ok sd (b\<lparr>b_data := b_data b + n\<rparr>)" "buf_bytes (b\<lparr>b_data := b_data b + n\<rparr>) = drop n (buf_bytes b)"
  using assms by (auto simp: buf_ok_def buf_bytes_def drop_take add.commute)

section \<open>Chains\<close>

lemma chain_ok_tail: "chain_ok sd l \<Longrightarrow> tail_at l pre buf post \<Longrightarrow> buf_ok sd buf"
  by (simp add: chain_ok_def tail_at_def)

lemma chain_okI:
  "tail_at l pre buf post \<Longrightarrow> \<forall>b \<in> set (l_bufs l). buf_ok sd b \<Longrightarrow> l_buffers l = int (length (l_bufs l)) \<Longrightarrow> 0 < l_buffer_len l \<Longrightarrow> chain_ok sd l"
  unfolding chain_ok_def by blast

lemma chain_okD:
  "chain_ok sd l \<Longrightarrow> b \<in> set (l_bufs l) \<Longrightarrow> buf_ok sd b" "chain_ok sd l \<Longrightarrow> l_buffers l = int (length (l_bufs l))"
  "chain_ok sd l \<Longrightarrow> 0 < l_buffer_len l"
  by (simp_all add: chain_ok_def)

lemma tail_at_replace:
  assumes "chain_ok sd l" "tail_at l pre buf post" "buf_ok sd buf'"
  shows "chain_ok sd (l\<lparr>l_bufs := (l_bufs l)[length pre := buf']\<rparr>)" "tail_at (l\<lparr>l_bufs := (l_bufs l)[length pre := buf']\<rparr>) pre buf' post"
proof -
  show t: "tail_at (l\<lparr>l_bufs := (l_bufs l)[length pre := buf']\<rparr>) pre buf' post" using assms(2) by (simp add: tail_at_def)
  have "\<forall>b \<in> set (pre @ buf' # post). buf_ok sd b" using assms by (auto simp: chain_ok_def tail_at_def)
  then show "chain_ok sd (l\<lparr>l_bufs := (l_bufs l)[length pre := buf']\<rparr>)"
    using assms(2) chain_okD [OF assms(1)] by (intro chain_okI [OF t]) (simp_all add: tail_at_def)
qed

lemma chain_ok_cong:
  "l_bufs l' = l_bufs l \<Longrightarrow> l_data_tail l' = l_data_tail l \<Longrightarrow> l_buffers l' = l_buffers l \<Longrightarrow> l_buffer_len l' = l_buffer_len l \<Longrightarrow>
    chain_ok sd l' = chain_ok sd l"
  by (simp add: chain_ok_def tail_at_def)

lemma ustream_prepare_alloc_ok:
  assumes ok: "chain_ok sd l" and full: "\<forall>b \<in> set (l_bufs l). b_data b < b_tail b"
  shows "\<exists>r l'. ustream_prepare_alloc sd l = Some (r, l') \<and> chain_ok sd l' \<and> contents l' = contents l \<and> l_data_bytes l' = l_data_bytes l \<and>
    same_limits l' l \<and> (r \<longrightarrow> (\<exists>pre b post. tail_at l' pre b post \<and> b_tail b < b_end b)) \<and> (\<not> r \<longrightarrow> 0 < l_max_buffers l)"
proof (cases "ustream_can_alloc l")
  case False
  then show ?thesis using ok by (auto simp: ustream_prepare_alloc_def ustream_can_alloc_def)
next
  case True
  have "0 < l_buffer_len l" using ok by (simp add: chain_ok_def)
  from ustream_init_buf_ok [OF this, of sd "replicate (l_buffer_len l + (if sd then 1 else 0)) 0"] obtain b where
    b: "ustream_init_buf (replicate (l_buffer_len l + (if sd then 1 else 0)) 0) (l_buffer_len l) = Some b" "buf_ok sd b" "b_data b = 0" "b_tail b = 0"
    by auto
  let ?l = "(ustream_add_buf b l)\<lparr>l_data_tail := Some (length (l_bufs l))\<rparr>"
  have "ustream_prepare_alloc sd l = Some (True, ?l)"
    using True b(1) by (simp add: ustream_prepare_alloc_def ustream_alloc_default_def ustream_add_buf_def)
  moreover have t: "tail_at ?l (l_bufs l) b []" using full by (simp add: tail_at_def ustream_add_buf_def)
  moreover have "chain_ok sd ?l" using chain_okD [OF ok] b(2) by (intro chain_okI [OF t]) (auto simp: ustream_add_buf_def)
  moreover have "b_tail b < b_end b" using b by (simp add: buf_ok_def)
  moreover have "contents ?l = contents l" "l_data_bytes ?l = l_data_bytes l" "same_limits ?l l"
    using b by (simp_all add: ustream_add_buf_def same_limits_def)
  ultimately show ?thesis by blast
qed

lemma ustream_prepare_buf_ok:
  assumes ok: "chain_ok sd l" and fx: "fix_end \<longrightarrow> sd"
  shows "\<exists>r l'. ustream_prepare_buf sd fix_end len l = Some (r, l') \<and> chain_ok sd l' \<and> contents l' = contents l \<and> l_data_bytes l' = l_data_bytes l \<and>
    same_limits l' l \<and> (r \<longrightarrow> (\<exists>pre b post. tail_at l' pre b post \<and> b_tail b < b_end b)) \<and> (\<not> r \<longrightarrow> 0 < l_max_buffers l)"
proof (cases "l_data_tail l")
  case None
  then have "l_bufs l = []" using ok by (auto simp: chain_ok_def tail_at_def)
  with ustream_prepare_alloc_ok [OF ok] None show ?thesis by (simp add: ustream_prepare_buf_def)
next
  case (Some d)
  then obtain pre buf post where t: "tail_at l pre buf post" and d: "d = length pre" using ok by (auto simp: chain_ok_def tail_at_def)
  from ustream_move_buf_ok [OF chain_ok_tail [OF ok t] fx] obtain bm where
    bm: "ustream_move_buf fix_end buf = Some bm" "buf_ok sd bm" "buf_bytes bm = buf_bytes buf" by blast
  define b where "b = (if ustream_should_move l d buf len then bm else buf)"
  have b: "buf_ok sd b" "buf_bytes b = buf_bytes buf" using bm chain_ok_tail [OF ok t] by (auto simp: b_def)
  define l1 where "l1 = l\<lparr>l_bufs := (l_bufs l)[length pre := b]\<rparr>"
  have l1: "chain_ok sd l1" "tail_at l1 pre b post" unfolding l1_def by (rule tail_at_replace [OF ok t b(1)])+
  have same: "contents l1 = contents l" "l_data_bytes l1 = l_data_bytes l" "same_limits l1 l"
    using tail_at_contents [OF t] tail_at_contents [OF l1(2)] b(2) by (simp_all add: l1_def same_limits_def)
  have step: "ustream_prepare_buf sd fix_end len l = (if b_tail b \<noteq> b_end b then Some (True, l1)
      else if post \<noteq> [] then Some (True, l1\<lparr>l_data_tail := Some (Suc d)\<rparr>) else ustream_prepare_alloc sd l1)"
    using Some t bm(1) by (simp add: ustream_prepare_buf_def d tail_at_def b_def l1_def Let_def)
  show ?thesis
  proof (cases "b_tail b = b_end b")
    case False
    then have "b_tail b < b_end b" "ustream_prepare_buf sd fix_end len l = Some (True, l1)" using step b(1) by (simp_all add: buf_ok_def)
    then show ?thesis using l1 same by blast
  next
    case True
    then have ne: "b_data b < b_tail b" using b(1) by (auto simp: buf_ok_def)
    show ?thesis
    proof (cases post)
      case Nil
      have "\<forall>x \<in> set (l_bufs l1). b_data x < b_tail x" using l1(2) ne Nil by (auto simp: tail_at_def)
      moreover have "ustream_prepare_buf sd fix_end len l = ustream_prepare_alloc sd l1" "l_max_buffers l1 = l_max_buffers l"
        using step True Nil by (simp_all add: l1_def)
      ultimately show ?thesis
        using ustream_prepare_alloc_ok [OF l1(1)] same same_limits_trans [OF _ same(3)] by metis
    next
      case (Cons b2 post2)
      let ?l = "l1\<lparr>l_data_tail := Some (Suc d)\<rparr>"
      have t2: "tail_at ?l (pre @ [b]) b2 post2" using l1(2) ne Cons d by (auto simp: tail_at_def)
      then have "chain_ok sd ?l" using chain_okD [OF l1(1)] by (intro chain_okI [OF t2]) simp_all
      moreover have "b_tail b2 < b_end b2" using l1 Cons by (auto simp: tail_at_def chain_ok_def buf_ok_def)
      moreover have "contents ?l = contents l" "l_data_bytes ?l = l_data_bytes l" "same_limits ?l l"
        using same by (simp_all add: same_limits_def)
      moreover have "ustream_prepare_buf sd fix_end len l = Some (True, ?l)" using step True Cons by simp
      ultimately show ?thesis using t2 by blast
    qed
  qed
qed

text \<open>Storing in the buffer that takes the next data appends to the contents.\<close>

lemma tail_at_store:
  assumes ok: "list_ok sd l" and t: "tail_at l pre b post" and wr: "mem_write (b_mem b) (b_tail b) bs = Some mem"
    and n: "n \<le> length bs" "b_tail b + n \<le> b_end b"
  defines "l' \<equiv> l\<lparr>l_bufs := (l_bufs l)[length pre := b\<lparr>b_mem := mem, b_tail := b_tail b + n\<rparr>], l_data_bytes := l_data_bytes l + int n\<rparr>"
  shows "list_ok sd l'" "contents l' = contents l @ take n bs"
proof -
  have chain: "chain_ok sd l" using ok by (simp add: list_ok_def)
  let ?b = "b\<lparr>b_mem := mem, b_tail := b_tail b + n\<rparr>"
  let ?l = "l\<lparr>l_bufs := (l_bufs l)[length pre := ?b]\<rparr>"
  note b = buf_store [OF chain_ok_tail [OF chain t] wr n]
  note l = tail_at_replace [OF chain t b(1)]
  have c: "contents ?l = contents l @ take n bs" using tail_at_contents [OF l(2)] tail_at_contents [OF t] b(2) by simp
  then show "contents l' = contents l @ take n bs" by (simp add: l'_def)
  have "chain_ok sd l'" using l(1) by (subst chain_ok_cong [of _ ?l]) (simp_all add: l'_def)
  then show "list_ok sd l'" using c ok n(1) by (simp add: list_ok_def l'_def)
qed

section \<open>The front of a chain\<close>

lemma ustream_add_buf_ok:
  assumes ok: "chain_ok sd l" and b: "buf_ok sd b" "b_tail b = 0"
  shows "chain_ok sd (ustream_add_buf b l)" "contents (ustream_add_buf b l) = contents l"
    "l_data_bytes (ustream_add_buf b l) = l_data_bytes l" "same_limits (ustream_add_buf b l) l"
proof -
  have "\<exists>pre buf post. tail_at (ustream_add_buf b l) pre buf post"
  proof (cases "l_bufs l = []")
    case True
    then have "tail_at (ustream_add_buf b l) [] b []" using ok by (auto simp: chain_ok_def tail_at_def ustream_add_buf_def)
    then show ?thesis by blast
  next
    case False
    then obtain pre buf post where "tail_at l pre buf post" using ok by (auto simp: chain_ok_def)
    then have "tail_at (ustream_add_buf b l) pre buf (post @ [b])" using b by (auto simp: tail_at_def ustream_add_buf_def)
    then show ?thesis by blast
  qed
  then obtain pre buf post where t: "tail_at (ustream_add_buf b l) pre buf post" by blast
  show "chain_ok sd (ustream_add_buf b l)" using chain_okD [OF ok] b(1) by (intro chain_okI [OF t]) (auto simp: ustream_add_buf_def)
qed (use b in \<open>simp_all add: ustream_add_buf_def same_limits_def\<close>)

text \<open>The chain without its first buffer.\<close>

definition tl_chain :: "ustream_buf list \<Rightarrow> ustream_buf_list \<Rightarrow> ustream_buf_list" where
  "tl_chain bufs l = l\<lparr>l_bufs := bufs, l_buffers := l_buffers l - 1,
     l_data_tail := (case l_data_tail l of None \<Rightarrow> None | Some 0 \<Rightarrow> (if bufs = [] then None else Some 0) | Some (Suc d) \<Rightarrow> Some d)\<rparr>"

lemma tl_chain_ok:
  assumes ok: "chain_ok sd l" and l: "l_bufs l = b # bufs"
  shows "chain_ok sd (tl_chain bufs l)"
proof -
  obtain pre buf post where t: "tail_at l pre buf post" using ok l by (auto simp: chain_ok_def)
  have parts: "\<forall>x \<in> set bufs. buf_ok sd x" "l_buffers l - 1 = int (length bufs)" "0 < l_buffer_len l" using chain_okD [OF ok] l by auto
  show ?thesis
  proof (cases pre)
    case Nil
    then have d: "l_data_tail l = Some 0" "bufs = post" using t l by (auto simp: tail_at_def)
    show ?thesis
    proof (cases post)
      case Nil
      then show ?thesis using d parts by (simp add: chain_ok_def tl_chain_def)
    next
      case (Cons c cs)
      then have "tail_at (tl_chain bufs l) [] c cs" using t d by (auto simp: tail_at_def tl_chain_def)
      then show ?thesis using parts by (elim chain_okI) (simp_all add: tl_chain_def)
    qed
  next
    case (Cons c cs)
    then have "tail_at (tl_chain bufs l) cs buf post" using t l by (auto simp: tail_at_def tl_chain_def)
    then show ?thesis using parts by (elim chain_okI) (simp_all add: tl_chain_def)
  qed
qed

lemma ustream_free_buf_ok:
  assumes ok: "chain_ok sd l" and l: "l_bufs l = b # bufs"
  shows "\<exists>l'. ustream_free_buf l = Some l' \<and> chain_ok sd l' \<and> contents l' = bufs_bytes bufs \<and> l_data_bytes l' = l_data_bytes l \<and> same_limits l' l"
proof -
  note tl = tl_chain_ok [OF ok l]
  have same: "contents (tl_chain bufs l) = bufs_bytes bufs" "l_data_bytes (tl_chain bufs l) = l_data_bytes l" "same_limits (tl_chain bufs l) l"
    by (simp_all add: tl_chain_def same_limits_def)
  have "buf_ok sd b" using chain_okD(1) [OF ok, of b] l by simp
  then obtain b' where b': "ustream_init_buf (b_mem b) (b_end b) = Some b'" "buf_ok sd b'" "b_tail b' = 0"
    using ustream_init_buf_ok [of "b_end b" sd "b_mem b"] by (auto simp: buf_ok_def)
  have "ustream_free_buf l = (if l_buffers (tl_chain bufs l) \<ge> l_min_buffers (tl_chain bufs l) then Some (tl_chain bufs l)
      else Some (ustream_add_buf b' (tl_chain bufs l)))"
    using l b'(1) by (simp add: ustream_free_buf_def tl_chain_def Let_def)
  then show ?thesis
    using tl same ustream_add_buf_ok [OF tl b'(2,3)] same_limits_trans [OF _ same(3)] by (cases "l_buffers (tl_chain bufs l) \<ge> l_min_buffers (tl_chain bufs l)") auto
qed

lemma chain_head:
  assumes "chain_ok sd l" "contents l \<noteq> []"
  shows "\<exists>b bufs. l_bufs l = b # bufs \<and> buf_ok sd b \<and> b_data b < b_tail b"
proof -
  obtain pre buf post where t: "tail_at l pre buf post" using assms by (auto simp: chain_ok_def)
  show ?thesis
  proof (cases pre)
    case Nil
    then have "buf_bytes buf \<noteq> []" using t assms(2) tail_at_contents [OF t] by simp
    then have "b_data buf < b_tail buf" by (simp add: buf_bytes_def)
    then show ?thesis using t Nil chain_okD(1) [OF assms(1), of buf] by (simp add: tail_at_def)
  next
    case (Cons c cs)
    then show ?thesis using t chain_okD(1) [OF assms(1), of c] by (auto simp: tail_at_def)
  qed
qed

lemma chain_advance:
  assumes ok: "chain_ok sd l" and l: "l_bufs l = b # bufs" and n: "n < b_tail b - b_data b"
  shows "chain_ok sd (l\<lparr>l_bufs := b\<lparr>b_data := b_data b + n\<rparr> # bufs\<rparr>)"
    "contents (l\<lparr>l_bufs := b\<lparr>b_data := b_data b + n\<rparr> # bufs\<rparr>) = drop n (contents l)"
proof -
  have bok: "buf_ok sd b" using chain_okD(1) [OF ok, of b] l by simp
  note b = buf_advance [OF bok n]
  have "n < length (buf_bytes b)" using n length_buf_bytes [OF bok] by simp
  then show "contents (l\<lparr>l_bufs := b\<lparr>b_data := b_data b + n\<rparr> # bufs\<rparr>) = drop n (contents l)" using l b(2) by simp
  let ?b = "b\<lparr>b_data := b_data b + n\<rparr>"
  obtain pre buf post where t: "tail_at l pre buf post" using ok l by (auto simp: chain_ok_def)
  have "\<exists>pre buf post. tail_at (l\<lparr>l_bufs := ?b # bufs\<rparr>) pre buf post"
  proof (cases pre)
    case Nil
    then have "tail_at (l\<lparr>l_bufs := ?b # bufs\<rparr>) [] ?b post" using t l by (auto simp: tail_at_def)
    then show ?thesis by blast
  next
    case (Cons c cs)
    then have "tail_at (l\<lparr>l_bufs := ?b # bufs\<rparr>) (?b # cs) buf post" using t l n by (auto simp: tail_at_def)
    then show ?thesis by blast
  qed
  then obtain pre buf post where t': "tail_at (l\<lparr>l_bufs := ?b # bufs\<rparr>) pre buf post" by blast
  show "chain_ok sd (l\<lparr>l_bufs := ?b # bufs\<rparr>)" using chain_okD [OF ok] l b(1) by (intro chain_okI [OF t']) auto
qed

lemma ustream_consume_loop_ok:
  assumes "chain_ok sd l" "0 < len" "len \<le> length (contents l)"
  shows "\<exists>l'. ustream_consume_loop len l = Some l' \<and> chain_ok sd l' \<and> contents l' = drop len (contents l) \<and> l_data_bytes l' = l_data_bytes l \<and>
    same_limits l' l"
  using assms
proof (induction len arbitrary: l rule: less_induct)
  case (less len)
  from less.prems have "contents l \<noteq> []" by auto
  from chain_head [OF less.prems(1) this] obtain b bufs where b: "l_bufs l = b # bufs" "buf_ok sd b" "b_data b < b_tail b" by blast
  note blen = length_buf_bytes [OF b(2)]
  show ?case
  proof (cases "len < b_tail b - b_data b")
    case True
    then show ?thesis using chain_advance [OF less.prems(1) b(1) True] b(1)
      by (subst ustream_consume_loop.simps) (simp add: Let_def same_limits_def)
  next
    case False
    from ustream_free_buf_ok [OF less.prems(1) b(1)] obtain l1 where
      l1: "ustream_free_buf l = Some l1" "chain_ok sd l1" "contents l1 = bufs_bytes bufs" "l_data_bytes l1 = l_data_bytes l" "same_limits l1 l" by blast
    have drop: "drop len (contents l) = drop (len - (b_tail b - b_data b)) (contents l1)" using False b(1) l1(3) blen by simp
    show ?thesis
    proof (cases "len - (b_tail b - b_data b) = 0")
      case True
      then show ?thesis using False b(1) l1 drop by (subst ustream_consume_loop.simps) (simp add: Let_def)
    next
      case ne: False
      have lt: "len - (b_tail b - b_data b) < len" "0 < len - (b_tail b - b_data b)" using ne b(3) less.prems(2) by simp_all
      have "bufs \<noteq> []" "len - (b_tail b - b_data b) \<le> length (contents l1)" using less.prems(3) ne b(1) blen l1(3) by auto
      moreover from less.IH [OF lt(1) l1(2) lt(2) this(2)] obtain l' where
        "ustream_consume_loop (len - (b_tail b - b_data b)) l1 = Some l'" "chain_ok sd l'"
        "contents l' = drop (len - (b_tail b - b_data b)) (contents l1)" "l_data_bytes l' = l_data_bytes l1" "same_limits l' l1" by blast
      ultimately show ?thesis using False ne b(1) l1 drop same_limits_trans [OF _ l1(5)]
        by (subst ustream_consume_loop.simps) (simp add: Let_def)
    qed
  qed
qed

section \<open>Streams\<close>

definition stream_ok :: "'w ustream \<Rightarrow> bool" where
  "stream_ok s \<longleftrightarrow> list_ok (s_string_data s) (s_r s) \<and> list_ok (s_string_data s) (s_w s)"

lemma stream_okD: "stream_ok s \<Longrightarrow> list_ok (s_string_data s) (s_r s)" "stream_ok s \<Longrightarrow> list_ok (s_string_data s) (s_w s)"
  by (simp_all add: stream_ok_def)

lemma stream_ok_world [simp]: "stream_ok (s\<lparr>s_world := w\<rparr>) = stream_ok s"
  by (simp add: stream_ok_def)

lemma list_okD: "list_ok sd l \<Longrightarrow> chain_ok sd l" "list_ok sd l \<Longrightarrow> l_data_bytes l = int (length (contents l))"
  by (simp_all add: list_ok_def)

lemma ustream_init_defaults_ok:
  assumes "l_bufs (s_r s) = []" "l_data_tail (s_r s) = None" "l_bufs (s_w s) = []" "l_data_tail (s_w s) = None"
  shows "stream_ok (ustream_init_defaults s)" "contents (s_r (ustream_init_defaults s)) = []" "contents (s_w (ustream_init_defaults s)) = []"
  using assms by (auto simp: stream_ok_def list_ok_def chain_ok_def ustream_init_defaults_def default_set_def)

text \<open>A chain that has been prepared with success has room in the buffer that takes the next data.\<close>

definition has_room :: "ustream_buf_list \<Rightarrow> bool" where
  "has_room l \<longleftrightarrow> (\<exists>pre b post. tail_at l pre b post \<and> b_tail b < b_end b)"

lemma ustream_prepare_list:
  assumes ok: "list_ok sd l" and fx: "fix_end \<longrightarrow> sd"
  shows "\<exists>r l'. ustream_prepare_buf sd fix_end len l = Some (r, l') \<and> list_ok sd l' \<and> contents l' = contents l \<and> same_limits l' l \<and>
    (r \<longrightarrow> has_room l') \<and> (\<not> r \<longrightarrow> 0 < l_max_buffers l)"
  using ustream_prepare_buf_ok [OF list_okD(1) [OF ok] fx, of len, folded has_room_def] list_okD(2) [OF ok] unfolding list_ok_def by metis

lemma ustream_write_buffered_ok:
  assumes "list_ok (s_string_data s) (s_w s)"
  shows "\<exists>n l. ustream_write_buffered data wr s = Some (wr + int n, s\<lparr>s_w := l\<rparr>) \<and> n \<le> length data \<and> list_ok (s_string_data s) l \<and>
    contents l = contents (s_w s) @ take n data \<and> same_limits l (s_w s) \<and> (l_max_buffers (s_w s) \<le> 0 \<longrightarrow> n = length data)"
  using assms
proof (induction "length data" arbitrary: data wr s rule: less_induct)
  case less
  show ?case
  proof (cases "data = []")
    case True
    then show ?thesis using less.prems by (intro exI [of _ 0] exI [of _ "s_w s"]) (subst ustream_write_buffered.simps, simp)
  next
    case False
    from ustream_prepare_list [OF less.prems, of False "length data"] obtain r l where
      l: "ustream_prepare_buf (s_string_data s) False (length data) (s_w s) = Some (r, l)" "list_ok (s_string_data s) l" "contents l = contents (s_w s)"
        "same_limits l (s_w s)" "r \<longrightarrow> has_room l" "\<not> r \<longrightarrow> 0 < l_max_buffers (s_w s)" by blast
    show ?thesis
    proof (cases r)
      case nr: False
      then show ?thesis using False l by (intro exI [of _ 0] exI [of _ l]) (subst ustream_write_buffered.simps, simp)
    next
      case True
      with l(5) obtain pre b post where t: "tail_at l pre b post" "b_tail b < b_end b" by (auto simp: has_room_def)
      define n where "n = min (length data) (b_end b - b_tail b)"
      have n: "0 < n" "n \<le> length data" "b_tail b + n \<le> b_end b" using False t(2) by (auto simp: n_def)
      have "b_tail b + length (take n data) \<le> length (b_mem b)"
        using n chain_ok_tail [OF list_okD(1) [OF l(2)] t(1)] by (auto simp: buf_ok_def split: if_splits)
      then obtain mem where mem: "mem_write (b_mem b) (b_tail b) (take n data) = Some mem" by (simp add: mem_write_def)
      let ?l = "l\<lparr>l_bufs := (l_bufs l)[length pre := b\<lparr>b_mem := mem, b_tail := b_tail b + n\<rparr>], l_data_bytes := l_data_bytes l + int n\<rparr>"
      have l': "list_ok (s_string_data s) ?l" "contents ?l = contents (s_w s) @ take n data"
        using tail_at_store [OF l(2) t(1) mem, of n] n l(3) by simp_all
      have "length (drop n data) < length data" using n False by simp
      from less.hyps [OF this, of "s\<lparr>s_w := ?l\<rparr>" "wr + int n"] l'(1) obtain m l'' where
        IH: "ustream_write_buffered (drop n data) (wr + int n) (s\<lparr>s_w := ?l\<rparr>) = Some (wr + int n + int m, s\<lparr>s_w := l''\<rparr>)" "m \<le> length data - n"
          "list_ok (s_string_data s) l''" "contents l'' = contents ?l @ take m (drop n data)" "same_limits l'' ?l"
          "l_max_buffers ?l \<le> 0 \<longrightarrow> m = length data - n" by auto
      have "ustream_write_buffered data wr s = Some (wr + int (n + m), s\<lparr>s_w := l''\<rparr>)"
        using False l(1) True t(1) mem IH(1) by (subst ustream_write_buffered.simps) (simp add: tail_at_def n_def Let_def add.assoc)
      moreover have "contents l'' = contents (s_w s) @ take (n + m) data" using IH(4) l'(2) by (simp add: take_add)
      moreover have "same_limits l'' (s_w s)" using IH(5) l(4) by (simp add: same_limits_def)
      moreover have "l_max_buffers (s_w s) \<le> 0 \<longrightarrow> n + m = length data" using IH(6) l(4) n(2) by (simp add: same_limits_def)
      ultimately show ?thesis using IH(2,3) n(2) by (intro exI [of _ "n + m"] exI [of _ l'']) auto
    qed
  qed
qed

end
