(* ===== verification/Ustream_Io.thy ===== *)
theory Ustream_Io
  imports Ustream_Queue
begin

text \<open>
  Writing to and reading from a stream, over the contract of a stream implementation: what is
  written leaves the stream in order, and what is received reaches the reader in order.
\<close>

section \<open>Receiving\<close>

text \<open>The room that a reservation offers, behind the tail of the buffer \<open>d\<close>.\<close>

definition room_at :: "ustream_buf_list \<Rightarrow> nat \<Rightarrow> nat \<Rightarrow> bool" where
  "room_at l d room \<longleftrightarrow> (\<exists>pre b post. tail_at l pre b post \<and> d = length pre \<and> room = b_end b - b_tail b \<and> 0 < room)"

text \<open>Bytes stored in the reserved room and then announced are appended to the read side.\<close>

lemma ustream_store_fill:
  assumes ok: "stream_ok s" and room: "room_at (s_r s) d room" and bs: "length bs \<le> room"
  shows "\<exists>l. (do { s \<leftarrow> ustream_store d bs s; ustream_fill_read ops (length bs) s }) = notify_n (op_notify_read ops) (int (length bs)) (s\<lparr>s_r := l\<rparr>) \<and>
    list_ok (s_string_data s) l \<and> contents l = contents (s_r s) @ bs"
proof -
  note lok = stream_okD(1) [OF ok]
  from room obtain pre b post where t: "tail_at (s_r s) pre b post" "d = length pre" "room = b_end b - b_tail b" "0 < room" by (auto simp: room_at_def)
  have bok: "buf_ok (s_string_data s) b" by (rule chain_ok_tail [OF list_okD(1) [OF lok] t(1)])
  have fits: "b_tail b + length bs \<le> b_end b" using bs t(3,4) by simp
  then obtain mem where mem: "mem_write (b_mem b) (b_tail b) bs = Some mem" using bok by (auto simp: mem_write_def buf_ok_def split: if_splits)
  note b1 = buf_store [OF bok mem le_refl fits]
  define l1 where "l1 = (s_r s)\<lparr>l_bufs := pre @ b\<lparr>b_mem := mem, b_tail := b_tail b + length bs\<rparr> # post, l_data_bytes := l_data_bytes (s_r s) + int (length bs)\<rparr>"
  have l1: "list_ok (s_string_data s) l1" "contents l1 = contents (s_r s) @ bs"
    using tail_at_store [OF lok t(1) mem le_refl fits] t(1) by (simp_all add: l1_def tail_at_def)
  have t1: "tail_at l1 pre (b\<lparr>b_mem := mem, b_tail := b_tail b + length bs\<rparr>) post" using t(1) by (simp add: l1_def tail_at_def)
  from ustream_fixup_string_ok [OF b1(1), of "s_string_data s"] obtain b2 where
    b2: "ustream_fixup_string (s_string_data s) (b\<lparr>b_mem := mem, b_tail := b_tail b + length bs\<rparr>) = Some b2" "buf_ok (s_string_data s) b2"
      "buf_bytes b2 = buf_bytes (b\<lparr>b_mem := mem, b_tail := b_tail b + length bs\<rparr>)" by blast
  define l2 where "l2 = l1\<lparr>l_bufs := (l_bufs l1)[length pre := b2]\<rparr>"
  have t2: "chain_ok (s_string_data s) l2" "tail_at l2 pre b2 post"
    unfolding l2_def by (rule tail_at_replace [OF list_okD(1) [OF l1(1)] t1 b2(2)])+
  have c2: "contents l2 = contents (s_r s) @ bs" using tail_at_contents [OF t2(2)] tail_at_contents [OF t1] b2(3) l1(2) by simp
  then have "list_ok (s_string_data s) l2" using t2(1) list_okD(2) [OF l1(1)] l1(2) by (simp add: list_ok_def l2_def)
  moreover have same: "(s_r s)\<lparr>l_data_bytes := n, l_bufs := bufs, l_data_tail := Some (length pre)\<rparr> = (s_r s)\<lparr>l_data_bytes := n, l_bufs := bufs\<rparr>" for n bufs
    using t(1) by (intro ustream_buf_list.equality) (simp_all add: tail_at_def)
  moreover have "(do { s \<leftarrow> ustream_store d bs s; ustream_fill_read ops (length bs) s }) = notify_n (op_notify_read ops) (int (length bs)) (s\<lparr>s_r := l2\<rparr>)"
    using t(1,2) mem b2(1) bs [unfolded t(3)]
    by (simp add: ustream_store_def ustream_fill_read_def tail_at_def l2_def l1_def Suc_diff_le min_absorb1 Let_def) (simp only: same)
  ultimately show ?thesis using c2 by blast
qed

lemma ustream_get_read_buf_ok:
  assumes "stream_ok s"
  shows "\<exists>r. ustream_get_read_buf s = Some r \<and> (case r of None \<Rightarrow> contents (s_r s) = [] | Some bs \<Rightarrow> bs \<noteq> [] \<and> (\<exists>rest. contents (s_r s) = bs @ rest))"
proof (cases "contents (s_r s) = []")
  case True
  have "b_tail b - b_data b = 0" if "l_bufs (s_r s) = b # bufs" for b bufs
    using that True length_buf_bytes [OF chain_okD(1) [OF list_okD(1) [OF stream_okD(1) [OF assms]], of b]] by simp
  then show ?thesis using True by (auto simp: ustream_get_read_buf_def Let_def split: list.split)
next
  case False
  from chain_head [OF list_okD(1) [OF stream_okD(1) [OF assms]] False] obtain b bufs where
    b: "l_bufs (s_r s) = b # bufs" "buf_ok (s_string_data s) b" "b_data b < b_tail b" by blast
  then have "buf_bytes b \<noteq> []" using length_buf_bytes [OF b(2)] by auto
  then show ?thesis using b mem_read_buf [OF b(2)] by (simp add: ustream_get_read_buf_def Let_def)
qed

section \<open>Stream implementations\<close>

text \<open>The contract of \<open>ustream.h\<close>: \<open>write\<close> takes a prefix of its data or fails, and \<open>set_read_blocked\<close> is there;
  both leave the stream itself alone.  \<open>out\<close> is what has left the stream, \<open>env\<close> what the two keep of the world.\<close>

locale stream_impl =
  fixes ops :: "'w ustream_ops" and wok :: "'w \<Rightarrow> bool" and out :: "'w \<Rightarrow> bytes" and env :: "'w \<Rightarrow> 'e"
  assumes write_law: "wok (s_world s) \<Longrightarrow> \<exists>n w. op_write ops bs m s = Some (n, s\<lparr>s_world := w\<rparr>) \<and> wok w \<and> env w = env (s_world s) \<and>
      n \<le> int (length bs) \<and> (0 \<le> n \<longrightarrow> out w = out (s_world s) @ take (nat n) bs) \<and> (n < 0 \<longrightarrow> (\<exists>k. out w = out (s_world s) @ take k bs))"
    and blocked_law: "wok (s_world s) \<Longrightarrow> \<exists>f w. op_set_read_blocked ops = Some f \<and> f s = Some (s\<lparr>s_world := w\<rparr>) \<and> wok w \<and>
      env w = env (s_world s) \<and> out w = out (s_world s)"

text \<open>What a write of \<open>data\<close> with the result \<open>r\<close> does: a prefix of the data is queued behind what was queued before.\<close>

definition accepted :: "('w \<Rightarrow> bytes) \<Rightarrow> 'w ustream \<Rightarrow> bytes \<Rightarrow> int \<Rightarrow> 'w ustream \<Rightarrow> bool" where
  "accepted out s data r s' \<longleftrightarrow> stream_ok s' \<and> s_r s' = s_r s \<and> s_eof s' = s_eof s \<and> r \<le> int (length data) \<and>
     (if r < 0
      then s_write_error s' \<and> s_state_change s' \<and> s_w s' = s_w s \<and> (\<exists>k. out (s_world s') = out (s_world s) @ take k data)
      else \<not> s_write_error s' \<and> out (s_world s') @ contents (s_w s') = out (s_world s) @ contents (s_w s) @ take (nat r) data \<and>
        (l_max_buffers (s_w s) \<le> 0 \<longrightarrow> r = int (length data)))"

lemma ustream_write_error_simps [simp]:
  "s_write_error (ustream_write_error s)" "s_r (ustream_write_error s) = s_r s" "s_w (ustream_write_error s) = s_w s"
  "s_eof (ustream_write_error s) = s_eof s" "s_world (ustream_write_error s) = s_world s" "s_string_data (ustream_write_error s) = s_string_data s"
  "stream_ok (ustream_write_error s) = stream_ok s" "\<not> s_write_error s \<Longrightarrow> s_state_change (ustream_write_error s)"
  by (simp_all add: ustream_write_error_def ustream_state_change_def stream_ok_def)

context stream_impl
begin

text \<open>Writing directly and queueing what is left.\<close>

lemma accepted_direct:
  assumes ok: "stream_ok s" "\<not> s_write_error s" "contents (s_w s) = []" and w: "wok (s_world s)"
  shows "\<exists>r s'. (do { (wr, s) \<leftarrow> op_write ops data m s;
      if wr < 0 then Some (wr, ustream_write_error s)
      else if wr = int (length data) then Some (wr, s)
      else ustream_write_buffered (drop (nat wr) data) wr s }) = Some (r, s') \<and> accepted out s data r s' \<and> wok (s_world s')"
proof -
  from write_law [OF w, of data m] obtain n w' where
    n: "op_write ops data m s = Some (n, s\<lparr>s_world := w'\<rparr>)" "wok w'" "n \<le> int (length data)" "0 \<le> n \<longrightarrow> out w' = out (s_world s) @ take (nat n) data"
      "n < 0 \<longrightarrow> (\<exists>k. out w' = out (s_world s) @ take k data)" by blast
  let ?s = "s\<lparr>s_world := w'\<rparr>"
  consider "n < 0" | "0 \<le> n" "n = int (length data)" | "0 \<le> n" "n < int (length data)" using n(3) by linarith
  then show ?thesis
  proof cases
    case 1
    then have "accepted out s data n (ustream_write_error ?s)" using ok n unfolding accepted_def by simp
    then show ?thesis using 1 n(1,2) by simp
  next
    case 2
    then have "accepted out s data n ?s" using ok n unfolding accepted_def by simp
    then show ?thesis using 2 n(1,2) by simp
  next
    case 3
    have lok: "list_ok (s_string_data ?s) (s_w ?s)" using stream_okD(2) [OF ok(1)] by simp
    from ustream_write_buffered_ok [OF lok, of "drop (nat n) data" n] obtain k l where
      k: "ustream_write_buffered (drop (nat n) data) n ?s = Some (n + int k, ?s\<lparr>s_w := l\<rparr>)" "k \<le> length data - nat n" "list_ok (s_string_data s) l"
        "contents l = take k (drop (nat n) data)" "l_max_buffers (s_w s) \<le> 0 \<longrightarrow> k = length data - nat n" using ok(3) by auto
    have "take (nat n) data @ take k (drop (nat n) data) = take (nat (n + int k)) data" using 3 by (simp add: take_add nat_add_distrib)
    moreover have "stream_ok (?s\<lparr>s_w := l\<rparr>)" using k(3) stream_okD(1) [OF ok(1)] by (simp add: stream_ok_def)
    ultimately have "accepted out s data (n + int k) (?s\<lparr>s_w := l\<rparr>)" using 3 ok n(4) k unfolding accepted_def by auto
    then show ?thesis using 3 n(1,2) k(1) by simp
  qed
qed

lemma accepted_buffered:
  assumes ok: "stream_ok s" "\<not> s_write_error s" and w: "wok (s_world s)"
  shows "\<exists>r s'. ustream_write_buffered data 0 s = Some (r, s') \<and> accepted out s data r s' \<and> wok (s_world s')"
proof -
  from ustream_write_buffered_ok [OF stream_okD(2) [OF ok(1)], of data 0] obtain k l where
    k: "ustream_write_buffered data 0 s = Some (int k, s\<lparr>s_w := l\<rparr>)" "k \<le> length data" "list_ok (s_string_data s) l"
      "contents l = contents (s_w s) @ take k data" "l_max_buffers (s_w s) \<le> 0 \<longrightarrow> k = length data" by auto
  have "stream_ok (s\<lparr>s_w := l\<rparr>)" using k(3) stream_okD(1) [OF ok(1)] by (simp add: stream_ok_def)
  then have "accepted out s data (int k) (s\<lparr>s_w := l\<rparr>)" using ok k unfolding accepted_def by simp
  then show ?thesis using k(1) w by simp
qed

lemma ustream_write_ok:
  assumes ok: "stream_ok s" "\<not> s_write_error s" and w: "wok (s_world s)"
  shows "\<exists>r s'. ustream_write ops data m s = Some (r, s') \<and> accepted out s data r s' \<and> wok (s_world s')"
proof (cases "contents (s_w s) = []")
  case True
  have "ustream_write ops data m s = (do { (wr, s) \<leftarrow> op_write ops data m s;
      if wr < 0 then Some (wr, ustream_write_error s)
      else if wr = int (length data) then Some (wr, s)
      else ustream_write_buffered (drop (nat wr) data) wr s })"
    using True ok list_okD(2) [OF stream_okD(2) [OF ok(1)]] unfolding ustream_write_def
    by (cases "op_write ops data m s") auto
  then show ?thesis using accepted_direct [OF ok True w] by presburger
next
  case False
  then show ?thesis using accepted_buffered [OF ok w] ok list_okD(2) [OF stream_okD(2) [OF ok(1)]] by (simp add: ustream_write_def)
qed

text \<open>Formatting into the last buffer and queueing the rest.\<close>

lemma accepted_printed:
  assumes ok: "stream_ok s" "\<not> s_write_error s" "contents (s_w s) \<noteq> []" and w: "wok (s_world s)"
  shows "\<exists>r s'. ustream_vprintf ops str s = Some (r, s') \<and> accepted out s str r s' \<and> wok (s_world s')"
proof -
  have ne: "l_data_bytes (s_w s) \<noteq> 0" using ok(3) list_okD(2) [OF stream_okD(2) [OF ok(1)]] by simp
  from ustream_prepare_list [OF stream_okD(2) [OF ok(1)], of False 1] obtain r l where
    l: "ustream_prepare_buf (s_string_data s) False 1 (s_w s) = Some (r, l)" "list_ok (s_string_data s) l" "contents l = contents (s_w s)"
      "same_limits l (s_w s)" "r \<longrightarrow> has_room l" "\<not> r \<longrightarrow> 0 < l_max_buffers (s_w s)" by blast
  have sok: "stream_ok (s\<lparr>s_w := l'\<rparr>)" if "list_ok (s_string_data s) l'" for l'
    using that stream_okD(1) [OF ok(1)] by (simp add: stream_ok_def)
  show ?thesis
  proof (cases r)
    case False
    have "accepted out s str 0 (s\<lparr>s_w := l\<rparr>)" using False ok(2) l(3,6) sok [OF l(2)] unfolding accepted_def by simp
    moreover have "ustream_vprintf ops str s = Some (0, s\<lparr>s_w := l\<rparr>)" using False ok(2) l(1) ne by (simp add: ustream_vprintf_def)
    ultimately show ?thesis using w by simp
  next
    case True
    with l(5) obtain pre b post where t: "tail_at l pre b post" "b_tail b < b_end b" by (auto simp: has_room_def)
    define n where "n = (if length str \<ge> b_end b - b_tail b then b_end b - b_tail b - 1 else length str)"
    have n: "n \<le> length str" "b_tail b + n + 1 \<le> b_end b" using t(2) by (auto simp: n_def)
    have "b_tail b + length (take n str @ [0]) \<le> length (b_mem b)"
      using n chain_ok_tail [OF list_okD(1) [OF l(2)] t(1)] by (auto simp: buf_ok_def split: if_splits)
    then obtain mem where mem: "mem_write (b_mem b) (b_tail b) (take n str @ [0]) = Some mem" by (simp add: mem_write_def)
    define l1 where "l1 = l\<lparr>l_bufs := (l_bufs l)[length pre := b\<lparr>b_mem := mem, b_tail := b_tail b + n\<rparr>], l_data_bytes := l_data_bytes l + int n\<rparr>"
    have l1: "list_ok (s_string_data s) l1" "contents l1 = contents (s_w s) @ take n str" "l_max_buffers l1 = l_max_buffers (s_w s)"
      using tail_at_store [OF l(2) t(1) mem, of n] n l(3,4) by (simp_all add: l1_def same_limits_def)
    have step: "ustream_vprintf ops str s = (if length str < b_end b - b_tail b then Some (int n, s\<lparr>s_w := l1\<rparr>)
        else ustream_write_buffered (drop n str) (int n) (s\<lparr>s_w := l1\<rparr>))"
    proof -
      have at: "l_data_tail l = Some (length pre)" "l_bufs l ! length pre = b" using t(1) by (simp_all add: tail_at_def)
      show ?thesis using ok(2) ne l(1) True mem unfolding ustream_vprintf_def
        by (simp only: if_False bind.simps prod.case not_True_eq_False at Let_def n_def [symmetric] l1_def) simp
    qed
    show ?thesis
    proof (cases "length str < b_end b - b_tail b")
      case True
      have "accepted out s str (int n) (s\<lparr>s_w := l1\<rparr>)" using True n ok(2) l1 sok [OF l1(1)] unfolding accepted_def by (simp add: n_def)
      then show ?thesis using step True w by simp
    next
      case False
      have "list_ok (s_string_data (s\<lparr>s_w := l1\<rparr>)) (s_w (s\<lparr>s_w := l1\<rparr>))" using l1(1) by simp
      from ustream_write_buffered_ok [OF this, of "drop n str" "int n"] obtain k l' where
        k: "ustream_write_buffered (drop n str) (int n) (s\<lparr>s_w := l1\<rparr>) = Some (int n + int k, s\<lparr>s_w := l'\<rparr>)" "k \<le> length str - n"
          "list_ok (s_string_data s) l'" "contents l' = contents l1 @ take k (drop n str)" "l_max_buffers (s_w s) \<le> 0 \<longrightarrow> k = length str - n"
        using l1(3) by auto
      have "accepted out s str (int n + int k) (s\<lparr>s_w := l'\<rparr>)"
        using n k(2,4,5) ok(2) l1(2) sok [OF k(3)] unfolding accepted_def by (simp add: take_add nat_add_distrib)
      then show ?thesis using step False w k(1) by simp
    qed
  qed
qed

lemma ustream_vprintf_ok:
  assumes ok: "stream_ok s" "\<not> s_write_error s" and w: "wok (s_world s)"
  shows "\<exists>r s'. ustream_vprintf ops str s = Some (r, s') \<and> accepted out s str r s' \<and> wok (s_world s')"
proof (cases "contents (s_w s) = []")
  case True
  then have "l_data_bytes (s_w s) = 0" using list_okD(2) [OF stream_okD(2) [OF ok(1)]] by simp
  then show ?thesis using ok ustream_write_ok [OF ok w, of str False] accepted_direct [OF ok True w, of str False]
    by (simp only: ustream_vprintf_def if_False if_True simp_thms split: if_split)
next
  case False
  then show ?thesis using accepted_printed [OF ok False w] by blast
qed

text \<open>Writing what is queued.\<close>

lemma ustream_pending_loop_ok:
  assumes "stream_ok s" "\<not> s_write_error s" "wok (s_world s)"
  shows "\<exists>n k l w s'. ustream_pending_loop ops wr s = Some (wr + int n, s') \<and> n \<le> length (contents (s_w s)) \<and> wok w \<and> env w = env (s_world s) \<and>
    s' \<in> {s\<lparr>s_w := l, s_world := w\<rparr>, ustream_write_error (s\<lparr>s_w := l, s_world := w\<rparr>)} \<and> list_ok (s_string_data s) l \<and>
    contents l = drop n (contents (s_w s)) \<and> out w = out (s_world s) @ take k (contents (s_w s)) \<and> (\<not> s_write_error s' \<longrightarrow> k = n) \<and> same_limits l (s_w s)"
  using assms
proof (induction "length (contents (s_w s))" arbitrary: s wr rule: less_induct)
  case less
  note lok = stream_okD(2) [OF less.prems(1)]
  show ?case
  proof (cases "contents (s_w s) = []")
    case True
    then have "ustream_pending_loop ops wr s = Some (wr + int 0, s)"
      using list_okD(2) [OF lok] by (subst ustream_pending_loop.simps) (simp split: list.split)
    then show ?thesis using less.prems True lok by (intro exI [of _ 0] exI [of _ "s_w s"] exI [of _ "s_world s"] exI [of _ s]) simp
  next
    case False
    from chain_head [OF list_okD(1) [OF lok] False] obtain b bufs where
      b: "l_bufs (s_w s) = b # bufs" "buf_ok (s_string_data s) b" "b_data b < b_tail b" by blast
    from write_law [OF less.prems(3), of "buf_bytes b" "bufs \<noteq> []"] obtain n w where
      n: "op_write ops (buf_bytes b) (bufs \<noteq> []) s = Some (n, s\<lparr>s_world := w\<rparr>)" "wok w" "env w = env (s_world s)" "n \<le> int (length (buf_bytes b))"
        "0 \<le> n \<longrightarrow> out w = out (s_world s) @ take (nat n) (buf_bytes b)" "n < 0 \<longrightarrow> (\<exists>k. out w = out (s_world s) @ take k (buf_bytes b))" by blast
    define s1 where "s1 = s\<lparr>s_world := w\<rparr>"
    define l0 where "l0 = (s_w s)\<lparr>l_data_bytes := l_data_bytes (s_w s) - n\<rparr>"
    have l0: "chain_ok (s_string_data s) l0" "l_bufs l0 = b # bufs" "l_data_bytes l0 = l_data_bytes (s_w s) - n" "same_limits l0 (s_w s)"
      using list_okD(1) [OF lok] b(1) chain_ok_cong [of l0 "s_w s"] by (simp_all add: l0_def same_limits_def)
    have nz: "l_data_bytes (s_w s) \<noteq> 0" using False list_okD(2) [OF lok] by simp
    have step: "ustream_pending_loop ops wr s =
      (if n < 0 then Some (wr, ustream_write_error s1) else if n = 0 then Some (wr, s1)
       else if n < int (b_tail b - b_data b) then Some (wr + n, s1\<lparr>s_w := l0\<lparr>l_bufs := b\<lparr>b_data := b_data b + nat n\<rparr> # bufs\<rparr>\<rparr>)
       else do { l \<leftarrow> ustream_free_buf l0; if bufs = [] then Some (wr + n, s1\<lparr>s_w := l\<rparr>) else ustream_pending_loop ops (wr + n) (s1\<lparr>s_w := l\<rparr>) })"
      using b(1) nz n(1) mem_read_buf [OF b(2)] by (subst ustream_pending_loop.simps) (simp add: s1_def l0_def Let_def del: of_nat_diff cong: if_cong)
    have dif: "l_data_bytes l0 = int (length (drop (nat n) (contents (s_w s))))" if "0 \<le> n"
      using that l0(3) list_okD(2) [OF lok] n(4) b(1) by auto
    note blen = length_buf_bytes [OF b(2)]
    have take: "take k (contents (s_w s)) = take k (buf_bytes b)" if "k \<le> length (buf_bytes b)" for k using that b(1) by simp
    consider "n < 0" | "n = 0" | "0 < n" "n < int (b_tail b - b_data b)" | "0 < n" "n = int (b_tail b - b_data b)" using n(4) blen by linarith
    then show ?thesis
    proof cases
      case 1
      then obtain k where "out w = out (s_world s) @ take k (buf_bytes b)" using n(6) by blast
      moreover have "take k (buf_bytes b) = take (min k (length (buf_bytes b))) (contents (s_w s))" using b(1) by (simp add: min_def)
      ultimately have "out w = out (s_world s) @ take (min k (length (buf_bytes b))) (contents (s_w s))" by simp
      then show ?thesis using 1 step n(2,3) lok less.prems
        by (intro exI [of _ 0] exI [of _ "min k (length (buf_bytes b))"] exI [of _ "s_w s"] exI [of _ w] exI [of _ "ustream_write_error s1"]) (simp add: s1_def)
    next
      case 2
      then show ?thesis using step n(2,3,5) lok less.prems
        by (intro exI [of _ 0] exI [of _ "s_w s"] exI [of _ w] exI [of _ s1]) (simp add: s1_def)
    next
      case 3
      let ?l = "l0\<lparr>l_bufs := b\<lparr>b_data := b_data b + nat n\<rparr> # bufs\<rparr>"
      have "nat n < b_tail b - b_data b" using 3 by linarith
      from chain_advance [OF l0(1,2) this] have c: "chain_ok (s_string_data s) ?l" "contents ?l = drop (nat n) (contents (s_w s))"
        using l0(2) b(1) by simp_all
      then have "list_ok (s_string_data s) ?l" using dif 3 by (simp add: list_ok_def)
      moreover have "ustream_pending_loop ops wr s = Some (wr + int (nat n), s1\<lparr>s_w := ?l\<rparr>)"
        using 3 step by (simp del: of_nat_diff)
      moreover have "nat n \<le> length (contents (s_w s))" "out w = out (s_world s) @ take (nat n) (contents (s_w s))"
        using 3 n(4,5) b(1) by simp_all
      ultimately show ?thesis using n(2,3) c(2) less.prems l0(4)
        by (intro exI [of _ "nat n"] exI [of _ ?l] exI [of _ w] exI [of _ "s1\<lparr>s_w := ?l\<rparr>"]) (simp add: s1_def same_limits_def)
    next
      case 4
      from ustream_free_buf_ok [OF l0(1,2)] obtain l where
        l: "ustream_free_buf l0 = Some l" "chain_ok (s_string_data s) l" "contents l = bufs_bytes bufs" "l_data_bytes l = l_data_bytes l0" "same_limits l l0" by blast
      have nn: "nat n = length (buf_bytes b)" using 4 blen by simp
      have cl: "contents l = drop (nat n) (contents (s_w s))" using l(3) b(1) nn by simp
      have lok': "list_ok (s_string_data s) l" using l(2,4) dif 4 cl by (simp add: list_ok_def)
      have out: "out w = out (s_world s) @ take (nat n) (contents (s_w s))" using n(5) 4 take nn by simp
      have lim: "same_limits l (s_w s)" by (rule same_limits_trans [OF l(5) l0(4)])
      show ?thesis
      proof (cases "bufs = []")
        case True
        then show ?thesis using 4 step l(1) n(2-4) cl lok' out lim less.prems nn b(1)
          by (intro exI [of _ "nat n"] exI [of _ l] exI [of _ w] exI [of _ "s1\<lparr>s_w := l\<rparr>"]) (simp add: s1_def)
      next
        case ne: False
        let ?s = "s1\<lparr>s_w := l\<rparr>"
        have lt: "length (contents (s_w ?s)) < length (contents (s_w s))" using cl 4 False by simp
        have pre: "stream_ok ?s" "\<not> s_write_error ?s" "wok (s_world ?s)"
          using less.prems n(2) lok' stream_okD(1) [OF less.prems(1)] by (simp_all add: s1_def stream_ok_def)
        have sf: "s_string_data ?s = s_string_data s" "s_w ?s = l" "s_world ?s = w" by (simp_all add: s1_def)
        from less.hyps [OF lt pre, of "wr + n", unfolded sf] obtain n2 k2 l2 w2 s2 where
          IH: "ustream_pending_loop ops (wr + n) ?s = Some (wr + n + int n2, s2)" "n2 \<le> length (contents l)" "wok w2" "env w2 = env w"
            "s2 \<in> {?s\<lparr>s_w := l2, s_world := w2\<rparr>, ustream_write_error (?s\<lparr>s_w := l2, s_world := w2\<rparr>)}" "list_ok (s_string_data s) l2"
            "contents l2 = drop n2 (contents l)" "out w2 = out w @ take k2 (contents l)" "\<not> s_write_error s2 \<longrightarrow> k2 = n2" "same_limits l2 l"
          by blast
        have "out w2 = out (s_world s) @ take (nat n + k2) (contents (s_w s))" using IH(8) out cl by (simp add: take_add)
        moreover have "contents l2 = drop (nat n + n2) (contents (s_w s))" using IH(7) cl by (simp add: add.commute)
        moreover have "ustream_pending_loop ops wr s = Some (wr + int (nat n + n2), s2)" using step 4 l(1) ne IH(1) by simp
        moreover have "s2 \<in> {s\<lparr>s_w := l2, s_world := w2\<rparr>, ustream_write_error (s\<lparr>s_w := l2, s_world := w2\<rparr>)}" using IH(5) by (simp add: s1_def)
        moreover have "nat n + n2 \<le> length (contents (s_w s))" using IH(2) cl nn b(1) by simp
        moreover have "same_limits l2 (s_w s)" by (rule same_limits_trans [OF IH(10) lim])
        moreover have "env w2 = env (s_world s)" using IH(4) n(3) by simp
        moreover have "\<not> s_write_error s2 \<longrightarrow> nat n + k2 = nat n + n2" using IH(9) by simp
        ultimately show ?thesis using IH(3,6) by blast
      qed
    qed
  qed
qed

text \<open>Blocking and unblocking the read side.\<close>

lemma set_read_blocked_ok:
  assumes "wok (s_world s)"
  shows "\<exists>w. set_read_blocked ops v s = Some (s\<lparr>s_read_blocked := ucast v, s_world := w\<rparr>) \<and> wok w \<and> env w = env (s_world s) \<and> out w = out (s_world s)"
proof (cases "(s_read_blocked s \<noteq> 0) \<noteq> (v \<noteq> 0)")
  case True
  have "wok (s_world (s\<lparr>s_read_blocked := ucast v\<rparr>))" using assms by simp
  from blocked_law [OF this] obtain f w where "op_set_read_blocked ops = Some f" "f (s\<lparr>s_read_blocked := ucast v\<rparr>) = Some (s\<lparr>s_read_blocked := ucast v, s_world := w\<rparr>)"
    "wok w" "env w = env (s_world s)" "out w = out (s_world s)" by auto
  then show ?thesis unfolding set_read_blocked_def Let_def if_P [OF True] by (intro exI [of _ w]) simp
next
  case False
  show ?thesis unfolding set_read_blocked_def Let_def if_not_P [OF False] using assms by (intro exI [of _ "s_world s"]) simp
qed

lemma ustream_consume_ok:
  assumes ok: "stream_ok s" "wok (s_world s)" and len: "len \<le> length (contents (s_r s))"
  shows "\<exists>l b w. ustream_consume ops len s = Some (s\<lparr>s_r := l, s_read_blocked := b, s_world := w\<rparr>) \<and> list_ok (s_string_data s) l \<and>
    contents l = drop len (contents (s_r s)) \<and> wok w \<and> env w = env (s_world s) \<and> out w = out (s_world s)"
proof (cases "len = 0")
  case True
  then show ?thesis using ok stream_okD(1) [OF ok(1)]
    by (intro exI [of _ "s_r s"] exI [of _ "s_read_blocked s"] exI [of _ "s_world s"]) (simp add: ustream_consume_def)
next
  case False
  note lok = stream_okD(1) [OF ok(1)]
  define l0 where "l0 = (s_r s)\<lparr>l_data_bytes := l_data_bytes (s_r s) - int len\<rparr>"
  have l0: "chain_ok (s_string_data s) l0" "contents l0 = contents (s_r s)" "l_data_bytes l0 = int (length (contents (s_r s)) - len)"
    using list_okD [OF lok] len chain_ok_cong [of l0 "s_r s"] by (simp_all add: l0_def)
  from ustream_consume_loop_ok [OF l0(1), of len] False len l0 obtain l where
    l: "ustream_consume_loop len l0 = Some l" "chain_ok (s_string_data s) l" "contents l = drop len (contents (s_r s))" "l_data_bytes l = l_data_bytes l0" by auto
  have "wok (s_world (s\<lparr>s_r := l\<rparr>))" using ok by simp
  from set_read_blocked_ok [OF this, of "ucast (s_read_blocked s AND NOT READ_BLOCKED_FULL)"] obtain w where
    w: "set_read_blocked ops (ucast (s_read_blocked s AND NOT READ_BLOCKED_FULL)) (s\<lparr>s_r := l\<rparr>) =
      Some (s\<lparr>s_r := l, s_read_blocked := ucast (ucast (s_read_blocked s AND NOT READ_BLOCKED_FULL) :: u8), s_world := w\<rparr>)" "wok w" "env w = env (s_world s)" "out w = out (s_world s)"
    by auto
  have "ustream_consume ops len s = set_read_blocked ops (ucast (s_read_blocked s AND NOT READ_BLOCKED_FULL)) (s\<lparr>s_r := l\<rparr>)"
    unfolding ustream_consume_def l0_def [symmetric] Let_def using False l0(3) l(1) by (simp only: if_False bind.simps) simp
  moreover have "list_ok (s_string_data s) l" using l l0(3) by (simp add: list_ok_def)
  ultimately show ?thesis using w l(3) by (simp only:) blast
qed

lemma ustream_reserve_ok:
  assumes ok: "stream_ok s" "wok (s_world s)"
  shows "\<exists>r s' l b w. ustream_reserve ops len s = Some (r, s') \<and> s' = s\<lparr>s_r := l, s_read_blocked := b, s_world := w\<rparr> \<and> list_ok (s_string_data s) l \<and>
    contents l = contents (s_r s) \<and> wok w \<and> env w = env (s_world s) \<and> out w = out (s_world s) \<and>
    (case r of None \<Rightarrow> bit b 1 | Some (d, room) \<Rightarrow> b = s_read_blocked s \<and> room_at l d room)"
proof -
  from ustream_prepare_list [OF stream_okD(1) [OF ok(1)], of "s_string_data s" len] obtain r l where
    l: "ustream_prepare_buf (s_string_data s) (s_string_data s) len (s_r s) = Some (r, l)" "list_ok (s_string_data s) l" "contents l = contents (s_r s)"
      "r \<longrightarrow> has_room l" by blast
  show ?thesis
  proof (cases r)
    case True
    with l(4) obtain pre b post where t: "tail_at l pre b post" "b_tail b < b_end b" by (auto simp: has_room_def)
    have "room_at l (length pre) (b_end b - b_tail b)" using t by (auto simp: room_at_def)
    moreover have "ustream_reserve ops len s = Some (Some (length pre, b_end b - b_tail b), s\<lparr>s_r := l\<rparr>)"
      using t(1) l(1) True by (simp add: ustream_reserve_def tail_at_def)
    ultimately show ?thesis using l ok(2)
      by (intro exI [of _ "Some (length pre, b_end b - b_tail b)"] exI [of _ "s\<lparr>s_r := l\<rparr>"] exI [of _ l] exI [of _ "s_read_blocked s"] exI [of _ "s_world s"]) simp
  next
    case False
    have "wok (s_world (s\<lparr>s_r := l\<rparr>))" using ok by simp
    from set_read_blocked_ok [OF this, of "ucast (s_read_blocked s OR READ_BLOCKED_FULL)"] obtain w where
      w: "set_read_blocked ops (ucast (s_read_blocked s OR READ_BLOCKED_FULL)) (s\<lparr>s_r := l\<rparr>) =
        Some (s\<lparr>s_r := l, s_read_blocked := ucast (ucast (s_read_blocked s OR READ_BLOCKED_FULL) :: u8), s_world := w\<rparr>)" "wok w" "env w = env (s_world s)" "out w = out (s_world s)"
      by auto
    have "bit (ucast (ucast (s_read_blocked s OR READ_BLOCKED_FULL) :: u8) :: u32) 1" by (simp add: bit_simps bit_1_iff flip: One_nat_def)
    moreover have "ustream_reserve ops len s = Some (None, s\<lparr>s_r := l, s_read_blocked := ucast (ucast (s_read_blocked s OR READ_BLOCKED_FULL) :: u8), s_world := w\<rparr>)"
      using l(1) False w(1) by (simp add: ustream_reserve_def)
    ultimately show ?thesis using l(2,3) w(2-4)
      by (intro exI [of _ None] exI [of _ "s\<lparr>s_r := l, s_read_blocked := ucast (ucast (s_read_blocked s OR READ_BLOCKED_FULL) :: u8), s_world := w\<rparr>"]
          exI [of _ l] exI [of _ "ucast (ucast (s_read_blocked s OR READ_BLOCKED_FULL) :: u8)"] exI [of _ w]) simp
  qed
qed

end

end
