(* ===== verification/Uloop.thy ===== *)
theory Uloop
  imports Ulist "HOL-Library.Signed_Division"
begin

text \<open>
  The event loop (\<open>libubox/uloop.c\<close>, in the variant for \<open>epoll\<close>).  The state holds the fields of all
  \<open>uloop_timeout\<close>, \<open>uloop_process\<close> and \<open>uloop_fd\<close> objects by address, the two lists of the module with
  their heads, the events fetched but not yet dispatched, and the stack of descriptors whose
  callbacks are running.

  A callback pointer is a value of the type \<open>'h\<close>; what it does is a parameter of the functions that
  call it, and so are the system calls, which work on a state \<open>'w\<close>.  Signals are delivered while the
  process waits in \<open>epoll_wait\<close>, which therefore reports whether SIGINT and SIGCHLD have arrived.
\<close>

section \<open>State\<close>

record timeval =
  tv_sec :: int
  tv_usec :: int

record ('h, 'w) uloop = list_heap +
  timeouts :: addr
  to_pending :: "addr \<Rightarrow> bool"
  to_cb :: "addr \<Rightarrow> 'h option"
  to_time :: "addr \<Rightarrow> timeval"
  processes :: addr
  pr_pending :: "addr \<Rightarrow> bool"
  pr_cb :: "addr \<Rightarrow> 'h"
  pr_pid :: "addr \<Rightarrow> int"
  fd_cb :: "addr \<Rightarrow> 'h option"
  fd_fd :: "addr \<Rightarrow> int"
  fd_eof :: "addr \<Rightarrow> bool"
  fd_error :: "addr \<Rightarrow> bool"
  fd_registered :: "addr \<Rightarrow> bool"
  fd_flags :: "addr \<Rightarrow> u8"
  fd_stack :: "(addr \<times> u32) list"
  poll_fd :: int
  uloop_cancelled :: bool
  uloop_handle_sigchld :: bool
  do_sigchld :: bool
  cur_fds :: "(addr \<times> u32) list"
  cur_fd :: nat
  cur_nfds :: nat
  recursive_calls :: int
  u_world :: 'w

section \<open>Timeouts\<close>

text \<open>The difference of two times in milliseconds, as the \<open>int\<close> that the code returns.\<close>

definition tv_diff :: "timeval \<Rightarrow> timeval \<Rightarrow> int" where
  "tv_diff t1 t2 = signed_take_bit 31 ((tv_sec t1 - tv_sec t2) * 1000 + (tv_usec t1 - tv_usec t2) sdiv 1000)"

text \<open>The loop of \<open>uloop_timeout_add\<close>: the first entry from \<open>tmp\<close> on that is due later than the new
  timeout, or the head of the list.\<close>

partial_function (option) uloop_timeout_pos :: "timeval \<Rightarrow> addr \<Rightarrow> ('h, 'w) uloop \<Rightarrow> addr option" where
  "uloop_timeout_pos time tmp s =
     (if tmp = timeouts s then Some (timeouts s)
      else if tmp = 0 then None
      else if tv_diff (to_time s tmp) time > 0 then Some tmp
      else do { n \<leftarrow> get_next tmp s; uloop_timeout_pos time n s })"

definition uloop_timeout_add :: "addr \<Rightarrow> ('h, 'w) uloop \<Rightarrow> (int \<times> ('h, 'w) uloop) option" where
  "uloop_timeout_add timeout s =
     (if timeout = 0 then None
      else if to_pending s timeout then Some (- 1, s)
      else do {
        tmp \<leftarrow> get_next (timeouts s) s;
        h \<leftarrow> uloop_timeout_pos (to_time s timeout) tmp s;
        s \<leftarrow> list_add_tail timeout h s;
        Some (0, s\<lparr>to_pending := (to_pending s)(timeout := True)\<rparr>)
      })"

definition uloop_timeout_cancel :: "addr \<Rightarrow> ('h, 'w) uloop \<Rightarrow> (int \<times> ('h, 'w) uloop) option" where
  "uloop_timeout_cancel timeout s =
     (if timeout = 0 then None
      else if \<not> to_pending s timeout then Some (- 1, s)
      else do {
        s \<leftarrow> list_del timeout s;
        Some (0, s\<lparr>to_pending := (to_pending s)(timeout := False)\<rparr>)
      })"

text \<open>The monotonic clock is the parameter \<open>clock\<close>; it gives seconds and nanoseconds.\<close>

definition uloop_gettime :: "('w \<Rightarrow> (int \<times> int) \<times> 'w) \<Rightarrow> ('h, 'w) uloop \<Rightarrow> timeval \<times> ('h, 'w) uloop" where
  "uloop_gettime clock s = (let ((sec, nsec), w) = clock (u_world s) in
     (\<lparr>tv_sec = sec, tv_usec = nsec sdiv 1000\<rparr>, s\<lparr>u_world := w\<rparr>))"

text \<open>The time \<open>msecs\<close> after \<open>now\<close>, with the carry of the code.\<close>

definition uloop_due_time :: "timeval \<Rightarrow> int \<Rightarrow> timeval" where
  "uloop_due_time now msecs =
     (let sec = tv_sec now + msecs sdiv 1000; usec = tv_usec now + msecs smod 1000 * 1000 in
      if usec > 1000000 then \<lparr>tv_sec = sec + 1, tv_usec = usec smod 1000000\<rparr> else \<lparr>tv_sec = sec, tv_usec = usec\<rparr>)"

definition uloop_timeout_set :: "('w \<Rightarrow> (int \<times> int) \<times> 'w) \<Rightarrow> addr \<Rightarrow> int \<Rightarrow> ('h, 'w) uloop \<Rightarrow> (int \<times> ('h, 'w) uloop) option" where
  "uloop_timeout_set clock timeout msecs s =
     (if timeout = 0 then None
      else do {
        s \<leftarrow> (if to_pending s timeout then do { (_, s) \<leftarrow> uloop_timeout_cancel timeout s; Some s } else Some s);
        let (now, s) = uloop_gettime clock s;
        uloop_timeout_add timeout (s\<lparr>to_time := (to_time s)(timeout := uloop_due_time now msecs)\<rparr>)
      })"

definition uloop_timeout_remaining :: "('w \<Rightarrow> (int \<times> int) \<times> 'w) \<Rightarrow> addr \<Rightarrow> ('h, 'w) uloop \<Rightarrow> (int \<times> ('h, 'w) uloop) option" where
  "uloop_timeout_remaining clock timeout s =
     (if timeout = 0 then None
      else if \<not> to_pending s timeout then Some (- 1, s)
      else let (now, s) = uloop_gettime clock s in Some (tv_diff (to_time s timeout) now, s))"

definition uloop_get_next_timeout :: "timeval \<Rightarrow> ('h, 'w) uloop \<Rightarrow> int option" where
  "uloop_get_next_timeout tv s = do {
     e \<leftarrow> list_empty (timeouts s) s;
     if e then Some (- 1)
     else do {
       timeout \<leftarrow> get_next (timeouts s) s;
       let diff = tv_diff (to_time s timeout) tv;
       Some (if diff < 0 then 0 else diff)
     }
   }"

text \<open>\<open>call\<close> runs a callback on the object it belongs to.\<close>

partial_function (option) uloop_process_timeouts ::
  "('h \<Rightarrow> addr \<Rightarrow> ('h, 'w) uloop \<Rightarrow> ('h, 'w) uloop option) \<Rightarrow> timeval \<Rightarrow> ('h, 'w) uloop \<Rightarrow> ('h, 'w) uloop option" where
  "uloop_process_timeouts call tv s = do {
     e \<leftarrow> list_empty (timeouts s) s;
     if e then Some s
     else do {
       t \<leftarrow> get_next (timeouts s) s;
       if tv_diff (to_time s t) tv > 0 then Some s
       else do {
         (_, s) \<leftarrow> uloop_timeout_cancel t s;
         s \<leftarrow> (case to_cb s t of None \<Rightarrow> Some s | Some h \<Rightarrow> call h t s);
         uloop_process_timeouts call tv s
       }
     }
   }"

partial_function (option) uloop_clear_timeouts_loop :: "addr \<Rightarrow> addr \<Rightarrow> ('h, 'w) uloop \<Rightarrow> ('h, 'w) uloop option" where
  "uloop_clear_timeouts_loop t tmp s =
     (if t = timeouts s then Some s
      else do {
        (_, s) \<leftarrow> uloop_timeout_cancel t s;
        n \<leftarrow> get_next tmp s;
        uloop_clear_timeouts_loop tmp n s
      })"

definition uloop_clear_timeouts :: "('h, 'w) uloop \<Rightarrow> ('h, 'w) uloop option" where
  "uloop_clear_timeouts s = do {
     t \<leftarrow> get_next (timeouts s) s;
     tmp \<leftarrow> get_next t s;
     uloop_clear_timeouts_loop t tmp s
   }"

section \<open>Processes\<close>

partial_function (option) uloop_process_pos :: "int \<Rightarrow> addr \<Rightarrow> ('h, 'w) uloop \<Rightarrow> addr option" where
  "uloop_process_pos pid tmp s =
     (if tmp = processes s then Some (processes s)
      else if tmp = 0 then None
      else if pr_pid s tmp > pid then Some tmp
      else do { n \<leftarrow> get_next tmp s; uloop_process_pos pid n s })"

definition uloop_process_add :: "addr \<Rightarrow> ('h, 'w) uloop \<Rightarrow> (int \<times> ('h, 'w) uloop) option" where
  "uloop_process_add p s =
     (if p = 0 then None
      else if pr_pending s p then Some (- 1, s)
      else do {
        tmp \<leftarrow> get_next (processes s) s;
        h \<leftarrow> uloop_process_pos (pr_pid s p) tmp s;
        s \<leftarrow> list_add_tail p h s;
        Some (0, s\<lparr>pr_pending := (pr_pending s)(p := True)\<rparr>)
      })"

definition uloop_process_delete :: "addr \<Rightarrow> ('h, 'w) uloop \<Rightarrow> (int \<times> ('h, 'w) uloop) option" where
  "uloop_process_delete p s =
     (if p = 0 then None
      else if \<not> pr_pending s p then Some (- 1, s)
      else do {
        s \<leftarrow> list_del p s;
        Some (0, s\<lparr>pr_pending := (pr_pending s)(p := False)\<rparr>)
      })"

text \<open>The loop over the processes for a child \<open>pid\<close> that ended with status \<open>ret\<close>.\<close>

partial_function (option) uloop_reap ::
  "('h \<Rightarrow> addr \<Rightarrow> int \<Rightarrow> ('h, 'w) uloop \<Rightarrow> ('h, 'w) uloop option) \<Rightarrow> int \<Rightarrow> int \<Rightarrow> addr \<Rightarrow> addr \<Rightarrow> ('h, 'w) uloop \<Rightarrow> ('h, 'w) uloop option" where
  "uloop_reap call pid ret p tmp s =
     (if p = processes s then Some s
      else if p = 0 then None
      else if pr_pid s p > pid then Some s
      else do {
        s \<leftarrow> (if pr_pid s p < pid then Some s
              else do { (_, s) \<leftarrow> uloop_process_delete p s; call (pr_cb s p) p ret s });
        n \<leftarrow> get_next tmp s;
        uloop_reap call pid ret tmp n s
      })"

text \<open>\<open>waitpid\<close> gives a process id, or a value that is not positive, and the status.\<close>

partial_function (option) uloop_reap_all ::
  "('w \<Rightarrow> (int \<times> int) \<times> 'w) \<Rightarrow> ('h \<Rightarrow> addr \<Rightarrow> int \<Rightarrow> ('h, 'w) uloop \<Rightarrow> ('h, 'w) uloop option) \<Rightarrow> ('h, 'w) uloop \<Rightarrow> ('h, 'w) uloop option" where
  "uloop_reap_all waitpid call s = (let ((pid, ret), w) = waitpid (u_world s); s = s\<lparr>u_world := w\<rparr> in
     if pid \<le> 0 then Some s
     else do {
       p \<leftarrow> get_next (processes s) s;
       tmp \<leftarrow> get_next p s;
       s \<leftarrow> uloop_reap call pid ret p tmp s;
       uloop_reap_all waitpid call s
     })"

definition uloop_handle_processes ::
  "('w \<Rightarrow> (int \<times> int) \<times> 'w) \<Rightarrow> ('h \<Rightarrow> addr \<Rightarrow> int \<Rightarrow> ('h, 'w) uloop \<Rightarrow> ('h, 'w) uloop option) \<Rightarrow> ('h, 'w) uloop \<Rightarrow> ('h, 'w) uloop option" where
  "uloop_handle_processes waitpid call s = uloop_reap_all waitpid call (s\<lparr>do_sigchld := False\<rparr>)"

partial_function (option) uloop_clear_processes_loop :: "addr \<Rightarrow> addr \<Rightarrow> ('h, 'w) uloop \<Rightarrow> ('h, 'w) uloop option" where
  "uloop_clear_processes_loop p tmp s =
     (if p = processes s then Some s
      else do {
        (_, s) \<leftarrow> uloop_process_delete p s;
        n \<leftarrow> get_next tmp s;
        uloop_clear_processes_loop tmp n s
      })"

definition uloop_clear_processes :: "('h, 'w) uloop \<Rightarrow> ('h, 'w) uloop option" where
  "uloop_clear_processes s = do {
     p \<leftarrow> get_next (processes s) s;
     tmp \<leftarrow> get_next p s;
     uloop_clear_processes_loop p tmp s
   }"

section \<open>Descriptors\<close>

abbreviation ULOOP_READ :: u32 where "ULOOP_READ \<equiv> 1"
abbreviation ULOOP_WRITE :: u32 where "ULOOP_WRITE \<equiv> 2"
abbreviation ULOOP_EDGE_TRIGGER :: u32 where "ULOOP_EDGE_TRIGGER \<equiv> 4"
abbreviation ULOOP_BLOCKING :: u32 where "ULOOP_BLOCKING \<equiv> 8"
abbreviation ULOOP_EVENT_BUFFERED :: u32 where "ULOOP_EVENT_BUFFERED \<equiv> 16"
abbreviation ULOOP_ERROR_CB :: u32 where "ULOOP_ERROR_CB \<equiv> 64"
abbreviation ULOOP_EVENT_MASK :: u32 where "ULOOP_EVENT_MASK \<equiv> ULOOP_READ OR ULOOP_WRITE"
abbreviation ULOOP_MAX_EVENTS :: nat where "ULOOP_MAX_EVENTS \<equiv> 10"

text \<open>The events and operations of \<open>epoll\<close>.\<close>

abbreviation EPOLLIN :: u32 where "EPOLLIN \<equiv> 1"
abbreviation EPOLLOUT :: u32 where "EPOLLOUT \<equiv> 4"
abbreviation EPOLLERR :: u32 where "EPOLLERR \<equiv> 8"
abbreviation EPOLLHUP :: u32 where "EPOLLHUP \<equiv> 0x10"
abbreviation EPOLLRDHUP :: u32 where "EPOLLRDHUP \<equiv> 0x2000"
abbreviation EPOLLET :: u32 where "EPOLLET \<equiv> 0x80000000"

datatype epoll_op = EPOLL_CTL_ADD | EPOLL_CTL_MOD | EPOLL_CTL_DEL

text \<open>The system calls of the module.  \<open>sys_epoll_wait\<close> gives the events with their data pointers, or
  nothing when it fails, and the signals (SIGINT, SIGCHLD) that arrived meanwhile.\<close>

record 'w uloop_sys =
  sys_clock :: "'w \<Rightarrow> (int \<times> int) \<times> 'w"
  sys_waitpid :: "'w \<Rightarrow> (int \<times> int) \<times> 'w"
  sys_epoll_create :: "'w \<Rightarrow> int \<times> 'w"
  sys_epoll_ctl :: "epoll_op \<Rightarrow> int \<Rightarrow> u32 \<Rightarrow> addr \<Rightarrow> 'w \<Rightarrow> int \<times> 'w"
  sys_epoll_wait :: "int \<Rightarrow> 'w \<Rightarrow> (addr \<times> u32) list option \<times> (bool \<times> bool) \<times> 'w"
  sys_cloexec :: "int \<Rightarrow> 'w \<Rightarrow> 'w"
  sys_nonblock :: "int \<Rightarrow> 'w \<Rightarrow> 'w"
  sys_close :: "int \<Rightarrow> 'w \<Rightarrow> 'w"
  sys_signals :: "bool \<Rightarrow> bool \<Rightarrow> 'w \<Rightarrow> 'w"

definition uloop_init :: "'w uloop_sys \<Rightarrow> ('h, 'w) uloop \<Rightarrow> int \<times> ('h, 'w) uloop" where
  "uloop_init sys s =
     (if poll_fd s \<ge> 0 then (0, s)
      else let (fd, w) = sys_epoll_create sys (u_world s) in
        if fd < 0 then (- 1, s\<lparr>poll_fd := fd, u_world := w\<rparr>)
        else (0, s\<lparr>poll_fd := fd, u_world := sys_cloexec sys fd w\<rparr>))"

definition register_poll :: "'w uloop_sys \<Rightarrow> addr \<Rightarrow> u32 \<Rightarrow> ('h, 'w) uloop \<Rightarrow> int \<times> ('h, 'w) uloop" where
  "register_poll sys fd flags s =
     (let op = (if fd_registered s fd then EPOLL_CTL_MOD else EPOLL_CTL_ADD);
          ev = (if flags AND ULOOP_READ \<noteq> 0 then EPOLLIN OR EPOLLRDHUP else 0) OR
               (if flags AND ULOOP_WRITE \<noteq> 0 then EPOLLOUT else 0) OR
               (if flags AND ULOOP_EDGE_TRIGGER \<noteq> 0 then EPOLLET else 0);
          s = s\<lparr>fd_flags := (fd_flags s)(fd := ucast flags)\<rparr>;
          (ret, w) = sys_epoll_ctl sys op (fd_fd s fd) ev fd (u_world s) in
      (ret, s\<lparr>u_world := w\<rparr>))"

text \<open>\<open>__uloop_fd_delete\<close>.\<close>

definition uloop_fd_unregister :: "'w uloop_sys \<Rightarrow> addr \<Rightarrow> ('h, 'w) uloop \<Rightarrow> int \<times> ('h, 'w) uloop" where
  "uloop_fd_unregister sys sock s =
     (let s = s\<lparr>fd_flags := (fd_flags s)(sock := 0)\<rparr>;
          (ret, w) = sys_epoll_ctl sys EPOLL_CTL_DEL (fd_fd s sock) 0 0 (u_world s) in
      (ret, s\<lparr>u_world := w\<rparr>))"

text \<open>The frames of the stack are searched from the innermost one; a negative number takes the
  descriptor out of its frame, other events are kept for it.\<close>

fun stack_event :: "addr \<Rightarrow> int \<Rightarrow> (addr \<times> u32) list \<Rightarrow> (addr \<times> u32) list option" where
  "stack_event fd events [] = None"
| "stack_event fd events ((f, e) # frames) =
     (if f \<noteq> fd then map_option (\<lambda>frames. (f, e) # frames) (stack_event fd events frames)
      else if events < 0 then Some ((0, e) # frames)
      else Some ((f, e OR (word_of_int events OR ULOOP_EVENT_BUFFERED)) # frames))"

definition uloop_fd_stack_event :: "addr \<Rightarrow> int \<Rightarrow> ('h, 'w) uloop \<Rightarrow> bool \<times> ('h, 'w) uloop" where
  "uloop_fd_stack_event fd events s =
     (if ucast (fd_flags s fd) AND ULOOP_EDGE_TRIGGER = 0 then (False, s)
      else case stack_event fd events (fd_stack s) of
        None \<Rightarrow> (False, s)
      | Some frames \<Rightarrow> (True, s\<lparr>fd_stack := frames\<rparr>))"

text \<open>The loop of \<open>uloop_fd_delete\<close> over the \<open>n\<close> events from index \<open>i\<close> on.\<close>

fun uloop_fd_forget :: "addr \<Rightarrow> nat \<Rightarrow> nat \<Rightarrow> (addr \<times> u32) list \<Rightarrow> (addr \<times> u32) list option" where
  "uloop_fd_forget fd i 0 evs = Some evs"
| "uloop_fd_forget fd i (Suc n) evs =
     (if i < length evs
      then uloop_fd_forget fd (Suc i) n (if fst (evs ! i) = fd then evs[i := (0, snd (evs ! i))] else evs)
      else None)"

definition uloop_fd_delete :: "'w uloop_sys \<Rightarrow> addr \<Rightarrow> ('h, 'w) uloop \<Rightarrow> (int \<times> ('h, 'w) uloop) option" where
  "uloop_fd_delete sys fd s = do {
     evs \<leftarrow> uloop_fd_forget fd (cur_fd s) (cur_nfds s) (cur_fds s);
     let s = s\<lparr>cur_fds := evs\<rparr>;
     if fd = 0 then None
     else if \<not> fd_registered s fd then Some (0, s)
     else do {
       let s = s\<lparr>fd_registered := (fd_registered s)(fd := False)\<rparr>;
       let (_, s) = uloop_fd_stack_event fd (- 1) s;
       Some (uloop_fd_unregister sys fd s)
     }
   }"

definition uloop_fd_add :: "'w uloop_sys \<Rightarrow> addr \<Rightarrow> u32 \<Rightarrow> ('h, 'w) uloop \<Rightarrow> (int \<times> ('h, 'w) uloop) option" where
  "uloop_fd_add sys sock flags s =
     (if flags AND (ULOOP_READ OR ULOOP_WRITE) = 0 then uloop_fd_delete sys sock s
      else if sock = 0 then None
      else let s = (if \<not> fd_registered s sock \<and> flags AND ULOOP_BLOCKING = 0
                    then s\<lparr>u_world := sys_nonblock sys (fd_fd s sock) (u_world s)\<rparr> else s);
               (ret, s) = register_poll sys sock flags s in
        Some (ret, if ret < 0 then s
          else s\<lparr>fd_registered := (fd_registered s)(sock := True), fd_eof := (fd_eof s)(sock := False)\<rparr>))"

section \<open>Fetching and dispatching events\<close>

text \<open>The body of the loop of \<open>uloop_fetch_events\<close> for the event \<open>n\<close>.\<close>

definition uloop_fetch_event :: "'w uloop_sys \<Rightarrow> nat \<Rightarrow> addr \<times> u32 \<Rightarrow> ('h, 'w) uloop \<Rightarrow> ('h, 'w) uloop option" where
  "uloop_fetch_event sys n = (\<lambda>(u, events) s.
     if n \<ge> length (cur_fds s) then None
     else let s = s\<lparr>cur_fds := (cur_fds s)[n := (u, snd (cur_fds s ! n))]\<rparr> in
       if u = 0 then Some s
       else do {
         s \<leftarrow> (if events AND (EPOLLERR OR EPOLLHUP) \<noteq> 0
               then let s = s\<lparr>fd_error := (fd_error s)(u := True)\<rparr> in
                 if ucast (fd_flags s u) AND ULOOP_ERROR_CB = 0
                 then do { (_, s) \<leftarrow> uloop_fd_delete sys u s; Some s } else Some s
               else Some s);
         if events AND (EPOLLRDHUP OR EPOLLIN OR EPOLLOUT OR EPOLLERR OR EPOLLHUP) = 0
         then Some (s\<lparr>cur_fds := (cur_fds s)[n := (0, snd (cur_fds s ! n))]\<rparr>)
         else let s = (if events AND EPOLLRDHUP \<noteq> 0 then s\<lparr>fd_eof := (fd_eof s)(u := True)\<rparr> else s);
                  ev = (if events AND EPOLLIN \<noteq> 0 then ULOOP_READ else 0) OR
                       (if events AND EPOLLOUT \<noteq> 0 then ULOOP_WRITE else 0) in
           Some (s\<lparr>cur_fds := (cur_fds s)[n := (fst (cur_fds s ! n), ev)]\<rparr>)
       })"

fun uloop_fetch_loop :: "'w uloop_sys \<Rightarrow> nat \<Rightarrow> (addr \<times> u32) list \<Rightarrow> ('h, 'w) uloop \<Rightarrow> ('h, 'w) uloop option" where
  "uloop_fetch_loop sys n [] s = Some s"
| "uloop_fetch_loop sys n (e # es) s = do { s \<leftarrow> uloop_fetch_event sys n e s; uloop_fetch_loop sys (Suc n) es s }"

text \<open>The result is the number of events, or nothing when the call fails.\<close>

definition uloop_fetch_events :: "'w uloop_sys \<Rightarrow> int \<Rightarrow> ('h, 'w) uloop \<Rightarrow> (nat option \<times> ('h, 'w) uloop) option" where
  "uloop_fetch_events sys timeout s =
     (let (r, (sigint, sigchld), w) = sys_epoll_wait sys timeout (u_world s);
          s = s\<lparr>u_world := w, uloop_cancelled := uloop_cancelled s \<or> sigint, do_sigchld := do_sigchld s \<or> sigchld\<rparr> in
      case r of
        None \<Rightarrow> Some (None, s)
      | Some es \<Rightarrow> do { s \<leftarrow> uloop_fetch_loop sys 0 es s; Some (Some (length es), s) })"

text \<open>The inner loop: the callback runs again while events were buffered for it and its frame still
  holds the descriptor; in the end the stack is again what lies below this frame.  The frame of the loop is the one with \<open>n\<close> frames below it.
  \<open>call\<close> runs a callback on a descriptor with events.\<close>

partial_function (option) uloop_run_cb ::
  "('h \<Rightarrow> addr \<Rightarrow> u32 \<Rightarrow> ('h, 'w) uloop \<Rightarrow> ('h, 'w) uloop option) \<Rightarrow> nat \<Rightarrow> addr \<Rightarrow> u32 \<Rightarrow> ('h, 'w) uloop \<Rightarrow> ('h, 'w) uloop option" where
  "uloop_run_cb call n fd events s =
     (let i = length (fd_stack s) - Suc n in
      if length (fd_stack s) \<le> n then None
      else do {
        h \<leftarrow> fd_cb s fd;
        s \<leftarrow> call h fd events (s\<lparr>fd_stack := (fd_stack s)[i := (fst (fd_stack s ! i), 0)]\<rparr>);
        let i = length (fd_stack s) - Suc n;
        if length (fd_stack s) \<le> n then None
        else let (f, e) = fd_stack s ! i in
          if f \<noteq> 0 \<and> e AND ULOOP_EVENT_MASK \<noteq> 0 then uloop_run_cb call n fd (e AND ULOOP_EVENT_MASK) s
          else Some (s\<lparr>fd_stack := drop (Suc i) (fd_stack s)\<rparr>)
      })"

partial_function (option) uloop_dispatch ::
  "('h \<Rightarrow> addr \<Rightarrow> u32 \<Rightarrow> ('h, 'w) uloop \<Rightarrow> ('h, 'w) uloop option) \<Rightarrow> ('h, 'w) uloop \<Rightarrow> ('h, 'w) uloop option" where
  "uloop_dispatch call s =
     (if cur_nfds s = 0 then Some s
      else if cur_fd s \<ge> length (cur_fds s) then None
      else let (fd, events) = cur_fds s ! cur_fd s;
               s = s\<lparr>cur_fd := cur_fd s + 1, cur_nfds := cur_nfds s - 1\<rparr> in
        if fd = 0 then uloop_dispatch call s
        else if fd_cb s fd = None then uloop_dispatch call s
        else let (buffered, s) = uloop_fd_stack_event fd (sint events) s in
          if buffered then uloop_dispatch call s
          else uloop_run_cb call (length (fd_stack s)) fd events (s\<lparr>fd_stack := (fd, 0) # fd_stack s\<rparr>))"

definition uloop_run_events ::
  "'w uloop_sys \<Rightarrow> ('h \<Rightarrow> addr \<Rightarrow> u32 \<Rightarrow> ('h, 'w) uloop \<Rightarrow> ('h, 'w) uloop option) \<Rightarrow> int \<Rightarrow> ('h, 'w) uloop \<Rightarrow> ('h, 'w) uloop option" where
  "uloop_run_events sys call timeout s = do {
     s \<leftarrow> (if cur_nfds s = 0 then do {
         (n, s) \<leftarrow> uloop_fetch_events sys timeout (s\<lparr>cur_fd := 0\<rparr>);
         Some (s\<lparr>cur_nfds := (case n of None \<Rightarrow> 0 | Some n \<Rightarrow> n)\<rparr>)
       } else Some s);
     uloop_dispatch call s
   }"

section \<open>The loop\<close>

record ('h, 'w) uloop_calls =
  call_timeout :: "'h \<Rightarrow> addr \<Rightarrow> ('h, 'w) uloop \<Rightarrow> ('h, 'w) uloop option"
  call_process :: "'h \<Rightarrow> addr \<Rightarrow> int \<Rightarrow> ('h, 'w) uloop \<Rightarrow> ('h, 'w) uloop option"
  call_fd :: "'h \<Rightarrow> addr \<Rightarrow> u32 \<Rightarrow> ('h, 'w) uloop \<Rightarrow> ('h, 'w) uloop option"

definition uloop_setup_signals :: "'w uloop_sys \<Rightarrow> bool \<Rightarrow> ('h, 'w) uloop \<Rightarrow> ('h, 'w) uloop" where
  "uloop_setup_signals sys add s = s\<lparr>u_world := sys_signals sys add (uloop_handle_sigchld s) (u_world s)\<rparr>"

definition uloop_end :: "('h, 'w) uloop \<Rightarrow> ('h, 'w) uloop" where
  "uloop_end s = s\<lparr>uloop_cancelled := True\<rparr>"

text \<open>One turn of the loop of \<open>uloop_run\<close>.\<close>

definition uloop_turn :: "'w uloop_sys \<Rightarrow> ('h, 'w) uloop_calls \<Rightarrow> ('h, 'w) uloop \<Rightarrow> ('h, 'w) uloop option" where
  "uloop_turn sys calls s = do {
     let (tv, s) = uloop_gettime (sys_clock sys) s;
     s \<leftarrow> uloop_process_timeouts (call_timeout calls) tv s;
     if uloop_cancelled s then Some s
     else do {
       s \<leftarrow> (if do_sigchld s then uloop_handle_processes (sys_waitpid sys) (call_process calls) s else Some s);
       let (tv, s) = uloop_gettime (sys_clock sys) s;
       timeout \<leftarrow> uloop_get_next_timeout tv s;
       uloop_run_events sys (call_fd calls) timeout s
     }
   }"

partial_function (option) uloop_run_loop :: "'w uloop_sys \<Rightarrow> ('h, 'w) uloop_calls \<Rightarrow> ('h, 'w) uloop \<Rightarrow> ('h, 'w) uloop option" where
  "uloop_run_loop sys calls s =
     (if uloop_cancelled s then Some s
      else do { s \<leftarrow> uloop_turn sys calls s; uloop_run_loop sys calls s })"

definition uloop_run :: "'w uloop_sys \<Rightarrow> ('h, 'w) uloop_calls \<Rightarrow> ('h, 'w) uloop \<Rightarrow> ('h, 'w) uloop option" where
  "uloop_run sys calls s = do {
     let n = recursive_calls s;
     let s = s\<lparr>recursive_calls := n + 1\<rparr>;
     s \<leftarrow> uloop_run_loop sys calls (if n = 0 then uloop_setup_signals sys True s else s);
     let n = recursive_calls s - 1;
     let s = s\<lparr>recursive_calls := n\<rparr>;
     Some (if n = 0 then uloop_setup_signals sys False s else s)
   }"

definition uloop_done :: "'w uloop_sys \<Rightarrow> ('h, 'w) uloop \<Rightarrow> ('h, 'w) uloop option" where
  "uloop_done sys s =
     (if poll_fd s < 0 then Some s
      else do {
        s \<leftarrow> uloop_clear_timeouts (s\<lparr>u_world := sys_close sys (poll_fd s) (u_world s), poll_fd := - 1\<rparr>);
        uloop_clear_processes s
      })"

end
