(* ===== verification/Uloop_Timers.thy ===== *)
theory Uloop_Timers
  imports Uloop
begin

text \<open>
  The timers of \<open>uloop.c\<close>.  \<open>tv_diff\<close> drops the part of a difference below one millisecond, so the list
  of pending timeouts is not exactly sorted: an earlier entry may be due up to one millisecond after
  a later one.  This weaker order is an invariant of adding and removing, and it is enough for the
  loop to run every timer that is overdue by a millisecond, and to wait no longer than it may.
\<close>

section \<open>Time\<close>

definition micro :: "timeval \<Rightarrow> int" where
  "micro t = tv_sec t * 1000000 + tv_usec t"

lemma sdiv_1000: "1000 * (x sdiv 1000) - 1000 < x \<and> x < 1000 * (x sdiv 1000) + (1000 :: int)"
  by (auto simp: signed_divide_int_def sgn_if abs_if split: if_splits)

text \<open>The span in which differences of times fit into an \<open>int\<close> of milliseconds, almost 25 days.\<close>

abbreviation tv_span :: int where
  "tv_span \<equiv> 2147482000000"

lemma tv_diff_micro:
  assumes "\<bar>micro a - micro b\<bar> < tv_span"
  shows "1000 * tv_diff a b - 1000 < micro a - micro b" "micro a - micro b < 1000 * tv_diff a b + 1000"
proof -
  let ?d = "(tv_sec a - tv_sec b) * 1000 + (tv_usec a - tv_usec b) sdiv 1000"
  have D: "1000 * ?d - 1000 < micro a - micro b" "micro a - micro b < 1000 * ?d + 1000"
    using sdiv_1000 [of "tv_usec a - tv_usec b"] by (simp_all add: micro_def algebra_simps)
  then have "- (2 ^ 31) \<le> ?d" "?d < 2 ^ 31" using assms by simp_all
  then have "tv_diff a b = ?d" unfolding tv_diff_def by (intro signed_take_bit_int_eq_self) simp_all
  then show "1000 * tv_diff a b - 1000 < micro a - micro b" "micro a - micro b < 1000 * tv_diff a b + 1000" using D by simp_all
qed

lemma smod_carry: "1000000 < u \<Longrightarrow> u < 2000000 \<Longrightarrow> u smod 1000000 = u - (1000000 :: int)"
proof -
  assume u: "1000000 < u" "u < 2000000"
  then have "(u - 1000000) mod 1000000 = u - 1000000" by (intro mod_pos_pos_trivial) simp_all
  then have "u mod 1000000 = u - 1000000" using minus_mod_self2 [of u 1000000] by simp
  then show ?thesis using u by (simp add: signed_modulo_int_def)
qed

lemma micro_due_time:
  assumes "0 \<le> tv_usec now" "tv_usec now < 1000000"
  shows "micro (uloop_due_time now msecs) = micro now + 1000 * msecs"
proof -
  let ?u = "tv_usec now + msecs smod 1000 * 1000"
  have m: "1000 * (msecs sdiv 1000) + msecs smod 1000 = msecs" by (rule mult_sdiv_smod_eq)
  have "\<bar>msecs smod 1000\<bar> < 1000" by (auto simp: signed_modulo_int_def abs_mult sgn_if)
  then have "?u < 2000000" using assms by linarith
  then have "?u smod 1000000 = ?u - 1000000" if "1000000 < ?u" using that smod_carry by blast
  then show ?thesis using m by (auto simp: uloop_due_time_def micro_def Let_def)
qed

section \<open>The lists\<close>

definition uloop_lists :: "('h, 'w) uloop \<Rightarrow> addr list \<Rightarrow> addr list \<Rightarrow> bool" where
  "uloop_lists s ts ps \<longleftrightarrow> ring s (timeouts s) ts \<and> ring s (processes s) ps \<and>
     set (timeouts s # ts) \<inter> set (processes s # ps) = {} \<and>
     (\<forall>x. to_pending s x \<longleftrightarrow> x \<in> set ts) \<and> (\<forall>x. pr_pending s x \<longleftrightarrow> x \<in> set ps)"

text \<open>What the operations on timers leave alone.\<close>

definition timer_frame :: "('h, 'w) uloop \<Rightarrow> ('h, 'w) uloop \<Rightarrow> bool" where
  "timer_frame s s' \<longleftrightarrow> (\<exists>n p d. s' = s\<lparr>l_next := n, l_prev := p, to_pending := d\<rparr>)"

lemma timer_frame_refl: "timer_frame s s"
  unfolding timer_frame_def by (intro exI [of _ "l_next s"] exI [of _ "l_prev s"] exI [of _ "to_pending s"]) simp

lemma timer_frame_fields:
  assumes "timer_frame s s'"
  shows "timeouts s' = timeouts s" "processes s' = processes s" "to_time s' = to_time s" "to_cb s' = to_cb s" "pr_pending s' = pr_pending s"
    "pr_pid s' = pr_pid s" "pr_cb s' = pr_cb s" "u_world s' = u_world s" "uloop_cancelled s' = uloop_cancelled s" "do_sigchld s' = do_sigchld s"
  using assms by (auto simp: timer_frame_def)

lemma ring_other:
  assumes "ring s k ys" "\<forall>x. x \<notin> E \<longrightarrow> l_next s' x = l_next s x \<and> l_prev s' x = l_prev s x" "E \<inter> set (k # ys) = {}"
  shows "ring s' k ys"
proof -
  have "ring s' k ys = ring s k ys" using assms(2,3) by (intro ring_cong) auto
  then show ?thesis using assms(1) by simp
qed

lemma uloop_timeout_pos_at:
  assumes "ring s (timeouts s) (us @ ws)"
  shows "uloop_timeout_pos time (hd (ws @ [timeouts s])) s =
    Some (hd (dropWhile (\<lambda>x. tv_diff (to_time s x) time \<le> 0) ws @ [timeouts s]))"
  using assms
proof (induction ws arbitrary: us)
  case Nil
  then show ?case by (subst uloop_timeout_pos.simps) simp
next
  case (Cons w ws)
  have r: "ring s (timeouts s) ((us @ [w]) @ ws)" using Cons.prems by simp
  have "w \<noteq> 0" "w \<noteq> timeouts s" using r by (auto simp: ring_def)
  then show ?case using Cons.IH [OF r] ring_get_next [OF Cons.prems] by (subst uloop_timeout_pos.simps) (auto simp: not_less)
qed

lemma uloop_timeout_add_lists:
  assumes inv: "uloop_lists s ts ps" and t: "t \<noteq> 0" "t \<notin> set ts" "t \<notin> set (timeouts s # processes s # ps)"
  defines "P \<equiv> \<lambda>x. tv_diff (to_time s x) (to_time s t) \<le> 0"
  shows "\<exists>s'. uloop_timeout_add t s = Some (0, s') \<and> uloop_lists s' (takeWhile P ts @ t # dropWhile P ts) ps \<and> timer_frame s s'"
proof -
  define A B where AB: "A = takeWhile P ts" "B = dropWhile P ts"
  have ts: "ts = A @ B" by (simp add: AB)
  let ?h = "timeouts s" and ?p = "last (timeouts s # A)" and ?n = "hd (B @ [timeouts s])"
  have r: "ring s ?h (A @ B)" and rp: "ring s (processes s) ps" using inv by (simp_all add: uloop_lists_def ts)
  have t': "t \<notin> set (?h # A @ B)" using t(2,3) by (simp add: ts)
  note add = list_add_tail_at [OF r t' t(1)]
  let ?s = "(linked t ?p ?n s)\<lparr>to_pending := (to_pending s)(t := True)\<rparr>"
  have "uloop_timeout_pos (to_time s t) (hd (ts @ [?h])) s = Some ?n"
    using uloop_timeout_pos_at [of s "[]" ts] inv by (simp add: uloop_lists_def P_def AB)
  then have eq: "uloop_timeout_add t s = Some (0, ?s)"
    using t inv ring_get_first [of s ?h ts] add(1)
    by (simp add: uloop_timeout_add_def uloop_lists_def linked_def del: last.simps)
  have "?p \<in> set (?h # ts)" "?n \<in> set (?h # ts)" using ring_ends(2) [of ?h A] ring_ends(1) [of B ?h] by (auto simp: ts simp del: last.simps)
  then have disj: "{t, ?p, ?n} \<inter> set (processes s # ps) = {}" using inv t(3) unfolding uloop_lists_def by auto
  have r1: "ring ?s ?h (A @ t # B)" using add(2) by (rule ring_other [where E = "{}"]) (simp_all del: last.simps)
  have r2: "ring ?s (processes s) ps" by (rule ring_other [OF rp _ disj]) (simp add: linked_def del: last.simps)
  have f: "pr_pending ?s = pr_pending s" "timeouts ?s = ?h" "processes ?s = processes s" "to_pending ?s = (to_pending s)(t := True)"
    by (simp_all add: linked_def del: last.simps)
  have "uloop_lists ?s (A @ t # B) ps" unfolding uloop_lists_def f
    using r1 r2 inv t(3) unfolding uloop_lists_def by (auto simp: ts simp del: last.simps)
  moreover have "timer_frame s ?s" unfolding timer_frame_def linked_def by (intro exI) (simp del: last.simps)
  ultimately show ?thesis using eq unfolding AB by blast
qed

lemma uloop_timeout_cancel_lists:
  assumes inv: "uloop_lists s ts ps" and t: "t \<in> set ts"
  shows "\<exists>s'. uloop_timeout_cancel t s = Some (0, s') \<and> uloop_lists s' (remove1 t ts) ps \<and> timer_frame s s'"
proof -
  let ?h = "timeouts s"
  obtain us ws where ts: "ts = us @ t # ws" using t by (auto dest: split_list)
  have r: "ring s ?h (us @ t # ws)" and rp: "ring s (processes s) ps" using inv by (simp_all add: uloop_lists_def ts)
  have d: "t \<noteq> 0" "t \<notin> set us" "t \<notin> set ws" using r by (auto simp: ring_def)
  note del = list_del_ring [OF r]
  let ?s = "(deleted t (last (?h # us)) (hd (ws @ [?h])) s)\<lparr>to_pending := (to_pending s)(t := False)\<rparr>"
  have eq: "uloop_timeout_cancel t s = Some (0, ?s)" using del(1) d inv t
    by (simp add: uloop_timeout_cancel_def uloop_lists_def deleted_def del: last.simps)
  have rm: "remove1 t ts = us @ ws" using d by (simp add: ts remove1_append)
  have "{t, last (?h # us), hd (ws @ [?h])} \<subseteq> set (?h # ts)" using ring_ends(2) [of ?h us] ring_ends(1) [of ws ?h] by (auto simp: ts simp del: last.simps)
  then have disj: "{t, last (?h # us), hd (ws @ [?h])} \<inter> set (processes s # ps) = {}" using inv unfolding uloop_lists_def by blast
  have r1: "ring ?s ?h (us @ ws)" using del(2) by (rule ring_other [where E = "{}"]) (simp_all del: last.simps)
  have r2: "ring ?s (processes s) ps" by (rule ring_other [OF rp _ disj]) (simp add: deleted_def del: last.simps)
  have f: "pr_pending ?s = pr_pending s" "timeouts ?s = ?h" "processes ?s = processes s" "to_pending ?s = (to_pending s)(t := False)"
    by (simp_all add: deleted_def del: last.simps)
  have "uloop_lists ?s (us @ ws) ps" unfolding uloop_lists_def f using r1 r2 inv d unfolding uloop_lists_def by (auto simp: ts simp del: last.simps)
  moreover have "timer_frame s ?s" unfolding timer_frame_def deleted_def by (intro exI) (simp del: last.simps)
  ultimately show ?thesis using eq rm by auto
qed

section \<open>The order of the timers\<close>

text \<open>The invariant, for times that lie within \<open>tv_span\<close> from \<open>lo\<close> on.\<close>

definition timers :: "int \<Rightarrow> ('h, 'w) uloop \<Rightarrow> addr list \<Rightarrow> addr list \<Rightarrow> bool" where
  "timers lo s ts ps \<longleftrightarrow> uloop_lists s ts ps \<and>
     sorted_wrt (\<lambda>a b. micro (to_time s a) < micro (to_time s b) + 1000) ts \<and>
     (\<forall>x \<in> set ts. lo \<le> micro (to_time s x) \<and> micro (to_time s x) < lo + tv_span)"

lemma tv_diff_le: "\<bar>micro a - micro b\<bar> < tv_span \<Longrightarrow> tv_diff a b \<le> 0 \<Longrightarrow> micro a < micro b + 1000"
  using tv_diff_micro(2) [of a b] by linarith

lemma tv_diff_gt: "\<bar>micro a - micro b\<bar> < tv_span \<Longrightarrow> 0 < tv_diff a b \<Longrightarrow> micro b < micro a"
  using tv_diff_micro(1) [of a b] by linarith

lemma tv_diff_later: "\<bar>micro a - micro b\<bar> < tv_span \<Longrightarrow> micro b + 1000 \<le> micro a \<Longrightarrow> 0 < tv_diff a b"
  using tv_diff_micro(2) [of a b] by linarith

lemma near_insert:
  fixes f :: "'a \<Rightarrow> int"
  assumes "sorted_wrt (\<lambda>a b. f a < f b + 1000) (A @ B)" "\<forall>a \<in> set A. f a < f t + 1000" "B \<noteq> [] \<Longrightarrow> f t < f (hd B)"
  shows "sorted_wrt (\<lambda>a b. f a < f b + 1000) (A @ t # B)"
proof -
  have "f t < f b + 1000" if "b \<in> set B" for b
  proof (cases B)
    case (Cons b0 B')
    then have "f b0 < f b + 1000" using assms(1) that by (auto simp: sorted_wrt_append)
    then show ?thesis using assms(3) Cons by simp
  qed (use that in simp)
  then show ?thesis using assms(1,2) by (auto simp: sorted_wrt_append)
qed

lemma uloop_timeout_add_timers:
  assumes inv: "timers lo s ts ps" and t: "t \<noteq> 0" "t \<notin> set ts" "t \<notin> set (timeouts s # processes s # ps)"
    and time: "lo \<le> micro (to_time s t)" "micro (to_time s t) < lo + tv_span"
  shows "\<exists>s' ts'. uloop_timeout_add t s = Some (0, s') \<and> timers lo s' ts' ps \<and> set ts' = insert t (set ts) \<and> timer_frame s s'"
proof -
  let ?P = "\<lambda>x. tv_diff (to_time s x) (to_time s t) \<le> 0" and ?f = "\<lambda>x. micro (to_time s x)"
  have w: "\<bar>?f x - ?f t\<bar> < tv_span" if "x \<in> set ts" for x using that inv time by (fastforce simp: timers_def)
  obtain s' where s': "uloop_timeout_add t s = Some (0, s')" "uloop_lists s' (takeWhile ?P ts @ t # dropWhile ?P ts) ps" "timer_frame s s'"
    using uloop_timeout_add_lists [of s ts ps t] inv t by (auto simp: timers_def)
  have A: "\<forall>a \<in> set (takeWhile ?P ts). ?f a < ?f t + 1000"
  proof
    fix a assume "a \<in> set (takeWhile ?P ts)"
    then show "?f a < ?f t + 1000" using set_takeWhileD [of a ?P ts] w tv_diff_le by blast
  qed
  have B: "?f t < ?f (hd (dropWhile ?P ts))" if ne: "dropWhile ?P ts \<noteq> []"
  proof -
    have "hd (dropWhile ?P ts) \<in> set ts" using ne by (meson hd_in_set set_dropWhileD)
    then show ?thesis using hd_dropWhile [OF ne] w tv_diff_gt by force
  qed
  have "sorted_wrt (\<lambda>a b. ?f a < ?f b + 1000) (takeWhile ?P ts @ dropWhile ?P ts)" using inv by (simp add: timers_def)
  from near_insert [OF this A B] have sorted: "sorted_wrt (\<lambda>a b. ?f a < ?f b + 1000) (takeWhile ?P ts @ t # dropWhile ?P ts)" .
  have set: "set (takeWhile ?P ts @ t # dropWhile ?P ts) = insert t (set ts)"
    by (metis (no_types) Un_insert_right list.simps(15) set_append takeWhile_dropWhile_id)
  have "timers lo s' (takeWhile ?P ts @ t # dropWhile ?P ts) ps"
    unfolding timers_def set timer_frame_fields(3) [OF s'(3)] using s'(2) sorted inv time by (simp add: timers_def)
  then show ?thesis using s'(1,3) set by blast
qed

lemma uloop_timeout_cancel_timers:
  assumes inv: "timers lo s ts ps" and t: "t \<in> set ts"
  shows "\<exists>s'. uloop_timeout_cancel t s = Some (0, s') \<and> timers lo s' (remove1 t ts) ps \<and> timer_frame s s'"
proof -
  obtain s' where s': "uloop_timeout_cancel t s = Some (0, s')" "uloop_lists s' (remove1 t ts) ps" "timer_frame s s'"
    using uloop_timeout_cancel_lists [of s ts ps t] inv t by (auto simp: timers_def)
  obtain us ws where ts: "ts = us @ t # ws" "t \<notin> set us" using split_list_first [OF t] by blast
  then have "remove1 t ts = us @ ws" by (simp add: remove1_append)
  then have "timers lo s' (remove1 t ts) ps" using s' inv unfolding timers_def timer_frame_fields(3) [OF s'(3)] by (auto simp: ts sorted_wrt_append)
  then show ?thesis using s'(1,3) by blast
qed

text \<open>A timer that is not pending can be given another time.\<close>

lemma timers_set_time:
  assumes "timers lo s ts ps" "t \<notin> set ts"
  shows "timers lo (s\<lparr>u_world := w, to_time := (to_time s)(t := v)\<rparr>) ts ps"
proof -
  let ?s = "s\<lparr>u_world := w, to_time := (to_time s)(t := v)\<rparr>"
  have "ring ?s h xs = ring s h xs" for h xs by (rule ring_cong) auto
  then have "uloop_lists ?s ts ps" using assms(1) by (simp add: timers_def uloop_lists_def)
  moreover have "to_time ?s x = to_time s x" if "x \<in> set ts" for x using that assms(2) by auto
  moreover have "sorted_wrt (\<lambda>a b. micro (to_time s a) < micro (to_time s b) + 1000) ts" using assms(1) by (simp add: timers_def)
  then have "sorted_wrt (\<lambda>a b. micro (to_time ?s a) < micro (to_time ?s b) + 1000) ts" by (rule sorted_wrt_mono_rel [rotated]) (use assms(2) in auto)
  ultimately show ?thesis using assms unfolding timers_def by simp
qed

text \<open>A timer object may be armed: it is no list head and not the node of a process.\<close>

definition timer_obj :: "addr \<Rightarrow> ('h, 'w) uloop \<Rightarrow> bool" where
  "timer_obj t s \<longleftrightarrow> t \<noteq> 0 \<and> t \<noteq> timeouts s \<and> t \<noteq> processes s \<and> \<not> pr_pending s t"

lemma timer_obj_fresh: "timers lo s ts ps \<Longrightarrow> timer_obj t s \<Longrightarrow> t \<noteq> 0 \<and> t \<notin> set (timeouts s # processes s # ps)"
  by (auto simp: timers_def uloop_lists_def timer_obj_def)

lemma uloop_timeout_set_timers:
  assumes inv: "timers lo s ts ps" and t: "timer_obj t s"
    and clock: "clock (u_world s) = ((sec, nsec), w)" "0 \<le> nsec" "nsec < 1000000000"
    and due: "lo \<le> sec * 1000000 + nsec div 1000 + 1000 * msecs" "sec * 1000000 + nsec div 1000 + 1000 * msecs < lo + tv_span"
  shows "\<exists>s' ts'. uloop_timeout_set clock t msecs s = Some (0, s') \<and> timers lo s' ts' ps \<and> set ts' = insert t (set ts) \<and>
    micro (to_time s' t) = sec * 1000000 + nsec div 1000 + 1000 * msecs \<and> (\<forall>x. x \<noteq> t \<longrightarrow> to_time s' x = to_time s x) \<and>
    timeouts s' = timeouts s \<and> processes s' = processes s \<and> to_cb s' = to_cb s \<and> pr_pending s' = pr_pending s \<and> u_world s' = w"
proof -
  define now where "now = \<lparr>tv_sec = sec, tv_usec = nsec sdiv 1000\<rparr>"
  have q: "nsec sdiv 1000 = nsec div 1000" using clock(2) by (simp add: signed_divide_int_def sgn_if)
  have "0 \<le> nsec div 1000" "nsec div 1000 < 1000000" using clock(2,3) by simp_all
  then have m: "micro (uloop_due_time now msecs) = sec * 1000000 + nsec div 1000 + 1000 * msecs"
    using micro_due_time [of now msecs] by (simp add: now_def q micro_def)
  note fr = timer_obj_fresh [OF inv t]
  obtain s1 ts1 where s1: "(if to_pending s t then do { (_, s) \<leftarrow> uloop_timeout_cancel t s; Some s } else Some s) = Some s1"
    "timers lo s1 ts1 ps" "timer_frame s s1" "t \<notin> set ts1" "insert t (set ts1) = insert t (set ts)"
  proof (cases "t \<in> set ts")
    case True
    obtain s1 where s1: "uloop_timeout_cancel t s = Some (0, s1)" "timers lo s1 (remove1 t ts) ps" "timer_frame s s1"
      using uloop_timeout_cancel_timers [OF inv True] by blast
    have "distinct ts" "to_pending s t" using inv True by (auto simp: timers_def uloop_lists_def ring_def)
    then show thesis using s1 True by (intro that [OF _ s1(2,3)]) auto
  next
    case False
    have "\<not> to_pending s t" using inv False by (simp add: timers_def uloop_lists_def)
    then show thesis using False inv timer_frame_refl by (intro that [of s ts]) simp_all
  qed
  note f = timer_frame_fields [OF s1(3)]
  let ?s = "s1\<lparr>u_world := w, to_time := (to_time s1)(t := uloop_due_time now msecs)\<rparr>"
  have un: "uloop_timeout_set clock t msecs s = uloop_timeout_add t ?s"
    using fr s1(1) clock(1) f(8) by (simp add: uloop_timeout_set_def uloop_gettime_def now_def)
  have "timers lo ?s ts1 ps" using timers_set_time [OF s1(2,4)] .
  from uloop_timeout_add_timers [OF this, of t] fr s1(4) due m obtain s' ts' where
    s': "uloop_timeout_add t ?s = Some (0, s')" "timers lo s' ts' ps" "set ts' = insert t (set ts1)" "timer_frame ?s s'"
    by (auto simp: f)
  note g = timer_frame_fields [OF s'(4)]
  show ?thesis using un s'(1-3) s1(5) m g f by (intro exI [of _ s'] exI [of _ ts']) simp
qed

text \<open>The time to sleep: until the first timer is due, with the rounding to milliseconds.\<close>

lemma uloop_get_next_timeout_timers:
  assumes inv: "timers lo s ts ps" and tv: "lo \<le> micro tv" "micro tv < lo + tv_span"
  shows "\<exists>r. uloop_get_next_timeout tv s = Some r \<and> (ts = [] \<longrightarrow> r = - 1) \<and>
    (ts \<noteq> [] \<longrightarrow> 0 \<le> r \<and> (r = 0 \<or> (\<forall>x \<in> set ts. micro tv + 1000 * r < micro (to_time s x) + 2000)) \<and>
      micro (to_time s (hd ts)) < micro tv + 1000 * r + 1000)"
proof -
  have r: "ring s (timeouts s) ts" using inv by (simp add: timers_def uloop_lists_def)
  note first = ring_get_first [OF r]
  show ?thesis
  proof (cases ts)
    case Nil
    then show ?thesis using first by (simp add: uloop_get_next_timeout_def list_empty_def)
  next
    case (Cons t ts')
    have ne: "t \<noteq> timeouts s" using r Cons by (auto simp: ring_def)
    let ?d = "tv_diff (to_time s t) tv"
    have w: "\<bar>micro (to_time s t) - micro tv\<bar> < tv_span" using inv tv Cons by (fastforce simp: timers_def)
    have near: "micro (to_time s t) < micro (to_time s x) + 1000" if "x \<in> set ts" for x using inv that Cons by (auto simp: timers_def)
    have "uloop_get_next_timeout tv s = Some (if ?d < 0 then 0 else ?d)" using first ne Cons by (simp add: uloop_get_next_timeout_def list_empty_def Let_def)
    moreover have "micro tv + 1000 * ?d < micro (to_time s x) + 2000" if "x \<in> set ts" for x using near [OF that] tv_diff_micro(1) [OF w] by linarith
    moreover have "micro (to_time s t) < micro tv + 1000 * (if ?d < 0 then 0 else ?d) + 1000" using tv_diff_micro(2) [OF w] by auto
    ultimately show ?thesis using Cons by auto
  qed
qed

section \<open>Running the timers that are due\<close>

text \<open>The contract of the callbacks: called on a timer that is due and no longer pending, a callback returns, keeps the
  invariant, and arms no timer that is already due at the time \<open>tv\<close> for which the loop runs.  \<open>ok\<close> is what the callbacks
  need of the state besides.\<close>

locale timeout_handler =
  fixes call :: "'h \<Rightarrow> addr \<Rightarrow> ('h, 'w) uloop \<Rightarrow> ('h, 'w) uloop option" and lo :: int and tv :: timeval
    and ok :: "('h, 'w) uloop \<Rightarrow> bool"
  assumes tv_window: "lo \<le> micro tv" "micro tv < lo + tv_span"
    and ok_frame: "ok s \<Longrightarrow> timer_frame s s' \<Longrightarrow> ok s'"
    and call_timer: "timers lo s ts ps \<Longrightarrow> ok s \<Longrightarrow> t \<notin> set ts \<Longrightarrow> timer_obj t s \<Longrightarrow> to_cb s t = Some h \<Longrightarrow> tv_diff (to_time s t) tv \<le> 0 \<Longrightarrow>
      \<exists>s' ts' ps'. call h t s = Some s' \<and> timers lo s' ts' ps' \<and> ok s' \<and>
        (\<forall>x \<in> set ts'. tv_diff (to_time s' x) tv \<le> 0 \<longrightarrow> x \<in> set ts \<and> tv_diff (to_time s x) tv \<le> 0)"
begin

lemma uloop_process_timeouts_timers:
  assumes "timers lo s ts ps" "ok s"
  shows "\<exists>s' ts' ps'. uloop_process_timeouts call tv s = Some s' \<and> timers lo s' ts' ps' \<and> ok s' \<and>
    (ts' \<noteq> [] \<longrightarrow> 0 < tv_diff (to_time s' (hd ts')) tv)"
  using assms
proof (induction "card {x \<in> set ts. tv_diff (to_time s x) tv \<le> 0}" arbitrary: s ts ps rule: less_induct)
  case less
  let ?due = "\<lambda>s ts. {x \<in> set ts. tv_diff (to_time s x) tv \<le> 0}"
  have lists: "uloop_lists s ts ps" and r: "ring s (timeouts s) ts" using less.prems(1) by (auto simp: timers_def uloop_lists_def)
  note first = ring_get_first [OF r]
  show ?case
  proof (cases "ts = [] \<or> 0 < tv_diff (to_time s (hd ts)) tv")
    case True
    moreover have "hd ts \<noteq> timeouts s" if "ts \<noteq> []" using r that by (cases ts) (auto simp: ring_def)
    ultimately have "uloop_process_timeouts call tv s = Some s"
      using first by (subst uloop_process_timeouts.simps) (cases "ts = []", auto simp: list_empty_def)
    then show ?thesis using less.prems True by blast
  next
    case False
    then obtain t ts1 where ts: "ts = t # ts1" and due: "tv_diff (to_time s t) tv \<le> 0" by (cases ts) auto
    have t: "t \<noteq> timeouts s" "t \<noteq> 0" "t \<notin> set ts1" using r by (auto simp: ts ring_def)
    have obj: "timer_obj t s" using lists t by (auto simp: timer_obj_def uloop_lists_def ts)
    obtain s1 where s1: "uloop_timeout_cancel t s = Some (0, s1)" "timers lo s1 ts1 ps" "timer_frame s s1"
      using uloop_timeout_cancel_timers [OF less.prems(1), of t] by (auto simp: ts)
    note f = timer_frame_fields [OF s1(3)]
    have ok1: "ok s1" using ok_frame [OF less.prems(2) s1(3)] .
    have obj1: "timer_obj t s1" using obj by (simp add: timer_obj_def f)
    obtain s2 ts2 ps2 where s2: "(case to_cb s1 t of None \<Rightarrow> Some s1 | Some h \<Rightarrow> call h t s1) = Some s2" "timers lo s2 ts2 ps2" "ok s2"
      "\<forall>x \<in> set ts2. tv_diff (to_time s2 x) tv \<le> 0 \<longrightarrow> x \<in> set ts1 \<and> tv_diff (to_time s1 x) tv \<le> 0"
    proof (cases "to_cb s1 t")
      case None
      then show thesis using s1(2) ok1 by (intro that [of s1 ts1 ps]) simp_all
    next
      case (Some h)
      have due1: "tv_diff (to_time s1 t) tv \<le> 0" using due by (simp add: f)
      from call_timer [OF s1(2) ok1 t(3) obj1 Some due1] show thesis using that Some by auto
    qed
    have "?due s2 ts2 \<subset> ?due s ts" using s2(4) due t(3) by (auto simp: ts f)
    then have "card (?due s2 ts2) < card (?due s ts)" by (intro psubset_card_mono) auto
    from less.hyps [OF this s2(2,3)] obtain s' ts' ps' where
      s': "uloop_process_timeouts call tv s2 = Some s'" "timers lo s' ts' ps'" "ok s'" "ts' \<noteq> [] \<longrightarrow> 0 < tv_diff (to_time s' (hd ts')) tv" by blast
    have "uloop_process_timeouts call tv s = Some s'"
      using first t due s1(1) s2(1) s'(1) by (subst uloop_process_timeouts.simps) (simp add: ts list_empty_def)
    then show ?thesis using s'(2-4) by blast
  qed
qed

text \<open>No pending timer is overdue by a millisecond after the loop.\<close>

lemma timers_not_overdue:
  assumes "timers lo s ts ps" "ts \<noteq> [] \<longrightarrow> 0 < tv_diff (to_time s (hd ts)) tv" "x \<in> set ts"
  shows "micro tv < micro (to_time s x) + 1000"
proof -
  obtain t ts1 where ts: "ts = t # ts1" using assms(3) by (cases ts) auto
  have "\<bar>micro (to_time s t) - micro tv\<bar> < tv_span" using assms(1) tv_window by (fastforce simp: timers_def ts)
  then have "micro tv < micro (to_time s t)" using assms(2) tv_diff_gt by (simp add: ts)
  moreover have "micro (to_time s t) < micro (to_time s x) + 1000" using assms(1,3) by (auto simp: timers_def ts)
  ultimately show ?thesis by linarith
qed

end

text \<open>Callbacks that are sequences of calls to the module: they arm and cancel timers.  Their clock reads a queue of
  times, and a fixed time behind the end of the queue.\<close>

datatype timer_action = Arm addr int | Disarm addr

type_synonym times = "(int \<times> int) \<times> (int \<times> int) list"

fun queue_clock :: "times \<Rightarrow> (int \<times> int) \<times> times" where
  "queue_clock (c, []) = (c, (c, []))"
| "queue_clock (c, r # rs) = (r, (c, rs))"

fun run_actions :: "timer_action list \<Rightarrow> addr \<Rightarrow> (timer_action list, times) uloop \<Rightarrow> (timer_action list, times) uloop option" where
  "run_actions [] t s = Some s"
| "run_actions (Arm x msecs # as) t s = do { (_, s) \<leftarrow> uloop_timeout_set queue_clock x msecs s; run_actions as t s }"
| "run_actions (Disarm x # as) t s = do { (_, s) \<leftarrow> uloop_timeout_cancel x s; run_actions as t s }"

text \<open>The clock is not behind \<open>tv\<close>, and what is armed is armed for 1 to \<open>m\<close> milliseconds, within the span of the times.\<close>

definition time_ok :: "int \<Rightarrow> timeval \<Rightarrow> int \<Rightarrow> int \<times> int \<Rightarrow> bool" where
  "time_ok lo tv m = (\<lambda>(sec, nsec). 0 \<le> nsec \<and> nsec < 1000000000 \<and> micro tv \<le> sec * 1000000 + nsec div 1000 \<and>
     sec * 1000000 + nsec div 1000 + 1000 * m < lo + tv_span)"

fun action_ok :: "int \<Rightarrow> (timer_action list, times) uloop \<Rightarrow> timer_action \<Rightarrow> bool" where
  "action_ok m s (Arm x msecs) = (timer_obj x s \<and> 1 \<le> msecs \<and> msecs \<le> m)"
| "action_ok m s (Disarm x) = timer_obj x s"

definition actions_ok :: "int \<Rightarrow> timeval \<Rightarrow> int \<Rightarrow> (timer_action list, times) uloop \<Rightarrow> bool" where
  "actions_ok lo tv m s \<longleftrightarrow> (\<forall>r \<in> set (fst (u_world s) # snd (u_world s)). time_ok lo tv m r) \<and>
     (\<forall>t as. to_cb s t = Some as \<longrightarrow> (\<forall>a \<in> set as. action_ok m s a))"

locale timer_actions =
  fixes lo :: int and tv :: timeval and m :: int
  assumes window: "lo \<le> micro tv" "micro tv < lo + tv_span"
begin

lemma clock_ok:
  assumes "\<forall>r \<in> set (fst w # snd w). time_ok lo tv m r"
  obtains sec nsec w' where "queue_clock w = ((sec, nsec), w')" "time_ok lo tv m (sec, nsec)" "\<forall>r \<in> set (fst w' # snd w'). time_ok lo tv m r"
  using assms by (cases w rule: queue_clock.cases) auto

lemma action_ok_cong:
  assumes "timeouts s' = timeouts s" "processes s' = processes s" "pr_pending s' = pr_pending s"
  shows "action_ok m s' a = action_ok m s a"
  using assms by (cases a) (simp_all add: timer_obj_def)

lemma actions_ok_keep:
  assumes "actions_ok lo tv m s" "timeouts s' = timeouts s" "processes s' = processes s" "to_cb s' = to_cb s" "pr_pending s' = pr_pending s"
    and "\<forall>r \<in> set (fst (u_world s') # snd (u_world s')). time_ok lo tv m r"
  shows "actions_ok lo tv m s'"
proof -
  have "action_ok m s' a = action_ok m s a" for a using assms by (intro action_ok_cong)
  then show ?thesis using assms(1,4,6) unfolding actions_ok_def by simp
qed

lemma run_actions_timers:
  assumes "timers lo s ts ps" "actions_ok lo tv m s" "\<forall>a \<in> set as. action_ok m s a"
  shows "\<exists>s' ts'. run_actions as t s = Some s' \<and> timers lo s' ts' ps \<and> actions_ok lo tv m s' \<and>
    (\<forall>x \<in> set ts'. tv_diff (to_time s' x) tv \<le> 0 \<longrightarrow> x \<in> set ts \<and> tv_diff (to_time s x) tv \<le> 0)"
  using assms
proof (induction as arbitrary: s ts)
  case Nil
  then show ?case by auto
next
  case (Cons a as)
  note keep = actions_ok_keep [OF Cons.prems(2)]
  have step: ?case if s1: "timers lo s1 ts1 ps" "actions_ok lo tv m s1" "timeouts s1 = timeouts s" "processes s1 = processes s" "pr_pending s1 = pr_pending s"
    "\<forall>x \<in> set ts1. tv_diff (to_time s1 x) tv \<le> 0 \<longrightarrow> x \<in> set ts \<and> tv_diff (to_time s x) tv \<le> 0" "run_actions (a # as) t s = run_actions as t s1" for s1 ts1
  proof -
    have "\<forall>b \<in> set as. action_ok m s1 b" using Cons.prems(3) action_ok_cong [OF s1(3-5)] by simp
    from Cons.IH [OF s1(1,2) this] show ?thesis unfolding s1(7) using s1(6) by blast
  qed
  show ?case
  proof (cases a)
    case (Arm x msecs)
    then have x: "timer_obj x s" "1 \<le> msecs" "msecs \<le> m" using Cons.prems(3) by auto
    obtain sec nsec w' where c: "queue_clock (u_world s) = ((sec, nsec), w')" "time_ok lo tv m (sec, nsec)"
      "\<forall>r \<in> set (fst w' # snd w'). time_ok lo tv m r" by (rule clock_ok [OF Cons.prems(2) [unfolded actions_ok_def, THEN conjunct1]])
    let ?now = "sec * 1000000 + nsec div 1000"
    have now: "0 \<le> nsec" "nsec < 1000000000" "micro tv \<le> ?now" "?now + 1000 * m < lo + tv_span" using c(2) by (simp_all add: time_ok_def)
    have "lo \<le> ?now + 1000 * msecs" "?now + 1000 * msecs < lo + tv_span" using window now x by linarith+
    from uloop_timeout_set_timers [where clock = queue_clock, OF Cons.prems(1) x(1) c(1) now(1,2) this] obtain s1 ts1 where
      s1: "uloop_timeout_set queue_clock x msecs s = Some (0, s1)" "timers lo s1 ts1 ps" "set ts1 = insert x (set ts)"
      "micro (to_time s1 x) = ?now + 1000 * msecs" "\<forall>y. y \<noteq> x \<longrightarrow> to_time s1 y = to_time s y" "timeouts s1 = timeouts s" "processes s1 = processes s"
      "to_cb s1 = to_cb s" "pr_pending s1 = pr_pending s" "u_world s1 = w'" by blast
    have "\<bar>micro (to_time s1 x) - micro tv\<bar> < tv_span" "micro tv + 1000 \<le> micro (to_time s1 x)" using s1(4) now x window by linarith+
    then have "0 < tv_diff (to_time s1 x) tv" by (rule tv_diff_later)
    then have d: "\<forall>y \<in> set ts1. tv_diff (to_time s1 y) tv \<le> 0 \<longrightarrow> y \<in> set ts \<and> tv_diff (to_time s y) tv \<le> 0" using s1(3,5) by (metis insert_iff not_le)
    show ?thesis using step [OF s1(2) keep [OF s1(6-9)] s1(6,7,9) d] c(3) s1(1,10) by (simp add: Arm)
  next
    case (Disarm x)
    then have x: "x \<noteq> 0" using Cons.prems(3) by (auto simp: timer_obj_def)
    show ?thesis
    proof (cases "x \<in> set ts")
      case True
      obtain s1 where s1: "uloop_timeout_cancel x s = Some (0, s1)" "timers lo s1 (remove1 x ts) ps" "timer_frame s s1"
        using uloop_timeout_cancel_timers [OF Cons.prems(1) True] by blast
      note f = timer_frame_fields [OF s1(3)]
      have d: "\<forall>y \<in> set (remove1 x ts). tv_diff (to_time s1 y) tv \<le> 0 \<longrightarrow> y \<in> set ts \<and> tv_diff (to_time s y) tv \<le> 0"
        using set_remove1_subset [of x ts] by (auto simp: f(3))
      have w: "\<forall>r \<in> set (fst (u_world s1) # snd (u_world s1)). time_ok lo tv m r" using Cons.prems(2) unfolding f(8) actions_ok_def by blast
      show ?thesis using step [OF s1(2) keep [OF f(1,2,4,5) w] f(1,2,5) d] s1(1) by (simp add: Disarm)
    next
      case False
      then have "uloop_timeout_cancel x s = Some (- 1, s)" using Cons.prems(1) x by (simp add: uloop_timeout_cancel_def timers_def uloop_lists_def)
      then show ?thesis using step [OF Cons.prems(1,2)] by (simp add: Disarm)
    qed
  qed
qed

end

sublocale timer_actions \<subseteq> timeout_handler run_actions lo tv "actions_ok lo tv m"
proof
  show "lo \<le> micro tv" "micro tv < lo + tv_span" by (rule window)+
  show "actions_ok lo tv m s'" if "actions_ok lo tv m s" "timer_frame s s'" for s s'
    using actions_ok_keep [OF that(1)] timer_frame_fields [OF that(2)] that(1) by (simp add: actions_ok_def)
  show "\<exists>s' ts' ps'. run_actions h t s = Some s' \<and> timers lo s' ts' ps' \<and> actions_ok lo tv m s' \<and>
      (\<forall>x \<in> set ts'. tv_diff (to_time s' x) tv \<le> 0 \<longrightarrow> x \<in> set ts \<and> tv_diff (to_time s x) tv \<le> 0)"
    if "timers lo s ts ps" "actions_ok lo tv m s" "to_cb s t = Some h" for s ts ps t h
  proof -
    have "\<forall>a \<in> set h. action_ok m s a" using that(2,3) unfolding actions_ok_def by blast
    from run_actions_timers [OF that(1,2) this] show ?thesis by blast
  qed
qed

section \<open>The properties of the timers\<close>

text \<open>C25: arming a timer.  \<open>uloop_timeout_set\<close> on a timer, pending or not, sets it to exactly \<open>msecs\<close> milliseconds after the
  reading of the clock and enters it into the list once.  The invariant is kept: the list is well linked, holds exactly the pending
  timers and is sorted up to one millisecond, as long as all times lie within 24 days of each other.\<close>

theorem uloop_timeout_set_correct:
  assumes "timers lo s ts ps" "timer_obj t s"
    and "clock (u_world s) = ((sec, nsec), w)" "0 \<le> nsec" "nsec < 1000000000"
    and "lo \<le> sec * 1000000 + nsec div 1000 + 1000 * msecs" "sec * 1000000 + nsec div 1000 + 1000 * msecs < lo + tv_span"
  shows "\<exists>s' ts'. uloop_timeout_set clock t msecs s = Some (0, s') \<and> timers lo s' ts' ps \<and> set ts' = insert t (set ts) \<and>
    micro (to_time s' t) = sec * 1000000 + nsec div 1000 + 1000 * msecs \<and> (\<forall>x. x \<noteq> t \<longrightarrow> to_time s' x = to_time s x)"
  using uloop_timeout_set_timers [where clock = clock, OF assms] by blast

text \<open>A loop without timers, with the heads of its lists at 1 and 2, whose clock reads 5 s and then 5.8 s; the timer at 3 arms
  itself again.\<close>

definition uloop_sample :: "(timer_action list, times) uloop" where
  "uloop_sample = \<lparr>l_next = (\<lambda>p. p), l_prev = (\<lambda>p. p), timeouts = 1, to_pending = (\<lambda>_. False),
     to_cb = (\<lambda>t. if t = 3 then Some [Arm 3 100, Disarm 4] else None), to_time = (\<lambda>_. \<lparr>tv_sec = 0, tv_usec = 0\<rparr>),
     processes = 2, pr_pending = (\<lambda>_. False), pr_cb = (\<lambda>_. []), pr_pid = (\<lambda>_. 0), fd_cb = (\<lambda>_. None), fd_fd = (\<lambda>_. 0), fd_eof = (\<lambda>_. False),
     fd_error = (\<lambda>_. False), fd_registered = (\<lambda>_. False), fd_flags = (\<lambda>_. 0), fd_stack = [], poll_fd = - 1, uloop_cancelled = False,
     uloop_handle_sigchld = True, do_sigchld = False, cur_fds = replicate ULOOP_MAX_EVENTS (0, 0), cur_fd = 0, cur_nfds = 0,
     recursive_calls = 0, u_world = ((5, 800000000), [(5, 0)])\<rparr>"

lemma uloop_sample_timers: "timers 0 uloop_sample [] []"
  by (simp add: timers_def uloop_lists_def uloop_sample_def ring_def)

theorem uloop_timeout_set_correct_witness:
  "\<exists>s' ts'. uloop_timeout_set queue_clock 3 250 uloop_sample = Some (0, s') \<and> timers 0 s' ts' [] \<and> set ts' = {3} \<and> micro (to_time s' 3) = 5250000"
proof -
  have "timer_obj 3 uloop_sample" by (simp add: timer_obj_def uloop_sample_def)
  moreover have "queue_clock (u_world uloop_sample) = ((5, 0), ((5, 800000000), []))" by (simp add: uloop_sample_def)
  ultimately show ?thesis using uloop_timeout_set_correct [OF uloop_sample_timers, of 3 queue_clock 5 0 _ 250] by auto
qed

text \<open>C26: running timers.  When the callbacks keep their contract, \<open>uloop_process_timeouts\<close> terminates, calls only timers that are
  due up to the rounding to milliseconds, keeps the invariant, and leaves no timer pending that is overdue by a millisecond or
  more.\<close>

theorem uloop_process_timeouts_correct:
  assumes "timeout_handler call lo tv ok" "timers lo s ts ps" "ok s"
  shows "\<exists>s' ts' ps'. uloop_process_timeouts call tv s = Some s' \<and> timers lo s' ts' ps' \<and> ok s' \<and>
    (\<forall>x \<in> set ts'. micro tv < micro (to_time s' x) + 1000)"
proof -
  obtain s' ts' ps' where s': "uloop_process_timeouts call tv s = Some s'" "timers lo s' ts' ps'" "ok s'" "ts' \<noteq> [] \<longrightarrow> 0 < tv_diff (to_time s' (hd ts')) tv"
    using timeout_handler.uloop_process_timeouts_timers [OF assms] by blast
  then show ?thesis using timeout_handler.timers_not_overdue [OF assms(1) s'(2,4)] by blast
qed

text \<open>At 5.7 s a timer armed for 5.25 s runs, arms itself for 5.9 s and is pending again.\<close>

abbreviation tv_sample :: timeval where
  "tv_sample \<equiv> \<lparr>tv_sec = 5, tv_usec = 700000\<rparr>"

interpretation rearm: timer_actions 0 tv_sample 1000
  by unfold_locales (simp_all add: micro_def)

theorem uloop_process_timeouts_correct_witness:
  "\<exists>s s'. uloop_timeout_set queue_clock 3 250 uloop_sample = Some (0, s) \<and> micro (to_time s 3) = 5250000 \<and> to_pending s 3 \<and>
     uloop_process_timeouts run_actions tv_sample s = Some s' \<and> (to_pending s' 3 \<longrightarrow> 5699000 < micro (to_time s' 3))"
proof -
  have obj: "timer_obj 3 uloop_sample" by (simp add: timer_obj_def uloop_sample_def)
  have clock: "queue_clock (u_world uloop_sample) = ((5, 0), ((5, 800000000), []))" by (simp add: uloop_sample_def)
  obtain s ts where s: "uloop_timeout_set queue_clock 3 250 uloop_sample = Some (0, s)" "timers 0 s ts []" "set ts = {3}" "micro (to_time s 3) = 5250000"
    "timeouts s = 1" "processes s = 2" "to_cb s = to_cb uloop_sample" "pr_pending s = (\<lambda>_. False)" "u_world s = ((5, 800000000), [])"
    using uloop_timeout_set_timers [where clock = queue_clock and msecs = 250, OF uloop_sample_timers obj clock] by (auto simp: uloop_sample_def)
  have "action_ok 1000 s a" if "to_cb s t = Some as" "a \<in> set as" for t as a
    using that by (auto simp: s(5-8) uloop_sample_def timer_obj_def split: if_splits)
  then have ok: "actions_ok 0 tv_sample 1000 s" by (auto simp: actions_ok_def s(9) time_ok_def micro_def)
  obtain s' ts' ps' where s': "uloop_process_timeouts run_actions tv_sample s = Some s'" "timers 0 s' ts' ps'"
    "\<forall>x \<in> set ts'. micro tv_sample < micro (to_time s' x) + 1000"
    using uloop_process_timeouts_correct [OF rearm.timeout_handler_axioms s(2) ok] by blast
  have "3 \<in> set ts" "to_pending s 3" using s(2,3) by (auto simp: timers_def uloop_lists_def)
  moreover have "to_pending s' 3 \<longrightarrow> 5699000 < micro (to_time s' 3)" using s'(2,3) by (auto simp: timers_def uloop_lists_def micro_def)
  ultimately show ?thesis using s(1,4) s'(1) by blast
qed

text \<open>Waiting.  The time that \<open>uloop_run\<close> gives to \<open>epoll_wait\<close> is -1, without limit, exactly when no timer is pending;
  otherwise it is 0 or ends less than two milliseconds after the earliest timer is due, and not a millisecond before the first timer
  of the list is due.\<close>

theorem uloop_get_next_timeout_correct:
  assumes "timers lo s ts ps" "lo \<le> micro tv" "micro tv < lo + tv_span"
  shows "\<exists>r. uloop_get_next_timeout tv s = Some r \<and> (r = - 1 \<longleftrightarrow> ts = []) \<and>
    (ts \<noteq> [] \<longrightarrow> 0 \<le> r \<and> (r = 0 \<or> (\<forall>x \<in> set ts. micro tv + 1000 * r < micro (to_time s x) + 2000)) \<and>
      micro (to_time s (hd ts)) < micro tv + 1000 * r + 1000)"
  using uloop_get_next_timeout_timers [OF assms] by force

theorem uloop_get_next_timeout_correct_witness:
  "\<exists>s r. uloop_timeout_set queue_clock 3 250 uloop_sample = Some (0, s) \<and> uloop_get_next_timeout \<lparr>tv_sec = 5, tv_usec = 100000\<rparr> s = Some r \<and> 150 \<le> r \<and> r \<le> 151"
proof -
  have obj: "timer_obj 3 uloop_sample" by (simp add: timer_obj_def uloop_sample_def)
  have clock: "queue_clock (u_world uloop_sample) = ((5, 0), ((5, 800000000), []))" by (simp add: uloop_sample_def)
  obtain s ts where s: "uloop_timeout_set queue_clock 3 250 uloop_sample = Some (0, s)" "timers 0 s ts []" "set ts = {3}" "micro (to_time s 3) = 5250000"
    using uloop_timeout_set_timers [where clock = queue_clock and msecs = 250, OF uloop_sample_timers obj clock] by auto
  have ts: "ts \<noteq> []" "hd ts = 3" using s(3) by (cases ts; auto)+
  obtain r where r: "uloop_get_next_timeout \<lparr>tv_sec = 5, tv_usec = 100000\<rparr> s = Some r" "0 \<le> r"
    "r = 0 \<or> (\<forall>x \<in> set ts. 5100000 + 1000 * r < micro (to_time s x) + 2000)" "micro (to_time s 3) < 5100000 + 1000 * r + 1000"
    using uloop_get_next_timeout_correct [OF s(2), of "\<lparr>tv_sec = 5, tv_usec = 100000\<rparr>"] ts by (auto simp: micro_def)
  then show ?thesis using s by auto
qed

end
