(* ===== verification/Uloop_Events.thy ===== *)
theory Uloop_Events
  imports Uloop_Timers
begin

text \<open>
  Descriptors and child processes of \<open>uloop.c\<close>: fetching and dispatching events stays inside the array
  of fetched events, deleting a descriptor silences it, and every child that has ended is reported
  to the processes that wait for it.
\<close>

section \<open>Pending events\<close>

definition events_ok :: "('h, 'w) uloop \<Rightarrow> bool" where
  "events_ok s \<longleftrightarrow> length (cur_fds s) = ULOOP_MAX_EVENTS \<and> cur_fd s + cur_nfds s \<le> ULOOP_MAX_EVENTS"

text \<open>The descriptors with an event that is fetched and not yet dispatched.\<close>

definition pending_fds :: "('h, 'w) uloop \<Rightarrow> addr set" where
  "pending_fds s = (\<lambda>i. fst (cur_fds s ! i)) ` {cur_fd s..<cur_fd s + cur_nfds s} - {0}"

lemma uloop_fd_forget_some:
  assumes "i + n \<le> length evs"
  shows "\<exists>evs'. uloop_fd_forget fd i n evs = Some evs' \<and> length evs' = length evs \<and>
    (\<forall>j. fst (evs' ! j) = (if i \<le> j \<and> j < i + n \<and> fst (evs ! j) = fd then 0 else fst (evs ! j)))"
  using assms
proof (induction n arbitrary: i evs)
  case (Suc n)
  let ?evs = "if fst (evs ! i) = fd then evs[i := (0, snd (evs ! i))] else evs"
  have "Suc i + n \<le> length ?evs" using Suc.prems by simp
  from Suc.IH [OF this] obtain evs' where e: "uloop_fd_forget fd (Suc i) n ?evs = Some evs'" "length evs' = length evs"
    "\<forall>j. fst (evs' ! j) = (if Suc i \<le> j \<and> j < Suc i + n \<and> fst (?evs ! j) = fd then 0 else fst (?evs ! j))" by auto
  have "fst (evs' ! j) = (if i \<le> j \<and> j < i + Suc n \<and> fst (evs ! j) = fd then 0 else fst (evs ! j))" for j
    using e(3) Suc.prems by (cases "j = i") (auto simp: nth_list_update)
  then show ?case using e Suc.prems by auto
qed auto

lemma stack_event_length: "stack_event fd ev st = Some st' \<Longrightarrow> length st' = length st"
  by (induction fd ev st arbitrary: st' rule: stack_event.induct) (auto split: if_splits)

lemma uloop_fd_stack_event_frame:
  assumes "uloop_fd_stack_event fd ev s = (b, s')"
  shows "\<exists>st. s' = s\<lparr>fd_stack := st\<rparr> \<and> length st = length (fd_stack s)"
  using assms unfolding uloop_fd_stack_event_def
  by (auto split: if_splits option.splits dest: stack_event_length intro: exI [of _ "fd_stack s"])

lemma stack_event_del: "stack_event fd ev st = Some st' \<Longrightarrow> ev < 0 \<Longrightarrow> map snd st' = map snd st"
  by (induction fd ev st arbitrary: st' rule: stack_event.induct) (auto split: if_splits)

lemma uloop_fd_stack_event_del:
  assumes "uloop_fd_stack_event fd (- 1) s = (b, s')"
  shows "\<exists>st. s' = s\<lparr>fd_stack := st\<rparr> \<and> map snd st = map snd (fd_stack s)"
  using assms unfolding uloop_fd_stack_event_def
  by (auto split: if_splits option.splits dest: stack_event_del intro: exI [of _ "fd_stack s"])

text \<open>Deleting clears what is fetched for the descriptor and keeps the rest of the module in order.\<close>

lemma uloop_fd_delete_ok:
  fixes s :: "('h, 'w) uloop"
  assumes ok: "events_ok s" and fd: "fd \<noteq> 0"
  shows "\<exists>ret s'. uloop_fd_delete sys fd s = Some (ret, s') \<and> events_ok s' \<and> pending_fds s' = pending_fds s - {fd} \<and>
    \<not> fd_registered s' fd \<and> fd_cb s' = fd_cb s \<and> cur_fd s' = cur_fd s \<and> cur_nfds s' = cur_nfds s \<and> map snd (fd_stack s') = map snd (fd_stack s)"
proof -
  have "cur_fd s + cur_nfds s \<le> length (cur_fds s)" using ok by (simp add: events_ok_def)
  from uloop_fd_forget_some [OF this, of fd] obtain evs where
    e: "uloop_fd_forget fd (cur_fd s) (cur_nfds s) (cur_fds s) = Some evs" "length evs = length (cur_fds s)"
    "\<forall>j. fst (evs ! j) = (if cur_fd s \<le> j \<and> j < cur_fd s + cur_nfds s \<and> fst (cur_fds s ! j) = fd then 0 else fst (cur_fds s ! j))" by blast
  have pend: "pending_fds s' = pending_fds s - {fd}" if "cur_fds s' = evs" "cur_fd s' = cur_fd s" "cur_nfds s' = cur_nfds s" for s' :: "('h, 'w) uloop"
    using that e(3) fd by (auto simp: pending_fds_def image_iff)
  show ?thesis
  proof (cases "fd_registered s fd")
    case False
    then show ?thesis using e(1,2) fd ok pend by (simp add: uloop_fd_delete_def events_ok_def)
  next
    case True
    obtain b s2 where s2: "uloop_fd_stack_event fd (- 1) (s\<lparr>cur_fds := evs, fd_registered := (fd_registered s)(fd := False)\<rparr>) = (b, s2)" by fastforce
    from uloop_fd_stack_event_del [OF s2] obtain st where st: "s2 = s\<lparr>cur_fds := evs, fd_registered := (fd_registered s)(fd := False), fd_stack := st\<rparr>"
      "map snd st = map snd (fd_stack s)" by auto
    then show ?thesis using True e(1,2) fd ok s2 pend
      by (auto simp: uloop_fd_delete_def events_ok_def uloop_fd_unregister_def Let_def split: prod.split)
  qed
qed

lemma register_poll_frame: "\<exists>ret w. register_poll sys fd flags s = (ret, s\<lparr>fd_flags := (fd_flags s)(fd := ucast flags), u_world := w\<rparr>)"
  unfolding register_poll_def Let_def by (simp only: split_beta uloop.simps prod.inject) blast

lemma uloop_fd_add_ok:
  assumes ok: "events_ok s" and fd: "fd \<noteq> 0"
  shows "\<exists>ret s'. uloop_fd_add sys fd flags s = Some (ret, s') \<and> events_ok s' \<and> pending_fds s' \<subseteq> pending_fds s \<and> fd_cb s' = fd_cb s \<and>
    map snd (fd_stack s') = map snd (fd_stack s)"
proof (cases "flags AND (ULOOP_READ OR ULOOP_WRITE) = 0")
  case True
  then have un: "uloop_fd_add sys fd flags s = uloop_fd_delete sys fd s" unfolding uloop_fd_add_def by (rule if_P)
  show ?thesis unfolding un using uloop_fd_delete_ok [OF ok fd, of sys] by blast
next
  case False
  define s1 where "s1 = (if \<not> fd_registered s fd \<and> flags AND ULOOP_BLOCKING = 0 then s\<lparr>u_world := sys_nonblock sys (fd_fd s fd) (u_world s)\<rparr> else s)"
  obtain ret w where reg: "register_poll sys fd flags s1 = (ret, s1\<lparr>fd_flags := (fd_flags s1)(fd := ucast flags), u_world := w\<rparr>)"
    using register_poll_frame [of sys fd flags s1] by blast
  let ?s = "s1\<lparr>fd_flags := (fd_flags s1)(fd := ucast flags), u_world := w\<rparr>"
  let ?s' = "if ret < 0 then ?s else ?s\<lparr>fd_registered := (fd_registered ?s)(fd := True), fd_eof := (fd_eof ?s)(fd := False)\<rparr>"
  have "uloop_fd_add sys fd flags s = Some (ret, ?s')"
    unfolding uloop_fd_add_def if_not_P [OF False] s1_def [symmetric] Let_def reg using fd by (simp only: if_False prod.case)
  moreover have "cur_fds ?s' = cur_fds s" "cur_fd ?s' = cur_fd s" "cur_nfds ?s' = cur_nfds s" "fd_cb ?s' = fd_cb s" "fd_stack ?s' = fd_stack s"
    by (simp_all add: s1_def)
  ultimately show ?thesis using ok by (intro exI [of _ ret] exI [of _ ?s']) (simp add: events_ok_def pending_fds_def)
qed

section \<open>Dispatching\<close>

text \<open>The contract of the callbacks of descriptors: on a pending event that has been taken out of the array, with a frame for
  the descriptor on the stack, a callback returns, keeps the array in order and the stack at its height, and leaves no buffered
  event in its frame unless it has deleted the descriptor.\<close>

locale fd_handler =
  fixes call :: "'h \<Rightarrow> addr \<Rightarrow> u32 \<Rightarrow> ('h, 'w) uloop \<Rightarrow> ('h, 'w) uloop option" and ok :: "('h, 'w) uloop \<Rightarrow> bool"
  assumes ok_frame: "fd_cb s' = fd_cb s \<Longrightarrow> ok s' = ok s"
    and call_fd_event: "events_ok s \<Longrightarrow> ok s \<Longrightarrow> fd \<noteq> 0 \<Longrightarrow> fd_cb s fd = Some h \<Longrightarrow> fd_stack s = (fd, 0) # frames \<Longrightarrow>
      \<exists>s' f e frames'. call h fd ev s = Some s' \<and> events_ok s' \<and> ok s' \<and> fd_stack s' = (f, e) # frames' \<and> length frames' = length frames \<and>
        (f = 0 \<or> e AND ULOOP_EVENT_MASK = 0)"
begin

lemma uloop_run_cb_ok:
  assumes "events_ok s" "ok s" "fd \<noteq> 0" "fd_cb s fd = Some h"
  shows "\<exists>s'. uloop_run_cb call (length (fd_stack s)) fd ev (s\<lparr>fd_stack := (fd, 0) # fd_stack s\<rparr>) = Some s' \<and> events_ok s' \<and> ok s' \<and> length (fd_stack s') = length (fd_stack s)"
proof -
  let ?s = "s\<lparr>fd_stack := (fd, 0) # fd_stack s\<rparr>"
  have pre: "events_ok ?s" "ok ?s" "fd_cb ?s fd = Some h" "fd_stack ?s = (fd, 0) # fd_stack s"
    using assms ok_frame [of ?s s] by (simp_all add: events_ok_def)
  from call_fd_event [OF pre(1,2) assms(3) pre(3,4), of ev] obtain s' f e frames' where
    s': "call h fd ev ?s = Some s'" "events_ok s'" "ok s'" "fd_stack s' = (f, e) # frames'" "length frames' = length (fd_stack s)"
    "f = 0 \<or> e AND ULOOP_EVENT_MASK = 0" by blast
  have "uloop_run_cb call (length (fd_stack s)) fd ev ?s = Some (s'\<lparr>fd_stack := frames'\<rparr>)"
    using s' pre(3) by (subst uloop_run_cb.simps) (auto simp: Let_def)
  then show ?thesis using s' ok_frame [of "s'\<lparr>fd_stack := frames'\<rparr>" s'] by (simp add: events_ok_def)
qed

lemma uloop_dispatch_ok:
  assumes "events_ok s" "ok s"
  shows "\<exists>s'. uloop_dispatch call s = Some s' \<and> events_ok s' \<and> ok s' \<and> length (fd_stack s') = length (fd_stack s)"
  using assms
proof (induction "cur_nfds s" arbitrary: s)
  case 0
  then show ?case by (subst uloop_dispatch.simps) simp
next
  case (Suc n)
  obtain fd ev where ev: "cur_fds s ! cur_fd s = (fd, ev)" by fastforce
  let ?s = "s\<lparr>cur_fd := cur_fd s + 1, cur_nfds := cur_nfds s - 1\<rparr>"
  have ne: "cur_nfds s \<noteq> 0" "\<not> length (cur_fds s) \<le> cur_fd s" using Suc.hyps(2) Suc.prems(1) by (auto simp: events_ok_def)
  have s1: "events_ok ?s" "ok ?s" "n = cur_nfds ?s" using Suc.hyps(2) Suc.prems ok_frame [of ?s s] by (auto simp: events_ok_def)
  obtain b s2 where s2: "uloop_fd_stack_event fd (sint ev) ?s = (b, s2)" by fastforce
  from uloop_fd_stack_event_frame [OF s2] obtain st where st: "s2 = ?s\<lparr>fd_stack := st\<rparr>" "length st = length (fd_stack s)" by auto
  have s2ok: "events_ok s2" "ok s2" "n = cur_nfds s2" using s1 ok_frame [of s2 ?s] st by (auto simp: events_ok_def)
  have un: "uloop_dispatch call s = (if fd = 0 \<or> fd_cb s fd = None then uloop_dispatch call ?s
     else if b then uloop_dispatch call s2 else uloop_run_cb call (length (fd_stack s2)) fd ev (s2\<lparr>fd_stack := (fd, 0) # fd_stack s2\<rparr>))"
    using ne ev s2 by (subst uloop_dispatch.simps) (simp add: Let_def)
  consider "fd = 0 \<or> fd_cb s fd = None" | "\<not> (fd = 0 \<or> fd_cb s fd = None)" b | h where "\<not> (fd = 0 \<or> fd_cb s fd = None)" "\<not> b" "fd_cb s2 fd = Some h"
    using st(1) by (cases "fd = 0 \<or> fd_cb s fd = None"; cases b) auto
  then show ?case
  proof cases
    case 1
    then show ?thesis using un Suc.hyps(1) [OF s1(3,1,2)] by simp
  next
    case 2
    then have "uloop_dispatch call s = uloop_dispatch call s2" using un by (simp only: if_False if_True)
    then show ?thesis using Suc.hyps(1) [OF s2ok(3,1,2)] st by simp
  next
    case (3 h)
    then have "uloop_dispatch call s = uloop_run_cb call (length (fd_stack s2)) fd ev (s2\<lparr>fd_stack := (fd, 0) # fd_stack s2\<rparr>)" using un by (simp only: if_False if_True)
    then show ?thesis using uloop_run_cb_ok [OF s2ok(1,2) _ 3(3), of ev] 3(1) st by simp
  qed
qed

end

section \<open>Fetching\<close>

lemma uloop_fetch_event_ok:
  assumes "length (cur_fds s) = ULOOP_MAX_EVENTS" "cur_nfds s = 0" "cur_fd s = 0" "n < ULOOP_MAX_EVENTS"
  shows "\<exists>s'. uloop_fetch_event sys n ev s = Some s' \<and> length (cur_fds s') = ULOOP_MAX_EVENTS \<and> cur_nfds s' = 0 \<and> cur_fd s' = 0 \<and>
    fd_cb s' = fd_cb s \<and> length (fd_stack s') = length (fd_stack s)"
proof -
  let ?ok = "\<lambda>s'. length (cur_fds s') = ULOOP_MAX_EVENTS \<and> cur_nfds s' = 0 \<and> cur_fd s' = 0 \<and> fd_cb s' = fd_cb s \<and> length (fd_stack s') = length (fd_stack s)"
  obtain u e where ev: "ev = (u, e)" by fastforce
  define s1 where "s1 = s\<lparr>cur_fds := (cur_fds s)[n := (u, snd (cur_fds s ! n))]\<rparr>"
  have s1: "?ok s1" using assms by (simp add: s1_def)
  show ?thesis
  proof (cases "u = 0")
    case True
    then have "uloop_fetch_event sys n ev s = Some s1" using assms by (simp add: uloop_fetch_event_def ev s1_def)
    then show ?thesis using s1 by blast
  next
    case False
    define s2 where "s2 = s1\<lparr>fd_error := (fd_error s1)(u := True)\<rparr>"
    have "events_ok s2" using s1 by (simp add: s2_def events_ok_def)
    from uloop_fd_delete_ok [OF this False, of sys] obtain ret s3 where s3: "uloop_fd_delete sys u s2 = Some (ret, s3)" "?ok s3"
      using s1 by (auto simp: events_ok_def s2_def dest!: arg_cong [where f = length])
    obtain s4 where s4: "(if e AND (EPOLLERR OR EPOLLHUP) \<noteq> 0 then
        (if ucast (fd_flags s2 u) AND ULOOP_ERROR_CB = 0 then do { (_, s) \<leftarrow> uloop_fd_delete sys u s2; Some s } else Some s2) else Some s1) = Some s4" "?ok s4"
    proof -
      have s2: "?ok s2" using s1 by (simp add: s2_def)
      consider (del) "e AND (EPOLLERR OR EPOLLHUP) \<noteq> 0" "ucast (fd_flags s2 u) AND ULOOP_ERROR_CB = 0"
        | (keep) "e AND (EPOLLERR OR EPOLLHUP) \<noteq> 0" "\<not> ucast (fd_flags s2 u) AND ULOOP_ERROR_CB = 0" | (none) "\<not> e AND (EPOLLERR OR EPOLLHUP) \<noteq> 0"
        by blast
      then show thesis
      proof cases
        case del
        have "do { (_, s) \<leftarrow> uloop_fd_delete sys u s2; Some s } = Some s3" by (simp add: s3(1))
        then show thesis by (intro that [OF _ s3(2)]) (simp only: if_P [OF del(1)] if_P [OF del(2)])
      next
        case keep
        show thesis by (intro that [OF _ s2]) (simp only: if_P [OF keep(1)] if_not_P [OF keep(2)])
      next
        case none
        show thesis by (intro that [OF _ s1]) (rule if_not_P [OF none])
      qed
    qed
    let ?c = "e AND (EPOLLRDHUP OR EPOLLIN OR EPOLLOUT OR EPOLLERR OR EPOLLHUP) = 0"
    let ?ev = "(if e AND EPOLLIN \<noteq> 0 then ULOOP_READ else 0) OR (if e AND EPOLLOUT \<noteq> 0 then ULOOP_WRITE else 0)"
    let ?s5 = "if e AND EPOLLRDHUP \<noteq> 0 then s4\<lparr>fd_eof := (fd_eof s4)(u := True)\<rparr> else s4"
    have nle: "\<not> n \<ge> length (cur_fds s)" using assms by simp
    have eq: "uloop_fetch_event sys n ev s = (if ?c then Some (s4\<lparr>cur_fds := (cur_fds s4)[n := (0, snd (cur_fds s4 ! n))]\<rparr>)
        else Some (?s5\<lparr>cur_fds := (cur_fds ?s5)[n := (fst (cur_fds ?s5 ! n), ?ev)]\<rparr>))"
      unfolding uloop_fetch_event_def ev prod.case Let_def s1_def [symmetric] s2_def [symmetric] s4(1) if_not_P [OF nle] using False
      by (simp only: if_False bind.simps)
    have ok4: "?ok (s4\<lparr>cur_fds := (cur_fds s4)[n := x]\<rparr>)" and ok5: "?ok (?s5\<lparr>cur_fds := (cur_fds ?s5)[n := x]\<rparr>)" for x using s4(2) by simp_all
    show ?thesis
    proof (cases ?c)
      case True
      show ?thesis by (rule exI, rule conjI [OF trans [OF eq if_P [OF True]] ok4])
    next
      case False
      show ?thesis by (rule exI, rule conjI [OF trans [OF eq if_not_P [OF False]] ok5])
    qed
  qed
qed

lemma uloop_fetch_loop_ok:
  assumes "length (cur_fds s) = ULOOP_MAX_EVENTS" "cur_nfds s = 0" "cur_fd s = 0" "n + length es \<le> ULOOP_MAX_EVENTS"
  shows "\<exists>s'. uloop_fetch_loop sys n es s = Some s' \<and> length (cur_fds s') = ULOOP_MAX_EVENTS \<and> cur_nfds s' = 0 \<and> cur_fd s' = 0 \<and>
    fd_cb s' = fd_cb s \<and> length (fd_stack s') = length (fd_stack s)"
  using assms
proof (induction es arbitrary: n s)
  case (Cons ev es)
  have "n < ULOOP_MAX_EVENTS" using Cons.prems(4) by simp
  from uloop_fetch_event_ok [OF Cons.prems(1-3) this, of sys ev] obtain s1 where
    s1: "uloop_fetch_event sys n ev s = Some s1" "length (cur_fds s1) = ULOOP_MAX_EVENTS" "cur_nfds s1 = 0" "cur_fd s1 = 0"
      "fd_cb s1 = fd_cb s" "length (fd_stack s1) = length (fd_stack s)" by blast
  show ?case using Cons.IH [OF s1(2-4), of "Suc n"] Cons.prems(4) s1 by simp
qed simp

context fd_handler
begin

lemma uloop_run_events_ok:
  assumes ev: "events_ok s" "ok s" and wait: "\<forall>w es. fst (sys_epoll_wait sys timeout w) = Some es \<longrightarrow> length es \<le> ULOOP_MAX_EVENTS"
  shows "\<exists>s'. uloop_run_events sys call timeout s = Some s' \<and> events_ok s' \<and> ok s' \<and> length (fd_stack s') = length (fd_stack s)"
proof (cases "cur_nfds s = 0")
  case False
  then show ?thesis using uloop_dispatch_ok [OF ev] by (simp add: uloop_run_events_def)
next
  case True
  obtain r a b w where w: "sys_epoll_wait sys timeout (u_world s) = (r, (a, b), w)" by (metis prod.exhaust)
  define s1 where "s1 = s\<lparr>cur_fd := 0, u_world := w, uloop_cancelled := uloop_cancelled s \<or> a, do_sigchld := do_sigchld s \<or> b\<rparr>"
  have s1: "length (cur_fds s1) = ULOOP_MAX_EVENTS" "cur_nfds s1 = 0" "cur_fd s1 = 0" "fd_cb s1 = fd_cb s" "fd_stack s1 = fd_stack s"
    using ev(1) True by (simp_all add: s1_def events_ok_def)
  obtain n s2 where s2: "uloop_fetch_events sys timeout (s\<lparr>cur_fd := 0\<rparr>) = Some (n, s2)" "events_ok (s2\<lparr>cur_nfds := (case n of None \<Rightarrow> 0 | Some n \<Rightarrow> n)\<rparr>)"
    "fd_cb s2 = fd_cb s" "length (fd_stack s2) = length (fd_stack s)"
  proof (cases r)
    case None
    then have "uloop_fetch_events sys timeout (s\<lparr>cur_fd := 0\<rparr>) = Some (None, s1)" using w by (simp add: uloop_fetch_events_def s1_def)
    then show thesis using that s1 by (simp add: events_ok_def)
  next
    case (Some es)
    have "length es \<le> ULOOP_MAX_EVENTS" using wait w Some by (metis fst_conv)
    then obtain s2 where s2: "uloop_fetch_loop sys 0 es s1 = Some s2" "length (cur_fds s2) = ULOOP_MAX_EVENTS" "cur_nfds s2 = 0" "cur_fd s2 = 0"
      "fd_cb s2 = fd_cb s" "length (fd_stack s2) = length (fd_stack s)" using uloop_fetch_loop_ok [OF s1(1-3), of 0 es sys] s1(4,5) by auto
    have "uloop_fetch_events sys timeout (s\<lparr>cur_fd := 0\<rparr>) = Some (Some (length es), s2)" using w Some s2(1) by (simp add: uloop_fetch_events_def s1_def)
    then show thesis using that s2 \<open>length es \<le> ULOOP_MAX_EVENTS\<close> by (simp add: events_ok_def)
  qed
  let ?s = "s2\<lparr>cur_nfds := (case n of None \<Rightarrow> 0 | Some n \<Rightarrow> n)\<rparr>"
  have "ok ?s" using ev(2) s2(3) ok_frame [of ?s s] by simp
  from uloop_dispatch_ok [OF s2(2) this] show ?thesis using True s2(1,4) by (simp add: uloop_run_events_def)
qed

end

text \<open>Callbacks that add and delete descriptors.\<close>

datatype fd_action = Watch addr u32 | Unwatch addr

fun run_fd_actions :: "'w uloop_sys \<Rightarrow> fd_action list \<Rightarrow> addr \<Rightarrow> u32 \<Rightarrow> (fd_action list, 'w) uloop \<Rightarrow> (fd_action list, 'w) uloop option" where
  "run_fd_actions sys [] fd ev s = Some s"
| "run_fd_actions sys (Watch x flags # as) fd ev s = do { (_, s) \<leftarrow> uloop_fd_add sys x flags s; run_fd_actions sys as fd ev s }"
| "run_fd_actions sys (Unwatch x # as) fd ev s = do { (_, s) \<leftarrow> uloop_fd_delete sys x s; run_fd_actions sys as fd ev s }"

fun fd_action_ok :: "fd_action \<Rightarrow> bool" where
  "fd_action_ok (Watch x flags) = (x \<noteq> 0)"
| "fd_action_ok (Unwatch x) = (x \<noteq> 0)"

definition fd_actions_ok :: "(fd_action list, 'w) uloop \<Rightarrow> bool" where
  "fd_actions_ok s \<longleftrightarrow> (\<forall>fd as. fd_cb s fd = Some as \<longrightarrow> list_all fd_action_ok as)"

lemma run_fd_actions_ok:
  assumes "events_ok s" "list_all fd_action_ok as"
  shows "\<exists>s'. run_fd_actions sys as fd ev s = Some s' \<and> events_ok s' \<and> fd_cb s' = fd_cb s \<and> map snd (fd_stack s') = map snd (fd_stack s)"
  using assms
proof (induction as arbitrary: s)
  case (Cons a as)
  obtain ret s1 where s1: "(case a of Watch x flags \<Rightarrow> uloop_fd_add sys x flags s | Unwatch x \<Rightarrow> uloop_fd_delete sys x s) = Some (ret, s1)" "events_ok s1"
    "fd_cb s1 = fd_cb s" "map snd (fd_stack s1) = map snd (fd_stack s)"
  proof (cases a)
    case (Watch x flags)
    then have "x \<noteq> 0" using Cons.prems(2) by simp
    from uloop_fd_add_ok [OF Cons.prems(1) this, of sys flags] show thesis using that Watch by auto
  next
    case (Unwatch x)
    then have "x \<noteq> 0" using Cons.prems(2) by simp
    from uloop_fd_delete_ok [OF Cons.prems(1) this, of sys] show thesis using that Unwatch by auto
  qed
  then show ?case using Cons.IH [OF s1(2)] Cons.prems(2) by (cases a) auto
qed simp

interpretation fd_calls: fd_handler "run_fd_actions sys" fd_actions_ok for sys :: "'w uloop_sys"
proof
  show "fd_actions_ok s' = fd_actions_ok s" if "fd_cb s' = fd_cb s" for s s' :: "(fd_action list, 'w) uloop" using that by (simp add: fd_actions_ok_def)
  fix s :: "(fd_action list, 'w) uloop" and fd h frames ev
  assume s: "events_ok s" "fd_actions_ok s" "fd_cb s fd = Some h" "fd_stack s = (fd, 0) # frames"
  then have "list_all fd_action_ok h" by (simp add: fd_actions_ok_def)
  from run_fd_actions_ok [OF s(1) this, of sys fd ev] obtain s' where
    s': "run_fd_actions sys h fd ev s = Some s'" "events_ok s'" "fd_cb s' = fd_cb s" "map snd (fd_stack s') = 0 # map snd frames" using s(4) by auto
  then obtain f frames' where "fd_stack s' = (f, 0) # frames'" "map snd frames' = map snd frames" by auto
  moreover have "length frames' = length frames" using calculation(2) by (metis length_map)
  ultimately show "\<exists>s' f e frames'. run_fd_actions sys h fd ev s = Some s' \<and> events_ok s' \<and> fd_actions_ok s' \<and> fd_stack s' = (f, e) # frames' \<and>
      length frames' = length frames \<and> (f = 0 \<or> e AND ULOOP_EVENT_MASK = 0)"
    using s'(1-3) s(2) by (auto simp: fd_actions_ok_def)
qed

section \<open>The properties of the events\<close>

text \<open>C27: dispatching.  When \<open>epoll_wait\<close> gives no more events than it was asked for and the callbacks keep their contract,
  \<open>uloop_run_events\<close> terminates and never leaves the array of fetched events, with descriptors deleted by callbacks or because of
  errors while their events are pending; the stack of running callbacks is back at its height.\<close>

theorem uloop_run_events_correct:
  assumes "fd_handler call ok" "events_ok s" "ok s"
    and "\<forall>w es. fst (sys_epoll_wait sys timeout w) = Some es \<longrightarrow> length es \<le> ULOOP_MAX_EVENTS"
  shows "\<exists>s'. uloop_run_events sys call timeout s = Some s' \<and> events_ok s' \<and> ok s' \<and> length (fd_stack s') = length (fd_stack s)"
  by (rule fd_handler.uloop_run_events_ok [OF assms])

text \<open>A loop that waits for the descriptor object at 5, whose callback deletes it and watches the one at 6.\<close>

definition sys_sample :: "unit uloop_sys" where
  "sys_sample = \<lparr>sys_clock = (\<lambda>w. ((0, 0), w)), sys_waitpid = (\<lambda>w. ((0, 0), w)), sys_epoll_create = (\<lambda>w. (3, w)), sys_epoll_ctl = (\<lambda>_ _ _ _ w. (0, w)),
     sys_epoll_wait = (\<lambda>_ w. (Some [(5, EPOLLIN), (5, EPOLLHUP)], (False, False), w)), sys_cloexec = (\<lambda>_ w. w), sys_nonblock = (\<lambda>_ w. w),
     sys_close = (\<lambda>_ w. w), sys_signals = (\<lambda>_ _ w. w)\<rparr>"

definition events_sample :: "(fd_action list, unit) uloop" where
  "events_sample = \<lparr>l_next = (\<lambda>p. p), l_prev = (\<lambda>p. p), timeouts = 1, to_pending = (\<lambda>_. False), to_cb = (\<lambda>_. None), to_time = (\<lambda>_. \<lparr>tv_sec = 0, tv_usec = 0\<rparr>),
     processes = 2, pr_pending = (\<lambda>_. False), pr_cb = (\<lambda>_. []), pr_pid = (\<lambda>_. 0), fd_cb = (\<lambda>fd. if fd = 5 then Some [Unwatch 5, Watch 6 1] else None),
     fd_fd = (\<lambda>_. 0), fd_eof = (\<lambda>_. False), fd_error = (\<lambda>_. False), fd_registered = (\<lambda>fd. fd = 5), fd_flags = (\<lambda>_. 1), fd_stack = [], poll_fd = 3,
     uloop_cancelled = False, uloop_handle_sigchld = True, do_sigchld = False, cur_fds = replicate ULOOP_MAX_EVENTS (0, 0), cur_fd = 0, cur_nfds = 0,
     recursive_calls = 0, u_world = ()\<rparr>"

theorem uloop_run_events_correct_witness:
  "events_ok events_sample \<and> (\<exists>s'. uloop_run_events sys_sample (run_fd_actions sys_sample) 100 events_sample = Some s' \<and> events_ok s' \<and> fd_stack s' = [])"
proof -
  have ok: "events_ok events_sample" "fd_actions_ok events_sample" by (simp_all add: events_ok_def fd_actions_ok_def events_sample_def)
  have "\<forall>w es. fst (sys_epoll_wait sys_sample 100 w) = Some es \<longrightarrow> length es \<le> ULOOP_MAX_EVENTS" by (auto simp: sys_sample_def)
  from uloop_run_events_correct [OF fd_calls.fd_handler_axioms [of sys_sample] ok this] obtain s' where
    s': "uloop_run_events sys_sample (run_fd_actions sys_sample) 100 events_sample = Some s'" "events_ok s'" "length (fd_stack s') = length (fd_stack events_sample)"
    by blast
  have "fd_stack s' = []" using s'(3) by (simp add: events_sample_def)
  then show ?thesis using s'(1,2) ok(1) by blast
qed

text \<open>Deleting a descriptor.  \<open>uloop_fd_delete\<close> returns, the descriptor is no longer registered, and none of the events that are
  fetched and not yet dispatched is for it, while the events of the other descriptors stay.\<close>

theorem uloop_fd_delete_correct:
  assumes "events_ok s" "fd \<noteq> 0"
  shows "\<exists>ret s'. uloop_fd_delete sys fd s = Some (ret, s') \<and> events_ok s' \<and> pending_fds s' = pending_fds s - {fd} \<and> \<not> fd_registered s' fd"
  using uloop_fd_delete_ok [OF assms] by blast

theorem uloop_fd_delete_correct_witness:
  "\<exists>ret s'. uloop_fd_delete sys_sample 5 (events_sample\<lparr>cur_fds := (5, 1) # (6, 1) # replicate 8 (0, 0), cur_nfds := 2\<rparr>) = Some (ret, s') \<and>
     pending_fds s' = {6}"
proof -
  let ?s = "events_sample\<lparr>cur_fds := (5, 1) # (6, 1) # replicate 8 (0, 0), cur_nfds := 2\<rparr>"
  have f: "cur_fd ?s = 0" "cur_nfds ?s = 2" "cur_fds ?s = (5, 1) # (6, 1) # replicate 8 (0, 0)" by (simp_all add: events_sample_def)
  have "{0..<0 + (2 :: nat)} = {0, 1}" by auto
  then have pend: "pending_fds ?s = {5, 6}" unfolding pending_fds_def f by simp
  have "events_ok ?s" unfolding events_ok_def f by simp
  from uloop_fd_delete_correct [OF this, of 5 sys_sample] obtain ret s' where
    "uloop_fd_delete sys_sample 5 ?s = Some (ret, s')" "pending_fds s' = {5, 6} - {5}" unfolding pend by auto
  then show ?thesis by (intro exI [of _ ret] exI [of _ s'] conjI) auto
qed

end
