(* ===== verification/Ustream_Fd.thy ===== *)
theory Ustream_Fd
  imports Ustream_Io Uloop_Events "HOL-Library.Stream"
begin

text \<open>
  Streams on descriptors (\<open>libubox/ustream-fd.c\<close>), which are the streams of \<open>ustream.c\<close> watched by the
  loop of \<open>uloop.c\<close>: the implementation keeps the contract of a stream, so that what is written
  leaves through the descriptor in order, and what is read reaches the reader in order.

  The answers of \<open>read\<close> are an infinite stream that is given with the state: data may never stop coming.  Those of \<open>write\<close> are a
  list; a call behind its end answers that it would block.
\<close>

section \<open>The descriptor\<close>

datatype read_answer = Read_data bytes | Read_eintr | Read_eagain | Read_error
datatype write_answer = Write_len nat | Write_eintr | Write_eagain | Write_error

text \<open>The world of a stream: the loop, the answers that are still to come, the bytes that have come and
  gone, and the state of the user.\<close>

record ('h, 'k, 'u) fd_world =
  fw_loop :: "('h, 'k) uloop"
  fw_reads :: "read_answer stream"
  fw_in :: bytes
  fw_writes :: "write_answer list"
  fw_out :: bytes
  fw_user :: 'u

type_synonym ('h, 'k, 'u) fd_stream = "('h, 'k, 'u) fd_world ustream"
type_synonym ('h, 'k, 'u) fd_stream_ops = "('h, 'k, 'u) fd_world ustream_ops"

text \<open>\<open>read\<close> into \<open>n\<close> bytes; what does not fit is for the next call.\<close>

definition kernel_read :: "nat \<Rightarrow> ('h, 'k, 'u) fd_world \<Rightarrow> read_answer \<times> ('h, 'k, 'u) fd_world" where
  "kernel_read n w = (let rs = stl (fw_reads w) in case shd (fw_reads w) of
     Read_data bs \<Rightarrow> (Read_data (take n bs),
       w\<lparr>fw_reads := (if length bs \<le> n then rs else Read_data (drop n bs) ## rs), fw_in := fw_in w @ take n bs\<rparr>)
   | r \<Rightarrow> (r, w\<lparr>fw_reads := rs\<rparr>))"

definition kernel_write :: "bytes \<Rightarrow> ('h, 'k, 'u) fd_world \<Rightarrow> write_answer \<times> ('h, 'k, 'u) fd_world" where
  "kernel_write bs w = (case fw_writes w of
     [] \<Rightarrow> (Write_eagain, w)
   | Write_len n # ws \<Rightarrow> (Write_len (min n (length bs)), w\<lparr>fw_writes := ws, fw_out := fw_out w @ take n bs\<rparr>)
   | r # ws \<Rightarrow> (r, w\<lparr>fw_writes := ws\<rparr>))"

section \<open>The implementation\<close>

text \<open>\<open>sys\<close> are the system calls of the loop, \<open>fd\<close> is the address of the descriptor object of the stream.\<close>

definition ustream_fd_set_uloop :: "'k uloop_sys \<Rightarrow> addr \<Rightarrow> bool \<Rightarrow> ('h, 'k, 'u) fd_stream \<Rightarrow> ('h, 'k, 'u) fd_stream option" where
  "ustream_fd_set_uloop sys fd write s = (let
     flags = ULOOP_EDGE_TRIGGER;
     flags = (if s_read_blocked s = 0 \<and> \<not> s_eof s then flags OR ULOOP_READ else flags);
     flags = (if write \<or> l_bufs (s_w s) \<noteq> [] \<and> l_data_bytes (s_w s) \<noteq> 0 \<and> \<not> s_write_error s then flags OR ULOOP_WRITE else flags) in
   do {
     (_, u) \<leftarrow> uloop_fd_add sys fd flags (fw_loop (s_world s));
     Some (s\<lparr>s_world := (s_world s)\<lparr>fw_loop := u\<rparr>\<rparr>)
   })"

definition ustream_fd_set_read_blocked :: "'k uloop_sys \<Rightarrow> addr \<Rightarrow> ('h, 'k, 'u) fd_stream \<Rightarrow> ('h, 'k, 'u) fd_stream option" where
  "ustream_fd_set_read_blocked sys fd s = ustream_fd_set_uloop sys fd False s"

partial_function (option) ustream_fd_read_pending ::
  "'k uloop_sys \<Rightarrow> addr \<Rightarrow> ('h, 'k, 'u) fd_stream_ops \<Rightarrow> bool \<Rightarrow> ('h, 'k, 'u) fd_stream \<Rightarrow> (bool \<times> ('h, 'k, 'u) fd_stream) option" where
  "ustream_fd_read_pending sys fd ops more_data s = do {
     (buf, s) \<leftarrow> ustream_reserve ops 1 s;
     case buf of
       None \<Rightarrow> Some (more_data, s)
     | Some (d, buflen) \<Rightarrow>
         let (r, w) = kernel_read buflen (s_world s); s = s\<lparr>s_world := w\<rparr> in
         if r = Read_eintr then ustream_fd_read_pending sys fd ops more_data s
         else if r = Read_eagain then Some (more_data, s)
         else let bs = (case r of Read_data bs \<Rightarrow> bs | _ \<Rightarrow> []) in
           if bs = []
           then do {
             let s = (if \<not> s_eof s then ustream_state_change s else s)\<lparr>s_eof := True\<rparr>;
             s \<leftarrow> ustream_fd_set_uloop sys fd False s;
             Some (more_data, s)
           }
           else do {
             s \<leftarrow> do { s \<leftarrow> ustream_store d bs s; ustream_fill_read ops (length bs) s };
             ustream_fd_read_pending sys fd ops True s
           }
   }"

text \<open>The loop of \<open>ustream_fd_write\<close>: what has been written and what is left, or an error.\<close>

partial_function (option) fd_write_loop :: "bytes \<Rightarrow> nat \<Rightarrow> ('h, 'k, 'u) fd_world \<Rightarrow> ((nat \<times> bytes) option \<times> ('h, 'k, 'u) fd_world) option" where
  "fd_write_loop buf ret w =
     (if buf = [] then Some (Some (ret, buf), w)
      else let (r, w) = kernel_write buf w in
        case r of
          Write_len len \<Rightarrow> fd_write_loop (drop len buf) (ret + len) w
        | Write_eintr \<Rightarrow> fd_write_loop buf ret w
        | Write_eagain \<Rightarrow> Some (Some (ret, buf), w)
        | Write_error \<Rightarrow> Some (None, w))"

definition ustream_fd_write :: "'k uloop_sys \<Rightarrow> addr \<Rightarrow> bytes \<Rightarrow> bool \<Rightarrow> ('h, 'k, 'u) fd_stream \<Rightarrow> (int \<times> ('h, 'k, 'u) fd_stream) option" where
  "ustream_fd_write sys fd buf more_data s =
     (if buf = [] then Some (0, s)
      else do {
        (r, w) \<leftarrow> fd_write_loop buf 0 (s_world s);
        let s = s\<lparr>s_world := w\<rparr>;
        case r of
          None \<Rightarrow> Some (- 1, s)
        | Some (ret, left) \<Rightarrow> do {
            s \<leftarrow> (if left \<noteq> [] then ustream_fd_set_uloop sys fd True s else Some s);
            Some (int ret, s)
          }
      })"

definition fd_poll :: "'k uloop_sys \<Rightarrow> addr \<Rightarrow> ('h, 'k, 'u) fd_stream_ops \<Rightarrow> u32 \<Rightarrow> ('h, 'k, 'u) fd_stream \<Rightarrow> (bool \<times> ('h, 'k, 'u) fd_stream) option" where
  "fd_poll sys fd ops events s = do {
     (more_data, s) \<leftarrow> (if events AND ULOOP_READ \<noteq> 0 then ustream_fd_read_pending sys fd ops False s else Some (False, s));
     s \<leftarrow> (if events AND ULOOP_WRITE \<noteq> 0
           then do { (done, s) \<leftarrow> ustream_write_pending ops s; if \<not> done then ustream_fd_set_uloop sys fd False s else Some s }
           else Some s);
     Some (more_data, s)
   }"

definition ustream_fd_poll :: "'k uloop_sys \<Rightarrow> addr \<Rightarrow> ('h, 'k, 'u) fd_stream_ops \<Rightarrow> ('h, 'k, 'u) fd_stream \<Rightarrow> (bool \<times> ('h, 'k, 'u) fd_stream) option" where
  "ustream_fd_poll sys fd ops s = fd_poll sys fd ops (ULOOP_READ OR ULOOP_WRITE) s"

definition ustream_uloop_cb :: "'k uloop_sys \<Rightarrow> addr \<Rightarrow> ('h, 'k, 'u) fd_stream_ops \<Rightarrow> u32 \<Rightarrow> ('h, 'k, 'u) fd_stream \<Rightarrow> ('h, 'k, 'u) fd_stream option" where
  "ustream_uloop_cb sys fd ops events s = do { (_, s) \<leftarrow> fd_poll sys fd ops events s; Some s }"

definition ustream_fd_free :: "'k uloop_sys \<Rightarrow> addr \<Rightarrow> ('h, 'k, 'u) fd_stream \<Rightarrow> ('h, 'k, 'u) fd_stream option" where
  "ustream_fd_free sys fd s = do {
     (_, u) \<leftarrow> uloop_fd_delete sys fd (fw_loop (s_world s));
     Some (s\<lparr>s_world := (s_world s)\<lparr>fw_loop := u\<rparr>\<rparr>)
   }"

text \<open>\<open>ustream_fd_init\<close> sets the operations of the implementation beside those of the user in \<open>ops\<close>.\<close>

definition fd_ops :: "'k uloop_sys \<Rightarrow> addr \<Rightarrow> ('h, 'k, 'u) fd_stream_ops \<Rightarrow> ('h, 'k, 'u) fd_stream_ops" where
  "fd_ops sys fd ops = (let
     ops = ops\<lparr>op_set_read_blocked := Some (ustream_fd_set_read_blocked sys fd), op_write := ustream_fd_write sys fd, op_free := Some (ustream_fd_free sys fd)\<rparr> in
     ops\<lparr>op_poll := Some (ustream_fd_poll sys fd ops)\<rparr>)"

definition ustream_fd_init :: "'k uloop_sys \<Rightarrow> addr \<Rightarrow> int \<Rightarrow> 'h \<Rightarrow> ('h, 'k, 'u) fd_stream_ops \<Rightarrow> ('h, 'k, 'u) fd_stream \<Rightarrow>
    (('h, 'k, 'u) fd_stream_ops \<times> ('h, 'k, 'u) fd_stream) option" where
  "ustream_fd_init sys fd n cb ops s = do {
     let s = ustream_init_defaults s;
     let u = fw_loop (s_world s);
     let u = u\<lparr>fd_fd := (fd_fd u)(fd := n), fd_cb := (fd_cb u)(fd := Some cb)\<rparr>;
     s \<leftarrow> ustream_fd_set_uloop sys fd False (s\<lparr>s_world := (s_world s)\<lparr>fw_loop := u\<rparr>\<rparr>);
     Some (fd_ops sys fd ops, s)
   }"

section \<open>The contract\<close>

abbreviation loop_ok :: "('h, 'k, 'u) fd_world \<Rightarrow> bool" where
  "loop_ok w \<equiv> events_ok (fw_loop w)"

text \<open>What the write side leaves alone.\<close>

definition read_side :: "('h, 'k, 'u) fd_world \<Rightarrow> read_answer stream \<times> bytes \<times> 'u" where
  "read_side w = (fw_reads w, fw_in w, fw_user w)"

lemma fd_write_loop_ok:
  "\<exists>r ws wd. fd_write_loop buf ret w = Some (r, w\<lparr>fw_writes := ws, fw_out := fw_out w @ wd\<rparr>) \<and>
     (case r of None \<Rightarrow> \<exists>k. wd = take k buf | Some (ret', left) \<Rightarrow> \<exists>n \<le> length buf. ret' = ret + n \<and> left = drop n buf \<and> wd = take n buf)"
proof (induction "length (fw_writes w)" arbitrary: buf ret w)
  case 0
  then show ?case by (subst fd_write_loop.simps) (auto simp: kernel_write_def intro!: exI [of _ "[]"])
next
  case (Suc m)
  then obtain a ws where a: "fw_writes w = a # ws" "m = length ws" by (cases "fw_writes w") auto
  show ?case
  proof (cases "buf = []")
    case True
    then show ?thesis by (subst fd_write_loop.simps) (auto intro!: exI [of _ "[]"] exI [of _ "fw_writes w"])
  next
    case ne: False
    show ?thesis
    proof (cases a)
      case (Write_len k)
      let ?n = "min k (length buf)"
      let ?w = "w\<lparr>fw_writes := ws, fw_out := fw_out w @ take k buf\<rparr>"
      from Suc.hyps(1) [of ?w "drop ?n buf" "ret + ?n"] a(2) obtain r ws' wd where
        IH: "fd_write_loop (drop ?n buf) (ret + ?n) ?w = Some (r, w\<lparr>fw_writes := ws', fw_out := fw_out w @ take k buf @ wd\<rparr>)"
          "case r of None \<Rightarrow> \<exists>k. wd = take k (drop ?n buf) |
             Some (ret', left) \<Rightarrow> \<exists>n \<le> length (drop ?n buf). ret' = ret + ?n + n \<and> left = drop n (drop ?n buf) \<and> wd = take n (drop ?n buf)" by auto
      have tk: "take k buf = take ?n buf" by (simp add: min_def)
      have "fd_write_loop buf ret w = Some (r, w\<lparr>fw_writes := ws', fw_out := fw_out w @ (take k buf @ wd)\<rparr>)"
        using ne a(1) Write_len IH(1) by (subst fd_write_loop.simps) (simp add: kernel_write_def)
      moreover have "case r of None \<Rightarrow> \<exists>j. take k buf @ wd = take j buf |
          Some (ret', left) \<Rightarrow> \<exists>n \<le> length buf. ret' = ret + n \<and> left = drop n buf \<and> take k buf @ wd = take n buf"
      proof (cases r)
        case None
        then obtain j where "wd = take j (drop ?n buf)" using IH(2) by auto
        then have "take k buf @ wd = take (?n + j) buf" unfolding tk by (simp add: take_add)
        then show ?thesis using None by auto
      next
        case (Some x)
        then obtain ret' left n where "x = (ret', left)" "n \<le> length (drop ?n buf)" "ret' = ret + ?n + n" "left = drop n (drop ?n buf)" "wd = take n (drop ?n buf)"
          using IH(2) by auto
        moreover have "take ?n buf @ take n (drop ?n buf) = take (?n + n) buf" by (simp only: take_add)
        ultimately show ?thesis using Some unfolding tk by (auto simp: add.commute intro!: exI [of _ "?n + n"])
      qed
      ultimately show ?thesis by blast
    next
      case Write_eintr
      from Suc.hyps(1) [of "w\<lparr>fw_writes := ws\<rparr>" buf ret] a(2) Write_eintr ne a(1) show ?thesis
        by (subst fd_write_loop.simps) (simp add: kernel_write_def)
    next
      case Write_eagain
      have "fd_write_loop buf ret w = Some (Some (ret, buf), w\<lparr>fw_writes := ws, fw_out := fw_out w @ []\<rparr>)"
        using Write_eagain ne a(1) by (subst fd_write_loop.simps) (simp add: kernel_write_def)
      then show ?thesis by fastforce
    next
      case Write_error
      have "fd_write_loop buf ret w = Some (None, w\<lparr>fw_writes := ws, fw_out := fw_out w @ take 0 buf\<rparr>)"
        using Write_error ne a(1) by (subst fd_write_loop.simps) (simp add: kernel_write_def)
      moreover have "\<exists>k. take 0 buf = take k buf" by blast
      ultimately show ?thesis by (intro exI [of _ None] exI [of _ ws] exI [of _ "take 0 buf"] conjI) (assumption, simp only: option.case)
    qed
  qed
qed

lemma ustream_fd_set_uloop_ok:
  assumes "loop_ok (s_world s)" "fd \<noteq> 0"
  shows "\<exists>w. ustream_fd_set_uloop sys fd wr s = Some (s\<lparr>s_world := w\<rparr>) \<and> loop_ok w \<and> read_side w = read_side (s_world s) \<and> fw_out w = fw_out (s_world s)"
proof -
  obtain flags where "ustream_fd_set_uloop sys fd wr s = (do { (_, u) \<leftarrow> uloop_fd_add sys fd flags (fw_loop (s_world s)); Some (s\<lparr>s_world := (s_world s)\<lparr>fw_loop := u\<rparr>\<rparr>) })"
    unfolding ustream_fd_set_uloop_def Let_def by blast
  moreover from uloop_fd_add_ok [OF assms, of sys flags] obtain ret u where "uloop_fd_add sys fd flags (fw_loop (s_world s)) = Some (ret, u)" "events_ok u" by blast
  ultimately show ?thesis by (intro exI [of _ "(s_world s)\<lparr>fw_loop := u\<rparr>"]) (simp add: read_side_def)
qed

text \<open>A descriptor object, and the contract of a stream implementation for the operations of \<open>ustream-fd.c\<close>.\<close>

locale fd_impl =
  fixes sys :: "'k uloop_sys" and fd :: addr and ops :: "('h, 'k, 'u) fd_stream_ops"
  assumes fd_nonnull: "fd \<noteq> 0"

sublocale fd_impl \<subseteq> io: stream_impl "fd_ops sys fd ops" loop_ok fw_out read_side
proof
  fix s :: "('h, 'k, 'u) fd_stream" and bs m
  assume ok: "loop_ok (s_world s)"
  show "\<exists>f w. op_set_read_blocked (fd_ops sys fd ops) = Some f \<and> f s = Some (s\<lparr>s_world := w\<rparr>) \<and> loop_ok w \<and>
      read_side w = read_side (s_world s) \<and> fw_out w = fw_out (s_world s)"
    using ustream_fd_set_uloop_ok [OF ok fd_nonnull, of sys False] by (simp add: fd_ops_def Let_def ustream_fd_set_read_blocked_def)
  from fd_write_loop_ok [of bs 0 "s_world s"] obtain r ws wd where
    r: "fd_write_loop bs 0 (s_world s) = Some (r, (s_world s)\<lparr>fw_writes := ws, fw_out := fw_out (s_world s) @ wd\<rparr>)"
      "case r of None \<Rightarrow> \<exists>k. wd = take k bs | Some (ret', left) \<Rightarrow> \<exists>n \<le> length bs. ret' = 0 + n \<and> left = drop n bs \<and> wd = take n bs" by blast
  let ?w = "(s_world s)\<lparr>fw_writes := ws, fw_out := fw_out (s_world s) @ wd\<rparr>"
  have w: "loop_ok ?w" "read_side ?w = read_side (s_world s)" using ok by (simp_all add: read_side_def)
  have op: "op_write (fd_ops sys fd ops) = ustream_fd_write sys fd" by (simp add: fd_ops_def Let_def)
  show "\<exists>n w. op_write (fd_ops sys fd ops) bs m s = Some (n, s\<lparr>s_world := w\<rparr>) \<and> loop_ok w \<and> read_side w = read_side (s_world s) \<and> n \<le> int (length bs) \<and>
      (0 \<le> n \<longrightarrow> fw_out w = fw_out (s_world s) @ take (nat n) bs) \<and> (n < 0 \<longrightarrow> (\<exists>k. fw_out w = fw_out (s_world s) @ take k bs))"
  proof (cases "bs = []")
    case True
    then show ?thesis using ok unfolding op by (intro exI [of _ 0] exI [of _ "s_world s"]) (simp add: ustream_fd_write_def)
  next
    case ne: False
    show ?thesis
    proof (cases r)
      case None
      then have "op_write (fd_ops sys fd ops) bs m s = Some (- 1, s\<lparr>s_world := ?w\<rparr>)" using ne r(1) unfolding op by (simp add: ustream_fd_write_def)
      then show ?thesis using None r(2) w by (intro exI [of _ "- 1"] exI [of _ ?w]) auto
    next
      case (Some x)
      then obtain n where n: "x = (n, drop n bs)" "n \<le> length bs" "wd = take n bs" using r(2) by auto
      have "loop_ok (s_world (s\<lparr>s_world := ?w\<rparr>))" using w by simp
      from ustream_fd_set_uloop_ok [OF this fd_nonnull, of sys True] obtain w' where
        w': "ustream_fd_set_uloop sys fd True (s\<lparr>s_world := ?w\<rparr>) = Some (s\<lparr>s_world := w'\<rparr>)" "loop_ok w'" "read_side w' = read_side (s_world s)" "fw_out w' = fw_out (s_world s) @ wd"
        using w(2) by auto
      show ?thesis
      proof (cases "drop n bs = []")
        case True
        then have "op_write (fd_ops sys fd ops) bs m s = Some (int n, s\<lparr>s_world := ?w\<rparr>)" using ne r(1) Some n(1) unfolding op by (simp add: ustream_fd_write_def)
        then show ?thesis using n w by (intro exI [of _ "int n"] exI [of _ ?w]) simp
      next
        case False
        then have "op_write (fd_ops sys fd ops) bs m s = Some (int n, s\<lparr>s_world := w'\<rparr>)"
          using ne r(1) Some n(1) w'(1) unfolding op by (simp add: ustream_fd_write_def)
        then show ?thesis using n w'(2-4) by (intro exI [of _ "int n"] exI [of _ w']) simp
      qed
    qed
  qed
qed

context fd_impl
begin

lemmas fd_write_ok = io.ustream_write_ok
lemmas fd_vprintf_ok = io.ustream_vprintf_ok
lemmas fd_consume_ok = io.ustream_consume_ok

end

section \<open>The users of a stream\<close>

text \<open>What the reader has taken, with \<open>taken\<close>, and what is buffered stay the bytes that have come; the read side of
  the descriptor is as before.\<close>

definition received :: "('u \<Rightarrow> bytes) \<Rightarrow> ('h, 'k, 'u) fd_stream \<Rightarrow> ('h, 'k, 'u) fd_stream \<Rightarrow> bool" where
  "received taken s s' \<longleftrightarrow> stream_ok s' \<and> loop_ok (s_world s') \<and> fw_reads (s_world s') = fw_reads (s_world s) \<and> fw_in (s_world s') = fw_in (s_world s) \<and>
     taken (fw_user (s_world s')) @ contents (s_r s') = taken (fw_user (s_world s)) @ contents (s_r s)"

locale fd_user = fd_impl sys fd ops for sys :: "'k uloop_sys" and fd :: addr and ops :: "('h, 'k, 'u) fd_stream_ops" +
  fixes taken :: "'u \<Rightarrow> bytes"
  assumes notify_read_law: "stream_ok s \<Longrightarrow> loop_ok (s_world s) \<Longrightarrow> \<exists>s'. notify_n (op_notify_read ops) n s = Some s' \<and> received taken s s'"
    and notify_write_law: "loop_ok (s_world s) \<Longrightarrow> \<exists>w. notify_n (op_notify_write ops) n s = Some (s\<lparr>s_world := w\<rparr>) \<and> loop_ok w \<and> fw_out w = fw_out (s_world s)"

lemma fd_ops_notify [simp]: "op_notify_read (fd_ops sys fd ops) = op_notify_read ops" "op_notify_write (fd_ops sys fd ops) = op_notify_write ops"
  by (simp_all add: fd_ops_def Let_def)

definition answer_size :: "read_answer \<Rightarrow> nat" where
  "answer_size r = (case r of Read_data bs \<Rightarrow> Suc (length bs) | _ \<Rightarrow> 1)"

text \<open>An answer that ends the loop, and the size of the answers before the first one of them.\<close>

definition stopping :: "read_answer \<Rightarrow> bool" where
  "stopping r \<longleftrightarrow> r \<in> {Read_eagain, Read_error, Read_data []}"

definition reads_stop :: "read_answer stream \<Rightarrow> bool" where
  "reads_stop rs \<longleftrightarrow> (\<exists>k. stopping (rs !! k))"

definition reads_size :: "read_answer stream \<Rightarrow> nat" where
  "reads_size rs = sum_list (map answer_size (stake (LEAST k. stopping (rs !! k)) rs))"

lemma reads_Cons:
  assumes "\<not> stopping r"
  shows "reads_stop (r ## rs) \<longleftrightarrow> reads_stop rs" and "reads_stop rs \<Longrightarrow> reads_size (r ## rs) = answer_size r + reads_size rs"
proof -
  show "reads_stop (r ## rs) \<longleftrightarrow> reads_stop rs"
    unfolding reads_stop_def using assms by (metis not0_implies_Suc snth.simps stream.sel)
  assume "reads_stop rs"
  then obtain k where "stopping ((r ## rs) !! Suc k)" by (auto simp: reads_stop_def)
  then have "(LEAST k. stopping ((r ## rs) !! k)) = Suc (LEAST k. stopping (rs !! k))"
    using Least_Suc [of "\<lambda>k. stopping ((r ## rs) !! k)" "Suc k"] assms by simp
  then show "reads_size (r ## rs) = answer_size r + reads_size rs" by (simp add: reads_size_def)
qed

lemma kernel_read_ok:
  assumes "kernel_read n w = (r, w')" "0 < n"
  shows "\<exists>rs bs. w' = w\<lparr>fw_reads := rs, fw_in := fw_in w @ bs\<rparr> \<and> bs = (case r of Read_data bs \<Rightarrow> bs | _ \<Rightarrow> []) \<and> length bs \<le> n \<and>
    (reads_stop (fw_reads w) \<and> (r = Read_eintr \<or> bs \<noteq> []) \<longrightarrow> reads_stop rs \<and> reads_size rs < reads_size (fw_reads w))"
proof -
  obtain a as where as: "fw_reads w = a ## as" by (metis stream.collapse)
  show ?thesis
  proof (cases a)
    case (Read_data bs)
    let ?rs = "if length bs \<le> n then as else Read_data (drop n bs) ## as"
    have *: "r = Read_data (take n bs)" "w' = w\<lparr>fw_reads := ?rs, fw_in := fw_in w @ take n bs\<rparr>" using assms(1) as Read_data by (simp_all add: kernel_read_def)
    have "reads_stop ?rs \<and> reads_size ?rs < reads_size (fw_reads w)" if stop: "reads_stop (fw_reads w)" and "bs \<noteq> []"
    proof -
      have a: "\<not> stopping (Read_data bs)" using \<open>bs \<noteq> []\<close> by (simp add: stopping_def)
      have as': "reads_stop as" "reads_size (fw_reads w) = Suc (length bs) + reads_size as"
        using stop reads_Cons [OF a, of as] as Read_data by (simp_all add: answer_size_def)
      show ?thesis
      proof (cases "length bs \<le> n")
        case False
        then have "\<not> stopping (Read_data (drop n bs))" by (simp add: stopping_def)
        from reads_Cons [OF this, of as] as' False assms(2) show ?thesis by (simp add: answer_size_def)
      qed (use as' in simp)
    qed
    then show ?thesis using * by (intro exI [of _ ?rs] exI [of _ "take n bs"]) auto
  next
    case Read_eintr
    have "\<not> stopping Read_eintr" by (simp add: stopping_def)
    from reads_Cons [OF this, of as] show ?thesis using assms(1) as Read_eintr
      by (intro exI [of _ as] exI [of _ "[] :: bytes"]) (auto simp: kernel_read_def answer_size_def)
  qed (use assms(1) as in \<open>auto simp: kernel_read_def intro!: exI [of _ as] exI [of _ "[] :: bytes"]\<close>)
qed

context fd_user
begin

lemma write_pending_ok:
  assumes ok: "stream_ok s" "loop_ok (s_world s)" "\<not> s_write_error s"
  shows "\<exists>b s'. ustream_write_pending (fd_ops sys fd ops) s = Some (b, s') \<and> stream_ok s' \<and> loop_ok (s_world s') \<and> (b \<longleftrightarrow> contents (s_w s') = []) \<and>
    (if s_write_error s' then s_state_change s' \<and> (\<exists>k. fw_out (s_world s') = fw_out (s_world s) @ take k (contents (s_w s)))
     else fw_out (s_world s') @ contents (s_w s') = fw_out (s_world s) @ contents (s_w s)) \<and>
    (s_eof s \<and> contents (s_w s) \<noteq> [] \<and> b \<longrightarrow> s_state_change s')"
proof -
  from io.ustream_pending_loop_ok [OF ok(1,3,2), of 0] obtain n k l w s1 where
    l: "ustream_pending_loop (fd_ops sys fd ops) 0 s = Some (0 + int n, s1)" "n \<le> length (contents (s_w s))" "loop_ok w"
      "s1 \<in> {s\<lparr>s_w := l, s_world := w\<rparr>, ustream_write_error (s\<lparr>s_w := l, s_world := w\<rparr>)}" "list_ok (s_string_data s) l"
      "contents l = drop n (contents (s_w s))" "fw_out w = fw_out (s_world s) @ take k (contents (s_w s))" "\<not> s_write_error s1 \<longrightarrow> k = n" by blast
  have s1: "s_world s1 = w" "s_w s1 = l" "s_r s1 = s_r s" "s_string_data s1 = s_string_data s" "s_eof s1 = s_eof s" "s_write_error s1 \<longrightarrow> s_state_change s1"
    using l(4) ok(3) by auto
  have ok1: "stream_ok s1" using l(5) s1 stream_okD(1) [OF ok(1)] by (simp add: stream_ok_def)
  from notify_write_law [of s1 "int n"] l(3) s1(1) obtain w2 where
    w2: "notify_n (op_notify_write ops) (int n) s1 = Some (s1\<lparr>s_world := w2\<rparr>)" "loop_ok w2" "fw_out w2 = fw_out w" by auto
  define s2 where "s2 = (if s_eof s \<and> int n \<noteq> 0 \<and> l_data_bytes l = 0 then ustream_state_change (s1\<lparr>s_world := w2\<rparr>) else s1\<lparr>s_world := w2\<rparr>)"
  have nz: "l_data_bytes l = 0 \<longleftrightarrow> contents l = []" using list_okD(2) [OF l(5)] by simp
  have "ustream_write_pending (fd_ops sys fd ops) s = Some (l_data_bytes l = 0, s2)"
    using ok(3) l(1) w2(1) s1 by (simp add: ustream_write_pending_def s2_def ustream_state_change_def)
  moreover have s2: "s_world s2 = w2" "s_w s2 = l" "s_write_error s2 = s_write_error s1" "s_state_change s1 \<longrightarrow> s_state_change s2"
    using s1 by (auto simp: s2_def ustream_state_change_def)
  moreover have "stream_ok s2" using ok1 by (auto simp: s2_def ustream_state_change_def stream_ok_def)
  moreover have "fw_out w2 @ contents l = fw_out (s_world s) @ contents (s_w s)" if "\<not> s_write_error s1"
    using that l(6-8) w2(3) by simp
  moreover have "s_state_change s2" if "s_eof s" "contents (s_w s) \<noteq> []" "contents l = []"
    using that l(2,6) nz by (auto simp: s2_def ustream_state_change_def)
  ultimately show ?thesis using w2(2,3) l(7) nz s1(6) by (intro exI [of _ "l_data_bytes l = 0"] exI [of _ s2]) auto
qed

lemma fd_read_pending_ok:
  assumes "stream_ok s" "loop_ok (s_world s)" "reads_stop (fw_reads (s_world s))"
  shows "\<exists>b s' bs. ustream_fd_read_pending sys fd (fd_ops sys fd ops) m s = Some (b, s') \<and> stream_ok s' \<and> loop_ok (s_world s') \<and>
    fw_in (s_world s') = fw_in (s_world s) @ bs \<and> (b \<longleftrightarrow> m \<or> bs \<noteq> []) \<and>
    taken (fw_user (s_world s')) @ contents (s_r s') = taken (fw_user (s_world s)) @ contents (s_r s) @ bs"
  using assms
proof (induction "reads_size (fw_reads (s_world s))" arbitrary: s m rule: less_induct)
  case less
  from io.ustream_reserve_ok [OF less.prems(1,2), of 1] obtain r l b w where
    r: "ustream_reserve (fd_ops sys fd ops) 1 s = Some (r, s\<lparr>s_r := l, s_read_blocked := b, s_world := w\<rparr>)" "list_ok (s_string_data s) l"
      "contents l = contents (s_r s)" "loop_ok w" "read_side w = read_side (s_world s)" "case r of None \<Rightarrow> bit b 1 | Some (d, room) \<Rightarrow> b = s_read_blocked s \<and> room_at l d room" by blast
  define s1 where "s1 = s\<lparr>s_r := l, s_read_blocked := b, s_world := w\<rparr>"
  have s1: "stream_ok s1" "loop_ok (s_world s1)" "s_r s1 = l" "s_world s1 = w" "s_string_data s1 = s_string_data s" "s_w s1 = s_w s"
    using r(2,4) stream_okD(2) [OF less.prems(1)] by (simp_all add: s1_def stream_ok_def)
  have rs: "fw_reads w = fw_reads (s_world s)" "fw_in w = fw_in (s_world s)" "fw_user w = fw_user (s_world s)" using r(5) by (simp_all add: read_side_def)
  note res = r(1) [folded s1_def]
  show ?case
  proof (cases r)
    case None
    then have "ustream_fd_read_pending sys fd (fd_ops sys fd ops) m s = Some (m, s1)" using res by (subst ustream_fd_read_pending.simps) simp
    then show ?thesis using s1 rs r(3) by (intro exI [of _ m] exI [of _ s1] exI [of _ "[]"]) simp
  next
    case (Some x)
    then obtain d room where x: "r = Some (d, room)" "room_at l d room" using r(6) by (cases x) auto
    then have "0 < room" by (auto simp: room_at_def)
    obtain a w1 where a: "kernel_read room w = (a, w1)" by fastforce
    from kernel_read_ok [OF a \<open>0 < room\<close>] obtain rs1 bs where
      k: "w1 = w\<lparr>fw_reads := rs1, fw_in := fw_in w @ bs\<rparr>" "bs = (case a of Read_data bs \<Rightarrow> bs | _ \<Rightarrow> [])" "length bs \<le> room"
        "a = Read_eintr \<or> bs \<noteq> [] \<longrightarrow> reads_stop rs1 \<and> reads_size rs1 < reads_size (fw_reads w)" using less.prems(3) rs(1) by auto
    define s2 where "s2 = s1\<lparr>s_world := w1\<rparr>"
    have s2: "stream_ok s2" "loop_ok (s_world s2)" "s_r s2 = l" "fw_reads (s_world s2) = rs1" "fw_in (s_world s2) = fw_in (s_world s) @ bs" "fw_user (s_world s2) = fw_user (s_world s)"
      using s1 k(1) rs by (simp_all add: s2_def)
    have step: "ustream_fd_read_pending sys fd (fd_ops sys fd ops) m s =
      (if a = Read_eintr then ustream_fd_read_pending sys fd (fd_ops sys fd ops) m s2 else if a = Read_eagain then Some (m, s2)
       else if bs = [] then do { s \<leftarrow> ustream_fd_set_uloop sys fd False ((if \<not> s_eof s2 then ustream_state_change s2 else s2)\<lparr>s_eof := True\<rparr>); Some (m, s) }
       else do { s \<leftarrow> do { s \<leftarrow> ustream_store d bs s2; ustream_fill_read (fd_ops sys fd ops) (length bs) s }; ustream_fd_read_pending sys fd (fd_ops sys fd ops) True s })"
      using res x(1) a s1(4) k(2) by (subst ustream_fd_read_pending.simps) (simp add: s2_def Let_def)
    consider "a = Read_eintr" | "a = Read_eagain" | "a \<noteq> Read_eintr" "a \<noteq> Read_eagain" "bs = []" | "a \<noteq> Read_eintr" "a \<noteq> Read_eagain" "bs \<noteq> []" by blast
    then show ?thesis
    proof cases
      case 1
      then have "reads_size (fw_reads (s_world s2)) < reads_size (fw_reads (s_world s))" "bs = []" "reads_stop (fw_reads (s_world s2))"
        using k(2,4) s2(4) rs(1) by simp_all
      from less.hyps [OF this(1) s2(1,2) this(3), of m] this(2) 1 step s2(3-6) r(3) show ?thesis by simp
    next
      case 2
      then show ?thesis using step s2 r(3) k(2) by (intro exI [of _ m] exI [of _ s2] exI [of _ "[]"]) simp
    next
      case 3
      define s3 where "s3 = (if \<not> s_eof s2 then ustream_state_change s2 else s2)\<lparr>s_eof := True\<rparr>"
      have s3: "stream_ok s3" "s_world s3 = s_world s2" "s_r s3 = l" using s2(1,3) by (simp_all add: s3_def ustream_state_change_def stream_ok_def)
      have "loop_ok (s_world s3)" using s2(2) s3(2) by simp
      from ustream_fd_set_uloop_ok [OF this fd_nonnull, of sys False] obtain w3 where
        w3: "ustream_fd_set_uloop sys fd False s3 = Some (s3\<lparr>s_world := w3\<rparr>)" "loop_ok w3" "read_side w3 = read_side (s_world s2)" using s3(2) by auto
      have "ustream_fd_read_pending sys fd (fd_ops sys fd ops) m s = Some (m, s3\<lparr>s_world := w3\<rparr>)" using step 3 w3(1) by (simp flip: s3_def)
      then show ?thesis using s3 w3(2,3) s2 r(3) 3(3)
        by (intro exI [of _ m] exI [of _ "s3\<lparr>s_world := w3\<rparr>"] exI [of _ "[]"]) (simp add: read_side_def)
    next
      case 4
      have "room_at (s_r s2) d room" using x(2) s2(3) by simp
      from ustream_store_fill [OF s2(1) this k(3), of "fd_ops sys fd ops"] obtain l3 where
        l3: "(do { s \<leftarrow> ustream_store d bs s2; ustream_fill_read (fd_ops sys fd ops) (length bs) s }) = notify_n (op_notify_read ops) (int (length bs)) (s2\<lparr>s_r := l3\<rparr>)"
          "list_ok (s_string_data s2) l3" "contents l3 = contents l @ bs" using s2(3) by auto
      have "stream_ok (s2\<lparr>s_r := l3\<rparr>)" "loop_ok (s_world (s2\<lparr>s_r := l3\<rparr>))" using l3(2) s2(2) stream_okD(2) [OF s2(1)] by (simp_all add: stream_ok_def)
      from notify_read_law [OF this, of "int (length bs)"] obtain s4 where
        s4: "notify_n (op_notify_read ops) (int (length bs)) (s2\<lparr>s_r := l3\<rparr>) = Some s4" "received taken (s2\<lparr>s_r := l3\<rparr>) s4" by blast
      have s4': "stream_ok s4" "loop_ok (s_world s4)" "fw_reads (s_world s4) = rs1" "fw_in (s_world s4) = fw_in (s_world s) @ bs"
        "taken (fw_user (s_world s4)) @ contents (s_r s4) = taken (fw_user (s_world s)) @ contents (s_r s) @ bs"
        using s4(2) s2 l3(3) r(3) by (simp_all add: received_def)
      have "reads_size (fw_reads (s_world s4)) < reads_size (fw_reads (s_world s))" "reads_stop (fw_reads (s_world s4))" using k(4) 4 s4'(3) rs(1) by simp_all
      from less.hyps [OF this(1) s4'(1,2) this(2), of True] obtain b5 s5 bs5 where
        "ustream_fd_read_pending sys fd (fd_ops sys fd ops) True s4 = Some (b5, s5)" "stream_ok s5" "loop_ok (s_world s5)"
        "fw_in (s_world s5) = fw_in (s_world s4) @ bs5" b5 "taken (fw_user (s_world s5)) @ contents (s_r s5) = taken (fw_user (s_world s4)) @ contents (s_r s4) @ bs5" by auto
      moreover have "ustream_fd_read_pending sys fd (fd_ops sys fd ops) m s = ustream_fd_read_pending sys fd (fd_ops sys fd ops) True s4" using step 4 l3(1) s4(1) by simp
      ultimately show ?thesis using s4'(4,5) 4(3) by (intro exI [of _ True] exI [of _ s5] exI [of _ "bs @ bs5"]) (simp flip: append_assoc)
    qed
  qed
qed

end

section \<open>A reader\<close>

text \<open>A user that takes what \<open>ustream_get_read_buf\<close> gives on every notification and keeps it.\<close>

definition no_ops :: "('h, 'k, 'u) fd_stream_ops" where
  "no_ops = \<lparr>op_write = (\<lambda>_ _ _. None), op_notify_read = None, op_notify_write = None, op_notify_state = None, op_set_read_blocked = None, op_free = None, op_poll = None\<rparr>"

definition collect :: "'k uloop_sys \<Rightarrow> addr \<Rightarrow> int \<Rightarrow> ('h, 'k, bytes) fd_stream \<Rightarrow> ('h, 'k, bytes) fd_stream option" where
  "collect sys fd n s = do {
     buf \<leftarrow> ustream_get_read_buf s;
     case buf of
       None \<Rightarrow> Some s
     | Some bs \<Rightarrow> do {
         s \<leftarrow> ustream_consume (fd_ops sys fd no_ops) (length bs) s;
         Some (s\<lparr>s_world := (s_world s)\<lparr>fw_user := fw_user (s_world s) @ bs\<rparr>\<rparr>)
       }
   }"

definition collect_ops :: "'k uloop_sys \<Rightarrow> addr \<Rightarrow> ('h, 'k, bytes) fd_stream_ops" where
  "collect_ops sys fd = no_ops\<lparr>op_notify_read := Some (collect sys fd)\<rparr>"

lemma collect_received:
  assumes ok: "stream_ok s" "loop_ok (s_world s)" and fd: "fd \<noteq> 0"
  shows "\<exists>s'. collect sys fd n s = Some s' \<and> received (\<lambda>bs. bs) s s'"
proof -
  from ustream_get_read_buf_ok [OF ok(1)] obtain r where
    r: "ustream_get_read_buf s = Some r" "case r of None \<Rightarrow> contents (s_r s) = [] | Some bs \<Rightarrow> bs \<noteq> [] \<and> (\<exists>rest. contents (s_r s) = bs @ rest)" by blast
  show ?thesis
  proof (cases r)
    case None
    then show ?thesis using r(1) ok by (simp add: collect_def received_def)
  next
    case (Some bs)
    then obtain rest where rest: "contents (s_r s) = bs @ rest" using r(2) by auto
    have len: "length bs \<le> length (contents (s_r s))" using rest by simp
    from fd_impl.fd_consume_ok [OF fd_impl.intro [OF fd] ok len, of sys no_ops] obtain l b w where
      c: "ustream_consume (fd_ops sys fd no_ops) (length bs) s = Some (s\<lparr>s_r := l, s_read_blocked := b, s_world := w\<rparr>)" "list_ok (s_string_data s) l"
        "contents l = drop (length bs) (contents (s_r s))" "loop_ok w" "read_side w = read_side (s_world s)" by blast
    let ?s = "s\<lparr>s_r := l, s_read_blocked := b, s_world := w\<lparr>fw_user := fw_user w @ bs\<rparr>\<rparr>"
    have "stream_ok ?s" using c(2) stream_okD(2) [OF ok(1)] by (simp add: stream_ok_def)
    moreover have "fw_user w @ bs @ contents l = fw_user (s_world s) @ contents (s_r s)" using c(3,5) rest by (simp add: read_side_def)
    ultimately have "received (\<lambda>bs. bs) s ?s" using c(4,5) by (simp add: received_def read_side_def)
    then show ?thesis using r(1) Some c(1) by (simp add: collect_def)
  qed
qed

interpretation collector: fd_user sys 5 "collect_ops sys 5" "\<lambda>bs. bs" for sys :: "'k uloop_sys"
proof
  fix s :: "('h, 'k, bytes) fd_stream" and n
  show "(5 :: addr) \<noteq> 0" by simp
  show "\<exists>s'. notify_n (op_notify_read (collect_ops sys 5)) n s = Some s' \<and> received (\<lambda>bs. bs) s s'" if "stream_ok s" "loop_ok (s_world s)"
    using collect_received [OF that, of 5 sys n] by (simp add: notify_n_def collect_ops_def)
  show "\<exists>w. notify_n (op_notify_write (collect_ops sys 5)) n s = Some (s\<lparr>s_world := w\<rparr>) \<and> loop_ok w \<and> fw_out w = fw_out (s_world s)" if "loop_ok (s_world s)"
    using that by (intro exI [of _ "s_world s"]) (simp add: notify_n_def collect_ops_def no_ops_def)
qed

section \<open>The properties of streams\<close>

text \<open>C28: writing to a stream.  On a stream without a write error \<open>ustream_write\<close> and \<open>ustream_vprintf\<close> return, and either report that
  the descriptor has failed, with the stream marked and its state change announced, or accept a prefix of the data: what has left
  through the descriptor followed by what is queued is the same as before followed by that prefix.  A stream with unlimited
  buffers accepts all of it.\<close>

theorem ustream_write_correct:
  assumes "fd \<noteq> 0" "stream_ok s" "\<not> s_write_error s" "loop_ok (s_world s)"
  shows "(\<exists>r s'. ustream_write (fd_ops sys fd ops) data m s = Some (r, s') \<and> accepted fw_out s data r s' \<and> loop_ok (s_world s')) \<and>
    (\<exists>r s'. ustream_vprintf (fd_ops sys fd ops) data s = Some (r, s') \<and> accepted fw_out s data r s' \<and> loop_ok (s_world s'))"
  using fd_impl.fd_write_ok [OF fd_impl.intro [OF assms(1)] assms(2-4)] fd_impl.fd_vprintf_ok [OF fd_impl.intro [OF assms(1)] assms(2-4)] by (intro conjI)

definition chain_sample :: "int \<Rightarrow> ustream_buf_list" where
  "chain_sample n = \<lparr>l_bufs = [], l_data_tail = None, l_data_bytes = 0, l_min_buffers = 1, l_max_buffers = n, l_buffer_len = 2, l_buffers = 0\<rparr>"

definition stream_sample :: "(fd_action list, unit, bytes) fd_stream" where
  "stream_sample = \<lparr>s_r = chain_sample 2, s_w = chain_sample (- 1), s_string_data = True, s_write_error = False, s_eof = False, s_eof_write_done = False,
     s_read_blocked = 0, s_state_change = False, s_world = \<lparr>fw_loop = events_sample, fw_reads = [Read_data [1, 2, 3, 4, 5], Read_eintr, Read_data [6]] @- sconst Read_eagain, fw_in = [],
       fw_writes = [Write_len 1, Write_eintr, Write_eagain], fw_out = [], fw_user = []\<rparr>\<rparr>"

lemma stream_sample_ok: "stream_ok stream_sample" "\<not> s_write_error stream_sample" "loop_ok (s_world stream_sample)"
  by (simp_all add: stream_ok_def list_ok_def chain_ok_def stream_sample_def chain_sample_def events_ok_def events_sample_def)

theorem ustream_write_correct_witness:
  "\<exists>r s'. ustream_write (fd_ops sys_sample 5 no_ops) [1, 2, 3] False stream_sample = Some (r, s') \<and>
     (r < 0 \<or> r = 3 \<and> fw_out (s_world s') @ contents (s_w s') = [1, 2, 3])"
proof -
  from ustream_write_correct [OF _ stream_sample_ok, of 5 sys_sample no_ops "[1, 2, 3]" False] obtain r s' where
    "ustream_write (fd_ops sys_sample 5 no_ops) [1, 2, 3] False stream_sample = Some (r, s')" "accepted fw_out stream_sample [1, 2, 3] r s'" by auto
  moreover have "fw_out (s_world stream_sample) = []" "contents (s_w stream_sample) = []" "l_max_buffers (s_w stream_sample) \<le> 0"
    by (simp_all add: stream_sample_def chain_sample_def)
  ultimately show ?thesis by (intro exI [of _ r] exI [of _ s']) (auto simp: accepted_def)
qed

text \<open>C29: writing what is queued.  With a \<open>notify_write\<close> that keeps its contract, \<open>ustream_write_pending\<close> returns whether the queue is empty;
  without a write error no byte is lost, duplicated or reordered, a write error is announced, and so is the end of a queue when the
  read side has ended.\<close>

theorem ustream_write_pending_correct:
  assumes "fd_user fd ops taken" "stream_ok s" "loop_ok (s_world s)" "\<not> s_write_error s"
  shows "\<exists>b s'. ustream_write_pending (fd_ops sys fd ops) s = Some (b, s') \<and> stream_ok s' \<and> loop_ok (s_world s') \<and> (b \<longleftrightarrow> contents (s_w s') = []) \<and>
    (if s_write_error s' then s_state_change s' \<and> (\<exists>k. fw_out (s_world s') = fw_out (s_world s) @ take k (contents (s_w s)))
     else fw_out (s_world s') @ contents (s_w s') = fw_out (s_world s) @ contents (s_w s)) \<and>
    (s_eof s \<and> contents (s_w s) \<noteq> [] \<and> b \<longrightarrow> s_state_change s')"
  by (rule fd_user.write_pending_ok [OF assms])

theorem ustream_write_pending_correct_witness:
  "\<exists>b s'. ustream_write_pending (fd_ops sys_sample 5 (collect_ops sys_sample 5)) stream_sample = Some (b, s') \<and> stream_ok s' \<and> (b \<longleftrightarrow> contents (s_w s') = [])"
  using ustream_write_pending_correct [OF collector.fd_user_axioms stream_sample_ok(1,3,2)] by blast

text \<open>C30: reading from a descriptor.  With a \<open>notify_read\<close> that keeps its contract, such as taking data with \<open>ustream_consume\<close>, the loop of
  \<open>ustream_fd_read_pending\<close> ends if some answer of \<open>read\<close>, after any number of interrupted calls and of pieces of data, is that there is no
  more data now, the end of the file or an error; a sender that never pauses is excluded, since with a reader that keeps up the loop would not
  end.  The bytes that it got are appended, in order, to what the reader has taken and what is buffered, and it reports whether there were
  any.\<close>

theorem ustream_fd_read_pending_correct:
  assumes "fd_user fd ops taken" "stream_ok s" "loop_ok (s_world s)" "reads_stop (fw_reads (s_world s))"
  shows "\<exists>b s' bs. ustream_fd_read_pending sys fd (fd_ops sys fd ops) m s = Some (b, s') \<and> stream_ok s' \<and> loop_ok (s_world s') \<and>
    fw_in (s_world s') = fw_in (s_world s) @ bs \<and> (b \<longleftrightarrow> m \<or> bs \<noteq> []) \<and>
    taken (fw_user (s_world s')) @ contents (s_r s') = taken (fw_user (s_world s)) @ contents (s_r s) @ bs"
  by (rule fd_user.fd_read_pending_ok [OF assms])

theorem ustream_fd_read_pending_correct_witness:
  "\<exists>b s' bs. ustream_fd_read_pending sys_sample 5 (fd_ops sys_sample 5 (collect_ops sys_sample 5)) False stream_sample = Some (b, s') \<and>
     fw_in (s_world s') = bs \<and> (b \<longleftrightarrow> bs \<noteq> []) \<and> fw_user (s_world s') @ contents (s_r s') = bs"
proof -
  have "fw_in (s_world stream_sample) = []" "fw_user (s_world stream_sample) = []" "contents (s_r stream_sample) = []"
    by (simp_all add: stream_sample_def chain_sample_def)
  moreover have "reads_stop (fw_reads (s_world stream_sample))"
    unfolding reads_stop_def by (intro exI [of _ 3]) (simp add: stream_sample_def stopping_def numeral_3_eq_3)
  ultimately show ?thesis
    using ustream_fd_read_pending_correct [OF collector.fd_user_axioms [of sys_sample] stream_sample_ok(1,3), where sys = sys_sample and m = False] by auto
qed

end
