(* ===== verification/Safe_List.thy ===== *)
theory Safe_List
  imports Ulist "HOL-Library.Sublist"
begin

text \<open>
  Lists that may be changed while they are iterated (\<open>libubox/safe_list.c\<close>), on top of \<open>Ulist\<close>.  Every
  running iteration has an iterator on the stack, which is chained to the node that it will visit
  next; deleting a node hands its iterators on to the node behind it.

  The pointers to pointers of the code are references: the field \<open>i\<close> of a node or the field \<open>next_i\<close> of an
  iterator.  \<open>it_sp\<close> is the stack of iterators.
\<close>

section \<open>Operations\<close>

datatype iref = Slot addr | Link addr

record safe_heap = list_heap +
  sl_i :: "addr \<Rightarrow> addr"
  it_head :: "addr \<Rightarrow> iref"
  it_next_i :: "addr \<Rightarrow> addr"
  it_next :: "addr \<Rightarrow> addr"
  it_sp :: addr

fun ref_val :: "'a safe_heap_scheme \<Rightarrow> iref \<Rightarrow> addr" where
  "ref_val s (Slot p) = sl_i s p"
| "ref_val s (Link i) = it_next_i s i"

fun set_ref :: "iref \<Rightarrow> addr \<Rightarrow> 'a safe_heap_scheme \<Rightarrow> 'a safe_heap_scheme" where
  "set_ref (Slot p) v s = s\<lparr>sl_i := (sl_i s)(p := v)\<rparr>"
| "set_ref (Link i) v s = s\<lparr>it_next_i := (it_next_i s)(i := v)\<rparr>"

definition safe_list_set_iterator :: "addr \<Rightarrow> addr \<Rightarrow> 'a safe_heap_scheme \<Rightarrow> 'a safe_heap_scheme option" where
  "safe_list_set_iterator list i s = do {
     nx \<leftarrow> get_next list s;
     if nx = 0 then None
     else let
       next_i = sl_i s nx;
       s = s\<lparr>sl_i := (sl_i s)(nx := i), it_next := (it_next s)(i := nx), it_head := (it_head s)(i := Slot nx), it_next_i := (it_next_i s)(i := next_i)\<rparr> in
     Some (if next_i \<noteq> 0 then s\<lparr>it_head := (it_head s)(next_i := Link i)\<rparr> else s)
   }"

definition safe_list_del_iterator :: "addr \<Rightarrow> 'a safe_heap_scheme \<Rightarrow> 'a safe_heap_scheme" where
  "safe_list_del_iterator i s = (let s = set_ref (it_head s i) (it_next_i s i) s in
     if it_next_i s i \<noteq> 0 then s\<lparr>it_head := (it_head s)(it_next_i s i := it_head s i)\<rparr> else s)"

definition safe_list_move_iterator :: "addr \<Rightarrow> addr \<Rightarrow> 'a safe_heap_scheme \<Rightarrow> 'a safe_heap_scheme option" where
  "safe_list_move_iterator list i s = safe_list_set_iterator list i (safe_list_del_iterator i s)"

text \<open>\<open>cb\<close> is the callback with its context.\<close>

partial_function (option) for_each_loop ::
  "(addr \<Rightarrow> 'a safe_heap_scheme \<Rightarrow> (int \<times> 'a safe_heap_scheme) option) \<Rightarrow> addr \<Rightarrow> addr \<Rightarrow> addr \<Rightarrow> 'a safe_heap_scheme \<Rightarrow> (int \<times> 'a safe_heap_scheme) option" where
  "for_each_loop cb head i cur s =
     (if cur = head then Some (0, s)
      else do {
        (ret, s) \<leftarrow> cb cur s;
        if ret \<noteq> 0 then Some (ret, s)
        else do {
          let cur = it_next s i;
          s \<leftarrow> safe_list_move_iterator cur i s;
          for_each_loop cb head i cur s
        }
      })"

definition safe_list_for_each ::
  "(addr \<Rightarrow> 'a safe_heap_scheme \<Rightarrow> (int \<times> 'a safe_heap_scheme) option) \<Rightarrow> addr \<Rightarrow> 'a safe_heap_scheme \<Rightarrow> (int \<times> 'a safe_heap_scheme) option" where
  "safe_list_for_each cb head s = do {
     let i = it_sp s;
     let s = s\<lparr>it_sp := i + 1\<rparr>;
     cur \<leftarrow> get_next head s;
     s \<leftarrow> safe_list_set_iterator cur i s;
     (ret, s) \<leftarrow> for_each_loop cb head i cur s;
     Some (ret, (safe_list_del_iterator i s)\<lparr>it_sp := i\<rparr>)
   }"

definition safe_list_add :: "addr \<Rightarrow> addr \<Rightarrow> 'a safe_heap_scheme \<Rightarrow> 'a safe_heap_scheme option" where
  "safe_list_add list head s = (if list = 0 then None else list_add_tail list head (s\<lparr>sl_i := (sl_i s)(list := 0)\<rparr>))"

definition safe_list_add_first :: "addr \<Rightarrow> addr \<Rightarrow> 'a safe_heap_scheme \<Rightarrow> 'a safe_heap_scheme option" where
  "safe_list_add_first list head s = (if list = 0 then None else list_add list head (s\<lparr>sl_i := (sl_i s)(list := 0)\<rparr>))"

text \<open>The loop of \<open>safe_list_del\<close> over the iterators of the deleted node; it gives the reference to their end.\<close>

partial_function (option) retarget :: "addr \<Rightarrow> addr \<Rightarrow> iref \<Rightarrow> 'a safe_heap_scheme \<Rightarrow> (iref \<times> 'a safe_heap_scheme) option" where
  "retarget nx i tail s =
     (if i = 0 then Some (tail, s)
      else let s = s\<lparr>it_next := (it_next s)(i := nx)\<rparr> in retarget nx (it_next_i s i) (Link i) s)"

definition safe_list_del :: "addr \<Rightarrow> 'a safe_heap_scheme \<Rightarrow> 'a safe_heap_scheme option" where
  "safe_list_del list s = do {
     nx \<leftarrow> get_next list s;
     s \<leftarrow> list_del list s;
     if sl_i s list = 0 then Some s
     else do {
       let next_i = sl_i s nx;
       (tail, s) \<leftarrow> retarget nx (sl_i s list) (Slot nx) s;
       let s = s\<lparr>sl_i := (sl_i s)(nx := sl_i s list)\<rparr>;
       let s = s\<lparr>it_head := (it_head s)(sl_i s list := Slot nx)\<rparr>;
       let s = set_ref tail next_i s;
       let s = (if next_i \<noteq> 0 then s\<lparr>it_head := (it_head s)(next_i := tail)\<rparr> else s);
       Some (s\<lparr>sl_i := (sl_i s)(list := 0)\<rparr>)
     }
   }"

definition INIT_SAFE_LIST :: "addr \<Rightarrow> 'a safe_heap_scheme \<Rightarrow> 'a safe_heap_scheme option" where
  "INIT_SAFE_LIST head s = do { s \<leftarrow> INIT_LIST_HEAD head s; Some (s\<lparr>sl_i := (sl_i s)(head := 0)\<rparr>) }"

definition safe_list_empty :: "addr \<Rightarrow> 'a safe_heap_scheme \<Rightarrow> bool option" where
  "safe_list_empty head s = list_empty head s"

section \<open>Chains of iterators\<close>

text \<open>The iterators \<open>is\<close> hang on the reference \<open>r\<close>, one behind the other, with \<open>p\<close> as their next node; \<open>v\<close> is what follows.\<close>

fun iseg :: "'a safe_heap_scheme \<Rightarrow> iref \<Rightarrow> addr \<Rightarrow> addr list \<Rightarrow> addr \<Rightarrow> bool" where
  "iseg s r p [] v \<longleftrightarrow> ref_val s r = v"
| "iseg s r p (i # is) v \<longleftrightarrow> ref_val s r = i \<and> i \<noteq> 0 \<and> it_head s i = r \<and> it_next s i = p \<and> iseg s (Link i) p is v"

definition last_ref :: "iref \<Rightarrow> addr list \<Rightarrow> iref" where
  "last_ref r is = (if is = [] then r else Link (last is))"

lemma last_ref_simps [simp]: "last_ref r [] = r" "last_ref r (i # is) = last_ref (Link i) is"
  by (simp_all add: last_ref_def)

lemma last_ref_fresh: "l \<notin> set is \<Longrightarrow> Link l \<noteq> last_ref (Slot p) is"
  by (auto simp: last_ref_def)

lemma iseg_append: "iseg s r p (as @ bs) v \<longleftrightarrow> iseg s r p as (hd (bs @ [v])) \<and> iseg s (last_ref r as) p bs v"
  by (induction as arbitrary: r) (cases bs, auto)

lemma iseg_end: "iseg s r p is v \<Longrightarrow> ref_val s (last_ref r is) = v"
  by (induction "is" arbitrary: r) auto

lemma iseg_cong:
  assumes "ref_val s' r = ref_val s r"
    and "\<forall>i \<in> set is. it_head s' i = it_head s i \<and> it_next s' i = it_next s i \<and> it_next_i s' i = it_next_i s i"
  shows "iseg s' r p is v = iseg s r p is v"
  using assms by (induction "is" arbitrary: r) auto

lemma ref_set_ref [simp]: "ref_val (set_ref r v s) r' = (if r' = r then v else ref_val s r')"
  by (cases r; cases r') auto

lemma set_ref_frame [simp]:
  "it_head (set_ref r v s) = it_head s" "it_next (set_ref r v s) = it_next s" "it_sp (set_ref r v s) = it_sp s"
  "l_next (set_ref r v s) = l_next s" "l_prev (set_ref r v s) = l_prev s" "safe_heap.more (set_ref r v s) = safe_heap.more s"
  by (cases r; simp)+

text \<open>Cutting a chain off behind its end.\<close>

lemma iseg_set_end:
  assumes "iseg s r p is v" "distinct is" "\<forall>i \<in> set is. r \<noteq> Link i"
  shows "iseg (set_ref (last_ref r is) w s) r p is w"
  using assms
proof (induction "is" arbitrary: r)
  case (Cons i "is")
  have "Link i \<notin> Link ` set is" using Cons.prems(2) by auto
  then have "iseg (set_ref (last_ref (Link i) is) w s) (Link i) p is w" using Cons by (intro Cons.IH) auto
  moreover have "last_ref (Link i) is \<noteq> r" using Cons.prems(3) by (auto simp: last_ref_def)
  ultimately show ?case using Cons.prems by auto
qed simp

section \<open>The invariant\<close>

text \<open>The list with the head \<open>h\<close> and the nodes \<open>xs\<close>; \<open>C p\<close> are the iterators that visit \<open>p\<close> next.\<close>

definition active :: "addr \<Rightarrow> addr list \<Rightarrow> (addr \<Rightarrow> addr list) \<Rightarrow> addr set" where
  "active h xs C = (\<Union>p \<in> set (h # xs). set (C p))"

definition safe_ok :: "addr \<Rightarrow> addr list \<Rightarrow> (addr \<Rightarrow> addr list) \<Rightarrow> 'a safe_heap_scheme \<Rightarrow> bool" where
  "safe_ok h xs C s \<longleftrightarrow> ring s h xs \<and> (\<forall>p \<in> set (h # xs). iseg s (Slot p) p (C p) 0 \<and> distinct (C p)) \<and>
     (\<forall>p \<in> set (h # xs). \<forall>q \<in> set (h # xs). p \<noteq> q \<longrightarrow> set (C p) \<inter> set (C q) = {}) \<and>
     0 < it_sp s \<and> (\<forall>i \<in> active h xs C. 0 < i \<and> i < it_sp s)"

lemma safe_okD:
  assumes "safe_ok h xs C s"
  shows "ring s h xs" "p \<in> set (h # xs) \<Longrightarrow> iseg s (Slot p) p (C p) 0" "p \<in> set (h # xs) \<Longrightarrow> distinct (C p)"
    "p \<in> set (h # xs) \<Longrightarrow> q \<in> set (h # xs) \<Longrightarrow> p \<noteq> q \<Longrightarrow> set (C p) \<inter> set (C q) = {}" "0 < it_sp s" "i \<in> active h xs C \<Longrightarrow> 0 < i \<and> i < it_sp s"
  using assms unfolding safe_ok_def by blast+

lemma safe_okI:
  assumes "ring s h xs" "\<And>p. p \<in> set (h # xs) \<Longrightarrow> iseg s (Slot p) p (C p) 0" "\<And>p. p \<in> set (h # xs) \<Longrightarrow> distinct (C p)"
    "\<And>p q. p \<in> set (h # xs) \<Longrightarrow> q \<in> set (h # xs) \<Longrightarrow> p \<noteq> q \<Longrightarrow> set (C p) \<inter> set (C q) = {}" "0 < it_sp s"
    "\<And>i. i \<in> active h xs C \<Longrightarrow> 0 < i \<and> i < it_sp s"
  shows "safe_ok h xs C s"
  using assms unfolding safe_ok_def by blast

lemma ring_node: "ring s h xs \<Longrightarrow> p \<in> set (h # xs) \<Longrightarrow> p \<noteq> 0"
  unfolding ring_def by metis

lemma activeI: "p \<in> set (h # xs) \<Longrightarrow> i \<in> set (C p) \<Longrightarrow> i \<in> active h xs C"
  by (auto simp: active_def)

lemma active_upd:
  assumes "n \<in> set (h # xs)"
  shows "active h xs (C(n := as @ C n)) = active h xs C \<union> set as"
proof -
  have "set ((C(n := as @ C n)) q) = set (C q) \<union> (if q = n then set as else {})" for q by auto
  moreover have "(\<Union>q \<in> set (h # xs). if q = n then set as else {}) = set as" using assms by auto
  ultimately show ?thesis unfolding active_def by (simp only: UN_Un_distrib)
qed

lemma iseg_next: "iseg s r p is v \<Longrightarrow> i \<in> set is \<Longrightarrow> it_next s i = p"
  by (induction "is" arbitrary: r) auto

lemma iseg_first: "iseg s (Slot p) p is 0 \<Longrightarrow> sl_i s p = hd (is @ [0])"
  by (cases "is") auto

lemma iseg_nonzero: "iseg s r p is v \<Longrightarrow> i \<in> set is \<Longrightarrow> i \<noteq> 0"
  by (induction "is" arbitrary: r) auto

text \<open>The stack of iterators.\<close>

lemma safe_ok_sp:
  assumes ok: "safe_ok h xs C s" and n: "0 < n" "\<forall>i \<in> active h xs C. i < n"
  shows "safe_ok h xs C (s\<lparr>it_sp := n\<rparr>)"
proof -
  note D = safe_okD [OF ok]
  have "ref_val (s\<lparr>it_sp := n\<rparr>) r = ref_val s r" for r by (cases r) simp_all
  then have "iseg (s\<lparr>it_sp := n\<rparr>) (Slot p) p (C p) 0" if "p \<in> set (h # xs)" for p
    using D(2) [OF that] iseg_cong [of "s\<lparr>it_sp := n\<rparr>" "Slot p" s "C p" p 0] by simp
  moreover have "ring (s\<lparr>it_sp := n\<rparr>) h xs" using D(1) ring_cong [of h xs "s\<lparr>it_sp := n\<rparr>" s] by simp
  ultimately show ?thesis using D(3,4,6) n by (intro safe_okI) auto
qed

text \<open>Setting an iterator.\<close>

lemma safe_list_set_iterator_ok:
  fixes s :: "'a safe_heap_scheme"
  assumes ok: "safe_ok h xs C s" and nx: "get_next p s = Some nx" "nx \<in> set (h # xs)" and i: "i \<notin> active h xs C" "0 < i" "i < it_sp s"
  shows "\<exists>s'. safe_list_set_iterator p i s = Some s' \<and> safe_ok h xs (C(nx := i # C nx)) s' \<and> it_sp s' = it_sp s \<and>
    safe_heap.more s' = safe_heap.more s \<and> l_next s' = l_next s \<and> l_prev s' = l_prev s"
proof -
  note D = safe_okD [OF ok]
  have nz: "nx \<noteq> 0" by (rule ring_node [OF D(1) nx(2)])
  define s1 where "s1 = s\<lparr>sl_i := (sl_i s)(nx := i), it_next := (it_next s)(i := nx), it_head := (it_head s)(i := Slot nx), it_next_i := (it_next_i s)(i := sl_i s nx)\<rparr>"
  define s' where "s' = (if sl_i s nx \<noteq> 0 then s1\<lparr>it_head := (it_head s1)(sl_i s nx := Link i)\<rparr> else s1)"
  have run: "safe_list_set_iterator p i s = Some s'" using nx(1) nz by (simp add: safe_list_set_iterator_def Let_def s1_def s'_def)
  have f: "l_next s' = l_next s" "l_prev s' = l_prev s" "it_sp s' = it_sp s" "safe_heap.more s' = safe_heap.more s" by (simp_all add: s'_def s1_def)
  have nxt: "iseg s (Slot nx) nx (C nx) 0" "sl_i s nx = hd (C nx @ [0])" using D(2) [OF nx(2)] iseg_first by auto
  have inx: "i \<notin> set (C nx)" using i(1) activeI [OF nx(2)] by blast
  have new: "iseg s' (Slot nx) nx (i # C nx) 0"
  proof (cases "C nx")
    case Nil
    then show ?thesis using nxt i(2) by (simp add: s'_def s1_def)
  next
    case (Cons j js)
    then have j: "j \<noteq> 0" "j \<noteq> i" "j \<notin> set js" "i \<notin> set js" "iseg s (Link j) nx js 0" "it_next s j = nx"
      using nxt(1) inx D(3) [OF nx(2)] by auto
    then have "iseg s' (Link j) nx js 0 = iseg s (Link j) nx js 0"
      using nxt(2) Cons by (intro iseg_cong) (auto simp: s'_def s1_def)
    then show ?thesis using j Cons nxt(2) i(2) by (auto simp: s'_def s1_def)
  qed
  have old: "iseg s' (Slot q) q (C q) 0" if q: "q \<in> set (h # xs)" "q \<noteq> nx" for q
  proof -
    have "hd (C nx @ [0]) \<notin> set (C q)" using D(4) [OF q(1) nx(2) q(2)] iseg_nonzero [OF D(2) [OF q(1)]] by (cases "C nx") auto
    moreover have "i \<notin> set (C q)" using i(1) activeI [OF q(1)] by blast
    ultimately have "iseg s' (Slot q) q (C q) 0 = iseg s (Slot q) q (C q) 0"
      using q nxt(2) by (intro iseg_cong) (auto simp: s'_def s1_def)
    then show ?thesis using D(2) [OF q(1)] by simp
  qed
  have "ring s' h xs" using D(1) ring_cong [of h xs s' s] f by simp
  moreover have "active h xs (C(nx := i # C nx)) = insert i (active h xs C)"
    using active_upd [OF nx(2), of C "[i]"] by simp
  moreover have "set ((C(nx := i # C nx)) q) \<inter> set ((C(nx := i # C nx)) q') = {}" if "q \<in> set (h # xs)" "q' \<in> set (h # xs)" "q \<noteq> q'" for q q'
    using D(4) [OF that] i(1) activeI [OF that(1)] activeI [OF that(2)] that(3) by auto
  ultimately have "safe_ok h xs (C(nx := i # C nx)) s'"
    using new old D(3,5,6) inx i f(3) unfolding safe_ok_def by auto
  then show ?thesis using run f by blast
qed

text \<open>Removing one.\<close>

lemma safe_list_del_iterator_ok:
  fixes s :: "'a safe_heap_scheme"
  assumes ok: "safe_ok h xs C s" and p: "p \<in> set (h # xs)" "i \<in> set (C p)"
  shows "safe_ok h xs (C(p := remove1 i (C p))) (safe_list_del_iterator i s) \<and> it_sp (safe_list_del_iterator i s) = it_sp s \<and>
    safe_heap.more (safe_list_del_iterator i s) = safe_heap.more s \<and> l_next (safe_list_del_iterator i s) = l_next s \<and> l_prev (safe_list_del_iterator i s) = l_prev s"
proof -
  note D = safe_okD [OF ok]
  obtain as bs where C: "C p = as @ i # bs" "i \<notin> set as" using split_list_first [OF p(2)] by blast
  have dist: "distinct (as @ i # bs)" using D(3) [OF p(1)] C(1) by simp
  let ?r = "last_ref (Slot p) as"
  have seg: "iseg s (Slot p) p as i" "i \<noteq> 0" "it_head s i = ?r" "it_next_i s i = hd (bs @ [0])" "iseg s (Link i) p bs 0"
    using D(2) [OF p(1)] C(1) iseg_append [of s "Slot p" p as "i # bs" 0] by (auto, cases bs, auto)
  have ri: "?r \<noteq> Link i" using C(2) by (auto simp: last_ref_def)
  define s1 where "s1 = set_ref ?r (hd (bs @ [0])) s"
  have ni: "it_next_i s1 i = hd (bs @ [0])" using ri seg(4) ref_set_ref [of ?r "hd (bs @ [0])" s "Link i"] by (simp add: s1_def)
  define s' where "s' = (if hd (bs @ [0]) \<noteq> 0 then s1\<lparr>it_head := (it_head s1)(hd (bs @ [0]) := ?r)\<rparr> else s1)"
  have run: "safe_list_del_iterator i s = s'" using seg(3,4) ni by (simp add: safe_list_del_iterator_def Let_def s1_def s'_def)
  have f: "l_next s' = l_next s" "l_prev s' = l_prev s" "it_sp s' = it_sp s" "safe_heap.more s' = safe_heap.more s" by (simp_all add: s'_def s1_def)
  have rv: "ref_val s' r = ref_val s1 r" for r by (cases r) (simp_all add: s'_def)
  have rv1: "ref_val s1 r = (if r = ?r then hd (bs @ [0]) else ref_val s r)" for r by (simp add: s1_def)
  have nxi: "it_next_i s' j = it_next_i s j" if "Link j \<noteq> ?r" for j using rv [of "Link j"] rv1 [of "Link j"] that by simp
  have same: "it_next s' = it_next s" "it_head s' j = it_head s j" if "j \<notin> set bs" "j \<noteq> 0" for j
    using that by (auto simp: s'_def s1_def split: if_splits) (cases bs; simp)+
  have "iseg s1 (Slot p) p as (hd (bs @ [0]))" unfolding s1_def using seg(1) dist by (intro iseg_set_end) auto
  moreover have "iseg s' (Slot p) p as (hd (bs @ [0])) = iseg s1 (Slot p) p as (hd (bs @ [0]))"
  proof (rule iseg_cong)
    show "\<forall>j \<in> set as. it_head s' j = it_head s1 j \<and> it_next s' j = it_next s1 j \<and> it_next_i s' j = it_next_i s1 j"
      using dist rv by (auto simp: s'_def) (cases bs; auto)+
  qed (rule rv)
  ultimately have front: "iseg s' (Slot p) p as (hd (bs @ [0]))" by simp
  have rear: "iseg s' ?r p bs 0"
  proof (cases bs)
    case Nil
    then show ?thesis using rv rv1 by simp
  next
    case (Cons j js)
    then have j: "j \<noteq> 0" "it_next s j = p" "iseg s (Link j) p js 0" "j \<notin> set js" using seg(5) dist by auto
    have "l \<notin> set as" if "l \<in> set (j # js)" for l using that dist Cons by auto
    then have "Link l \<noteq> ?r" if "l \<in> set (j # js)" for l using that last_ref_fresh by blast
    then have "iseg s' (Link j) p js 0 = iseg s (Link j) p js 0"
      using j(4) Cons nxi by (intro iseg_cong) (auto simp: s'_def s1_def rv rv1 split: if_splits)
    then show ?thesis using j Cons rv rv1 by (simp add: s'_def s1_def)
  qed
  have new: "iseg s' (Slot p) p (as @ bs) 0" unfolding iseg_append using front rear by simp
  have old: "iseg s' (Slot q) q (C q) 0" if q: "q \<in> set (h # xs)" "q \<noteq> p" for q
  proof -
    have "set (C q) \<inter> set (as @ i # bs) = {}" using D(4) [OF q(1) p(1) q(2)] C(1) by simp
    then have fresh: "Slot q \<noteq> ?r" "\<forall>j \<in> set (C q). Link j \<noteq> ?r \<and> j \<notin> set bs" using q(2) by (auto simp: last_ref_def)
    then have "ref_val s' (Slot q) = ref_val s (Slot q)" using rv [of "Slot q"] rv1 [of "Slot q"] by simp
    then have "iseg s' (Slot q) q (C q) 0 = iseg s (Slot q) q (C q) 0"
      using fresh same nxi iseg_nonzero [OF D(2) [OF q(1)]] by (intro iseg_cong) auto
    then show ?thesis using D(2) [OF q(1)] by simp
  qed
  have rem: "remove1 i (C p) = as @ bs" using C by (simp add: remove1_append)
  have "ring s' h xs" using D(1) ring_cong [of h xs s' s] f by simp
  moreover have sub: "set ((C(p := as @ bs)) q) \<subseteq> set (C q)" for q using C by auto
  have "active h xs (C(p := as @ bs)) \<subseteq> active h xs C" unfolding active_def using sub by blast
  then have "0 < j \<and> j < it_sp s'" if "j \<in> active h xs (C(p := as @ bs))" for j using that D(6) f(3) by auto
  moreover have "set ((C(p := as @ bs)) q) \<inter> set ((C(p := as @ bs)) q') = {}" if "q \<in> set (h # xs)" "q' \<in> set (h # xs)" "q \<noteq> q'" for q q'
    using D(4) [OF that] sub [of q] sub [of q'] by blast
  ultimately have "safe_ok h xs (C(p := as @ bs)) s'"
    using new old D(3,5) dist f(3) by (intro safe_okI) simp_all
  then show ?thesis using run f rem by simp
qed

text \<open>Deleting a node.\<close>

lemma retarget_ok:
  assumes "iseg s r p is 0" "distinct is"
  shows "retarget nx (hd (is @ [0])) tail s = Some (last_ref tail is, s\<lparr>it_next := (\<lambda>j. if j \<in> set is then nx else it_next s j)\<rparr>)"
  using assms
proof (induction "is" arbitrary: r tail s)
  case Nil
  then show ?case by (subst retarget.simps) simp
next
  case (Cons i "is")
  let ?s = "s\<lparr>it_next := (it_next s)(i := nx)\<rparr>"
  have i: "i \<noteq> 0" "iseg s (Link i) p is 0" "i \<notin> set is" "distinct is" using Cons.prems by auto
  have "iseg ?s (Link i) p is 0 = iseg s (Link i) p is 0" using i(3) by (intro iseg_cong) auto
  then have "iseg ?s (Link i) p is 0" using i(2) by simp
  note IH = Cons.IH [OF this i(4), of "Link i"]
  have "?s\<lparr>it_next := (\<lambda>j. if j \<in> set is then nx else it_next ?s j)\<rparr> = s\<lparr>it_next := (\<lambda>j. if j \<in> set (i # is) then nx else it_next s j)\<rparr>"
    by (rule safe_heap.equality) auto
  note IH = IH [unfolded this]
  have "it_next_i s i = hd (is @ [0])" using i(2) by (cases "is") auto
  then show ?case using i(1) IH by (subst retarget.simps) (simp add: Let_def)
qed

lemma iseg_retarget: "iseg s r p is v \<Longrightarrow> iseg (s\<lparr>it_next := (\<lambda>j. if j \<in> A then q else it_next s j)\<rparr>) r q is v" if "set is \<subseteq> A"
  using that
proof (induction "is" arbitrary: r)
  case Nil
  then show ?case by (cases r) auto
next
  case (Cons i "is")
  then show ?case by (cases r) auto
qed

lemma safe_list_del_ok:
  fixes s :: "'a safe_heap_scheme"
  assumes ok: "safe_ok h (xs @ p # ys) C s"
  defines "nx \<equiv> hd (ys @ [h])"
  shows "\<exists>s'. safe_list_del p s = Some s' \<and> safe_ok h (xs @ ys) (C(nx := C p @ C nx)) s' \<and> it_sp s' = it_sp s \<and> safe_heap.more s' = safe_heap.more s \<and>
    l_next s' p = 0 \<and> (\<forall>q. q \<notin> set (h # xs @ p # ys) \<longrightarrow> l_next s' q = l_next s q)"
proof -
  note D = safe_okD [OF ok]
  define s1 where "s1 = deleted p (last (h # xs)) nx s"
  have del: "list_del p s = Some s1" "ring s1 h (xs @ ys)" using list_del_ring [OF D(1)] by (simp_all add: s1_def nx_def)
  have gn: "get_next p s = Some nx" using ring_get_next [OF D(1)] by (simp add: nx_def)
  have nx: "nx \<in> set (h # ys)" unfolding nx_def by (rule ring_ends(1))
  then have nin: "nx \<in> set (h # xs @ p # ys)" "nx \<in> set (h # xs @ ys)" and pin: "p \<in> set (h # xs @ p # ys)" by auto
  have pnx: "p \<noteq> nx" using nx D(1) by (auto simp: ring_def)
  have lp: "last (h # xs) \<in> set (h # xs)" by (rule ring_ends(2))
  then have "p \<noteq> last (h # xs)" using D(1) by (auto simp: ring_def split: if_splits)
  then have l1: "l_next s1 p = 0" "\<forall>q. q \<notin> set (h # xs @ p # ys) \<longrightarrow> l_next s1 q = l_next s q"
    using lp nx by (auto simp: s1_def deleted_def)
  have f1: "sl_i s1 = sl_i s" "it_head s1 = it_head s" "it_next s1 = it_next s" "it_next_i s1 = it_next_i s" "it_sp s1 = it_sp s" "safe_heap.more s1 = safe_heap.more s"
    by (simp_all add: s1_def deleted_def)
  have rv1: "ref_val s1 r = ref_val s r" for r by (cases r) (simp_all add: f1)
  have seg1: "iseg s1 (Slot q) q (C q) 0" if "q \<in> set (h # xs @ p # ys)" for q
    using D(2) [OF that] iseg_cong [of s1 "Slot q" s "C q" q 0] rv1 f1 by simp
  have act: "active h (xs @ ys) (C(nx := C p @ C nx)) \<subseteq> active h (xs @ p # ys) C" using nin pin by (auto simp: active_def split: if_splits)
  have disj: "set ((C(nx := C p @ C nx)) q) \<inter> set ((C(nx := C p @ C nx)) q') = {}" if "q \<in> set (h # xs @ ys)" "q' \<in> set (h # xs @ ys)" "q \<noteq> q'" for q q'
  proof -
    have q: "q \<in> set (h # xs @ p # ys)" "q' \<in> set (h # xs @ p # ys)" "q \<noteq> p" "q' \<noteq> p" using that D(1) by (auto simp: ring_def)
    show ?thesis using D(4) [OF q(1,2) that(3)] D(4) [OF pin q(1)] D(4) [OF pin q(2)] q(3,4) that(3) by auto
  qed
  have dist: "distinct (C p @ C nx)" using D(3) [OF pin] D(3) [OF nin(1)] D(4) [OF pin nin(1) pnx] by simp
  have okI: "safe_ok h (xs @ ys) (C(nx := C p @ C nx)) s'" if "ring s' h (xs @ ys)" "it_sp s' = it_sp s"
    "\<And>q. q \<in> set (h # xs @ ys) \<Longrightarrow> iseg s' (Slot q) q ((C(nx := C p @ C nx)) q) 0" for s' :: "'a safe_heap_scheme"
    using that D(3,5,6) dist act disj by (intro safe_okI) (auto simp: subset_iff)
  show ?thesis
  proof (cases "C p")
    case Nil
    then have "safe_list_del p s = Some s1" using gn del(1) seg1 [OF pin] by (simp add: safe_list_del_def)
    moreover have "safe_ok h (xs @ ys) (C(nx := C p @ C nx)) s1" using del(2) f1(5) seg1 Nil by (intro okI) auto
    ultimately show ?thesis using f1 l1 by blast
  next
    case (Cons i js)
    define s2 where "s2 = s1\<lparr>it_next := (\<lambda>j. if j \<in> set (C p) then nx else it_next s1 j)\<rparr>"
    have sp: "sl_i s p = hd (C p @ [0])" "sl_i s p = i" "i \<noteq> 0" "sl_i s nx = hd (C nx @ [0])"
      using iseg_first [OF D(2) [OF pin]] iseg_first [OF D(2) [OF nin(1)]] D(2) [OF pin] Cons by auto
    have ret: "retarget nx (sl_i s p) (Slot nx) s1 = Some (last_ref (Slot nx) (C p), s2)"
      using retarget_ok [OF seg1 [OF pin] D(3) [OF pin], of nx "Slot nx"] sp(1) by (simp add: s2_def)
    let ?t = "last_ref (Slot nx) (C p)" and ?v = "hd (C nx @ [0])"
    define s3 where "s3 = s2\<lparr>sl_i := (sl_i s2)(nx := i), it_head := (it_head s2)(i := Slot nx)\<rparr>"
    define s4 where "s4 = set_ref ?t ?v s3"
    define s5 where "s5 = (if ?v \<noteq> 0 then s4\<lparr>it_head := (it_head s4)(?v := ?t)\<rparr> else s4)"
    define s6 where "s6 = s5\<lparr>sl_i := (sl_i s5)(p := 0)\<rparr>"
    have run: "safe_list_del p s = Some s6"
      using gn del(1) ret sp f1(1) pnx by (simp add: safe_list_del_def Let_def s6_def s5_def s4_def s3_def s2_def)
    have ref: "ref_val s6 r = (if r = Slot p then 0 else if r = ?t then ?v else if r = Slot nx then i else ref_val s r)" for r
    proof -
      have "ref_val s3 r = (if r = Slot nx then i else ref_val s r)" by (cases r) (simp_all add: s3_def s2_def f1)
      then have "ref_val s4 r = (if r = ?t then ?v else if r = Slot nx then i else ref_val s r)" by (simp add: s4_def)
      moreover have "ref_val s6 r = (if r = Slot p then 0 else ref_val s4 r)" by (cases r) (simp_all add: s6_def s5_def)
      ultimately show ?thesis by simp
    qed
    have nxi: "it_next_i s6 j = (if Link j = ?t then ?v else it_next_i s j)" for j using ref [of "Link j"] by simp
    have hd6: "it_head s6 j = (if ?v \<noteq> 0 \<and> j = ?v then ?t else if j = i then Slot nx else it_head s j)" for j
      by (simp add: s6_def s5_def s4_def s3_def s2_def f1)
    have nx6: "it_next s6 j = (if j \<in> set (C p) then nx else it_next s j)" for j by (simp add: s6_def s5_def s4_def s3_def s2_def f1)
    have vnx: "?v \<noteq> 0 \<longrightarrow> ?v \<in> set (C nx)" by (cases "C nx") auto
    have tne: "?t \<noteq> Slot q" for q using Cons by (simp add: last_ref_def)
    have tl: "Link j \<noteq> ?t" if "j \<notin> set (C p)" for j using last_ref_fresh [OF that] .
    have front: "iseg s6 (Slot nx) nx (C p) ?v"
    proof -
      have "iseg s2 (Slot p) nx (C p) 0" unfolding s2_def by (rule iseg_retarget [OF subset_refl seg1 [OF pin]])
      then have "iseg s2 (Link i) nx js 0" "it_next s2 i = nx" using Cons by auto
      moreover have "iseg s3 (Link i) nx js 0 = iseg s2 (Link i) nx js 0" using D(3) [OF pin] Cons by (intro iseg_cong) (auto simp: s3_def)
      ultimately have "iseg s3 (Slot nx) nx (C p) 0" using Cons sp(3) by (simp add: s3_def)
      then have "iseg s4 (Slot nx) nx (C p) ?v" unfolding s4_def using D(3) [OF pin] by (intro iseg_set_end) auto
      moreover have "iseg s6 (Slot nx) nx (C p) ?v = iseg s4 (Slot nx) nx (C p) ?v"
        using pnx vnx D(4) [OF pin nin(1) pnx] by (intro iseg_cong) (auto simp: s6_def s5_def)
      ultimately show ?thesis by simp
    qed
    have rear: "iseg s6 ?t nx (C nx) 0"
    proof (cases "C nx")
      case Nil
      then show ?thesis using ref [of ?t] tne [of p] by simp
    next
      case nxt: (Cons j ks)
      have j: "j \<noteq> 0" "it_next s j = nx" "iseg s (Link j) nx ks 0" "j \<notin> set ks" using D(2,3) [OF nin(1)] nxt by auto
      have out: "l \<notin> set (C p)" if "l \<in> set (j # ks)" for l using that D(4) [OF pin nin(1) pnx] nxt by auto
      then have "iseg s6 (Link j) nx ks 0 = iseg s (Link j) nx ks 0"
        using j(4) nxt Cons nxi tl hd6 nx6 by (intro iseg_cong) auto
      then show ?thesis using j nxt out ref [of ?t] tne [of p] hd6 nx6 by simp
    qed
    have other: "iseg s6 (Slot q) q (C q) 0" if q: "q \<in> set (h # xs @ ys)" "q \<noteq> nx" for q
    proof -
      have q': "q \<in> set (h # xs @ p # ys)" "q \<noteq> p" using q D(1) by (auto simp: ring_def)
      have out: "l \<notin> set (C p)" "l \<notin> set (C nx)" if "l \<in> set (C q)" for l
        using that D(4) [OF q'(1) pin q'(2)] D(4) [OF q'(1) nin(1) q(2)] by auto
      have "iseg s6 (Slot q) q (C q) 0 = iseg s (Slot q) q (C q) 0"
      proof (rule iseg_cong)
        show "ref_val s6 (Slot q) = ref_val s (Slot q)" using ref [of "Slot q"] q(2) q'(2) tne [of q] by simp
        show "\<forall>l \<in> set (C q). it_head s6 l = it_head s l \<and> it_next s6 l = it_next s l \<and> it_next_i s6 l = it_next_i s l"
          using out vnx tl hd6 nx6 nxi Cons by auto
      qed
      then show ?thesis using D(2) [OF q'(1)] by simp
    qed
    have f6: "l_next s6 = l_next s1" "l_prev s6 = l_prev s1" "it_sp s6 = it_sp s" "safe_heap.more s6 = safe_heap.more s"
      by (simp_all add: s6_def s5_def s4_def s3_def s2_def f1)
    have "ring s6 h (xs @ ys)" using del(2) ring_cong [of h "xs @ ys" s6 s1] f6 by simp
    moreover have "iseg s6 (Slot nx) nx (C p @ C nx) 0" unfolding iseg_append using front rear by simp
    ultimately have "safe_ok h (xs @ ys) (C(nx := C p @ C nx)) s6" using f6(3) other by (intro okI) auto
    then show ?thesis using run f6 l1 by auto
  qed
qed

section \<open>Iteration\<close>

text \<open>The node that an iterator for \<open>p\<close> is on when the nodes of \<open>D\<close> are gone, and iterators that have moved so.\<close>

definition skip :: "addr set \<Rightarrow> addr \<Rightarrow> addr list \<Rightarrow> addr \<Rightarrow> addr" where
  "skip D h xs p = hd (filter (\<lambda>x. x \<notin> D) (dropWhile (\<lambda>x. x \<noteq> p) xs) @ [h])"

definition moved :: "addr set \<Rightarrow> addr set \<Rightarrow> addr \<Rightarrow> addr list \<Rightarrow> (addr \<Rightarrow> addr list) \<Rightarrow> (addr \<Rightarrow> addr list) \<Rightarrow> bool" where
  "moved A D h xs C C' \<longleftrightarrow> (\<forall>j \<in> A. \<forall>p \<in> set (h # xs). j \<in> set (C p) \<longrightarrow> j \<in> set (C' (skip D h xs p)))"

abbreviation without :: "addr set \<Rightarrow> addr list \<Rightarrow> addr list" where
  "without D xs \<equiv> filter (\<lambda>x. x \<notin> D) xs"

lemma dropWhile_node: "p \<notin> set as \<Longrightarrow> dropWhile (\<lambda>x. x \<noteq> p) (as @ p # bs) = p # bs"
  by (induction as) auto

lemma dropWhile_no_node: "p \<notin> set as \<Longrightarrow> dropWhile (\<lambda>x. x \<noteq> p) as = []"
  by (induction as) auto

lemma without_fresh: "p \<notin> set xs \<Longrightarrow> without {p} xs = xs"
  by (induction xs) auto

lemma skip_at:
  assumes "distinct (h # as @ bs)"
  shows "skip D h (as @ bs) (hd (bs @ [h])) = hd (without D bs @ [h])"
proof (cases bs)
  case Nil
  then have "dropWhile (\<lambda>x. x \<noteq> h) (as @ bs) = []" using assms dropWhile_no_node [of h as] by simp
  then have "skip D h (as @ bs) h = h" unfolding skip_def by (simp only: filter.simps append.simps list.sel)
  then show ?thesis using Nil by simp
next
  case (Cons b bs')
  then have "dropWhile (\<lambda>x. x \<noteq> b) (as @ bs) = bs" using assms dropWhile_node [of b as bs'] by auto
  then show ?thesis using Cons by (simp add: skip_def)
qed

lemma node_split: "p \<in> set (h # xs) \<Longrightarrow> \<exists>as bs. xs = as @ bs \<and> p = hd (bs @ [h])"
proof (cases "p \<in> set xs")
  case True
  then obtain as bs where "xs = as @ p # bs" by (auto simp: in_set_conv_decomp)
  then show ?thesis by (intro exI [of _ as] exI [of _ "p # bs"]) simp
next
  case False
  assume "p \<in> set (h # xs)"
  then show ?thesis using False by (intro exI [of _ xs] exI [of _ "[]"]) simp
qed

lemma skip_skip:
  assumes "distinct (h # xs)" "p \<in> set (h # xs)"
  shows "skip D' h (without D xs) (skip D h xs p) = skip (D \<union> D') h xs p" "skip D h xs p \<in> set (h # without D xs)"
proof -
  obtain as bs where xs: "xs = as @ bs" "p = hd (bs @ [h])" using node_split [OF assms(2)] by blast
  have s1: "skip D h xs p = hd (without D bs @ [h])" using skip_at [of h as bs D] assms(1) xs by simp
  show "skip D h xs p \<in> set (h # without D xs)" using s1 xs(1) by (cases "without D bs") auto
  have "distinct (h # without D as @ without D bs)" using assms(1) xs(1) by auto
  from skip_at [OF this, of D'] show "skip D' h (without D xs) (skip D h xs p) = skip (D \<union> D') h xs p"
    using s1 xs skip_at [of h as bs "D \<union> D'"] assms(1) by (simp add: conj_commute)
qed

lemma skip_none: "distinct (h # xs) \<Longrightarrow> p \<in> set (h # xs) \<Longrightarrow> skip {} h xs p = p"
proof -
  assume d: "distinct (h # xs)" "p \<in> set (h # xs)"
  obtain as bs where "xs = as @ bs" "p = hd (bs @ [h])" using node_split [OF d(2)] by blast
  then show ?thesis using skip_at [of h as bs "{}"] d(1) by simp
qed

lemma moved_trans:
  assumes "distinct (h # xs)" "moved A D h xs C C1" "moved A D' h (without D xs) C1 C2"
  shows "moved A (D \<union> D') h xs C C2"
  unfolding moved_def
proof (intro ballI impI)
  fix j p
  assume j: "j \<in> A" and p: "p \<in> set (h # xs)" "j \<in> set (C p)"
  have "j \<in> set (C1 (skip D h xs p))" using assms(2) j p by (auto simp: moved_def)
  then have "j \<in> set (C2 (skip D' h (without D xs) (skip D h xs p)))" using assms(3) j skip_skip(2) [OF assms(1) p(1)] unfolding moved_def by blast
  then show "j \<in> set (C2 (skip (D \<union> D') h xs p))" using skip_skip(1) [OF assms(1) p(1)] by simp
qed

lemma moved_same:
  assumes "distinct (h # xs)" "\<And>j p. j \<in> A \<Longrightarrow> p \<in> set (h # xs) \<Longrightarrow> j \<in> set (C p) \<Longrightarrow> j \<in> set (C' p)"
  shows "moved A {} h xs C C'"
  using assms skip_none [OF assms(1)] by (simp add: moved_def)

lemma safe_list_del_moved:
  assumes "distinct (h # xs @ p # ys)"
  shows "moved A {p} h (xs @ p # ys) C (C(hd (ys @ [h]) := C p @ C (hd (ys @ [h]))))" "xs @ ys = without {p} (xs @ p # ys)"
    "active h (xs @ ys) (C(hd (ys @ [h]) := C p @ C (hd (ys @ [h])))) = active h (xs @ p # ys) C"
proof -
  let ?n = "hd (ys @ [h])"
  have n: "?n \<in> set (h # ys)" by (rule ring_ends(1))
  show wo: "xs @ ys = without {p} (xs @ p # ys)" using assms without_fresh [of p xs] without_fresh [of p ys] by simp
  have sp: "skip {p} h (xs @ p # ys) p = ?n" using skip_at [OF assms, of "{p}"] assms without_fresh [of p ys] by simp
  have sq: "skip {p} h (xs @ p # ys) q = q" if "q \<in> set (h # xs @ p # ys)" "q \<noteq> p" for q
  proof -
    note split = node_split [OF that(1)]
    obtain as bs where b: "xs @ p # ys = as @ bs" "q = hd (bs @ [h])" using split by blast
    have "skip {p} h (xs @ p # ys) q = hd (without {p} bs @ [h])" using skip_at [of h as bs "{p}"] b assms by simp
    then show ?thesis using b(2) that(2) by (cases bs) auto
  qed
  show "moved A {p} h (xs @ p # ys) C (C(?n := C p @ C ?n))" unfolding moved_def
  proof (intro ballI impI)
    fix j q
    assume "q \<in> set (h # xs @ p # ys)" "j \<in> set (C q)"
    then show "j \<in> set ((C(?n := C p @ C ?n)) (skip {p} h (xs @ p # ys) q))" using sp sq [of q] by (cases "q = p") auto
  qed
  have np: "?n \<noteq> p" "?n \<in> set (h # xs @ ys)" using n assms by auto
  show "active h (xs @ ys) (C(?n := C p @ C ?n)) = active h (xs @ p # ys) C"
    unfolding active_upd [OF np(2)] by (auto simp: active_def)
qed

lemma remove_iterator:
  assumes ok: "safe_ok h xs C s" and p: "p \<in> set (h # xs)" "i \<in> set (C p)"
  defines "C' \<equiv> C(p := remove1 i (C p))"
  shows "active h xs C' = active h xs C - {i}" "i \<in> active h xs C" "\<And>j q. j \<in> set (C q) \<Longrightarrow> j \<noteq> i \<Longrightarrow> j \<in> set (C' q)"
proof -
  note D = safe_okD [OF ok]
  show "i \<in> active h xs C" using p unfolding active_def by blast
  show old: "\<And>j q. j \<in> set (C q) \<Longrightarrow> j \<noteq> i \<Longrightarrow> j \<in> set (C' q)" by (auto simp: C'_def)
  have "set (C' q) = set (C q) - {i}" if "q \<in> set (h # xs)" for q
    using D(3) [OF p(1)] D(4) [OF p(1) that] p(2) by (cases "q = p") (auto simp: C'_def)
  then show "active h xs C' = active h xs C - {i}" unfolding active_def by blast
qed

text \<open>The contract of a callback: on a node of the list it returns, may delete any nodes, and leaves the iterators that are under way
  where deletion takes them.  \<open>inv\<close> is what it needs besides, and \<open>calls ps s s'\<close> says that the calls on \<open>ps\<close> lead from \<open>s\<close> to \<open>s'\<close>.\<close>

locale safe_callback =
  fixes cb :: "addr \<Rightarrow> 'a safe_heap_scheme \<Rightarrow> (int \<times> 'a safe_heap_scheme) option" and h :: addr
    and inv :: "addr list \<Rightarrow> 'a safe_heap_scheme \<Rightarrow> bool" and calls :: "addr list \<Rightarrow> 'a safe_heap_scheme \<Rightarrow> 'a safe_heap_scheme \<Rightarrow> bool"
  assumes inv_frame: "l_next s' = l_next s \<Longrightarrow> safe_heap.more s' = safe_heap.more s \<Longrightarrow> inv xs s' = inv xs s"
    and cb_law: "safe_ok h xs C s \<Longrightarrow> inv xs s \<Longrightarrow> p \<in> set xs \<Longrightarrow> \<exists>ret s' D C'. cb p s = Some (ret, s') \<and> inv (without D xs) s' \<and>
      safe_ok h (without D xs) C' s' \<and> active h (without D xs) C' = active h xs C \<and> moved (active h xs C) D h xs C C' \<and> it_sp s' = it_sp s \<and> calls [p] s s'"
    and calls_frame: "safe_heap.more s' = safe_heap.more s \<Longrightarrow> calls [] s s'"
    and calls_trans: "calls ps s s' \<Longrightarrow> calls qs s' s'' \<Longrightarrow> calls (ps @ qs) s s''"
begin

text \<open>Moving the iterator on, from the node it has reached.\<close>

lemma move_iterator_ok:
  fixes s :: "'a safe_heap_scheme"
  assumes ok: "safe_ok h (zs @ ys) C s" and i: "i \<in> set (C (hd (ys @ [h])))"
  shows "\<exists>s' C'. safe_list_move_iterator (hd (ys @ [h])) i s = Some s' \<and> safe_ok h (zs @ ys) C' s' \<and> active h (zs @ ys) C' = active h (zs @ ys) C \<and>
    moved (active h (zs @ ys) C - {i}) {} h (zs @ ys) C C' \<and> it_sp s' = it_sp s \<and> safe_heap.more s' = safe_heap.more s \<and> l_next s' = l_next s \<and>
    (ys \<noteq> [] \<longrightarrow> i \<in> set (C' (hd (tl ys @ [h]))))"
proof -
  let ?p = "hd (ys @ [h])" and ?xs = "zs @ ys"
  note D = safe_okD [OF ok]
  have p: "?p \<in> set (h # ?xs)" using ring_ends(1) [of ys h] by auto
  define C1 where "C1 = C(?p := remove1 i (C ?p))"
  define s1 where "s1 = safe_list_del_iterator i s"
  have s1: "safe_ok h ?xs C1 s1" "it_sp s1 = it_sp s" "safe_heap.more s1 = safe_heap.more s" "l_next s1 = l_next s"
    using safe_list_del_iterator_ok [OF ok p i] by (simp_all add: C1_def s1_def)
  from ring_successor [OF D(1)] obtain n where n: "get_next ?p s = Some n" "ys \<noteq> [] \<longrightarrow> n = hd (tl ys @ [h])" by blast
  have gn: "get_next ?p s1 = Some n" using n(1) s1(4) by (simp add: get_next_def split: if_splits)
  have nin: "n \<in> set (h # ?xs)"
  proof (cases ys)
    case Nil
    then have "n = hd (?xs @ [h])" using ring_get_first [OF D(1)] n(1) by simp
    then show ?thesis using ring_ends(1) [of ?xs h] by simp
  next
    case (Cons y ys')
    then show ?thesis using n(2) ring_ends(1) [of ys' h] by auto
  qed
  note R = remove_iterator [OF ok p i, folded C1_def]
  have fresh: "i \<notin> active h ?xs C1" and act1: "insert i (active h ?xs C1) = active h ?xs C" using R(1,2) by auto
  have ib: "0 < i" "i < it_sp s1" using D(6) [OF R(2)] s1(2) by auto
  from safe_list_set_iterator_ok [OF s1(1) gn nin fresh ib] obtain s' where
    s': "safe_list_set_iterator ?p i s1 = Some s'" "safe_ok h ?xs (C1(n := i # C1 n)) s'" "it_sp s' = it_sp s1" "safe_heap.more s' = safe_heap.more s1" "l_next s' = l_next s1"
    by blast
  have "active h ?xs (C1(n := i # C1 n)) = active h ?xs C" using active_upd [OF nin, of C1 "[i]"] act1 by auto
  moreover have "moved (active h ?xs C - {i}) {} h ?xs C (C1(n := i # C1 n))"
    using D(1) R(3) by (intro moved_same) (auto simp: ring_def)
  moreover have "ys \<noteq> [] \<longrightarrow> i \<in> set ((C1(n := i # C1 n)) (hd (tl ys @ [h])))" using n(2) by simp
  ultimately show ?thesis using s' s1 unfolding safe_list_move_iterator_def s1_def [symmetric]
    by (intro exI [of _ s'] exI [of _ "C1(n := i # C1 n)"]) simp
qed

lemma for_each_loop_ok:
  fixes s :: "'a safe_heap_scheme"
  assumes "safe_ok h (zs @ ys) C s" "inv (zs @ ys) s" "i \<in> active h (zs @ ys) C" "ys \<noteq> [] \<longrightarrow> i \<in> set (C (hd (tl ys @ [h])))"
  shows "\<exists>ret s' D C' vs. for_each_loop cb h i (hd (ys @ [h])) s = Some (ret, s') \<and> inv (without D (zs @ ys)) s' \<and> safe_ok h (without D (zs @ ys)) C' s' \<and>
    active h (without D (zs @ ys)) C' = active h (zs @ ys) C \<and> moved (active h (zs @ ys) C - {i}) D h (zs @ ys) C C' \<and> it_sp s' = it_sp s \<and>
    calls vs s s' \<and> subseq vs ys \<and> (ret = 0 \<longrightarrow> set (without D ys) \<subseteq> set vs)"
  using assms
proof (induction "length ys" arbitrary: zs ys C s rule: less_induct)
  case less
  let ?xs = "zs @ ys"
  note D = safe_okD [OF less.prems(1)]
  have dist: "distinct (h # ?xs)" using D(1) by (simp add: ring_def)
  show ?case
  proof (cases ys)
    case Nil
    have "moved (active h ?xs C - {i}) {} h ?xs C C" using dist by (rule moved_same)
    moreover have "for_each_loop cb h i (hd (ys @ [h])) s = Some (0, s)" using Nil by (subst for_each_loop.simps) simp
    moreover have "calls [] s s" by (rule calls_frame) simp
    ultimately show ?thesis using less.prems Nil by (intro exI [of _ 0] exI [of _ s] exI [of _ "{}"] exI [of _ C] exI [of _ "[]"]) simp
  next
    case (Cons y ys')
    have y: "y \<in> set ?xs" "y \<noteq> h" using Cons dist by auto
    from cb_law [OF less.prems(1,2) y(1)] obtain ret s1 D1 C1 where
      c: "cb y s = Some (ret, s1)" "inv (without D1 ?xs) s1" "safe_ok h (without D1 ?xs) C1 s1" "active h (without D1 ?xs) C1 = active h ?xs C"
        "moved (active h ?xs C) D1 h ?xs C C1" "it_sp s1 = it_sp s" "calls [y] s s1" by blast
    have m1: "moved (active h ?xs C - {i}) D1 h ?xs C C1" using c(5) by (simp add: moved_def)
    show ?thesis
    proof (cases "ret = 0")
      case False
      then have "for_each_loop cb h i (hd (ys @ [h])) s = Some (ret, s1)" using Cons y(2) c(1) by (subst for_each_loop.simps) simp
      then show ?thesis using False c m1 Cons by (intro exI [of _ ret] exI [of _ s1] exI [of _ D1] exI [of _ C1] exI [of _ "[y]"]) simp
    next
      case True
      define zs1 ys1 where z: "zs1 = without D1 (zs @ [y])" "ys1 = without D1 ys'"
      have xs1: "without D1 ?xs = zs1 @ ys1" using Cons by (simp add: z)
      have "hd (tl ys @ [h]) = hd (ys' @ [h])" using Cons by simp
      then have "i \<in> set (C (hd (ys' @ [h])))" using less.prems(4) Cons by simp
      moreover have "hd (ys' @ [h]) \<in> set (h # ?xs)" using ring_ends(1) [of ys' h] Cons by auto
      moreover have "skip D1 h ?xs (hd (ys' @ [h])) = hd (ys1 @ [h])" using skip_at [of h "zs @ [y]" ys' D1] dist Cons by (simp add: z)
      ultimately have i1: "i \<in> set (C1 (hd (ys1 @ [h])))" using c(5) less.prems(3) unfolding moved_def by metis
      note ok1 = c(3) [unfolded xs1]
      have nxt: "it_next s1 i = hd (ys1 @ [h])"
        using iseg_next [OF safe_okD(2) [OF ok1, of "hd (ys1 @ [h])"] i1] ring_ends(1) [of ys1 h] by auto
      from move_iterator_ok [OF ok1 i1] obtain s2 C2 where
        m: "safe_list_move_iterator (hd (ys1 @ [h])) i s1 = Some s2" "safe_ok h (zs1 @ ys1) C2 s2" "active h (zs1 @ ys1) C2 = active h (zs1 @ ys1) C1"
          "moved (active h (zs1 @ ys1) C1 - {i}) {} h (zs1 @ ys1) C1 C2" "it_sp s2 = it_sp s1" "safe_heap.more s2 = safe_heap.more s1" "l_next s2 = l_next s1"
          "ys1 \<noteq> [] \<longrightarrow> i \<in> set (C2 (hd (tl ys1 @ [h])))" by blast
      have act: "active h (zs1 @ ys1) C2 = active h ?xs C" using m(3) c(4) xs1 by simp
      have pre: "length ys1 < length ys" "inv (zs1 @ ys1) s2" "i \<in> active h (zs1 @ ys1) C2"
        using Cons z(2) length_filter_le [of _ ys'] c(2) xs1 inv_frame [OF m(7,6)] act less.prems(3) by (auto intro: le_imp_less_Suc)
      from less.hyps [OF pre(1) m(2) pre(2,3) m(8)] obtain ret' s' D2 C' vs where
        IH: "for_each_loop cb h i (hd (ys1 @ [h])) s2 = Some (ret', s')" "inv (without D2 (zs1 @ ys1)) s'" "safe_ok h (without D2 (zs1 @ ys1)) C' s'"
          "active h (without D2 (zs1 @ ys1)) C' = active h (zs1 @ ys1) C2" "moved (active h (zs1 @ ys1) C2 - {i}) D2 h (zs1 @ ys1) C2 C'" "it_sp s' = it_sp s2"
          "calls vs s2 s'" "subseq vs ys1" "ret' = 0 \<longrightarrow> set (without D2 ys1) \<subseteq> set vs" by blast
      have wo: "without D2 (zs1 @ ys1) = without (D1 \<union> D2) ?xs" by (simp add: xs1 [symmetric] conj_commute)
      have d1: "distinct (h # zs1 @ ys1)" unfolding xs1 [symmetric] using dist by auto
      have "moved (active h ?xs C - {i}) ({} \<union> D2) h (zs1 @ ys1) C1 C'"
        using m(4) IH(5) act c(4) xs1 by (intro moved_trans [OF d1, where ?C1.0 = C2]) simp_all
      then have mv: "moved (active h ?xs C - {i}) (D1 \<union> D2) h ?xs C C'" using moved_trans [OF dist m1] xs1 by simp
      have "for_each_loop cb h i (hd (ys @ [h])) s = Some (ret', s')"
        using Cons y(2) c(1) True nxt m(1) IH(1) by (subst for_each_loop.simps) (simp add: Let_def)
      moreover have "subseq (y # vs) ys" using IH(8) Cons z(2) subseq_filter_left by (auto intro: subseq_order.trans)
      moreover have "ret' = 0 \<longrightarrow> set (without (D1 \<union> D2) ys) \<subseteq> set (y # vs)" using IH(9) Cons by (auto simp: z(2))
      moreover have "calls (y # vs) s s'" using calls_trans [OF c(7) calls_trans [OF calls_frame [OF m(6)] IH(7)]] by simp
      ultimately show ?thesis using IH(2-4,6) wo mv c(6) m(5) act
        by (intro exI [of _ ret'] exI [of _ s'] exI [of _ "D1 \<union> D2"] exI [of _ C'] exI [of _ "y # vs"]) simp
    qed
  qed
qed

lemma for_each_ok:
  fixes s :: "'a safe_heap_scheme"
  assumes ok: "safe_ok h xs C s" and inv: "inv xs s"
  shows "\<exists>ret s' D C' vs. safe_list_for_each cb h s = Some (ret, s') \<and> inv (without D xs) s' \<and> safe_ok h (without D xs) C' s' \<and>
    active h (without D xs) C' = active h xs C \<and> moved (active h xs C) D h xs C C' \<and> it_sp s' = it_sp s \<and>
    calls vs s s' \<and> subseq vs xs \<and> (ret = 0 \<longrightarrow> set (without D xs) \<subseteq> set vs)"
proof -
  note D = safe_okD [OF ok]
  have dist: "distinct (h # xs)" using D(1) by (simp add: ring_def)
  define i where "i = it_sp s"
  define s0 where "s0 = s\<lparr>it_sp := i + 1\<rparr>"
  have f0: "l_next s0 = l_next s" "l_prev s0 = l_prev s" "safe_heap.more s0 = safe_heap.more s" by (simp_all add: s0_def)
  have ok0: "safe_ok h xs C s0" unfolding s0_def using D(6) by (intro safe_ok_sp [OF ok]) (auto simp: i_def intro: less_SucI)
  have i: "i \<notin> active h xs C" "0 < i" "i < it_sp s0" using D(5,6) by (auto simp: i_def s0_def)
  let ?c = "hd (xs @ [h])"
  have ring0: "ring s0 h ([] @ xs)" using safe_okD(1) [OF ok0] by simp
  have cur: "get_next h s0 = Some ?c" using ring_get_first [OF safe_okD(1) [OF ok0]] by simp
  from ring_successor [OF ring0] obtain n where n: "get_next ?c s0 = Some n" "xs \<noteq> [] \<longrightarrow> n = hd (tl xs @ [h])" by blast
  have nin: "n \<in> set (h # xs)"
  proof (cases xs)
    case Nil
    then show ?thesis using n(1) cur by simp
  next
    case (Cons y ys)
    then show ?thesis using n(2) ring_ends(1) [of ys h] by auto
  qed
  from safe_list_set_iterator_ok [OF ok0 n(1) nin i] obtain s1 where
    s1: "safe_list_set_iterator ?c i s0 = Some s1" "safe_ok h xs (C(n := i # C n)) s1" "it_sp s1 = it_sp s0" "safe_heap.more s1 = safe_heap.more s0" "l_next s1 = l_next s0" by blast
  have act1: "active h xs (C(n := i # C n)) = insert i (active h xs C)" using active_upd [OF nin, of C "[i]"] by simp
  have inv1: "inv xs s1" using inv inv_frame [of s1 s] s1(4,5) f0 by simp
  have iC: "i \<in> insert i (active h xs C)" "xs \<noteq> [] \<longrightarrow> i \<in> set ((C(n := i # C n)) (hd (tl xs @ [h])))" using n(2) by auto
  from for_each_loop_ok [of "[]" xs "C(n := i # C n)" s1 i, unfolded append_Nil act1, OF s1(2) inv1 iC] obtain ret s2 D1 C2 vs where
    l: "for_each_loop cb h i ?c s1 = Some (ret, s2)" "inv (without D1 xs) s2" "safe_ok h (without D1 xs) C2 s2" "active h (without D1 xs) C2 = insert i (active h xs C)"
      "moved (insert i (active h xs C) - {i}) D1 h xs (C(n := i # C n)) C2" "it_sp s2 = it_sp s1" "calls vs s1 s2" "subseq vs xs" "ret = 0 \<longrightarrow> set (without D1 xs) \<subseteq> set vs" by blast
  have "i \<in> active h (without D1 xs) C2" using l(4) by simp
  then obtain p where p: "p \<in> set (h # without D1 xs)" "i \<in> set (C2 p)" unfolding active_def by blast
  define C3 where "C3 = C2(p := remove1 i (C2 p))"
  define s3 where "s3 = safe_list_del_iterator i s2"
  define s4 where "s4 = s3\<lparr>it_sp := i\<rparr>"
  have s3: "safe_ok h (without D1 xs) C3 s3" "safe_heap.more s3 = safe_heap.more s2" "l_next s3 = l_next s2"
    using safe_list_del_iterator_ok [OF l(3) p] by (simp_all add: s3_def C3_def)
  note R = remove_iterator [OF l(3) p, folded C3_def]
  have act3: "active h (without D1 xs) C3 = active h xs C" using R(1) l(4) i(1) by auto
  have ok4: "safe_ok h (without D1 xs) C3 s4" unfolding s4_def using act3 D(6) i(2) by (intro safe_ok_sp [OF s3(1)]) (auto simp: i_def)
  have A: "insert i (active h xs C) - {i} = active h xs C" using i(1) by auto
  have "moved (active h xs C) {} h xs C (C(n := i # C n))" using dist by (rule moved_same) auto
  from moved_trans [OF dist this, of D1 C2] l(5) A have m2: "moved (active h xs C) D1 h xs C C2" by simp
  have "distinct (h # without D1 xs)" using dist by auto
  then have "moved (active h xs C) {} h (without D1 xs) C2 C3" using R(3) i(1) by (intro moved_same) auto
  then have mv: "moved (active h xs C) D1 h xs C C3" using moved_trans [OF dist m2] by fastforce
  have run: "safe_list_for_each cb h s = Some (ret, s4)"
    using cur s1(1) l(1) by (simp add: safe_list_for_each_def Let_def s4_def s3_def s0_def flip: i_def)
  have m4: "safe_heap.more s4 = safe_heap.more s2" "l_next s4 = l_next s2" using s3 by (simp_all add: s4_def)
  have "safe_heap.more s1 = safe_heap.more s" using s1(4) f0(3) by simp
  then have "calls ([] @ vs @ []) s s4" using calls_trans [OF calls_frame calls_trans [OF l(7) calls_frame [OF m4(1)]]] by blast
  moreover have "inv (without D1 xs) s4" using l(2) inv_frame [OF m4(2,1)] by simp
  moreover have "it_sp s4 = it_sp s" by (simp add: s4_def i_def)
  ultimately show ?thesis using run ok4 act3 mv l(8,9) by auto
qed

text \<open>An iteration is itself a lawful callback, so iterations nest.\<close>

lemma nested: "safe_callback (\<lambda>p s. safe_list_for_each cb h s) h inv (\<lambda>_ _ _. True)"
  using inv_frame for_each_ok by unfold_locales (blast | simp)+

end

section \<open>Adding\<close>

lemma safe_ok_linked:
  assumes ok: "safe_ok h (xs @ ys) C s" and e: "e \<notin> set (h # xs @ ys)" "e \<noteq> 0"
  defines "s' \<equiv> linked e (last (h # xs)) (hd (ys @ [h])) (s\<lparr>sl_i := (sl_i s)(e := 0)\<rparr>)"
  shows "safe_ok h (xs @ e # ys) (C(e := [])) s'"
proof -
  note D = safe_okD [OF ok]
  let ?s = "s\<lparr>sl_i := (sl_i s)(e := 0)\<rparr>"
  have "ring ?s h (xs @ ys)" using D(1) ring_cong [of h "xs @ ys" ?s s] by simp
  then have "ring s' h (xs @ e # ys)" unfolding s'_def by (rule ring_linked) (use e in auto)
  moreover have "iseg s' (Slot q) q ((C(e := [])) q) 0" if "q \<in> set (h # xs @ e # ys)" for q
  proof (cases "q = e")
    case True
    then show ?thesis by (simp add: s'_def linked_def)
  next
    case False
    then have q: "q \<in> set (h # xs @ ys)" using that by auto
    show ?thesis using D(2) [OF q] False iseg_cong [of s' "Slot q" s "C q" q 0] by (simp add: s'_def linked_def)
  qed
  moreover have "set ((C(e := [])) p) \<inter> set ((C(e := [])) q) = {}" if "p \<in> set (h # xs @ e # ys)" "q \<in> set (h # xs @ e # ys)" "p \<noteq> q" for p q
    using D(4) [of p q] that by auto
  moreover have "active h (xs @ e # ys) (C(e := [])) \<subseteq> active h (xs @ ys) C" by (auto simp: active_def split: if_splits)
  then have "0 < i \<and> i < it_sp s'" if "i \<in> active h (xs @ e # ys) (C(e := []))" for i using that D(6) by (auto simp: s'_def linked_def)
  ultimately show ?thesis using D(3,5) by (intro safe_okI) (auto simp: s'_def linked_def)
qed

lemma safe_list_add_ok:
  assumes ok: "safe_ok h xs C s" and e: "e \<notin> set (h # xs)" "e \<noteq> 0"
  shows "\<exists>s'. safe_list_add e h s = Some s' \<and> safe_ok h (xs @ [e]) (C(e := [])) s'"
    and "\<exists>s'. safe_list_add_first e h s = Some s' \<and> safe_ok h (e # xs) (C(e := [])) s'"
proof -
  let ?s = "s\<lparr>sl_i := (sl_i s)(e := 0)\<rparr>"
  have r: "ring ?s h xs" using safe_okD(1) [OF ok] ring_cong [of h xs ?s s] by simp
  show "\<exists>s'. safe_list_add e h s = Some s' \<and> safe_ok h (xs @ [e]) (C(e := [])) s'"
    using list_add_tail_ring(1) [OF r e] safe_ok_linked [of h xs "[]" C s e] ok e by (simp add: safe_list_add_def)
  show "\<exists>s'. safe_list_add_first e h s = Some s' \<and> safe_ok h (e # xs) (C(e := [])) s'"
    using list_add_ring(1) [OF r e] safe_ok_linked [of h "[]" xs C s e] ok e by (simp add: safe_list_add_first_def)
qed

section \<open>A callback that deletes\<close>

text \<open>On a node \<open>p\<close> the callback logs its call and deletes the nodes of \<open>D p\<close> that are still in the list, itself or others.\<close>

record log_heap = safe_heap +
  log :: "addr list"

fun delete_all :: "addr list \<Rightarrow> 'a safe_heap_scheme \<Rightarrow> 'a safe_heap_scheme option" where
  "delete_all [] s = Some s"
| "delete_all (q # qs) s = do { s \<leftarrow> (if l_next s q \<noteq> 0 then safe_list_del q s else Some s); delete_all qs s }"

definition delete_cb :: "(addr \<Rightarrow> addr list) \<Rightarrow> addr \<Rightarrow> log_heap \<Rightarrow> (int \<times> log_heap) option" where
  "delete_cb D p s = do { s \<leftarrow> delete_all (D p) (s\<lparr>log := log s @ [p]\<rparr>); Some (0, s) }"

definition unlinked_clear :: "(addr \<Rightarrow> addr list) \<Rightarrow> addr \<Rightarrow> addr list \<Rightarrow> 'a safe_heap_scheme \<Rightarrow> bool" where
  "unlinked_clear D h xs s \<longleftrightarrow> (\<forall>p. h \<notin> set (D p)) \<and> (\<forall>p. \<forall>q \<in> set (D p). q \<in> set xs \<or> l_next s q = 0)"

lemma delete_all_ok:
  fixes s :: "'a safe_heap_scheme"
  assumes "safe_ok h xs C s" "unlinked_clear D h xs s" "set qs \<subseteq> set (D p)"
  shows "\<exists>s' E C'. delete_all qs s = Some s' \<and> safe_ok h (without E xs) C' s' \<and> unlinked_clear D h (without E xs) s' \<and>
    active h (without E xs) C' = active h xs C \<and> moved (active h xs C) E h xs C C' \<and> it_sp s' = it_sp s \<and> safe_heap.more s' = safe_heap.more s"
  using assms
proof (induction qs arbitrary: xs C s)
  case Nil
  have "distinct (h # xs)" using safe_okD(1) [OF Nil.prems(1)] by (simp add: ring_def)
  then have "moved (active h xs C) {} h xs C C" by (rule moved_same)
  then show ?case using Nil by (intro exI [of _ s] exI [of _ "{}"] exI [of _ C]) simp
next
  case (Cons q qs)
  have q: "q \<in> set (D p)" "q \<noteq> h" using Cons.prems(2,3) by (auto simp: unlinked_clear_def)
  show ?case
  proof (cases "l_next s q = 0")
    case True
    then show ?thesis using Cons.IH [OF Cons.prems(1,2)] Cons.prems(3) by simp
  next
    case False
    then have "q \<in> set xs" using Cons.prems(2) q(1) unfolding unlinked_clear_def by metis
    then obtain as bs where xs: "xs = as @ q # bs" by (auto simp: in_set_conv_decomp)
    note D = safe_okD(1) [OF Cons.prems(1)]
    have dist: "distinct (h # as @ q # bs)" using D by (simp add: ring_def xs)
    let ?n = "hd (bs @ [h])"
    from safe_list_del_ok [OF Cons.prems(1) [unfolded xs]] obtain s1 where
      s1: "safe_list_del q s = Some s1" "safe_ok h (as @ bs) (C(?n := C q @ C ?n)) s1" "it_sp s1 = it_sp s" "safe_heap.more s1 = safe_heap.more s" "l_next s1 q = 0"
        "\<forall>r. r \<notin> set (h # as @ q # bs) \<longrightarrow> l_next s1 r = l_next s r" by blast
    note M = safe_list_del_moved [OF dist]
    have wo: "without {q} xs = as @ bs" using M(2) xs by simp
    have clear: "unlinked_clear D h (as @ bs) s1"
    proof -
      have "r \<in> set (as @ bs) \<or> l_next s1 r = 0" if "r \<in> set (D p')" for p' r
      proof (cases "r \<in> set (h # as @ q # bs)")
        case True
        moreover have "r \<noteq> h" using that Cons.prems(2) unfolding unlinked_clear_def by metis
        ultimately show ?thesis using s1(5) by auto
      next
        case False
        then have "l_next s1 r = l_next s r" "r \<notin> set xs" using s1(6) xs by auto
        then show ?thesis using that Cons.prems(2) unfolding unlinked_clear_def by metis
      qed
      then show ?thesis using Cons.prems(2) by (simp add: unlinked_clear_def)
    qed
    have "set qs \<subseteq> set (D p)" using Cons.prems(3) by simp
    from Cons.IH [OF s1(2) clear this] obtain s' E C' where
      IH: "delete_all qs s1 = Some s'" "safe_ok h (without E (as @ bs)) C' s'" "unlinked_clear D h (without E (as @ bs)) s'"
        "active h (without E (as @ bs)) C' = active h (as @ bs) (C(?n := C q @ C ?n))" "moved (active h (as @ bs) (C(?n := C q @ C ?n))) E h (as @ bs) (C(?n := C q @ C ?n)) C'"
        "it_sp s' = it_sp s1" "safe_heap.more s' = safe_heap.more s1" by blast
    have w2: "without E (as @ bs) = without ({q} \<union> E) xs" unfolding wo [symmetric] by (simp add: conj_commute)
    have act: "active h (as @ bs) (C(?n := C q @ C ?n)) = active h xs C" using M(3) xs by simp
    have d: "distinct (h # xs)" using dist xs by simp
    have "moved (active h xs C) ({q} \<union> E) h xs C C'"
      by (rule moved_trans [OF d, where ?C1.0 = "C(?n := C q @ C ?n)"]) (use M(1) IH(5) act wo xs in auto)
    then show ?thesis using False s1(1,3,4) IH w2 act by (intro exI [of _ s'] exI [of _ "{q} \<union> E"] exI [of _ C']) simp
  qed
qed

interpretation deleter: safe_callback "delete_cb D" h "unlinked_clear D h" "\<lambda>ps s s'. log s' = log s @ ps" for D :: "addr \<Rightarrow> addr list" and h
proof
  fix s s' :: log_heap
  show "l_next s' = l_next s \<Longrightarrow> unlinked_clear D h xs s' = unlinked_clear D h xs s" for xs by (simp add: unlinked_clear_def)
  show "safe_heap.more s' = safe_heap.more s \<Longrightarrow> log s' = log s @ []" by (cases s; cases s') simp
  show "log s' = log s @ ps \<Longrightarrow> log s'' = log s' @ qs \<Longrightarrow> log s'' = log s @ ps @ qs" for ps qs and s'' :: log_heap by simp
  fix xs C p
  assume ok: "safe_ok h xs C s" "unlinked_clear D h xs s"
  let ?s = "s\<lparr>log := log s @ [p]\<rparr>"
  have rv: "ref_val ?s r = ref_val s r" for r by (cases r) simp_all
  have "ring ?s h xs" using safe_okD(1) [OF ok(1)] ring_cong [of h xs ?s s] by simp
  moreover have "iseg ?s (Slot q) q (C q) 0" if "q \<in> set (h # xs)" for q using safe_okD(2) [OF ok(1) that] iseg_cong [of ?s "Slot q" s "C q" q 0] rv by simp
  ultimately have "safe_ok h xs C ?s" using safe_okD(3-6) [OF ok(1)] by (intro safe_okI) auto
  moreover have "unlinked_clear D h xs ?s" using ok(2) by (simp add: unlinked_clear_def)
  ultimately obtain s1 E C' where d: "delete_all (D p) ?s = Some s1" "safe_ok h (without E xs) C' s1" "unlinked_clear D h (without E xs) s1"
    "active h (without E xs) C' = active h xs C" "moved (active h xs C) E h xs C C'" "it_sp s1 = it_sp s" "safe_heap.more s1 = safe_heap.more ?s"
    using delete_all_ok [of h xs C ?s D "D p" p] by auto
  have "log s1 = log s @ [p]" using d(7) by (cases s1; cases s) simp
  then show "\<exists>ret s' E C'. delete_cb D p s = Some (ret, s') \<and> unlinked_clear D h (without E xs) s' \<and> safe_ok h (without E xs) C' s' \<and>
      active h (without E xs) C' = active h xs C \<and> moved (active h xs C) E h xs C C' \<and> it_sp s' = it_sp s \<and> log s' = log s @ [p]"
    using d by (simp add: delete_cb_def) blast
qed

section \<open>The property of safe lists\<close>

text \<open>C31: iterating over a list that changes.  With a callback that may delete any nodes of the list, the current one, the next ones or
  those that other running iterations wait for, and that may itself iterate, \<open>safe_list_for_each\<close> terminates without touching a deleted node.
  It calls the callback in the order of the list, at most once for each node, and, unless the callback stops it, for every node that
  is left in the end; the iterations that were under way stay on their next node that is left.\<close>

theorem safe_list_for_each_correct:
  assumes "safe_callback cb h P calls" "safe_ok h xs C s" "P xs s"
  shows "\<exists>ret s' D C' vs. safe_list_for_each cb h s = Some (ret, s') \<and> safe_ok h (without D xs) C' s' \<and> moved (active h xs C) D h xs C C' \<and>
    calls vs s s' \<and> subseq vs xs \<and> (ret = 0 \<longrightarrow> set (without D xs) \<subseteq> set vs)"
  using safe_callback.for_each_ok [OF assms] by blast

text \<open>Three nodes behind the head 1; the callback on 2 deletes 2 and 3.\<close>

definition safe_sample :: log_heap where
  "safe_sample = \<lparr>l_next = (\<lambda>p. if p = 4 then 1 else if p \<in> {1, 2, 3} then p + 1 else 0), l_prev = (\<lambda>p. if p = 1 then 4 else p - 1),
     sl_i = (\<lambda>_. 0), it_head = (\<lambda>_. Slot 0), it_next_i = (\<lambda>_. 0), it_next = (\<lambda>_. 0), it_sp = 1, log = []\<rparr>"

theorem safe_list_for_each_correct_witness:
  "\<exists>ret s' D C'. safe_list_for_each (delete_cb (\<lambda>p. if p = 2 then [2, 3] else [])) 1 safe_sample = Some (ret, s') \<and>
     safe_ok 1 (without D [2, 3, 4]) C' s' \<and> subseq (log s') [2, 3, 4]"
proof -
  let ?D = "\<lambda>p. if p = 2 then [2, 3] else [] :: addr list"
  have ok: "safe_ok 1 [2, 3, 4] (\<lambda>_. []) safe_sample" by (simp add: safe_ok_def ring_def active_def safe_sample_def)
  have "unlinked_clear ?D 1 [2, 3, 4] safe_sample" by (simp add: unlinked_clear_def)
  from safe_list_for_each_correct [OF deleter.safe_callback_axioms ok this] obtain ret s' D C' vs where
    "safe_list_for_each (delete_cb ?D) 1 safe_sample = Some (ret, s')" "safe_ok 1 (without D [2, 3, 4]) C' s'" "log s' = log safe_sample @ vs" "subseq vs [2, 3, 4]"
    by blast
  then show ?thesis by (intro exI [of _ ret] exI [of _ s'] exI [of _ D] exI [of _ C']) (simp add: safe_sample_def)
qed

end
