(* ===== verification/Json_Script.thy ===== *)
theory Json_Script
  imports Blobmsg
begin

text \<open>
  The interpreter of scripts in messages (\<open>libubox/json_script.c\<close>).  A script is a message of \<open>Blobmsg\<close>: a
  command or an expression is an array that starts with its name.  The arguments of commands are built
  in the buffer of the context with the functions of \<open>Blobmsg\<close>; the table of loaded files, an AVL tree in the
  code, is a map.

  Expressions and the building of strings are total functions, in which \<^const>\<open>None\<close> is a fault.  Running
  commands may load files that load files, so it need not end: there \<^const>\<open>None\<close> means that it does not
  return, and a fault is a value.  The functions that handle commands, variables, files and errors work
  on a state \<open>'w\<close>; matching regular expressions is a parameter.
\<close>

section \<open>Messages\<close>

fun msg_type :: "blobmsg \<Rightarrow> u32" where
  "msg_type (Field ty name data) = ty"
| "msg_type (Nested name array ms) = nested_type array"

fun msg_name :: "blobmsg \<Rightarrow> bytes" where
  "msg_name (Field ty name data) = str name"
| "msg_name (Nested name array ms) = str name"

text \<open>The C string at the data of a field.\<close>

fun msg_str :: "blobmsg \<Rightarrow> bytes" where
  "msg_str (Field ty name data) = takeWhile (\<lambda>b. b \<noteq> 0) data"
| "msg_str (Nested name array ms) = []"

fun msg_elems :: "blobmsg \<Rightarrow> blobmsg list" where
  "msg_elems (Field ty name data) = []"
| "msg_elems (Nested name array ms) = ms"

text \<open>\<open>blobmsg_parse_array\<close> on well-formed elements: an element of the wrong type is skipped.\<close>

fun parse_array :: "u32 list \<Rightarrow> blobmsg list \<Rightarrow> blobmsg option list" where
  "parse_array [] ms = []"
| "parse_array (ty # tys) [] = None # parse_array tys []"
| "parse_array (ty # tys) (m # ms) =
     (if ty \<noteq> BLOBMSG_TYPE_UNSPEC \<and> msg_type m \<noteq> ty then parse_array (ty # tys) ms else Some m # parse_array tys ms)"

definition json_get_tuple :: "blobmsg \<Rightarrow> u32 \<Rightarrow> u32 \<Rightarrow> blobmsg option list" where
  "json_get_tuple cur t1 t2 = parse_array [BLOBMSG_TYPE_STRING, t1, t2] (msg_elems cur)"

section \<open>Contexts\<close>

text \<open>A file with the chain of those that \<open>handle_file\<close> has linked to it.\<close>

record js_file =
  f_seq :: u32
  f_chain :: "blobmsg list"

record 'w json_script_ctx =
  js_files :: "bytes \<rightharpoonup> js_file"
  js_buf :: blob_buf
  js_world :: 'w

record json_call =
  c_vars :: blobmsg
  c_seq :: u32

text \<open>\<open>handle_file\<close> gives the key and the contents of a new file; \<open>regex pattern string\<close> is \<^const>\<open>None\<close> for a pattern that does not compile;
  \<open>mem_ok\<close> says which sizes \<open>realloc\<close> can give.\<close>

record 'w json_ops =
  handle_command :: "bytes \<Rightarrow> blob_buf \<Rightarrow> blobmsg \<Rightarrow> 'w \<Rightarrow> 'w"
  handle_var :: "bytes \<Rightarrow> blobmsg \<Rightarrow> 'w \<Rightarrow> bytes option"
  handle_file :: "bytes \<Rightarrow> 'w \<Rightarrow> (bytes \<times> js_file) option \<times> 'w"
  handle_error :: "string \<Rightarrow> blobmsg \<Rightarrow> 'w \<Rightarrow> 'w"
  regex :: "bytes \<Rightarrow> bytes \<Rightarrow> bool option"
  mem_ok :: "nat \<Rightarrow> bool"

text \<open>The handlers of a user, before \<open>json_script_init\<close> replaces those that are missing.\<close>

record 'w json_user =
  u_command :: "bytes \<Rightarrow> blob_buf \<Rightarrow> blobmsg \<Rightarrow> 'w \<Rightarrow> 'w"
  u_var :: "(bytes \<Rightarrow> blobmsg \<Rightarrow> 'w \<Rightarrow> bytes option) option"
  u_file :: "(bytes \<Rightarrow> 'w \<Rightarrow> (bytes \<times> js_file) option \<times> 'w) option"
  u_error :: "(string \<Rightarrow> blobmsg \<Rightarrow> 'w \<Rightarrow> 'w) option"

definition default_handle_error :: "string \<Rightarrow> blobmsg \<Rightarrow> 'w \<Rightarrow> 'w" where
  "default_handle_error msg context w = w"

definition default_handle_var :: "bytes \<Rightarrow> blobmsg \<Rightarrow> 'w \<Rightarrow> bytes option" where
  "default_handle_var name vars w = None"

definition default_handle_file :: "bytes \<Rightarrow> 'w \<Rightarrow> (bytes \<times> js_file) option \<times> 'w" where
  "default_handle_file name w = (None, w)"

definition json_script_init :: "'w json_user \<Rightarrow> (bytes \<Rightarrow> bytes \<Rightarrow> bool option) \<Rightarrow> (nat \<Rightarrow> bool) \<Rightarrow> blob_buf \<Rightarrow> 'w \<Rightarrow> 'w json_ops \<times> 'w json_script_ctx" where
  "json_script_init u rx mem b w =
     (\<lparr>handle_command = u_command u,
       handle_var = (case u_var u of None \<Rightarrow> default_handle_var | Some h \<Rightarrow> h),
       handle_file = (case u_file u of None \<Rightarrow> default_handle_file | Some h \<Rightarrow> h),
       handle_error = (case u_error u of None \<Rightarrow> default_handle_error | Some h \<Rightarrow> h),
       regex = rx, mem_ok = mem\<rparr>,
      \<lparr>js_files = Map.empty, js_buf = b, js_world = w\<rparr>)"

text \<open>\<open>json_script_file_from_blobmsg\<close> with a name.\<close>

definition json_script_file_from_blobmsg :: "bytes \<Rightarrow> blobmsg \<Rightarrow> bytes \<times> js_file" where
  "json_script_file_from_blobmsg name data = (name, \<lparr>f_seq = 0, f_chain = [data]\<rparr>)"

text \<open>The file, and its key when it is in the tree.\<close>

definition json_script_get_file :: "'w json_ops \<Rightarrow> bytes \<Rightarrow> 'w json_script_ctx \<Rightarrow> (bytes option \<times> js_file) option \<times> 'w json_script_ctx" where
  "json_script_get_file ops name ctx = (case js_files ctx name of
     Some f \<Rightarrow> (Some (Some name, f), ctx)
   | None \<Rightarrow> (case handle_file ops name (js_world ctx) of
       (None, w) \<Rightarrow> (None, ctx\<lparr>js_world := w\<rparr>)
     | (Some (key, f), w) \<Rightarrow>
         let ctx = ctx\<lparr>js_world := w\<rparr> in
         if js_files ctx key = None then (Some (Some key, f), ctx\<lparr>js_files := (js_files ctx)(key \<mapsto> f)\<rparr>)
         else (Some (None, f), ctx)))"

definition json_script_find_var :: "'w json_ops \<Rightarrow> blobmsg \<Rightarrow> bytes \<Rightarrow> 'w \<Rightarrow> bytes option" where
  "json_script_find_var ops vars name w =
     (case find (\<lambda>m. msg_type m = BLOBMSG_TYPE_STRING \<and> msg_name m = name) (msg_elems vars) of
        Some m \<Rightarrow> Some (msg_str m)
      | None \<Rightarrow> handle_var ops name vars w)"

section \<open>Expressions\<close>

definition eq_regex_cmp :: "'w json_ops \<Rightarrow> bytes \<Rightarrow> bytes \<Rightarrow> bool \<Rightarrow> bool" where
  "eq_regex_cmp ops s pattern rx = (if \<not> rx then s = pattern else regex ops pattern s = Some True)"

text \<open>The loops over the alternatives of \<open>eq\<close>, \<open>regex\<close> and \<open>has\<close>: \<open>P\<close> is the test.\<close>

fun expr_any :: "'w json_ops \<Rightarrow> (bytes \<Rightarrow> bool) \<Rightarrow> blobmsg list \<Rightarrow> 'w \<Rightarrow> int \<times> 'w" where
  "expr_any ops P [] w = (0, w)"
| "expr_any ops P (cur # ms) w =
     (if msg_type cur \<noteq> BLOBMSG_TYPE_STRING then (- 1, handle_error ops ''Unexpected element type'' cur w)
      else if P (msg_str cur) then (1, w)
      else expr_any ops P ms w)"

definition expr_strings :: "'w json_ops \<Rightarrow> (bytes \<Rightarrow> bool) \<Rightarrow> blobmsg \<Rightarrow> 'w \<Rightarrow> int \<times> 'w" where
  "expr_strings ops P m w =
     (if msg_type m = BLOBMSG_TYPE_STRING then (if P (msg_str m) then 1 else 0, w)
      else if msg_type m = BLOBMSG_TYPE_ARRAY then expr_any ops P (msg_elems m) w
      else (- 1, handle_error ops ''Unexpected element type'' m w))"

definition expr_eq_regex :: "'w json_ops \<Rightarrow> blobmsg \<Rightarrow> blobmsg \<Rightarrow> bool \<Rightarrow> 'w \<Rightarrow> int \<times> 'w" where
  "expr_eq_regex ops vars expr rx w = (case json_get_tuple expr BLOBMSG_TYPE_STRING BLOBMSG_TYPE_UNSPEC of
     [_, Some t1, Some t2] \<Rightarrow> (case json_script_find_var ops vars (msg_str t1) w of
         None \<Rightarrow> (0, w)
       | Some var \<Rightarrow> expr_strings ops (\<lambda>pattern. eq_regex_cmp ops var pattern rx) t2 w)
   | _ \<Rightarrow> (- 1, w))"

definition handle_expr_has :: "'w json_ops \<Rightarrow> blobmsg \<Rightarrow> blobmsg \<Rightarrow> 'w \<Rightarrow> int \<times> 'w" where
  "handle_expr_has ops vars expr w = (case json_get_tuple expr BLOBMSG_TYPE_UNSPEC BLOBMSG_TYPE_UNSPEC of
     [_, Some t1, _] \<Rightarrow> expr_strings ops (\<lambda>name. json_script_find_var ops vars name w \<noteq> None) t1 w
   | _ \<Rightarrow> (- 1, w))"

abbreviation bytes_of :: "string \<Rightarrow> bytes" where
  "bytes_of s \<equiv> map of_char s"

lemma parse_array_set: "Some m \<in> set (parse_array tys ms) \<Longrightarrow> m \<in> set ms"
  by (induction tys ms rule: parse_array.induct) (auto split: if_splits)

lemma parse_array_length [simp]: "length (parse_array tys ms) = length tys"
  by (induction tys ms rule: parse_array.induct) auto

lemma json_get_tuple_mem: "Some m \<in> set (json_get_tuple cur t1 t2) \<Longrightarrow> m \<in> set (msg_elems cur)"
  unfolding json_get_tuple_def by (rule parse_array_set)

lemma msg_elems_size: "m \<in> set (msg_elems cur) \<Longrightarrow> size m < size cur"
  by (cases cur) (auto dest: size_list_estimation' [where f = size, OF _ order.refl])

lemma msg_tl_size: "msg_elems cur = m # ms \<Longrightarrow> size_list size ms < size cur"
  by (cases cur) auto

text \<open>\<open>json_process_expr\<close> with its handlers; looking at the first element of an empty array is a fault.\<close>

function (sequential) json_process_expr :: "'w json_ops \<Rightarrow> blobmsg \<Rightarrow> blobmsg \<Rightarrow> 'w \<Rightarrow> (int \<times> 'w) option"
  and expr_and_or :: "'w json_ops \<Rightarrow> blobmsg \<Rightarrow> bool \<Rightarrow> blobmsg list \<Rightarrow> 'w \<Rightarrow> (int \<times> 'w) option" where
  "json_process_expr ops vars cur w =
     (if msg_type cur \<noteq> BLOBMSG_TYPE_ARRAY then Some (- 1, handle_error ops ''Unexpected element type'' cur w)
      else case msg_elems cur of
        [] \<Rightarrow> None
      | first # _ \<Rightarrow>
          if msg_type first \<noteq> BLOBMSG_TYPE_STRING then Some (- 1, handle_error ops ''Unexpected element type'' cur w)
          else let name = msg_str first in
            if name = bytes_of ''eq'' then Some (expr_eq_regex ops vars cur False w)
            else if name = bytes_of ''regex'' then Some (expr_eq_regex ops vars cur True w)
            else if name = bytes_of ''has'' then Some (handle_expr_has ops vars cur w)
            else if name = bytes_of ''and'' then expr_and_or ops vars True (tl (msg_elems cur)) w
            else if name = bytes_of ''or'' then expr_and_or ops vars False (tl (msg_elems cur)) w
            else if name = bytes_of ''not'' then (case json_get_tuple cur BLOBMSG_TYPE_ARRAY BLOBMSG_TYPE_UNSPEC ! 1 of
                None \<Rightarrow> Some (- 1, w)
              | Some t1 \<Rightarrow> json_process_expr ops vars t1 w)
            else Some (- 1, handle_error ops ''Unknown expression type'' cur w))"
| "expr_and_or ops vars andp [] w = Some (if andp then 1 else 0, w)"
| "expr_and_or ops vars andp (cur # ms) w = do {
     (ret, w) \<leftarrow> json_process_expr ops vars cur w;
     if ret < 0 then Some (ret, w)
     else if ret \<noteq> (if andp then 1 else 0) then Some (ret, w)
     else expr_and_or ops vars andp ms w
   }"
  by pat_completeness auto
termination
proof (relation "measure (\<lambda>x. case x of Inl (ops, vars, cur, w) \<Rightarrow> size cur | Inr (ops, vars, andp, ms, w) \<Rightarrow> size_list size ms)", goal_cases)
  case (4 ops vars cur w first rest name t1)
  have "length (json_get_tuple cur BLOBMSG_TYPE_ARRAY BLOBMSG_TYPE_UNSPEC) = 3" by (simp add: json_get_tuple_def)
  then have "Some t1 \<in> set (json_get_tuple cur BLOBMSG_TYPE_ARRAY BLOBMSG_TYPE_UNSPEC)" using 4 nth_mem [of 1 "json_get_tuple cur BLOBMSG_TYPE_ARRAY BLOBMSG_TYPE_UNSPEC"] by simp
  then show ?case using msg_elems_size [OF json_get_tuple_mem] by simp
qed (auto dest: msg_tl_size)

section \<open>The arguments of commands\<close>

text \<open>The loop of \<open>cmd_add_string\<close> over the parts between percent signs; \<open>var\<close> says that the part at hand is the name of a variable.
  The result has the flag, the length, the start of the string and the buffer.\<close>

function cmd_string_loop :: "'w json_ops \<Rightarrow> blobmsg \<Rightarrow> 'w \<Rightarrow> bytes \<Rightarrow> bool \<Rightarrow> nat \<Rightarrow> nat \<Rightarrow> blob_buf \<Rightarrow> (bool \<times> nat \<times> nat \<times> blob_buf) option" where
  "cmd_string_loop ops vars w s var len dest b = do {
     let part = takeWhile (\<lambda>c. c \<noteq> 37) s;
     let found = (length part < length s);
     let cur = (if var then (if found then json_script_find_var ops vars part w else Some [37])
                else if part = [] then None else Some part);
     (len, dest, b) \<leftarrow> (case cur of
         None \<Rightarrow> Some (len, dest, b)
       | Some cs \<Rightarrow> do {
           (dest, b) \<leftarrow> blobmsg_realloc_string_buffer (mem_ok ops) b (length cs + 1);
           m \<leftarrow> blob_mem b;
           m \<leftarrow> mem_write m (dest + len) cs;
           Some (len + length cs, dest, b\<lparr>blob_mem := Some m\<rparr>)
         });
     if found then cmd_string_loop ops vars w (drop (length part + 1) s) (\<not> var) len dest b
     else Some (var, len, dest, b)
   }"
  by pat_completeness auto
termination
  by (relation "measure (\<lambda>(ops, vars, w, s, _). length s)") auto

declare cmd_string_loop.simps [simp del]

definition cmd_add_string :: "'w json_ops \<Rightarrow> blobmsg \<Rightarrow> 'w \<Rightarrow> bytes \<Rightarrow> blob_buf \<Rightarrow> (int \<times> blob_buf) option" where
  "cmd_add_string ops vars w pattern b = do {
     (dest, b) \<leftarrow> blobmsg_alloc_string_buffer (mem_ok ops) b None 1;
     (var, len, dest, b) \<leftarrow> cmd_string_loop ops vars w pattern False 0 dest b;
     if var then Some (- 1, b)
     else do {
       m \<leftarrow> blob_mem b;
       m \<leftarrow> mem_write m (dest + len) [0];
       b \<leftarrow> blobmsg_add_string_buffer (b\<lparr>blob_mem := Some m\<rparr>);
       Some (0, b)
     }
   }"

text \<open>The loop of \<open>cmd_process_strings\<close> over the arguments behind the name.\<close>

fun cmd_strings_loop :: "'w json_ops \<Rightarrow> blobmsg \<Rightarrow> blobmsg \<Rightarrow> blobmsg list \<Rightarrow> blob_buf \<Rightarrow> 'w \<Rightarrow> (int \<times> blob_buf \<times> 'w) option" where
  "cmd_strings_loop ops vars attr [] b w = Some (0, b, w)"
| "cmd_strings_loop ops vars attr (cur # ms) b w =
     (if msg_type cur \<noteq> BLOBMSG_TYPE_STRING then Some (- 1, b, handle_error ops ''Invalid argument in command'' attr w)
      else do {
        (ret, b) \<leftarrow> cmd_add_string ops vars w (msg_str cur) b;
        if ret \<noteq> 0 then Some (ret, b, handle_error ops ''Unterminated variable reference in string'' attr w)
        else cmd_strings_loop ops vars attr ms b w
      })"

definition cmd_process_strings :: "'w json_ops \<Rightarrow> json_call \<Rightarrow> blobmsg \<Rightarrow> 'w json_script_ctx \<Rightarrow> (int \<times> 'w json_script_ctx) option" where
  "cmd_process_strings ops call attr ctx = do {
     (_, b) \<leftarrow> blob_buf_init (mem_ok ops) (js_buf ctx) 0;
     (c, b) \<leftarrow> blobmsg_open_nested (mem_ok ops) b None True;
     (ret, b, w) \<leftarrow> cmd_strings_loop ops (c_vars call) attr (tl (msg_elems attr)) b (js_world ctx);
     if ret \<noteq> 0 then Some (ret, ctx\<lparr>js_buf := b, js_world := w\<rparr>)
     else do {
       b \<leftarrow> blobmsg_close_nested b c;
       Some (0, ctx\<lparr>js_buf := b, js_world := w\<rparr>)
     }
   }"

section \<open>Commands\<close>

text \<open>What is to be done: process a message, go on with the elements of a block from index \<open>i\<close>, or run a chain of files.\<close>

datatype job = Process blobmsg | Elems nat "blobmsg list" blobmsg | Chain "blobmsg list"

text \<open>A handler ends with a result, or by calling the interpreter.\<close>

datatype next_step = Return int | Call job

definition handle_if :: "'w json_ops \<Rightarrow> json_call \<Rightarrow> blobmsg \<Rightarrow> 'w json_script_ctx \<Rightarrow> (next_step \<times> 'w json_script_ctx) option" where
  "handle_if ops call expr ctx =
     (let tb = parse_array [BLOBMSG_TYPE_STRING, BLOBMSG_TYPE_ARRAY, BLOBMSG_TYPE_ARRAY, BLOBMSG_TYPE_ARRAY] (msg_elems expr) in
      case (tb ! 1, tb ! 2) of
        (Some cond, Some yes) \<Rightarrow> do {
          (ret, w) \<leftarrow> json_process_expr ops (c_vars call) cond (js_world ctx);
          let ctx = ctx\<lparr>js_world := w\<rparr>;
          Some (if ret < 0 then Return 0
                else if ret \<noteq> 0 then Call (Process yes)
                else case tb ! 3 of None \<Rightarrow> Return 0 | Some no \<Rightarrow> Call (Process no), ctx)
        }
      | _ \<Rightarrow> Some (Return 0, ctx))"

definition handle_case :: "'w json_ops \<Rightarrow> json_call \<Rightarrow> blobmsg \<Rightarrow> 'w json_script_ctx \<Rightarrow> next_step \<times> 'w json_script_ctx" where
  "handle_case ops call expr ctx =
     (let tb = json_get_tuple expr BLOBMSG_TYPE_STRING BLOBMSG_TYPE_TABLE in
      case (tb ! 1, tb ! 2) of
        (Some t1, Some t2) \<Rightarrow> (case json_script_find_var ops (c_vars call) (msg_str t1) (js_world ctx) of
            None \<Rightarrow> (Return 0, ctx)
          | Some var \<Rightarrow> (case find (\<lambda>m. msg_name m = var) (msg_elems t2) of
                None \<Rightarrow> (Return 0, ctx)
              | Some cur \<Rightarrow> (Call (Process cur), ctx)))
      | _ \<Rightarrow> (Return 0, ctx))"

definition handle_return :: "next_step" where
  "handle_return = Return (- 2)"

text \<open>\<open>__json_script_run\<close>: a file that has already been run by this call is not run again.\<close>

definition json_script_run_file :: "'w json_ops \<Rightarrow> json_call \<Rightarrow> bytes option \<times> js_file \<Rightarrow> blobmsg option \<Rightarrow> 'w json_script_ctx \<Rightarrow> next_step \<times> 'w json_script_ctx" where
  "json_script_run_file ops call = (\<lambda>(key, file) context ctx.
     if f_seq file = c_seq call
     then (Return 0, case context of None \<Rightarrow> ctx | Some m \<Rightarrow> ctx\<lparr>js_world := handle_error ops ''Recursive include'' m (js_world ctx)\<rparr>)
     else (Call (Chain (f_chain file)),
       case key of None \<Rightarrow> ctx | Some k \<Rightarrow> ctx\<lparr>js_files := (js_files ctx)(k \<mapsto> file\<lparr>f_seq := c_seq call\<rparr>)\<rparr>))"

definition handle_include :: "'w json_ops \<Rightarrow> json_call \<Rightarrow> blobmsg \<Rightarrow> 'w json_script_ctx \<Rightarrow> next_step \<times> 'w json_script_ctx" where
  "handle_include ops call expr ctx = (case json_get_tuple expr BLOBMSG_TYPE_STRING BLOBMSG_TYPE_UNSPEC ! 1 of
     None \<Rightarrow> (Return 0, ctx)
   | Some t1 \<Rightarrow> (case json_script_get_file ops (msg_str t1) ctx of
       (None, ctx) \<Rightarrow> (Return 0, ctx)
     | (Some f, ctx) \<Rightarrow> json_script_run_file ops call f (Some expr) ctx))"

text \<open>\<open>__json_process_cmd\<close> on a block that starts with a string.\<close>

definition process_cmd :: "'w json_ops \<Rightarrow> json_call \<Rightarrow> blobmsg \<Rightarrow> 'w json_script_ctx \<Rightarrow> (next_step \<times> 'w json_script_ctx) option" where
  "process_cmd ops call cur ctx =
     (if msg_type cur \<noteq> BLOBMSG_TYPE_ARRAY
      then Some (Return (- 1), ctx\<lparr>js_world := handle_error ops ''Unexpected element type'' cur (js_world ctx)\<rparr>)
      else case msg_elems cur of
        [] \<Rightarrow> None
      | first # _ \<Rightarrow>
          if msg_type first \<noteq> BLOBMSG_TYPE_STRING
          then Some (Return (- 1), ctx\<lparr>js_world := handle_error ops ''Unexpected element type'' cur (js_world ctx)\<rparr>)
          else let name = msg_str first in
            if name = bytes_of ''if'' then handle_if ops call cur ctx
            else if name = bytes_of ''case'' then Some (handle_case ops call cur ctx)
            else if name = bytes_of ''return'' then Some (handle_return, ctx)
            else if name = bytes_of ''include'' then Some (handle_include ops call cur ctx)
            else do {
              (ret, ctx) \<leftarrow> cmd_process_strings ops call cur ctx;
              if ret \<noteq> 0 then Some (Return ret, ctx)
              else Some (Return 0, ctx\<lparr>js_world := handle_command ops name (js_buf ctx) (c_vars call) (js_world ctx)\<rparr>)
            })"

datatype 'a outcome = Fault | Done 'a

text \<open>\<open>json_process_cmd\<close> and the loops that call it.\<close>

partial_function (option) json_exec :: "'w json_ops \<Rightarrow> json_call \<Rightarrow> job \<Rightarrow> 'w json_script_ctx \<Rightarrow> (int \<times> 'w json_script_ctx) outcome option" where
  "json_exec ops call j ctx = (case j of
     Process block \<Rightarrow>
       if msg_type block \<noteq> BLOBMSG_TYPE_ARRAY
       then Some (Done (- 1, ctx\<lparr>js_world := handle_error ops ''Unexpected element type'' block (js_world ctx)\<rparr>))
       else json_exec ops call (Elems 0 (msg_elems block) block) ctx
   | Elems i ms block \<Rightarrow> (case ms of
       [] \<Rightarrow> Some (Done (0, ctx))
     | cur # ms \<Rightarrow>
         if msg_type cur = BLOBMSG_TYPE_STRING \<and> i = 0
         then (case process_cmd ops call block ctx of
             None \<Rightarrow> Some Fault
           | Some (Return ret, ctx) \<Rightarrow> Some (Done (ret, ctx))
           | Some (Call j, ctx) \<Rightarrow> json_exec ops call j ctx)
         else do {
           r \<leftarrow> json_exec ops call (Process cur) ctx;
           case r of
             Fault \<Rightarrow> Some Fault
           | Done (ret, ctx) \<Rightarrow> if ret < - 1 then Some (Done (ret, ctx)) else json_exec ops call (Elems (Suc i) ms block) ctx
         })
   | Chain ms \<Rightarrow> (case ms of
       [] \<Rightarrow> Some (Done (0, ctx))
     | m # ms \<Rightarrow> do {
         r \<leftarrow> json_exec ops call (Process m) ctx;
         case r of Fault \<Rightarrow> Some Fault | Done (_, ctx) \<Rightarrow> json_exec ops call (Chain ms) ctx
       }))"

declare json_exec.simps [code]

text \<open>\<open>json_script_run\<close>; \<open>seq\<close> is its static counter.\<close>

definition json_script_run :: "'w json_ops \<Rightarrow> bytes \<Rightarrow> blobmsg \<Rightarrow> u32 \<Rightarrow> 'w json_script_ctx \<Rightarrow> (u32 \<times> 'w json_script_ctx) outcome option" where
  "json_script_run ops name vars seq ctx =
     (let seq = seq + 1; seq = (if seq = 0 then seq + 1 else seq); call = \<lparr>c_vars = vars, c_seq = seq\<rparr> in
      case json_script_get_file ops name ctx of
        (None, ctx) \<Rightarrow> Some (Done (seq, ctx))
      | (Some f, ctx) \<Rightarrow> (case json_script_run_file ops call f None ctx of
          (Return _, ctx) \<Rightarrow> Some (Done (seq, ctx))
        | (Call j, ctx) \<Rightarrow> do {
            r \<leftarrow> json_exec ops call j ctx;
            case r of Fault \<Rightarrow> Some Fault | Done (_, ctx) \<Rightarrow> Some (Done (seq, ctx))
          }))"

text \<open>\<open>json_script_free\<close>: \<open>__json_script_file_free\<close> reads the next pointer of the file it goes on to, also when there is none.\<close>

fun json_script_file_free :: "blobmsg list \<Rightarrow> unit option" where
  "json_script_file_free [] = None"
| "json_script_file_free (f # fs) = json_script_file_free fs"

definition json_script_free :: "'w json_script_ctx \<Rightarrow> 'w json_script_ctx option" where
  "json_script_free ctx =
     (if \<exists>f \<in> ran (js_files ctx). json_script_file_free (f_chain f) = None then None
      else Some (ctx\<lparr>js_files := Map.empty, js_buf := blob_buf_free (js_buf ctx)\<rparr>))"

section \<open>Running a script returns\<close>

text \<open>The names whose files have not been run by the call with this number.\<close>

definition unmarked :: "bytes set \<Rightarrow> u32 \<Rightarrow> 'w json_script_ctx \<Rightarrow> bytes set" where
  "unmarked N s ctx = {n \<in> N. \<forall>f. js_files ctx n = Some f \<longrightarrow> f_seq f \<noteq> s}"

text \<open>What a step keeps: no file outside the names, and no file that is not marked again.\<close>

definition files_kept :: "bytes set \<Rightarrow> u32 \<Rightarrow> 'w json_script_ctx \<Rightarrow> 'w json_script_ctx \<Rightarrow> bool" where
  "files_kept N s ctx ctx' \<longleftrightarrow> dom (js_files ctx') \<subseteq> N \<and> unmarked N s ctx' \<subseteq> unmarked N s ctx"

lemma files_kept_same: "js_files ctx' = js_files ctx \<Longrightarrow> dom (js_files ctx) \<subseteq> N \<Longrightarrow> files_kept N s ctx ctx'"
  by (simp add: files_kept_def unmarked_def)

lemma files_kept_trans: "files_kept N s a b \<Longrightarrow> files_kept N s b c \<Longrightarrow> files_kept N s a c"
  unfolding files_kept_def by blast

text \<open>A loader: the files that \<open>handle_file\<close> gives carry the name they were asked by, and there are finitely many.\<close>

locale file_loader =
  fixes ops :: "'w json_ops" and N :: "bytes set"
  assumes finite_names: "finite N"
    and loads_named: "handle_file ops n w = (Some (key, f), w') \<Longrightarrow> key = n \<and> n \<in> N"
begin

lemma get_file_kept:
  assumes "json_script_get_file ops name ctx = (r, ctx')" and dom: "dom (js_files ctx) \<subseteq> N"
  shows "files_kept N s ctx ctx'" and "r = Some (k, f) \<Longrightarrow> k = Some name \<and> js_files ctx' name = Some f"
proof -
  obtain h w where h: "handle_file ops name (js_world ctx) = (h, w)" by (cases "handle_file ops name (js_world ctx)")
  have key: "key = name \<and> name \<in> N" if "h = Some (key, f)" for key f using loads_named h that by blast
  show "files_kept N s ctx ctx'"
    using assms h key subsetD [OF dom domI] by (auto simp: json_script_get_file_def files_kept_def unmarked_def Let_def split: option.splits if_splits)
  show "r = Some (k, f) \<Longrightarrow> k = Some name \<and> js_files ctx' name = Some f"
    using assms h key by (auto simp: json_script_get_file_def Let_def split: option.splits if_splits)
qed

lemma run_file_return:
  assumes "json_script_run_file ops call f c ctx = (Return ret, ctx')"
  shows "js_files ctx' = js_files ctx"
  using assms by (auto simp: json_script_run_file_def split: option.splits if_splits prod.splits)

lemma run_file_call:
  assumes "json_script_run_file ops call (Some n, f) c ctx = (Call j, ctx')" "js_files ctx n = Some f" "dom (js_files ctx) \<subseteq> N"
  shows "\<exists>ms. j = Chain ms" and "files_kept N (c_seq call) ctx ctx'" and "unmarked N (c_seq call) ctx' \<subset> unmarked N (c_seq call) ctx"
proof -
  have *: "f_seq f \<noteq> c_seq call" "j = Chain (f_chain f)" "js_files ctx' = (js_files ctx)(n \<mapsto> f\<lparr>f_seq := c_seq call\<rparr>)"
    using assms by (auto simp: json_script_run_file_def split: if_splits)
  have sub: "unmarked N (c_seq call) ctx' \<subseteq> unmarked N (c_seq call) ctx" using * assms(2) by (auto simp: unmarked_def split: if_splits)
  moreover have "n \<in> unmarked N (c_seq call) ctx" using * assms by (auto simp: unmarked_def)
  moreover have "n \<notin> unmarked N (c_seq call) ctx'" using * by (auto simp: unmarked_def)
  ultimately show "unmarked N (c_seq call) ctx' \<subset> unmarked N (c_seq call) ctx" by blast
  show "\<exists>ms. j = Chain ms" using * by blast
  show "files_kept N (c_seq call) ctx ctx'" using sub * assms by (auto simp: files_kept_def)
qed

end

text \<open>How the interpreter calls itself: on an inner block of the command with the files unchanged, or on a chain of files of which one has just been marked.\<close>

definition call_ok :: "bytes set \<Rightarrow> u32 \<Rightarrow> blobmsg \<Rightarrow> 'w json_script_ctx \<Rightarrow> next_step \<Rightarrow> 'w json_script_ctx \<Rightarrow> bool" where
  "call_ok N s cur ctx st ctx' \<longleftrightarrow> files_kept N s ctx ctx' \<and> (case st of
     Return _ \<Rightarrow> True
   | Call (Process m) \<Rightarrow> size m < size cur
   | Call (Chain ms) \<Rightarrow> unmarked N s ctx' \<subset> unmarked N s ctx
   | Call (Elems _ _ _) \<Rightarrow> False)"

lemma call_ok_return: "js_files ctx' = js_files ctx \<Longrightarrow> dom (js_files ctx) \<subseteq> N \<Longrightarrow> call_ok N s cur ctx (Return ret) ctx'"
  by (simp add: call_ok_def files_kept_same)

lemma call_ok_process: "js_files ctx' = js_files ctx \<Longrightarrow> dom (js_files ctx) \<subseteq> N \<Longrightarrow> size m < size cur \<Longrightarrow> call_ok N s cur ctx (Call (Process m)) ctx'"
  by (simp add: call_ok_def files_kept_same)

lemmas call_ok_intros = call_ok_return call_ok_process

lemma parse_array_nth:
  "parse_array tys ms ! i = Some m \<Longrightarrow> i < length tys \<Longrightarrow> m \<in> set ms"
  using parse_array_set [of m tys ms] nth_mem [of i "parse_array tys ms"] by simp

lemma handle_if_ok:
  assumes "handle_if ops call cur ctx = Some (st, ctx')" "dom (js_files ctx) \<subseteq> N"
  shows "call_ok N s cur ctx st ctx'"
proof -
  have "m \<in> set (msg_elems cur)" if "i < 4" "parse_array [BLOBMSG_TYPE_STRING, BLOBMSG_TYPE_ARRAY, BLOBMSG_TYPE_ARRAY, BLOBMSG_TYPE_ARRAY] (msg_elems cur) ! i = Some m" for i m
    using parse_array_nth [OF that(2)] that(1) by simp
  note mem = this [of 2, THEN msg_elems_size] this [of 3, THEN msg_elems_size]
  show ?thesis using assms mem
    by (auto simp: handle_if_def Let_def split: option.splits if_splits bind_splits intro!: call_ok_intros)
qed

lemma handle_case_ok:
  assumes "handle_case ops call cur ctx = (st, ctx')" "dom (js_files ctx) \<subseteq> N"
  shows "call_ok N s cur ctx st ctx'"
proof -
  have "size m < size cur" if "json_get_tuple cur BLOBMSG_TYPE_STRING BLOBMSG_TYPE_TABLE ! 2 = Some t" "m \<in> set (msg_elems t)" for t m
  proof -
    have "t \<in> set (msg_elems cur)" using parse_array_nth that(1) unfolding json_get_tuple_def by fastforce
    then show ?thesis using msg_elems_size that(2) less_trans by blast
  qed
  note mem = this
  show ?thesis using assms
    by (auto simp: handle_case_def Let_def find_Some_iff split: option.splits if_splits intro!: call_ok_intros mem nth_mem)
qed

lemma cmd_process_strings_files:
  "cmd_process_strings ops call cur ctx = Some (ret, ctx') \<Longrightarrow> js_files ctx' = js_files ctx"
  by (auto simp: cmd_process_strings_def split: if_splits bind_splits prod.splits)

lemma process_cmdE:
  assumes "process_cmd ops call cur ctx = Some (st, ctx')"
  obtains (Ret) ret where "st = Return ret" "js_files ctx' = js_files ctx"
  | (If) "handle_if ops call cur ctx = Some (st, ctx')"
  | (Case) "handle_case ops call cur ctx = (st, ctx')"
  | (Include) "handle_include ops call cur ctx = (st, ctx')"
  using assms unfolding process_cmd_def
  by (auto simp: Let_def handle_return_def split: if_split_asm list.split_asm bind_split_asm) (drule cmd_process_strings_files; simp)+

text \<open>The order in which the jobs of a run get smaller.\<close>

fun job_ok :: "job \<Rightarrow> bool" where
  "job_ok (Elems i ms b) = (set ms \<subseteq> set (msg_elems b))"
| "job_ok _ = True"

fun job_size :: "job \<Rightarrow> nat \<times> nat \<times> nat" where
  "job_size (Process b) = (size b, 1, 0)"
| "job_size (Elems i ms b) = (size b, 0, length ms)"
| "job_size (Chain ms) = (size_list size ms, 0, 0)"

definition job_less :: "bytes set \<Rightarrow> u32 \<Rightarrow> ((job \<times> 'w json_script_ctx) \<times> (job \<times> 'w json_script_ctx)) set" where
  "job_less N s = inv_image (less_than <*lex*> less_than <*lex*> less_than <*lex*> less_than) (\<lambda>(j, ctx). (card (unmarked N s ctx), job_size j))"

lemma wf_job_less: "wf (job_less N s)"
  unfolding job_less_def by (intro wf_inv_image wf_lex_prod wf_less_than)

lemma job_lessI:
  assumes "finite N" "unmarked N s ctx' \<subset> unmarked N s ctx \<or> unmarked N s ctx' \<subseteq> unmarked N s ctx \<and> (job_size j', job_size j) \<in> less_than <*lex*> less_than <*lex*> less_than"
  shows "((j', ctx'), (j, ctx)) \<in> job_less N s"
proof -
  have fin: "finite (unmarked N s ctx)" using assms(1) by (simp add: unmarked_def)
  show ?thesis using assms(2)
  proof
    assume "unmarked N s ctx' \<subset> unmarked N s ctx"
    then show ?thesis using psubset_card_mono [OF fin] by (simp add: job_less_def)
  next
    assume "unmarked N s ctx' \<subseteq> unmarked N s ctx \<and> (job_size j', job_size j) \<in> less_than <*lex*> less_than <*lex*> less_than"
    moreover from this have "card (unmarked N s ctx') < card (unmarked N s ctx) \<or> card (unmarked N s ctx') = card (unmarked N s ctx)"
      using card_mono [OF fin] le_neq_implies_less by blast
    ultimately show ?thesis by (auto simp: job_less_def)
  qed
qed

context file_loader
begin

lemma handle_include_ok:
  assumes "handle_include ops call cur ctx = (st, ctx')" and dom: "dom (js_files ctx) \<subseteq> N"
  shows "call_ok N (c_seq call) cur ctx st ctx'"
proof (cases "json_get_tuple cur BLOBMSG_TYPE_STRING BLOBMSG_TYPE_UNSPEC ! 1")
  case None
  then show ?thesis using assms by (auto simp: handle_include_def intro: call_ok_return)
next
  case (Some t1)
  obtain r ctx1 where g: "json_script_get_file ops (msg_str t1) ctx = (r, ctx1)" by (cases "json_script_get_file ops (msg_str t1) ctx")
  note kept = get_file_kept(1) [OF g dom, of "c_seq call"]
  then have dom1: "dom (js_files ctx1) \<subseteq> N" by (simp add: files_kept_def)
  show ?thesis
  proof (cases r)
    case None
    then show ?thesis using assms Some g kept by (auto simp: handle_include_def call_ok_def)
  next
    case [simp]: (Some kf)
    obtain k f where kf [simp]: "kf = (k, f)" by (cases kf)
    have k: "k = Some (msg_str t1)" "js_files ctx1 (msg_str t1) = Some f" using get_file_kept(2) [OF g dom, of k f] by simp_all
    have run: "json_script_run_file ops call (Some (msg_str t1), f) (Some cur) ctx1 = (st, ctx')"
      using assms \<open>json_get_tuple cur _ _ ! 1 = _\<close> g k by (simp add: handle_include_def)
    show ?thesis
    proof (cases st)
      case (Return ret)
      then show ?thesis using run_file_return run kept files_kept_trans [OF kept files_kept_same [OF _ dom1]] by (auto simp: call_ok_def)
    next
      case (Call j)
      note c = run_file_call [OF run [unfolded Call] k(2) dom1]
      then show ?thesis using Call kept files_kept_trans [OF kept c(2)] by (auto simp: call_ok_def files_kept_def)
    qed
  qed
qed

lemma process_cmd_ok:
  assumes "process_cmd ops call cur ctx = Some (st, ctx')" and dom: "dom (js_files ctx) \<subseteq> N"
  shows "call_ok N (c_seq call) cur ctx st ctx'"
  using assms(1)
proof (cases rule: process_cmdE)
  case (Ret ret)
  then show ?thesis using dom by (simp add: call_ok_return)
next
  case If
  then show ?thesis using dom by (rule handle_if_ok)
next
  case Case
  then show ?thesis using dom by (rule handle_case_ok)
next
  case Include
  then show ?thesis using dom by (rule handle_include_ok)
qed

end

text \<open>A job that returns, and then with its files kept.\<close>

definition exec_ok :: "'w json_ops \<Rightarrow> bytes set \<Rightarrow> json_call \<Rightarrow> 'w json_script_ctx \<Rightarrow> job \<Rightarrow> 'w json_script_ctx \<Rightarrow> bool" where
  "exec_ok ops N call ctx0 j ctx \<longleftrightarrow>
     (\<exists>r. json_exec ops call j ctx = Some r \<and> (\<forall>ret ctx'. r = Done (ret, ctx') \<longrightarrow> files_kept N (c_seq call) ctx0 ctx'))"

lemma exec_ok_process:
  assumes "files_kept N (c_seq call) ctx ctx" "exec_ok ops N call ctx (Elems 0 (msg_elems b) b) ctx"
  shows "exec_ok ops N call ctx (Process b) ctx"
  using assms unfolding exec_ok_def by (subst json_exec.simps) (auto simp: files_kept_def unmarked_def)

lemma exec_ok_nil:
  assumes "files_kept N (c_seq call) ctx ctx"
  shows "exec_ok ops N call ctx (Elems i [] b) ctx" and "exec_ok ops N call ctx (Chain []) ctx"
  using assms unfolding exec_ok_def by (subst json_exec.simps, simp)+

lemma exec_ok_command:
  assumes "msg_type cur = BLOBMSG_TYPE_STRING"
    and "\<And>st ctx'. process_cmd ops call b ctx = Some (st, ctx') \<Longrightarrow> files_kept N (c_seq call) ctx ctx'"
    and "\<And>j ctx'. process_cmd ops call b ctx = Some (Call j, ctx') \<Longrightarrow> exec_ok ops N call ctx j ctx'"
  shows "exec_ok ops N call ctx (Elems 0 (cur # ms) b) ctx"
  using assms unfolding exec_ok_def by (subst json_exec.simps) (auto split: option.split next_step.split)

lemma exec_ok_element:
  assumes "\<not> (msg_type cur = BLOBMSG_TYPE_STRING \<and> i = 0)" "exec_ok ops N call ctx (Process cur) ctx"
    and "\<And>ctx'. files_kept N (c_seq call) ctx ctx' \<Longrightarrow> exec_ok ops N call ctx (Elems (Suc i) ms b) ctx'"
  shows "exec_ok ops N call ctx (Elems i (cur # ms) b) ctx"
  using assms unfolding exec_ok_def by (subst json_exec.simps) (auto split: outcome.split)

lemma exec_ok_file:
  assumes "exec_ok ops N call ctx (Process m) ctx"
    and "\<And>ctx'. files_kept N (c_seq call) ctx ctx' \<Longrightarrow> exec_ok ops N call ctx (Chain ms) ctx'"
  shows "exec_ok ops N call ctx (Chain (m # ms)) ctx"
  using assms unfolding exec_ok_def by (subst json_exec.simps) (auto split: outcome.split)

context file_loader
begin

lemma json_exec_returns:
  assumes "dom (js_files ctx) \<subseteq> N" "job_ok j"
  shows "exec_ok ops N call ctx j ctx"
  using assms
proof (induction "(j, ctx)" arbitrary: j ctx rule: wf_induct_rule [OF wf_job_less [of N "c_seq call"]])
  case 1
  note IH = 1(1) and dom = 1(2) and ok = 1(3)
  have kept: "files_kept N (c_seq call) ctx ctx" using dom by (simp add: files_kept_same)
  have sub: "exec_ok ops N call ctx j' ctx'"
    if k: "files_kept N (c_seq call) ctx ctx'" and "job_ok j'"
      "unmarked N (c_seq call) ctx' \<subset> unmarked N (c_seq call) ctx \<or> (job_size j', job_size j) \<in> less_than <*lex*> less_than <*lex*> less_than" for j' ctx'
  proof -
    have "((j', ctx'), (j, ctx)) \<in> job_less N (c_seq call)" using that finite_names by (auto intro: job_lessI simp: files_kept_def)
    then have "exec_ok ops N call ctx' j' ctx'" using IH that by (simp add: files_kept_def)
    then show ?thesis using files_kept_trans [OF k] unfolding exec_ok_def by blast
  qed
  show ?case
  proof (cases j)
    case (Process b)
    then show ?thesis using sub [OF kept, of "Elems 0 (msg_elems b) b"] exec_ok_process [OF kept] by simp
  next
    case (Elems i ms b)
    show ?thesis
    proof (cases ms)
      case (Cons cur rest)
      have mem: "size cur < size b" "job_ok (Elems (Suc i) rest b)" using ok Elems Cons msg_elems_size by auto
      have step: "call_ok N (c_seq call) b ctx st ctx'" if "process_cmd ops call b ctx = Some (st, ctx')" for st ctx'
        using process_cmd_ok that dom by blast
      have called: "exec_ok ops N call ctx j' ctx'" if "process_cmd ops call b ctx = Some (Call j', ctx')" for j' ctx'
        using sub [of ctx' j'] step [OF that] Elems by (cases j') (simp_all add: call_ok_def)
      show ?thesis
      proof (cases "msg_type cur = BLOBMSG_TYPE_STRING \<and> i = 0")
        case True
        then show ?thesis using exec_ok_command [of cur ops call b ctx N] step called Elems Cons by (simp add: call_ok_def)
      next
        case False
        then show ?thesis unfolding Elems Cons
          using sub mem Elems Cons kept by (intro exec_ok_element) simp_all
      qed
    qed (simp add: Elems exec_ok_nil kept)
  next
    case (Chain ms)
    then show ?thesis using sub kept by (cases ms) (auto intro!: exec_ok_file exec_ok_nil)
  qed
qed

end

text \<open>Two loaders: the handlers that \<open>json_script_init\<close> fills in, and a table of messages that are wrapped by \<open>json_script_file_from_blobmsg\<close>.\<close>

definition table_user :: "(bytes \<times> blobmsg) list \<Rightarrow> 'w json_user \<Rightarrow> 'w json_user" where
  "table_user tbl u = u\<lparr>u_file := Some (\<lambda>n w. (map_option (json_script_file_from_blobmsg n) (map_of tbl n), w))\<rparr>"

interpretation no_files: file_loader "fst (json_script_init (u\<lparr>u_file := None\<rparr>) rx mem b w)" "{}"
  by unfold_locales (auto simp: json_script_init_def default_handle_file_def)

interpretation tables: file_loader "fst (json_script_init (table_user tbl u) rx mem b w)" "fst ` set tbl"
  by unfold_locales (auto simp: json_script_init_def table_user_def json_script_file_from_blobmsg_def weak_map_of_SomeI dest!: map_of_SomeD intro: rev_image_eqI)

context file_loader
begin

lemma run_returns:
  assumes dom: "dom (js_files ctx) \<subseteq> N"
  shows "\<exists>r. json_script_run ops name vars seq ctx = Some r \<and> (\<forall>s ctx'. r = Done (s, ctx') \<longrightarrow> s \<noteq> 0 \<and> dom (js_files ctx') \<subseteq> N)"
proof -
  define s where "s = (if seq + 1 = 0 then seq + 1 + 1 else seq + 1)"
  define call where "call = \<lparr>c_vars = vars, c_seq = s\<rparr>"
  have s: "s \<noteq> 0" by (simp add: s_def)
  obtain r ctx1 where g: "json_script_get_file ops name ctx = (r, ctx1)" by (cases "json_script_get_file ops name ctx")
  have dom1: "dom (js_files ctx1) \<subseteq> N" using get_file_kept(1) [OF g dom, of s] by (simp add: files_kept_def)
  show ?thesis
  proof (cases r)
    case None
    then show ?thesis using g dom1 s by (simp add: json_script_run_def Let_def flip: s_def)
  next
    case (Some kf)
    obtain k f where kf: "kf = (k, f)" by (cases kf)
    have k: "k = Some name" "js_files ctx1 name = Some f" using get_file_kept(2) [OF g dom, of k f] Some kf by simp_all
    obtain st ctx2 where run: "json_script_run_file ops call (Some name, f) None ctx1 = (st, ctx2)" by (cases "json_script_run_file ops call (Some name, f) None ctx1")
    show ?thesis
    proof (cases st)
      case (Return ret)
      have "js_files ctx2 = js_files ctx1" using run_file_return run Return by blast
      then show ?thesis using g Some kf k run Return s dom1 by (simp add: json_script_run_def Let_def call_def flip: s_def)
    next
      case (Call j)
      note c = run_file_call [OF run [unfolded Call] k(2) dom1]
      have "job_ok j" using c(1) by auto
      then have "exec_ok ops N call ctx2 j ctx2" using json_exec_returns c(2) by (simp add: files_kept_def)
      then show ?thesis using g Some kf k run Call s unfolding exec_ok_def
        by (auto simp: json_script_run_def Let_def call_def files_kept_def simp flip: s_def split: outcome.split)
    qed
  qed
qed

end

section \<open>Scripts that run without a fault\<close>

text \<open>Every array has a first element and no string has a percent sign.  The arguments of a command have to fit into the 24 bits of
  the length of the array that is built from them.\<close>

definition args_size :: "blobmsg list \<Rightarrow> nat" where
  "args_size ms = sum_list (map (\<lambda>m. length (msg_str m) + 12) ms)"

fun plain :: "blobmsg \<Rightarrow> bool" where
  "plain (Field ty name data) \<longleftrightarrow> ty \<noteq> BLOBMSG_TYPE_ARRAY \<and> 37 \<notin> set (takeWhile (\<lambda>b. b \<noteq> 0) data)"
| "plain (Nested name array ms) \<longleftrightarrow> (array \<longrightarrow> ms \<noteq> []) \<and> args_size ms + 16 < 2 ^ 24 \<and> list_all plain ms"

definition plain_file :: "js_file \<Rightarrow> bool" where
  "plain_file f \<longleftrightarrow> list_all plain (f_chain f)"

lemma plain_elems: "plain cur \<Longrightarrow> m \<in> set (msg_elems cur) \<Longrightarrow> plain m"
  by (cases cur) (simp_all add: list_all_iff)

lemma plain_array: "plain cur \<Longrightarrow> msg_type cur = BLOBMSG_TYPE_ARRAY \<Longrightarrow> msg_elems cur \<noteq> []"
  by (cases cur) (auto simp: blobmsg_types split: if_splits)

lemma plain_str: "plain cur \<Longrightarrow> 37 \<notin> set (msg_str cur)"
  by (cases cur) simp_all

lemma plain_size: "plain cur \<Longrightarrow> args_size (msg_elems cur) + 16 < 2 ^ 24"
  by (cases cur) (simp_all add: args_size_def)

lemma msg_str_nonzero: "0 \<notin> set (msg_str m)"
  by (cases m) (auto dest: set_takeWhileD)

declare json_process_expr.simps [simp del]

lemma plain_expr:
  "plain cur \<Longrightarrow> json_process_expr ops vars cur w \<noteq> None"
  and "list_all plain ms \<Longrightarrow> expr_and_or ops vars andp ms w \<noteq> None"
proof (induction ops vars cur w and ops vars andp ms w rule: json_process_expr_expr_and_or.induct)
  case (1 ops vars cur w)
  show ?case
  proof (cases "msg_type cur = BLOBMSG_TYPE_ARRAY")
    case True
    then obtain first rest where el: "msg_elems cur = first # rest" using plain_array [OF "1.prems"] by (cases "msg_elems cur") auto
    have rest: "list_all plain (tl (msg_elems cur))" using plain_elems [OF "1.prems"] el by (simp add: list_all_iff)
    have t1: "plain t1" if "json_get_tuple cur BLOBMSG_TYPE_ARRAY BLOBMSG_TYPE_UNSPEC ! 1 = Some t1" for t1
      using that plain_elems [OF "1.prems"] parse_array_nth unfolding json_get_tuple_def by fastforce
    show ?thesis
    proof (cases "msg_type first = BLOBMSG_TYPE_STRING")
      case str: True
      note IH = "1.IH" [OF _ el _ refl, simplified True str, simplified]
      show ?thesis using IH rest t1 True str el
        by (subst json_process_expr.simps) (auto simp: Let_def split: option.split)
    qed (subst json_process_expr.simps, simp add: True el)
  qed (subst json_process_expr.simps, simp)
next
  case (3 ops vars andp cur ms w)
  from "3.IH"(1) "3.prems" obtain ret w' where e: "json_process_expr ops vars cur w = Some (ret, w')" by auto
  from "3.IH"(2) [OF e refl] "3.prems" show ?case by (simp add: e)
qed simp

text \<open>An argument without a percent sign is copied into the array.\<close>

lemma cmd_string_loop_plain:
  assumes "37 \<notin> set s"
  shows "cmd_string_loop ops vars w s False 0 dest b =
    (if s = [] then Some (False, 0, dest, b) else do {
       (dest, b) \<leftarrow> blobmsg_realloc_string_buffer (mem_ok ops) b (length s + 1);
       m \<leftarrow> blob_mem b;
       m \<leftarrow> mem_write m dest s;
       Some (False, length s, dest, b\<lparr>blob_mem := Some m\<rparr>) })"
proof -
  have *: "takeWhile (\<lambda>c. c \<noteq> 37) s = s" using assms by (auto simp: takeWhile_eq_all_conv)
  show ?thesis by (subst cmd_string_loop.simps) (auto simp: * Let_def case_prod_unfold split: bind_splits)
qed

lemma cmd_add_string_plain:
  assumes at: "buf_at b pre c body" and ok: "\<And>n. mem_ok ops n" and s: "37 \<notin> set s" "0 \<notin> set s"
    and fits: "length body + length s + 16 < 2 ^ 24"
  shows "\<exists>b'. cmd_add_string ops vars w s b = Some (0, b') \<and> buf_at b' pre c (body @ enc_msg (Field BLOBMSG_TYPE_STRING None (s @ [0])))"
proof -
  let ?d = "length pre + 4 + length body + 4 + blobmsg_hdrlen 0"
  have hl: "blobmsg_hdrlen 0 = 4" by (simp add: blobmsg_hdrlen_def pad4_def)
  have fits1: "length body + 8 + blobmsg_hdrlen (length (str None)) + pad4 1 < 2 ^ 24" using fits by (simp add: hl pad4_def)
  have fits3: "length body + 8 + blobmsg_hdrlen (length []) + pad4 (length s + 1) < 2 ^ 24"
    using fits pad4_bounds(2) [of "length s + 1"] by (simp add: hl)
  have k: "length (str None) < 2 ^ 16" "length ([] :: bytes) < 2 ^ 16" by simp_all
  obtain r b1 where "blobmsg_alloc_string_buffer (mem_ok ops) b None 1 = Some (length pre + 4 + length body + 4 + blobmsg_hdrlen (length (str None)), b1)"
    "buf_string b1 pre c body (str None) r" "1 \<le> length r"
    by (rule buf_string_alloc [where ok = "mem_ok ops", OF at ok k(1) fits1])
  then have al: "blobmsg_alloc_string_buffer (mem_ok ops) b None 1 = Some (?d, b1)" "buf_string b1 pre c body [] r" "1 \<le> length r" by simp_all
  have "\<exists>b2 r2. cmd_string_loop ops vars w s False 0 ?d b1 = Some (False, length s, ?d, b2) \<and> buf_string b2 pre c body [] (s @ r2) \<and> 1 \<le> length r2"
  proof (cases "s = []")
    case True
    then show ?thesis using al by (auto simp: cmd_string_loop_plain)
  next
    case False
    have fits2: "length body + 8 + blobmsg_hdrlen (length []) < 2 ^ 24" using fits by (simp add: hl)
    obtain x b2 where "blobmsg_realloc_string_buffer (mem_ok ops) b1 (length s + 1) = Some (length pre + 4 + length body + 4 + blobmsg_hdrlen (length ([] :: bytes)), b2)"
      "buf_string b2 pre c body [] (r @ x)" "length s + 1 \<le> length (r @ x)"
      by (rule buf_string_realloc [where ok = "mem_ok ops", OF al(2) ok k(2) fits2, of "length s + 1"])
    then have re: "blobmsg_realloc_string_buffer (mem_ok ops) b1 (length s + 1) = Some (?d, b2)"
      "buf_string b2 pre c body [] (r @ x)" "length s + 1 \<le> length (r @ x)" by simp_all
    from buf_string_write [OF re(2), of "[]" s "r @ x"] re(3) obtain m m' r2 where
      "blob_mem b2 = Some m" "mem_write m ?d s = Some m'" "length (r @ x) = length s + length r2"
      "buf_string (b2\<lparr>blob_mem := Some m'\<rparr>) pre c body [] (s @ r2)" by auto
    then show ?thesis using False re(1,3) s(1) by (auto simp: cmd_string_loop_plain)
  qed
  then obtain b2 r2 where lp: "cmd_string_loop ops vars w s False 0 ?d b1 = Some (False, length s, ?d, b2)"
    "buf_string b2 pre c body [] (s @ r2)" "1 \<le> length r2" by blast
  from buf_string_write [OF lp(2), of s "[0]" r2] lp(3) obtain m m' r3 where
    w: "blob_mem b2 = Some m" "mem_write m (?d + length s) [0] = Some m'" "buf_string (b2\<lparr>blob_mem := Some m'\<rparr>) pre c body [] (s @ 0 # r3)" by auto
  from buf_string_commit [OF w(3) s(2) k(2) fits3] show ?thesis
    using al(1) lp(1) w(1,2) by (auto simp: cmd_add_string_def)
qed

lemma buf_at_ok: "buf_at b pre c body \<Longrightarrow> blob_buf_ok b"
  by (auto simp: buf_at_def blob_buf_ok_def add.assoc)

lemma cmd_strings_loop_plain:
  assumes "buf_at b pre c body" "\<And>n. mem_ok ops n" "\<forall>m \<in> set ms. plain m" "length body + args_size ms + 4 < 2 ^ 24"
  shows "\<exists>ret b' w'. cmd_strings_loop ops vars attr ms b w = Some (ret, b', w') \<and>
    (\<exists>body'. buf_at b' pre c body' \<and> length body' \<le> length body + args_size ms)"
  using assms
proof (induction ms arbitrary: b body)
  case Nil
  then show ?case by auto
next
  case (Cons cur ms)
  show ?case
  proof (cases "msg_type cur = BLOBMSG_TYPE_STRING")
    case True
    have fits: "length body + length (msg_str cur) + 16 < 2 ^ 24" using Cons.prems(4) by (simp add: args_size_def)
    have s: "37 \<notin> set (msg_str cur)" using Cons.prems(3) plain_str by simp
    let ?body = "body @ enc_msg (Field BLOBMSG_TYPE_STRING None (msg_str cur @ [0]))"
    from cmd_add_string_plain [OF Cons.prems(1,2) s msg_str_nonzero fits, of vars w] obtain b' where
      b': "cmd_add_string ops vars w (msg_str cur) b = Some (0, b')" "buf_at b' pre c ?body" by blast
    have "length (enc_msg (Field BLOBMSG_TYPE_STRING None (msg_str cur @ [0]))) = 8 + pad4 (length (msg_str cur) + 1)"
      using msg_pad [of 0 "length (msg_str cur) + 1"] by (simp add: blobmsg_hdrlen_def pad4_def)
    then have len: "length ?body + args_size ms \<le> length body + args_size (cur # ms)"
      using pad4_bounds(2) [of "length (msg_str cur) + 1"] by (simp add: args_size_def)
    with Cons.prems(3,4) Cons.IH [OF b'(2) Cons.prems(2)] obtain ret b2 w' body' where
      "cmd_strings_loop ops vars attr ms b' w = Some (ret, b2, w')" "buf_at b2 pre c body'" "length body' \<le> length ?body + args_size ms"
      by fastforce
    then show ?thesis using True b'(1) len by (auto intro: order_trans)
  qed (use Cons.prems(1) in auto)
qed

text \<open>What a script needs of its context: a buffer that can be used, and files that are plain.\<close>

definition ctx_plain :: "'w json_script_ctx \<Rightarrow> bool" where
  "ctx_plain ctx \<longleftrightarrow> blob_buf_ok (js_buf ctx) \<and> (\<forall>n f. js_files ctx n = Some f \<longrightarrow> plain_file f)"

fun job_plain :: "job \<Rightarrow> bool" where
  "job_plain (Process m) = plain m"
| "job_plain (Elems i ms b) = (plain b \<and> set ms \<subseteq> set (msg_elems b))"
| "job_plain (Chain ms) = list_all plain ms"

lemma ctx_plain_world [simp]: "ctx_plain (ctx\<lparr>js_world := w\<rparr>) = ctx_plain ctx"
  by (simp add: ctx_plain_def)

definition step_plain :: "next_step \<Rightarrow> 'w json_script_ctx \<Rightarrow> bool" where
  "step_plain st ctx \<longleftrightarrow> ctx_plain ctx \<and> (case st of Return _ \<Rightarrow> True | Call j \<Rightarrow> job_plain j)"

text \<open>Memory is always given, and only plain files are loaded.\<close>

locale plain_loader = file_loader +
  assumes memory: "mem_ok ops sz"
    and loads_plain: "handle_file ops n w = (Some (key, f), w') \<Longrightarrow> plain_file f"
begin

lemma cmd_process_strings_plain:
  assumes ctx: "ctx_plain ctx" and cur: "plain cur"
  shows "\<exists>ret ctx'. cmd_process_strings ops call cur ctx = Some (ret, ctx') \<and> ctx_plain ctx'"
proof -
  let ?ok = "mem_ok ops" and ?ms = "tl (msg_elems cur)"
  have buf: "blob_mem (js_buf ctx) = None \<and> blob_buflen (js_buf ctx) = 0 \<or>
      (\<exists>m. blob_mem (js_buf ctx) = Some m \<and> blob_buflen (js_buf ctx) = length m \<and> 4 dvd length m)"
    using ctx by (auto simp: ctx_plain_def blob_buf_ok_def split: option.splits)
  obtain b1 where b1: "blob_buf_init ?ok (js_buf ctx) 0 = Some (0, b1)" "buf_at b1 [] (False, 0) []"
    by (rule blob_buf_init_spec [where ok = ?ok and aid = 0, OF buf memory])
  have hl: "blobmsg_hdrlen 0 = 4" by (simp add: blobmsg_hdrlen_def pad4_def)
  have k: "length (str None) < 2 ^ 16" "length ([] :: bytes) + 8 + blobmsg_hdrlen (length (str None)) < 2 ^ 24" by (simp_all add: hl)
  obtain b2 where b2: "blobmsg_open_nested ?ok b1 None True = Some (attr_to_offset (length ([] :: bytes)), b2)"
    "buf_at b2 ([] @ bytes_be32 (blob_hdr (False, 0) (8 + length ([] :: bytes))) @ []) (True, if True then BLOBMSG_TYPE_ARRAY else BLOBMSG_TYPE_TABLE) (msg_hdr (str None))"
    by (rule blobmsg_open_nested_spec [where ok = ?ok and array = True, OF b1(2) memory k])
  have "args_size ?ms \<le> args_size (msg_elems cur)" by (cases "msg_elems cur") (simp_all add: args_size_def)
  then have fits: "args_size ?ms + 16 < 2 ^ 24" using plain_size [OF cur] by simp
  have "\<forall>m \<in> set ?ms. plain m" using plain_elems [OF cur] by (cases "msg_elems cur") auto
  moreover have "length (msg_hdr (str None)) + args_size ?ms + 4 < 2 ^ 24" using fits by (simp add: hl)
  ultimately obtain ret b3 w body where b3: "cmd_strings_loop ops (c_vars call) cur ?ms b2 (js_world ctx) = Some (ret, b3, w)"
    "buf_at b3 ([] @ bytes_be32 (blob_hdr (False, 0) (8 + length ([] :: bytes))) @ []) (True, BLOBMSG_TYPE_ARRAY) body" "length body \<le> 4 + args_size ?ms"
    using cmd_strings_loop_plain [OF b2(2) memory, of ?ms "c_vars call" cur "js_world ctx"] by (auto simp: hl)
  have "length ([] :: bytes) + 8 + length body < 2 ^ 24" using fits b3(3) by simp
  then obtain b4 where b4: "blob_nest_end b3 (attr_to_offset (length ([] :: bytes))) = Some b4"
    "buf_at b4 [] (False, 0) ([] @ blob_enc (True, BLOBMSG_TYPE_ARRAY) body)"
    using blob_nest_end_spec [OF b3(2)] by (metis dvd_0_right list.size(3))
  have files: "ctx_plain (ctx\<lparr>js_buf := b, js_world := w\<rparr>)" if "blob_buf_ok b" for b
    using ctx that by (simp add: ctx_plain_def)
  show ?thesis
  proof (cases "ret = 0")
    case True
    then show ?thesis using b1(1) b2(1) b3(1) b4(1) files [OF buf_at_ok [OF b4(2)]]
      by (simp add: cmd_process_strings_def blobmsg_close_nested_def)
  next
    case False
    then show ?thesis using b1(1) b2(1) b3(1) files [OF buf_at_ok [OF b3(2)]]
      by (simp add: cmd_process_strings_def)
  qed
qed

lemma get_file_plain:
  assumes "json_script_get_file ops name ctx = (r, ctx')" "ctx_plain ctx"
  shows "ctx_plain ctx' \<and> (\<forall>k f. r = Some (k, f) \<longrightarrow> plain_file f)"
  using assms by (auto simp: json_script_get_file_def ctx_plain_def Let_def dest: loads_plain split: option.splits prod.splits if_splits)

lemma run_file_plain:
  assumes "json_script_run_file ops call (k, f) c ctx = (st, ctx')" "ctx_plain ctx" "plain_file f"
  shows "step_plain st ctx'"
  using assms by (auto simp: json_script_run_file_def step_plain_def ctx_plain_def plain_file_def split: if_splits option.splits)

lemma handle_if_plain:
  assumes "ctx_plain ctx" "plain cur"
  shows "\<exists>st ctx'. handle_if ops call cur ctx = Some (st, ctx') \<and> step_plain st ctx'"
proof -
  let ?tb = "parse_array [BLOBMSG_TYPE_STRING, BLOBMSG_TYPE_ARRAY, BLOBMSG_TYPE_ARRAY, BLOBMSG_TYPE_ARRAY] (msg_elems cur)"
  have tb: "plain m" if "?tb ! i = Some m" "i < 4" for i m
    using plain_elems [OF assms(2) parse_array_nth [OF that(1)]] that(2) by simp
  show ?thesis
  proof (cases "?tb ! 1")
    case (Some cond)
    then have "json_process_expr ops (c_vars call) cond (js_world ctx) \<noteq> None" using tb [of 1 cond] plain_expr(1) by simp
    then obtain ret w where "json_process_expr ops (c_vars call) cond (js_world ctx) = Some (ret, w)" by auto
    then show ?thesis using Some tb [of 2] tb [of 3] assms(1)
      by (auto simp: handle_if_def Let_def step_plain_def split: option.split)
  qed (simp add: handle_if_def step_plain_def assms(1))
qed

lemma handle_case_plain:
  assumes "handle_case ops call cur ctx = (st, ctx')" "ctx_plain ctx" "plain cur"
  shows "step_plain st ctx'"
proof -
  have "plain m" if "json_get_tuple cur BLOBMSG_TYPE_STRING BLOBMSG_TYPE_TABLE ! 2 = Some t" "m \<in> set (msg_elems t)" for t m
  proof -
    have "t \<in> set (msg_elems cur)" using parse_array_nth that(1) unfolding json_get_tuple_def by fastforce
    then show ?thesis using plain_elems assms(3) that(2) by blast
  qed
  then show ?thesis using assms(1,2)
    by (auto simp: handle_case_def Let_def step_plain_def find_Some_iff split: option.splits if_splits)
qed

lemma handle_include_plain:
  assumes "handle_include ops call cur ctx = (st, ctx')" "ctx_plain ctx"
  shows "step_plain st ctx'"
  using assms get_file_plain run_file_plain unfolding handle_include_def step_plain_def
  by (fastforce split: option.splits prod.splits)

lemma process_cmd_plain:
  assumes "ctx_plain ctx" "plain cur" "msg_elems cur \<noteq> []"
  shows "\<exists>st ctx'. process_cmd ops call cur ctx = Some (st, ctx') \<and> step_plain st ctx'"
proof -
  obtain first rest where el: "msg_elems cur = first # rest" using assms(3) by (cases "msg_elems cur") auto
  from cmd_process_strings_plain [OF assms(1,2), of call] obtain ret ctx1 where
    s: "cmd_process_strings ops call cur ctx = Some (ret, ctx1)" "ctx_plain ctx1" by blast
  have c: "step_plain (fst (handle_case ops call cur ctx)) (snd (handle_case ops call cur ctx))"
    "step_plain (fst (handle_include ops call cur ctx)) (snd (handle_include ops call cur ctx))"
    using handle_case_plain handle_include_plain assms(1,2) prod.collapse by metis+
  show ?thesis
    using c handle_if_plain [OF assms(1,2), of call] s assms(1)
    by (simp add: process_cmd_def Let_def el step_plain_def handle_return_def case_prod_unfold) (metis prod.collapse)
qed

text \<open>By induction on the steps of the interpreter: one that ends has not faulted.\<close>

lemma json_exec_plain:
  assumes "json_exec ops' call j ctx = Some r" "ops' = ops" "job_plain j" "ctx_plain ctx"
  shows "\<exists>ret ctx'. r = Done (ret, ctx') \<and> ctx_plain ctx'"
  using assms
proof (induction ops' call j ctx r rule: json_exec.raw_induct [rotated, consumes 1])
  case (1 exec ops' call j ctx r)
  note IH = 1(1) and run = 1(2) [unfolded 1(3)] and [simp] = 1(3) and job = 1(4) and ctx = 1(5)
  show ?case
  proof (cases j)
    case (Process b)
    then show ?thesis using run job ctx IH [of ops call "Elems 0 (msg_elems b) b" ctx r] by (auto split: if_splits)
  next
    case (Elems i ms b)
    show ?thesis
    proof (cases ms)
      case Nil
      then show ?thesis using run ctx Elems by auto
    next
      case (Cons cur rest)
      have b: "plain b" "plain cur" "msg_elems b \<noteq> []" "job_plain (Elems (Suc i) rest b)"
        using job Elems Cons plain_elems [of b cur] by auto
      show ?thesis
      proof (cases "msg_type cur = BLOBMSG_TYPE_STRING \<and> i = 0")
        case True
        from process_cmd_plain [OF ctx b(1,3), of call] obtain st ctx1 where
          st: "process_cmd ops call b ctx = Some (st, ctx1)" "step_plain st ctx1" by blast
        show ?thesis
        proof (cases st)
          case (Return ret)
          then show ?thesis using run st True Elems Cons by (auto simp: step_plain_def)
        next
          case (Call j')
          then show ?thesis using run st True Elems Cons IH [of ops call j' ctx1 r] by (simp add: step_plain_def)
        qed
      next
        case False
        then obtain r1 where r1: "exec ops call (Process cur) ctx = Some r1"
          "(case r1 of Fault \<Rightarrow> Some Fault
            | Done (ret, ctx) \<Rightarrow> if ret < - 1 then Some (Done (ret, ctx)) else exec ops call (Elems (Suc i) rest b) ctx) = Some r"
          using run Elems Cons by (auto simp: bind_eq_Some_conv)
        from IH [OF r1(1)] b(2) ctx obtain ret ctx1 where "r1 = Done (ret, ctx1)" "ctx_plain ctx1" by auto
        then show ?thesis using r1(2) b(4) IH [of ops call "Elems (Suc i) rest b" ctx1 r] by (auto split: if_splits)
      qed
    qed
  next
    case (Chain ms)
    show ?thesis
    proof (cases ms)
      case Nil
      then show ?thesis using run ctx Chain by auto
    next
      case (Cons m rest)
      then obtain r1 where r1: "exec ops call (Process m) ctx = Some r1"
        "(case r1 of Fault \<Rightarrow> Some Fault | Done (_, ctx) \<Rightarrow> exec ops call (Chain rest) ctx) = Some r"
        using run Chain by (auto simp: bind_eq_Some_conv)
      from IH [OF r1(1)] job Chain Cons ctx obtain ret ctx1 where "r1 = Done (ret, ctx1)" "ctx_plain ctx1" by auto
      then show ?thesis using r1(2) job Chain Cons IH [of ops call "Chain rest" ctx1 r] by auto
    qed
  qed
qed

lemma run_plain:
  assumes run: "json_script_run ops name vars seq ctx = Some r" and ctx: "ctx_plain ctx"
  shows "\<exists>s ctx'. r = Done (s, ctx') \<and> ctx_plain ctx'"
proof -
  define s where "s = (if seq + 1 = 0 then seq + 1 + 1 else seq + 1)"
  define call where "call = \<lparr>c_vars = vars, c_seq = s\<rparr>"
  note def = json_script_run_def Let_def s_def [symmetric] call_def [symmetric]
  obtain g ctx1 where g: "json_script_get_file ops name ctx = (g, ctx1)" by (cases "json_script_get_file ops name ctx")
  note gp = get_file_plain [OF g ctx]
  show ?thesis
  proof (cases g)
    case None
    then show ?thesis using run g gp unfolding def by auto
  next
    case (Some kf)
    obtain k f where kf: "kf = (k, f)" by (cases kf)
    obtain st ctx2 where st: "json_script_run_file ops call (k, f) None ctx1 = (st, ctx2)" by (cases "json_script_run_file ops call (k, f) None ctx1")
    have sp: "step_plain st ctx2" using run_file_plain [OF st] gp Some kf by blast
    show ?thesis
    proof (cases st)
      case (Return ret)
      then show ?thesis using run g Some kf st sp unfolding def by (auto simp: step_plain_def)
    next
      case (Call j)
      then obtain r1 where r1: "json_exec ops call j ctx2 = Some r1" "(case r1 of Fault \<Rightarrow> Some Fault | Done (_, ctx) \<Rightarrow> Some (Done (s, ctx))) = Some r"
        using run g Some kf st unfolding def by (auto simp: bind_eq_Some_conv)
      then show ?thesis using json_exec_plain [OF r1(1) refl] sp Call by (auto simp: step_plain_def)
    qed
  qed
qed

end

text \<open>
  C32: running a script comes to an end, also when files include each other: when the files that \<open>handle_file\<close> loads carry
  the names they are asked by and there are finitely many, \<open>json_script_run\<close> either returns or stops at a memory fault
  (\<open>Fault\<close>; the code reads behind an empty array and writes behind the buffer of a string with percent signs), whatever the files
  hold; when it returns, the number of the call is not zero and only such files are in the table.  It does return, without a fault, when memory is given
  and the scripts are plain: no empty array, no percent sign, and arguments that fit into a message; the context
  is then ready for the next run.
\<close>

theorem json_script_run_returns:
  assumes "finite N" and "dom (js_files ctx) \<subseteq> N"
    and "\<forall>n w key f w'. handle_file ops n w = (Some (key, f), w') \<longrightarrow> key = n \<and> n \<in> N"
  shows "(\<exists>r. json_script_run ops name vars seq ctx = Some r \<and> (\<forall>s ctx'. r = Done (s, ctx') \<longrightarrow> s \<noteq> 0 \<and> dom (js_files ctx') \<subseteq> N)) \<and>
    ((\<forall>sz. mem_ok ops sz) \<and> ctx_plain ctx \<and> (\<forall>n w key f w'. handle_file ops n w = (Some (key, f), w') \<longrightarrow> plain_file f) \<longrightarrow>
      (\<exists>s ctx'. json_script_run ops name vars seq ctx = Some (Done (s, ctx')) \<and> s \<noteq> 0 \<and> dom (js_files ctx') \<subseteq> N \<and> ctx_plain ctx'))"
proof (intro conjI impI)
  have l: "file_loader ops N" using assms by unfold_locales blast+
  then show ends: "\<exists>r. json_script_run ops name vars seq ctx = Some r \<and> (\<forall>s ctx'. r = Done (s, ctx') \<longrightarrow> s \<noteq> 0 \<and> dom (js_files ctx') \<subseteq> N)"
    using assms(2) by (rule file_loader.run_returns)
  assume p: "(\<forall>sz. mem_ok ops sz) \<and> ctx_plain ctx \<and> (\<forall>n w key f w'. handle_file ops n w = (Some (key, f), w') \<longrightarrow> plain_file f)"
  then have "plain_loader ops N" using l by (auto simp: plain_loader_def plain_loader_axioms_def)
  moreover obtain r where "json_script_run ops name vars seq ctx = Some r" "\<forall>s ctx'. r = Done (s, ctx') \<longrightarrow> s \<noteq> 0 \<and> dom (js_files ctx') \<subseteq> N"
    using ends by blast
  ultimately show "\<exists>s ctx'. json_script_run ops name vars seq ctx = Some (Done (s, ctx')) \<and> s \<noteq> 0 \<and> dom (js_files ctx') \<subseteq> N \<and> ctx_plain ctx'"
    using plain_loader.run_plain [of ops N name vars seq ctx r] p by auto
qed

text \<open>Two files that include each other and then go on with other commands.\<close>

definition json_string :: "string \<Rightarrow> blobmsg" where
  "json_string s = Field BLOBMSG_TYPE_STRING None (bytes_of s @ [0])"

definition include_script :: "string \<Rightarrow> blobmsg list \<Rightarrow> blobmsg" where
  "include_script n cs = Nested None True (Nested None True [json_string ''include'', json_string n] # cs)"

definition log_user :: "string list json_user" where
  "log_user = \<lparr>u_command = (\<lambda>n b v w. ''command'' # w), u_var = None, u_file = None, u_error = Some (\<lambda>e m w. e # w)\<rparr>"

definition two_files :: "blobmsg list \<Rightarrow> string list json_ops \<times> string list json_script_ctx" where
  "two_files cs = json_script_init (table_user [(bytes_of ''a'', include_script ''b'' cs), (bytes_of ''b'', include_script ''a'' cs)] log_user)
     (\<lambda>p s. None) (\<lambda>n. True) \<lparr>blob_head = 0, blob_grow = True, blob_buflen = 0, blob_mem = None\<rparr> []"

definition log_command :: blobmsg where
  "log_command = Nested None True [json_string ''log'', json_string ''hello'']"

lemma include_script_plain: "plain (include_script ''a'' [log_command])" "plain (include_script ''b'' [log_command])"
  by (simp_all add: include_script_def log_command_def json_string_def args_size_def blobmsg_types of_char_def)

interpretation no_plain: plain_loader "fst (json_script_init (u\<lparr>u_file := None\<rparr>) rx (\<lambda>sz. True) b w)" "{}"
  by unfold_locales (auto simp: json_script_init_def default_handle_file_def)

interpretation two: plain_loader "fst (two_files [log_command])" "{bytes_of ''a'', bytes_of ''b''}"
  by unfold_locales (auto simp: two_files_def json_script_init_def table_user_def json_script_file_from_blobmsg_def plain_file_def
    include_script_plain split: if_split_asm)

theorem json_script_run_returns_witness:
  "\<exists>s ctx'. json_script_run (fst (two_files [log_command])) (bytes_of ''a'') (Nested None False []) 0 (snd (two_files [log_command])) = Some (Done (s, ctx'))
     \<and> s \<noteq> 0 \<and> dom (js_files ctx') \<subseteq> {bytes_of ''a'', bytes_of ''b''} \<and> ctx_plain ctx'"
proof -
  let ?N = "{bytes_of ''a'', bytes_of ''b''}"
  have "dom (js_files (snd (two_files [log_command]))) \<subseteq> ?N" "ctx_plain (snd (two_files [log_command]))"
    by (simp_all add: two_files_def json_script_init_def ctx_plain_def blob_buf_ok_def)
  then show ?thesis
    using json_script_run_returns [of ?N "snd (two_files [log_command])" "fst (two_files [log_command])" "bytes_of ''a''" "Nested None False []" 0] two.loads_named two.loads_plain two.memory by blast
qed

text \<open>There the second include of the first file is refused.\<close>

lemma two_files_refused:
  "map_option (map_outcome (\<lambda>(s, ctx). js_world ctx)) (json_script_run (fst (two_files [])) (bytes_of ''a'') (Nested None False []) 0 (snd (two_files [])))
     = Some (Done [''Recursive include''])"
  by code_simp

text \<open>\<open>not\<close> gives the value of its operand.\<close>

theorem expr_not_does_not_negate:
  assumes "msg_type cur = BLOBMSG_TYPE_ARRAY" "msg_elems cur = first # t # ms" "msg_type first = BLOBMSG_TYPE_STRING"
    "msg_str first = bytes_of ''not''" "msg_type t = BLOBMSG_TYPE_ARRAY"
  shows "json_process_expr ops vars cur w = json_process_expr ops vars t w"
  using assms by (subst json_process_expr.simps) (simp add: json_get_tuple_def)

text \<open>Releasing a context that has loaded a file follows a null pointer.\<close>

lemma json_script_file_free_faults: "json_script_file_free fs = None"
  by (induction fs) simp_all

theorem json_script_free_faults: "json_script_free ctx = None \<longleftrightarrow> js_files ctx \<noteq> Map.empty"
  by (auto simp: json_script_free_def json_script_file_free_faults ran_def fun_eq_iff)

text \<open>The buffer is made large enough for the last part of a string only, so a long string runs over its end.\<close>

definition long_pattern :: "bytes" where
  "long_pattern = replicate 150 97 @ bytes_of ''%x%'' @ replicate 150 97"

lemma cmd_add_string_overflows:
  "do {
     (_, b) \<leftarrow> blob_buf_init (\<lambda>n. True) (js_buf (snd (two_files []))) 0;
     cmd_add_string (fst (two_files [])) (Nested None False [Field BLOBMSG_TYPE_STRING (Some (bytes_of ''x'')) [65, 0]]) [] long_pattern b
   } = None"
  by code_simp

end
