(* ===== verification/Runqueue.thy ===== *)
theory Runqueue
  imports Ulist
begin

text \<open>
  Task queues (\<open>libubox/runqueue.c\<close>).  A queue starts its inactive tasks, up to a limit, from a timer, and cancels
  and kills those that run for too long.

  There is one queue.  The two safe lists are lists of tasks; of an iteration that is running, the state has
  the list and the task that it visits next, which is what \<open>Safe_List\<close> shows of the iterators on the stack.  A timer of
  the event loop is the delay it has been set to, while it is pending (\<open>Uloop\<close>).  The callbacks of the tasks and of the queue are
  parameters that work on the whole state and may call the queue again; a null pointer that is followed is \<^const>\<open>None\<close>.
\<close>

section \<open>State\<close>

text \<open>Which functions a type of tasks has; \<open>ty_proc\<close> says that its \<open>cancel\<close> and \<open>kill\<close> are those for processes.\<close>

record task_type =
  ty_run :: bool
  ty_cancel :: bool
  ty_kill :: bool
  ty_proc :: bool

record runqueue_task =
  t_type :: "task_type option"
  t_complete :: bool
  t_timeout :: "int option"
  run_timeout :: int
  cancel_timeout :: int
  cancel_type :: int
  queued :: bool
  running :: bool
  cancelled :: bool
  proc_pid :: int
  proc_pending :: bool

datatype queue_cb = Start_Next | Empty_Cb

datatype which = Active | Inactive

record 'w runqueue =
  tasks_active :: "addr list"
  tasks_inactive :: "addr list"
  q_timeout :: "int option"
  q_timeout_cb :: queue_cb
  running_tasks :: int
  max_running_tasks :: int
  stopped :: bool
  q_empty :: bool
  has_empty_cb :: bool
  task :: "addr \<Rightarrow> runqueue_task"
  iterators :: "(which \<times> addr option) list"
  signals :: "(int \<times> int) list"
  q_world :: 'w

type_synonym 'w q_fun = "'w runqueue \<Rightarrow> 'w runqueue option"

record 'w queue_cbs =
  cb_run :: "addr \<Rightarrow> 'w q_fun"
  cb_cancel :: "addr \<Rightarrow> int \<Rightarrow> 'w q_fun"
  cb_kill :: "addr \<Rightarrow> 'w q_fun"
  cb_complete :: "addr \<Rightarrow> 'w q_fun"
  cb_empty :: "'w q_fun"

definition upd_task :: "addr \<Rightarrow> (runqueue_task \<Rightarrow> runqueue_task) \<Rightarrow> 'w runqueue \<Rightarrow> 'w runqueue" where
  "upd_task t f s = s\<lparr>task := (task s)(t := f (task s t))\<rparr>"

section \<open>Lists and timers\<close>

fun q_list :: "which \<Rightarrow> 'w runqueue \<Rightarrow> addr list" where
  "q_list Active s = tasks_active s"
| "q_list Inactive s = tasks_inactive s"

fun upd_list :: "which \<Rightarrow> (addr list \<Rightarrow> addr list) \<Rightarrow> 'w runqueue \<Rightarrow> 'w runqueue" where
  "upd_list Active f s = s\<lparr>tasks_active := f (tasks_active s)\<rparr>"
| "upd_list Inactive f s = s\<lparr>tasks_inactive := f (tasks_inactive s)\<rparr>"

text \<open>The task behind \<open>t\<close>, \<^const>\<open>None\<close> for the head of the list.\<close>

fun behind :: "addr \<Rightarrow> addr list \<Rightarrow> addr option" where
  "behind t [] = None"
| "behind t (x # xs) = (if x = t then (case xs of [] \<Rightarrow> None | y # _ \<Rightarrow> Some y) else behind t xs)"

definition q_next :: "which \<Rightarrow> addr option \<Rightarrow> 'w runqueue \<Rightarrow> addr option" where
  "q_next l p s = (case p of
     None \<Rightarrow> (case q_list l s of [] \<Rightarrow> None | t # _ \<Rightarrow> Some t)
   | Some t \<Rightarrow> behind t (q_list l s))"

definition q_list_add :: "addr \<Rightarrow> which \<Rightarrow> 'w runqueue \<Rightarrow> 'w runqueue" where
  "q_list_add t l s = upd_list l (\<lambda>xs. xs @ [t]) s"

definition q_list_add_first :: "addr \<Rightarrow> which \<Rightarrow> 'w runqueue \<Rightarrow> 'w runqueue" where
  "q_list_add_first t l s = upd_list l (\<lambda>xs. t # xs) s"

definition q_list_del :: "addr \<Rightarrow> 'w runqueue \<Rightarrow> 'w runqueue" where
  "q_list_del t s = (let l = (if t \<in> set (tasks_active s) then Active else Inactive); nx = behind t (q_list l s) in
     upd_list l (removeAll t) (s\<lparr>iterators := map (\<lambda>(k, p). (k, if p = Some t then nx else p)) (iterators s)\<rparr>))"

definition task_timeout_set :: "addr \<Rightarrow> int \<Rightarrow> 'w runqueue \<Rightarrow> 'w runqueue" where
  "task_timeout_set t ms s = upd_task t (\<lambda>r. r\<lparr>t_timeout := Some ms\<rparr>) s"

definition task_timeout_cancel :: "addr \<Rightarrow> 'w runqueue \<Rightarrow> 'w runqueue" where
  "task_timeout_cancel t s = upd_task t (\<lambda>r. r\<lparr>t_timeout := None\<rparr>) s"

section \<open>Operations\<close>

definition runqueue_init :: "'w runqueue \<Rightarrow> 'w runqueue" where
  "runqueue_init s = s\<lparr>tasks_active := [], tasks_inactive := []\<rparr>"

definition runqueue_start_next :: "'w runqueue \<Rightarrow> 'w runqueue" where
  "runqueue_start_next s = (if q_empty s then s else s\<lparr>q_timeout_cb := Start_Next, q_timeout := Some 1\<rparr>)"

text \<open>The callbacks of processes; \<open>kill\<close> adds to \<open>signals\<close>.\<close>

abbreviation SIGKILL :: int where "SIGKILL \<equiv> 9"
abbreviation SIGTERM :: int where "SIGTERM \<equiv> 15"

definition runqueue_process_cancel_cb :: "addr \<Rightarrow> int \<Rightarrow> 'w runqueue \<Rightarrow> 'w runqueue" where
  "runqueue_process_cancel_cb t ty s = (let ty = (if ty = 0 then SIGTERM else ty) in s\<lparr>signals := signals s @ [(proc_pid (task s t), ty)]\<rparr>)"

definition runqueue_process_kill_cb :: "addr \<Rightarrow> 'w runqueue \<Rightarrow> 'w runqueue" where
  "runqueue_process_kill_cb t s = (let s = upd_task t (\<lambda>r. r\<lparr>proc_pending := False\<rparr>) s in s\<lparr>signals := signals s @ [(proc_pid (task s t), SIGKILL)]\<rparr>)"

definition type_cancel :: "'w queue_cbs \<Rightarrow> task_type \<Rightarrow> addr \<Rightarrow> int \<Rightarrow> 'w q_fun" where
  "type_cancel cbs ty t n s = (if \<not> ty_cancel ty then Some s else if ty_proc ty then Some (runqueue_process_cancel_cb t n s) else cb_cancel cbs t n s)"

definition type_kill :: "'w queue_cbs \<Rightarrow> task_type \<Rightarrow> addr \<Rightarrow> 'w q_fun" where
  "type_kill cbs ty t s = (if \<not> ty_kill ty then Some s else if ty_proc ty then Some (runqueue_process_kill_cb t s) else cb_kill cbs t s)"

definition runqueue_task_complete :: "'w queue_cbs \<Rightarrow> addr \<Rightarrow> 'w q_fun" where
  "runqueue_task_complete cbs t s =
     (if \<not> queued (task s t) then Some s
      else do {
        let s = (if running (task s t) then s\<lparr>running_tasks := running_tasks s - 1\<rparr> else s);
        let s = task_timeout_cancel t s;
        let s = q_list_del t s;
        let s = upd_task t (\<lambda>r. r\<lparr>queued := False, running := False, cancelled := False\<rparr>) s;
        s \<leftarrow> (if t_complete (task s t) then cb_complete cbs t s else Some s);
        Some (runqueue_start_next s)
      })"

definition runqueue_task_kill :: "'w queue_cbs \<Rightarrow> addr \<Rightarrow> 'w q_fun" where
  "runqueue_task_kill cbs t s =
     (let run = running (task s t) in
      if \<not> queued (task s t) then Some s
      else do {
        s \<leftarrow> runqueue_task_complete cbs t s;
        s \<leftarrow> (if run then do { ty \<leftarrow> t_type (task s t); type_kill cbs ty t s } else Some s);
        Some (runqueue_start_next s)
      })"

definition runqueue_task_cancel :: "'w queue_cbs \<Rightarrow> addr \<Rightarrow> int \<Rightarrow> 'w q_fun" where
  "runqueue_task_cancel cbs t n s =
     (if \<not> queued (task s t) then Some s
      else if \<not> running (task s t) then runqueue_task_complete cbs t s
      else do {
        let s = upd_task t (\<lambda>r. r\<lparr>cancelled := True\<rparr>) s;
        let s = (if cancel_timeout (task s t) \<noteq> 0 then task_timeout_set t (cancel_timeout (task s t)) s else s);
        ty \<leftarrow> t_type (task s t);
        type_cancel cbs ty t n s
      })"

text \<open>\<open>__runqueue_task_timeout\<close>, which the event loop calls with the timer no longer pending.\<close>

definition runqueue_task_timeout :: "'w queue_cbs \<Rightarrow> addr \<Rightarrow> 'w q_fun" where
  "runqueue_task_timeout cbs t s =
     (if cancelled (task s t) then runqueue_task_kill cbs t s else runqueue_task_cancel cbs t (cancel_type (task s t)) s)"

definition runqueue_task_add_gen :: "addr \<Rightarrow> bool \<Rightarrow> bool \<Rightarrow> 'w q_fun" where
  "runqueue_task_add_gen t run first s =
     (if queued (task s t) then Some s
      else do {
        ty \<leftarrow> t_type (task s t);
        if \<not> ty_run ty \<and> \<not> run then Some s
        else do {
          let head = (if run then Active else Inactive);
          let s = (if run then s\<lparr>running_tasks := running_tasks s + 1\<rparr> else s);
          let s = (if first then q_list_add_first t head s else q_list_add t head s);
          let s = upd_task t (\<lambda>r. r\<lparr>cancelled := False, queued := True, running := run\<rparr>) s;
          Some (runqueue_start_next (s\<lparr>q_empty := False\<rparr>))
        }
      })"

definition runqueue_task_add :: "addr \<Rightarrow> bool \<Rightarrow> 'w q_fun" where
  "runqueue_task_add t run s = runqueue_task_add_gen t run False s"

definition runqueue_task_add_first :: "addr \<Rightarrow> bool \<Rightarrow> 'w q_fun" where
  "runqueue_task_add_first t run s = runqueue_task_add_gen t run True s"

definition runqueue_stop :: "'w runqueue \<Rightarrow> 'w runqueue" where
  "runqueue_stop s = s\<lparr>stopped := True\<rparr>"

definition runqueue_resume :: "'w runqueue \<Rightarrow> 'w runqueue" where
  "runqueue_resume s = runqueue_start_next (s\<lparr>stopped := False\<rparr>)"

text \<open>The loop of \<open>__runqueue_start_next\<close>.\<close>

definition startable :: "'w runqueue \<Rightarrow> bool" where
  "startable s \<longleftrightarrow> \<not> stopped s \<and> tasks_inactive s \<noteq> [] \<and> \<not> (max_running_tasks s \<noteq> 0 \<and> running_tasks s \<ge> max_running_tasks s)"

definition start_task :: "addr \<Rightarrow> 'w runqueue \<Rightarrow> 'w runqueue" where
  "start_task t s =
     (let s = q_list_del t s;
          s = q_list_add t Active s;
          s = upd_task t (\<lambda>r. r\<lparr>running := True\<rparr>) s;
          s = s\<lparr>running_tasks := running_tasks s + 1\<rparr> in
      if run_timeout (task s t) \<noteq> 0 then task_timeout_set t (run_timeout (task s t)) s else s)"

definition type_run :: "'w queue_cbs \<Rightarrow> addr \<Rightarrow> 'w q_fun" where
  "type_run cbs t s = do { ty \<leftarrow> t_type (task s t); if ty_run ty then cb_run cbs t s else None }"

partial_function (option) start_loop :: "'w queue_cbs \<Rightarrow> 'w q_fun" where
  "start_loop cbs s =
     (if \<not> startable s then Some s
      else let t = hd (tasks_inactive s) in type_run cbs t (start_task t s) \<bind> start_loop cbs)"

text \<open>\<open>__runqueue_start_next\<close> and \<open>__runqueue_empty_cb\<close>, the callbacks of the timer of the queue.\<close>

definition start_next_cb :: "'w queue_cbs \<Rightarrow> 'w q_fun" where
  "start_next_cb cbs s = do {
     s \<leftarrow> start_loop cbs s;
     if \<not> q_empty s \<and> tasks_active s = [] \<and> tasks_inactive s = []
     then let s = s\<lparr>q_empty := True\<rparr> in
       Some (if has_empty_cb s then s\<lparr>q_timeout_cb := Empty_Cb, q_timeout := Some 1\<rparr> else s)
     else Some s
   }"

definition runqueue_timeout :: "'w queue_cbs \<Rightarrow> 'w q_fun" where
  "runqueue_timeout cbs s = (let s = s\<lparr>q_timeout := None\<rparr> in
     case q_timeout_cb s of Start_Next \<Rightarrow> start_next_cb cbs s | Empty_Cb \<Rightarrow> cb_empty cbs s)"

text \<open>The iterations of \<open>runqueue_cancel_active\<close> and \<open>runqueue_cancel_pending\<close>.\<close>

partial_function (option) cancel_loop :: "'w queue_cbs \<Rightarrow> which \<Rightarrow> addr option \<Rightarrow> 'w q_fun" where
  "cancel_loop cbs l cur s = (case cur of
     None \<Rightarrow> Some s
   | Some t \<Rightarrow> do {
       s \<leftarrow> runqueue_task_cancel cbs t 0 s;
       let cur = snd (hd (iterators s));
       cancel_loop cbs l cur (s\<lparr>iterators := (l, q_next l cur s) # tl (iterators s)\<rparr>)
     })"

definition runqueue_cancel_each :: "'w queue_cbs \<Rightarrow> which \<Rightarrow> 'w q_fun" where
  "runqueue_cancel_each cbs l s = do {
     let cur = q_next l None s;
     s \<leftarrow> cancel_loop cbs l cur (s\<lparr>iterators := (l, q_next l cur s) # iterators s\<rparr>);
     Some (s\<lparr>iterators := tl (iterators s)\<rparr>)
   }"

definition runqueue_cancel_active :: "'w queue_cbs \<Rightarrow> 'w q_fun" where
  "runqueue_cancel_active cbs s = runqueue_cancel_each cbs Active s"

definition runqueue_cancel_pending :: "'w queue_cbs \<Rightarrow> 'w q_fun" where
  "runqueue_cancel_pending cbs s = runqueue_cancel_each cbs Inactive s"

definition runqueue_cancel :: "'w queue_cbs \<Rightarrow> 'w q_fun" where
  "runqueue_cancel cbs s = runqueue_cancel_pending cbs s \<bind> runqueue_cancel_active cbs"

partial_function (option) kill_loop :: "'w queue_cbs \<Rightarrow> 'w q_fun" where
  "kill_loop cbs s = (case tasks_active s of [] \<Rightarrow> Some s | t # _ \<Rightarrow> runqueue_task_kill cbs t s \<bind> kill_loop cbs)"

definition runqueue_kill :: "'w queue_cbs \<Rightarrow> 'w q_fun" where
  "runqueue_kill cbs s = do {
     s \<leftarrow> kill_loop cbs s;
     s \<leftarrow> runqueue_cancel_pending cbs s;
     Some (s\<lparr>q_timeout := None\<rparr>)
   }"

declare start_loop.simps [code] cancel_loop.simps [code] kill_loop.simps [code]

section \<open>Processes\<close>

definition runqueue_proc_type :: task_type where
  "runqueue_proc_type = \<lparr>ty_run = False, ty_cancel = True, ty_kill = True, ty_proc = True\<rparr>"

text \<open>\<open>__runqueue_proc_cb\<close>, called by the event loop when the process has ended and has been removed from its list.\<close>

definition runqueue_proc_cb :: "'w queue_cbs \<Rightarrow> addr \<Rightarrow> 'w q_fun" where
  "runqueue_proc_cb cbs t s = runqueue_task_complete cbs t s"

definition runqueue_process_add :: "addr \<Rightarrow> int \<Rightarrow> 'w q_fun" where
  "runqueue_process_add t pid s =
     (if proc_pending (task s t) then Some s
      else let
        s = upd_task t (\<lambda>r. r\<lparr>proc_pid := pid\<rparr>) s;
        s = (if t_type (task s t) = None then upd_task t (\<lambda>r. r\<lparr>t_type := Some runqueue_proc_type\<rparr>) s else s);
        s = upd_task t (\<lambda>r. r\<lparr>proc_pending := True\<rparr>) s in
      if \<not> running (task s t) then runqueue_task_add t True s else Some s)"

section \<open>Invariants\<close>

text \<open>Every queued task is in one of the lists, those that run in the active one, which is counted; the timer of a task is pending only
  while it runs; an iterator points into its list.\<close>

definition iters_ok :: "addr list \<Rightarrow> addr list \<Rightarrow> (which \<times> addr option) list \<Rightarrow> bool" where
  "iters_ok A I its \<longleftrightarrow> (\<forall>l t. (l, Some t) \<in> set its \<longrightarrow> t \<in> set (case l of Active \<Rightarrow> A | Inactive \<Rightarrow> I))"

definition tasks_ok :: "addr list \<Rightarrow> addr list \<Rightarrow> (addr \<Rightarrow> runqueue_task) \<Rightarrow> bool" where
  "tasks_ok A I tk \<longleftrightarrow> distinct A \<and> distinct I \<and> set A \<inter> set I = {}
     \<and> (\<forall>t. queued (tk t) \<longleftrightarrow> t \<in> set A \<union> set I) \<and> (\<forall>t. running (tk t) \<longleftrightarrow> t \<in> set A)
     \<and> (\<forall>t. queued (tk t) \<longrightarrow> t_type (tk t) \<noteq> None) \<and> (\<forall>t \<in> set I. ty_run (the (t_type (tk t))))
     \<and> (\<forall>t. t_timeout (tk t) \<noteq> None \<longrightarrow> t \<in> set A)"

definition queue_inv :: "'w runqueue \<Rightarrow> bool" where
  "queue_inv s \<longleftrightarrow> tasks_ok (tasks_active s) (tasks_inactive s) (task s)
     \<and> running_tasks s = int (length (tasks_active s))
     \<and> (q_empty s \<longrightarrow> tasks_active s = [] \<and> tasks_inactive s = [])
     \<and> iters_ok (tasks_active s) (tasks_inactive s) (iterators s)"

text \<open>No wakeup is lost: when a task can be started, the timer that starts it is pending.\<close>

definition wake :: "'w runqueue \<Rightarrow> bool" where
  "wake s \<longleftrightarrow> (startable s \<longrightarrow> q_timeout s \<noteq> None \<and> q_timeout_cb s = Start_Next)"

text \<open>What an operation or a callback keeps.\<close>

definition kept :: "'w runqueue \<Rightarrow> 'w runqueue \<Rightarrow> bool" where
  "kept s s' \<longleftrightarrow> queue_inv s' \<and> (wake s \<longrightarrow> wake s') \<and> map fst (iterators s') = map fst (iterators s)
     \<and> (\<forall>t. t_type (task s t) \<noteq> None \<longrightarrow> t_type (task s' t) = t_type (task s t))"

lemma kept_refl: "queue_inv s \<Longrightarrow> kept s s"
  by (simp add: kept_def)

lemma kept_trans: "kept a b \<Longrightarrow> kept b c \<Longrightarrow> kept a c"
  unfolding kept_def by metis

text \<open>The same without the timer, for states between which a wakeup may be missing.\<close>

definition quiet :: "'w runqueue \<Rightarrow> 'w runqueue \<Rightarrow> bool" where
  "quiet s s' \<longleftrightarrow> queue_inv s' \<and> map fst (iterators s') = map fst (iterators s)
     \<and> (\<forall>t. t_type (task s t) \<noteq> None \<longrightarrow> t_type (task s' t) = t_type (task s t))"

lemma kept_quiet: "kept s s' \<Longrightarrow> quiet s s'"
  by (simp add: kept_def quiet_def)

lemma quiet_trans: "quiet a b \<Longrightarrow> quiet b c \<Longrightarrow> quiet a c"
  unfolding quiet_def by metis

lemma quiet_kept: "quiet s s' \<Longrightarrow> wake s' \<Longrightarrow> kept s s'"
  by (simp add: kept_def quiet_def)

lemma start_next_kept:
  assumes "quiet s s'"
  shows "kept s (runqueue_start_next s')"
proof -
  have inv: "queue_inv s'" using assms by (simp add: quiet_def)
  then have "wake (runqueue_start_next s')" by (auto simp: wake_def runqueue_start_next_def startable_def queue_inv_def)
  moreover have "quiet s (runqueue_start_next s')"
    using assms by (auto simp: quiet_def runqueue_start_next_def queue_inv_def)
  ultimately show ?thesis using quiet_kept by blast
qed

lemma behind_mem: "behind t xs = Some u \<Longrightarrow> u \<in> set xs"
  by (induction xs) (auto split: if_splits list.splits)

lemma behind_other: "distinct xs \<Longrightarrow> behind t xs = Some u \<Longrightarrow> u \<noteq> t"
proof (induction xs)
  case (Cons x xs)
  then show ?case using behind_mem by (fastforce split: if_splits list.splits)
qed simp

text \<open>Taking a task out of its list.\<close>

definition unqueue :: "addr \<Rightarrow> 'w runqueue \<Rightarrow> 'w runqueue" where
  "unqueue t s =
     (let s = (if running (task s t) then s\<lparr>running_tasks := running_tasks s - 1\<rparr> else s);
          s = task_timeout_cancel t s;
          s = q_list_del t s in
      upd_task t (\<lambda>r. r\<lparr>queued := False, running := False, cancelled := False\<rparr>) s)"

lemma runqueue_task_complete_unqueue:
  "runqueue_task_complete cbs t s =
     (if \<not> queued (task s t) then Some s
      else do { s \<leftarrow> (if t_complete (task (unqueue t s) t) then cb_complete cbs t (unqueue t s) else Some (unqueue t s)); Some (runqueue_start_next s) })"
  by (simp add: runqueue_task_complete_def unqueue_def Let_def)

lemma removeAll_other: "t \<notin> set xs \<Longrightarrow> removeAll t xs = xs"
  by simp

lemma tasks_okD:
  assumes "tasks_ok A I tk"
  shows "distinct A" "distinct I" "t \<in> set A \<Longrightarrow> t \<notin> set I" "queued (tk t) \<longleftrightarrow> t \<in> set A \<or> t \<in> set I" "running (tk t) \<longleftrightarrow> t \<in> set A"
  using assms by (auto simp: tasks_ok_def)

lemma unqueue_fields:
  assumes "queue_inv s" "queued (task s t)"
  shows "tasks_active (unqueue t s) = removeAll t (tasks_active s)" "tasks_inactive (unqueue t s) = removeAll t (tasks_inactive s)"
    "running_tasks (unqueue t s) = running_tasks s - (if t \<in> set (tasks_active s) then 1 else 0)"
    "max_running_tasks (unqueue t s) = max_running_tasks s" "q_empty (unqueue t s) = q_empty s"
    "iterators (unqueue t s) = map (\<lambda>(k, p). (k, if p = Some t then behind t (if t \<in> set (tasks_active s) then tasks_active s else tasks_inactive s) else p)) (iterators s)"
    "task (unqueue t s) = (task s)(t := (task s t)\<lparr>t_timeout := None, queued := False, running := False, cancelled := False\<rparr>)"
  using tasks_okD [of "tasks_active s" "tasks_inactive s" "task s"] assms
  by (auto simp: queue_inv_def unqueue_def Let_def task_timeout_cancel_def q_list_del_def upd_task_def removeAll_other)

lemma length_removeAll_distinct: "distinct xs \<Longrightarrow> t \<in> set xs \<Longrightarrow> int (length (removeAll t xs)) = int (length xs) - 1"
  using length_pos_if_in_set [of t xs] by (simp add: distinct_remove1_removeAll [symmetric] length_remove1 del: length_greater_0_conv)

lemma tasks_ok_remove:
  assumes "tasks_ok A I tk"
  shows "tasks_ok (removeAll t A) (removeAll t I) (tk(t := (tk t)\<lparr>t_timeout := None, queued := False, running := False, cancelled := False\<rparr>))"
  using assms by (auto simp: tasks_ok_def distinct_removeAll)

lemma iters_ok_remove:
  assumes "iters_ok A I its" "tasks_ok A I tk"
  shows "iters_ok (removeAll t A) (removeAll t I) (map (\<lambda>(k, p). (k, if p = Some t then behind t (if t \<in> set A then A else I) else p)) its)"
  unfolding iters_ok_def
proof (intro allI impI)
  fix l u assume "(l, Some u) \<in> set (map (\<lambda>(k, p). (k, if p = Some t then behind t (if t \<in> set A then A else I) else p)) its)"
  then obtain p where lp: "(l, p) \<in> set its" and u: "(if p = Some t then behind t (if t \<in> set A then A else I) else p) = Some u" by auto
  let ?L = "case l of Active \<Rightarrow> A | Inactive \<Rightarrow> I"
  have "u \<in> set ?L - {t}"
  proof (cases "p = Some t")
    case True
    then have "t \<in> set ?L" using lp assms(1) by (auto simp: iters_ok_def)
    then have "behind t ?L = Some u" "distinct ?L" using u True tasks_okD(1-3) [OF assms(2)] by (auto split: which.splits if_splits)
    then show ?thesis using behind_mem behind_other by fastforce
  qed (use lp u assms(1) in \<open>auto simp: iters_ok_def\<close>)
  then show "u \<in> set (case l of Active \<Rightarrow> removeAll t A | Inactive \<Rightarrow> removeAll t I)" by (auto split: which.splits)
qed

lemma unqueue_quiet:
  assumes inv: "queue_inv s" and q: "queued (task s t)"
  shows "quiet s (unqueue t s)"
proof -
  note d = inv [unfolded queue_inv_def]
  have "running_tasks (unqueue t s) = int (length (tasks_active (unqueue t s)))"
    using d tasks_okD(1) unqueue_fields(1,3) [OF inv q] by (auto simp: length_removeAll_distinct removeAll_other)
  then have "queue_inv (unqueue t s)"
    using d tasks_ok_remove [of _ _ "task s" t] iters_ok_remove [of _ _ "iterators s" "task s" t]
    unfolding queue_inv_def unqueue_fields(1,2,5-7) [OF inv q] by auto
  then show ?thesis using unqueue_fields(6,7) [OF inv q] by (auto simp: quiet_def)
qed

text \<open>What the queue relies on: the callbacks return and keep the invariant and the wakeups.\<close>

definition lawful :: "'w q_fun \<Rightarrow> bool" where
  "lawful f \<longleftrightarrow> (\<forall>s. queue_inv s \<longrightarrow> (\<exists>s'. f s = Some s' \<and> kept s s'))"

lemma lawfulI: "(\<And>s. queue_inv s \<Longrightarrow> \<exists>s'. f s = Some s' \<and> kept s s') \<Longrightarrow> lawful f"
  by (simp add: lawful_def)

lemma lawfulD: "lawful f \<Longrightarrow> queue_inv s \<Longrightarrow> \<exists>s'. f s = Some s' \<and> kept s s'"
  by (simp add: lawful_def)

lemma keptD:
  assumes "kept s s'"
  shows "queue_inv s'" "wake s \<Longrightarrow> wake s'" "t_type (task s t) = Some ty \<Longrightarrow> t_type (task s' t) = Some ty"
  using assms by (simp_all add: kept_def)

lemma queue_inv_queued: "queue_inv s \<Longrightarrow> queued (task s t) \<Longrightarrow> \<exists>ty. t_type (task s t) = Some ty"
  by (auto simp: queue_inv_def tasks_ok_def)

text \<open>A change of the fields of a task that the lists do not depend on.\<close>

lemma upd_task_kept:
  assumes "queue_inv s" "queued (f (task s t)) = queued (task s t)" "running (f (task s t)) = running (task s t)"
    "t_type (task s t) \<noteq> None \<longrightarrow> t_type (f (task s t)) = t_type (task s t)"
    "t_timeout (f (task s t)) \<noteq> None \<longrightarrow> t_timeout (task s t) \<noteq> None \<or> running (task s t)"
  shows "kept s (upd_task t f s)"
proof -
  have "tasks_ok A I (task (upd_task t f s))" if "tasks_ok A I (task s)" for A I
    using that assms by (auto simp: tasks_ok_def upd_task_def)
  then show ?thesis using assms by (auto simp: kept_def queue_inv_def wake_def startable_def upd_task_def)
qed

lemma frame_kept:
  assumes "queue_inv s" "tasks_active s' = tasks_active s" "tasks_inactive s' = tasks_inactive s" "running_tasks s' = running_tasks s"
    "q_empty s' = q_empty s" "task s' = task s" "iterators s' = iterators s" "wake s \<longrightarrow> wake s'"
  shows "kept s s'"
  using assms by (simp add: kept_def queue_inv_def)

lemma signal_kept: "queue_inv s \<Longrightarrow> kept s (s\<lparr>signals := x\<rparr>)"
  by (rule frame_kept) (auto simp: wake_def startable_def)

lemma runqueue_process_cancel_cb_kept: "queue_inv s \<Longrightarrow> kept s (runqueue_process_cancel_cb t n s)"
  by (simp add: runqueue_process_cancel_cb_def Let_def signal_kept)

lemma runqueue_process_kill_cb_kept:
  assumes "queue_inv s"
  shows "kept s (runqueue_process_kill_cb t s)"
proof -
  have "kept s (upd_task t (\<lambda>r. r\<lparr>proc_pending := False\<rparr>) s)" using assms by (rule upd_task_kept) simp_all
  then show ?thesis unfolding runqueue_process_kill_cb_def Let_def using kept_trans signal_kept keptD(1) by metis
qed

lemma task_timeout_set_kept: "queue_inv s \<Longrightarrow> running (task s t) \<Longrightarrow> kept s (task_timeout_set t ms s)"
  unfolding task_timeout_set_def by (rule upd_task_kept) simp_all

locale rq_callbacks =
  fixes cbs :: "'w queue_cbs"
  assumes run_lawful: "lawful (cb_run cbs t)"
    and cancel_lawful: "lawful (cb_cancel cbs t n)"
    and kill_lawful: "lawful (cb_kill cbs t)"
    and complete_lawful: "lawful (cb_complete cbs t)"
    and empty_lawful: "lawful (cb_empty cbs)"
begin

lemma type_cancel_lawful: "lawful (type_cancel cbs ty t n)"
  using lawfulD [OF cancel_lawful] runqueue_process_cancel_cb_kept kept_refl by (auto simp: lawful_def type_cancel_def)

lemma type_kill_lawful: "lawful (type_kill cbs ty t)"
  using lawfulD [OF kill_lawful] runqueue_process_kill_cb_kept kept_refl by (auto simp: lawful_def type_kill_def)

lemma complete_kept:
  assumes inv: "queue_inv s" and q: "queued (task s t)"
  obtains s1 where "runqueue_task_complete cbs t s = Some (runqueue_start_next s1)" "quiet s s1"
    "kept (unqueue t s) s1"
proof -
  have u: "quiet s (unqueue t s)" using unqueue_quiet [OF assms] .
  then have inv': "queue_inv (unqueue t s)" by (simp add: quiet_def)
  obtain s1 where "(if t_complete (task (unqueue t s) t) then cb_complete cbs t (unqueue t s) else Some (unqueue t s)) = Some s1" "kept (unqueue t s) s1"
    using lawfulD [OF complete_lawful inv'] kept_refl [OF inv'] by (metis (full_types))
  then show ?thesis using that q u quiet_trans [OF u kept_quiet] by (simp add: runqueue_task_complete_unqueue)
qed

lemma task_complete_lawful: "lawful (runqueue_task_complete cbs t)"
proof (rule lawfulI)
  fix s :: "'w runqueue" assume inv: "queue_inv s"
  show "\<exists>s'. runqueue_task_complete cbs t s = Some s' \<and> kept s s'"
  proof (cases "queued (task s t)")
    case True
    then show ?thesis using complete_kept [OF inv] start_next_kept by metis
  next
    case False
    then show ?thesis using kept_refl [OF inv] by (simp add: runqueue_task_complete_def)
  qed
qed

lemma task_kill_lawful: "lawful (runqueue_task_kill cbs t)"
proof (rule lawfulI)
  fix s :: "'w runqueue" assume inv: "queue_inv s"
  show "\<exists>s'. runqueue_task_kill cbs t s = Some s' \<and> kept s s'"
  proof (cases "queued (task s t)")
    case True
    obtain ty where ty: "t_type (task s t) = Some ty" using queue_inv_queued inv True by blast
    obtain s1 where s1: "runqueue_task_complete cbs t s = Some s1" "kept s s1" using lawfulD [OF task_complete_lawful inv] by blast
    have ty1: "t_type (task s1 t) = Some ty" using keptD(3) s1(2) ty by blast
    obtain s2 where s2: "type_kill cbs ty t s1 = Some s2" "kept s1 s2" using lawfulD [OF type_kill_lawful keptD(1) [OF s1(2)]] by blast
    show ?thesis using True s1 s2 ty1 start_next_kept [OF kept_quiet [OF s1(2)]] start_next_kept [OF kept_quiet [OF kept_trans [OF s1(2) s2(2)]]]
      by (simp add: runqueue_task_kill_def)
  next
    case False
    then show ?thesis using kept_refl [OF inv] by (simp add: runqueue_task_kill_def)
  qed
qed

lemma task_cancel_lawful: "lawful (runqueue_task_cancel cbs t n)"
proof (rule lawfulI)
  fix s :: "'w runqueue" assume inv: "queue_inv s"
  show "\<exists>s'. runqueue_task_cancel cbs t n s = Some s' \<and> kept s s'"
  proof (cases "queued (task s t) \<and> running (task s t)")
    case True
    define s1 where "s1 = upd_task t (\<lambda>r. r\<lparr>cancelled := True\<rparr>) s"
    define s2 where "s2 = (if cancel_timeout (task s1 t) \<noteq> 0 then task_timeout_set t (cancel_timeout (task s1 t)) s1 else s1)"
    have k1: "kept s s1" unfolding s1_def using inv by (rule upd_task_kept) simp_all
    have "running (task s1 t)" using True by (simp add: s1_def upd_task_def)
    then have "kept s1 s2" using task_timeout_set_kept [OF keptD(1) [OF k1]] kept_refl [OF keptD(1) [OF k1]] by (simp add: s2_def)
    then have k: "kept s s2" using kept_trans k1 by blast
    obtain ty where ty: "t_type (task s2 t) = Some ty" using queue_inv_queued [OF inv] True keptD(3) [OF k] by blast
    obtain s3 where "type_cancel cbs ty t n s2 = Some s3" "kept s2 s3" using lawfulD [OF type_cancel_lawful keptD(1) [OF k]] by blast
    then show ?thesis using True ty kept_trans [OF k] by (simp add: runqueue_task_cancel_def Let_def flip: s1_def s2_def)
  next
    case False
    then show ?thesis using kept_refl [OF inv] lawfulD [OF task_complete_lawful inv] by (auto simp: runqueue_task_cancel_def)
  qed
qed

lemma task_timeout_lawful: "lawful (runqueue_task_timeout cbs t)"
  using task_kill_lawful task_cancel_lawful by (auto simp: lawful_def runqueue_task_timeout_def)

end

lemma tasks_ok_add:
  assumes "tasks_ok A I tk" "\<not> queued (tk t)" "t_type (tk t) = Some ty" "run \<or> ty_run ty"
    "A' = A @ [t] \<or> A' = t # A" "I' = I @ [t] \<or> I' = t # I"
  shows "tasks_ok (if run then A' else A) (if run then I else I') (tk(t := (tk t)\<lparr>cancelled := False, queued := True, running := run\<rparr>))"
  using assms unfolding tasks_ok_def by (cases run) auto

lemma task_add_kept:
  assumes inv: "queue_inv s" and "t_type (task s t) \<noteq> None"
  shows "\<exists>s'. runqueue_task_add_gen t run first s = Some s' \<and> kept s s'"
proof -
  obtain ty where ty: "t_type (task s t) = Some ty" using assms(2) by blast
  show ?thesis
  proof (cases "queued (task s t) \<or> \<not> ty_run ty \<and> \<not> run")
    case True
    then show ?thesis using kept_refl [OF inv] ty by (auto simp: runqueue_task_add_gen_def)
  next
    case False
    let ?head = "if run then Active else Inactive"
    define s0 where "s0 = (if run then s\<lparr>running_tasks := running_tasks s + 1\<rparr> else s)"
    define s1 where "s1 = (if first then q_list_add_first t ?head s0 else q_list_add t ?head s0)"
    define s2 where "s2 = upd_task t (\<lambda>r. r\<lparr>cancelled := False, queued := True, running := run\<rparr>) s1"
    define ins where "ins = (\<lambda>xs. if first then t # xs else xs @ [t])"
    have fields: "tasks_active s2 = (if run then ins (tasks_active s) else tasks_active s)" "tasks_inactive s2 = (if run then tasks_inactive s else ins (tasks_inactive s))"
      "running_tasks s2 = (if run then running_tasks s + 1 else running_tasks s)" "iterators s2 = iterators s"
      "task s2 = (task s)(t := (task s t)\<lparr>cancelled := False, queued := True, running := run\<rparr>)"
      by (auto simp: s2_def s1_def s0_def ins_def upd_task_def q_list_add_def q_list_add_first_def)
    note d = inv [unfolded queue_inv_def]
    have "tasks_ok (tasks_active s2) (tasks_inactive s2) (task s2)"
      unfolding fields by (rule tasks_ok_add [of _ _ _ _ ty]) (use d False ty in \<open>auto simp: ins_def\<close>)
    moreover have "iters_ok (tasks_active s2) (tasks_inactive s2) (iterators s2)"
      using d unfolding fields iters_ok_def by (auto simp: ins_def split: which.splits)
    moreover have "running_tasks s2 = int (length (tasks_active s2))" using d unfolding fields by (auto simp: ins_def)
    ultimately have "quiet s (s2\<lparr>q_empty := False\<rparr>)" by (auto simp: quiet_def queue_inv_def fields)
    then have "kept s (runqueue_start_next (s2\<lparr>q_empty := False\<rparr>))" by (rule start_next_kept)
    moreover have "runqueue_task_add_gen t run first s = Some (runqueue_start_next (s2\<lparr>q_empty := False\<rparr>))"
      using False ty by (auto simp: runqueue_task_add_gen_def Let_def simp flip: s0_def s1_def s2_def)
    ultimately show ?thesis by blast
  qed
qed

lemma stop_kept: "queue_inv s \<Longrightarrow> kept s (runqueue_stop s)"
  by (rule frame_kept) (auto simp: runqueue_stop_def wake_def startable_def)

lemma resume_kept: "queue_inv s \<Longrightarrow> kept s (runqueue_resume s)"
  unfolding runqueue_resume_def by (rule start_next_kept) (auto simp: quiet_def queue_inv_def)

lemma process_add_kept:
  assumes inv: "queue_inv s"
  shows "\<exists>s'. runqueue_process_add t pid s = Some s' \<and> kept s s'"
proof (cases "proc_pending (task s t)")
  case True
  then show ?thesis using kept_refl [OF inv] by (simp add: runqueue_process_add_def)
next
  case False
  define s1 where "s1 = upd_task t (\<lambda>r. r\<lparr>proc_pid := pid\<rparr>) s"
  define s2 where "s2 = (if t_type (task s1 t) = None then upd_task t (\<lambda>r. r\<lparr>t_type := Some runqueue_proc_type\<rparr>) s1 else s1)"
  define s3 where "s3 = upd_task t (\<lambda>r. r\<lparr>proc_pending := True\<rparr>) s2"
  have k1: "kept s s1" unfolding s1_def using inv by (rule upd_task_kept) simp_all
  have k2: "kept s1 s2"
  proof (cases "t_type (task s1 t) = None")
    case True
    then show ?thesis unfolding s2_def using keptD(1) [OF k1] by (auto intro: upd_task_kept)
  qed (use k1 kept_refl keptD(1) in \<open>auto simp: s2_def\<close>)
  have k3: "kept s2 s3" unfolding s3_def using keptD(1) [OF k2] by (rule upd_task_kept) simp_all
  have k: "kept s s3" using k1 k2 k3 kept_trans by blast
  have "t_type (task s2 t) \<noteq> None" by (auto simp: s2_def upd_task_def)
  then have "t_type (task s3 t) \<noteq> None" by (simp add: s3_def upd_task_def)
  then obtain s' where "runqueue_task_add t True s3 = Some s'" "kept s3 s'"
    using task_add_kept [OF keptD(1) [OF k]] unfolding runqueue_task_add_def by blast
  then show ?thesis using False k kept_trans [OF k] by (simp add: runqueue_process_add_def Let_def flip: s1_def s2_def s3_def)
qed

section \<open>Operations on tasks\<close>

text \<open>The calls of a program, the timers of tasks that run out and the processes that end.\<close>

datatype rq_op = Add addr bool | Add_First addr bool | Complete addr | Cancel addr int | Kill addr | Task_Timeout addr
  | Stop | Resume | Process_Add addr int | Process_End addr

fun rq_apply :: "'w queue_cbs \<Rightarrow> rq_op \<Rightarrow> 'w q_fun" where
  "rq_apply cbs (Add t run) s = runqueue_task_add t run s"
| "rq_apply cbs (Add_First t run) s = runqueue_task_add_first t run s"
| "rq_apply cbs (Complete t) s = runqueue_task_complete cbs t s"
| "rq_apply cbs (Cancel t n) s = runqueue_task_cancel cbs t n s"
| "rq_apply cbs (Kill t) s = runqueue_task_kill cbs t s"
| "rq_apply cbs (Task_Timeout t) s = runqueue_task_timeout cbs t (task_timeout_cancel t s)"
| "rq_apply cbs Stop s = Some (runqueue_stop s)"
| "rq_apply cbs Resume s = Some (runqueue_resume s)"
| "rq_apply cbs (Process_Add t pid) s = runqueue_process_add t pid s"
| "rq_apply cbs (Process_End t) s = runqueue_proc_cb cbs t (upd_task t (\<lambda>r. r\<lparr>proc_pending := False\<rparr>) s)"

text \<open>A task that is added has a type.\<close>

fun op_typed :: "rq_op \<Rightarrow> 'w runqueue \<Rightarrow> bool" where
  "op_typed (Add t run) s \<longleftrightarrow> t_type (task s t) \<noteq> None"
| "op_typed (Add_First t run) s \<longleftrightarrow> t_type (task s t) \<noteq> None"
| "op_typed _ s \<longleftrightarrow> True"

context rq_callbacks
begin

lemma after_kept:
  assumes "kept s s1" "lawful f"
  shows "\<exists>s'. f s1 = Some s' \<and> kept s s'"
  using lawfulD [OF assms(2) keptD(1) [OF assms(1)]] kept_trans [OF assms(1)] by blast

lemma rq_apply_kept:
  assumes inv: "queue_inv s" and ty: "op_typed op s"
  shows "\<exists>s'. rq_apply cbs op s = Some s' \<and> kept s s'"
proof (cases op)
  case (Task_Timeout t)
  have "kept s (task_timeout_cancel t s)" unfolding task_timeout_cancel_def using inv by (rule upd_task_kept) simp_all
  from after_kept [OF this task_timeout_lawful] show ?thesis using Task_Timeout by simp
next
  case (Process_End t)
  have "kept s (upd_task t (\<lambda>r. r\<lparr>proc_pending := False\<rparr>) s)" using inv by (rule upd_task_kept) simp_all
  from after_kept [OF this task_complete_lawful] show ?thesis using Process_End by (simp add: runqueue_proc_cb_def)
next
  case (Add t run)
  then show ?thesis using task_add_kept [OF inv] ty by (simp add: runqueue_task_add_def)
next
  case (Add_First t run)
  then show ?thesis using task_add_kept [OF inv] ty by (simp add: runqueue_task_add_first_def)
qed (use inv task_complete_lawful task_cancel_lawful task_kill_lawful stop_kept resume_kept process_add_kept in \<open>auto simp: lawful_def\<close>)

end

section \<open>Callbacks that add no tasks\<close>

text \<open>What an iterator still has to visit.\<close>

definition ahead :: "addr option \<Rightarrow> addr list \<Rightarrow> addr list" where
  "ahead p xs = (case p of None \<Rightarrow> [] | Some t \<Rightarrow> dropWhile (\<lambda>x. x \<noteq> t) xs)"

lemma ahead_none [simp]: "ahead None xs = []"
  by (simp add: ahead_def)

lemma ahead_cons: "t \<in> set xs \<Longrightarrow> \<exists>ys. ahead (Some t) xs = t # ys"
  by (induction xs) (auto simp: ahead_def)

lemma ahead_subset: "set (ahead p xs) \<subseteq> set xs"
  by (auto simp: ahead_def dest: set_dropWhileD split: option.splits)

lemma dropWhile_other: "u \<notin> set xs \<Longrightarrow> dropWhile (\<lambda>x. x \<noteq> u) xs = []"
  by (induction xs) auto

lemma ahead_behind: "distinct xs \<Longrightarrow> t \<in> set xs \<Longrightarrow> ahead (behind t xs) xs = tl (ahead (Some t) xs)"
proof (induction xs)
  case (Cons x xs)
  show ?case
  proof (cases "x = t")
    case True
    then show ?thesis using Cons.prems by (cases xs) (auto simp: ahead_def)
  next
    case False
    then have t: "t \<in> set xs" using Cons.prems by simp
    have "x \<noteq> u" if "behind t xs = Some u" for u using behind_mem [OF that] Cons.prems by auto
    then have "ahead (behind t xs) (x # xs) = ahead (behind t xs) xs" by (auto simp: ahead_def split: option.splits)
    then show ?thesis using False Cons t by (simp add: ahead_def)
  qed
qed simp

lemma ahead_removeAll: "p \<noteq> Some t \<Longrightarrow> ahead p (removeAll t xs) = removeAll t (ahead p xs)"
proof (cases p)
  case (Some u)
  assume "p \<noteq> Some t"
  then show ?thesis using Some by (induction xs) (auto simp: ahead_def)
qed simp

lemma removeAll_ahead_tl:
  assumes "distinct xs" "t \<in> set xs"
  shows "removeAll t (ahead (Some t) xs) = tl (ahead (Some t) xs)"
proof -
  obtain ys where ys: "ahead (Some t) xs = t # ys" using ahead_cons assms(2) by blast
  have "distinct (ahead (Some t) xs)" using assms(1) by (simp add: ahead_def)
  then show ?thesis using ys by simp
qed

lemma ahead_removeAll_behind:
  assumes "distinct xs" "t \<in> set xs"
  shows "ahead (behind t xs) (removeAll t xs) = removeAll t (ahead (Some t) xs)"
proof -
  have "behind t xs \<noteq> Some t" using behind_other assms(1) by blast
  then have "ahead (behind t xs) (removeAll t xs) = removeAll t (tl (ahead (Some t) xs))"
    using ahead_removeAll ahead_behind assms by metis
  then show ?thesis by (simp flip: removeAll_ahead_tl [OF assms])
qed

text \<open>The lists get shorter, and the iterators go on with what is left.\<close>

definition lists_shrunk :: "'w runqueue \<Rightarrow> 'w runqueue \<Rightarrow> bool" where
  "lists_shrunk s s' \<longleftrightarrow> max_running_tasks s' = max_running_tasks s \<and> (\<forall>l. q_list l s' = filter (\<lambda>t. t \<in> set (q_list l s')) (q_list l s))"

definition iter_shrunk :: "'w runqueue \<Rightarrow> 'w runqueue \<Rightarrow> which \<times> addr option \<Rightarrow> which \<times> addr option \<Rightarrow> bool" where
  "iter_shrunk s s' = (\<lambda>(l, p) (l', p'). l' = l \<and> ahead p' (q_list l s') = filter (\<lambda>t. t \<in> set (q_list l s')) (ahead p (q_list l s)))"

definition shrunk :: "'w runqueue \<Rightarrow> 'w runqueue \<Rightarrow> bool" where
  "shrunk s s' \<longleftrightarrow> lists_shrunk s s' \<and> list_all2 (iter_shrunk s s') (iterators s) (iterators s')"

lemma lists_shrunk_set: "lists_shrunk s s' \<Longrightarrow> set (q_list l s') \<subseteq> set (q_list l s)"
  unfolding lists_shrunk_def by (metis filter_is_subset)

lemma filter_within: "B \<subseteq> A \<Longrightarrow> filter (\<lambda>t. t \<in> B) (filter (\<lambda>t. t \<in> A) xs) = filter (\<lambda>t. t \<in> B) xs"
  by (induction xs) auto

lemma lists_shrunk_trans:
  assumes "lists_shrunk a b" "lists_shrunk b c"
  shows "lists_shrunk a c"
proof -
  have "q_list l c = filter (\<lambda>t. t \<in> set (q_list l c)) (q_list l a)" for l
  proof -
    have "q_list l c = filter (\<lambda>t. t \<in> set (q_list l c)) (q_list l b)" "q_list l b = filter (\<lambda>t. t \<in> set (q_list l b)) (q_list l a)"
      using assms unfolding lists_shrunk_def by blast+
    then show ?thesis using filter_within [OF lists_shrunk_set [OF assms(2), of l], of "q_list l a"] by argo
  qed
  then show ?thesis using assms by (simp add: lists_shrunk_def)
qed

lemma iter_shrunk_trans:
  assumes "lists_shrunk b c" "iter_shrunk a b x y" "iter_shrunk b c y z"
  shows "iter_shrunk a c x z"
proof -
  obtain l p p' p'' where x: "x = (l, p)" "y = (l, p')" "z = (l, p'')" using assms(2,3) by (auto simp: iter_shrunk_def split: prod.splits)
  have "ahead p'' (q_list l c) = filter (\<lambda>t. t \<in> set (q_list l c)) (filter (\<lambda>t. t \<in> set (q_list l b)) (ahead p (q_list l a)))"
    using assms(2,3) x by (simp add: iter_shrunk_def)
  also have "\<dots> = filter (\<lambda>t. t \<in> set (q_list l c)) (ahead p (q_list l a))"
    by (rule filter_within [OF lists_shrunk_set [OF assms(1)]])
  finally show ?thesis using x by (simp add: iter_shrunk_def)
qed

lemma shrunk_trans: "shrunk a b \<Longrightarrow> shrunk b c \<Longrightarrow> shrunk a c"
  unfolding shrunk_def using lists_shrunk_trans list_all2_trans [of "iter_shrunk a b" "iter_shrunk b c" "iter_shrunk a c"] iter_shrunk_trans by metis

lemma shrunk_frame:
  assumes "tasks_active s' = tasks_active s" "tasks_inactive s' = tasks_inactive s" "max_running_tasks s' = max_running_tasks s" "iterators s' = iterators s"
  shows "shrunk s s'"
proof -
  have q: "q_list l s' = q_list l s" for l using assms by (cases l) simp_all
  have "filter (\<lambda>t. t \<in> set (q_list l s)) (ahead p (q_list l s)) = ahead p (q_list l s)" for l p
    using ahead_subset by (auto simp: filter_id_conv)
  then have "iter_shrunk s s' x x" for x by (cases x) (simp add: iter_shrunk_def q)
  then show ?thesis using assms q by (simp add: shrunk_def lists_shrunk_def list_all2_same)
qed

lemma unqueue_lists:
  assumes "queue_inv s" "queued (task s t)"
  shows "q_list l (unqueue t s) = removeAll t (q_list l s)"
  using unqueue_fields(1,2) [OF assms] by (cases l) simp_all

lemma filter_removeAll: "set ys \<subseteq> set xs \<Longrightarrow> filter (\<lambda>u. u \<in> set (removeAll t xs)) ys = removeAll t ys"
  by (induction ys) auto

lemma unqueue_shrunk:
  assumes inv: "queue_inv s" and q: "queued (task s t)"
  shows "shrunk s (unqueue t s)"
proof -
  note d = inv [unfolded queue_inv_def]
  have lists: "lists_shrunk s (unqueue t s)"
    using unqueue_fields(4) [OF inv q] by (simp add: lists_shrunk_def unqueue_lists [OF inv q] filter_removeAll del: set_removeAll)
  have "iter_shrunk s (unqueue t s) (l, p) (l, if p = Some t then behind t (if t \<in> set (tasks_active s) then tasks_active s else tasks_inactive s) else p)"
    if lp: "(l, p) \<in> set (iterators s)" for l p
  proof (cases "p = Some t")
    case True
    have t: "t \<in> set (q_list l s)" "distinct (q_list l s)" using lp True d tasks_okD(1,2) by (cases l; auto simp: iters_ok_def split: which.splits)+
    moreover have "(if t \<in> set (tasks_active s) then tasks_active s else tasks_inactive s) = q_list l s"
      using t d tasks_okD(3) by (cases l) auto
    ultimately show ?thesis using True ahead_subset
      by (simp add: iter_shrunk_def unqueue_lists [OF inv q] ahead_removeAll_behind filter_removeAll del: set_removeAll)
  next
    case False
    then show ?thesis using ahead_subset by (simp add: iter_shrunk_def unqueue_lists [OF inv q] ahead_removeAll filter_removeAll del: set_removeAll)
  qed
  then have "list_all2 (iter_shrunk s (unqueue t s)) (iterators s) (iterators (unqueue t s))"
    unfolding unqueue_fields(6) [OF inv q] list_all2_map2 list_all2_same by (simp only: prod.case Ball_def split_paired_All) blast
  then show ?thesis using lists by (simp add: shrunk_def)
qed

definition closed_fun :: "'w q_fun \<Rightarrow> bool" where
  "closed_fun f \<longleftrightarrow> lawful f \<and> (\<forall>s s'. queue_inv s \<longrightarrow> f s = Some s' \<longrightarrow> shrunk s s')"

lemma closed_funD:
  assumes "closed_fun f" "queue_inv s"
  obtains s' where "f s = Some s'" "kept s s'" "shrunk s s'"
  using assms by (auto simp: closed_fun_def lawful_def)

lemma closed_funI: "lawful f \<Longrightarrow> (\<And>s s'. queue_inv s \<Longrightarrow> f s = Some s' \<Longrightarrow> shrunk s s') \<Longrightarrow> closed_fun f"
  by (simp add: closed_fun_def)

lemma shrunk_refl: "shrunk s s"
  by (rule shrunk_frame) simp_all

lemma start_next_shrunk: "shrunk s s1 \<Longrightarrow> shrunk s (runqueue_start_next s1)"
  using shrunk_trans shrunk_frame [of "runqueue_start_next s1" s1] by (auto simp: runqueue_start_next_def split: if_splits)

lemma upd_task_shrunk: "shrunk s s1 \<Longrightarrow> shrunk s (upd_task t f s1)"
  using shrunk_trans shrunk_frame [of "upd_task t f s1" s1] by (auto simp: upd_task_def)

lemma signals_shrunk: "shrunk s s1 \<Longrightarrow> shrunk s (s1\<lparr>signals := x\<rparr>)"
  using shrunk_trans shrunk_frame [of "s1\<lparr>signals := x\<rparr>" s1] by auto

lemmas shrunk_intros = shrunk_refl start_next_shrunk upd_task_shrunk signals_shrunk

text \<open>A task that is not queued does not become queued.\<close>

lemma shrunk_unqueued: "lists_shrunk s s' \<Longrightarrow> t \<notin> set (q_list l s) \<Longrightarrow> t \<notin> set (q_list l s')"
  using lists_shrunk_set by blast

locale rq_closed = rq_callbacks cbs for cbs :: "'w queue_cbs" +
  assumes run_closed: "closed_fun (cb_run cbs t)"
    and cancel_closed: "closed_fun (cb_cancel cbs t n)"
    and kill_closed: "closed_fun (cb_kill cbs t)"
    and complete_closed: "closed_fun (cb_complete cbs t)"
begin

lemma type_cancel_closed: "closed_fun (type_cancel cbs ty t n)"
  by (rule closed_funI [OF type_cancel_lawful])
    (use cancel_closed in \<open>auto simp: type_cancel_def runqueue_process_cancel_cb_def Let_def closed_fun_def intro: shrunk_intros split: if_splits\<close>)

lemma type_kill_closed: "closed_fun (type_kill cbs ty t)"
  by (rule closed_funI [OF type_kill_lawful])
    (use kill_closed in \<open>auto simp: type_kill_def runqueue_process_kill_cb_def Let_def closed_fun_def intro: shrunk_intros split: if_splits\<close>)

lemma complete_shrunk:
  assumes inv: "queue_inv s" and q: "queued (task s t)" and "runqueue_task_complete cbs t s = Some s'"
  shows "shrunk s s'" "t \<notin> set (q_list l s')"
proof -
  have u: "queue_inv (unqueue t s)" "shrunk s (unqueue t s)" using unqueue_quiet [OF inv q] unqueue_shrunk [OF inv q] by (simp_all add: quiet_def)
  obtain s1 where s1: "s' = runqueue_start_next s1" "shrunk (unqueue t s) s1"
    using assms(3) q closed_funD [OF complete_closed u(1), of t] shrunk_refl
    by (auto simp: runqueue_task_complete_unqueue split: if_splits bind_splits)
  then have sh: "shrunk (unqueue t s) s'" using start_next_shrunk by blast
  then show "shrunk s s'" using u(2) shrunk_trans by blast
  show "t \<notin> set (q_list l s')" using sh shrunk_unqueued [of "unqueue t s" s' t l] unqueue_lists [OF inv q] by (auto simp: shrunk_def)
qed

lemma task_complete_closed: "closed_fun (runqueue_task_complete cbs t)"
proof (rule closed_funI [OF task_complete_lawful])
  fix s s' :: "'w runqueue" assume "queue_inv s" "runqueue_task_complete cbs t s = Some s'"
  then show "shrunk s s'" using complete_shrunk(1) shrunk_refl by (cases "queued (task s t)") (auto simp: runqueue_task_complete_def)
qed

lemma kill_shrunk:
  assumes inv: "queue_inv s" and q: "queued (task s t)" and "runqueue_task_kill cbs t s = Some s'"
  shows "shrunk s s'" "t \<notin> set (q_list l s')"
proof -
  obtain s1 where s1: "runqueue_task_complete cbs t s = Some s1" "kept s s1" using lawfulD [OF task_complete_lawful inv] by blast
  note c = complete_shrunk [OF inv q s1(1)]
  have "shrunk s1 s2" if "type_kill cbs ty t s1 = Some s2" for ty s2
    using that type_kill_closed keptD(1) [OF s1(2)] by (simp add: closed_fun_def)
  then have sh: "shrunk s1 s'" using assms(3) s1 q
    by (auto simp: runqueue_task_kill_def intro: shrunk_intros split: if_splits bind_splits)
  then show "shrunk s s'" using c(1) shrunk_trans by blast
  show "t \<notin> set (q_list l s')" using sh shrunk_unqueued [OF _ c(2)] by (simp add: shrunk_def)
qed

lemma task_kill_closed: "closed_fun (runqueue_task_kill cbs t)"
proof (rule closed_funI [OF task_kill_lawful])
  fix s s' :: "'w runqueue" assume "queue_inv s" "runqueue_task_kill cbs t s = Some s'"
  then show "shrunk s s'" using kill_shrunk(1) shrunk_refl by (cases "queued (task s t)") (auto simp: runqueue_task_kill_def)
qed

lemma task_cancel_closed: "closed_fun (runqueue_task_cancel cbs t n)"
proof (rule closed_funI [OF task_cancel_lawful])
  fix s s' :: "'w runqueue" assume inv: "queue_inv s" and run: "runqueue_task_cancel cbs t n s = Some s'"
  show "shrunk s s'"
  proof (cases "queued (task s t) \<and> running (task s t)")
    case True
    define s1 where "s1 = upd_task t (\<lambda>r. r\<lparr>cancelled := True\<rparr>) s"
    define s2 where "s2 = (if cancel_timeout (task s1 t) \<noteq> 0 then task_timeout_set t (cancel_timeout (task s1 t)) s1 else s1)"
    have "kept s s1" unfolding s1_def using inv by (rule upd_task_kept) simp_all
    moreover have "running (task s1 t)" using True by (simp add: s1_def upd_task_def)
    ultimately have "queue_inv s2" using keptD(1) task_timeout_set_kept by (metis s2_def)
    moreover have "shrunk s s2" by (auto simp: s2_def s1_def task_timeout_set_def intro: shrunk_intros)
    moreover have "\<exists>ty. type_cancel cbs ty t n s2 = Some s'"
      using run True by (auto simp: runqueue_task_cancel_def Let_def simp flip: s1_def s2_def split: bind_splits)
    ultimately show ?thesis using type_cancel_closed shrunk_trans by (metis closed_fun_def)
  next
    case False
    then show ?thesis using run inv shrunk_refl task_complete_closed by (auto simp: runqueue_task_cancel_def closed_fun_def split: if_splits)
  qed
qed

end

text \<open>Starting a task.\<close>

lemma start_task_fields:
  assumes inv: "queue_inv s" and t: "tasks_inactive s = t # ts"
  shows "tasks_active (start_task t s) = tasks_active s @ [t]" "tasks_inactive (start_task t s) = ts"
    "running_tasks (start_task t s) = running_tasks s + 1" "max_running_tasks (start_task t s) = max_running_tasks s" "q_empty (start_task t s) = q_empty s"
    "iterators (start_task t s) = map (\<lambda>(k, p). (k, if p = Some t then behind t (t # ts) else p)) (iterators s)"
    "task (start_task t s) = (task s)(t := (task s t)\<lparr>running := True, t_timeout := (if run_timeout (task s t) \<noteq> 0 then Some (run_timeout (task s t)) else t_timeout (task s t))\<rparr>)"
proof -
  have "t \<notin> set (tasks_active s)" "t \<notin> set ts" using inv t by (auto simp: queue_inv_def tasks_ok_def)
  then show "tasks_active (start_task t s) = tasks_active s @ [t]" "tasks_inactive (start_task t s) = ts"
    "running_tasks (start_task t s) = running_tasks s + 1" "max_running_tasks (start_task t s) = max_running_tasks s" "q_empty (start_task t s) = q_empty s"
    "iterators (start_task t s) = map (\<lambda>(k, p). (k, if p = Some t then behind t (t # ts) else p)) (iterators s)"
    "task (start_task t s) = (task s)(t := (task s t)\<lparr>running := True, t_timeout := (if run_timeout (task s t) \<noteq> 0 then Some (run_timeout (task s t)) else t_timeout (task s t))\<rparr>)"
    using t by (simp_all add: start_task_def Let_def q_list_del_def q_list_add_def task_timeout_set_def upd_task_def split: prod.split)
qed

lemma iters_ok_mono: "iters_ok A I its \<Longrightarrow> set A \<subseteq> set A' \<Longrightarrow> set I \<subseteq> set I' \<Longrightarrow> iters_ok A' I' its"
  unfolding iters_ok_def by (metis (no_types) subsetD which.exhaust which.simps(3,4))

lemma start_task_quiet:
  assumes inv: "queue_inv s" and t: "tasks_inactive s = t # ts"
  shows "quiet s (start_task t s)"
proof -
  note d = inv [unfolded queue_inv_def] and f = start_task_fields [OF assms]
  have fresh: "t \<notin> set (tasks_active s)" "t \<notin> set ts" using d t by (auto simp: tasks_ok_def)
  have nx: "(if t \<in> set (tasks_active s) then tasks_active s else t # ts) = t # ts" using fresh by simp
  have "tasks_ok (tasks_active s @ [t]) ts (task (start_task t s))"
    using d t unfolding f by (auto simp: tasks_ok_def)
  moreover have "iters_ok (tasks_active s) ts (iterators (start_task t s))"
    using iters_ok_remove [of "tasks_active s" "t # ts" "iterators s" "task s" t, unfolded nx] d t fresh unfolding f by simp
  then have "iters_ok (tasks_active s @ [t]) ts (iterators (start_task t s))" by (rule iters_ok_mono) auto
  ultimately have "queue_inv (start_task t s)" using d t unfolding queue_inv_def f by auto
  then show ?thesis using f(6,7) by (auto simp: quiet_def)
qed

lemma start_task_typed:
  assumes "queue_inv s" "tasks_inactive s = t # ts"
  obtains ty where "t_type (task (start_task t s) t) = Some ty" "ty_run ty"
  using assms unfolding start_task_fields(7) [OF assms] by (force simp: queue_inv_def tasks_ok_def)

context rq_closed
begin

lemma start_loop_returns:
  assumes "queue_inv s"
  shows "\<exists>s'. start_loop cbs s = Some s' \<and> quiet s s' \<and> \<not> startable s' \<and> max_running_tasks s' = max_running_tasks s
    \<and> (max_running_tasks s \<noteq> 0 \<longrightarrow> running_tasks s' \<le> max (running_tasks s) (max_running_tasks s))"
  using assms
proof (induction "length (tasks_inactive s)" arbitrary: s rule: less_induct)
  case less
  show ?case
  proof (cases "startable s")
    case False
    then show ?thesis using kept_quiet [OF kept_refl [OF less.prems]] by (subst start_loop.simps) simp
  next
    case True
    then obtain t ts where t: "tasks_inactive s = t # ts" by (auto simp: startable_def neq_Nil_conv)
    note st = start_task_quiet [OF less.prems t]
    obtain ty where ty: "t_type (task (start_task t s) t) = Some ty" "ty_run ty" using start_task_typed [OF less.prems t] .
    have inv1: "queue_inv (start_task t s)" using st by (simp add: quiet_def)
    obtain s1 where s1: "cb_run cbs t (start_task t s) = Some s1" "kept (start_task t s) s1" "shrunk (start_task t s) s1"
      using closed_funD [OF run_closed inv1] by blast
    have lists: "lists_shrunk (start_task t s) s1" using s1(3) by (simp add: shrunk_def)
    have len: "length (q_list l s1) \<le> length (q_list l (start_task t s))" for l
      using lists unfolding lists_shrunk_def by (metis length_filter_le)
    have inv2: "queue_inv s1" using keptD(1) [OF s1(2)] .
    have less': "length (tasks_inactive s1) < length (tasks_inactive s)" using len [of Inactive] t start_task_fields(2) [OF less.prems t] by simp
    have run: "running_tasks s1 \<le> running_tasks s + 1"
      using len [of Active] inv1 inv2 start_task_fields(1,3) [OF less.prems t] by (simp add: queue_inv_def)
    have mx: "max_running_tasks s1 = max_running_tasks s" using lists start_task_fields(4) [OF less.prems t] by (simp add: lists_shrunk_def)
    obtain s' where s': "start_loop cbs s1 = Some s'" "quiet s1 s'" "\<not> startable s'" "max_running_tasks s' = max_running_tasks s1"
      "max_running_tasks s1 \<noteq> 0 \<longrightarrow> running_tasks s' \<le> max (running_tasks s1) (max_running_tasks s1)"
      using less.hyps [OF less' inv2] by blast
    have "start_loop cbs s = Some s'" using True t ty s1(1) s'(1) by (subst start_loop.simps) (simp add: type_run_def)
    moreover have "quiet s s'" using st quiet_trans kept_quiet [OF s1(2)] s'(2) by blast
    moreover have "max_running_tasks s \<noteq> 0 \<longrightarrow> running_tasks s' \<le> max (running_tasks s) (max_running_tasks s)"
      using s'(5) mx run True by (auto simp: startable_def)
    ultimately show ?thesis using s'(3,4) mx by auto
  qed
qed

lemma kill_loop_returns:
  assumes "queue_inv s"
  shows "\<exists>s'. kill_loop cbs s = Some s' \<and> kept s s' \<and> tasks_active s' = []"
  using assms
proof (induction "length (tasks_active s)" arbitrary: s rule: less_induct)
  case less
  show ?case
  proof (cases "tasks_active s")
    case Nil
    then show ?thesis using kept_refl [OF less.prems] by (subst kill_loop.simps) simp
  next
    case (Cons t ts)
    have q: "queued (task s t)" using less.prems Cons by (simp add: queue_inv_def tasks_ok_def)
    obtain s1 where s1: "runqueue_task_kill cbs t s = Some s1" "kept s s1" using lawfulD [OF task_kill_lawful less.prems] by blast
    note sh = kill_shrunk [OF less.prems q s1(1)]
    have "tasks_active s1 = filter (\<lambda>t. t \<in> set (tasks_active s1)) (tasks_active s)"
      using sh(1) unfolding shrunk_def lists_shrunk_def by (metis q_list.simps(1))
    moreover have "t \<notin> set (tasks_active s1)" using sh(2) [of Active] by simp
    ultimately have "tasks_active s1 = filter (\<lambda>t. t \<in> set (tasks_active s1)) ts" using Cons by simp
    then have "length (tasks_active s1) < length (tasks_active s)" using Cons by (metis le_imp_less_Suc length_Cons length_filter_le)
    from less.hyps [OF this keptD(1) [OF s1(2)]] obtain s' where "kill_loop cbs s1 = Some s'" "kept s1 s'" "tasks_active s' = []" by blast
    then show ?thesis using Cons s1 kept_trans [OF s1(2)] by (subst kill_loop.simps) simp
  qed
qed

end

text \<open>Moving the iterator of a loop on.\<close>

lemma q_next_mem: "q_next l p s = Some u \<Longrightarrow> u \<in> set (q_list l s)"
  by (auto simp: q_next_def dest: behind_mem split: option.splits list.splits)

lemma q_list_iterators [simp]: "q_list l (s\<lparr>iterators := x\<rparr>) = q_list l s"
  by (cases l) simp_all

lemma q_next_iterators [simp]: "q_next l p (s\<lparr>iterators := x\<rparr>) = q_next l p s"
  by (simp add: q_next_def split: option.split)

lemma move_iterator_kept:
  assumes "queue_inv s" "iterators s = (l, p) # its"
  shows "kept s (s\<lparr>iterators := (l, q_next l p' s) # its\<rparr>)"
proof -
  have "iters_ok (tasks_active s) (tasks_inactive s) ((l, q_next l p' s) # its)"
    using assms q_next_mem [of l p' s] by (cases l) (auto simp: queue_inv_def iters_ok_def)
  then show ?thesis using assms by (auto simp: kept_def queue_inv_def wake_def startable_def)
qed

lemma iterator_mem: "queue_inv s \<Longrightarrow> iterators s = (l, Some u) # its \<Longrightarrow> u \<in> set (q_list l s)"
  by (cases l) (auto simp: queue_inv_def iters_ok_def)

context rq_closed
begin

text \<open>One round of the loop.\<close>

lemma cancel_round:
  assumes inv: "queue_inv s" and it: "iterators s = (l, behind t (q_list l s)) # its" and t: "t \<in> set (q_list l s)"
  obtains s1 p its1 where "runqueue_task_cancel cbs t 0 s = Some s1" "kept s s1" "lists_shrunk s s1" "iterators s1 = (l, p) # its1"
    "ahead p (q_list l s1) = filter (\<lambda>u. u \<in> set (q_list l s1)) (tl (ahead (Some t) (q_list l s)))"
    "l = Inactive \<Longrightarrow> t \<notin> set (tasks_inactive s1)"
proof -
  obtain s1 where s1: "runqueue_task_cancel cbs t 0 s = Some s1" "kept s s1" "shrunk s s1" using closed_funD [OF task_cancel_closed inv] by blast
  have "distinct (q_list l s)" using inv by (cases l) (auto simp: queue_inv_def tasks_ok_def)
  note ah = ahead_behind [OF this t]
  obtain p its1 where p: "iterators s1 = (l, p) # its1" "ahead p (q_list l s1) = filter (\<lambda>u. u \<in> set (q_list l s1)) (tl (ahead (Some t) (q_list l s)))"
    using s1(3) it ah by (auto simp: shrunk_def iter_shrunk_def list_all2_Cons1)
  have "t \<notin> set (tasks_inactive s1)" if "l = Inactive"
  proof -
    have "queued (task s t)" "\<not> running (task s t)" using inv t that by (auto simp: queue_inv_def tasks_ok_def)
    then show ?thesis using complete_shrunk(2) [OF inv, of t s1 Inactive] s1(1) by (simp add: runqueue_task_cancel_def)
  qed
  then show thesis using that s1 p by (simp add: shrunk_def)
qed

lemma cancel_loop_returns:
  assumes "queue_inv s" "iterators s = (l, q_next l cur s) # its" "\<And>t. cur = Some t \<Longrightarrow> t \<in> set (q_list l s)"
  shows "\<exists>s'. cancel_loop cbs l cur s = Some s' \<and> kept s s' \<and> lists_shrunk s s' \<and> (l = Inactive \<longrightarrow> set (tasks_inactive s') \<inter> set (ahead cur (tasks_inactive s)) = {})"
  using assms
proof (induction "length (ahead cur (q_list l s))" arbitrary: s cur its rule: less_induct)
  case less
  note inv = less.prems(1)
  show ?case
  proof (cases cur)
    case None
    then show ?thesis using kept_refl [OF inv] shrunk_refl [of s] by (subst cancel_loop.simps) (simp add: shrunk_def)
  next
    case (Some t)
    have t: "t \<in> set (q_list l s)" using less.prems(3) Some by simp
    have it: "iterators s = (l, behind t (q_list l s)) # its" using less.prems(2) Some by (simp add: q_next_def)
    obtain s1 p its1 where s1: "runqueue_task_cancel cbs t 0 s = Some s1" "kept s s1" "lists_shrunk s s1" "iterators s1 = (l, p) # its1"
      "ahead p (q_list l s1) = filter (\<lambda>u. u \<in> set (q_list l s1)) (tl (ahead (Some t) (q_list l s)))" "l = Inactive \<Longrightarrow> t \<notin> set (tasks_inactive s1)"
      using cancel_round [OF inv it t] by blast
    define s2 where "s2 = s1\<lparr>iterators := (l, q_next l p s1) # its1\<rparr>"
    obtain ys where ys: "ahead (Some t) (q_list l s) = t # ys" using ahead_cons [OF t] by blast
    have k2: "kept s1 s2" unfolding s2_def by (rule move_iterator_kept [OF keptD(1) [OF s1(2)] s1(4)])
    have q2: "q_list k s2 = q_list k s1" for k by (simp add: s2_def)
    have "length (ahead p (q_list l s2)) < length (ahead cur (q_list l s))"
      using s1(5) ys Some by (simp add: q2 le_imp_less_Suc)
    moreover have "iterators s2 = (l, q_next l p s2) # its1" by (simp add: s2_def)
    moreover have "u \<in> set (q_list l s2)" if "p = Some u" for u using iterator_mem [OF keptD(1) [OF s1(2)], of l u its1] s1(4) that by (simp add: q2)
    ultimately obtain s' where s': "cancel_loop cbs l p s2 = Some s'" "kept s2 s'" "lists_shrunk s2 s'" "l = Inactive \<longrightarrow> set (tasks_inactive s') \<inter> set (ahead p (tasks_inactive s2)) = {}"
      using less.hyps [OF _ keptD(1) [OF k2]] by blast
    have sh2: "lists_shrunk s1 s2" using s1(3) by (auto simp: lists_shrunk_def q2 s2_def filter_id_conv)
    have "set (tasks_inactive s') \<inter> set (ahead cur (tasks_inactive s)) = {}" if "l = Inactive"
    proof -
      have "set (tasks_inactive s') \<subseteq> set (tasks_inactive s1)" using lists_shrunk_set [OF s'(3), of Inactive] q2 [of Inactive] by simp
      then show ?thesis using s'(4) s1(5,6) ys that Some q2 [of Inactive] by auto
    qed
    moreover have "cancel_loop cbs l cur s = Some s'" using Some s1(1,4) s'(1) by (subst cancel_loop.simps) (simp add: s2_def)
    moreover have "kept s s'" using s1(2) k2 s'(2) kept_trans by blast
    moreover have "lists_shrunk s s'" using s1(3) sh2 s'(3) lists_shrunk_trans by blast
    ultimately show ?thesis by blast
  qed
qed

lemma cancel_each_returns:
  assumes inv: "queue_inv s"
  shows "\<exists>s'. runqueue_cancel_each cbs l s = Some s' \<and> kept s s' \<and> lists_shrunk s s' \<and> (l = Inactive \<longrightarrow> tasks_inactive s' = [])"
proof -
  let ?cur = "q_next l None s"
  define s1 where "s1 = s\<lparr>iterators := (l, q_next l ?cur s) # iterators s\<rparr>"
  have q1: "q_list k s1 = q_list k s" for k by (simp add: s1_def)
  have inv1: "queue_inv s1" using inv q_next_mem [of l ?cur s] by (cases l) (auto simp: queue_inv_def iters_ok_def s1_def)
  have "u \<in> set (q_list l s1)" if "?cur = Some u" for u using q_next_mem [OF that] q1 by simp
  moreover have "iterators s1 = (l, q_next l ?cur s1) # iterators s" by (simp add: s1_def)
  ultimately obtain s2 where s2: "cancel_loop cbs l ?cur s1 = Some s2" "kept s1 s2" "lists_shrunk s1 s2"
    "l = Inactive \<longrightarrow> set (tasks_inactive s2) \<inter> set (ahead ?cur (tasks_inactive s1)) = {}"
    using cancel_loop_returns [OF inv1] by blast
  have "ahead ?cur (tasks_inactive s1) = tasks_inactive s" if "l = Inactive"
    using that by (cases "tasks_inactive s") (auto simp: q_next_def ahead_def s1_def)
  moreover have "set (tasks_inactive s2) \<subseteq> set (tasks_inactive s)" using lists_shrunk_set [OF s2(3), of Inactive] q1 [of Inactive] by simp
  ultimately have none: "l = Inactive \<longrightarrow> tasks_inactive s2 = []" using s2(4) by (metis inf.absorb1 set_empty)
  define s3 where "s3 = s2\<lparr>iterators := tl (iterators s2)\<rparr>"
  have "kept s s3" using s2(2) by (auto simp: kept_def queue_inv_def wake_def startable_def s1_def s3_def iters_ok_def dest: list.set_sel(2) [rotated])
  moreover have "lists_shrunk s s3" using s2(3) by (simp add: lists_shrunk_def q1 s3_def s1_def)
  ultimately show ?thesis using s2(1) none by (simp add: runqueue_cancel_each_def s1_def s3_def)
qed

end

section \<open>Callbacks that call the queue\<close>

text \<open>Callbacks that do what a list of operations says; the callbacks of these operations do so in turn, down to a given depth.\<close>

datatype rq_event = On_Run addr | On_Cancel addr int | On_Kill addr | On_Complete addr | On_Empty

fun rq_run_ops :: "'w queue_cbs \<Rightarrow> rq_op list \<Rightarrow> 'w q_fun" where
  "rq_run_ops cbs [] s = Some s"
| "rq_run_ops cbs (x # xs) s = (if op_typed x s then rq_apply cbs x s else Some s) \<bind> rq_run_ops cbs xs"

primrec scripted :: "(rq_event \<Rightarrow> rq_op list) \<Rightarrow> nat \<Rightarrow> 'w queue_cbs" where
  "scripted acts 0 = \<lparr>cb_run = \<lambda>_. Some, cb_cancel = \<lambda>_ _. Some, cb_kill = \<lambda>_. Some, cb_complete = \<lambda>_. Some, cb_empty = Some\<rparr>"
| "scripted acts (Suc n) = (let run = \<lambda>e. rq_run_ops (scripted acts n) (acts e) in
     \<lparr>cb_run = run \<circ> On_Run, cb_cancel = \<lambda>t k. run (On_Cancel t k), cb_kill = run \<circ> On_Kill, cb_complete = run \<circ> On_Complete, cb_empty = run On_Empty\<rparr>)"

fun closing :: "rq_op \<Rightarrow> bool" where
  "closing (Complete t) = True"
| "closing (Cancel t n) = True"
| "closing (Kill t) = True"
| "closing _ = False"

context rq_callbacks
begin

lemma run_ops_lawful: "lawful (rq_run_ops cbs xs)"
proof (induction xs)
  case Nil
  show ?case by (rule lawfulI) (simp add: kept_refl)
next
  case (Cons x xs)
  show ?case
  proof (rule lawfulI)
    fix s :: "'w runqueue" assume inv: "queue_inv s"
    obtain s1 where s1: "(if op_typed x s then rq_apply cbs x s else Some s) = Some s1" "kept s s1"
      using rq_apply_kept [OF inv, of x] kept_refl [OF inv] by (metis (full_types))
    from after_kept [OF s1(2) Cons] show "\<exists>s'. rq_run_ops cbs (x # xs) s = Some s' \<and> kept s s'" using s1(1) by simp
  qed
qed

end

context rq_closed
begin

lemma run_ops_closed:
  assumes "\<forall>x \<in> set xs. closing x"
  shows "closed_fun (rq_run_ops cbs xs)"
proof (rule closed_funI [OF run_ops_lawful])
  fix s s' :: "'w runqueue"
  assume "queue_inv s" "rq_run_ops cbs xs s = Some s'"
  then show "shrunk s s'" using assms
  proof (induction xs arbitrary: s)
    case (Cons x xs)
    then obtain s1 where s1: "rq_apply cbs x s = Some s1" "rq_run_ops cbs xs s1 = Some s'" by (cases x) (auto split: bind_splits)
    have "closed_fun (rq_apply cbs x)"
      using Cons.prems(3) task_complete_closed task_cancel_closed task_kill_closed by (cases x) (simp_all add: closed_fun_def lawful_def)
    then have "kept s s1" "shrunk s s1" using s1(1) closed_funD [OF _ Cons.prems(1)] by (metis option.inject)+
    then show ?case using Cons.IH [OF keptD(1) s1(2)] Cons.prems(3) shrunk_trans by auto
  qed (simp add: shrunk_refl)
qed

end

lemma scripted_lawful: "rq_callbacks (scripted acts n)"
proof (induction n)
  case 0
  then show ?case using kept_refl by unfold_locales (auto simp: lawful_def)
next
  case (Suc n)
  then show ?case using rq_callbacks.run_ops_lawful by unfold_locales (auto simp: Let_def)
qed

lemma scripted_closed: "rq_closed (scripted (\<lambda>e. filter closing (acts e)) n :: 'w queue_cbs)"
proof (induction n)
  case 0
  show ?case
    by (intro rq_closed.intro scripted_lawful rq_closed_axioms.intro closed_funI) (auto simp: lawful_def kept_refl shrunk_refl)
next
  case (Suc n)
  have "closed_fun (rq_run_ops (scripted (\<lambda>e. filter closing (acts e)) n :: 'w queue_cbs) (filter closing (acts e)))" for e
    by (rule rq_closed.run_ops_closed [OF Suc]) simp
  then show ?case by (intro rq_closed.intro scripted_lawful rq_closed_axioms.intro) (simp_all add: Let_def)
qed

interpretation scripts: rq_callbacks "scripted acts n" for acts n
  by (rule scripted_lawful)

interpretation closing: rq_closed "scripted (\<lambda>e. filter closing (acts e)) n" for acts n
  by (rule scripted_closed)

section \<open>Correctness\<close>

context rq_closed
begin

lemma timeout_returns:
  assumes inv: "queue_inv s" and cb: "q_timeout_cb s = Start_Next"
  shows "\<exists>s'. runqueue_timeout cbs s = Some s' \<and> queue_inv s' \<and> \<not> startable s' \<and> (tasks_active s' = [] \<and> tasks_inactive s' = [] \<longrightarrow> q_empty s')
    \<and> (max_running_tasks s \<noteq> 0 \<longrightarrow> running_tasks s' \<le> max (running_tasks s) (max_running_tasks s))"
proof -
  have inv0: "queue_inv (s\<lparr>q_timeout := None\<rparr>)" using inv by (simp add: queue_inv_def)
  obtain s1 where s1: "start_loop cbs (s\<lparr>q_timeout := None\<rparr>) = Some s1" "quiet (s\<lparr>q_timeout := None\<rparr>) s1" "\<not> startable s1"
    "max_running_tasks s \<noteq> 0 \<longrightarrow> running_tasks s1 \<le> max (running_tasks s) (max_running_tasks s)"
    using start_loop_returns [OF inv0] by auto
  then show ?thesis using cb by (auto simp: runqueue_timeout_def start_next_cb_def Let_def quiet_def queue_inv_def startable_def)
qed

lemma kill_returns:
  assumes inv: "queue_inv s"
  shows "\<exists>s'. runqueue_kill cbs s = Some s' \<and> queue_inv s' \<and> tasks_active s' = [] \<and> tasks_inactive s' = [] \<and> running_tasks s' = 0 \<and> (\<forall>t. \<not> queued (task s' t)) \<and> q_timeout s' = None
    \<and> (\<forall>t. t_timeout (task s' t) = None)"
proof -
  obtain s1 where s1: "kill_loop cbs s = Some s1" "kept s s1" "tasks_active s1 = []" using kill_loop_returns [OF inv] by blast
  obtain s2 where s2: "runqueue_cancel_pending cbs s1 = Some s2" "kept s1 s2" "lists_shrunk s1 s2" "tasks_inactive s2 = []"
    using cancel_each_returns [OF keptD(1) [OF s1(2)], of Inactive] unfolding runqueue_cancel_pending_def by blast
  have a: "tasks_active s2 = []" using lists_shrunk_set [OF s2(3), of Active] s1(3) by simp
  have "queue_inv s2" using keptD(1) [OF s2(2)] .
  then have "queue_inv (s2\<lparr>q_timeout := None\<rparr>)" "running_tasks s2 = 0" "\<forall>t. \<not> queued (task s2 t)" "\<forall>t. t_timeout (task s2 t) = None"
    using a s2(4) by (auto simp: queue_inv_def tasks_ok_def)
  then show ?thesis using s1(1) s2(1,4) a by (simp add: runqueue_kill_def)
qed

end

text \<open>
  C33: operations on tasks.  Whatever lawful callbacks do, adding, completing, cancelling and killing a task, a timer of a task that runs
  out, a process that ends, stopping and resuming return without a fault; afterwards every queued task is in exactly one
  list, the active list is the one of the tasks that run, its length is the counter, and no wakeup is lost: if a task can be started, the timer that
  starts it is pending.
\<close>

theorem runqueue_ops_correct:
  assumes "rq_callbacks cbs" "queue_inv s" "wake s" "op_typed op s"
  shows "\<exists>s'. rq_apply cbs op s = Some s' \<and> queue_inv s' \<and> wake s'"
  using rq_callbacks.rq_apply_kept [OF assms(1,2,4)] keptD(1,2) assms(3) by blast

text \<open>
  C34: the timer of the queue.  When no callback adds tasks, the timer starts tasks until the queue is stopped, the limit is reached
  or no task waits, and returns; it does not exceed the limit, and a queue with no tasks is marked as empty.
\<close>

theorem runqueue_timeout_correct:
  assumes "rq_closed cbs" "queue_inv s" "q_timeout_cb s = Start_Next"
  shows "\<exists>s'. runqueue_timeout cbs s = Some s' \<and> queue_inv s' \<and> \<not> startable s' \<and> (tasks_active s' = [] \<and> tasks_inactive s' = [] \<longrightarrow> q_empty s')
    \<and> (max_running_tasks s \<noteq> 0 \<longrightarrow> running_tasks s' \<le> max (running_tasks s) (max_running_tasks s))"
  using rq_closed.timeout_returns [OF assms] .

text \<open>
  C35: \<open>runqueue_kill\<close> returns, when no callback adds tasks, and leaves no task in the queue and no timer pending, neither
  the timer of the queue nor that of any task.
\<close>

theorem runqueue_kill_correct:
  assumes "rq_closed cbs" "queue_inv s"
  shows "\<exists>s'. runqueue_kill cbs s = Some s' \<and> queue_inv s' \<and> tasks_active s' = [] \<and> tasks_inactive s' = [] \<and> running_tasks s' = 0
    \<and> (\<forall>t. \<not> queued (task s' t)) \<and> q_timeout s' = None \<and> (\<forall>t. t_timeout (task s' t) = None)"
  using rq_closed.kill_returns [OF assms] .

text \<open>A queue with a task that runs and two that wait; the first of them completes the second when it is run, and the task that runs is killed when it completes.\<close>

definition task_sample :: runqueue_task where
  "task_sample = \<lparr>t_type = Some \<lparr>ty_run = True, ty_cancel = True, ty_kill = True, ty_proc = False\<rparr>, t_complete = True, t_timeout = None, run_timeout = 5,
     cancel_timeout = 5, cancel_type = 15, queued = False, running = False, cancelled = False, proc_pid = 0, proc_pending = False\<rparr>"

definition queue_sample :: "unit runqueue" where
  "queue_sample = \<lparr>tasks_active = [1], tasks_inactive = [2, 3], q_timeout = Some 1, q_timeout_cb = Start_Next, running_tasks = 1, max_running_tasks = 2,
     stopped = False, q_empty = False, has_empty_cb = True,
     task = (\<lambda>_. task_sample)(1 := task_sample\<lparr>queued := True, running := True, t_timeout := Some 5\<rparr>, 2 := task_sample\<lparr>queued := True\<rparr>, 3 := task_sample\<lparr>queued := True\<rparr>),
     iterators = [], signals = [], q_world = ()\<rparr>"

definition acts_sample :: "rq_event \<Rightarrow> rq_op list" where
  "acts_sample e = (if e = On_Run 2 then [Complete 3] else if e = On_Complete 1 then [Kill 2] else [])"

lemma queue_sample_ok: "queue_inv queue_sample" "wake queue_sample" "q_timeout_cb queue_sample = Start_Next"
  by (auto simp: queue_sample_def task_sample_def queue_inv_def tasks_ok_def iters_ok_def wake_def)

theorem runqueue_ops_correct_witness:
  "\<exists>s'. rq_apply (scripted acts_sample 2) (Complete 1) queue_sample = Some s' \<and> queue_inv s' \<and> wake s'"
  by (rule runqueue_ops_correct) (simp_all add: scripted_lawful queue_sample_ok)

theorem runqueue_timeout_correct_witness:
  "\<exists>s'. runqueue_timeout (scripted (\<lambda>e. filter closing (acts_sample e)) 2) queue_sample = Some s' \<and> queue_inv s' \<and> \<not> startable s'
    \<and> (tasks_active s' = [] \<and> tasks_inactive s' = [] \<longrightarrow> q_empty s') \<and> (max_running_tasks queue_sample \<noteq> 0 \<longrightarrow> running_tasks s' \<le> max (running_tasks queue_sample) (max_running_tasks queue_sample))"
  by (rule runqueue_timeout_correct) (simp_all add: scripted_closed queue_sample_ok)

theorem runqueue_kill_correct_witness:
  "\<exists>s'. runqueue_kill (scripted (\<lambda>e. filter closing (acts_sample e)) 2) queue_sample = Some s' \<and> queue_inv s' \<and> tasks_active s' = [] \<and> tasks_inactive s' = []
    \<and> running_tasks s' = 0 \<and> (\<forall>t. \<not> queued (task s' t)) \<and> q_timeout s' = None \<and> (\<forall>t. t_timeout (task s' t) = None)"
  by (rule runqueue_kill_correct) (simp_all add: scripted_closed queue_sample_ok)

text \<open>A task that is added while the last waiting task is cancelled stays in the queue, and the timer that would start it is cancelled.\<close>

lemma runqueue_kill_loses_wakeup:
  "map_option (\<lambda>s. (tasks_inactive s, q_timeout s, startable s)) (runqueue_kill (scripted (\<lambda>e. if e = On_Complete 3 then [Add 9 False] else []) 1) queue_sample)
     = Some ([9], None, True)"
  by code_simp

end
