(* ===== verification/Uci_Blob.thy ===== *)
theory Uci_Blob
  imports Blobmsg Uci_Data
begin

text \<open>
  Configuration sections as messages (\<open>libuci/blob.c\<close>): the place where the data model of \<open>libuci\<close> meets the messages of
  \<open>libubox\<close>.  A list of parameters names the options of a section with the types of the fields they are
  converted to; \<open>uci_to_blob\<close> adds the fields to a buffer of \<open>Blobmsg\<close>, and \<open>uci_blob_check_equal\<close> compares two messages in the fields
  that a list of parameters names.  A \<open>long\<close> has 32 bits.
\<close>

section \<open>Numbers\<close>

abbreviation cstr :: "string \<Rightarrow> bytes" where
  "cstr s \<equiv> map (\<lambda>c. of_nat (cv c)) s"

text \<open>\<open>strtol\<close> and \<open>strtoll\<close> with base 0: the value and the rest of the string, which is the whole string when there is no number.\<close>

definition digit_val :: "char \<Rightarrow> nat" where
  "digit_val c = (if isdigit c then cv c - 48 else if 97 \<le> cv c \<and> cv c \<le> 122 then cv c - 87
     else if 65 \<le> cv c \<and> cv c \<le> 90 then cv c - 55 else 36)"

definition number_base :: "string \<Rightarrow> nat \<times> string" where
  "number_base s = (case s of
     c # x # d # r \<Rightarrow> if c = CHR ''0'' \<and> (x = CHR ''x'' \<or> x = CHR ''X'') \<and> digit_val d < 16 then (16, d # r)
       else if c = CHR ''0'' then (8, s) else (10, s)
   | c # _ \<Rightarrow> if c = CHR ''0'' then (8, s) else (10, s)
   | [] \<Rightarrow> (10, s))"

definition strtol0 :: "nat \<Rightarrow> string \<Rightarrow> int \<times> string" where
  "strtol0 bits s =
     (let t = dropWhile isspace s;
          (neg, t) = (case t of [] \<Rightarrow> (False, t)
             | c # r \<Rightarrow> if c = CHR ''-'' then (True, r) else if c = CHR ''+'' then (False, r) else (False, t));
          (base, t) = number_base t;
          ds = takeWhile (\<lambda>c. digit_val c < base) t;
          n = foldl (\<lambda>acc c. acc * int base + int (digit_val c)) 0 ds;
          n = (if neg then - n else n)
      in if ds = [] then (0, s) else (max (- (2 ^ (bits - 1))) (min (2 ^ (bits - 1) - 1) n), drop (length ds) t))"

section \<open>From sections to messages\<close>

definition BLOBMSG_TYPE_BOOL :: u32 where
  "BLOBMSG_TYPE_BOOL = BLOBMSG_TYPE_INT8"

definition uci_attr_to_blob :: "(nat \<Rightarrow> bool) \<Rightarrow> blob_buf \<Rightarrow> string \<Rightarrow> bytes option \<Rightarrow> u32 \<Rightarrow> (bool \<times> blob_buf) option" where
  "uci_attr_to_blob ok b s name ty =
     (if ty = BLOBMSG_TYPE_STRING then map_option (\<lambda>(_, b). (True, b)) (blobmsg_add_string ok b name (cstr s))
      else if ty = BLOBMSG_TYPE_BOOL then
        (if s = ''true'' \<or> s = ''1'' then map_option (\<lambda>(_, b). (True, b)) (blobmsg_add_u8 ok b name 1)
         else if s = ''false'' \<or> s = ''0'' then map_option (\<lambda>(_, b). (True, b)) (blobmsg_add_u8 ok b name 0)
         else Some (False, b))
      else if ty = BLOBMSG_TYPE_INT32 then
        (let (intval, err) = strtol0 32 s in
         if err \<noteq> [] then Some (False, b) else map_option (\<lambda>(_, b). (True, b)) (blobmsg_add_u32 ok b name (word_of_int intval)))
      else if ty = BLOBMSG_TYPE_INT64 then
        (let (llval, err) = strtol0 64 s in
         if err \<noteq> [] then Some (False, b) else map_option (\<lambda>(_, b). (True, b)) (blobmsg_add_u64 ok b name (word_of_int llval)))
      else Some (False, b))"

text \<open>The loops of \<open>uci_array_to_blob\<close>.\<close>

fun array_list_loop :: "(nat \<Rightarrow> bool) \<Rightarrow> u32 \<Rightarrow> string list \<Rightarrow> blob_buf \<Rightarrow> blob_buf option" where
  "array_list_loop ok ty [] b = Some b"
| "array_list_loop ok ty (e # es) b = do { (_, b) \<leftarrow> uci_attr_to_blob ok b e None ty; array_list_loop ok ty es b }"

definition strsep_blank :: "string \<Rightarrow> string \<times> string option" where
  "strsep_blank s = (let word = takeWhile (\<lambda>c. c \<noteq> CHR '' '' \<and> c \<noteq> TAB) s in
     (word, if length word < length s then Some (drop (Suc (length word)) s) else None))"

function array_string_loop :: "(nat \<Rightarrow> bool) \<Rightarrow> u32 \<Rightarrow> string option \<Rightarrow> blob_buf \<Rightarrow> blob_buf option" where
  "array_string_loop ok ty None b = Some b"
| "array_string_loop ok ty (Some s) b =
     (let (word, nx) = strsep_blank s in
      if word = [] then array_string_loop ok ty nx b
      else do { (_, b) \<leftarrow> uci_attr_to_blob ok b word None ty; array_string_loop ok ty nx b })"
  by pat_completeness auto
termination
  by (relation "measure (\<lambda>(ok, ty, s, b). case s of None \<Rightarrow> 0 | Some s \<Rightarrow> Suc (length s))")
    (auto simp: strsep_blank_def Let_def split: option.splits if_splits)

definition uci_array_to_blob :: "(nat \<Rightarrow> bool) \<Rightarrow> blob_buf \<Rightarrow> uci_option \<Rightarrow> u32 \<Rightarrow> blob_buf option" where
  "uci_array_to_blob ok b opt ty = (case o_value opt of
     UCI_LIST es \<Rightarrow> array_list_loop ok ty es b
   | UCI_STRING s \<Rightarrow> array_string_loop ok ty (Some s) b)"

datatype uci_blob_param_list = Params (l_params: "blobmsg_policy list") (l_info: "u32 list option") (l_next: "uci_blob_param_list list")

text \<open>The loop of \<open>__uci_element_to_blob\<close>; \<open>types\<close> has the types that have been seen.\<close>

fun element_loop :: "(nat \<Rightarrow> bool) \<Rightarrow> uci_option \<Rightarrow> u32 list option \<Rightarrow> nat \<Rightarrow> blobmsg_policy list \<Rightarrow> u32 \<Rightarrow> int \<Rightarrow> blob_buf \<Rightarrow> (int \<times> blob_buf) option" where
  "element_loop ok opt info i [] types ret b = Some (ret, b)"
| "element_loop ok opt info i (attr # attrs) types ret b = do {
     name \<leftarrow> pol_name attr;
     let ty = pol_type attr;
     if name \<noteq> cstr (o_name opt) then element_loop ok opt info (Suc i) attrs types ret b
     else if ty > BLOBMSG_TYPE_LAST then element_loop ok opt info (Suc i) attrs types ret b
     else if types AND push_bit (unat ty) 1 \<noteq> 0 then element_loop ok opt info (Suc i) attrs types ret b
     else do {
       let types = types OR push_bit (unat ty) 1;
       if ty = BLOBMSG_TYPE_ARRAY then do {
         element_type \<leftarrow> (case info of None \<Rightarrow> Some 0 | Some ts \<Rightarrow> if i < length ts then Some (ts ! i) else None);
         let element_type = (if element_type = 0 then BLOBMSG_TYPE_STRING else element_type);
         (array, b) \<leftarrow> blobmsg_open_nested ok b (Some name) True;
         b \<leftarrow> uci_array_to_blob ok b opt element_type;
         b \<leftarrow> blobmsg_close_nested b array;
         element_loop ok opt info (Suc i) attrs types (ret + 1) b
       }
       else case o_value opt of
         UCI_LIST _ \<Rightarrow> element_loop ok opt info (Suc i) attrs types ret b
       | UCI_STRING s \<Rightarrow> do {
           (added, b) \<leftarrow> uci_attr_to_blob ok b s (Some name) ty;
           element_loop ok opt info (Suc i) attrs types (ret + of_bool added) b
         }
     }
   }"

definition uci_element_to_blob :: "(nat \<Rightarrow> bool) \<Rightarrow> blob_buf \<Rightarrow> uci_option \<Rightarrow> uci_blob_param_list \<Rightarrow> (int \<times> blob_buf) option" where
  "uci_element_to_blob ok b opt p = element_loop ok opt (l_info p) 0 (l_params p) 0 0 b"

fun uci_options_to_blob :: "(nat \<Rightarrow> bool) \<Rightarrow> uci_blob_param_list \<Rightarrow> uci_option list \<Rightarrow> int \<Rightarrow> blob_buf \<Rightarrow> (int \<times> blob_buf) option" where
  "uci_options_to_blob ok p [] ret b = Some (ret, b)"
| "uci_options_to_blob ok p (e # es) ret b = do {
     (r, b) \<leftarrow> uci_element_to_blob ok b e p;
     uci_options_to_blob ok p es (ret + r) b
   }"

fun uci_to_blob :: "(nat \<Rightarrow> bool) \<Rightarrow> blob_buf \<Rightarrow> uci_section \<Rightarrow> uci_blob_param_list \<Rightarrow> (int \<times> blob_buf) option"
  and uci_to_blob_next :: "(nat \<Rightarrow> bool) \<Rightarrow> blob_buf \<Rightarrow> uci_section \<Rightarrow> uci_blob_param_list list \<Rightarrow> int \<Rightarrow> (int \<times> blob_buf) option" where
  "uci_to_blob ok b s (Params params info nexts) = do {
     (ret, b) \<leftarrow> uci_options_to_blob ok (Params params info nexts) (s_options s) 0 b;
     uci_to_blob_next ok b s nexts ret
   }"
| "uci_to_blob_next ok b s [] ret = Some (ret, b)"
| "uci_to_blob_next ok b s (p # ps) ret = do {
     (r, b) \<leftarrow> uci_to_blob ok b s p;
     uci_to_blob_next ok b s ps (ret + r)
   }"

section \<open>Comparing messages\<close>

text \<open>\<open>uci_bitfield_set\<close> with 32 bits in a \<open>long\<close>.\<close>

definition uci_bitfield_set :: "u32 list \<Rightarrow> nat \<Rightarrow> u32 list option" where
  "uci_bitfield_set bits n = (if n div 32 < length bits then Some (bits[n div 32 := bits ! (n div 32) OR push_bit (n mod 32) 1]) else None)"

text \<open>The comparison of one entry, and the loop of \<open>uci_blob_diff\<close>.\<close>

definition blob_differs :: "bytes \<Rightarrow> nat option \<Rightarrow> bytes \<Rightarrow> nat option \<Rightarrow> bool option" where
  "blob_differs m1 a1 m2 a2 = (case (a1, a2) of
     (None, None) \<Rightarrow> Some False
   | (Some p1, Some p2) \<Rightarrow> do {
       len1 \<leftarrow> blob_len m1 p1;
       len2 \<leftarrow> blob_len m2 p2;
       if len1 \<noteq> len2 then Some True
       else do {
         raw \<leftarrow> blob_raw_len m1 p1;
         bs1 \<leftarrow> mem_read m1 p1 (unat raw);
         bs2 \<leftarrow> mem_read m2 p2 (unat raw);
         Some (bs1 \<noteq> bs2)
       }
     }
   | _ \<Rightarrow> Some True)"

fun blob_diff_loop :: "bytes \<Rightarrow> bytes \<Rightarrow> nat \<Rightarrow> (nat option \<times> nat option) list \<Rightarrow> bool \<Rightarrow> u32 list option \<Rightarrow> (bool \<times> u32 list option) option" where
  "blob_diff_loop m1 m2 i [] ret diff = Some (ret, diff)"
| "blob_diff_loop m1 m2 i ((a1, a2) # as) ret diff = do {
     d \<leftarrow> blob_differs m1 a1 m2 a2;
     if \<not> d then blob_diff_loop m1 m2 (Suc i) as ret diff
     else case diff of
       None \<Rightarrow> Some (True, diff)
     | Some bits \<Rightarrow> do {
         bits \<leftarrow> uci_bitfield_set bits i;
         blob_diff_loop m1 m2 (Suc i) as True (Some bits)
       }
   }"

definition uci_blob_diff :: "bytes \<Rightarrow> nat option list \<Rightarrow> bytes \<Rightarrow> nat option list \<Rightarrow> uci_blob_param_list \<Rightarrow> u32 list option \<Rightarrow> (bool \<times> u32 list option) option" where
  "uci_blob_diff m1 tb1 m2 tb2 config diff =
     (let n = length (l_params config) in
      if length tb1 < n \<or> length tb2 < n then None
      else blob_diff_loop m1 m2 0 (zip (take n tb1) (take n tb2)) False diff)"

definition blob_check_equal :: "bytes \<Rightarrow> nat option \<Rightarrow> bytes \<Rightarrow> nat option \<Rightarrow> uci_blob_param_list \<Rightarrow> bool option" where
  "blob_check_equal m1 c1 m2 c2 config = (case (c1, c2) of
     (None, None) \<Rightarrow> Some True
   | (Some p1, Some p2) \<Rightarrow> do {
       len1 \<leftarrow> blob_len m1 p1;
       (_, tb1) \<leftarrow> blobmsg_parse m1 (l_params config) (blob_data p1) (sint len1);
       len2 \<leftarrow> blob_len m2 p2;
       (_, tb2) \<leftarrow> blobmsg_parse m2 (l_params config) (blob_data p2) (sint len2);
       (d, _) \<leftarrow> uci_blob_diff m1 tb1 m2 tb2 config None;
       Some (\<not> d)
     }
   | _ \<Rightarrow> Some False)"

fun check_equal_next :: "bytes \<Rightarrow> nat option \<Rightarrow> bytes \<Rightarrow> nat option \<Rightarrow> uci_blob_param_list list \<Rightarrow> bool option" where
  "check_equal_next m1 c1 m2 c2 [] = Some True"
| "check_equal_next m1 c1 m2 c2 (p # ps) = do {
     e \<leftarrow> blob_check_equal m1 c1 m2 c2 p;
     if \<not> e then Some False else check_equal_next m1 c1 m2 c2 ps
   }"

definition uci_blob_check_equal :: "bytes \<Rightarrow> nat option \<Rightarrow> bytes \<Rightarrow> nat option \<Rightarrow> uci_blob_param_list \<Rightarrow> bool option" where
  "uci_blob_check_equal m1 c1 m2 c2 config = do {
     e \<leftarrow> blob_check_equal m1 c1 m2 c2 config;
     if \<not> e then Some False else check_equal_next m1 c1 m2 c2 (l_next config)
   }"

section \<open>The message of a section\<close>

text \<open>The field that a value is converted to, if it has the type.\<close>

definition attr_msg :: "string \<Rightarrow> bytes option \<Rightarrow> u32 \<Rightarrow> blobmsg option" where
  "attr_msg s name ty =
     (if ty = BLOBMSG_TYPE_STRING then Some (Field ty name (cstr s @ [0]))
      else if ty = BLOBMSG_TYPE_INT8 then
        (if s \<in> {''true'', ''1''} then Some (Field ty name [1]) else if s \<in> {''false'', ''0''} then Some (Field ty name [0]) else None)
      else if ty = BLOBMSG_TYPE_INT32 then
        (if snd (strtol0 32 s) = [] then Some (Field ty name (bytes_le32 (cpu_to_be32 (word_of_int (fst (strtol0 32 s)))))) else None)
      else if ty = BLOBMSG_TYPE_INT64 then
        (if snd (strtol0 64 s) = [] then Some (Field ty name (bytes_be64 (word_of_int (fst (strtol0 64 s))))) else None)
      else None)"

lemma uci_attr_to_blob_put:
  "uci_attr_to_blob ok b s name ty = (case attr_msg s name ty of None \<Rightarrow> Some (False, b) | Some t \<Rightarrow> map_option (Pair True) (put_msg ok t b))"
proof -
  have add: "map_option (\<lambda>(_, b). (True, b)) (blobmsg_add_field ok b ty name data n) = map_option (Pair True) (put_msg ok (Field ty name data) b)"
    if "n = length data" for ty data n
    using that by (cases "blobmsg_add_field ok b ty name data n") auto
  show ?thesis
    by (simp add: uci_attr_to_blob_def attr_msg_def BLOBMSG_TYPE_BOOL_def blobmsg_add_string_def blobmsg_add_u8_def blobmsg_add_u32_def blobmsg_add_u64_def
      add case_prod_beta Let_def del: put_msg.simps)
qed

text \<open>The words of a string, separated by single blanks and tabs.\<close>

fun cut :: "string \<Rightarrow> string list" where
  "cut [] = [[]]"
| "cut (c # s) = (if c = CHR '' '' \<or> c = TAB then [] # cut s else (c # hd (cut s)) # tl (cut s))"

lemma cut_nonempty [simp]: "cut s \<noteq> []"
  by (induction s) auto

lemma cut_strsep: "strsep_blank s = (w, nx) \<Longrightarrow> cut s = w # (case nx of None \<Rightarrow> [] | Some r \<Rightarrow> cut r)"
proof (induction s arbitrary: w)
  case (Cons c s)
  obtain w' nx' where s: "strsep_blank s = (w', nx')" by (cases "strsep_blank s")
  show ?case
  proof (cases "c = CHR '' '' \<or> c = TAB")
    case True
    then show ?thesis using Cons.prems by (auto simp: strsep_blank_def Let_def)
  next
    case False
    then have "w = c # w'" "nx = nx'" using Cons.prems s by (auto simp: strsep_blank_def Let_def split: if_splits)
    then show ?thesis using Cons.IH s False by simp
  qed
qed (simp add: strsep_blank_def)

definition option_words :: "uci_option \<Rightarrow> string list" where
  "option_words opt = (case o_value opt of UCI_LIST es \<Rightarrow> es | UCI_STRING s \<Rightarrow> filter (\<lambda>w. w \<noteq> []) (cut s))"

lemma array_list_loop_put: "array_list_loop ok ty es b = put_msgs ok (List.map_filter (\<lambda>e. attr_msg e None ty) es) b"
proof (induction es arbitrary: b)
  case (Cons e es)
  then show ?case
    by (cases "attr_msg e None ty"; cases "put_msg ok (the (attr_msg e None ty)) b") (auto simp: uci_attr_to_blob_put List.map_filter_simps)
qed (simp add: List.map_filter_simps)

lemma array_string_loop_words:
  "array_string_loop ok ty nx b = array_list_loop ok ty (filter (\<lambda>w. w \<noteq> []) (case nx of None \<Rightarrow> [] | Some s \<Rightarrow> cut s)) b"
proof (induction ok ty nx b rule: array_string_loop.induct)
  case (2 ok ty s b)
  obtain w nx where s: "strsep_blank s = (w, nx)" by (cases "strsep_blank s")
  note cut_strsep [OF s]
  then show ?case using 2 s by (cases "w = []") (auto split: bind_splits)
qed simp

lemma uci_array_to_blob_put: "uci_array_to_blob ok b opt ty = put_msgs ok (List.map_filter (\<lambda>e. attr_msg e None ty) (option_words opt)) b"
  by (simp add: uci_array_to_blob_def option_words_def array_string_loop_words flip: array_list_loop_put split: uci_value.split)

text \<open>The fields for an option: for every type, the first parameter with the name of the option counts.\<close>

definition option_msg :: "uci_option \<Rightarrow> u32 \<Rightarrow> u32 \<Rightarrow> blobmsg option" where
  "option_msg opt ty ety =
     (if ty = BLOBMSG_TYPE_ARRAY
      then Some (Nested (Some (cstr (o_name opt))) True (List.map_filter (\<lambda>e. attr_msg e None (if ety = 0 then BLOBMSG_TYPE_STRING else ety)) (option_words opt)))
      else case o_value opt of UCI_LIST _ \<Rightarrow> None | UCI_STRING s \<Rightarrow> attr_msg s (Some (cstr (o_name opt))) ty)"

definition named :: "blobmsg_policy list \<Rightarrow> uci_option \<Rightarrow> nat \<Rightarrow> bool" where
  "named params opt i \<longleftrightarrow> pol_name (params ! i) = Some (cstr (o_name opt)) \<and> pol_type (params ! i) \<le> BLOBMSG_TYPE_LAST"

definition wanted :: "blobmsg_policy list \<Rightarrow> uci_option \<Rightarrow> nat \<Rightarrow> bool" where
  "wanted params opt i \<longleftrightarrow> named params opt i \<and> (\<forall>j < i. named params opt j \<longrightarrow> pol_type (params ! j) \<noteq> pol_type (params ! i))"

definition elem_type :: "u32 list option \<Rightarrow> nat \<Rightarrow> u32" where
  "elem_type info i = (case info of None \<Rightarrow> 0 | Some ts \<Rightarrow> ts ! i)"

definition slot_msg :: "blobmsg_policy list \<Rightarrow> u32 list option \<Rightarrow> uci_option \<Rightarrow> nat \<Rightarrow> blobmsg option" where
  "slot_msg params info opt i = (if wanted params opt i then option_msg opt (pol_type (params ! i)) (elem_type info i) else None)"

definition option_msgs :: "blobmsg_policy list \<Rightarrow> u32 list option \<Rightarrow> uci_option \<Rightarrow> blobmsg list" where
  "option_msgs params info opt = List.map_filter (slot_msg params info opt) [0..<length params]"

fun section_msgs :: "uci_section \<Rightarrow> uci_blob_param_list \<Rightarrow> blobmsg list" where
  "section_msgs s (Params params info nexts) = concat (map (option_msgs params info) (s_options s)) @ concat (map (section_msgs s) nexts)"

text \<open>Parameters with names, and with element types for all when they have any.\<close>

fun params_ok :: "uci_blob_param_list \<Rightarrow> bool" where
  "params_ok (Params params info nexts) \<longleftrightarrow> list_all (\<lambda>pol. case pol_name pol of None \<Rightarrow> False | Some n \<Rightarrow> length n < 2 ^ 16) params
     \<and> (case info of None \<Rightarrow> True | Some ts \<Rightarrow> length params \<le> length ts) \<and> list_all params_ok nexts"

lemma put_msgs_append: "put_msgs ok (xs @ ys) b = put_msgs ok xs b \<bind> put_msgs ok ys"
  by (induction xs arbitrary: b) (auto split: bind_splits)

lemma bit_push_one: "k < 32 \<Longrightarrow> bit (types OR push_bit k 1 :: u32) n \<longleftrightarrow> bit types n \<or> n = k"
  by (auto simp: bit_or_iff bit_exp_iff)

text \<open>One round of the loop.\<close>

lemma element_loop_skip:
  assumes "pol_name attr = Some name" "name \<noteq> cstr (o_name opt) \<or> pol_type attr > BLOBMSG_TYPE_LAST \<or> types AND push_bit (unat (pol_type attr)) 1 \<noteq> 0"
  shows "element_loop ok opt info i (attr # attrs) types ret b = element_loop ok opt info (Suc i) attrs types ret b"
  using assms by (auto simp: Let_def)

lemma element_loop_wanted:
  assumes "pol_name attr = Some (cstr (o_name opt))" "\<not> pol_type attr > BLOBMSG_TYPE_LAST" "\<not> types AND push_bit (unat (pol_type attr)) 1 \<noteq> 0"
    and "\<And>ts. info = Some ts \<Longrightarrow> i < length ts"
  shows "element_loop ok opt info i (attr # attrs) types ret b =
    (case option_msg opt (pol_type attr) (elem_type info i) of
       None \<Rightarrow> element_loop ok opt info (Suc i) attrs (types OR push_bit (unat (pol_type attr)) 1) ret b
     | Some m \<Rightarrow> put_msg ok m b \<bind> element_loop ok opt info (Suc i) attrs (types OR push_bit (unat (pol_type attr)) 1) (ret + 1))"
proof -
  have et: "(case info of None \<Rightarrow> Some 0 | Some ts \<Rightarrow> if i < length ts then Some (ts ! i) else None) = Some (elem_type info i)"
    using assms(4) by (auto simp: elem_type_def split: option.split)
  show ?thesis
  proof (cases "pol_type attr = BLOBMSG_TYPE_ARRAY")
    case True
    then show ?thesis using assms(1-3) et
      by (cases "blobmsg_open_nested ok b (Some (cstr (o_name opt))) True") (auto simp: Let_def option_msg_def uci_array_to_blob_put)
  next
    case False
    show ?thesis
    proof (cases "o_value opt")
      case (UCI_STRING v)
      then show ?thesis using assms(1-3) False
        by (cases "attr_msg v (Some (cstr (o_name opt))) (pol_type attr)"; cases "put_msg ok (the (attr_msg v (Some (cstr (o_name opt))) (pol_type attr))) b")
          (auto simp: Let_def option_msg_def uci_attr_to_blob_put)
    qed (use assms(1-3) False in \<open>auto simp: Let_def option_msg_def\<close>)
  qed
qed

lemma element_loop_put:
  assumes "params = pre @ attrs" "i = length pre"
    and "\<And>pol. pol \<in> set params \<Longrightarrow> pol_name pol \<noteq> None" "\<And>ts. info = Some ts \<Longrightarrow> length params \<le> length ts"
    and "\<And>k. bit types k \<longleftrightarrow> (\<exists>j < i. named params opt j \<and> unat (pol_type (params ! j)) = k)"
  shows "element_loop ok opt info i attrs types ret b =
    (let ms = List.map_filter (slot_msg params info opt) [i..<length params] in map_option (Pair (ret + int (length ms))) (put_msgs ok ms b))"
  using assms
proof (induction attrs arbitrary: pre i types ret b)
  case Nil
  then show ?case by (simp add: List.map_filter_simps)
next
  case (Cons attr attrs)
  note prem = Cons.prems
  have i: "params ! i = attr" "i < length params" using prem(1,2) by simp_all
  have up: "[i..<length params] = i # [Suc i..<length params]" using i(2) by (rule upt_conv_Cons)
  obtain name where name: "pol_name attr = Some name" using prem(1,3) by fastforce
  define ty where "ty = pol_type attr"
  have seen: "types AND push_bit (unat ty) 1 \<noteq> 0 \<longleftrightarrow> (\<exists>j < i. named params opt j \<and> pol_type (params ! j) = ty)"
    unfolding bit_iff_and_push_bit_not_eq_0 [symmetric] prem(5) by (metis word_unat_eq_iff)
  have IH: "element_loop ok opt info (Suc i) attrs types' ret' b' =
      (let ms = List.map_filter (slot_msg params info opt) [Suc i..<length params] in map_option (Pair (ret' + int (length ms))) (put_msgs ok ms b'))"
    if "\<And>k. bit types' k \<longleftrightarrow> (\<exists>j < Suc i. named params opt j \<and> unat (pol_type (params ! j)) = k)" for types' ret' b'
    using Cons.IH [of "pre @ [attr]" "Suc i" types' ret' b'] prem(1-4) that by simp
  have skip: "element_loop ok opt info (Suc i) attrs types ret b =
      (let ms = List.map_filter (slot_msg params info opt) [Suc i..<length params] in map_option (Pair (ret + int (length ms))) (put_msgs ok ms b))"
    if "\<not> wanted params opt i"
  proof (rule IH)
    fix k
    have "named params opt i \<Longrightarrow> \<exists>j < i. named params opt j \<and> unat (pol_type (params ! j)) = unat (pol_type (params ! i))"
      using that by (auto simp: wanted_def)
    then show "bit types k \<longleftrightarrow> (\<exists>j < Suc i. named params opt j \<and> unat (pol_type (params ! j)) = k)"
      unfolding prem(5) less_Suc_eq by metis
  qed
  define ms where "ms = List.map_filter (slot_msg params info opt) [Suc i..<length params]"
  have mf: "List.map_filter (slot_msg params info opt) [i..<length params] = (case slot_msg params info opt i of None \<Rightarrow> ms | Some m \<Rightarrow> m # ms)"
    by (simp add: up List.map_filter_simps ms_def split: option.split)
  show ?case
  proof (cases "wanted params opt i")
    case False
    then have c: "name \<noteq> cstr (o_name opt) \<or> pol_type attr > BLOBMSG_TYPE_LAST \<or> types AND push_bit (unat (pol_type attr)) 1 \<noteq> 0"
      using seen name i(1) by (auto simp: wanted_def named_def ty_def)
    have "slot_msg params info opt i = None" using False by (simp add: slot_msg_def)
    then show ?thesis unfolding element_loop_skip [OF name c] skip [OF False] mf by (simp add: ms_def)
  next
    case True
    then have w: "name = cstr (o_name opt)" "\<not> ty > BLOBMSG_TYPE_LAST" "\<not> types AND push_bit (unat ty) 1 \<noteq> 0"
      using seen name i(1) by (auto simp: wanted_def named_def ty_def)
    have small: "unat ty < 32" using w(2) by (simp add: BLOBMSG_TYPE_LAST_def word_less_nat_alt not_less)
    have "bit (types OR push_bit (unat ty) 1) k \<longleftrightarrow> (\<exists>j < Suc i. named params opt j \<and> unat (pol_type (params ! j)) = k)" for k
      using True i(1) unfolding bit_push_one [OF small] prem(5) less_Suc_eq by (auto simp: wanted_def ty_def)
    note go = IH [OF this, folded ms_def]
    have il: "i < length ts" if "info = Some ts" for ts using prem(4) [OF that] i(2) by simp
    have "slot_msg params info opt i = option_msg opt ty (elem_type info i)" using True i(1) by (simp add: slot_msg_def ty_def)
    then show ?thesis
      using element_loop_wanted [where ok = ok and attrs = attrs and ret = ret and b = b and info = info and i = i, OF name [unfolded w(1)] w(2,3) [unfolded ty_def]] il go
      unfolding mf ty_def [symmetric]
      by (cases "option_msg opt ty (elem_type info i)"; cases "put_msg ok (the (option_msg opt ty (elem_type info i))) b") (auto simp: Let_def add.assoc simp del: element_loop.simps)
  qed
qed

lemma uci_options_to_blob_put:
  assumes "params_ok p"
  shows "uci_options_to_blob ok p es ret b =
    (let ms = concat (map (option_msgs (l_params p) (l_info p)) es) in map_option (Pair (ret + int (length ms))) (put_msgs ok ms b))"
proof (induction es arbitrary: ret b)
  case (Cons e es)
  let ?m = "option_msgs (l_params p) (l_info p)"
  have "uci_element_to_blob ok b e p = map_option (Pair (int (length (?m e)))) (put_msgs ok (?m e) b)"
    unfolding uci_element_to_blob_def option_msgs_def
    using assms by (cases p) (subst element_loop_put [where pre = "[]"], auto simp: Let_def list_all_iff split: option.splits)
  then show ?case using Cons by (cases "put_msgs ok (?m e) b") (auto simp: put_msgs_append Let_def add.assoc)
qed simp

lemma uci_to_blob_put:
  "params_ok p \<Longrightarrow> uci_to_blob ok b s p = map_option (Pair (int (length (section_msgs s p)))) (put_msgs ok (section_msgs s p) b)"
  and uci_to_blob_next_put: "list_all params_ok ps \<Longrightarrow> uci_to_blob_next ok b s ps ret =
    (let ms = concat (map (section_msgs s) ps) in map_option (Pair (ret + int (length ms))) (put_msgs ok ms b))"
proof (induction ok b s p and ok b s ps ret rule: uci_to_blob_uci_to_blob_next.induct)
  case (1 ok b s params info nexts)
  let ?ms = "concat (map (option_msgs params info) (s_options s))"
  have opts: "uci_options_to_blob ok (Params params info nexts) (s_options s) 0 b = map_option (Pair (int (length ?ms))) (put_msgs ok ?ms b)"
    using uci_options_to_blob_put [OF "1.prems", of ok "s_options s" 0 b] by (simp add: Let_def)
  show ?case
  proof (cases "put_msgs ok ?ms b")
    case (Some b1)
    then show ?thesis using opts "1.IH" [of "(int (length ?ms), b1)" "int (length ?ms)" b1] "1.prems"
      by (simp add: put_msgs_append Let_def option.map_comp comp_def)
  qed (simp add: opts put_msgs_append)
next
  case (3 ok b s p ps ret)
  then show ?case by (cases "put_msgs ok (section_msgs s p) b") (auto simp: put_msgs_append Let_def add.assoc)
qed simp_all

lemma option_msgs_names:
  assumes "list_all (\<lambda>pol. case pol_name pol of None \<Rightarrow> False | Some n \<Rightarrow> length n < 2 ^ 16) params"
  shows "list_all names_ok (option_msgs params info opt)"
proof -
  have at: "attr_msg v name ty = Some m \<Longrightarrow> length (str name) < 2 ^ 16 \<Longrightarrow> names_ok m" for v name ty m
    by (auto simp: attr_msg_def split: if_splits)
  have "names_ok m" if "slot_msg params info opt i = Some m" "i < length params" for i m
  proof -
    have "pol_name (params ! i) = Some (cstr (o_name opt))" using that(1) by (auto simp: slot_msg_def wanted_def named_def split: if_splits)
    then have k: "length (o_name opt) < 2 ^ 16" using assms that(2) by (auto simp: list_all_length split: option.splits)
    have "list_all names_ok (List.map_filter (\<lambda>e. attr_msg e None t) ws)" for t ws
      by (auto simp: list_all_iff map_filter_def intro: at [of _ None])
    then show ?thesis using that(1) k at [of _ "Some (cstr (o_name opt))"]
      by (auto simp: slot_msg_def option_msg_def split: if_splits uci_value.splits)
  qed
  then show ?thesis by (auto simp: option_msgs_def list_all_iff map_filter_def)
qed

lemma section_msgs_names: "params_ok p \<Longrightarrow> list_all names_ok (section_msgs s p)"
proof (induction s p rule: section_msgs.induct)
  case (1 s params info nexts)
  then show ?case using option_msgs_names [of params info] by (auto simp: list_all_iff)
qed

text \<open>
  C36: a section becomes the message that its parameters describe.  \<open>uci_to_blob\<close> on a fresh table stays inside the allocation, leaves the encoding of
  \<open>section_msgs\<close> there and returns the number of its fields: for every option in the order of the section, and every type for which parameters have its
  name, one field that the first such parameter describes, if the value has this type; then the same for the further lists of parameters.
\<close>

theorem uci_to_blob_correct:
  assumes "\<forall>n. ok n" "blob_buf_ok b" "params_ok p" "4 + length (concat (map enc_msg (section_msgs s p))) < 2 ^ 24"
  shows "\<exists>b' post. do { (_, b) \<leftarrow> blobmsg_buf_init ok b; uci_to_blob ok b s p } = Some (int (length (section_msgs s p)), b') \<and> blob_head b' = 0 \<and>
    blob_mem b' = Some (blob_enc (False, BLOBMSG_TYPE_TABLE) (concat (map enc_msg (section_msgs s p))) @ post)"
proof -
  have "do { (_, b) \<leftarrow> blobmsg_buf_init ok b; uci_to_blob ok b s p } = map_option (Pair (int (length (section_msgs s p)))) (blobmsg_build ok b (section_msgs s p))"
    unfolding blobmsg_build_def uci_to_blob_put [OF assms(3)] by (cases "blobmsg_buf_init ok b") auto
  then show ?thesis using blobmsg_build_enc [OF assms(1,2) section_msgs_names [OF assms(3)] assms(4)] by auto
qed

definition section_sample :: uci_section where
  "section_sample = \<lparr>s_name = Some ''lan'', s_type = ''if'', s_anonymous = False, s_inline = False,
     s_options = [\<lparr>o_name = ''mtu'', o_value = UCI_STRING ''0x5dc''\<rparr>, \<lparr>o_name = ''dns'', o_value = UCI_STRING ''1  2''\<rparr>, \<lparr>o_name = ''up'', o_value = UCI_STRING ''yes''\<rparr>]\<rparr>"

definition params_sample :: uci_blob_param_list where
  "params_sample = Params [\<lparr>pol_name = Some (cstr ''mtu''), pol_type = BLOBMSG_TYPE_INT32\<rparr>, \<lparr>pol_name = Some (cstr ''dns''), pol_type = BLOBMSG_TYPE_ARRAY\<rparr>,
     \<lparr>pol_name = Some (cstr ''up''), pol_type = BLOBMSG_TYPE_BOOL\<rparr>] None []"

lemma params_sample_ok: "params_ok params_sample"
  by (simp add: params_sample_def)

lemma section_sample_msgs:
  "section_msgs section_sample params_sample = [Field BLOBMSG_TYPE_INT32 (Some (cstr ''mtu'')) [0, 0, 5, 0xdc],
     Nested (Some (cstr ''dns'')) True [Field BLOBMSG_TYPE_STRING None (cstr ''1'' @ [0]), Field BLOBMSG_TYPE_STRING None (cstr ''2'' @ [0])]]"
  by code_simp

theorem uci_to_blob_correct_witness:
  "\<exists>b' post. do { (_, b) \<leftarrow> blobmsg_buf_init (\<lambda>_. True) small_buf; uci_to_blob (\<lambda>_. True) b section_sample params_sample }
      = Some (int (length (section_msgs section_sample params_sample)), b') \<and> blob_head b' = 0 \<and>
    blob_mem b' = Some (blob_enc (False, BLOBMSG_TYPE_TABLE) (concat (map enc_msg (section_msgs section_sample params_sample))) @ post)"
  by (rule uci_to_blob_correct)
    (simp_all add: section_sample_msgs params_sample_ok blob_buf_ok_def pad4_def small_buf_def blobmsg_hdrlen_def)

section \<open>Comparison of messages\<close>

text \<open>The header and the contents of an attribute, without its padding.\<close>

definition raw_attr :: "bool \<times> u32 \<Rightarrow> bytes \<Rightarrow> bytes" where
  "raw_attr c data = bytes_be32 (blob_hdr c (4 + length data)) @ data"

fun field_raw :: "field \<Rightarrow> bytes" where
  "field_raw (ty, name, data) = raw_attr (True, ty) (msg_hdr name @ data)"

lemma attr_reads:
  assumes m: "m = pre @ blob_enc c data @ post" and "4 + length data < 2 ^ 24"
  shows "blob_len m (length pre) = Some (of_nat (length data))" "blob_raw_len m (length pre) = Some (of_nat (4 + length data))"
    "mem_read m (length pre) (4 + length data) = Some (raw_attr c data)"
proof -
  have m': "m = attr_mem pre c (4 + length data) (data @ replicate (pad4 (length data) - length data) 0 @ post)" using m by (simp add: blob_enc_def)
  show "blob_len m (length pre) = Some (of_nat (length data))" "blob_raw_len m (length pre) = Some (of_nat (4 + length data))"
    using assms(2) by (simp_all add: m' blob_attr_simps)
  show "mem_read m (length pre) (4 + length data) = Some (raw_attr c data)"
    using mem_read_mid [of "raw_attr c data" "4 + length data" pre "replicate (pad4 (length data) - length data) 0 @ post"] by (simp add: m' raw_attr_def)
qed

lemma blob_differs_attrs:
  assumes m1: "m1 = pre1 @ blob_enc c1 d1 @ post1" "4 + length d1 < 2 ^ 24" and m2: "m2 = pre2 @ blob_enc c2 d2 @ post2" "4 + length d2 < 2 ^ 24"
  shows "blob_differs m1 (Some (length pre1)) m2 (Some (length pre2)) = Some (raw_attr c1 d1 \<noteq> raw_attr c2 d2)"
proof (cases "length d1 = length d2")
  case True
  have "unat (of_nat (4 + length d1) :: u32) = 4 + length d1" using m1(2) by (intro unat_of_nat_u32) simp
  then show ?thesis using attr_reads [OF m1] attr_reads [OF m2] True by (simp add: blob_differs_def)
next
  case False
  have "unat (of_nat (length d1) :: u32) = length d1" "unat (of_nat (length d2) :: u32) = length d2"
    using m1(2) m2(2) by (simp_all add: unat_of_nat_u32)
  then have "(of_nat (length d1) :: u32) \<noteq> of_nat (length d2)" using False by metis
  moreover have "raw_attr c1 d1 \<noteq> raw_attr c2 d2" using False by (auto simp: raw_attr_def dest: arg_cong [where f = length])
  ultimately show ?thesis using attr_reads(1) [OF m1] attr_reads(1) [OF m2] by (simp add: blob_differs_def)
qed

text \<open>The field that a policy selects, in memory.\<close>

definition selected_at :: "nat \<Rightarrow> field list \<Rightarrow> blobmsg_policy \<Rightarrow> nat option" where
  "selected_at p fs pol = first_selected p fs pol"

lemma selected_at_simps:
  "selected_at p [] pol = None"
  "selected_at p ((ty, name, data) # fs) pol = (if selects pol (ty, name, data) then Some p else selected_at (p + length (msg_enc ty name data)) fs pol)"
  by (simp_all add: selected_at_def add.assoc del: selects.simps)

lemma selected_at_find:
  assumes "m = pre @ enc_items (field_items fs) @ post"
  shows "case find (selects pol) fs of None \<Rightarrow> selected_at (length pre) fs pol = None
    | Some (ty, name, data) \<Rightarrow> \<exists>pre' post'. m = pre' @ msg_enc ty name data @ post' \<and> selected_at (length pre) fs pol = Some (length pre')"
  using assms
proof (induction fs arbitrary: pre)
  case (Cons f fs)
  obtain ty name data where f: "f = (ty, name, data)" by (cases f)
  have m: "m = pre @ msg_enc ty name data @ enc_items (field_items fs) @ post" using Cons.prems by (simp add: f)
  show ?case
  proof (cases "selects pol f")
    case True
    then show ?thesis using m by (auto simp: f selected_at_simps simp del: selects.simps)
  next
    case False
    then have "selected_at (length pre) (f # fs) pol = selected_at (length (pre @ msg_enc ty name data)) fs pol" "find (selects pol) (f # fs) = find (selects pol) fs"
      by (simp_all add: f selected_at_simps del: selects.simps)
    moreover have "m = (pre @ msg_enc ty name data) @ enc_items (field_items fs) @ post" using m by simp
    ultimately show ?thesis using Cons.IH [of "pre @ msg_enc ty name data"] by presburger
  qed
qed (simp add: selected_at_simps)

lemma find_field_fits:
  assumes "4 + length (enc_items (field_items fs)) < 2 ^ 24" "find P fs = Some (ty, name, data)"
  shows "4 + length (msg_hdr name @ data) < 2 ^ 24"
  using assms
proof (induction fs)
  case (Cons f fs)
  then show ?case using pad4_bounds(1) [of "blobmsg_hdrlen (length name) + length data"] by (cases f) (auto split: if_splits)
qed simp

lemma blob_differs_fields:
  assumes m1: "m1 = pre1 @ enc_items (field_items fs1) @ post1" "4 + length (enc_items (field_items fs1)) < 2 ^ 24"
    and m2: "m2 = pre2 @ enc_items (field_items fs2) @ post2" "4 + length (enc_items (field_items fs2)) < 2 ^ 24"
  shows "blob_differs m1 (selected_at (length pre1) fs1 pol) m2 (selected_at (length pre2) fs2 pol) =
    Some (map_option field_raw (find (selects pol) fs1) \<noteq> map_option field_raw (find (selects pol) fs2))"
proof -
  note s1 = selected_at_find [OF m1(1), of pol] and s2 = selected_at_find [OF m2(1), of pol]
  show ?thesis
  proof (cases "find (selects pol) fs1"; cases "find (selects pol) fs2")
    fix f1 f2 assume f: "find (selects pol) fs1 = Some f1" "find (selects pol) fs2 = Some f2"
    obtain t1 n1 d1 t2 n2 d2 where ff: "f1 = (t1, n1, d1)" "f2 = (t2, n2, d2)" by (cases f1; cases f2)
    obtain p1 q1 p2 q2 where "m1 = p1 @ msg_enc t1 n1 d1 @ q1" "selected_at (length pre1) fs1 pol = Some (length p1)"
      "m2 = p2 @ msg_enc t2 n2 d2 @ q2" "selected_at (length pre2) fs2 pol = Some (length p2)"
      using s1 s2 f ff by auto
    then show ?thesis using blob_differs_attrs find_field_fits [OF m1(2) f(1) [unfolded ff]] find_field_fits [OF m2(2) f(2) [unfolded ff]] f ff by simp
  qed (use s1 s2 in \<open>auto simp: blob_differs_def\<close>)
qed

lemma blob_diff_loop_none:
  assumes "\<And>pol. pol \<in> set ps \<Longrightarrow> blob_differs m1 (f pol) m2 (g pol) = Some (d pol)"
  shows "blob_diff_loop m1 m2 i (map (\<lambda>pol. (f pol, g pol)) ps) ret None = Some (ret \<or> (\<exists>pol \<in> set ps. d pol), None)"
  using assms by (induction ps arbitrary: i ret) auto

text \<open>Two messages agree on a policy.\<close>

definition agree :: "field list \<Rightarrow> field list \<Rightarrow> blobmsg_policy \<Rightarrow> bool" where
  "agree fs1 fs2 pol \<longleftrightarrow> map_option field_raw (find (selects pol) fs1) = map_option field_raw (find (selects pol) fs2)"

definition table_at :: "bytes \<Rightarrow> nat \<Rightarrow> field list \<Rightarrow> bool" where
  "table_at m p fs \<longleftrightarrow> (\<exists>pre c post. m = pre @ blob_enc c (enc_items (field_items fs)) @ post \<and> p = length pre)
     \<and> 8 + length (enc_items (field_items fs)) < 2 ^ 24 \<and> list_all good_field fs"

lemma table_atD:
  assumes "table_at m p fs"
  obtains pre post where "m = pre @ enc_items (field_items fs) @ post" "blob_data p = length pre" "4 + length (enc_items (field_items fs)) < 2 ^ 24" "list_all good_field fs"
    "blob_len m p = Some (of_nat (length (enc_items (field_items fs))))" "sint (of_nat (length (enc_items (field_items fs))) :: u32) = int (length (enc_items (field_items fs)))"
proof -
  let ?d = "enc_items (field_items fs)"
  obtain pre c post where m: "m = pre @ blob_enc c ?d @ post" "p = length pre" and small: "8 + length ?d < 2 ^ 24" "list_all good_field fs"
    using assms unfolding table_at_def by blast
  have "m = (pre @ bytes_be32 (blob_hdr c (4 + length ?d))) @ ?d @ (replicate (pad4 (length ?d) - length ?d) 0 @ post)" using m(1) by (simp add: blob_enc_def)
  moreover have "blob_len m p = Some (of_nat (length ?d))" using attr_reads(1) [OF m(1)] m(2) small by simp
  moreover have "sint (of_nat (length ?d) :: u32) = int (length ?d)" using small(1) by (intro sint_of_nat_u32) simp
  ultimately show thesis using that [of "pre @ bytes_be32 (blob_hdr c (4 + length ?d))"] small m(2) by (simp add: blob_data_def)
qed

lemma blob_check_equal_tables:
  assumes t1: "table_at m1 p1 fs1" and t2: "table_at m2 p2 fs2" and pol: "list_all good_policy (l_params config)"
  shows "blob_check_equal m1 (Some p1) m2 (Some p2) config = Some (\<forall>pol \<in> set (l_params config). agree fs1 fs2 pol)"
proof -
  let ?ps = "l_params config"
  obtain pre1 post1 where a1: "m1 = pre1 @ enc_items (field_items fs1) @ post1" "blob_data p1 = length pre1" "4 + length (enc_items (field_items fs1)) < 2 ^ 24" "list_all good_field fs1"
    "blob_len m1 p1 = Some (of_nat (length (enc_items (field_items fs1))))" "sint (of_nat (length (enc_items (field_items fs1))) :: u32) = int (length (enc_items (field_items fs1)))"
    by (rule table_atD [OF t1])
  obtain pre2 post2 where a2: "m2 = pre2 @ enc_items (field_items fs2) @ post2" "blob_data p2 = length pre2" "4 + length (enc_items (field_items fs2)) < 2 ^ 24" "list_all good_field fs2"
    "blob_len m2 p2 = Some (of_nat (length (enc_items (field_items fs2))))" "sint (of_nat (length (enc_items (field_items fs2))) :: u32) = int (length (enc_items (field_items fs2)))"
    by (rule table_atD [OF t2])
  note parse1 = blobmsg_parse_fields [OF a1(1,3,4) pol] and parse2 = blobmsg_parse_fields [OF a2(1,3,4) pol]
  have "blob_diff_loop m1 m2 0 (map (\<lambda>pol. (selected_at (length pre1) fs1 pol, selected_at (length pre2) fs2 pol)) ?ps) False None =
      Some (False \<or> (\<exists>pol \<in> set ?ps. \<not> agree fs1 fs2 pol), None)"
    by (rule blob_diff_loop_none) (simp only: agree_def blob_differs_fields [OF a1(1,3) a2(1,3)])
  then have "uci_blob_diff m1 (map (selected_at (length pre1) fs1) ?ps) m2 (map (selected_at (length pre2) fs2) ?ps) config None = Some (\<exists>pol \<in> set ?ps. \<not> agree fs1 fs2 pol, None)"
    by (simp add: uci_blob_diff_def zip_map_map zip_same_conv_map comp_def)
  moreover define n1 n2 where n: "n1 = length (enc_items (field_items fs1))" "n2 = length (enc_items (field_items fs2))"
  ultimately show ?thesis
    using parse1 [folded n selected_at_def] parse2 [folded n selected_at_def] a1(2,5,6) [folded n] a2(2,5,6) [folded n]
    by (simp add: blob_check_equal_def)
qed

text \<open>
  C37: comparing configurations.  For two tables in memory whose fields pass the checks, \<open>uci_blob_check_equal\<close> reads nothing outside the memory and tells
  exactly whether the tables agree on every parameter of the list and of the lists it refers to: whether the first fields with its name and type
  are both absent or have the same contents.
\<close>

theorem uci_blob_check_equal_correct:
  assumes "table_at m1 p1 fs1" "table_at m2 p2 fs2" "list_all (\<lambda>c. list_all good_policy (l_params c)) (config # l_next config)"
  shows "uci_blob_check_equal m1 (Some p1) m2 (Some p2) config = Some (\<forall>c \<in> set (config # l_next config). \<forall>pol \<in> set (l_params c). agree fs1 fs2 pol)"
proof -
  have "check_equal_next m1 (Some p1) m2 (Some p2) cs = Some (\<forall>c \<in> set cs. \<forall>pol \<in> set (l_params c). agree fs1 fs2 pol)"
    if "list_all (\<lambda>c. list_all good_policy (l_params c)) cs" for cs
    using that by (induction cs) (simp_all add: blob_check_equal_tables [OF assms(1,2)])
  then show ?thesis using assms(3) by (simp add: uci_blob_check_equal_def blob_check_equal_tables [OF assms(1,2)])
qed

definition fields_sample :: "field list" where
  "fields_sample = [(BLOBMSG_TYPE_INT8, [0x75, 0x70], [1])]"

definition table_sample :: "bytes \<Rightarrow> bytes" where
  "table_sample pre = pre @ blob_enc (False, BLOBMSG_TYPE_TABLE) (enc_items (field_items fields_sample)) @ []"

lemma table_sample_at: "table_at (table_sample pre) (length pre) fields_sample"
proof -
  have "8 + length (enc_items (field_items fields_sample)) < 2 ^ 24" by (simp add: fields_sample_def pad4_def blobmsg_hdrlen_def)
  moreover have "list_all good_field fields_sample" by (simp add: fields_sample_def field_ok_def blobmsg_types type_ok_def blob_type_def)
  ultimately show ?thesis unfolding table_at_def table_sample_def by blast
qed

theorem uci_blob_check_equal_correct_witness:
  "uci_blob_check_equal (table_sample [7]) (Some (length [7 :: u8])) (table_sample []) (Some (length ([] :: bytes))) params_sample =
     Some (\<forall>c \<in> set (params_sample # l_next params_sample). \<forall>pol \<in> set (l_params c). agree fields_sample fields_sample pol)"
  by (rule uci_blob_check_equal_correct [OF table_sample_at table_sample_at]) code_simp

end
