(* ===== verification/Uci_Import.thy ===== *)
theory Uci_Import
  imports Uci_Delta
begin

text \<open>
  What reading a text keeps of the parser state: the functions of \<open>Uci_File\<close> that split a line into arguments leave
  the package, its name and the list of packages alone, whatever the text is.  So a package that is imported with a
  name under \<open>single\<close> carries this name, and no other package is imported with it.
\<close>

definition pmeta :: "parser \<Rightarrow> uci_package option \<times> string option \<times> uci_package list \<times> bool" where
  "pmeta st = (pp_package st, pp_name st, pp_root st, pp_merge st)"

lemma pmeta_update [simp]:
  "pmeta (st\<lparr>pp_buf := b\<rparr>) = pmeta st" "pmeta (st\<lparr>pp_gen := n\<rparr>) = pmeta st" "pmeta (st\<lparr>pp_pos := n\<rparr>) = pmeta st"
  "pmeta (st\<lparr>pp_line := n\<rparr>) = pmeta st" "pmeta (st\<lparr>pp_byte := n\<rparr>) = pmeta st" "pmeta (st\<lparr>pp_reason := s\<rparr>) = pmeta st"
  "pmeta (st\<lparr>pp_file := s\<rparr>) = pmeta st" "pmeta (st\<lparr>pp_eof := e\<rparr>) = pmeta st"
  by (simp_all add: pmeta_def)

lemma bind_SomeE: "Option.bind m f = Some y \<Longrightarrow> (\<And>x. m = Some x \<Longrightarrow> f x = Some y \<Longrightarrow> thesis) \<Longrightarrow> thesis"
  by (cases m) auto

section \<open>Arguments\<close>

lemma set_char_meta: "set_char i c st = Some st' \<Longrightarrow> pmeta st' = pmeta st"
  by (auto simp: set_char_def split: option.splits if_splits)

lemma uci_getln_loop_meta: "uci_getln_loop ofs b st = Some st' \<Longrightarrow> pmeta st' = pmeta st"
proof (induction "length (pp_file st)" arbitrary: ofs b st rule: less_induct)
  case less
  obtain chars rest eof where f: "fgets_take (length b - Suc ofs) (pp_file st) = (chars, rest, eof)" by (cases "fgets_take (length b - Suc ofs) (pp_file st)")
  have "length rest < length (pp_file st)" if "chars \<noteq> []" using fgets_take_split [OF f] that by simp
  then show ?case
    using less.prems less.hyps [of "st\<lparr>pp_file := rest, pp_eof := pp_eof st \<or> eof, pp_gen := Suc (pp_gen st)\<rparr>"] f
    by (subst (asm) uci_getln_loop.simps) (auto simp: Let_def split: if_split_asm)
qed

lemma uci_getln_meta: "uci_getln ofs st = Some st' \<Longrightarrow> pmeta st' = pmeta st"
  by (auto simp: uci_getln_def Let_def split: option.split_asm if_split_asm elim!: bind_SomeE dest!: uci_getln_loop_meta)

lemma parse_backslash_meta: "parse_backslash st = Some (d, st') \<Longrightarrow> pmeta st' = pmeta st"
  by (auto simp: parse_backslash_def Let_def split: if_split_asm elim!: bind_SomeE dest!: uci_getln_meta)

lemma skip_whitespace_meta: "skip_whitespace st = Some st' \<Longrightarrow> pmeta st' = pmeta st"
proof (induction st rule: skip_whitespace.induct)
  case (1 st)
  from "1.prems" show ?case
    by (subst (asm) skip_whitespace.simps) (auto split: option.split_asm if_split_asm dest: "1.IH")
qed

lemma addc_meta: "addc t st = Some (t', st') \<Longrightarrow> pmeta st' = pmeta st"
  by (auto simp: addc_def elim!: bind_SomeE dest!: set_char_meta)

lemma uci_parse_error_meta: "uci_parse_error s st = Some (r, st') \<Longrightarrow> pmeta st' = pmeta st"
  by (auto simp: uci_parse_error_def)

lemmas char_meta = set_char_meta uci_getln_meta parse_backslash_meta skip_whitespace_meta addc_meta uci_parse_error_meta

lemma parse_single_quote_loop_meta: "parse_single_quote_loop t st = Some rs \<Longrightarrow> pmeta (snd rs) = pmeta st"
proof (induction t st rs rule: parse_single_quote_loop.raw_induct [rotated, consumes 1])
  case (1 f t st rs)
  from 1(2) show ?case by (cases rs) (auto split: if_split_asm elim!: bind_SomeE dest!: 1(1) char_meta)
qed

lemma parse_double_quote_loop_meta: "parse_double_quote_loop t st = Some rs \<Longrightarrow> pmeta (snd rs) = pmeta st"
proof (induction t st rs rule: parse_double_quote_loop.raw_induct [rotated, consumes 1])
  case (1 f t st rs)
  from 1(2) show ?case by (cases rs) (auto split: if_split_asm elim!: bind_SomeE dest!: 1(1) char_meta)
qed

lemma parse_str_body_meta: "parse_str_body t st = Some (r, st') \<Longrightarrow> pmeta st' = pmeta st"
  by (auto simp: parse_str_body_def parse_single_quote_def parse_double_quote_def split: if_split_asm
      elim!: bind_SomeE dest!: parse_single_quote_loop_meta parse_double_quote_loop_meta char_meta)

lemma parse_str_loop_meta: "parse_str_loop t st = Some rs \<Longrightarrow> pmeta (snd rs) = pmeta st"
proof (induction t st rs rule: parse_str_loop.raw_induct [rotated, consumes 1])
  case (1 f t st rs)
  from 1(2) show ?case
    by (cases rs) (auto split: if_split_asm sum.split_asm option.split_asm elim!: bind_SomeE dest!: 1(1) parse_str_body_meta)
qed

lemma parse_str_meta: "parse_str t st = Some (r, st') \<Longrightarrow> pmeta st' = pmeta st"
  by (auto simp: parse_str_def Let_def split: sum.split_asm if_split_asm elim!: bind_SomeE dest!: parse_str_loop_meta set_char_meta)

lemma next_arg_meta: "next_arg q n pk st = Some (r, st') \<Longrightarrow> pmeta st' = pmeta st"
  by (auto simp: next_arg_def Let_def split: sum.split_asm if_split_asm elim!: bind_SomeE dest!: parse_str_meta char_meta)

lemma assert_eol_meta: "assert_eol st = Some (r, st') \<Longrightarrow> pmeta st' = pmeta st"
  by (auto simp: assert_eol_def split: sum.split_asm if_split_asm elim!: bind_SomeE dest!: next_arg_meta char_meta)

lemma skip_word_meta: "skip_word st = Some st' \<Longrightarrow> pmeta st' = pmeta st"
  by (auto simp: skip_word_def elim!: bind_SomeE)

lemma strtok_meta: "strtok st = Some (w, st') \<Longrightarrow> pmeta st' = pmeta st"
  by (auto simp: strtok_def Let_def split: if_split_asm elim!: bind_SomeE dest!: set_char_meta)

lemma uci_parse_config_args_meta: "uci_parse_config_args st = Some (r, st') \<Longrightarrow> pmeta st' = pmeta st"
  by (auto simp: uci_parse_config_args_def split: sum.split_asm if_split_asm elim!: bind_SomeE dest!: next_arg_meta skip_word_meta uci_parse_error_meta)

lemmas arg_meta = next_arg_meta assert_eol_meta skip_word_meta uci_parse_config_args_meta

section \<open>Importing one package\<close>

text \<open>While a text is imported with the name \<open>n\<close> under \<open>single\<close>.\<close>

fun importing :: "string \<Rightarrow> uci_package list \<Rightarrow> uci_package option \<times> string option \<times> uci_package list \<times> bool \<Rightarrow> bool" where
  "importing n root (p, nm, rt, merge) \<longleftrightarrow> nm = Some n \<and> rt = root \<and> \<not> merge \<and> (\<forall>q. p = Some q \<longrightarrow> p_name q = n)"

lemma uci_switch_config_importing:
  assumes "uci_switch_config st = Some (r, st')" "pp_package st = None" "importing n root (pmeta st)"
  shows "importing n root (pmeta st')" and "r = Inr x \<Longrightarrow> \<exists>p. pp_package st' = Some p"
  using assms by (auto simp: uci_switch_config_def pmeta_def uci_alloc_package_def Let_def split: option.splits if_split_asm)

lemma uci_add_section_name: "uci_add_section i p ty = Some (k, p') \<Longrightarrow> p_name p' = p_name p"
  by (auto simp: uci_add_section_def uci_alloc_section_def Let_def elim!: bind_SomeE dest!: track_delta_name split: prod.split_asm if_split_asm)

lemma uci_open_section_importing:
  "uci_open_section ty name st = Some (r, st') \<Longrightarrow> importing n root (pmeta st) \<Longrightarrow> importing n root (pmeta st')"
  by (auto simp: uci_open_section_def pmeta_def Let_def uci_parse_error_def elim!: bind_SomeE dest!: uci_add_section_name uci_set_name
      split: if_split_asm sum.split_asm option.split_asm)

lemma uci_store_option_importing:
  "uci_store_option l name v st = Some (r, st') \<Longrightarrow> importing n root (pmeta st) \<Longrightarrow> importing n root (pmeta st')"
  by (auto simp: uci_store_option_def pmeta_def Let_def elim!: bind_SomeE dest!: uci_add_list_name uci_set_name
      split: if_split_asm sum.split_asm)

lemma uci_parse_package_importing:
  "uci_parse_package True st = Some (r, st') \<Longrightarrow> importing n root (pmeta st) \<Longrightarrow> importing n root (pmeta st')"
  by (auto simp: uci_parse_package_def Let_def elim!: bind_SomeE dest!: arg_meta split: sum.split_asm)

lemma uci_parse_option_importing:
  "uci_parse_option l st = Some (r, st') \<Longrightarrow> importing n root (pmeta st) \<Longrightarrow> importing n root (pmeta st')"
  by (auto simp: uci_parse_option_def Let_def elim!: bind_SomeE dest!: arg_meta uci_parse_error_meta uci_store_option_importing
      split: sum.split_asm if_split_asm)

lemma uci_parse_config_importing:
  assumes "uci_parse_config st = Some (r, st')" "importing n root (pmeta st)"
  shows "importing n root (pmeta st')"
proof -
  obtain r1 st1 where "(if pp_package st = None then
         if pp_name st = None then uci_parse_error ''attempting to import a file without a package name'' st else uci_switch_config st
       else Some (Inr (), st)) = Some (r1, st1)" and
    rest: "(case r1 of Inl e \<Rightarrow> Some (Inl e, st1)
      | Inr _ \<Rightarrow> do {
          (r, st) \<leftarrow> uci_parse_config_args st1;
          (case r of Inl e \<Rightarrow> Some (Inl e, st)
           | Inr (ofs_type, ofs_name) \<Rightarrow> do {
               let gen = pp_gen st;
               (r, st) \<leftarrow> assert_eol st;
               (case r of Inl e \<Rightarrow> Some (Inl e, st)
                | Inr _ \<Rightarrow> do {
                    ty \<leftarrow> deref st gen ofs_type;
                    name \<leftarrow> deref st gen ofs_name;
                    uci_open_section ty name st
                  })
             })
        }) = Some (r, st')"
    using assms(1) unfolding uci_parse_config_def by (rule bind_SomeE) auto
  then have "importing n root (pmeta st1)"
    using assms(2) by (auto dest!: uci_parse_error_meta uci_switch_config_importing(1) split: if_split_asm)
  then show ?thesis using rest
    by (auto simp: Let_def elim!: bind_SomeE dest!: arg_meta uci_open_section_importing split: sum.split_asm)
qed

lemma uci_parse_command_importing:
  "uci_parse_command True w st = Some (r, st') \<Longrightarrow> importing n root (pmeta st) \<Longrightarrow> importing n root (pmeta st')"
  using uci_parse_package_importing uci_parse_config_importing uci_parse_option_importing
  by (auto simp: uci_parse_command_def dest!: uci_parse_error_meta split: if_split_asm)

lemma uci_parse_line_loop_importing:
  assumes "uci_parse_line_loop single st = Some rs" "single" "importing n root (pmeta st)"
  shows "importing n root (pmeta (snd rs))"
  using assms
proof (induction single st rs rule: uci_parse_line_loop.raw_induct [rotated, consumes 1])
  case (1 f single st rs)
  obtain w st1 where w: "strtok st = Some (w, st1)" using 1(2) by (auto elim!: bind_SomeE)
  have m: "importing n root (pmeta st1)" using strtok_meta [OF w] 1(4) by simp
  show ?case
  proof (cases "w = None \<or> hd (the w) = CHR ''#''")
    case True
    then have "rs = (Inr (), st1)" using 1(2) w by (auto split: option.split_asm)
    then show ?thesis using m by simp
  next
    case False
    then obtain word r st2 where c: "uci_parse_command single word st1 = Some (r, st2)" and
      rest: "(case r of Inl e \<Rightarrow> Some (Inl e, st2) | Inr _ \<Rightarrow> f single st2) = Some rs"
      using 1(2) w by (auto elim!: bind_SomeE split: option.split_asm)
    have "importing n root (pmeta st2)" using uci_parse_command_importing c m 1(3) by auto
    then show ?thesis using rest 1(1,3) by (auto split: sum.split_asm)
  qed
qed

lemma uci_parse_line_importing:
  assumes "uci_parse_line True st = Some (r, st')" "importing n root (pmeta st)"
  shows "importing n root (pmeta st')"
  using assms uci_parse_line_loop_importing [of True _ "(r, st')"]
  by (auto simp: uci_parse_line_def elim!: bind_SomeE dest!: skip_whitespace_meta)

lemma uci_import_loop_importing:
  assumes "uci_import_loop single st = Some rs" "single" "importing n root (pmeta st)"
  shows "importing n root (pmeta (snd rs))"
  using assms
proof (induction single st rs rule: uci_import_loop.raw_induct [rotated, consumes 1])
  case (1 f single st rs)
  show ?case
  proof (cases "pp_eof st")
    case True
    then show ?thesis using 1(2,4) by auto
  next
    case False
    then obtain st1 ch r st2 where st1: "uci_getln 0 (st\<lparr>pp_pos := 0\<rparr>) = Some st1" and
      st2: "(if ch \<noteq> NUL then uci_parse_line single st1 else Some (Inr (), st1)) = Some (r, st2)" and
      rest: "(case r of Inr _ \<Rightarrow> f single st2
         | Inl e \<Rightarrow> if e \<noteq> UCI_ERR_PARSE \<or> pp_strict st2 then Some (Inl e, st2) else f single st2) = Some rs"
      using 1(2) by (auto elim!: bind_SomeE)
    have "importing n root (pmeta st1)" using uci_getln_meta [OF st1] 1(4) by simp
    then have "importing n root (pmeta st2)" using st2 1(3) uci_parse_line_importing by (auto split: if_split_asm)
    then show ?thesis using rest 1(1,3) by (auto split: sum.split_asm if_split_asm)
  qed
qed

text \<open>A package that is imported with a name.\<close>

lemma uci_import_named:
  assumes "uci_import junk strict root stream (Some n) None True = Some (Inr (result, root'))"
  obtains p where "result = Some p" "p_name p = n" "root' = root @ [p]"
proof -
  let ?st = "(parser_init junk strict root stream)\<lparr>pp_name := Some n\<rparr>"
  obtain r1 st1 where l: "uci_import_loop True ?st = Some (Inr r1, st1)" and
    rest: "(do { (r, st) \<leftarrow> (if pp_package st1 = None then uci_switch_config st1 else Some (Inr (), st1));
       (case r of Inl e \<Rightarrow> Some (Inl e)
        | Inr _ \<Rightarrow> do {
            let result = pp_package st;
            let st = (if pp_merge st then st\<lparr>pp_package := None\<rparr> else st);
            (r, st) \<leftarrow> uci_switch_config (st\<lparr>pp_name := None\<rparr>);
            (case r of Inl e \<Rightarrow> Some (Inl e) | Inr _ \<Rightarrow> Some (Inr (result, pp_root st)))
          }) }) = Some (Inr (result, root'))"
    using assms by (auto simp: uci_import_def Let_def elim!: bind_SomeE split: if_split_asm sum.split_asm)
  have "importing n root (pmeta ?st)" by (simp add: pmeta_def parser_init_def)
  then have imp1: "importing n root (pmeta st1)" using uci_import_loop_importing [OF l] by simp
  obtain r2 st2 where st2: "(if pp_package st1 = None then uci_switch_config st1 else Some (Inr (), st1)) = Some (Inr r2, st2)" and
    fin: "(do { (r, st) \<leftarrow> uci_switch_config ((if pp_merge st2 then st2\<lparr>pp_package := None\<rparr> else st2)\<lparr>pp_name := None\<rparr>);
      (case r of Inl e \<Rightarrow> Some (Inl e) | Inr _ \<Rightarrow> Some (Inr (pp_package st2, pp_root st))) }) = Some (Inr (result, root'))"
    using rest unfolding Let_def by (auto elim!: bind_SomeE split: sum.split_asm)
  have imp2: "importing n root (pmeta st2)" and "\<exists>p. pp_package st2 = Some p"
    using st2 imp1 uci_switch_config_importing [of st1 "Inr r2" st2 n root] by (auto split: if_split_asm)
  then obtain p where p: "pp_package st2 = Some p" "p_name p = n" "pp_root st2 = root" "\<not> pp_merge st2" by (auto simp: pmeta_def)
  with fin show thesis using that [of p] by (auto simp: uci_switch_config_def Let_def)
qed

end
