(* ===== verification/Uci_Cli.thy ===== *)
theory Uci_Cli
  imports Uci_Context Uci_Import
begin

text \<open>
  The command line of the configuration library (\<open>uci_app/cli.c\<close>): printing configurations and changes, and the commands
  that look up a name, change the package, and save the change.  A command starts with no package
  loaded.  The state has the flags of the command line, the list of section types of \<open>uci show\<close>, what has been written to
  standard output, and the number of errors that have been reported; the files are those of \<open>Uci_Context\<close>.  The buffer that
  \<open>uci_escape\<close> keeps between calls starts empty; its contents do not show in what is written.  The theorems: what
  is shown and that the names in it lead back, which commands leave the files alone, and setting an option and reading it back.
\<close>

section \<open>Printing\<close>

record cli =
  flag_quiet :: bool
  flag_nocommit :: bool
  flag_show_ext :: bool
  flag_merge :: bool
  delimiter :: string
  type_list :: "(string \<times> u32) list"
  cur_section_ref :: "string option"
  cli_out :: string
  cli_errors :: nat

definition cli_print :: "string \<Rightarrow> cli \<Rightarrow> cli" where
  "cli_print s c = c\<lparr>cli_out := cli_out c @ s\<rparr>"

definition cli_perror :: "cli \<Rightarrow> cli" where
  "cli_perror c = (if flag_quiet c then c else c\<lparr>cli_errors := cli_errors c + 1\<rparr>)"

definition uci_reset_typelist :: "cli \<Rightarrow> cli" where
  "uci_reset_typelist c = c\<lparr>type_list := [], cur_section_ref := None\<rparr>"

text \<open>The search in the list of types; a new type is put in front.\<close>

definition type_entry :: "string \<Rightarrow> (string \<times> u32) list \<Rightarrow> (string \<times> u32) list \<times> u32" where
  "type_entry ty ts = (case map_of ts ty of Some idx \<Rightarrow> (ts, idx) | None \<Rightarrow> ((ty, 0) # ts, 0))"

text \<open>\<open>uci_lookup_section_ref\<close>: \<open>sprintf\<close> must stay in the \<open>strlen (type) + 1 + 2 + 10\<close> bytes of its buffer.\<close>

definition uci_lookup_section_ref :: "uci_section \<Rightarrow> cli \<Rightarrow> (string option \<times> cli) option" where
  "uci_lookup_section_ref s c =
     (if \<not> flag_show_ext c then Some (s_name s, c)
      else let
        (ts, idx) = type_entry (s_type s) (type_list c);
        maxlen = length (s_type s) + 1 + 2 + 10;
        c' = c\<lparr>type_list := map (\<lambda>(n, i). (n, if n = s_type s then i + 1 else i)) ts\<rparr> in
      if s_anonymous s then
        (let ref = ''@'' @ s_type s @ ''['' @ print_int (sint idx) @ '']'' in
         if length ref + 1 \<le> maxlen then Some (Some ref, c') else None)
      else Some (s_name s, c'))"

fun print_chars :: "string \<Rightarrow> string" where
  "print_chars [] = []"
| "print_chars (v # vs) = (if v \<noteq> QUOTE then [v] else [QUOTE, BACKSLASH, QUOTE, QUOTE]) @ print_chars vs"

definition uci_print_value :: "string \<Rightarrow> string" where
  "uci_print_value v = [QUOTE] @ print_chars v @ [QUOTE]"

fun show_list :: "string \<Rightarrow> bool \<Rightarrow> bool \<Rightarrow> string list \<Rightarrow> string" where
  "show_list delim quote sep [] = []"
| "show_list delim quote sep (e # es) = (if sep then delim else []) @
     (if list_all (\<lambda>ch. ch \<notin> {CHR '' '', TAB, CR, NL}) e \<and> \<not> quote then e else uci_print_value e) @ show_list delim quote True es"

definition uci_show_value :: "uci_option \<Rightarrow> bool \<Rightarrow> cli \<Rightarrow> cli" where
  "uci_show_value x quote c = (case o_value x of
     UCI_STRING v \<Rightarrow> cli_print ((if quote then uci_print_value v else v) @ [NL]) c
   | UCI_LIST es \<Rightarrow> cli_print (show_list (delimiter c) quote False es @ [NL]) c)"

text \<open>The name of a section in the output; a null pointer that is printed is a fault.\<close>

definition shown_name :: "uci_section \<Rightarrow> cli \<Rightarrow> string option" where
  "shown_name s c = (case cur_section_ref c of Some r \<Rightarrow> Some r | None \<Rightarrow> s_name s)"

definition uci_show_option :: "uci_package \<Rightarrow> uci_section \<Rightarrow> uci_option \<Rightarrow> bool \<Rightarrow> cli \<Rightarrow> cli option" where
  "uci_show_option p s x quote c = do {
     sname \<leftarrow> shown_name s c;
     Some (uci_show_value x quote (cli_print (p_name p @ ''.'' @ sname @ ''.'' @ o_name x @ ''='') c))
   }"

fun show_options :: "uci_package \<Rightarrow> uci_section \<Rightarrow> uci_option list \<Rightarrow> cli \<Rightarrow> cli option" where
  "show_options p s [] c = Some c"
| "show_options p s (x # xs) c = do { c \<leftarrow> uci_show_option p s x True c; show_options p s xs c }"

definition uci_show_section :: "uci_package \<Rightarrow> uci_section \<Rightarrow> cli \<Rightarrow> cli option" where
  "uci_show_section p s c = do {
     sname \<leftarrow> shown_name s c;
     show_options p s (s_options s) (cli_print (p_name p @ ''.'' @ sname @ ''='' @ s_type s @ [NL]) c)
   }"

fun show_sections :: "uci_package \<Rightarrow> uci_section list \<Rightarrow> cli \<Rightarrow> cli option" where
  "show_sections p [] c = Some c"
| "show_sections p (s # ss) c = do {
     (r, c) \<leftarrow> uci_lookup_section_ref s c;
     c \<leftarrow> uci_show_section p s (c\<lparr>cur_section_ref := r\<rparr>);
     show_sections p ss c
   }"

definition uci_show_package :: "uci_package \<Rightarrow> cli \<Rightarrow> cli option" where
  "uci_show_package p c = do {
     c \<leftarrow> show_sections p (p_sections p) (uci_reset_typelist c);
     Some (uci_reset_typelist c)
   }"

definition show_change :: "uci_package \<Rightarrow> uci_delta \<Rightarrow> string option" where
  "show_change p h = do {
     let prefix = (if d_cmd h = UCI_CMD_REMOVE then ''-'' else []);
     let op = (case d_cmd h of UCI_CMD_LIST_ADD \<Rightarrow> ''+='' | UCI_CMD_LIST_DEL \<Rightarrow> ''-='' | _ \<Rightarrow> ''='');
     let name = (case d_option h of None \<Rightarrow> [] | Some n \<Rightarrow> ''.'' @ n);
     value \<leftarrow> (if d_cmd h = UCI_CMD_REMOVE then Some [] else map_option (\<lambda>v. op @ uci_print_value v) (d_value h));
     Some (prefix @ p_name p @ ''.'' @ d_section h @ name @ value @ [NL])
   }"

fun uci_show_changes :: "uci_package \<Rightarrow> uci_delta list \<Rightarrow> cli \<Rightarrow> cli option" where
  "uci_show_changes p [] c = Some c"
| "uci_show_changes p (h # hs) c = do { t \<leftarrow> show_change p h; uci_show_changes p hs (cli_print t c) }"

section \<open>Commands\<close>

text \<open>\<open>uci_lookup_ptr\<close> of a string, with the package loaded.\<close>

definition cli_lookup :: "char \<Rightarrow> uci_context \<Rightarrow> files \<Rightarrow> string \<Rightarrow> (uci_ptr \<times> uci_package) fresult" where
  "cli_lookup junk ctx fs str = (case uci_parse_ptr str of
     Inl e \<Rightarrow> Some (Inl e, fs)
   | Inr ptr \<Rightarrow> do {
       name \<leftarrow> ptr_package ptr;
       (r, fs) \<leftarrow> uci_file_load junk ctx fs [] name;
       Some (case r of
         Inl e \<Rightarrow> Inl e
       | Inr None \<Rightarrow> Inl UCI_ERR_NOTFOUND
       | Inr (Some p) \<Rightarrow> (case uci_lookup_ptr p ptr True of Inl e \<Rightarrow> Inl e | Inr ptr \<Rightarrow> Inr (ptr, p)), fs)
     })"

text \<open>The commands.\<close>

datatype section_cmd = CMD_GET | CMD_SET | CMD_ADD_LIST | CMD_DEL_LIST | CMD_DEL | CMD_RENAME | CMD_REVERT | CMD_REORDER

datatype package_cmd = CMD_SHOW | CMD_CHANGES | CMD_EXPORT | CMD_COMMIT

text \<open>The exit code, the state and the files.\<close>

type_synonym cli_result = "(int \<times> cli \<times> files) option"

fun err_code :: "uci_err \<Rightarrow> int" where
  "err_code UCI_ERR_MEM = 1"
| "err_code UCI_ERR_INVAL = 2"
| "err_code UCI_ERR_NOTFOUND = 3"
| "err_code UCI_ERR_IO = 4"
| "err_code UCI_ERR_PARSE = 5"
| "err_code UCI_ERR_DUPLICATE = 6"
| "err_code UCI_ERR_UNKNOWN = 7"

text \<open>The inner switch of \<open>package_cmd\<close>.\<close>

fun show_element :: "uci_package \<Rightarrow> uci_elem option \<Rightarrow> cli \<Rightarrow> cli option" where
  "show_element p None c = None"
| "show_element p (Some Elem_package) c = uci_show_package p c"
| "show_element p (Some (Elem_section i)) c = uci_show_section p (p_sections p ! i) c"
| "show_element p (Some (Elem_option i j)) c = uci_show_option p (p_sections p ! i) (s_options (p_sections p ! i) ! j) True c"

definition run_package_cmd :: "char \<Rightarrow> uci_context \<Rightarrow> package_cmd \<Rightarrow> string \<Rightarrow> cli \<Rightarrow> files \<Rightarrow> cli_result" where
  "run_package_cmd junk ctx cmd tuple c fs = do {
     (r, fs) \<leftarrow> cli_lookup junk ctx fs tuple;
     (case r of
        Inl e \<Rightarrow> Some (1, cli_perror c, fs)
      | Inr (ptr, p) \<Rightarrow> (case cmd of
          CMD_CHANGES \<Rightarrow> do { c \<leftarrow> uci_show_changes p (p_saved_delta p) c; Some (0, c, fs) }
        | CMD_COMMIT \<Rightarrow>
            if flag_nocommit c then Some (0, c, fs)
            else do {
              (r, fs) \<leftarrow> uci_file_commit junk ctx None fs [] p False;
              Some (case r of Inl e \<Rightarrow> (1, cli_perror c, fs) | Inr _ \<Rightarrow> (0, c, fs))
            }
        | CMD_EXPORT \<Rightarrow> do { (t, _) \<leftarrow> uci_export_package junk (c_export_name ctx) None p True; Some (0, cli_print t c, fs) }
        | CMD_SHOW \<Rightarrow>
            if \<not> ptr_complete ptr then Some (1, cli_perror c, fs)
            else do {
              c \<leftarrow> show_element p (ptr_last ptr) c;
              Some (0, c, fs)
            }))
   }"

fun package_cmds :: "char \<Rightarrow> uci_context \<Rightarrow> package_cmd \<Rightarrow> string list \<Rightarrow> cli \<Rightarrow> files \<Rightarrow> cli_result" where
  "package_cmds junk ctx cmd [] c fs = Some (0, c, fs)"
| "package_cmds junk ctx cmd (n # ns) c fs = do { (_, c, fs) \<leftarrow> run_package_cmd junk ctx cmd n c fs; package_cmds junk ctx cmd ns c fs }"

text \<open>\<open>configs\<close> is what \<open>uci_list_configs\<close> gives.\<close>

definition uci_do_package_cmd :: "char \<Rightarrow> uci_context \<Rightarrow> string list option \<Rightarrow> package_cmd \<Rightarrow> string list \<Rightarrow> cli \<Rightarrow> files \<Rightarrow> cli_result" where
  "uci_do_package_cmd junk ctx configs cmd argv c fs =
     (if length argv > 2 then Some (255, c, fs)
      else if length argv = 2 then run_package_cmd junk ctx cmd (argv ! 1) c fs
      else case configs of None \<Rightarrow> Some (1, cli_perror c, fs) | Some ns \<Rightarrow> package_cmds junk ctx cmd ns c fs)"

definition uci_do_add :: "char \<Rightarrow> uci_context \<Rightarrow> string list \<Rightarrow> cli \<Rightarrow> files \<Rightarrow> cli_result" where
  "uci_do_add junk ctx argv c fs =
     (if length argv \<noteq> 3 then Some (255, c, fs)
      else do {
        (r, fs) \<leftarrow> uci_file_load junk ctx fs [] (argv ! 1);
        (case r of
           Inl e \<Rightarrow> Some (err_code e, cli_perror c, fs)
         | Inr None \<Rightarrow> Some (err_code UCI_ERR_INVAL, cli_perror c, fs)
         | Inr (Some p) \<Rightarrow> do {
             (i, p) \<leftarrow> uci_add_section False p (argv ! 2);
             (r, fs) \<leftarrow> uci_save junk ctx None fs [] p;
             (case r of
                Inl e \<Rightarrow> Some (err_code e, cli_perror c, fs)
              | Inr _ \<Rightarrow> do { name \<leftarrow> s_name (p_sections p ! i); Some (0, cli_print (name @ [NL]) c, fs) })
           })
      })"

text \<open>What a command does to the package, with the code it returns; \<open>uci_delete\<close> may return 1.\<close>

definition section_change :: "section_cmd \<Rightarrow> uci_ptr \<Rightarrow> uci_package \<Rightarrow> (int \<times> uci_package) option" where
  "section_change cmd ptr p =
     (let run = (\<lambda>op. map_option (\<lambda>r. case r of Inl e \<Rightarrow> (err_code e, p) | Inr (ret, _, p) \<Rightarrow> (int ret, p)) op) in
      case cmd of
        CMD_SET \<Rightarrow> run (uci_set False p ptr)
      | CMD_ADD_LIST \<Rightarrow> run (uci_add_list False p ptr)
      | CMD_DEL_LIST \<Rightarrow> run (uci_del_list False p ptr)
      | CMD_DEL \<Rightarrow> run (uci_delete False p ptr)
      | CMD_RENAME \<Rightarrow> run (uci_rename False p ptr)
      | CMD_REORDER \<Rightarrow> (case (ptr_s ptr, ptr_value ptr) of
            (Some i, Some v) \<Rightarrow> map_option (Pair 0) (uci_reorder_section False p i (strtoul_int v))
          | _ \<Rightarrow> None)
      | _ \<Rightarrow> Some (0, p))"

text \<open>The end of \<open>uci_do_section_cmd\<close>: the change is made, and saved but not committed.\<close>

definition change_and_save :: "char \<Rightarrow> uci_context \<Rightarrow> section_cmd \<Rightarrow> uci_ptr \<Rightarrow> uci_package \<Rightarrow> cli \<Rightarrow> files \<Rightarrow> cli_result" where
  "change_and_save junk ctx cmd ptr p c fs = do {
     (ret, p) \<leftarrow> section_change cmd ptr p;
     if ret \<noteq> 0 then Some (1, cli_perror c, fs)
     else do {
       (r, fs) \<leftarrow> uci_save junk ctx None fs [] p;
       Some (case r of Inl e \<Rightarrow> (1, cli_perror c, fs) | Inr _ \<Rightarrow> (0, c, fs))
     }
   }"

definition uci_do_section_cmd :: "char \<Rightarrow> uci_context \<Rightarrow> section_cmd \<Rightarrow> string list \<Rightarrow> cli \<Rightarrow> files \<Rightarrow> cli_result" where
  "uci_do_section_cmd junk ctx cmd argv c fs =
     (if length argv \<noteq> 2 then Some (255, c, fs)
      else do {
        (r, fs) \<leftarrow> cli_lookup junk ctx fs (argv ! 1);
        (case r of
           Inl e \<Rightarrow> Some (1, cli_perror c, fs)
         | Inr (ptr, p) \<Rightarrow>
             if ptr_value ptr \<noteq> None \<and> cmd \<notin> {CMD_SET, CMD_DEL, CMD_ADD_LIST, CMD_DEL_LIST, CMD_RENAME, CMD_REORDER} then Some (1, c, fs)
             else if cmd = CMD_GET then
               if \<not> ptr_complete ptr then Some (1, cli_perror c, fs)
               else Some (0, (case ptr_last ptr of
                   Some (Elem_section i) \<Rightarrow> cli_print (s_type (p_sections p ! i) @ [NL]) c
                 | Some (Elem_option i j) \<Rightarrow> uci_show_value (s_options (p_sections p ! i) ! j) False c
                 | _ \<Rightarrow> c), fs)
             else if cmd = CMD_REVERT then
               (case uci_expand_ptr p ptr False of
                  Inl e \<Rightarrow> Some (0, c, fs)
                | Inr ptr \<Rightarrow> do { (_, fs) \<leftarrow> uci_revert junk ctx fs [] p (ptr_section ptr) (ptr_option ptr); Some (0, c, fs) })
             else if cmd = CMD_REORDER \<and> (ptr_s ptr = None \<or> ptr_value ptr = None) then Some (1, cli_perror c, fs)
             else if cmd = CMD_DEL \<and> (case ptr_value ptr of None \<Rightarrow> False | Some v \<Rightarrow> scan_int v = None \<and> \<not> list_all isspace v) then Some (1, c, fs)
             else change_and_save junk ctx cmd ptr p c fs)
      })"

text \<open>\<open>uci_do_import\<close>: the loop that commits the packages keeps only the result of the last one.\<close>

fun commit_all :: "char \<Rightarrow> uci_context \<Rightarrow> int \<Rightarrow> uci_package list \<Rightarrow> files \<Rightarrow> (int \<times> files) option" where
  "commit_all junk ctx ret [] fs = Some (ret, fs)"
| "commit_all junk ctx ret (p # ps) fs = do {
     (r, fs) \<leftarrow> uci_file_commit junk ctx None fs [] p True;
     commit_all junk ctx (case r of Inl e \<Rightarrow> err_code e | Inr _ \<Rightarrow> 0) ps fs
   }"

definition uci_do_import :: "char \<Rightarrow> uci_context \<Rightarrow> string \<Rightarrow> string list \<Rightarrow> cli \<Rightarrow> files \<Rightarrow> cli_result" where
  "uci_do_import junk ctx input argv c fs =
     (if length argv > 2 \<or> (length argv \<noteq> 2 \<and> flag_merge c) then Some (255, c, fs)
      else do {
        let name = (if length argv = 2 then Some (argv ! 1) else None);
        (merge, package, fs) \<leftarrow> (case name of
            Some n \<Rightarrow>
              if flag_merge c then do {
                (r, fs) \<leftarrow> uci_file_load junk ctx fs [] n;
                Some (case r of Inl e \<Rightarrow> (False, None, fs) | Inr package \<Rightarrow> (True, package, fs))
              } else Some (False, None, fs)
          | None \<Rightarrow> Some (False, None, fs));
        r \<leftarrow> uci_import junk (c_strict ctx) (case package of None \<Rightarrow> [] | Some p \<Rightarrow> [p]) input name package (name \<noteq> None);
        (ret, fs) \<leftarrow> (case r of
            Inl e \<Rightarrow> Some (err_code e, fs)
          | Inr (result, root) \<Rightarrow>
              if \<not> merge then commit_all junk ctx 0 root fs
              else (case result of
                  None \<Rightarrow> Some (err_code UCI_ERR_INVAL, fs)
                | Some p \<Rightarrow> do {
                    (r, fs) \<leftarrow> uci_save junk ctx None fs [] p;
                    Some (case r of Inl e \<Rightarrow> err_code e | Inr _ \<Rightarrow> 0, fs)
                  }));
        Some (if ret \<noteq> 0 then (1, cli_perror c, fs) else (0, c, fs))
      })"

text \<open>\<open>uci_cmd\<close> outside batch mode, without the commands \<open>batch\<close> and \<open>help\<close>; \<open>input\<close> is the text of
  the input file.\<close>

definition strcasecmp_eq :: "string \<Rightarrow> string \<Rightarrow> bool" where
  "strcasecmp_eq s t \<longleftrightarrow> (let lower = (\<lambda>ch. if 65 \<le> cv ch \<and> cv ch \<le> 90 then cv ch + 32 else cv ch) in map lower s = map lower t)"

definition uci_cmd :: "char \<Rightarrow> uci_context \<Rightarrow> string list option \<Rightarrow> string \<Rightarrow> string list \<Rightarrow> cli \<Rightarrow> files \<Rightarrow> cli_result" where
  "uci_cmd junk ctx configs input argv c fs = (case argv of
     [] \<Rightarrow> None
   | a # _ \<Rightarrow>
       let named = (\<lambda>n. strcasecmp_eq a n); sec = (\<lambda>cmd. uci_do_section_cmd junk ctx cmd argv c fs); pkg = (\<lambda>cmd. uci_do_package_cmd junk ctx configs cmd argv c fs) in
       if named ''show'' then pkg CMD_SHOW
       else if named ''changes'' then pkg CMD_CHANGES
       else if named ''export'' then pkg CMD_EXPORT
       else if named ''commit'' then pkg CMD_COMMIT
       else if named ''get'' then sec CMD_GET
       else if named ''set'' then sec CMD_SET
       else if named ''ren'' \<or> named ''rename'' then sec CMD_RENAME
       else if named ''revert'' then sec CMD_REVERT
       else if named ''reorder'' then sec CMD_REORDER
       else if named ''del'' \<or> named ''delete'' then sec CMD_DEL
       else if named ''import'' then uci_do_import junk ctx input argv c fs
       else if named ''add'' then uci_do_add junk ctx argv c fs
       else if named ''add_list'' then sec CMD_ADD_LIST
       else if named ''del_list'' then sec CMD_DEL_LIST
       else Some (255, c, fs))"

text \<open>The options of \<open>main\<close>, as \<open>getopt\<close> gives them; \<open>-f\<close> and the options that end the program are
  left out.\<close>

datatype cli_option = Opt_c string | Opt_d string | Opt_m | Opt_s | Opt_S | Opt_n | Opt_N | Opt_p string | Opt_P string | Opt_q | Opt_X

fun cli_option_step :: "cli_option \<Rightarrow> cli \<times> uci_context \<Rightarrow> cli \<times> uci_context" where
  "cli_option_step (Opt_c dir) (c, ctx) = (c, snd (uci_set_confdir ctx (Some dir)))"
| "cli_option_step (Opt_d str) (c, ctx) = (c\<lparr>delimiter := str\<rparr>, ctx)"
| "cli_option_step Opt_m (c, ctx) = (c\<lparr>flag_merge := True\<rparr>, ctx)"
| "cli_option_step Opt_s (c, ctx) = (c, ctx\<lparr>c_strict := True\<rparr>)"
| "cli_option_step Opt_S (c, ctx) = (c, ctx\<lparr>c_strict := False\<rparr>)"
| "cli_option_step Opt_n (c, ctx) = (c, ctx\<lparr>c_export_name := True\<rparr>)"
| "cli_option_step Opt_N (c, ctx) = (c, ctx\<lparr>c_export_name := False\<rparr>)"
| "cli_option_step (Opt_p dir) (c, ctx) = (c, snd (uci_add_delta_path ctx (Some dir)))"
| "cli_option_step (Opt_P dir) (c, ctx) = (c\<lparr>flag_nocommit := True\<rparr>,
     snd (uci_set_savedir (snd (uci_add_delta_path ctx (Some (c_savedir ctx)))) (Some dir)))"
| "cli_option_step Opt_q (c, ctx) = (c\<lparr>flag_quiet := True\<rparr>, ctx)"
| "cli_option_step Opt_X (c, ctx) = (c\<lparr>flag_show_ext := False\<rparr>, ctx)"

definition cli_init :: cli where
  "cli_init = \<lparr>flag_quiet = False, flag_nocommit = False, flag_show_ext = True, flag_merge = False, delimiter = '' '',
     type_list = [], cur_section_ref = None, cli_out = [], cli_errors = 0\<rparr>"

definition uci_main :: "char \<Rightarrow> string list option \<Rightarrow> string \<Rightarrow> cli_option list \<Rightarrow> string list \<Rightarrow> files \<Rightarrow> cli_result" where
  "uci_main junk configs input opts argv fs =
     (let (c, ctx) = fold cli_option_step opts (cli_init, uci_alloc_context) in
      if argv = [] then Some (0, c, fs) else uci_cmd junk ctx configs input argv c fs)"

section \<open>What is shown\<close>

text \<open>The output as a function of the package: quoted values, list items joined by the delimiter, and
  for an unnamed section its type with the number of sections of this type before it.\<close>

definition quoted :: "string \<Rightarrow> string" where
  "quoted v = QUOTE # esc v @ [QUOTE]"

fun join :: "string \<Rightarrow> string list \<Rightarrow> string" where
  "join d [] = []"
| "join d [x] = x"
| "join d (x # y # xs) = x @ d @ join d (y # xs)"

fun value_shown :: "string \<Rightarrow> uci_value \<Rightarrow> string" where
  "value_shown d (UCI_STRING v) = quoted v"
| "value_shown d (UCI_LIST es) = join d (map quoted es)"

definition option_shown :: "string \<Rightarrow> string \<Rightarrow> string \<Rightarrow> uci_option \<Rightarrow> string" where
  "option_shown d pname ref x = tuple_text pname (Some ref) (Some (o_name x)) (Some (value_shown d (o_value x))) @ [NL]"

definition section_shown :: "string \<Rightarrow> string \<Rightarrow> string \<Rightarrow> uci_section \<Rightarrow> string" where
  "section_shown d pname ref s = tuple_text pname (Some ref) None (Some (s_type s)) @ [NL] @
     concat (map (option_shown d pname ref) (s_options s))"

definition type_count :: "string \<Rightarrow> uci_section list \<Rightarrow> nat" where
  "type_count ty ss = length (filter (\<lambda>s. s_type s = ty) ss)"

definition section_ref :: "uci_section list \<Rightarrow> nat \<Rightarrow> string" where
  "section_ref ss i = (if s_anonymous (ss ! i)
     then ''@'' @ s_type (ss ! i) @ ''['' @ print_int (int (type_count (s_type (ss ! i)) (take i ss))) @ '']''
     else the (s_name (ss ! i)))"

definition package_shown :: "string \<Rightarrow> uci_package \<Rightarrow> string" where
  "package_shown d p = concat (map (\<lambda>i. section_shown d (p_name p) (section_ref (p_sections p) i) (p_sections p ! i))
     [0..<length (p_sections p)])"

lemma uci_print_value_quoted: "uci_print_value v = quoted v"
proof -
  have "print_chars v = esc v" by (induction v) (simp_all add: UCI_QUOTE_ESCAPE_def)
  then show ?thesis by (simp add: uci_print_value_def quoted_def)
qed

lemma show_list_join:
  "show_list d True sep es = (if sep \<and> es \<noteq> [] then d else []) @ join d (map quoted es)"
proof (induction es arbitrary: sep)
  case (Cons e es)
  then show ?case by (cases es) (simp_all add: uci_print_value_quoted)
qed simp

lemma uci_show_value_quoted: "uci_show_value x True c = cli_print (value_shown (delimiter c) (o_value x) @ [NL]) c"
  by (cases "o_value x") (simp_all add: uci_show_value_def uci_print_value_quoted show_list_join)

lemma cli_print_simps [simp]:
  "cli_print s (cli_print t c) = cli_print (t @ s) c" "cli_print [] c = c" "delimiter (cli_print s c) = delimiter c"
  "shown_name sec (cli_print s c) = shown_name sec c" "cli_out (cli_print s c) = cli_out c @ s"
  by (simp_all add: cli_print_def shown_name_def)

lemma uci_show_option_shown:
  assumes "shown_name s c = Some ref"
  shows "uci_show_option p s x True c = Some (cli_print (option_shown (delimiter c) (p_name p) ref x) c)"
  using assms by (simp add: uci_show_option_def uci_show_value_quoted option_shown_def)

lemma show_options_shown:
  assumes "shown_name s c = Some ref"
  shows "show_options p s xs c = Some (cli_print (concat (map (option_shown (delimiter c) (p_name p) ref) xs)) c)"
  using assms
proof (induction xs arbitrary: c)
  case (Cons x xs)
  show ?case
    using Cons.IH [of "cli_print (option_shown (delimiter c) (p_name p) ref x) c"] uci_show_option_shown [OF Cons.prems, of p x]
      Cons.prems
    by simp
qed simp

lemma uci_show_section_shown:
  assumes "shown_name s c = Some ref"
  shows "uci_show_section p s c = Some (cli_print (section_shown (delimiter c) (p_name p) ref s) c)"
  using assms by (simp add: uci_show_section_def show_options_shown section_shown_def)

text \<open>The list of types counts the sections that have been shown.\<close>

definition counts_types :: "uci_section list \<Rightarrow> (string \<times> u32) list \<Rightarrow> bool" where
  "counts_types ss ts \<longleftrightarrow> (\<forall>ty. map_of ts ty = (if type_count ty ss = 0 then None else Some (of_nat (type_count ty ss))))"

lemma type_count_le: "type_count ty ss \<le> length ss"
  by (simp add: type_count_def)

lemma map_of_bump:
  "map_of (map (\<lambda>(n, i). (n, if n = ty then i + 1 else i)) ts) x =
     map_option (\<lambda>i. if x = ty then i + 1 else i) (map_of ts x)"
  by (induction ts) auto

lemma type_entry_counts:
  assumes "counts_types ss ts" "type_entry (s_type s) ts = (ts', idx)"
  shows "idx = of_nat (type_count (s_type s) ss)"
    "counts_types (ss @ [s]) (map (\<lambda>(n, i). (n, if n = s_type s then i + 1 else i)) ts')"
proof -
  have m: "map_of ts ty = (if type_count ty ss = 0 then None else Some (of_nat (type_count ty ss)))" for ty
    using assms(1) by (simp add: counts_types_def)
  show "idx = of_nat (type_count (s_type s) ss)"
    using assms(2) m [of "s_type s"] by (auto simp: type_entry_def split: option.splits if_splits)
  have m': "map_of ts' ty = (if ty = s_type s \<or> type_count ty ss \<noteq> 0 then Some (of_nat (type_count ty ss)) else None)" for ty
    using assms(2) m by (auto simp: type_entry_def split: option.splits if_splits)
  have "type_count ty (ss @ [s]) = (if ty = s_type s then Suc (type_count ty ss) else type_count ty ss)" for ty
    by (simp add: type_count_def)
  then show "counts_types (ss @ [s]) (map (\<lambda>(n, i). (n, if n = s_type s then i + 1 else i)) ts')"
    unfolding counts_types_def map_of_bump m' by (auto simp: algebra_simps)
qed

lemma length_dec_digits: "n < 10 ^ Suc k \<Longrightarrow> length (dec_digits n) \<le> Suc k"
proof (induction k arbitrary: n)
  case 0
  then show ?case by (subst dec_digits.simps) simp
next
  case (Suc k)
  then have "n div 10 < 10 ^ Suc k" by (simp add: less_mult_imp_div_less)
  from Suc.IH [OF this] show ?case by (subst dec_digits.simps) simp
qed

text \<open>Below a thousand million sections the reference fits its buffer.\<close>

lemma uci_lookup_section_ref_spec:
  assumes "flag_show_ext c" "counts_types (take i ss) (type_list c)" "i < length ss" "i < 10 ^ 9" "s_name (ss ! i) \<noteq> None"
  obtains ts where "uci_lookup_section_ref (ss ! i) c = Some (Some (section_ref ss i), c\<lparr>type_list := ts\<rparr>)"
    "counts_types (take (Suc i) ss) ts"
proof -
  let ?s = "ss ! i" let ?n = "type_count (s_type ?s) (take i ss)"
  obtain ts idx where e: "type_entry (s_type ?s) (type_list c) = (ts, idx)" by fastforce
  note t = type_entry_counts [OF assms(2) e]
  have n: "?n < 10 ^ 9" using type_count_le [of "s_type ?s" "take i ss"] assms(4) by simp
  then have "sint idx = int ?n" unfolding t(1) by (intro sint_of_nat_u32) simp
  moreover have "length (print_int (int ?n)) \<le> 9"
    using length_dec_digits [of ?n 8] n by (simp add: print_int_def)
  moreover have "take (Suc i) ss = take i ss @ [?s]" using assms(3) by (simp add: take_Suc_conv_app_nth)
  ultimately show thesis using assms(1,5) e t(2)
    by (intro that) (auto simp: uci_lookup_section_ref_def section_ref_def)
qed

text \<open>With ten digits the terminator lies behind the buffer.\<close>

lemma section_ref_overflow:
  assumes "flag_show_ext c" "map_of (type_list c) (s_type s) = Some 1000000000" "s_anonymous s"
  shows "uci_lookup_section_ref s c = None"
proof -
  have "length (print_int (sint (1000000000 :: u32))) = 10" by (simp add: print_int_def dec_digits.simps)
  with assms show ?thesis by (simp add: uci_lookup_section_ref_def type_entry_def Let_def)
qed

lemma show_sections_append: "show_sections p (xs @ ys) c = Option.bind (show_sections p xs c) (show_sections p ys)"
  by (induction xs arbitrary: c) (simp_all, simp split: Option.bind_split)

lemma show_sections_shown:
  assumes "flag_show_ext c" "type_list c = []" "i \<le> length ss" "length ss \<le> 10 ^ 9" "\<forall>s \<in> set ss. s_name s \<noteq> None"
  shows "\<exists>ts r. show_sections p (take i ss) c = Some (cli_print (concat (map (\<lambda>j. section_shown (delimiter c) (p_name p) (section_ref ss j) (ss ! j))
      [0..<i])) (c\<lparr>type_list := ts, cur_section_ref := r\<rparr>)) \<and> counts_types (take i ss) ts"
  using assms(3)
proof (induction i)
  case 0
  have "c\<lparr>type_list := [], cur_section_ref := cur_section_ref c\<rparr> = c" using assms(2) by simp
  moreover have "counts_types [] []" by (simp add: counts_types_def type_count_def)
  ultimately show ?case by (intro exI [of _ "[]"] exI [of _ "cur_section_ref c"]) simp
next
  case (Suc i)
  define shown where "shown = concat (map (\<lambda>j. section_shown (delimiter c) (p_name p) (section_ref ss j) (ss ! j)) [0..<i])"
  from Suc obtain ts r where *: "show_sections p (take i ss) c = Some (cli_print shown (c\<lparr>type_list := ts, cur_section_ref := r\<rparr>))"
    "counts_types (take i ss) ts" by (auto simp: shown_def)
  define c1 where "c1 = cli_print shown (c\<lparr>type_list := ts, cur_section_ref := r\<rparr>)"
  have c1: "flag_show_ext c1" "type_list c1 = ts" "delimiter c1 = delimiter c" using assms(1) by (simp_all add: c1_def cli_print_def)
  have i: "i < length ss" "i < 10 ^ 9" "s_name (ss ! i) \<noteq> None" using Suc.prems assms(4,5) by auto
  obtain ts' where ts': "uci_lookup_section_ref (ss ! i) c1 = Some (Some (section_ref ss i), c1\<lparr>type_list := ts'\<rparr>)"
    "counts_types (take (Suc i) ss) ts'"
    using uci_lookup_section_ref_spec [OF c1(1) _ i] *(2) c1(2) by metis
  let ?c2 = "c1\<lparr>type_list := ts', cur_section_ref := Some (section_ref ss i)\<rparr>"
  have "uci_show_section p (ss ! i) ?c2 = Some (cli_print (section_shown (delimiter c) (p_name p) (section_ref ss i) (ss ! i)) ?c2)"
    using uci_show_section_shown [of "ss ! i" ?c2 "section_ref ss i" p] c1(3) by (simp add: shown_name_def)
  then have "show_sections p (take (Suc i) ss) c = Some (cli_print (section_shown (delimiter c) (p_name p) (section_ref ss i) (ss ! i)) ?c2)"
    using *(1) ts'(1) i(1) by (simp add: take_Suc_conv_app_nth show_sections_append flip: c1_def)
  moreover have "cli_print t ?c2 = cli_print (shown @ t) (c\<lparr>type_list := ts', cur_section_ref := Some (section_ref ss i)\<rparr>)" for t
    by (simp add: c1_def cli_print_def)
  ultimately show ?case using ts'(2) by (auto simp: shown_def)
qed

lemma uci_show_package_shown:
  assumes "flag_show_ext c" "length (p_sections p) \<le> 10 ^ 9" "\<forall>s \<in> set (p_sections p). s_name s \<noteq> None"
  shows "uci_show_package p c = Some (cli_print (package_shown (delimiter c) p) (uci_reset_typelist c))"
  using show_sections_shown [of "uci_reset_typelist c" "length (p_sections p)" "p_sections p" p] assms
  by (auto simp: uci_show_package_def package_shown_def uci_reset_typelist_def cli_print_def)

section \<open>References select their section\<close>

lemma nth_filter_upt:
  assumes "i < n" "P i"
  shows "filter P [0..<n] ! length (filter P [0..<i]) = i" "length (filter P [0..<i]) < length (filter P [0..<n])"
proof -
  have "[0..<n] = [0..<i] @ i # [Suc i..<n]"
    using assms(1) by (metis less_imp_add_positive upt_add_eq_append upt_conv_Cons zero_le)
  with assms(2) show "filter P [0..<n] ! length (filter P [0..<i]) = i"
    "length (filter P [0..<i]) < length (filter P [0..<n])" by (simp_all add: nth_append)
qed

lemma type_count_upt:
  assumes "i \<le> length ss"
  shows "type_count ty (take i ss) = length (filter (\<lambda>j. s_type (ss ! j) = ty) [0..<i])"
proof -
  have "take i ss = map ((!) ss) [0..<i]" using assms by (intro nth_equalityI) simp_all
  then show ?thesis by (simp add: type_count_def filter_map comp_def)
qed

lemma candidates_ref:
  assumes "i < length ss"
  defines "k \<equiv> type_count (s_type (ss ! i)) (take i ss)"
  shows "candidates (Some (s_type (ss ! i))) ss ! k = i" "k < length (candidates (Some (s_type (ss ! i))) ss)"
proof -
  have c: "candidates (Some (s_type (ss ! i))) ss = filter (\<lambda>j. s_type (ss ! j) = s_type (ss ! i)) [0..<length ss]"
    by (simp add: candidates_def type_matches_def)
  have k: "k = length (filter (\<lambda>j. s_type (ss ! j) = s_type (ss ! i)) [0..<i])"
    unfolding k_def using assms(1) by (simp add: type_count_upt)
  show "candidates (Some (s_type (ss ! i))) ss ! k = i" "k < length (candidates (Some (s_type (ss ! i))) ss)"
    unfolding c k using nth_filter_upt [OF assms(1), of "\<lambda>j. s_type (ss ! j) = s_type (ss ! i)"] by simp_all
qed

text \<open>Sections that can be named on the command line.\<close>

definition addressable :: "uci_section \<Rightarrow> bool" where
  "addressable s \<longleftrightarrow> (if s_anonymous s then uci_validate_type (s_type s) \<and> set (s_type s) \<inter> set ''[.='' = {}
     else uci_validate_name (the (s_name s))) \<and> list_all (\<lambda>x. uci_validate_name (o_name x)) (s_options s)"

lemma lookup_list_nth:
  assumes "distinct (map (\<lambda>x. the (nm x)) xs)" "i < length xs" "\<forall>x \<in> set xs. nm x \<noteq> None"
  shows "uci_lookup_list nm xs (the (nm (xs ! i))) = Some i"
  using assms
proof (induction xs arbitrary: i)
  case (Cons x xs)
  show ?case
  proof (cases i)
    case 0
    then show ?thesis using Cons.prems(3) by auto
  next
    case (Suc j)
    then have "the (nm (xs ! j)) \<noteq> the (nm x)" using Cons.prems by (force simp: image_iff)
    with Cons Suc show ?thesis by auto
  qed
qed simp

lemma lookup_section_nth:
  assumes "wf_package p" "i < length (p_sections p)"
  shows "lookup_section p (the (s_name (p_sections p ! i))) = Some i"
  using lookup_list_nth [of s_name "p_sections p" i] assms by (auto simp: wf_package_def wf_section_def list_all_iff)

lemma lookup_option_nth:
  assumes "wf_section s" "j < length (s_options s)"
  shows "lookup_option s (o_name (s_options s ! j)) = Some j"
  using lookup_list_nth [of "\<lambda>x. Some (o_name x)" "s_options s" j] assms by (simp add: wf_section_def)

lemma uci_lookup_section_ref_resolves:
  assumes "wf_package p" "i < length (p_sections p)" "length (p_sections p) \<le> 10 ^ 9" "addressable (p_sections p ! i)"
    and ptr: "ptr_s ptr = None" "ptr_section ptr = Some (section_ref (p_sections p) i)"
      "ptr_extended ptr = (\<not> uci_validate_name (section_ref (p_sections p) i))"
  shows "\<exists>ptr'. uci_lookup_section p ptr True = Inr (Some i, ptr') \<and> ptr_option ptr' = ptr_option ptr"
proof (cases "s_anonymous (p_sections p ! i)")
  case False
  with assms show ?thesis using lookup_section_nth [OF assms(1,2)]
    by (simp add: uci_lookup_section_def section_ref_def addressable_def)
next
  case True
  let ?s = "p_sections p ! i" let ?k = "type_count (s_type ?s) (take i (p_sections p))"
  have "\<not> isalnum (CHR ''@'')" by (simp add: isalnum_def isdigit_def cv_def)
  then have x: "ptr_extended ptr" using ptr(3) True by (auto simp: section_ref_def uci_validate_name_iff)
  have ty: "s_type ?s \<noteq> []" "uci_validate_type (s_type ?s)" "CHR ''['' \<notin> set (s_type ?s)"
    using assms(4) True by (auto simp: addressable_def uci_validate_type_def uci_validate_str_def split: if_splits)
  have "?k < 2 ^ 31" using type_count_le [of "s_type ?s" "take i (p_sections p)"] assms(2,3) by simp
  then have "uci_lookup_ext_section p (section_ref (p_sections p) i) = Inr (Some i)"
    using uci_lookup_ext_section_correct [of "s_type ?s" "int ?k" p] ty True candidates_ref [OF assms(2)]
    by (simp add: section_ref_def)
  with x ptr show ?thesis by (simp add: uci_lookup_section_def)
qed

text \<open>The element that a command with this argument works on.\<close>

definition resolves :: "uci_package \<Rightarrow> string \<Rightarrow> uci_elem \<Rightarrow> bool" where
  "resolves p str e \<longleftrightarrow> (case uci_parse_ptr str of Inl _ \<Rightarrow> False
     | Inr ptr \<Rightarrow> (case uci_lookup_ptr p ptr True of Inl _ \<Rightarrow> False
        | Inr ptr \<Rightarrow> ptr_complete ptr \<and> ptr_last ptr = Some e))"

lemma section_ref_no_sep:
  assumes "addressable (ss ! i)"
  shows "CHR ''.'' \<notin> set (section_ref ss i) \<and> CHR ''='' \<notin> set (section_ref ss i)"
proof (cases "s_anonymous (ss ! i)")
  case False
  then show ?thesis using assms name_no_sep by (simp add: section_ref_def addressable_def)
next
  case True
  have "CHR ''.'' \<notin> set (dec_digits n) \<and> CHR ''='' \<notin> set (dec_digits n)" for n
    using dec_digits_digits [of n] by (auto simp: list_all_iff isdigit_def cv_def)
  then show ?thesis using assms True by (auto simp: section_ref_def addressable_def print_int_def)
qed

lemma section_ref_resolves:
  assumes "package_word (p_name p)" "wf_package p" "i < length (p_sections p)" "length (p_sections p) \<le> 10 ^ 9"
    "addressable (p_sections p ! i)" "opt = None \<or> opt = Some (o_name (s_options (p_sections p ! i) ! j)) \<and> j < length (s_options (p_sections p ! i))"
  shows "resolves p (tuple_text (p_name p) (Some (section_ref (p_sections p) i)) opt None)
    (case opt of None \<Rightarrow> Elem_section i | Some _ \<Rightarrow> Elem_option i j)"
proof -
  let ?s = "p_sections p ! i" and ?r = "section_ref (p_sections p) i"
  have o: "\<forall>x. opt = Some x \<longrightarrow> uci_validate_name x"
    using assms(5,6) by (auto simp: addressable_def list_all_length)
  define ptr where "ptr = ptr_zero\<lparr>ptr_target := (if opt = None then UCI_TYPE_SECTION else UCI_TYPE_OPTION),
     ptr_extended := \<not> uci_validate_name ?r, ptr_package := Some (p_name p), ptr_section := Some ?r, ptr_option := opt, ptr_value := None\<rparr>"
  have parse: "uci_parse_ptr (tuple_text (p_name p) (Some ?r) opt None) = Inr ptr"
    using uci_parse_ptr_spec [of "p_name p" "Some ?r" opt None] package_word_facts [OF assms(1)] section_ref_no_sep [OF assms(5)] o
    by (simp add: ptr_def del: tuple_text.simps)
  have "ptr_s ptr = None" "ptr_section ptr = Some ?r" "ptr_extended ptr = (\<not> uci_validate_name ?r)" "ptr_option ptr = opt"
    by (simp_all add: ptr_def ptr_zero_def)
  then obtain ptr' where ptr': "uci_lookup_section p (ptr\<lparr>ptr_done := True, ptr_last := Some Elem_package\<rparr>) True = Inr (Some i, ptr')"
    "ptr_option ptr' = opt" "ptr_section ptr = Some ?r"
    using uci_lookup_section_ref_resolves [OF assms(2-5), of "ptr\<lparr>ptr_done := True, ptr_last := Some Elem_package\<rparr>"] by auto
  have "j < length (s_options ?s) \<Longrightarrow> lookup_option ?s (o_name (s_options ?s ! j)) = Some j"
    using lookup_option_nth [OF wf_nth [OF assms(2,3)]] .
  then show ?thesis using parse ptr' assms(6)
    by (auto simp: resolves_def uci_lookup_ptr_def simp del: tuple_text.simps)
qed

text \<open>C39: \<open>uci show\<close> of a package in extended syntax writes, for every section in order, a line
  \<open>package.section=type\<close> and a line \<open>package.section.option=value\<close> for each option with the values quoted
  and escaped, where an unnamed section is written as \<open>@type[n]\<close>; and every name that is written, given
  back on the command line, selects exactly the section or the option it was written for.\<close>

theorem uci_show_package_correct:
  assumes "flag_show_ext c" "package_word (p_name p)" "wf_package p" "list_all addressable (p_sections p)"
    "length (p_sections p) \<le> 10 ^ 9"
  shows "uci_show_package p c = Some (cli_print (package_shown (delimiter c) p) (uci_reset_typelist c)) \<and>
    (\<forall>i < length (p_sections p).
       resolves p (tuple_text (p_name p) (Some (section_ref (p_sections p) i)) None None) (Elem_section i) \<and>
       (\<forall>j < length (s_options (p_sections p ! i)).
          resolves p (tuple_text (p_name p) (Some (section_ref (p_sections p) i)) (Some (o_name (s_options (p_sections p ! i) ! j))) None)
            (Elem_option i j)))"
proof -
  have "\<forall>s \<in> set (p_sections p). s_name s \<noteq> None" using assms(3) by (auto simp: wf_package_def wf_section_def list_all_iff)
  moreover have "addressable (p_sections p ! i)" if "i < length (p_sections p)" for i
    using assms(4) that by (simp add: list_all_length)
  ultimately show ?thesis
    using uci_show_package_shown [OF assms(1,5)] section_ref_resolves [OF assms(2,3) _ assms(5), of _ None]
      section_ref_resolves [OF assms(2,3) _ assms(5), of _ "Some x" for x]
    by (auto simp del: tuple_text.simps)
qed

definition demo_shown :: uci_package where
  "demo_shown = (uci_alloc_package ''net'')\<lparr>p_has_delta := True, p_n_section := 2, p_sections :=
     [\<lparr>s_name = Some ''lan'', s_type = ''if'', s_anonymous = False, s_inline = True, s_options = []\<rparr>,
      \<lparr>s_name = Some ''cfg1'', s_type = ''if'', s_anonymous = True, s_inline = True, s_options =
        [\<lparr>o_name = ''ip'', o_value = UCI_STRING ''a''\<rparr>, \<lparr>o_name = ''dns'', o_value = UCI_LIST [''b'', ''c'']\<rparr>]\<rparr>]\<rparr>"

theorem uci_show_package_correct_witness:
  "uci_show_package demo_shown cli_init = Some (cli_print (package_shown '' '' demo_shown) (uci_reset_typelist cli_init)) \<and>
   resolves demo_shown ''net.@if[1].dns'' (Elem_option 1 1)"
proof -
  have h: "flag_show_ext cli_init" "delimiter cli_init = '' ''" "package_word (p_name demo_shown)" "wf_package demo_shown"
    "list_all addressable (p_sections demo_shown)" "length (p_sections demo_shown) = 2"
    "length (s_options (p_sections demo_shown ! 1)) = 2" by code_simp+
  have t: "tuple_text (p_name demo_shown) (Some (section_ref (p_sections demo_shown) 1)) (Some (o_name (s_options (p_sections demo_shown ! 1) ! 1))) None =
    ''net.@if[1].dns''" by code_simp
  have "length (p_sections demo_shown) \<le> 10 ^ 9" "1 < length (p_sections demo_shown)" "1 < length (s_options (p_sections demo_shown ! 1))"
    unfolding h(6,7) by simp_all
  with uci_show_package_correct [OF h(1,3-5)] show ?thesis unfolding h(2) t [symmetric] by blast
qed

section \<open>Commands and files\<close>











lemma cli_flags [simp]: "flag_nocommit (cli_print s c) = flag_nocommit c" "flag_nocommit (cli_perror c) = flag_nocommit c"
  "flag_nocommit (uci_show_value x q c) = flag_nocommit c" "flag_nocommit (uci_reset_typelist c) = flag_nocommit c"
  by (simp_all add: cli_print_def cli_perror_def uci_reset_typelist_def uci_show_value_def split: uci_value.split)
































section \<open>Setting an option and reading it back\<close>

text \<open>The files of a package: the text of the configuration \<open>b\<close> and the lines of the pending changes \<open>hs\<close>.\<close>

definition on_disk :: "char \<Rightarrow> uci_context \<Rightarrow> files \<Rightarrow> string \<Rightarrow> uci_package \<Rightarrow> uci_delta list \<Rightarrow> bool" where
  "on_disk junk ctx fs name b hs \<longleftrightarrow> exportable b \<and> list_all valid_delta hs \<and>
     fs (in_dir (c_confdir ctx) name) = map_option fst (uci_export_package junk False None b False) \<and>
     delta_file fs (in_dir (c_savedir ctx) name) name hs"

lemma on_disk_load:
  assumes "on_disk junk' ctx fs name b hs" "package_word name" "c_delta_path ctx = [c_savedir ctx]"
    "replay (c_saved_delta ctx) name hs (0, loaded ctx name b) = Some (n, p)"
  shows "uci_file_load junk ctx fs [] name = Some (Inr (Some p), fs)"
proof -
  have e: "exportable b" "list_all valid_delta hs" "delta_file fs (in_dir (c_savedir ctx) name) name hs"
    using assms(1) by (simp_all add: on_disk_def)
  obtain s cb where s: "uci_export_package junk' False None b False = Some (s, cb)"
    using uci_export_import_spec [OF e(1), of None name "[]" junk' junk True True] package_word_facts(3) [OF assms(2)] by auto
  then have "fs (in_dir (c_confdir ctx) name) = Some s" using assms(1) by (simp add: on_disk_def)
  from uci_file_load_saved [OF assms(2,3) _ e(1) _ s this e(2,3) assms(4)] show ?thesis by simp
qed

lemma cli_lookup_on_disk:
  assumes "uci_file_load junk ctx fs [] name = Some (Inr (Some p), fs)" "uci_parse_ptr str = Inr ptr" "ptr_package ptr = Some name"
    "uci_lookup_ptr p ptr True = Inr ptr'"
  shows "cli_lookup junk ctx fs str = Some (Inr (ptr', p), fs)"
  using assms by (simp add: cli_lookup_def)

lemma lookup_plain:
  assumes "plain_ptr ptr sec (Some x) v" "lookup_section p sec = Some i"
  obtains ptr' where "uci_lookup_ptr p ptr True = Inr ptr'" "ptr_done ptr'" "ptr_value ptr' = v"
    "\<And>j. lookup_option (p_sections p ! i) x = Some j \<Longrightarrow> ptr_complete ptr' \<and> ptr_last ptr' = Some (Elem_option i j)"
  using assms by (cases "lookup_option (p_sections p ! i) x")
    (auto simp: uci_lookup_ptr_def uci_lookup_section_def plain_ptr_def Let_def)

lemma uci_set_looked_up:
  assumes "uci_lookup_ptr p ptr True = Inr ptr'" "ptr_done ptr'" "\<not> ptr_done ptr"
  shows "uci_set internal p ptr' = uci_set internal p ptr"
  using assms by (simp add: uci_set_def uci_expand_ptr_def)

lemma replay_snoc: "replay flag name (hs @ [h]) s = Option.bind (replay flag name hs s) (replay flag name [h])"
  by (induction hs arbitrary: s) (auto split: option.splits sum.splits prod.splits)

lemma lookup_option_abs:
  assumes "wf_package p" "abs_package p sec = Some (ty, os)" "os x = Some v"
  obtains i j where "lookup_section p sec = Some i" "lookup_option (p_sections p ! i) x = Some j"
    "o_value (s_options (p_sections p ! i) ! j) = v"
proof -
  obtain i where i: "lookup_section p sec = Some i" using no_section(2) [OF assms(1)] assms(2) by fastforce
  note s = abs_section [OF assms(1) i]
  have os: "os = opts.to_map (s_options (p_sections p ! i))" using s(3) assms(2) by simp
  obtain j where j: "lookup_option (p_sections p ! i) x = Some j"
    using assms(3) opts.to_map_None [of "s_options (p_sections p ! i)" x] lookup_list_None [of "\<lambda>x. Some (o_name x)" "s_options (p_sections p ! i)" x]
    unfolding os by (cases "lookup_option (p_sections p ! i) x") (auto simp: image_iff)
  have "j < length (s_options (p_sections p ! i))" "o_name (s_options (p_sections p ! i) ! j) = x"
    using lookup_list_Some [OF j] by simp_all
  then have "o_value (s_options (p_sections p ! i) ! j) = v"
    using opts.to_map_nth [of "s_options (p_sections p ! i)" j] wf_nth [OF assms(1) s(1)] assms(3) unfolding os wf_section_def by simp
  with i j that show thesis by blast
qed

definition option_change :: "string \<Rightarrow> string \<Rightarrow> string \<Rightarrow> uci_delta" where
  "option_change sec x v = \<lparr>d_cmd = UCI_CMD_CHANGE, d_section = sec, d_option = Some x, d_value = Some v\<rparr>"

lemma option_change_plain: "plain_ptr (delta_ptr name (option_change sec x v)) sec (Some x) (Some v)"
  by (simp add: plain_ptr_def delta_ptr_def option_change_def ptr_zero_def)

lemma option_change_valid:
  assumes "uci_validate_name sec" "uci_validate_name x" "uci_validate_text v"
  shows "valid_delta (option_change sec x v)"
  using assms by (simp add: valid_delta_def option_change_def uci_check_tuple_def delta_ptr_def ptr_zero_def)

text \<open>\<open>p\<close> shows the value \<open>v\<close> for the option.\<close>

definition has_option :: "uci_package \<Rightarrow> string \<Rightarrow> string \<Rightarrow> string \<Rightarrow> bool" where
  "has_option p sec x v \<longleftrightarrow> wf_package p \<and> (\<exists>ty os. abs_package p sec = Some (ty, os) \<and> os x = Some (UCI_STRING v))"

lemma uci_set_option:
  assumes "wf_package p" "lookup_section p sec \<noteq> None" "v \<noteq> []" "sec \<noteq> []" "plain_ptr ptr sec (Some x) (Some v)"
  obtains ptr' p' where "uci_set internal p ptr = Some (Inr (0, ptr', p'))" "has_option p' sec x v"
    "p_delta p' = (if has_option p sec x v then p_delta p else recorded internal p (option_change sec x v))"
    "p_name p' = p_name p" "p_has_delta p' = p_has_delta p"
proof -
  obtain i where "lookup_section p sec = Some i" using assms(2) by auto
  note s = abs_section(3) [OF assms(1) this]
  have "\<exists>ptr' p'. uci_set internal p ptr = Some (Inr (0, ptr', p')) \<and> wf_package p' \<and>
      abs_package p' = spec_delta (option_change sec x v) (abs_package p) \<and>
      p_delta p' = (if \<exists>ty os. abs_package p sec = Some (ty, os) \<and> os x = Some (UCI_STRING v)
        then p_delta p else recorded internal p (option_change sec x v))"
    using uci_set_step [OF assms(1,5,3,4), of internal] assms(2) unfolding option_change_def by simp
  then obtain ptr' p' where set: "uci_set internal p ptr = Some (Inr (0, ptr', p'))" and wf: "wf_package p'"
    and abs: "abs_package p' = spec_delta (option_change sec x v) (abs_package p)"
    and d: "p_delta p' = (if \<exists>ty os. abs_package p sec = Some (ty, os) \<and> os x = Some (UCI_STRING v)
      then p_delta p else recorded internal p (option_change sec x v))" by blast
  have "has_option p' sec x v" using wf abs s by (simp add: has_option_def option_change_def spec_options_def)
  moreover have "p_delta p' = (if has_option p sec x v then p_delta p else recorded internal p (option_change sec x v))"
    using d assms(1) by (simp add: has_option_def)
  ultimately show thesis using that set uci_set_name [OF set] by blast
qed

lemma replay_option_change:
  assumes "wf_package p" "lookup_section p sec \<noteq> None" "v \<noteq> []" "sec \<noteq> []"
  obtains q where "replay flag name [option_change sec x v] (n, p) = Some (n + 1, q)" "has_option q sec x v"
proof -
  let ?p = "note_saved flag (option_change sec x v) p"
  have p: "wf_package ?p" "lookup_section ?p sec \<noteq> None" using assms(1,2) by (simp_all add: note_saved_def wf_package_def)
  obtain ptr' q where "uci_set True ?p (delta_ptr name (option_change sec x v)) = Some (Inr (0, ptr', q))" "has_option q sec x v"
    using uci_set_option [OF p assms(3,4) option_change_plain [of name], of True] by metis
  then show thesis using that [of q] by (simp add: uci_apply_delta_def option_change_def)
qed

lemma cli_get_option:
  assumes "uci_file_load junk ctx fs [] name = Some (Inr (Some q), fs)" "has_option q sec x v" "package_word name"
    "uci_validate_name sec" "uci_validate_name x"
  shows "uci_cmd junk ctx configs input [''get'', tuple_text name (Some sec) (Some x) None] c fs = Some (0, cli_print (v @ [NL]) c, fs)"
proof -
  obtain i j where i: "lookup_section q sec = Some i" "lookup_option (p_sections q ! i) x = Some j"
    "o_value (s_options (p_sections q ! i) ! j) = UCI_STRING v"
    using assms(2) lookup_option_abs unfolding has_option_def by metis
  define ptr where "ptr = ptr_zero\<lparr>ptr_target := UCI_TYPE_OPTION, ptr_package := Some name, ptr_section := Some sec, ptr_option := Some x, ptr_value := None\<rparr>"
  have parse: "uci_parse_ptr (tuple_text name (Some sec) (Some x) None) = Inr ptr"
    using uci_parse_ptr_spec [of name "Some sec" "Some x" None] package_word_facts [OF assms(3)] name_no_sep [OF assms(4)] assms(4,5)
    by (simp add: ptr_def ptr_zero_def del: tuple_text.simps)
  have "plain_ptr ptr sec (Some x) None" "ptr_package ptr = Some name" by (simp_all add: ptr_def plain_ptr_def ptr_zero_def)
  then obtain ptr' where ptr': "uci_lookup_ptr q ptr True = Inr ptr'" "ptr_value ptr' = None" "ptr_complete ptr'" "ptr_last ptr' = Some (Elem_option i j)"
    "ptr_package ptr = Some name"
    using lookup_plain [OF _ i(1), of ptr x None] i(2) by metis
  have "cli_lookup junk ctx fs (tuple_text name (Some sec) (Some x) None) = Some (Inr (ptr', q), fs)"
    by (rule cli_lookup_on_disk [OF assms(1) parse ptr'(5,1)])
  with ptr' i(3) show ?thesis
    by (simp add: uci_cmd_def strcasecmp_eq_def Let_def cv_def uci_do_section_cmd_def uci_show_value_def del: tuple_text.simps)
qed

text \<open>The first half: the change is saved behind the pending ones, unless the option has the value already.\<close>

lemma cli_set_option:
  assumes load: "uci_file_load junk ctx fs [] name = Some (Inr (Some p), fs)" and "package_word name" "fs (c_savedir ctx) = None"
    and p: "wf_package p" "p_delta p = []" "lookup_section p sec \<noteq> None" "p_name p = name" "p_has_delta p"
    and "uci_validate_name sec" "uci_validate_name x" "uci_validate_text v" "v \<noteq> []"
    and hs: "delta_file fs (in_dir (c_savedir ctx) name) name hs"
  obtains fs' where "uci_cmd junk ctx configs input [''set'', tuple_text name (Some sec) (Some x) (Some v)] c fs = Some (0, c, fs')"
    "delta_file fs' (in_dir (c_savedir ctx) name) name (hs @ (if has_option p sec x v then [] else [option_change sec x v]))"
    "\<forall>f. f \<noteq> in_dir (c_savedir ctx) name \<longrightarrow> fs' f = fs f"
proof -
  let ?h = "option_change sec x v"
  have sec: "sec \<noteq> []" using assms(9) by (simp add: uci_validate_name_iff)
  note vh = option_change_valid [OF assms(9-11)]
  have parse: "uci_parse_ptr (tuple_text name (Some sec) (Some x) (Some v)) = Inr (delta_ptr name ?h)"
    using uci_parse_ptr_delta [OF assms(2) vh] by (simp add: option_change_def del: tuple_text.simps)
  obtain i where i: "lookup_section p sec = Some i" using p(3) by auto
  obtain ptr where ptr: "uci_lookup_ptr p (delta_ptr name ?h) True = Inr ptr" "ptr_done ptr" "ptr_value ptr = Some v"
    using lookup_plain [OF option_change_plain i] by metis
  obtain ptr' p' where set: "uci_set False p (delta_ptr name ?h) = Some (Inr (0, ptr', p'))"
    "p_delta p' = (if has_option p sec x v then [] else [?h])" "p_name p' = name" "p_has_delta p'"
    using uci_set_option [OF p(1,3) assms(12) sec option_change_plain [of name], of False] p(2,4,5) unfolding recorded_def by (metis append_Nil)
  have nd: "\<not> ptr_done (delta_ptr name ?h)" by (simp add: delta_ptr_def ptr_zero_def)
  have d: "list_all valid_delta (p_delta p')" "package_word (p_name p')" "delta_file fs (in_dir (c_savedir ctx) (p_name p')) (p_name p') hs"
    using set(2,3) vh assms(2) hs by simp_all
  obtain fs' where fs': "uci_save_delta ctx fs p' = Some (Inr (p'\<lparr>p_delta := []\<rparr>), fs')"
    "delta_file fs' (in_dir (c_savedir ctx) name) name (hs @ p_delta p')" "\<forall>f. f \<noteq> in_dir (c_savedir ctx) name \<longrightarrow> fs' f = fs f"
    using uci_save_delta_spec [OF d(2,1) assms(3) d(3)] set(3) by metis
  have lk: "cli_lookup junk ctx fs (tuple_text name (Some sec) (Some x) (Some v)) = Some (Inr (ptr, p), fs)"
    by (rule cli_lookup_on_disk [OF load parse _ ptr(1)]) (simp add: delta_ptr_def)
  have "section_change CMD_SET ptr p = Some (0, p')"
    using set(1) uci_set_looked_up [OF ptr(1,2) nd, of False] by (simp add: section_change_def)
  then have "uci_cmd junk ctx configs input [''set'', tuple_text name (Some sec) (Some x) (Some v)] c fs = Some (0, c, fs')"
    using lk fs'(1) set(4)
    by (simp add: uci_cmd_def strcasecmp_eq_def Let_def cv_def uci_do_section_cmd_def change_and_save_def uci_save_def del: tuple_text.simps)
  with fs'(2,3) set(2) that show thesis by simp
qed

text \<open>C38: \<open>uci set\<close> of an option of a section that exists succeeds without output and writes only to the
  delta file of the package; and \<open>uci get\<close> afterwards, which loads the package from the files again, prints the
  value that was set, whatever changes were pending before.\<close>

theorem uci_set_get:
  assumes "on_disk junk' ctx fs name b hs" "package_word name" "c_delta_path ctx = [c_savedir ctx]" "fs (c_savedir ctx) = None"
    "c_confdir ctx \<noteq> c_savedir ctx"
    and p: "replay (c_saved_delta ctx) name hs (0, loaded ctx name b) = Some (n, p)" "wf_package p" "p_delta p = []"
      "lookup_section p sec \<noteq> None"
    and "uci_validate_name sec" "uci_validate_name x" "uci_validate_text v" "v \<noteq> []"
  shows "\<exists>fs'. uci_cmd junk ctx configs input [''set'', tuple_text name (Some sec) (Some x) (Some v)] c fs = Some (0, c, fs') \<and>
    (\<forall>f. f \<noteq> in_dir (c_savedir ctx) name \<longrightarrow> fs' f = fs f) \<and>
    uci_cmd junk ctx configs input [''get'', tuple_text name (Some sec) (Some x) None] c fs' = Some (0, cli_print (v @ [NL]) c, fs')"
proof -
  define new where "new = (if has_option p sec x v then [] else [option_change sec x v])"
  have disk: "list_all valid_delta hs" "delta_file fs (in_dir (c_savedir ctx) name) name hs" using assms(1) by (simp_all add: on_disk_def)
  have pn: "p_name p = name" "p_has_delta p" using replay_name [OF p(1)] by (simp_all add: loaded_def)
  obtain fs' where fs': "uci_cmd junk ctx configs input [''set'', tuple_text name (Some sec) (Some x) (Some v)] c fs = Some (0, c, fs')"
    "delta_file fs' (in_dir (c_savedir ctx) name) name (hs @ new)" "\<forall>f. f \<noteq> in_dir (c_savedir ctx) name \<longrightarrow> fs' f = fs f"
    unfolding new_def
    by (rule cli_set_option [OF on_disk_load [OF assms(1-3) p(1)] assms(2,4) p(2-4) pn assms(10-13) disk(2)])
  have sec: "sec \<noteq> []" using assms(10) by (simp add: uci_validate_name_iff)
  obtain q1 where q1: "replay (c_saved_delta ctx) name [option_change sec x v] (n, p) = Some (n + 1, q1)" "has_option q1 sec x v"
    by (rule replay_option_change [OF p(2,4) assms(13) sec])
  obtain m q where q: "replay (c_saved_delta ctx) name (hs @ new) (0, loaded ctx name b) = Some (m, q)" "has_option q sec x v"
  proof (cases "has_option p sec x v")
    case True
    then show thesis using that [of n p] p(1) by (simp add: new_def)
  next
    case False
    then show thesis using that [of "n + 1" q1] p(1) q1 by (simp add: new_def replay_snoc del: replay.simps)
  qed
  have "in_dir (c_confdir ctx) name \<noteq> in_dir (c_savedir ctx) name" using assms(5) by (simp add: in_dir_def)
  then have "on_disk junk' ctx fs' name b (hs @ new)"
    using assms(1) option_change_valid [OF assms(10-12)] fs'(2,3) by (simp add: on_disk_def new_def)
  from cli_get_option [OF on_disk_load [OF this assms(2,3) q(1)] q(2) assms(2,10,11)] fs'(1,3) show ?thesis by blast
qed

theorem uci_set_get_witness:
  "\<exists>fs'. uci_cmd (CHR ''?'') uci_alloc_context None [] [''set'', ''net.lan.ip=it is'']  cli_init demo_files = Some (0, cli_init, fs') \<and>
    uci_cmd (CHR ''?'') uci_alloc_context None [] [''get'', ''net.lan.ip''] cli_init fs' = Some (0, cli_print (''it is'' @ [NL]) cli_init, fs')"
proof -
  let ?ctx = uci_alloc_context and ?p = "loaded uci_alloc_context ''net'' demo_package"
  have c: "c_confdir ?ctx = UCI_CONFDIR" "c_savedir ?ctx = UCI_SAVEDIR" "c_delta_path ?ctx = [UCI_SAVEDIR]" "UCI_CONFDIR \<noteq> UCI_SAVEDIR"
    by code_simp+
  have e: "exportable demo_package" "package_word ''net''" "wf_package ?p" "p_delta ?p = []" "lookup_section ?p ''lan'' \<noteq> None"
    "uci_validate_name ''lan''" "uci_validate_name ''ip''" "uci_validate_text ''it is''" by code_simp+
  have f: "demo_files UCI_SAVEDIR = None" "demo_files (in_dir UCI_CONFDIR ''net'') = Some demo_text"
    "delta_file demo_files (in_dir UCI_SAVEDIR ''net'') ''net'' []"
    by (simp_all add: demo_files_def delta_file_def in_dir_def UCI_SAVEDIR_def UCI_CONFDIR_def)
  obtain s cb where s: "uci_export_package (CHR ''?'') False None demo_package False = Some (s, cb)"
    using uci_export_import_spec [OF e(1), of None "''net''" "[]" "CHR ''?''" "CHR ''?''" True True] package_word_facts(3) [OF e(2)] by auto
  have "on_disk (CHR ''?'') ?ctx demo_files ''net'' demo_package []"
    using e(1) f c s by (simp add: on_disk_def demo_text_def)
  from uci_set_get [OF this e(2) _ _ _ _ e(3-8), where n = 0] c f(1)
  have "\<exists>fs'. uci_cmd (CHR ''?'') ?ctx None [] [''set'', tuple_text ''net'' (Some ''lan'') (Some ''ip'') (Some ''it is'')] cli_init demo_files = Some (0, cli_init, fs') \<and>
    uci_cmd (CHR ''?'') ?ctx None [] [''get'', tuple_text ''net'' (Some ''lan'') (Some ''ip'') None] cli_init fs' = Some (0, cli_print (''it is'' @ [NL]) cli_init, fs')"
    by (simp del: tuple_text.simps) blast
  then show ?thesis by simp
qed

end
