(* ===== verification/Spec2Isabelle.thy ===== *)
theory Spec2Isabelle
  imports Md5 Blobmsg Uci_Context Uci_Parse Vlist Ustream_Fd Safe_List Json_Script Runqueue Uci_Blob Uci_Cli
begin

text \<open>
  A verification of the C libraries of this repository, \<open>libubox\<close> and \<open>libuci\<close> under
  \<open>src/sample_code\<close>, which the programs of the board are built on.

  \<^bold>\<open>The program.\<close>  \<open>libubox\<close> holds general data structures and services: MD5, binary attribute
  messages (\<open>blob\<close>, \<open>blobmsg\<close>), linked lists, AVL trees, versioned and safe lists, an event loop, buffered
  streams that the loop watches, an interpreter of scripts in messages, and queues of tasks.
  \<open>libuci\<close> keeps configuration files: it parses and prints them, holds them as a tree of packages,
  sections and options, and records every change as a delta that is saved beside the file, replayed
  when the file is loaded, reverted, or committed into it.

  \<^bold>\<open>Modelling.\<close>  Functions of the code are functions of the same name.  Behaviour that C leaves
  undefined (access outside an object, through a null pointer or through a pointer that \<open>realloc\<close> has
  invalidated) is \<^const>\<open>None\<close>, so a theorem that an operation returns \<^const>\<open>Some\<close> includes that
  it does not fault.  Errors that the code reports are values.  A loop whose end depends on the data is
  a \<open>partial_function\<close> into \<open>option\<close>, for which not returning is \<^const>\<open>None\<close> as well; there is
  no fuel, and the theorems state that the result exists.  Fixed-width integers are words, or integers
  with the wrap-around written out; a \<open>long\<close> has 32 bits, as on the board.  System calls, callbacks and the memory allocator are parameters;
  the \<open>update\<close> callback of \<open>Vlist\<close> changes the state of the application only, not the tree it is called for.

  \<^bold>\<open>Theories.\<close>
  \<^item> \<open>Prelude\<close>: machine integers, byte memory with bounds checks, shared list lemmas.
  \<^item> \<open>Md5\<close> (\<open>libubox/md5.c\<close>): the block function with its tables, the streaming interface and
    \<open>md5sum\<close>; equivalence with a definition of MD5 taken from RFC 1321 (C1, C2).
  \<^item> \<open>Blob\<close> (\<open>blob.c\<close>, \<open>blob.h\<close>): attribute buffers as bytes; building, parsing, scalars in network order
    (C3 to C5); initialising a buffer faults exactly when memory is refused, before its test for a null pointer (C6).
  \<^item> \<open>Blobmsg\<close> (\<open>blobmsg.c\<close>, \<open>blobmsg.h\<close>): named messages on top of \<open>Blob\<close>; building, parsing by policy
    (C7, C8), strings printed in place.
  \<^item> \<open>Uci_Util\<close>, \<open>Uci_Data\<close> (\<open>libuci/util.c\<close>, \<open>list.h\<close>): names and tuples (C9); the tree with lookup and
    every operation that changes it, each a refinement of a change on abstract configurations that
    records exactly this change (C10, C11).
  \<^item> \<open>Uci_File\<close>, \<open>Uci_Roundtrip\<close> (\<open>file.c\<close>): line buffer, parser and printer; escaping stays in its buffer
    (C12) and import inverts export (C13).
  \<^item> \<open>Uci_Delta\<close> (\<open>delta.c\<close>): saving, replaying and filtering changes (C14, C15).
  \<^item> \<open>Uci_Context\<close> (\<open>libuci.c\<close>, \<open>file.c\<close>, \<open>delta.c\<close>): contexts, the search path as an invariant of reachable
    contexts (C16), load, commit and revert over a map of files (C17, C18).
  \<^item> \<open>Uci_Parse\<close> (\<open>parse.c\<close>): option tables and their hash.
  \<^item> \<open>Ulist\<close> (\<open>libubox/list.h\<close>): circular lists in an explicit heap; every sequence of operations refines
    operations on lists (C19).
  \<^item> \<open>Avl\<close>, \<open>Avl_Tree\<close>, \<open>Avl_Map\<close> (\<open>avl.c\<close>, \<open>avl-cmp.c\<close>): the operations; trees in the heap, rotations and
    rebalancing; the tree and the list of nodes together as an ordered multimap with insertion, deletion
    and three searches (C20 to C22).  Comparators are a locale, interpreted by \<open>avl_strcmp\<close>.
  \<^item> \<open>Vlist\<close> (\<open>vlist.c\<close>): versioned lists as a client of the tree (C23, C24).
  \<^item> \<open>Uloop\<close>, \<open>Uloop_Timers\<close> (\<open>uloop.c\<close>): the event loop over \<open>epoll\<close>; the order of the timers, running
    them and the time to sleep (C25, C26).  The contract of timer callbacks is a locale, interpreted by
    callbacks that are sequences of calls to the module.
  \<^item> \<open>Uloop_Events\<close> (\<open>uloop.c\<close>): fetching and dispatching events and deleting descriptors, with callbacks that do
    the same while events are pending (C27).
  \<^item> \<open>Ustream\<close>, \<open>Ustream_Queue\<close>, \<open>Ustream_Io\<close> (\<open>ustream.c\<close>, \<open>ustream.h\<close>): streams; their chains of buffers as queues
    of bytes; writing and reading over the contract of a stream implementation, which is a locale.
  \<^item> \<open>Ustream_Fd\<close> (\<open>ustream-fd.c\<close>): streams on descriptors, over \<open>Ustream\<close> and \<open>Uloop\<close>; they keep the contract, for
    every user that keeps its own, such as one that consumes what it is notified of (C28 to C30).  What \<open>read\<close> answers is a stream,
    which may never pause; what \<open>write\<close> answers is a list, after which the descriptor takes no more for now.
  \<^item> \<open>Safe_List\<close> (\<open>safe_list.c\<close>): lists that change while they are iterated, on top of \<open>Ulist\<close> (C31).  The contract of
    the callbacks is a locale, in which an iteration is again a lawful callback.
  \<^item> \<open>Json_Script\<close> (\<open>json_script.c\<close>): the interpreter of scripts over \<open>Blobmsg\<close>; a run ends although files may
    include each other, and without a fault on plain scripts (C32); there a fault is a value of its own, apart from not returning.  What
    a loader of files promises is a locale, and another extends it by plain files.
  \<^item> \<open>Runqueue\<close> (\<open>runqueue.c\<close>): queues of tasks; the invariant of the queue and of its wakeups under every operation,
    starting tasks up to the limit, and killing a queue (C33 to C35).  The contracts of the callbacks are two locales, of which the
    second extends the first by callbacks that add no tasks; callbacks that call the queue again interpret them.
  \<^item> \<open>Uci_Blob\<close> (\<open>libuci/blob.c\<close>): sections of \<open>Uci_Data\<close> as messages of \<open>Blobmsg\<close>, the bytes that a conversion builds
    and the comparison of two messages (C36, C37).
  \<^item> \<open>Uci_Import\<close> (\<open>file.c\<close>): what the parser keeps on any text, so that an import with a name gives one package of this name.
  \<^item> \<open>Uci_Cli\<close> (\<open>uci_app/cli.c\<close>): the commands of the program \<open>uci\<close> over \<open>Uci_Context\<close>.  Across all the theories of
    \<open>libuci\<close>, a value that is set is read back from the files (C38); the names that are shown lead back to what they were
    shown for (C39); commands that read, and those that fail, \<open>import\<close> without a name excepted, leave the files alone (C40).

  \<^bold>\<open>Facts that are not as intended.\<close>  Some theorems show that the code misbehaves on particular inputs:
  C6, \<open>blobmsg_check_attr_overread\<close>, \<open>uci_set_empty_records\<close>, \<open>uci_import_stale_line\<close>,
  \<open>uci_parse_config_dangling\<close>, \<open>uci_parse_delta_add_empty\<close>, \<open>expr_not_does_not_negate\<close>,
  \<open>cmd_add_string_overflows\<close>, \<open>json_script_free_faults\<close>, \<open>runqueue_kill_loses_wakeup\<close> and
  \<open>section_ref_overflow\<close>.

  \<^bold>\<open>Not modelled.\<close>  The boot loader, which is third-party code; conversion to JSON, which rests on a
  library outside the repository; wrappers of system calls (sockets, logging, file locking); the
  variant of the event loop for \<open>kqueue\<close>; the batch mode of the command line and the Lua
  bindings; the small sample programs.
\<close>

end
